(* ===== verification/Bytes.thy ===== *)
theory Bytes
  imports Prelude
begin

text \<open>
  Memory as the C code sees it: a run of bytes with \<open>memcpy\<close> in and out of it, and the
  little-endian integers the page layouts are made of. The interface \<open>packed_struct\<close> is what
  every \<open>__attribute__((packed))\<close> struct of \<open>page_format.h\<close> promises: a fixed size, and a
  copy in followed by a copy out gives the value back.
\<close>

section \<open>memcpy\<close>

definition mread :: "bytes \<Rightarrow> nat \<Rightarrow> nat \<Rightarrow> bytes" where
  "mread b off n = take n (drop off b)"

definition mwrite :: "bytes \<Rightarrow> nat \<Rightarrow> bytes \<Rightarrow> bytes" where
  "mwrite b off d = take off b @ d @ drop (off + length d) b"

lemma length_mread [mem_simps]: "off + n \<le> length b \<Longrightarrow> length (mread b off n) = n"
  by (simp add: mread_def)

lemma length_mwrite [mem_simps]: "off + length d \<le> length b \<Longrightarrow> length (mwrite b off d) = length b"
  by (simp add: mwrite_def)

lemma mwrite_nth:
  assumes "off + length d \<le> length b" "i < length b"
  shows "mwrite b off d ! i = (if off \<le> i \<and> i < off + length d then d ! (i - off) else b ! i)"
  using assms by (auto simp: mwrite_def nth_append min_def)

lemma mread_nth: "off + n \<le> length b \<Longrightarrow> i < n \<Longrightarrow> mread b off n ! i = b ! (off + i)"
  by (simp add: mread_def)

lemma mread_mwrite_same [mem_simps]:
  assumes "off + length d \<le> length b" "length d = n"
  shows "mread (mwrite b off d) off n = d"
  using assms by (simp add: mread_def mwrite_def)

lemma mread_mwrite_inside:
  assumes "off + length d \<le> length b" "off \<le> o2" "o2 + n \<le> off + length d"
  shows "mread (mwrite b off d) o2 n = mread d (o2 - off) n"
  using assms
  by (intro nth_equalityI) (auto simp: length_mread length_mwrite mread_nth mwrite_nth)

lemma mread_mwrite_disjoint [mem_simps]:
  assumes "off + length d \<le> length b" "o2 + n \<le> length b" "o2 + n \<le> off \<or> off + length d \<le> o2"
  shows "mread (mwrite b off d) o2 n = mread b o2 n"
  using assms
  by (intro nth_equalityI) (auto simp: length_mread length_mwrite mread_nth mwrite_nth)

section \<open>Little-endian integers\<close>

primrec le_bytes :: "nat \<Rightarrow> nat \<Rightarrow> bytes" where
  "le_bytes 0 v = []"
| "le_bytes (Suc n) v = word_of_nat v # le_bytes n (v div 256)"

primrec le_val :: "bytes \<Rightarrow> nat" where
  "le_val [] = 0"
| "le_val (b # bs) = unat b + 256 * le_val bs"

lemma length_le_bytes [simp, layout_simps]: "length (le_bytes n v) = n"
  by (induction n arbitrary: v) auto

lemma le_val_le_bytes_mod: "le_val (le_bytes n v) = v mod 256 ^ n"
proof (induction n arbitrary: v)
  case 0
  then show ?case by simp
next
  case (Suc n)
  have "le_val (le_bytes (Suc n) v) = v mod 256 + 256 * (v div 256 mod 256 ^ n)"
    by (simp add: Suc.IH unsigned_of_nat take_bit_eq_mod)
  also have "\<dots> = v mod 256 ^ Suc n"
    by (simp add: mod_mult2_eq)
  finally show ?case .
qed

lemma le_val_le_bytes [simp]: "v < 256 ^ n \<Longrightarrow> le_val (le_bytes n v) = v"
  by (simp add: le_val_le_bytes_mod)

lemma le_bytes_le_val: "le_bytes (length b) (le_val b) = b"
proof (induction b)
  case Nil
  then show ?case by simp
next
  case (Cons x b)
  have "word_of_nat (unat x + 256 * le_val b) = (x :: u8)"
  proof -
    have "unat (word_of_nat (unat x + 256 * le_val b) :: u8) = unat x"
      using unsigned_less [of x, where 'a = nat] by (simp add: unsigned_of_nat take_bit_eq_mod del: of_nat_add of_nat_mult)
    then show ?thesis by (simp only: unat_inj_iff)
  qed
  moreover have "(unat x + 256 * le_val b) div 256 = le_val b"
    using unsigned_less [of x, where 'a = nat] by simp
  ultimately show ?case using Cons.IH by simp
qed

lemma le_val_zeros [simp]: "le_val (replicate n 0) = 0"
  by (induction n) auto

text \<open>The three widths the structs use; \<open>wr\<close> is the value's bytes, \<open>rd\<close> its value in memory.\<close>

definition wr16 :: "u16 \<Rightarrow> bytes" where "wr16 w = le_bytes 2 (unat w)"
definition wr32 :: "u32 \<Rightarrow> bytes" where "wr32 w = le_bytes 4 (unat w)"
definition wr64 :: "u64 \<Rightarrow> bytes" where "wr64 w = le_bytes 8 (unat w)"

definition rd16 :: "bytes \<Rightarrow> nat \<Rightarrow> u16" where "rd16 b off = word_of_nat (le_val (mread b off 2))"
definition rd32 :: "bytes \<Rightarrow> nat \<Rightarrow> u32" where "rd32 b off = word_of_nat (le_val (mread b off 4))"
definition rd64 :: "bytes \<Rightarrow> nat \<Rightarrow> u64" where "rd64 b off = word_of_nat (le_val (mread b off 8))"

lemma length_wr [simp, layout_simps]:
  "length (wr16 a) = 2" "length (wr32 b) = 4" "length (wr64 c) = 8"
  by (simp_all add: wr16_def wr32_def wr64_def)

lemma rd_here [simp]:
  "rd16 (wr16 u @ ys) 0 = u" "rd32 (wr32 v @ ys) 0 = v" "rd64 (wr64 w @ ys) 0 = w"
  by (simp_all add: rd16_def wr16_def rd32_def wr32_def rd64_def wr64_def mread_def)

lemma rd_here_end [simp]:
  "rd16 (wr16 u) 0 = u" "rd32 (wr32 v) 0 = v" "rd64 (wr64 w) 0 = w"
  by (simp_all add: rd16_def wr16_def rd32_def wr32_def rd64_def wr64_def mread_def)

lemma rd_skip [simp]:
  "length xs \<le> off \<Longrightarrow> rd16 (xs @ ys) off = rd16 ys (off - length xs)"
  "length xs \<le> off \<Longrightarrow> rd32 (xs @ ys) off = rd32 ys (off - length xs)"
  "length xs \<le> off \<Longrightarrow> rd64 (xs @ ys) off = rd64 ys (off - length xs)"
  by (simp_all add: rd16_def rd32_def rd64_def mread_def)

lemma rd_cons [simp]:
  "0 < off \<Longrightarrow> rd16 (x # ys) off = rd16 ys (off - 1)"
  "0 < off \<Longrightarrow> rd32 (x # ys) off = rd32 ys (off - 1)"
  "0 < off \<Longrightarrow> rd64 (x # ys) off = rd64 ys (off - 1)"
  by (simp_all add: rd16_def rd32_def rd64_def mread_def drop_Cons')

lemma rd_take [simp]:
  "off + 2 \<le> n \<Longrightarrow> rd16 (take n b) off = rd16 b off"
  "off + 4 \<le> n \<Longrightarrow> rd32 (take n b) off = rd32 b off"
  "off + 8 \<le> n \<Longrightarrow> rd64 (take n b) off = rd64 b off"
  by (simp_all add: rd16_def rd32_def rd64_def mread_def drop_take min_def)

section \<open>NUL-terminated strings in fixed fields\<close>

text \<open>
  A \<open>char name[n]\<close> field: the string's bytes, padded with zeros; reading stops at the first
  zero. A string fits when it leaves room for the terminator and holds no zero itself.
\<close>

definition str_bytes :: "string \<Rightarrow> bytes" where
  "str_bytes s = map (\<lambda>c. word_of_nat (of_char c)) s"

definition bytes_str :: "bytes \<Rightarrow> string" where
  "bytes_str b = map (\<lambda>x. char_of (unat x)) b"

definition cstr_field :: "nat \<Rightarrow> string \<Rightarrow> bytes" where
  "cstr_field n s = take n (str_bytes s @ replicate n 0)"

definition cstr_get :: "bytes \<Rightarrow> string" where
  "cstr_get b = bytes_str (takeWhile (\<lambda>x. x \<noteq> 0) b)"

definition cstr_fits :: "nat \<Rightarrow> string \<Rightarrow> bool" where
  "cstr_fits n s \<longleftrightarrow> length s < n \<and> CHR 0x00 \<notin> set s"

lemma length_str_bytes [simp]: "length (str_bytes s) = length s"
  by (simp add: str_bytes_def)

lemma length_cstr_field [simp]: "length (cstr_field n s) = n"
  by (simp add: cstr_field_def)

lemma bytes_str_str_bytes [simp]: "bytes_str (str_bytes s) = s"
proof -
  have "unat (word_of_nat (of_char c) :: u8) = of_char c" for c :: char
    using of_char_mod_256 [of c, where 'a = nat] by (simp add: unsigned_of_nat take_bit_eq_mod)
  then show ?thesis by (simp add: bytes_str_def str_bytes_def comp_def)
qed

lemma str_bytes_no_zero: "0 \<in> set (str_bytes s) \<longleftrightarrow> CHR 0x00 \<in> set s"
proof -
  have "(word_of_nat (of_char c) :: u8) = 0 \<longleftrightarrow> c = CHR 0x00" for c :: char
  proof -
    have "(word_of_nat (of_char c) :: u8) = 0 \<longleftrightarrow> (of_char c :: nat) mod 256 = 0"
      by (simp add: word_of_nat_eq_0_iff dvd_eq_mod_eq_0)
    also have "\<dots> \<longleftrightarrow> of_char c = (of_char (CHR 0x00) :: nat)"
      using of_char_mod_256 [of c, where 'a = nat] by simp
    finally show ?thesis by (simp only: of_char_eq_iff)
  qed
  then show ?thesis by (auto simp: str_bytes_def image_iff)
qed

lemma cstr_get_field [simp]:
  assumes "cstr_fits n s"
  shows "cstr_get (cstr_field n s) = s"
proof -
  from assms have n: "length s < n" and z: "0 \<notin> set (str_bytes s)"
    by (simp_all add: cstr_fits_def str_bytes_no_zero)
  then obtain k where k: "n = length s + Suc k"
    using less_imp_Suc_add by (metis add_Suc_right)
  have "cstr_field n s = str_bytes s @ 0 # replicate k 0"
    by (simp add: cstr_field_def k)
  with z have "takeWhile (\<lambda>x. x \<noteq> 0) (cstr_field n s) = str_bytes s"
    by (simp add: takeWhile_append)
  then show ?thesis by (simp add: cstr_get_def)
qed

section \<open>The packed-struct interface\<close>

text \<open>
  What the clients of a packed struct rely on. \<open>enc\<close> is the copy of the struct's bytes,
  \<open>dec\<close> the struct at the head of a run of memory; \<open>valid\<close> holds of the values the struct
  can hold without loss.
\<close>

definition get_array :: "(bytes \<Rightarrow> 'a) \<Rightarrow> nat \<Rightarrow> bytes \<Rightarrow> nat \<Rightarrow> nat \<Rightarrow> 'a list" where
  "get_array dec sz b off n = map (\<lambda>i. dec (drop (off + i * sz) b)) [0..<n]"

definition put_array :: "('a \<Rightarrow> bytes) \<Rightarrow> 'a list \<Rightarrow> bytes" where
  "put_array enc xs = concat (map enc xs)"

lemma length_get_array [simp]: "length (get_array dec sz b off n) = n"
  by (simp add: get_array_def)

locale packed_struct =
  fixes enc :: "'a \<Rightarrow> bytes" and dec :: "bytes \<Rightarrow> 'a" and sz :: nat and valid :: "'a \<Rightarrow> bool"
  assumes length_enc: "valid x \<Longrightarrow> length (enc x) = sz"
    and dec_enc: "valid x \<Longrightarrow> dec (enc x) = x"
    and dec_take: "sz \<le> length b \<Longrightarrow> dec (take sz b) = dec b"
begin

lemma dec_enc_append: "valid x \<Longrightarrow> dec (enc x @ rest) = x"
  using dec_take [of "enc x @ rest"] by (simp add: length_enc dec_enc)

lemma load_store:
  assumes "valid x" "off + sz \<le> length b"
  shows "dec (drop off (mwrite b off (enc x))) = x"
  using assms by (simp add: mwrite_def dec_enc_append length_enc)

lemma load_mread: "off + sz \<le> length b \<Longrightarrow> dec (drop off b) = dec (mread b off sz)"
  by (simp add: mread_def dec_take)

lemma load_store_other:
  assumes "off + length d \<le> length b" "o2 + sz \<le> length b" "o2 + sz \<le> off \<or> off + length d \<le> o2"
  shows "dec (drop o2 (mwrite b off d)) = dec (drop o2 b)"
  using assms by (simp add: load_mread mem_simps)

lemma length_put_array: "\<forall>x \<in> set xs. valid x \<Longrightarrow> length (put_array enc xs) = length xs * sz"
  by (induction xs) (auto simp: put_array_def length_enc)

lemma put_array_drop:
  assumes "\<forall>x \<in> set xs. valid x" "i < length xs"
  shows "\<exists>rest. drop (i * sz) (put_array enc xs) = enc (xs ! i) @ rest"
  using assms
proof (induction xs arbitrary: i)
  case Nil
  then show ?case by simp
next
  case (Cons x xs)
  show ?case
  proof (cases i)
    case 0
    then show ?thesis by (simp add: put_array_def)
  next
    case (Suc j)
    with Cons obtain rest where "drop (j * sz) (put_array enc xs) = enc (xs ! j) @ rest"
      by fastforce
    with Suc Cons.prems show ?thesis by (simp add: put_array_def length_enc)
  qed
qed

lemma get_put_array:
  assumes v: "\<forall>x \<in> set xs. valid x" and len: "off + length xs * sz \<le> length b"
  shows "get_array dec sz (mwrite b off (put_array enc xs)) off (length xs) = xs"
proof (rule nth_equalityI)
  show "length (get_array dec sz (mwrite b off (put_array enc xs)) off (length xs)) = length xs"
    by simp
next
  fix i assume "i < length (get_array dec sz (mwrite b off (put_array enc xs)) off (length xs))"
  then have i: "i < length xs" by simp
  obtain rest where r: "drop (i * sz) (put_array enc xs) = enc (xs ! i) @ rest"
    using put_array_drop [OF v i] by blast
  have "i * sz \<le> length (put_array enc xs)"
    using i by (simp add: length_put_array [OF v])
  moreover have "off \<le> length b"
    using len by simp
  ultimately have "drop (off + i * sz) (mwrite b off (put_array enc xs))
      = enc (xs ! i) @ rest @ drop (off + length (put_array enc xs)) b"
    using r drop_append_exact [of "take off b" off "i * sz"]
    by (simp add: mwrite_def)
  then show "get_array dec sz (mwrite b off (put_array enc xs)) off (length xs) ! i = xs ! i"
    using i v by (simp add: get_array_def dec_enc_append)
qed

lemma get_array_other:
  assumes "off + length d \<le> length b" "o2 + n * sz \<le> length b"
    and "o2 + n * sz \<le> off \<or> off + length d \<le> o2"
  shows "get_array dec sz (mwrite b off d) o2 n = get_array dec sz b o2 n"
proof -
  have "dec (drop (o2 + i * sz) (mwrite b off d)) = dec (drop (o2 + i * sz) b)" if "i < n" for i
  proof -
    have "i * sz + sz \<le> n * sz"
      using that by (metis Suc_leI add.commute mult_Suc mult_le_mono1)
    with assms show ?thesis by (intro load_store_other) auto
  qed
  then show ?thesis by (simp add: get_array_def)
qed

end

end
