(* ===== verification/Page_Format.thy ===== *)
theory Page_Format
  imports Bytes
begin

text \<open>
  The on-disk structs of \<open>include/storage/page_format.h\<close>: each struct is a record with the
  field order and widths of the source, a \<open>put_\<close> function giving its packed bytes and a \<open>get_\<close>
  function reading it from the head of a run of bytes. Every struct is an instance of
  \<open>packed_struct\<close>, so what is stored is what is loaded, and stores elsewhere do not disturb it.
  The host is little-endian, as the comments of \<open>row_serialize\<close> assume.
\<close>

section \<open>Page types and constants\<close>

abbreviation PAGE_TYPE_HEADER :: u32 where "PAGE_TYPE_HEADER \<equiv> 1"
abbreviation PAGE_TYPE_HEAP :: u32 where "PAGE_TYPE_HEAP \<equiv> 2"
abbreviation PAGE_TYPE_LEAF :: u32 where "PAGE_TYPE_LEAF \<equiv> 3"
abbreviation PAGE_TYPE_INTERNAL :: u32 where "PAGE_TYPE_INTERNAL \<equiv> 4"
abbreviation PAGE_TYPE_FREE :: u32 where "PAGE_TYPE_FREE \<equiv> 5"

abbreviation SLOT_ALIVE :: u16 where "SLOT_ALIVE \<equiv> 1"
abbreviation SLOT_FREE :: u16 where "SLOT_FREE \<equiv> 3"
abbreviation SLOT_NONE :: u16 where "SLOT_NONE \<equiv> 0xFFFF"

abbreviation COL_TYPE_INT :: u8 where "COL_TYPE_INT \<equiv> 1"
abbreviation COL_TYPE_BIGINT :: u8 where "COL_TYPE_BIGINT \<equiv> 2"
abbreviation COL_TYPE_VARCHAR :: u8 where "COL_TYPE_VARCHAR \<equiv> 3"

definition MAX_COLUMNS :: nat where "MAX_COLUMNS = 16"

text \<open>\<open>DB_MAGIC\<close> is the literal \<open>"MINIDB\0"\<close>: seven bytes and the terminator, copied as 8.\<close>

definition DB_MAGIC :: bytes where
  "DB_MAGIC = [0x4D, 0x49, 0x4E, 0x49, 0x44, 0x42, 0, 0]"

definition page_type :: "bytes \<Rightarrow> u32" where
  "page_type b = rd32 b 0"

section \<open>row_ref_t\<close>

record row_ref =
  rr_page_id :: u32
  rr_slot_id :: u16

definition put_row_ref :: "row_ref \<Rightarrow> bytes" where
  "put_row_ref r = wr32 (rr_page_id r) @ wr16 (rr_slot_id r)"

definition get_row_ref :: "bytes \<Rightarrow> row_ref" where
  "get_row_ref b = \<lparr>rr_page_id = rd32 b 0, rr_slot_id = rd16 b 4\<rparr>"

interpretation row_ref: packed_struct put_row_ref get_row_ref 6 "\<lambda>_. True"
  by unfold_locales (simp_all add: put_row_ref_def get_row_ref_def)

section \<open>free_page_header_t\<close>

record free_page_header =
  fph_page_type :: u32
  fph_next_free_page :: u32

definition put_free_hdr :: "free_page_header \<Rightarrow> bytes" where
  "put_free_hdr h = wr32 (fph_page_type h) @ wr32 (fph_next_free_page h)"

definition get_free_hdr :: "bytes \<Rightarrow> free_page_header" where
  "get_free_hdr b = \<lparr>fph_page_type = rd32 b 0, fph_next_free_page = rd32 b 4\<rparr>"

interpretation free_hdr: packed_struct put_free_hdr get_free_hdr 8 "\<lambda>_. True"
  by unfold_locales (simp_all add: put_free_hdr_def get_free_hdr_def)

section \<open>Heap pages\<close>

record heap_page_header =
  hph_page_type :: u32
  hph_next_heap_page_id :: u32
  hph_slot_count :: u16
  hph_free_slot_head :: u16
  hph_free_space_offset :: u16
  hph_reserved :: u16

definition put_heap_hdr :: "heap_page_header \<Rightarrow> bytes" where
  "put_heap_hdr h = wr32 (hph_page_type h) @ wr32 (hph_next_heap_page_id h)
     @ wr16 (hph_slot_count h) @ wr16 (hph_free_slot_head h)
     @ wr16 (hph_free_space_offset h) @ wr16 (hph_reserved h)"

definition get_heap_hdr :: "bytes \<Rightarrow> heap_page_header" where
  "get_heap_hdr b = \<lparr>hph_page_type = rd32 b 0, hph_next_heap_page_id = rd32 b 4,
     hph_slot_count = rd16 b 8, hph_free_slot_head = rd16 b 10,
     hph_free_space_offset = rd16 b 12, hph_reserved = rd16 b 14\<rparr>"

interpretation heap_hdr: packed_struct put_heap_hdr get_heap_hdr 16 "\<lambda>_. True"
  by unfold_locales (simp_all add: put_heap_hdr_def get_heap_hdr_def)

record slot =
  sl_offset :: u16
  sl_status :: u16
  sl_next_free :: u16
  sl_reserved :: u16

definition put_slot :: "slot \<Rightarrow> bytes" where
  "put_slot s = wr16 (sl_offset s) @ wr16 (sl_status s) @ wr16 (sl_next_free s) @ wr16 (sl_reserved s)"

definition get_slot :: "bytes \<Rightarrow> slot" where
  "get_slot b = \<lparr>sl_offset = rd16 b 0, sl_status = rd16 b 2, sl_next_free = rd16 b 4,
     sl_reserved = rd16 b 6\<rparr>"

interpretation slot: packed_struct put_slot get_slot 8 "\<lambda>_. True"
  by unfold_locales (simp_all add: put_slot_def get_slot_def)

section \<open>B+ tree leaves\<close>

record leaf_page_header =
  lph_page_type :: u32
  lph_parent_page_id :: u32
  lph_key_count :: u32
  lph_next_leaf :: u32
  lph_prev_leaf :: u32

definition put_leaf_hdr :: "leaf_page_header \<Rightarrow> bytes" where
  "put_leaf_hdr h = wr32 (lph_page_type h) @ wr32 (lph_parent_page_id h) @ wr32 (lph_key_count h)
     @ wr32 (lph_next_leaf h) @ wr32 (lph_prev_leaf h)"

definition get_leaf_hdr :: "bytes \<Rightarrow> leaf_page_header" where
  "get_leaf_hdr b = \<lparr>lph_page_type = rd32 b 0, lph_parent_page_id = rd32 b 4,
     lph_key_count = rd32 b 8, lph_next_leaf = rd32 b 12, lph_prev_leaf = rd32 b 16\<rparr>"

interpretation leaf_hdr: packed_struct put_leaf_hdr get_leaf_hdr 20 "\<lambda>_. True"
  by unfold_locales (simp_all add: put_leaf_hdr_def get_leaf_hdr_def)

record leaf_entry =
  le_key :: u64
  le_row_ref :: row_ref

definition put_leaf_entry :: "leaf_entry \<Rightarrow> bytes" where
  "put_leaf_entry e = wr64 (le_key e) @ put_row_ref (le_row_ref e)"

definition get_leaf_entry :: "bytes \<Rightarrow> leaf_entry" where
  "get_leaf_entry b = \<lparr>le_key = rd64 b 0, le_row_ref = get_row_ref (drop 8 b)\<rparr>"

interpretation leaf_entry: packed_struct put_leaf_entry get_leaf_entry 14 "\<lambda>_. True"
proof
  fix b :: bytes
  assume "14 \<le> length b"
  then have "get_row_ref (take 6 (drop 8 b)) = get_row_ref (drop 8 b)"
    by (intro row_ref.dec_take) simp
  then show "get_leaf_entry (take 14 b) = get_leaf_entry b"
    by (simp add: get_leaf_entry_def drop_take)
qed (simp_all add: put_leaf_entry_def get_leaf_entry_def row_ref.length_enc row_ref.dec_enc)

section \<open>B+ tree internal nodes\<close>

record internal_page_header =
  iph_page_type :: u32
  iph_parent_page_id :: u32
  iph_key_count :: u32
  iph_leftmost_child :: u32

definition put_internal_hdr :: "internal_page_header \<Rightarrow> bytes" where
  "put_internal_hdr h = wr32 (iph_page_type h) @ wr32 (iph_parent_page_id h)
     @ wr32 (iph_key_count h) @ wr32 (iph_leftmost_child h)"

definition get_internal_hdr :: "bytes \<Rightarrow> internal_page_header" where
  "get_internal_hdr b = \<lparr>iph_page_type = rd32 b 0, iph_parent_page_id = rd32 b 4,
     iph_key_count = rd32 b 8, iph_leftmost_child = rd32 b 12\<rparr>"

interpretation internal_hdr: packed_struct put_internal_hdr get_internal_hdr 16 "\<lambda>_. True"
  by unfold_locales (simp_all add: put_internal_hdr_def get_internal_hdr_def)

record internal_entry =
  ie_key :: u64
  ie_right_child :: u32

definition put_internal_entry :: "internal_entry \<Rightarrow> bytes" where
  "put_internal_entry e = wr64 (ie_key e) @ wr32 (ie_right_child e)"

definition get_internal_entry :: "bytes \<Rightarrow> internal_entry" where
  "get_internal_entry b = \<lparr>ie_key = rd64 b 0, ie_right_child = rd32 b 8\<rparr>"

interpretation internal_entry: packed_struct put_internal_entry get_internal_entry 12 "\<lambda>_. True"
  by unfold_locales (simp_all add: put_internal_entry_def get_internal_entry_def)

section \<open>The database header\<close>

record column_meta =
  cm_name :: string
  cm_type :: u8
  cm_size :: u16
  cm_offset :: u16
  cm_is_system :: u8

definition put_column :: "column_meta \<Rightarrow> bytes" where
  "put_column c = cstr_field 32 (cm_name c) @ [cm_type c] @ wr16 (cm_size c) @ wr16 (cm_offset c)
     @ [cm_is_system c]"

definition get_column :: "bytes \<Rightarrow> column_meta" where
  "get_column b = \<lparr>cm_name = cstr_get (mread b 0 32), cm_type = b ! 32, cm_size = rd16 b 33,
     cm_offset = rd16 b 35, cm_is_system = b ! 37\<rparr>"

definition column_fits :: "column_meta \<Rightarrow> bool" where
  "column_fits c \<longleftrightarrow> cstr_fits 32 (cm_name c)"

text \<open>
  The comment above \<open>column_meta_t\<close> says 39 bytes, its byte diagram ends at 38; the packed
  fields (32 + 1 + 2 + 2 + 1) make 38.
\<close>

interpretation column: packed_struct put_column get_column 38 column_fits
proof
  fix c
  assume "column_fits c"
  then show "get_column (put_column c) = c"
    by (simp add: put_column_def get_column_def column_fits_def mread_def nth_append)
next
  fix b :: bytes
  assume "38 \<le> length b"
  then show "get_column (take 38 b) = get_column b"
    by (simp add: get_column_def mread_def)
qed (simp add: put_column_def)

record db_header =
  hd_magic :: bytes
  hd_version :: u32
  hd_page_size :: u32
  hd_root_index_page_id :: u32
  hd_first_heap_page_id :: u32
  hd_next_page_id :: u32
  hd_free_page_head :: u32
  hd_next_id :: u64
  hd_row_count :: u64
  hd_column_count :: u16
  hd_row_size :: u16
  hd_columns :: "column_meta list"

definition put_db_header :: "db_header \<Rightarrow> bytes" where
  "put_db_header h = hd_magic h @ wr32 (hd_version h) @ wr32 (hd_page_size h)
     @ wr32 (hd_root_index_page_id h) @ wr32 (hd_first_heap_page_id h) @ wr32 (hd_next_page_id h)
     @ wr32 (hd_free_page_head h) @ wr64 (hd_next_id h) @ wr64 (hd_row_count h)
     @ wr16 (hd_column_count h) @ wr16 (hd_row_size h) @ put_array put_column (hd_columns h)"

definition get_db_header :: "bytes \<Rightarrow> db_header" where
  "get_db_header b = \<lparr>hd_magic = mread b 0 8, hd_version = rd32 b 8, hd_page_size = rd32 b 12,
     hd_root_index_page_id = rd32 b 16, hd_first_heap_page_id = rd32 b 20,
     hd_next_page_id = rd32 b 24, hd_free_page_head = rd32 b 28, hd_next_id = rd64 b 32,
     hd_row_count = rd64 b 40, hd_column_count = rd16 b 48, hd_row_size = rd16 b 50,
     hd_columns = get_array get_column 38 b 52 MAX_COLUMNS\<rparr>"

definition header_fits :: "db_header \<Rightarrow> bool" where
  "header_fits h \<longleftrightarrow> length (hd_magic h) = 8 \<and> length (hd_columns h) = MAX_COLUMNS
     \<and> (\<forall>c \<in> set (hd_columns h). column_fits c)"

definition DB_HEADER_SIZE :: nat where
  "DB_HEADER_SIZE = 52 + MAX_COLUMNS * 38"

lemma get_array_column_take:
  assumes "52 + n * 38 \<le> m" "m \<le> length b"
  shows "get_array get_column 38 (take m b) 52 n = get_array get_column 38 b 52 n"
proof -
  have "get_column (drop (52 + i * 38) (take m b)) = get_column (drop (52 + i * 38) b)" if "i < n" for i
    using that assms by (subst (1 2) column.load_mread) (auto simp: mread_def drop_take min_def)
  then show ?thesis by (simp add: get_array_def)
qed

lemma get_array_column_append:
  assumes "\<forall>c \<in> set cs. column_fits c" "length p = 52"
  shows "get_array get_column 38 (p @ put_array put_column cs) 52 (length cs) = cs"
  using column.get_put_array [of cs 52 "p @ replicate (length cs * 38) 0"] assms
  by (simp add: mwrite_def column.length_put_array)

interpretation db_header: packed_struct put_db_header get_db_header DB_HEADER_SIZE header_fits
proof
  fix h
  assume v: "header_fits h"
  then show "length (put_db_header h) = DB_HEADER_SIZE"
    by (simp add: put_db_header_def header_fits_def DB_HEADER_SIZE_def column.length_put_array)
  let ?p = "hd_magic h @ wr32 (hd_version h) @ wr32 (hd_page_size h)
     @ wr32 (hd_root_index_page_id h) @ wr32 (hd_first_heap_page_id h) @ wr32 (hd_next_page_id h)
     @ wr32 (hd_free_page_head h) @ wr64 (hd_next_id h) @ wr64 (hd_row_count h)
     @ wr16 (hd_column_count h) @ wr16 (hd_row_size h)"
  have "get_array get_column 38 (?p @ put_array put_column (hd_columns h)) 52 MAX_COLUMNS = hd_columns h"
    using v get_array_column_append [of "hd_columns h" ?p] by (simp add: header_fits_def)
  then show "get_db_header (put_db_header h) = h"
    using v by (simp add: put_db_header_def get_db_header_def header_fits_def mread_def)
next
  fix b :: bytes
  assume "DB_HEADER_SIZE \<le> length b"
  then show "get_db_header (take DB_HEADER_SIZE b) = get_db_header b"
    by (simp add: get_db_header_def DB_HEADER_SIZE_def mread_def MAX_COLUMNS_def get_array_column_take)
qed

lemma DB_HEADER_SIZE_value: "DB_HEADER_SIZE = 660"
  by (simp add: DB_HEADER_SIZE_def MAX_COLUMNS_def)

end
