(* ===== verification/Page_Store.thy ===== *)
theory Page_Store
  imports Page_Format
begin

text \<open>
  The pager as its clients see it: every page has contents, a page can be replaced, allocated
  and freed, and the header of page 0 is kept in memory. This is the abstract specification of
  \<open>src/storage/pager.c\<close> that the heap table and the B+ tree are written against; theory
  \<open>Pager\<close> shows that the frame cache with its write-back and eviction implements it.

  The interface \<open>page_supply\<close> states what a client of allocation relies on: the pages handed
  out are not in use, and freeing gives a page back.
\<close>

record store =
  st_page_size :: u32
  st_hdr :: db_header
  st_pages :: "page_id \<Rightarrow> bytes"
  st_last_heap :: page_id
  st_free_hint :: bool

definition page_zero :: "store \<Rightarrow> bytes" where
  "page_zero s = replicate (unat (st_page_size s)) 0"

definition st_put :: "store \<Rightarrow> page_id \<Rightarrow> bytes \<Rightarrow> store" where
  "st_put s pid b = s\<lparr>st_pages := (st_pages s)(pid := b)\<rparr>"

definition st_alloc :: "store \<Rightarrow> page_id \<times> store" where
  "st_alloc s =
     (let h = st_hdr s in
      if hd_free_page_head h \<noteq> 0 then
        let pid = hd_free_page_head h;
            fph = get_free_hdr (st_pages s pid)
        in (pid, st_put (s\<lparr>st_hdr := h\<lparr>hd_free_page_head := fph_next_free_page fph\<rparr>\<rparr>) pid (page_zero s))
      else
        let pid = hd_next_page_id h
        in (pid, st_put (s\<lparr>st_hdr := h\<lparr>hd_next_page_id := pid + 1\<rparr>\<rparr>) pid (page_zero s)))"

definition st_free :: "store \<Rightarrow> page_id \<Rightarrow> store" where
  "st_free s pid =
     (let h = st_hdr s;
          fph = \<lparr>fph_page_type = PAGE_TYPE_FREE, fph_next_free_page = hd_free_page_head h\<rparr>
      in (st_put s pid (mwrite (page_zero s) 0 (put_free_hdr fph)))
           \<lparr>st_hdr := h\<lparr>hd_free_page_head := pid\<rparr>\<rparr>)"

section \<open>The shape of a store\<close>

text \<open>
  The free list: \<open>fl\<close> are the pages reached from the head of the list, each holding the number
  of the next and marked as free, the last one holding 0.
\<close>

fun free_chain :: "(page_id \<Rightarrow> bytes) \<Rightarrow> page_id \<Rightarrow> page_id list \<Rightarrow> bool" where
  "free_chain pg h [] \<longleftrightarrow> h = 0"
| "free_chain pg h (p # ps) \<longleftrightarrow> h = p \<and> p \<noteq> 0 \<and> fph_page_type (get_free_hdr (pg p)) = PAGE_TYPE_FREE
     \<and> free_chain pg (fph_next_free_page (get_free_hdr (pg p))) ps"

definition store_ok :: "store \<Rightarrow> page_id list \<Rightarrow> bool" where
  "store_ok s fl \<longleftrightarrow>
     64 \<le> unat (st_page_size s) \<and> unat (st_page_size s) < 65536
     \<and> (\<forall>pid. length (st_pages s pid) = unat (st_page_size s))
     \<and> free_chain (st_pages s) (hd_free_page_head (st_hdr s)) fl
     \<and> distinct fl \<and> (\<forall>p \<in> set fl. p < hd_next_page_id (st_hdr s))
     \<and> hd_next_page_id (st_hdr s) \<noteq> 0"

text \<open>The pages in use: numbered below the allocation mark and not on the free list.\<close>

definition in_use :: "store \<Rightarrow> page_id list \<Rightarrow> page_id \<Rightarrow> bool" where
  "in_use s fl p \<longleftrightarrow> p \<noteq> 0 \<and> p < hd_next_page_id (st_hdr s) \<and> p \<notin> set fl"

text \<open>There is room for one more page: a page to recycle, or the 32-bit page numbers have not run out.\<close>

definition room :: "store \<Rightarrow> nat \<Rightarrow> bool" where
  "room s n \<longleftrightarrow> unat (hd_next_page_id (st_hdr s)) + n < 2 ^ 32"

lemma st_put_simps [simp]:
  "st_pages (st_put s pid b) = (st_pages s)(pid := b)"
  "st_hdr (st_put s pid b) = st_hdr s"
  "st_page_size (st_put s pid b) = st_page_size s"
  "st_last_heap (st_put s pid b) = st_last_heap s"
  "st_free_hint (st_put s pid b) = st_free_hint s"
  by (simp_all add: st_put_def)

lemma length_page_zero [simp]: "length (page_zero s) = unat (st_page_size s)"
  by (simp add: page_zero_def)

lemma free_chain_cong:
  "(\<And>p. p \<in> set fl \<Longrightarrow> pg p = pg' p) \<Longrightarrow> free_chain pg h fl = free_chain pg' h fl"
  by (induction fl arbitrary: h) auto

lemma free_chain_unique:
  "free_chain pg h fl \<Longrightarrow> free_chain pg h fl' \<Longrightarrow> fl = fl'"
proof (induction fl arbitrary: h fl')
  case Nil
  then show ?case by (cases fl') auto
next
  case (Cons p ps)
  then show ?case by (cases fl') auto
qed

lemma free_chain_nonzero: "free_chain pg h fl \<Longrightarrow> 0 \<notin> set fl"
  by (induction fl arbitrary: h) auto

lemma free_chain_marked: "free_chain pg h fl \<Longrightarrow> p \<in> set fl \<Longrightarrow> fph_page_type (get_free_hdr (pg p)) = PAGE_TYPE_FREE"
  by (induction fl arbitrary: h) auto

lemma free_chain_upd [simp]:
  "pid \<notin> set fl \<Longrightarrow> free_chain (pg(pid := b)) h fl = free_chain pg h fl"
  by (rule free_chain_cong) auto

lemma store_okD:
  assumes "store_ok s fl"
  shows "length (st_pages s pid) = unat (st_page_size s)"
    and "free_chain (st_pages s) (hd_free_page_head (st_hdr s)) fl"
    and "64 \<le> unat (st_page_size s)" and "unat (st_page_size s) < 65536"
  using assms by (simp_all add: store_ok_def)

text \<open>Replacing a page that is not on the free list keeps the store well formed.\<close>

lemma store_ok_put:
  assumes "store_ok s fl" "pid \<notin> set fl" "length b = unat (st_page_size s)"
  shows "store_ok (st_put s pid b) fl"
  using assms by (auto simp: store_ok_def)

lemma in_use_put [simp]: "in_use (st_put s pid b) fl p = in_use s fl p"
  by (simp add: in_use_def)

text \<open>Header fields other than the allocation fields do not matter to the store's shape.\<close>

lemma store_ok_hdr_cong:
  assumes "hd_free_page_head h = hd_free_page_head (st_hdr s)" "hd_next_page_id h = hd_next_page_id (st_hdr s)"
  shows "store_ok (s\<lparr>st_hdr := h\<rparr>) fl = store_ok s fl" "in_use (s\<lparr>st_hdr := h\<rparr>) fl p = in_use s fl p"
  using assms by (simp_all add: store_ok_def in_use_def)

section \<open>Allocation\<close>

lemma st_alloc_cases:
  assumes "store_ok s fl" "st_alloc s = (pid, s')"
  obtains (reuse) rest where "fl = pid # rest" "st_pages s' = (st_pages s)(pid := page_zero s)"
      "st_hdr s' = (st_hdr s)\<lparr>hd_free_page_head := fph_next_free_page (get_free_hdr (st_pages s pid))\<rparr>"
      "st_page_size s' = st_page_size s" "st_last_heap s' = st_last_heap s" "st_free_hint s' = st_free_hint s"
    | (extend) "fl = []" "pid = hd_next_page_id (st_hdr s)" "st_pages s' = (st_pages s)(pid := page_zero s)"
      "st_hdr s' = (st_hdr s)\<lparr>hd_next_page_id := pid + 1\<rparr>"
      "st_page_size s' = st_page_size s" "st_last_heap s' = st_last_heap s" "st_free_hint s' = st_free_hint s"
proof (cases "hd_free_page_head (st_hdr s) = 0")
  case True
  with assms(1) have "fl = []"
    by (cases fl) (auto simp: store_ok_def)
  with True assms(2) show thesis
    by (intro extend) (auto simp: st_alloc_def Let_def)
next
  case False
  with assms obtain rest where "fl = pid # rest"
    by (cases fl) (auto simp: store_ok_def st_alloc_def Let_def)
  with False assms(2) show thesis
    by (intro reuse) (auto simp: st_alloc_def Let_def)
qed

lemma st_alloc_simps:
  assumes "st_alloc s = (pid, s')"
  shows "st_pages s' = (st_pages s)(pid := page_zero s)" and "st_page_size s' = st_page_size s"
    and "st_last_heap s' = st_last_heap s" and "st_free_hint s' = st_free_hint s"
    and "hd_root_index_page_id (st_hdr s') = hd_root_index_page_id (st_hdr s)"
    and "hd_first_heap_page_id (st_hdr s') = hd_first_heap_page_id (st_hdr s)"
    and "hd_next_id (st_hdr s') = hd_next_id (st_hdr s)"
    and "hd_row_count (st_hdr s') = hd_row_count (st_hdr s)"
    and "hd_columns (st_hdr s') = hd_columns (st_hdr s)"
    and "hd_column_count (st_hdr s') = hd_column_count (st_hdr s)"
    and "hd_row_size (st_hdr s') = hd_row_size (st_hdr s)"
  using assms by (auto simp: st_alloc_def Let_def split: if_splits)

text \<open>What allocation may change of the header: where pages are allocated, nothing else.\<close>

definition hdr_frame :: "db_header \<Rightarrow> db_header \<Rightarrow> bool" where
  "hdr_frame h h' \<longleftrightarrow>
     h' = h\<lparr>hd_free_page_head := hd_free_page_head h', hd_next_page_id := hd_next_page_id h'\<rparr>"

lemma hdr_frame_refl [simp]: "hdr_frame h h"
  by (simp add: hdr_frame_def)

lemma hdr_frame_fields:
  assumes "hdr_frame h h'"
  shows "hd_root_index_page_id h' = hd_root_index_page_id h"
    and "hd_first_heap_page_id h' = hd_first_heap_page_id h"
    and "hd_next_id h' = hd_next_id h" and "hd_row_count h' = hd_row_count h"
    and "hd_columns h' = hd_columns h" and "hd_column_count h' = hd_column_count h"
    and "hd_row_size h' = hd_row_size h"
  using assms by (cases h; cases h'; simp add: hdr_frame_def)+

lemma hdr_frame_trans: "hdr_frame h h' \<Longrightarrow> hdr_frame h' h'' \<Longrightarrow> hdr_frame h h''"
  by (cases h; cases h'; cases h''; simp add: hdr_frame_def)

lemma st_alloc_hdr_frame: "st_alloc s = (pid, s') \<Longrightarrow> hdr_frame (st_hdr s) (st_hdr s')"
  by (auto simp: st_alloc_def Let_def hdr_frame_def split: if_splits)

lemma st_alloc_fresh:
  assumes "store_ok s fl" "st_alloc s = (pid, s')"
  shows "\<not> in_use s fl pid"
  using assms by (rule st_alloc_cases) (auto simp: in_use_def)

lemma u32_less_Suc: "unat (n :: u32) + 1 < 2 ^ 32 \<Longrightarrow> p < n + 1 \<longleftrightarrow> p < n \<or> p = n"
  by (simp add: word_less_nat_alt unat_Suc_small flip: unat_inj_iff) auto

lemma st_alloc_ok:
  assumes "store_ok s fl" "st_alloc s = (pid, s')" "room s 1"
  shows "store_ok s' (tl fl)" and "pid \<noteq> 0"
    and "in_use s' (tl fl) p \<longleftrightarrow> in_use s fl p \<or> p = pid"
proof -
  have A: "store_ok s' (tl fl) \<and> pid \<noteq> 0 \<and> (in_use s' (tl fl) p \<longleftrightarrow> in_use s fl p \<or> p = pid)"
    using assms(1,2)
  proof (cases rule: st_alloc_cases)
    case (reuse rest)
    with assms(1) show ?thesis by (auto simp: store_ok_def in_use_def)
  next
    case extend
    from assms(3) have lt: "unat (hd_next_page_id (st_hdr s)) + 1 < 2 ^ 32"
      by (simp add: room_def)
    then have "hd_next_page_id (st_hdr s) + 1 \<noteq> 0"
      by (simp add: unat_Suc_small flip: unat_inj_iff)
    with extend assms(1) lt show ?thesis
      by (auto simp: store_ok_def in_use_def u32_less_Suc)
  qed
  then show "store_ok s' (tl fl)" "pid \<noteq> 0" "in_use s' (tl fl) p \<longleftrightarrow> in_use s fl p \<or> p = pid"
    by blast+
qed

lemma st_alloc_room:
  assumes "st_alloc s = (pid, s')" "room s (Suc n)"
  shows "room s' n"
  using assms by (auto simp: st_alloc_def Let_def room_def unat_Suc_small split: if_splits)

lemma st_free_ok:
  assumes "store_ok s fl" "in_use s fl pid"
  shows "store_ok (st_free s pid) (pid # fl)"
    and "in_use (st_free s pid) (pid # fl) p \<longleftrightarrow> in_use s fl p \<and> p \<noteq> pid"
proof -
  have "get_free_hdr (mwrite (page_zero s) 0 (put_free_hdr h)) = h" for h
    using free_hdr.load_store [where x = h and off = 0 and b = "page_zero s"] assms(1) by (simp add: store_ok_def)
  with assms show "store_ok (st_free s pid) (pid # fl)"
    by (auto simp: store_ok_def in_use_def st_free_def Let_def length_mwrite free_hdr.length_enc)
  show "in_use (st_free s pid) (pid # fl) p \<longleftrightarrow> in_use s fl p \<and> p \<noteq> pid"
    by (auto simp: in_use_def st_free_def Let_def)
qed

lemma st_free_simps [simp]:
  "st_page_size (st_free s pid) = st_page_size s" "st_last_heap (st_free s pid) = st_last_heap s"
  "st_free_hint (st_free s pid) = st_free_hint s"
  "hd_root_index_page_id (st_hdr (st_free s pid)) = hd_root_index_page_id (st_hdr s)"
  "hd_first_heap_page_id (st_hdr (st_free s pid)) = hd_first_heap_page_id (st_hdr s)"
  "hd_next_page_id (st_hdr (st_free s pid)) = hd_next_page_id (st_hdr s)"
  "p \<noteq> pid \<Longrightarrow> st_pages (st_free s pid) p = st_pages s p"
  by (simp_all add: st_free_def Let_def)

section \<open>The interface of page allocation\<close>

locale page_supply =
  fixes alloc :: "'s \<Rightarrow> page_id \<times> 's" and free :: "'s \<Rightarrow> page_id \<Rightarrow> 's"
    and contents :: "'s \<Rightarrow> page_id \<Rightarrow> bytes" and used :: "'s \<Rightarrow> page_id \<Rightarrow> bool"
    and good :: "'s \<Rightarrow> nat \<Rightarrow> bool"
  assumes alloc_good: "good s (Suc n) \<Longrightarrow> alloc s = (p, s') \<Longrightarrow> good s' n"
    and alloc_fresh: "good s (Suc n) \<Longrightarrow> alloc s = (p, s') \<Longrightarrow> \<not> used s p"
    and alloc_used: "good s (Suc n) \<Longrightarrow> alloc s = (p, s') \<Longrightarrow> used s' q \<longleftrightarrow> used s q \<or> q = p"
    and alloc_contents: "good s (Suc n) \<Longrightarrow> alloc s = (p, s') \<Longrightarrow> q \<noteq> p \<Longrightarrow> contents s' q = contents s q"
    and free_good: "good s n \<Longrightarrow> used s p \<Longrightarrow> good (free s p) n"
    and free_used: "good s n \<Longrightarrow> used s p \<Longrightarrow> used (free s p) q \<longleftrightarrow> used s q \<and> q \<noteq> p"
    and free_contents: "good s n \<Longrightarrow> used s p \<Longrightarrow> q \<noteq> p \<Longrightarrow> contents (free s p) q = contents s q"
begin

lemma alloc_keeps_used_contents:
  assumes "good s (Suc n)" "alloc s = (p, s')" "used s q"
  shows "contents s' q = contents s q" "used s' q"
proof -
  have "q \<noteq> p" using assms alloc_fresh by blast
  with assms show "contents s' q = contents s q" by (simp add: alloc_contents)
  from assms show "used s' q" by (simp add: alloc_used)
qed

text \<open>Two allocations in a row never hand out the same page.\<close>

lemma alloc_twice_distinct:
  assumes "good s (Suc (Suc n))" "alloc s = (p, s')" "alloc s' = (q, s'')"
  shows "p \<noteq> q"
  using assms by (metis alloc_good alloc_fresh alloc_used)

text \<open>A page that was freed is not in use until it is handed out again.\<close>

lemma free_then_alloc:
  assumes "good s (Suc n)" "used s p" "alloc (free s p) = (q, s')" "used s r" "r \<noteq> p"
  shows "q \<noteq> r" and "contents s' r = contents s r"
proof -
  from assms(1,2) have g: "good (free s p) (Suc n)" by (rule free_good)
  from assms(1,2,4,5) have "used (free s p) r" by (simp add: free_used)
  with g assms(3) show "q \<noteq> r" using alloc_fresh by blast
  with g assms show "contents s' r = contents s r"
    by (metis alloc_contents free_contents)
qed

end

lemma store_ok_unique: "store_ok s fl \<Longrightarrow> store_ok s fl' \<Longrightarrow> fl = fl'"
  by (auto simp: store_ok_def intro: free_chain_unique)

definition store_good :: "store \<Rightarrow> nat \<Rightarrow> bool" where
  "store_good s n \<longleftrightarrow> (\<exists>fl. store_ok s fl) \<and> room s n"

definition store_used :: "store \<Rightarrow> page_id \<Rightarrow> bool" where
  "store_used s p \<longleftrightarrow> (\<exists>fl. store_ok s fl \<and> in_use s fl p)"

lemma store_used_eq: "store_ok s fl \<Longrightarrow> store_used s p = in_use s fl p"
  unfolding store_used_def by (metis store_ok_unique)

interpretation st: page_supply st_alloc st_free st_pages store_used store_good
proof
  fix s n p s' q
  assume g: "store_good s (Suc n)" and a: "st_alloc s = (p, s')"
  then obtain fl where ok: "store_ok s fl" and r: "room s 1" and r': "room s (Suc n)"
    by (auto simp: store_good_def room_def)
  note ok' = st_alloc_ok [OF ok a r]
  show "store_good s' n"
    using ok'(1) st_alloc_room [OF a r'] by (auto simp: store_good_def)
  show "\<not> store_used s p"
    using st_alloc_fresh [OF ok a] by (simp add: store_used_eq [OF ok])
  show "store_used s' q \<longleftrightarrow> store_used s q \<or> q = p"
    by (simp add: store_used_eq [OF ok] store_used_eq [OF ok'(1)] ok'(3))
  assume "q \<noteq> p"
  then show "st_pages s' q = st_pages s q"
    by (simp add: st_alloc_simps [OF a])
next
  fix s n p q
  assume g: "store_good s n" and u: "store_used s p"
  then obtain fl where ok: "store_ok s fl" and iu: "in_use s fl p"
    by (auto simp: store_used_def)
  note ok' = st_free_ok [OF ok iu]
  show "store_good (st_free s p) n"
    using ok'(1) g by (auto simp: store_good_def room_def)
  show "store_used (st_free s p) q \<longleftrightarrow> store_used s q \<and> q \<noteq> p"
    by (simp add: store_used_eq [OF ok] store_used_eq [OF ok'(1)] ok'(2))
  assume "q \<noteq> p"
  then show "st_pages (st_free s p) q = st_pages s q" by simp
qed

end
