(* ===== verification/Heap_Page.thy ===== *)
theory Heap_Page
  imports Page_Store
begin

text \<open>
  One slotted heap page (\<open>src/storage/table.c\<close>): the header, the slot directory growing from
  the front and the rows growing from the back. \<open>page_new_slot\<close>, \<open>page_reuse_slot\<close> and
  \<open>page_delete_slot\<close> are the parts of \<open>heap_insert\<close> and \<open>heap_delete\<close> that work on the
  page's bytes; \<open>heap_page_ok\<close> is the invariant they keep, \<open>page_row\<close> the row a slot holds.
\<close>

section \<open>Space accounting\<close>

definition slots_end :: "u16 \<Rightarrow> u16" where
  "slots_end slot_count = word_of_nat (16 + unat slot_count * 8)"

definition available_space :: "u32 \<Rightarrow> heap_page_header \<Rightarrow> u16" where
  "available_space page_size hph =
     (let front = slots_end (hph_slot_count hph);
          back = ucast (page_size - ucast (hph_free_space_offset hph)) :: u16
      in if back \<le> front then 0 else back - front)"

definition slot_need :: "u16 \<Rightarrow> u16" where
  "slot_need row_size = 8 + row_size"

definition fresh_heap_hdr :: heap_page_header where
  "fresh_heap_hdr = \<lparr>hph_page_type = PAGE_TYPE_HEAP, hph_next_heap_page_id = 0, hph_slot_count = 0,
     hph_free_slot_head = SLOT_NONE, hph_free_space_offset = 0, hph_reserved = 0\<rparr>"

section \<open>Slots of a page\<close>

definition slot_off :: "u16 \<Rightarrow> nat" where
  "slot_off i = 16 + unat i * 8"

definition slot_at :: "bytes \<Rightarrow> u16 \<Rightarrow> slot" where
  "slot_at page i = get_slot (drop (slot_off i) page)"

text \<open>Taking a slot from the page's chain of free slots and overwriting its row.\<close>

definition page_reuse_slot :: "bytes \<Rightarrow> bytes \<Rightarrow> u16 \<Rightarrow> u16 \<times> bytes" where
  "page_reuse_slot page row_data row_size =
     (let hph = get_heap_hdr page;
          slot_id = hph_free_slot_head hph;
          slot = slot_at page slot_id;
          hph = hph\<lparr>hph_free_slot_head := sl_next_free slot\<rparr>;
          page = mwrite page (unat (sl_offset slot)) (take (unat row_size) row_data);
          slot = slot\<lparr>sl_status := SLOT_ALIVE, sl_next_free := SLOT_NONE\<rparr>;
          page = mwrite page (slot_off slot_id) (put_slot slot)
      in (slot_id, mwrite page 0 (put_heap_hdr hph)))"

text \<open>Appending a slot to the directory and its row in front of the rows.\<close>

definition page_new_slot :: "u32 \<Rightarrow> bytes \<Rightarrow> bytes \<Rightarrow> u16 \<Rightarrow> u16 \<times> bytes" where
  "page_new_slot page_size page row_data row_size =
     (let hph = get_heap_hdr page;
          slot_id = hph_slot_count hph;
          row_offset = ucast (page_size - ucast (hph_free_space_offset hph) - ucast row_size) :: u16;
          slot = \<lparr>sl_offset = row_offset, sl_status = SLOT_ALIVE, sl_next_free = SLOT_NONE, sl_reserved = 0\<rparr>;
          page = mwrite page (slot_off slot_id) (put_slot slot);
          page = mwrite page (unat row_offset) (take (unat row_size) row_data);
          hph = hph\<lparr>hph_slot_count := hph_slot_count hph + 1,
                    hph_free_space_offset := hph_free_space_offset hph + row_size\<rparr>
      in (slot_id, mwrite page 0 (put_heap_hdr hph)))"

definition page_delete_slot :: "bytes \<Rightarrow> u16 \<Rightarrow> bytes" where
  "page_delete_slot page slot_id =
     (let hph = get_heap_hdr page;
          slot = slot_at page slot_id;
          slot = slot\<lparr>sl_status := SLOT_FREE, sl_next_free := hph_free_slot_head hph\<rparr>;
          hph = hph\<lparr>hph_free_slot_head := slot_id\<rparr>;
          page = mwrite page (slot_off slot_id) (put_slot slot)
      in mwrite page 0 (put_heap_hdr hph))"

section \<open>The page invariant\<close>

fun slot_chain :: "(u16 \<Rightarrow> slot) \<Rightarrow> u16 \<Rightarrow> u16 list \<Rightarrow> bool" where
  "slot_chain sl h [] \<longleftrightarrow> h = SLOT_NONE"
| "slot_chain sl h (i # is) \<longleftrightarrow> h = i \<and> i \<noteq> SLOT_NONE \<and> slot_chain sl (sl_next_free (sl i)) is"

definition row_pos :: "nat \<Rightarrow> nat \<Rightarrow> u16 \<Rightarrow> nat" where
  "row_pos ps rs i = ps - (unat i + 1) * rs"

definition heap_page_ok :: "nat \<Rightarrow> nat \<Rightarrow> bytes \<Rightarrow> bool" where
  "heap_page_ok ps rs b \<longleftrightarrow>
     (let h = get_heap_hdr b; n = hph_slot_count h in
      length b = ps \<and> ps < 65536 \<and> hph_page_type h = PAGE_TYPE_HEAP
      \<and> unat (hph_free_space_offset h) = unat n * rs
      \<and> 16 + unat n * 8 + unat n * rs \<le> ps
      \<and> (\<forall>i < n. unat (sl_offset (slot_at b i)) = row_pos ps rs i
            \<and> sl_status (slot_at b i) \<in> {SLOT_ALIVE, SLOT_FREE})
      \<and> (\<exists>fs. slot_chain (slot_at b) (hph_free_slot_head h) fs \<and> distinct fs
            \<and> set fs = {i. i < n \<and> sl_status (slot_at b i) = SLOT_FREE}))"

text \<open>The row held by a slot, if the slot is alive.\<close>

definition page_row :: "nat \<Rightarrow> bytes \<Rightarrow> u16 \<Rightarrow> bytes option" where
  "page_row rs b i =
     (if i < hph_slot_count (get_heap_hdr b) \<and> sl_status (slot_at b i) = SLOT_ALIVE
      then Some (mread b (unat (sl_offset (slot_at b i))) rs) else None)"

section \<open>Writes to one part of a page leave the others alone\<close>

lemma slot_off_props: "16 \<le> slot_off i" "i \<noteq> j \<Longrightarrow> slot_off i + 8 \<le> slot_off j \<or> slot_off j + 8 \<le> slot_off i"
proof -
  show "16 \<le> slot_off i" by (simp add: slot_off_def)
  assume "i \<noteq> j"
  then have "unat i \<noteq> unat j" by (simp add: unat_inj_iff)
  then show "slot_off i + 8 \<le> slot_off j \<or> slot_off j + 8 \<le> slot_off i"
    by (auto simp: slot_off_def)
qed

lemma hdr_at_put_hdr:
  "16 \<le> length b \<Longrightarrow> get_heap_hdr (mwrite b 0 (put_heap_hdr h)) = h"
  using heap_hdr.load_store [where off = 0] by simp

lemma hdr_other:
  "16 \<le> off \<Longrightarrow> off + length d \<le> length b \<Longrightarrow> get_heap_hdr (mwrite b off d) = get_heap_hdr b"
  using heap_hdr.load_store_other [where ?o2.0 = 0] by simp

lemma slot_at_put_slot:
  "slot_off i + 8 \<le> length b \<Longrightarrow> slot_at (mwrite b (slot_off i) (put_slot sl)) i = sl"
  by (simp add: slot_at_def slot.load_store)

lemma slot_at_put_slot_other:
  "slot_off i + 8 \<le> length b \<Longrightarrow> slot_off j + 8 \<le> length b \<Longrightarrow> i \<noteq> j
   \<Longrightarrow> slot_at (mwrite b (slot_off j) (put_slot sl)) i = slot_at b i"
  unfolding slot_at_def using slot_off_props(2) [of j i]
  by (intro slot.load_store_other) (auto simp: slot.length_enc)

lemma slot_at_put_hdr:
  "slot_off i + 8 \<le> length b \<Longrightarrow> slot_at (mwrite b 0 (put_heap_hdr h)) i = slot_at b i"
  unfolding slot_at_def using slot_off_props(1) [of i]
  by (intro slot.load_store_other) (auto simp: heap_hdr.length_enc)

lemma slot_at_put_row:
  "slot_off i + 8 \<le> pos \<Longrightarrow> pos + length d \<le> length b \<Longrightarrow> slot_at (mwrite b pos d) i = slot_at b i"
  unfolding slot_at_def by (intro slot.load_store_other) auto

lemma row_put_hdr:
  "16 \<le> pos \<Longrightarrow> pos + n \<le> length b \<Longrightarrow> mread (mwrite b 0 (put_heap_hdr h)) pos n = mread b pos n"
  by (intro mread_mwrite_disjoint) (auto simp: heap_hdr.length_enc)

lemma row_put_slot:
  "slot_off i + 8 \<le> pos \<Longrightarrow> pos + n \<le> length b
   \<Longrightarrow> mread (mwrite b (slot_off i) (put_slot sl)) pos n = mread b pos n"
  by (intro mread_mwrite_disjoint) (auto simp: slot.length_enc)

lemmas page_part_simps = hdr_at_put_hdr hdr_other slot_at_put_slot slot_at_put_slot_other
  slot_at_put_hdr slot_at_put_row row_put_hdr row_put_slot length_mwrite
  slot.length_enc heap_hdr.length_enc

text \<open>
  The combined effect of storing a row at \<open>pos\<close>, a slot and the header, whichever of the row
  and the slot goes first.
\<close>

definition page_write3 :: "bytes \<Rightarrow> nat \<Rightarrow> bytes \<Rightarrow> u16 \<Rightarrow> slot \<Rightarrow> heap_page_header \<Rightarrow> bytes" where
  "page_write3 b pos row sid sl h =
     mwrite (mwrite (mwrite b pos row) (slot_off sid) (put_slot sl)) 0 (put_heap_hdr h)"

lemma page_write3:
  assumes "slot_off sid + 8 \<le> pos" "pos + length row \<le> length b"
  shows "length (page_write3 b pos row sid sl h) = length b"
    and "get_heap_hdr (page_write3 b pos row sid sl h) = h"
    and "slot_off i + 8 \<le> pos \<Longrightarrow>
      slot_at (page_write3 b pos row sid sl h) i = (if i = sid then sl else slot_at b i)"
    and "length row = n \<Longrightarrow> mread (page_write3 b pos row sid sl h) pos n = row"
    and "slot_off sid + 8 \<le> q \<Longrightarrow> q + n \<le> length b \<Longrightarrow> q + n \<le> pos \<or> pos + length row \<le> q
      \<Longrightarrow> mread (page_write3 b pos row sid sl h) q n = mread b q n"
  using assms slot_off_props(1) [of sid]
  by (auto simp: page_write3_def page_part_simps mem_simps)

lemma mwrite_commute:
  assumes "o1 + length d1 \<le> o2" "o2 + length d2 \<le> length b"
  shows "mwrite (mwrite b o1 d1) o2 d2 = mwrite (mwrite b o2 d2) o1 d1"
  using assms
  by (intro nth_equalityI) (auto simp: length_mwrite mwrite_nth)

section \<open>The invariant, taken apart\<close>

lemma heap_page_okD:
  assumes "heap_page_ok ps rs b"
  shows "length b = ps" "ps < 65536" "hph_page_type (get_heap_hdr b) = PAGE_TYPE_HEAP"
    "unat (hph_free_space_offset (get_heap_hdr b)) = unat (hph_slot_count (get_heap_hdr b)) * rs"
    "16 + unat (hph_slot_count (get_heap_hdr b)) * 8 + unat (hph_slot_count (get_heap_hdr b)) * rs \<le> ps"
    "i < hph_slot_count (get_heap_hdr b) \<Longrightarrow> unat (sl_offset (slot_at b i)) = row_pos ps rs i"
    "i < hph_slot_count (get_heap_hdr b) \<Longrightarrow> sl_status (slot_at b i) = SLOT_ALIVE \<or> sl_status (slot_at b i) = SLOT_FREE"
  using assms by (auto simp: heap_page_ok_def Let_def)

lemma slot_count_bound:
  assumes "heap_page_ok ps rs b"
  shows "unat (hph_slot_count (get_heap_hdr b)) < 8192"
  using heap_page_okD(2,5) [OF assms] by linarith

text \<open>Slots lie before the rows, and the rows of two slots do not overlap.\<close>

lemma row_pos_bounds:
  assumes "16 + n * 8 + n * rs \<le> ps" "unat i < n"
  shows "slot_off i + 8 \<le> 16 + n * 8" "16 + n * 8 \<le> row_pos ps rs i" "row_pos ps rs i + rs \<le> ps"
proof -
  have m: "(unat i + 1) * rs \<le> n * rs" using assms(2) by (intro mult_le_mono1) simp
  show "slot_off i + 8 \<le> 16 + n * 8" using assms(2) by (simp add: slot_off_def)
  show "16 + n * 8 \<le> row_pos ps rs i" using m assms(1) unfolding row_pos_def by linarith
  have "rs \<le> (unat i + 1) * rs" by simp
  then show "row_pos ps rs i + rs \<le> ps" using m assms(1) unfolding row_pos_def by linarith
qed

lemma row_pos_disjoint_lt:
  assumes "16 + n * 8 + n * rs \<le> ps" "unat i < unat j" "unat j < n"
  shows "row_pos ps rs j + rs \<le> row_pos ps rs i"
proof -
  have "(unat i + 1) * rs + rs \<le> (unat j + 1) * rs"
    using assms(2) by (metis Suc_eq_plus1 Suc_leI add.commute mult_Suc mult_le_mono1 not_less_eq_eq)
  moreover have "(unat j + 1) * rs \<le> n * rs"
    using assms(3) by (intro mult_le_mono1) simp
  ultimately show ?thesis using assms(1) unfolding row_pos_def by linarith
qed

lemma row_pos_disjoint:
  assumes "16 + n * 8 + n * rs \<le> ps" "i \<noteq> j" "unat i < n" "unat j < n"
  shows "row_pos ps rs j + rs \<le> row_pos ps rs i \<or> row_pos ps rs i + rs \<le> row_pos ps rs j"
proof -
  from assms(2) have "unat i < unat j \<or> unat j < unat i"
    by (metis linorder_neqE_nat unat_inj_iff)
  with assms show ?thesis using row_pos_disjoint_lt by blast
qed

lemma slot_chain_cong:
  "(\<And>i. i \<in> set is \<Longrightarrow> sl i = sl' i) \<Longrightarrow> slot_chain sl h is = slot_chain sl' h is"
  by (induction "is" arbitrary: h) auto

lemma slot_chain_head:
  "slot_chain sl h fs \<Longrightarrow> h \<noteq> SLOT_NONE \<Longrightarrow> \<exists>rest. fs = h # rest \<and> slot_chain sl (sl_next_free (sl h)) rest"
  by (cases fs) auto

lemma slot_chain_none: "slot_chain sl SLOT_NONE fs \<Longrightarrow> fs = []"
  by (cases fs) auto

text \<open>A page with no slots: what a newly allocated heap page looks like.\<close>

lemma heap_page_ok_fresh:
  assumes "16 \<le> length b" "length b < 65536"
  shows "heap_page_ok (length b) rs (mwrite b 0 (put_heap_hdr fresh_heap_hdr))"
    and "page_row rs (mwrite b 0 (put_heap_hdr fresh_heap_hdr)) i = None"
proof -
  have "slot_chain sl SLOT_NONE []" for sl by simp
  then show "heap_page_ok (length b) rs (mwrite b 0 (put_heap_hdr fresh_heap_hdr))"
    using assms by (auto simp: heap_page_ok_def Let_def hdr_at_put_hdr fresh_heap_hdr_def
        length_mwrite heap_hdr.length_enc intro!: exI [of _ "[]"])
  show "page_row rs (mwrite b 0 (put_heap_hdr fresh_heap_hdr)) i = None"
    using assms by (simp add: page_row_def hdr_at_put_hdr fresh_heap_hdr_def)
qed

text \<open>Relinking the chain of heap pages does not touch the rows.\<close>

lemma heap_page_ok_relink:
  assumes ok: "heap_page_ok ps rs b"
    and h: "h = (get_heap_hdr b)\<lparr>hph_next_heap_page_id := nxt\<rparr>"
  shows "heap_page_ok ps rs (mwrite b 0 (put_heap_hdr h))"
    and "page_row rs (mwrite b 0 (put_heap_hdr h)) i = page_row rs b i"
proof -
  note D = heap_page_okD [OF ok]
  let ?b = "mwrite b 0 (put_heap_hdr h)" and ?n = "hph_slot_count (get_heap_hdr b)"
  have hdr: "get_heap_hdr ?b = h" and len: "length ?b = ps"
    using D by (auto simp: hdr_at_put_hdr length_mwrite heap_hdr.length_enc)
  have sl: "slot_at ?b j = slot_at b j" if "j < ?n" for j
    using D(1,5) row_pos_bounds(1) [OF D(5), of j] that
    by (intro slot_at_put_hdr) (simp add: word_less_nat_alt)
  obtain fs where fs: "slot_chain (slot_at b) (hph_free_slot_head (get_heap_hdr b)) fs" "distinct fs"
    "set fs = {i. i < ?n \<and> sl_status (slot_at b i) = SLOT_FREE}"
    using ok by (auto simp: heap_page_ok_def Let_def)
  then have "slot_chain (slot_at ?b) (hph_free_slot_head h) fs"
    using slot_chain_cong [of fs "slot_at b" "slot_at ?b"] sl h by auto
  with D hdr len h sl fs show "heap_page_ok ps rs ?b"
    by (auto simp: heap_page_ok_def Let_def intro!: exI [of _ fs])
  show "page_row rs ?b i = page_row rs b i"
  proof (cases "i < ?n")
    case True
    then have "16 + unat ?n * 8 \<le> row_pos ps rs i" "row_pos ps rs i + rs \<le> ps"
      using row_pos_bounds(2,3) [OF D(5), of i] by (simp_all add: word_less_nat_alt)
    with True D hdr h sl show ?thesis by (simp add: page_row_def row_put_hdr)
  next
    case False
    with hdr h show ?thesis by (simp add: page_row_def)
  qed
qed

section \<open>The space check\<close>

text \<open>
  Enough available space for a slot and a row: the 16-bit check means what it says on a well
  formed page, as long as the row and its slot together stay below 64 KiB.
\<close>

lemma available_space_iff:
  assumes ok: "heap_page_ok (unat ps) rs b" and rs: "rs = unat row_size" and w: "unat row_size + 8 < 65536"
    and pos: "0 < rs"
  defines "n \<equiv> unat (hph_slot_count (get_heap_hdr b))"
  shows "slot_need row_size \<le> available_space ps (get_heap_hdr b) \<longleftrightarrow> 16 + (n + 1) * 8 + (n + 1) * rs \<le> unat ps"
proof -
  let ?h = "get_heap_hdr b"
  note D = heap_page_okD [OF ok]
  have f: "unat (slots_end (hph_slot_count ?h)) = 16 + n * 8"
    using D(2,5) unfolding slots_end_def n_def by (intro unat_of_nat_small) linarith
  have fso: "unat (hph_free_space_offset ?h) = n * rs"
    using D(4) by (simp add: n_def)
  have le: "n * rs \<le> unat ps"
    using D(5) by (simp add: n_def)
  have "unat (ps - ucast (hph_free_space_offset ?h)) = unat ps - n * rs"
    using le fso by (subst unat_sub) (simp_all add: word_le_nat_alt unat_ucast_u16_u32)
  then have b: "unat (ucast (ps - ucast (hph_free_space_offset ?h)) :: u16) = unat ps - n * rs"
    using D(2) by (simp add: unat_ucast_u32_u16)
  have nd: "unat (slot_need row_size) = 8 + rs"
    using w rs by (simp add: slot_need_def unat_word_ariths)
  let ?bk = "ucast (ps - ucast (hph_free_space_offset ?h)) :: u16"
  show ?thesis
  proof (cases "?bk \<le> slots_end (hph_slot_count ?h)")
    case True
    then have "unat ps - n * rs \<le> 16 + n * 8"
      by (simp add: word_le_nat_alt b f)
    moreover have "\<not> slot_need row_size \<le> 0"
      using nd by (simp add: word_le_nat_alt)
    ultimately show ?thesis
      using True by (auto simp: available_space_def Let_def)
  next
    case False
    then have lt: "slots_end (hph_slot_count ?h) \<le> ?bk" by simp
    then have "unat (?bk - slots_end (hph_slot_count ?h)) = unat ps - n * rs - (16 + n * 8)"
      by (simp add: unat_sub b f)
    with False lt show ?thesis
      by (auto simp: available_space_def Let_def word_le_nat_alt nd b f)
  qed
qed

section \<open>Inserting and deleting\<close>

lemma page_reuse_slot_eq:
  assumes ok: "heap_page_ok ps rs b" and hd: "hph_free_slot_head (get_heap_hdr b) = sid" "sid \<noteq> SLOT_NONE"
    and row: "length row = rs" "rs = unat row_size"
  shows "sid < hph_slot_count (get_heap_hdr b)" and "sl_status (slot_at b sid) = SLOT_FREE"
    and "page_reuse_slot b row row_size = (sid, page_write3 b (row_pos ps rs sid) row sid
      ((slot_at b sid)\<lparr>sl_status := SLOT_ALIVE, sl_next_free := SLOT_NONE\<rparr>)
      ((get_heap_hdr b)\<lparr>hph_free_slot_head := sl_next_free (slot_at b sid)\<rparr>))"
proof -
  obtain fs where fs: "slot_chain (slot_at b) (hph_free_slot_head (get_heap_hdr b)) fs"
    "set fs = {i. i < hph_slot_count (get_heap_hdr b) \<and> sl_status (slot_at b i) = SLOT_FREE}"
    using ok by (auto simp: heap_page_ok_def Let_def)
  then obtain rest where "fs = sid # rest"
    using slot_chain_head [OF fs(1)] hd by metis
  then have "sid \<in> set fs" by simp
  then have "sid \<in> {i. i < hph_slot_count (get_heap_hdr b) \<and> sl_status (slot_at b i) = SLOT_FREE}"
    by (simp only: fs(2))
  then show lt: "sid < hph_slot_count (get_heap_hdr b)" and "sl_status (slot_at b sid) = SLOT_FREE"
    by simp_all
  show "page_reuse_slot b row row_size = (sid, page_write3 b (row_pos ps rs sid) row sid
      ((slot_at b sid)\<lparr>sl_status := SLOT_ALIVE, sl_next_free := SLOT_NONE\<rparr>)
      ((get_heap_hdr b)\<lparr>hph_free_slot_head := sl_next_free (slot_at b sid)\<rparr>))"
    unfolding page_reuse_slot_def page_write3_def Let_def hd(1) heap_page_okD(6) [OF ok lt]
    using row by simp
qed

text \<open>
  The invariant after a row has been stored in slot \<open>sid\<close>, with the header's counters and free
  chain as they have to be.
\<close>

lemma heap_page_ok_store:
  assumes ok: "heap_page_ok ps rs b" and row: "length row = rs"
    and n: "n = unat (hph_slot_count (get_heap_hdr b))"
    and n': "n' = unat (hph_slot_count h)" "n \<le> n'" "n' \<le> Suc n" "16 + n' * 8 + n' * rs \<le> ps"
    and sid: "unat sid < n'" "n < n' \<longrightarrow> unat sid = n"
    and sl: "unat (sl_offset sl) = row_pos ps rs sid" "sl_status sl = SLOT_ALIVE"
    and h: "hph_page_type h = PAGE_TYPE_HEAP" "unat (hph_free_space_offset h) = n' * rs"
    and chain: "slot_chain (slot_at b) (hph_free_slot_head h) fs" "distinct fs" 
      "set fs = {i. unat i < n \<and> i \<noteq> sid \<and> sl_status (slot_at b i) = SLOT_FREE}"
    and b': "b' = page_write3 b (row_pos ps rs sid) row sid sl h"
  shows "heap_page_ok ps rs b'" and "page_row rs b' i = (if i = sid then Some row else page_row rs b i)"
    and "get_heap_hdr b' = h"
proof -
  note D = heap_page_okD [OF ok]
  note B = row_pos_bounds [OF n'(4)]
  have s1: "slot_off sid + 8 \<le> row_pos ps rs sid" and s2: "row_pos ps rs sid + length row \<le> length b"
    using B [OF sid(1)] row D(1) by simp_all
  note W = page_write3 [OF s1 s2, where sl = sl and h = h, folded b']
  have slot: "slot_at b' j = (if j = sid then sl else slot_at b j)" if "unat j < n'" for j
    using B(1) [OF that] B(2) [OF sid(1)] by (intro W(3)) simp
  have old: "unat j < n'" "unat j < n \<or> j = sid" if "j < hph_slot_count h" for j
  proof -
    from that n' show lt: "unat j < n'" by (simp add: word_less_nat_alt)
    show "unat j < n \<or> j = sid"
      using lt sid n'(2,3) by (metis Suc_leI le_antisym less_Suc_eq not_less_eq unat_inj_iff nat_less_le)
  qed
  have "slot_chain (slot_at b') (hph_free_slot_head h) fs"
    using chain slot n'(2) slot_chain_cong [of fs "slot_at b" "slot_at b'"] by fastforce
  moreover have "i \<in> set fs \<longleftrightarrow> i < hph_slot_count h \<and> sl_status (slot_at b' i) = SLOT_FREE" for i
  proof (cases "unat i < n'")
    case True
    show ?thesis
    proof (cases "i = sid")
      case True
      with slot [OF sid(1)] sl(2) chain(3) show ?thesis by simp
    next
      case False
      with slot [OF True] old(2) [of i] chain(3) n'(1) True show ?thesis
        by (simp add: word_less_nat_alt)
    qed
  next
    case False
    with n'(1,2) chain(3) show ?thesis by (simp add: word_less_nat_alt)
  qed
  then have "set fs = {i. i < hph_slot_count h \<and> sl_status (slot_at b' i) = SLOT_FREE}"
    by blast
  moreover have "unat (sl_offset (slot_at b' i)) = row_pos ps rs i
      \<and> sl_status (slot_at b' i) \<in> {SLOT_ALIVE, SLOT_FREE}" if "i < hph_slot_count h" for i
    using old [OF that] slot sl D(6,7) n by (auto simp: word_less_nat_alt)
  ultimately show "heap_page_ok ps rs b'"
    using chain(2) W D h n' by (auto simp: heap_page_ok_def Let_def)
  show "get_heap_hdr b' = h" by (rule W(2))
  show "page_row rs b' i = (if i = sid then Some row else page_row rs b i)"
  proof (cases "i = sid")
    case True
    then show ?thesis
      using W(2) slot [OF sid(1)] sl sid(1) n'(1) W(4) [OF row]
      by (simp add: page_row_def word_less_nat_alt)
  next
    case False
    show ?thesis
    proof (cases "unat i < n")
      case True
      then have lt: "unat i < n'" using n'(2) by simp
      have pos: "unat (sl_offset (slot_at b i)) = row_pos ps rs i"
        using D(6) True n by (simp add: word_less_nat_alt)
      have "mread b' (row_pos ps rs i) rs = mread b (row_pos ps rs i) rs"
        using B [OF lt] B [OF sid(1)] row_pos_disjoint [OF n'(4) False lt sid(1)] row D(1)
        by (intro W(5)) auto
      then show ?thesis
        using False slot [OF lt] lt True pos n n'(1) W(2)
        by (simp add: page_row_def word_less_nat_alt)
    next
      case nlt: False
      then have "\<not> i < hph_slot_count h"
        using old False by blast
      with nlt False n W(2) show ?thesis
        by (simp add: page_row_def word_less_nat_alt)
    qed
  qed
qed

theorem page_reuse_slot_ok:
  assumes ok: "heap_page_ok ps rs b" and hd: "hph_free_slot_head (get_heap_hdr b) \<noteq> SLOT_NONE"
    and row: "length row = rs" "rs = unat row_size"
    and res: "page_reuse_slot b row row_size = (sid, b')"
  shows "heap_page_ok ps rs b'" and "page_row rs b sid = None"
    and "page_row rs b' i = (if i = sid then Some row else page_row rs b i)"
    and "hph_next_heap_page_id (get_heap_hdr b') = hph_next_heap_page_id (get_heap_hdr b)"
proof -
  note D = heap_page_okD [OF ok]
  let ?h = "(get_heap_hdr b)\<lparr>hph_free_slot_head := sl_next_free (slot_at b sid)\<rparr>"
  have sid: "hph_free_slot_head (get_heap_hdr b) = sid"
    using res by (simp add: page_reuse_slot_def Let_def)
  note E = page_reuse_slot_eq [OF ok sid _ row]
  obtain fs where fs: "slot_chain (slot_at b) (hph_free_slot_head (get_heap_hdr b)) fs" "distinct fs"
    "set fs = {i. i < hph_slot_count (get_heap_hdr b) \<and> sl_status (slot_at b i) = SLOT_FREE}"
    using ok by (auto simp: heap_page_ok_def Let_def)
  then obtain rest where rest: "fs = sid # rest" "slot_chain (slot_at b) (sl_next_free (slot_at b sid)) rest"
    using slot_chain_head [OF fs(1) hd] sid by auto
  have b': "b' = page_write3 b (row_pos ps rs sid) row sid
      ((slot_at b sid)\<lparr>sl_status := SLOT_ALIVE, sl_next_free := SLOT_NONE\<rparr>) ?h"
    using E(3) res hd sid by simp
  have lt: "sid < hph_slot_count (get_heap_hdr b)" and free: "sl_status (slot_at b sid) = SLOT_FREE"
    using E(1,2) hd sid by simp_all
  have "set rest = {i. unat i < unat (hph_slot_count (get_heap_hdr b)) \<and> i \<noteq> sid
      \<and> sl_status (slot_at b i) = SLOT_FREE}"
    using fs(2,3) rest(1) by (auto simp: word_less_nat_alt)
  note S = heap_page_ok_store [OF ok row(1) refl refl, where h = ?h and sid = sid and fs = rest, OF _ _ _ _ _ _ _ _ _ _ _ this b']
  show "heap_page_ok ps rs b'"
    using D lt rest fs(2) by (intro S(1)) (auto simp: word_less_nat_alt)
  show "page_row rs b' i = (if i = sid then Some row else page_row rs b i)"
    using D lt rest fs(2) by (intro S(2)) (auto simp: word_less_nat_alt)
  show "page_row rs b sid = None"
    using free by (simp add: page_row_def)
  have "get_heap_hdr b' = ?h"
    using D lt rest fs(2) by (intro S(3)) (auto simp: word_less_nat_alt)
  then show "hph_next_heap_page_id (get_heap_hdr b') = hph_next_heap_page_id (get_heap_hdr b)"
    by simp
qed

theorem page_new_slot_ok:
  assumes ok: "heap_page_ok (unat ps) rs b" and hd: "hph_free_slot_head (get_heap_hdr b) = SLOT_NONE"
    and row: "length row = rs" "rs = unat row_size"
    and space: "16 + (unat (hph_slot_count (get_heap_hdr b)) + 1) * 8
      + (unat (hph_slot_count (get_heap_hdr b)) + 1) * rs \<le> unat ps"
    and res: "page_new_slot ps b row row_size = (sid, b')"
  shows "heap_page_ok (unat ps) rs b'" and "page_row rs b sid = None"
    and "page_row rs b' i = (if i = sid then Some row else page_row rs b i)"
    and "hph_next_heap_page_id (get_heap_hdr b') = hph_next_heap_page_id (get_heap_hdr b)"
    and "hph_free_slot_head (get_heap_hdr b') = SLOT_NONE"
proof -
  note D = heap_page_okD [OF ok]
  let ?g = "get_heap_hdr b" and ?n = "unat (hph_slot_count (get_heap_hdr b))"
  let ?h = "?g\<lparr>hph_slot_count := hph_slot_count ?g + 1,
      hph_free_space_offset := hph_free_space_offset ?g + row_size\<rparr>"
  let ?off = "ucast (ps - ucast (hph_free_space_offset ?g) - ucast row_size) :: u16"
  let ?sl = "\<lparr>sl_offset = ?off, sl_status = SLOT_ALIVE, sl_next_free = SLOT_NONE, sl_reserved = 0\<rparr>"
  have sid: "sid = hph_slot_count ?g"
    using res by (simp add: page_new_slot_def Let_def)
  have n1: "unat (hph_slot_count ?g + 1) = Suc ?n"
    using space D(2) by (intro unat_Suc_small) simp
  have m: "(?n + 1) * rs = ?n * rs + rs" by simp
  have le: "?n * rs + rs \<le> unat ps" using space m by linarith
  have f1: "unat (hph_free_space_offset ?g + row_size) = (?n + 1) * rs"
    using le D(2,4) row(2) m by (subst unat_add_small) auto
  have "unat (ps - ucast (hph_free_space_offset ?g)) = unat ps - ?n * rs"
    using le D(4) by (subst unat_sub) (simp_all add: word_le_nat_alt unat_ucast_u16_u32)
  then have "unat (ps - ucast (hph_free_space_offset ?g) - ucast row_size) = unat ps - ?n * rs - rs"
    using le row(2) by (subst unat_sub) (simp_all add: word_le_nat_alt unat_ucast_u16_u32)
  then have off: "unat ?off = row_pos (unat ps) rs sid"
    using D(2) sid by (simp add: unat_ucast_u32_u16 row_pos_def)
  have B: "slot_off sid + 8 \<le> row_pos (unat ps) rs sid" "row_pos (unat ps) rs sid + rs \<le> unat ps"
    using row_pos_bounds [of "?n + 1" rs "unat ps" sid] space sid by simp_all
  have "page_new_slot ps b row row_size = (sid, mwrite (mwrite (mwrite b (slot_off sid) (put_slot ?sl))
      (row_pos (unat ps) rs sid) row) 0 (put_heap_hdr ?h))"
    unfolding page_new_slot_def Let_def off [unfolded sid] sid using row by simp
  also have "\<dots> = (sid, page_write3 b (row_pos (unat ps) rs sid) row sid ?sl ?h)"
    using B row D(1) by (simp add: page_write3_def mwrite_commute slot.length_enc)
  finally have b': "b' = page_write3 b (row_pos (unat ps) rs sid) row sid ?sl ?h"
    using res by simp
  have "{i. unat i < ?n \<and> i \<noteq> sid \<and> sl_status (slot_at b i) = SLOT_FREE} = {}"
  proof -
    obtain fs where "slot_chain (slot_at b) SLOT_NONE fs"
      "set fs = {i. i < hph_slot_count ?g \<and> sl_status (slot_at b i) = SLOT_FREE}"
      using ok hd by (auto simp: heap_page_ok_def Let_def)
    then have "{i. i < hph_slot_count ?g \<and> sl_status (slot_at b i) = SLOT_FREE} = {}"
      using slot_chain_none by (metis list.set(1))
    then show ?thesis by (auto simp: word_less_nat_alt)
  qed
  then have e: "set [] = {i. unat i < ?n \<and> i \<noteq> sid \<and> sl_status (slot_at b i) = SLOT_FREE}"
    by simp
  note S = heap_page_ok_store [OF ok row(1) refl refl, where h = ?h and sid = sid and fs = "[]",
      OF _ _ _ _ _ _ _ _ _ _ _ e b']
  show "heap_page_ok (unat ps) rs b'"
    using D(3) space hd off by (intro S(1)) (simp_all add: n1 f1 sid)
  show "page_row rs b' i = (if i = sid then Some row else page_row rs b i)"
    using D(3) space hd off by (intro S(2)) (simp_all add: n1 f1 sid)
  have "get_heap_hdr b' = ?h"
    using D(3) space hd off by (intro S(3)) (simp_all add: n1 f1 sid)
  then show "hph_next_heap_page_id (get_heap_hdr b') = hph_next_heap_page_id ?g"
    "hph_free_slot_head (get_heap_hdr b') = SLOT_NONE"
    using hd by simp_all
  show "page_row rs b sid = None"
    using sid by (simp add: page_row_def)
qed

theorem page_delete_slot_ok:
  assumes ok: "heap_page_ok ps rs b" and alive: "page_row rs b sid \<noteq> None"
  shows "heap_page_ok ps rs (page_delete_slot b sid)"
    and "page_row rs (page_delete_slot b sid) i = (if i = sid then None else page_row rs b i)"
    and "hph_next_heap_page_id (get_heap_hdr (page_delete_slot b sid)) = hph_next_heap_page_id (get_heap_hdr b)"
    and "hph_free_slot_head (get_heap_hdr (page_delete_slot b sid)) = sid"
proof -
  note D = heap_page_okD [OF ok]
  let ?g = "get_heap_hdr b"
  let ?n = "hph_slot_count ?g"
  let ?h = "?g\<lparr>hph_free_slot_head := sid\<rparr>"
  let ?sl = "(slot_at b sid)\<lparr>sl_status := SLOT_FREE, sl_next_free := hph_free_slot_head ?g\<rparr>"
  let ?b = "page_delete_slot b sid"
  have sid: "sid < ?n" and al: "sl_status (slot_at b sid) = SLOT_ALIVE"
    using alive by (auto simp: page_row_def split: if_splits)
  have b': "?b = mwrite (mwrite b (slot_off sid) (put_slot ?sl)) 0 (put_heap_hdr ?h)"
    by (simp add: page_delete_slot_def Let_def)
  note B = row_pos_bounds [OF D(5)]
  have le: "slot_off j + 8 \<le> length b" if "j < ?n" for j
    using B(1,2) [of j] D(1,5) that by (simp add: word_less_nat_alt)
  have hdr: "get_heap_hdr ?b = ?h" and len: "length ?b = ps"
    using D(1,5) le [OF sid] unfolding b' by (simp_all add: page_part_simps)
  have slot: "slot_at ?b j = (if j = sid then ?sl else slot_at b j)" if "j < ?n" for j
    using le [OF that] le [OF sid] unfolding b' by (simp add: page_part_simps)
  have row: "mread ?b (row_pos ps rs j) rs = mread b (row_pos ps rs j) rs" if "j < ?n" for j
  proof -
    have "slot_off sid + 8 \<le> row_pos ps rs j" "16 \<le> row_pos ps rs j" "row_pos ps rs j + rs \<le> length b"
      using B [of j] B(1) [of sid] sid that D(1) by (simp_all add: word_less_nat_alt)
    then show ?thesis using le [OF sid] unfolding b' by (simp add: page_part_simps)
  qed
  obtain fs where fs: "slot_chain (slot_at b) (hph_free_slot_head ?g) fs" "distinct fs"
    "set fs = {i. i < ?n \<and> sl_status (slot_at b i) = SLOT_FREE}"
    using ok by (auto simp: heap_page_ok_def Let_def)
  have nin: "sid \<notin> set fs" using fs(3) al by simp
  have ne: "sid \<noteq> SLOT_NONE"
    using sid slot_count_bound [OF ok] by (auto simp: word_less_nat_alt)
  have "slot_chain (slot_at ?b) (hph_free_slot_head ?g) fs"
  proof (subst slot_chain_cong [of fs "slot_at ?b" "slot_at b"])
    fix i assume "i \<in> set fs"
    with nin fs(3) show "slot_at ?b i = slot_at b i" using slot by auto
  qed (rule fs(1))
  with slot [OF sid] ne have c1: "slot_chain (slot_at ?b) (hph_free_slot_head ?h) (sid # fs)"
    by simp
  have c2: "i \<in> set (sid # fs) \<longleftrightarrow> i < ?n \<and> sl_status (slot_at ?b i) = SLOT_FREE" for i
    using slot [of i] sid fs(3) by (cases "i < ?n") auto
  then have "set (sid # fs) = {i. i < ?n \<and> sl_status (slot_at ?b i) = SLOT_FREE}"
    by blast
  with c1 nin fs(2) have "\<exists>fs. slot_chain (slot_at ?b) (hph_free_slot_head ?h) fs \<and> distinct fs
      \<and> set fs = {i. i < ?n \<and> sl_status (slot_at ?b i) = SLOT_FREE}"
    by (intro exI [of _ "sid # fs"]) simp
  moreover have "unat (sl_offset (slot_at ?b i)) = row_pos ps rs i
      \<and> sl_status (slot_at ?b i) \<in> {SLOT_ALIVE, SLOT_FREE}" if "i < ?n" for i
    using slot [OF that] D(6,7) [OF that] by auto
  ultimately show "heap_page_ok ps rs ?b"
    using D(1-5) hdr len by (simp add: heap_page_ok_def Let_def)
  show "page_row rs ?b i = (if i = sid then None else page_row rs b i)"
  proof (cases "i < ?n")
    case True
    then show ?thesis
      using slot [OF True] row [OF True] D(6) [OF True] hdr by (simp add: page_row_def)
  next
    case False
    then show ?thesis using hdr sid by (auto simp: page_row_def)
  qed
  show "hph_next_heap_page_id (get_heap_hdr ?b) = hph_next_heap_page_id ?g"
    "hph_free_slot_head (get_heap_hdr ?b) = sid"
    using hdr by simp_all
qed

end
