(* ===== verification/Heap_Table.thy ===== *)
theory Heap_Table
  imports Heap_Page
begin

text \<open>
  The heap table of \<open>src/storage/table.c\<close>: pages linked by \<open>next_heap_page_id\<close>, rows found by
  page and slot. Page latches order concurrent threads and do not change what one thread
  computes; the operations here are what one thread does. A walk along the page chain, and the
  \<open>retry_insert\<close> loop, need not end on an arbitrary store: they are partial functions, \<open>None\<close>
  meaning the loop does not end, and the theorems show that they do end on well formed heaps.
\<close>

section \<open>The operations\<close>

partial_function (option) find_free_slot_page :: "(page_id \<Rightarrow> bytes) \<Rightarrow> page_id \<Rightarrow> page_id option" where
  "find_free_slot_page pages pid =
     (if pid = 0 then Some 0
      else let hph = get_heap_hdr (pages pid) in
        if hph_free_slot_head hph \<noteq> SLOT_NONE then Some pid
        else find_free_slot_page pages (hph_next_heap_page_id hph))"

definition tail_has_space :: "store \<Rightarrow> u16 \<Rightarrow> bool" where
  "tail_has_space s row_size =
     (st_last_heap s \<noteq> 0 \<and>
      (let tail_hph = get_heap_hdr (st_pages s (st_last_heap s)) in
       hph_free_slot_head tail_hph \<noteq> SLOT_NONE
       \<or> slot_need row_size \<le> available_space (st_page_size s) tail_hph))"

definition find_heap_page :: "store \<Rightarrow> u16 \<Rightarrow> (page_id \<times> store) option" where
  "find_heap_page s row_size =
     (if tail_has_space s row_size then Some (st_last_heap s, s)
      else if \<not> st_free_hint s then Some (0, s)
      else case find_free_slot_page (st_pages s) (hd_first_heap_page_id (st_hdr s)) of
        None \<Rightarrow> None
      | Some pid \<Rightarrow> Some (pid, if pid = 0 then s\<lparr>st_free_hint := False\<rparr> else s))"

definition append_heap_page :: "store \<Rightarrow> page_id \<times> store" where
  "append_heap_page s =
     (let (pid, s) = st_alloc s;
          s = st_put s pid (mwrite (st_pages s pid) 0 (put_heap_hdr fresh_heap_hdr));
          prev_pid = st_last_heap s;
          s = (if prev_pid \<noteq> 0 then
                 let ph = get_heap_hdr (st_pages s prev_pid)
                 in st_put s prev_pid (mwrite (st_pages s prev_pid) 0
                      (put_heap_hdr (ph\<lparr>hph_next_heap_page_id := pid\<rparr>)))
               else s)
      in (pid, s\<lparr>st_last_heap := pid\<rparr>))"

partial_function (option) retry_insert :: "store \<Rightarrow> page_id \<Rightarrow> bytes \<Rightarrow> u16 \<Rightarrow> (row_ref \<times> store) option" where
  "retry_insert s pid row_data row_size =
     (let page = st_pages s pid; hph = get_heap_hdr page in
      if hph_free_slot_head hph = SLOT_NONE \<and> available_space (st_page_size s) hph < slot_need row_size then
        (case append_heap_page s of (pid', s') \<Rightarrow> retry_insert s' pid' row_data row_size)
      else
        let (slot_id, page') =
          (if hph_free_slot_head hph \<noteq> SLOT_NONE then page_reuse_slot page row_data row_size
           else page_new_slot (st_page_size s) page row_data row_size)
        in Some (\<lparr>rr_page_id = pid, rr_slot_id = slot_id\<rparr>, st_put s pid page'))"

definition heap_insert :: "store \<Rightarrow> bytes \<Rightarrow> u16 \<Rightarrow> (row_ref \<times> store) option" where
  "heap_insert s row_data row_size =
     (case find_heap_page s row_size of
        None \<Rightarrow> None
      | Some (pid, s1) \<Rightarrow>
          (case (if pid = 0 then append_heap_page s1 else (pid, s1)) of
             (pid', s2) \<Rightarrow> retry_insert s2 pid' row_data row_size))"

text \<open>\<open>heap_fetch\<close> returns a pointer into the page; here, the page's bytes from there on.\<close>

definition heap_fetch :: "store \<Rightarrow> row_ref \<Rightarrow> bytes option" where
  "heap_fetch s ref =
     (let page = st_pages s (rr_page_id ref); slot = slot_at page (rr_slot_id ref) in
      if sl_status slot \<noteq> SLOT_ALIVE then None else Some (drop (unat (sl_offset slot)) page))"

definition heap_delete :: "store \<Rightarrow> row_ref \<Rightarrow> bool \<times> store" where
  "heap_delete s ref =
     (let page = st_pages s (rr_page_id ref); slot = slot_at page (rr_slot_id ref) in
      if sl_status slot \<noteq> SLOT_ALIVE then (False, s)
      else (True, (st_put s (rr_page_id ref) (page_delete_slot page (rr_slot_id ref)))
                    \<lparr>st_free_hint := True\<rparr>))"

text \<open>
  The snapshot \<open>heap_scan\<close> takes of a page: its live rows in slot order, with their positions.
  The callback runs over it and stops the scan by returning \<open>False\<close>.
\<close>

definition page_live :: "bytes \<Rightarrow> u16 list" where
  "page_live page = filter (\<lambda>i. sl_status (slot_at page i) = SLOT_ALIVE)
     (map word_of_nat [0..<unat (hph_slot_count (get_heap_hdr page))])"

definition page_snapshot :: "page_id \<Rightarrow> bytes \<Rightarrow> u16 \<Rightarrow> (row_ref \<times> bytes) list" where
  "page_snapshot pid page row_size =
     map (\<lambda>i. (\<lparr>rr_page_id = pid, rr_slot_id = i\<rparr>, mread page (unat (sl_offset (slot_at page i))) (unat row_size)))
       (page_live page)"

fun visit_rows :: "(bytes \<Rightarrow> row_ref \<Rightarrow> 'c \<Rightarrow> bool \<times> 'c) \<Rightarrow> 'c \<Rightarrow> (row_ref \<times> bytes) list \<Rightarrow> bool \<times> 'c" where
  "visit_rows cb ctx [] = (True, ctx)"
| "visit_rows cb ctx ((ref, row) # rest) =
     (case cb row ref ctx of (go, ctx') \<Rightarrow> if go then visit_rows cb ctx' rest else (False, ctx'))"

partial_function (option) heap_scan_from ::
  "(page_id \<Rightarrow> bytes) \<Rightarrow> u16 \<Rightarrow> page_id \<Rightarrow> (bytes \<Rightarrow> row_ref \<Rightarrow> 'c \<Rightarrow> bool \<times> 'c) \<Rightarrow> 'c \<Rightarrow> 'c option" where
  "heap_scan_from pages row_size pid cb ctx =
     (if pid = 0 then Some ctx
      else case visit_rows cb ctx (page_snapshot pid (pages pid) row_size) of
        (go, ctx') \<Rightarrow>
          if go then heap_scan_from pages row_size (hph_next_heap_page_id (get_heap_hdr (pages pid))) cb ctx'
          else Some ctx')"

definition heap_scan :: "store \<Rightarrow> u16 \<Rightarrow> (bytes \<Rightarrow> row_ref \<Rightarrow> 'c \<Rightarrow> bool \<times> 'c) \<Rightarrow> 'c \<Rightarrow> 'c option" where
  "heap_scan s row_size cb ctx =
     heap_scan_from (st_pages s) row_size (hd_first_heap_page_id (st_hdr s)) cb ctx"

section \<open>The heap invariant\<close>

fun heap_chain :: "(page_id \<Rightarrow> bytes) \<Rightarrow> page_id \<Rightarrow> page_id list \<Rightarrow> bool" where
  "heap_chain pages h [] \<longleftrightarrow> h = 0"
| "heap_chain pages h (p # ps) \<longleftrightarrow> h = p \<and> p \<noteq> 0
     \<and> heap_chain pages (hph_next_heap_page_id (get_heap_hdr (pages p))) ps"

definition heap_ok :: "store \<Rightarrow> page_id list \<Rightarrow> nat \<Rightarrow> page_id list \<Rightarrow> bool" where
  "heap_ok s fl rs chain \<longleftrightarrow>
     heap_chain (st_pages s) (hd_first_heap_page_id (st_hdr s)) chain
     \<and> chain \<noteq> [] \<and> distinct chain \<and> last chain = st_last_heap s
     \<and> (\<forall>p \<in> set chain. in_use s fl p \<and> heap_page_ok (unat (st_page_size s)) rs (st_pages s p))
     \<and> (\<not> st_free_hint s \<longrightarrow> (\<forall>p \<in> set chain. hph_free_slot_head (get_heap_hdr (st_pages s p)) = SLOT_NONE))"

text \<open>The abstract contents: the row each reference leads to.\<close>

definition heap_rows :: "store \<Rightarrow> nat \<Rightarrow> page_id list \<Rightarrow> row_ref \<Rightarrow> bytes option" where
  "heap_rows s rs chain ref =
     (if rr_page_id ref \<in> set chain then page_row rs (st_pages s (rr_page_id ref)) (rr_slot_id ref) else None)"

definition heap_list :: "store \<Rightarrow> u16 \<Rightarrow> page_id list \<Rightarrow> (row_ref \<times> bytes) list" where
  "heap_list s row_size chain = concat (map (\<lambda>p. page_snapshot p (st_pages s p) row_size) chain)"

section \<open>Chains\<close>

lemma heap_chain_cong:
  "(\<And>p. p \<in> set ps \<Longrightarrow> hph_next_heap_page_id (get_heap_hdr (pg p)) = hph_next_heap_page_id (get_heap_hdr (pg' p)))
   \<Longrightarrow> heap_chain pg h ps = heap_chain pg' h ps"
  by (induction ps arbitrary: h) auto

lemma heap_chain_nonzero: "heap_chain pg h ps \<Longrightarrow> 0 \<notin> set ps"
  by (induction ps arbitrary: h) auto

text \<open>Appending a page: the last page's link now leads to it.\<close>

lemma heap_chain_snoc:
  assumes "heap_chain pg h (ps @ [q])" "r \<noteq> 0"
    and "\<And>p. p \<in> set ps \<Longrightarrow> hph_next_heap_page_id (get_heap_hdr (pg' p)) = hph_next_heap_page_id (get_heap_hdr (pg p))"
    and "hph_next_heap_page_id (get_heap_hdr (pg' q)) = r" "hph_next_heap_page_id (get_heap_hdr (pg' r)) = 0"
  shows "heap_chain pg' h (ps @ [q, r])"
  using assms by (induction ps arbitrary: h) auto

lemma find_free_slot_page_chain:
  assumes "heap_chain pages h ps"
  shows "\<exists>pid. find_free_slot_page pages h = Some pid
     \<and> (pid = 0 \<longrightarrow> (\<forall>p \<in> set ps. hph_free_slot_head (get_heap_hdr (pages p)) = SLOT_NONE))
     \<and> (pid \<noteq> 0 \<longrightarrow> pid \<in> set ps \<and> hph_free_slot_head (get_heap_hdr (pages pid)) \<noteq> SLOT_NONE)"
  using assms
proof (induction ps arbitrary: h)
  case Nil
  then show ?case by (simp add: find_free_slot_page.simps [of pages 0])
next
  case (Cons p ps)
  show ?case
  proof (cases "hph_free_slot_head (get_heap_hdr (pages p)) = SLOT_NONE")
    case True
    with Cons show ?thesis
      by (fastforce simp: find_free_slot_page.simps [of pages p])
  next
    case False
    with Cons.prems show ?thesis
      by (simp add: find_free_slot_page.simps [of pages p])
  qed
qed

section \<open>Growing the heap\<close>

lemma heap_okD:
  assumes "heap_ok s fl rs chain"
  shows "heap_chain (st_pages s) (hd_first_heap_page_id (st_hdr s)) chain" "chain \<noteq> []" "distinct chain"
    "last chain = st_last_heap s" "p \<in> set chain \<Longrightarrow> in_use s fl p"
    "p \<in> set chain \<Longrightarrow> heap_page_ok (unat (st_page_size s)) rs (st_pages s p)"
    "st_last_heap s \<in> set chain" "st_last_heap s \<noteq> 0"
proof -
  show 1: "heap_chain (st_pages s) (hd_first_heap_page_id (st_hdr s)) chain" "chain \<noteq> []" "distinct chain"
    "last chain = st_last_heap s" "p \<in> set chain \<Longrightarrow> in_use s fl p"
    "p \<in> set chain \<Longrightarrow> heap_page_ok (unat (st_page_size s)) rs (st_pages s p)"
    using assms by (simp_all add: heap_ok_def)
  show "st_last_heap s \<in> set chain" using 1(2,4) by (metis last_in_set)
  then show "st_last_heap s \<noteq> 0" using heap_chain_nonzero [OF 1(1)] by metis
qed

lemma heap_page_next_fresh:
  "16 \<le> length b \<Longrightarrow> get_heap_hdr (mwrite b 0 (put_heap_hdr fresh_heap_hdr)) = fresh_heap_hdr"
  by (rule hdr_at_put_hdr)

text \<open>The store after a page has been appended, with its pages spelled out.\<close>

lemma append_heap_page_eq:
  assumes ok: "store_ok s fl" and hok: "heap_ok s fl rs chain" and res: "append_heap_page s = (pid, s')"
  shows "\<exists>s1. st_alloc s = (pid, s1) \<and> pid \<notin> set chain
    \<and> s' = s1\<lparr>st_last_heap := pid, st_pages := (st_pages s)
        (pid := mwrite (page_zero s) 0 (put_heap_hdr fresh_heap_hdr),
         st_last_heap s := mwrite (st_pages s (st_last_heap s)) 0
           (put_heap_hdr ((get_heap_hdr (st_pages s (st_last_heap s)))\<lparr>hph_next_heap_page_id := pid\<rparr>)))\<rparr>"
proof -
  obtain p1 s1 where a: "st_alloc s = (p1, s1)" by (cases "st_alloc s")
  note A = st_alloc_simps [OF a]
  have nin: "p1 \<notin> set chain"
    using st_alloc_fresh [OF ok a] heap_okD(5) [OF hok] by blast
  moreover have "st_last_heap s \<noteq> p1" "st_last_heap s \<noteq> 0"
    using heap_okD(7,8) [OF hok] nin by auto
  ultimately show ?thesis
    using res a A by (auto simp: append_heap_page_def Let_def st_put_def)
qed

lemma append_heap_page_ok:
  assumes ok: "store_ok s fl" and hok: "heap_ok s fl rs chain" and rm: "room s 1"
    and res: "append_heap_page s = (pid, s')"
  shows "store_ok s' (tl fl)" and "heap_ok s' (tl fl) rs (chain @ [pid])" and "pid \<notin> set chain"
    and "\<not> in_use s fl pid" and "in_use s' (tl fl) p \<longleftrightarrow> in_use s fl p \<or> p = pid"
    and "heap_rows s' rs (chain @ [pid]) = heap_rows s rs chain"
    and "get_heap_hdr (st_pages s' pid) = fresh_heap_hdr"
    and "p \<notin> set chain \<Longrightarrow> p \<noteq> pid \<Longrightarrow> st_pages s' p = st_pages s p"
    and "hdr_frame (st_hdr s) (st_hdr s')" and "st_page_size s' = st_page_size s" and "st_last_heap s' = pid"
    and "room s (Suc n) \<Longrightarrow> room s' n"
proof -
  obtain s1 where a: "st_alloc s = (pid, s1)" and nin: "pid \<notin> set chain"
    and s': "s' = s1\<lparr>st_last_heap := pid, st_pages := (st_pages s)
        (pid := mwrite (page_zero s) 0 (put_heap_hdr fresh_heap_hdr),
         st_last_heap s := mwrite (st_pages s (st_last_heap s)) 0
           (put_heap_hdr ((get_heap_hdr (st_pages s (st_last_heap s)))\<lparr>hph_next_heap_page_id := pid\<rparr>)))\<rparr>"
    using append_heap_page_eq [OF ok hok res] by blast
  note A = st_alloc_simps [OF a] and AO = st_alloc_ok [OF ok a rm] and H = heap_okD [OF hok]
  let ?q = "st_last_heap s" and ?ps = "unat (st_page_size s)"
  have q: "?q \<in> set chain" "?q \<noteq> pid" "in_use s fl ?q" using H(5,7) nin by auto
  have ps: "64 \<le> ?ps" "?ps < 65536" "length (page_zero s) = ?ps" "length (st_pages s p) = ?ps" for p
    using store_okD(1,3,4) [OF ok] by auto
  have tl: "set (tl fl) \<subseteq> set fl" by (cases fl) auto
  have q_free: "?q \<notin> set (tl fl)" "pid \<notin> set (tl fl)"
    using q(3) tl AO(3) [of pid] by (auto simp: in_use_def)
  have pq: "st_pages s' ?q = mwrite (st_pages s ?q) 0
      (put_heap_hdr ((get_heap_hdr (st_pages s ?q))\<lparr>hph_next_heap_page_id := pid\<rparr>))"
    and pp: "st_pages s' pid = mwrite (page_zero s) 0 (put_heap_hdr fresh_heap_hdr)"
    and po: "p \<noteq> pid \<Longrightarrow> p \<noteq> ?q \<Longrightarrow> st_pages s' p = st_pages s p" for p
    using s' q by simp_all
  have len: "length (st_pages s' p) = ?ps" for p
    using pq pp po ps by (cases "p = pid"; cases "p = ?q") (simp_all add: length_mwrite heap_hdr.length_enc)
  show "st_page_size s' = st_page_size s" "st_last_heap s' = pid" using s' A by simp_all
  show "room s (Suc n) \<Longrightarrow> room s' n" using st_alloc_room [OF a, of n] s' by (simp add: room_def)
  show frame: "hdr_frame (st_hdr s) (st_hdr s')" using st_alloc_hdr_frame [OF a] s' by simp
  show "pid \<notin> set chain" by (rule nin)
  show "\<not> in_use s fl pid" by (rule st_alloc_fresh [OF ok a])
  show iu: "in_use s' (tl fl) p \<longleftrightarrow> in_use s fl p \<or> p = pid" for p
    using AO(3) [of p] s' by (simp add: in_use_def)
  show "get_heap_hdr (st_pages s' pid) = fresh_heap_hdr" using ps pp by (simp add: heap_page_next_fresh)
  show "p \<notin> set chain \<Longrightarrow> p \<noteq> pid \<Longrightarrow> st_pages s' p = st_pages s p" using po q by blast
  have "free_chain (st_pages s') h (tl fl) = free_chain (st_pages s1) h (tl fl)" for h
    using q_free A(1) po by (intro free_chain_cong) (metis fun_upd_apply)
  with AO(1) len s' A show "store_ok s' (tl fl)" by (simp add: store_ok_def)
  note R = heap_page_ok_relink [OF H(6) [OF q(1)] refl, of pid, folded pq]
  note F = heap_page_ok_fresh [of "page_zero s" rs, folded pp]
  have page: "heap_page_ok ?ps rs (st_pages s' p)" if "p \<in> set (chain @ [pid])" for p
    using that po R(1) F(1) H(6) ps by (cases "p = pid"; cases "p = ?q") auto
  obtain cs where cs: "chain = cs @ [?q]" using H(2,4) by (metis append_butlast_last_id)
  have hq: "get_heap_hdr (st_pages s' ?q) = (get_heap_hdr (st_pages s ?q))\<lparr>hph_next_heap_page_id := pid\<rparr>"
    using ps pq by (simp add: hdr_at_put_hdr)
  have hp: "get_heap_hdr (st_pages s' pid) = fresh_heap_hdr"
    using ps pp by (simp add: heap_page_next_fresh)
  have free: "hph_free_slot_head (get_heap_hdr (st_pages s' p)) = hph_free_slot_head (get_heap_hdr (st_pages s p))"
    if "p \<in> set chain" for p
  proof (cases "p = ?q")
    case True
    then show ?thesis by (simp add: hq)
  next
    case False
    from that nin have "p \<noteq> pid" by blast
    with False po show ?thesis by simp
  qed
  have "heap_chain (st_pages s') (hd_first_heap_page_id (st_hdr s')) (cs @ [?q, pid])"
  proof (rule heap_chain_snoc)
    show "heap_chain (st_pages s) (hd_first_heap_page_id (st_hdr s')) (cs @ [?q])"
      using H(1) cs hdr_frame_fields(2) [OF frame] by simp
    show "pid \<noteq> 0" by (rule AO(2))
    fix p assume "p \<in> set cs"
    then have "p \<noteq> pid" "p \<noteq> ?q" using nin cs H(3) by (metis Un_iff set_append, metis cs disjoint_iff distinct_append list.set_intros(1))
    then show "hph_next_heap_page_id (get_heap_hdr (st_pages s' p)) = hph_next_heap_page_id (get_heap_hdr (st_pages s p))"
      using po by simp
  qed (simp_all add: hq hp fresh_heap_hdr_def)
  moreover have "cs @ [?q, pid] = chain @ [pid]" using cs by simp
  ultimately show "heap_ok s' (tl fl) rs (chain @ [pid])"
    using H page iu nin free hok hp s' A(2,4) by (auto simp: heap_ok_def fresh_heap_hdr_def)
  have fresh: "page_row rs (st_pages s' pid) i = None" for i
    using ps by (intro F(2)) auto
  show "heap_rows s' rs (chain @ [pid]) = heap_rows s rs chain"
  proof
    fix ref
    show "heap_rows s' rs (chain @ [pid]) ref = heap_rows s rs chain ref"
      using po R(2) fresh q nin by (cases "rr_page_id ref = pid"; cases "rr_page_id ref = ?q") (auto simp: heap_rows_def)
  qed
qed

section \<open>Insertion\<close>

text \<open>Replacing one page of the chain, with its links kept.\<close>

lemma heap_put_page:
  assumes ok: "store_ok s fl" and hok: "heap_ok s fl rs chain" and p: "p \<in> set chain"
    and b: "heap_page_ok (unat (st_page_size s)) rs b"
    and nxt: "hph_next_heap_page_id (get_heap_hdr b) = hph_next_heap_page_id (get_heap_hdr (st_pages s p))"
    and hint: "g \<or> \<not> st_free_hint s \<and> hph_free_slot_head (get_heap_hdr b) = SLOT_NONE"
    and s': "s' = (st_put s p b)\<lparr>st_free_hint := g\<rparr>"
  shows "store_ok s' fl" and "heap_ok s' fl rs chain"
    and "in_use s' fl q = in_use s fl q"
    and "q \<notin> set chain \<Longrightarrow> st_pages s' q = st_pages s q"
    and "heap_rows s' rs chain ref =
      (if rr_page_id ref = p then page_row rs b (rr_slot_id ref) else heap_rows s rs chain ref)"
proof -
  note H = heap_okD [OF hok]
  have len: "length b = unat (st_page_size s)"
    using b by (simp add: heap_page_ok_def Let_def)
  have "p \<notin> set fl" using H(5) [OF p] by (simp add: in_use_def)
  from store_ok_put [OF ok this len] show "store_ok s' fl"
    by (simp add: s' store_ok_def)
  show "in_use s' fl q = in_use s fl q" by (simp add: s' in_use_def)
  have "heap_chain (st_pages s') h chain = heap_chain (st_pages s) h chain" for h
    using nxt by (intro heap_chain_cong) (simp add: s')
  with hok b hint show "heap_ok s' fl rs chain"
    by (auto simp: heap_ok_def s' in_use_def)
  show "q \<notin> set chain \<Longrightarrow> st_pages s' q = st_pages s q"
    using p by (auto simp: s')
  show "heap_rows s' rs chain ref =
      (if rr_page_id ref = p then page_row rs b (rr_slot_id ref) else heap_rows s rs chain ref)"
    using p by (simp add: heap_rows_def s')
qed

definition page_accepts :: "u32 \<Rightarrow> bytes \<Rightarrow> u16 \<Rightarrow> bool" where
  "page_accepts ps b row_size \<longleftrightarrow> hph_free_slot_head (get_heap_hdr b) \<noteq> SLOT_NONE
     \<or> slot_need row_size \<le> available_space ps (get_heap_hdr b)"

text \<open>What a successful insertion establishes.\<close>

definition inserted :: "store \<Rightarrow> page_id list \<Rightarrow> nat \<Rightarrow> page_id list \<Rightarrow> bytes
    \<Rightarrow> row_ref \<Rightarrow> store \<Rightarrow> page_id list \<Rightarrow> page_id list \<Rightarrow> bool" where
  "inserted s fl rs chain row ref s' fl' chain' \<longleftrightarrow>
     store_ok s' fl' \<and> heap_ok s' fl' rs chain'
     \<and> heap_rows s rs chain ref = None \<and> heap_rows s' rs chain' = (heap_rows s rs chain)(ref \<mapsto> row)
     \<and> (chain' = chain \<and> fl' = fl \<or> (\<exists>p. chain' = chain @ [p] \<and> fl' = tl fl \<and> \<not> in_use s fl p))
     \<and> (\<forall>p. in_use s' fl' p \<longleftrightarrow> in_use s fl p \<or> p \<in> set chain')
     \<and> (\<forall>p. p \<notin> set chain' \<longrightarrow> st_pages s' p = st_pages s p)
     \<and> hdr_frame (st_hdr s) (st_hdr s') \<and> st_page_size s' = st_page_size s
     \<and> (\<forall>n. room s (Suc n) \<longrightarrow> room s' n)"

lemma retry_insert_here:
  assumes ok: "store_ok s fl" and hok: "heap_ok s fl rs chain" and pid: "pid \<in> set chain"
    and acc: "page_accepts (st_page_size s) (st_pages s pid) row_size"
    and row: "length row = rs" "rs = unat row_size" "0 < rs" "unat row_size + 8 < 65536"
  shows "\<exists>ref s'. retry_insert s pid row row_size = Some (ref, s') \<and> inserted s fl rs chain row ref s' fl chain
    \<and> st_hdr s' = st_hdr s"
proof -
  note H = heap_okD [OF hok]
  let ?b = "st_pages s pid"
  have pok: "heap_page_ok (unat (st_page_size s)) rs ?b" by (rule H(6) [OF pid])
  obtain sid b' where op: "(if hph_free_slot_head (get_heap_hdr ?b) \<noteq> SLOT_NONE
      then page_reuse_slot ?b row row_size else page_new_slot (st_page_size s) ?b row row_size) = (sid, b')"
    by fastforce
  have ret: "retry_insert s pid row row_size = Some (\<lparr>rr_page_id = pid, rr_slot_id = sid\<rparr>, st_put s pid b')"
    using acc op by (subst retry_insert.simps) (auto simp: page_accepts_def Let_def)
  have B: "heap_page_ok (unat (st_page_size s)) rs b' \<and> page_row rs ?b sid = None
      \<and> (\<forall>i. page_row rs b' i = (if i = sid then Some row else page_row rs ?b i))
      \<and> hph_next_heap_page_id (get_heap_hdr b') = hph_next_heap_page_id (get_heap_hdr ?b)
      \<and> (st_free_hint s \<or> hph_free_slot_head (get_heap_hdr b') = SLOT_NONE)"
  proof (cases "hph_free_slot_head (get_heap_hdr ?b) = SLOT_NONE")
    case True
    then have "16 + (unat (hph_slot_count (get_heap_hdr ?b)) + 1) * 8
        + (unat (hph_slot_count (get_heap_hdr ?b)) + 1) * rs \<le> unat (st_page_size s)"
      using acc available_space_iff [OF pok row(2,4,3)] by (simp add: page_accepts_def)
    note N = page_new_slot_ok [OF pok True row(1,2) this, of sid b']
    show ?thesis using N op True by auto
  next
    case False
    note R = page_reuse_slot_ok [OF pok False row(1,2), of sid b']
    have "st_free_hint s" using hok pid False by (auto simp: heap_ok_def)
    with R op False show ?thesis by auto
  qed
  let ?ref = "\<lparr>rr_page_id = pid, rr_slot_id = sid\<rparr>" and ?s = "st_put s pid b'"
  have "?s = (st_put s pid b')\<lparr>st_free_hint := st_free_hint s\<rparr>" by (simp add: st_put_def)
  note P = heap_put_page [OF ok hok pid _ _ _ this]
  have "heap_rows ?s rs chain = (heap_rows s rs chain)(?ref \<mapsto> row)"
  proof
    fix r :: row_ref
    show "heap_rows ?s rs chain r = ((heap_rows s rs chain)(?ref \<mapsto> row)) r"
      using B pid P(5) [of r] by (cases r) (auto simp: heap_rows_def)
  qed
  moreover have "heap_rows s rs chain ?ref = None" using B by (simp add: heap_rows_def)
  moreover have "in_use ?s fl p \<longleftrightarrow> in_use s fl p \<or> p \<in> set chain" for p
    using H(5) [of p] by auto
  ultimately have "inserted s fl rs chain row ?ref ?s fl chain"
    using P(1,2,4) B pid by (auto simp: inserted_def room_def)
  with ret show ?thesis by (metis st_put_simps(2))
qed

lemma heap_rows_hint: "heap_rows (s\<lparr>st_free_hint := g\<rparr>) rs chain = heap_rows s rs chain"
  by (rule ext) (simp add: heap_rows_def)

lemma fresh_page_accepts:
  assumes "get_heap_hdr b = fresh_heap_hdr" "heap_page_ok (unat ps) rs b" "rs = unat row_size" "0 < rs"
    and "24 + rs \<le> unat ps"
  shows "page_accepts ps b row_size"
proof -
  have "unat row_size + 8 < 65536"
    using assms(3,5) heap_page_okD(2) [OF assms(2)] by linarith
  with assms available_space_iff [OF assms(2,3) _ assms(4)] show ?thesis
    by (simp add: page_accepts_def fresh_heap_hdr_def)
qed

lemma insert_after_append:
  assumes ok: "store_ok s fl" and hok: "heap_ok s fl rs chain" and rm: "room s 1"
    and row: "length row = rs" "rs = unat row_size" "0 < rs" "24 + rs \<le> unat (st_page_size s)"
    and app: "append_heap_page s = (pid, s1)"
  shows "\<exists>ref s'. retry_insert s1 pid row row_size = Some (ref, s')
    \<and> inserted s fl rs chain row ref s' (tl fl) (chain @ [pid])"
proof -
  note A = append_heap_page_ok [OF ok hok rm app]
  have w: "unat row_size + 8 < 65536"
    using row store_okD(4) [OF ok] by linarith
  have "page_accepts (st_page_size s1) (st_pages s1 pid) row_size"
    using A(7,10) heap_okD(6) [OF A(2)] row by (intro fresh_page_accepts) auto
  then obtain ref s' where r: "retry_insert s1 pid row row_size = Some (ref, s')"
    and i: "inserted s1 (tl fl) rs (chain @ [pid]) row ref s' (tl fl) (chain @ [pid])"
    and hd: "st_hdr s' = st_hdr s1"
    using retry_insert_here [OF A(1,2) _ _ row(1,2,3) w] by fastforce
  have "hdr_frame (st_hdr s) (st_hdr s')" "\<forall>n. room s (Suc n) \<longrightarrow> room s' n"
    using hd A(9,12) by (simp_all add: room_def)
  with i A have "inserted s fl rs chain row ref s' (tl fl) (chain @ [pid])"
    by (auto simp: inserted_def)
  with r show ?thesis by blast
qed

theorem heap_insert_correct:
  assumes ok: "store_ok s fl" and hok: "heap_ok s fl rs chain" and rm: "room s 1"
    and row: "length row = rs" "rs = unat row_size" "0 < rs" "24 + rs \<le> unat (st_page_size s)"
  shows "\<exists>ref s' fl' chain'. heap_insert s row row_size = Some (ref, s')
    \<and> inserted s fl rs chain row ref s' fl' chain'"
proof -
  note H = heap_okD [OF hok]
  have w: "unat row_size + 8 < 65536"
    using row store_okD(4) [OF ok] by linarith
  have append: "\<exists>ref s' fl' chain'. (case append_heap_page s0 of (pid', s2) \<Rightarrow> retry_insert s2 pid' row row_size) = Some (ref, s')
      \<and> inserted s0 fl rs chain row ref s' fl' chain'"
    if "store_ok s0 fl" "heap_ok s0 fl rs chain" "room s0 1" "st_page_size s0 = st_page_size s" for s0
    using insert_after_append [OF that(1,2,3) row(1,2,3)] row(4) that(4) by (cases "append_heap_page s0") fastforce
  show ?thesis
  proof (cases "tail_has_space s row_size")
    case True
    then have "page_accepts (st_page_size s) (st_pages s (st_last_heap s)) row_size"
      by (simp add: tail_has_space_def page_accepts_def Let_def)
    from retry_insert_here [OF ok hok H(7) this row(1,2,3) w] True H(8) show ?thesis
      by (auto simp: heap_insert_def find_heap_page_def)
  next
    case tail: False
    show ?thesis
    proof (cases "st_free_hint s")
      case False
      with tail append [OF ok hok rm refl] show ?thesis
        by (auto simp: heap_insert_def find_heap_page_def)
    next
      case True
      obtain pid where f: "find_free_slot_page (st_pages s) (hd_first_heap_page_id (st_hdr s)) = Some pid"
        "pid = 0 \<longrightarrow> (\<forall>p \<in> set chain. hph_free_slot_head (get_heap_hdr (st_pages s p)) = SLOT_NONE)"
        "pid \<noteq> 0 \<longrightarrow> pid \<in> set chain \<and> hph_free_slot_head (get_heap_hdr (st_pages s pid)) \<noteq> SLOT_NONE"
        using find_free_slot_page_chain [OF H(1)] by blast
      show ?thesis
      proof (cases "pid = 0")
        case False
        with f have "pid \<in> set chain" "page_accepts (st_page_size s) (st_pages s pid) row_size"
          by (simp_all add: page_accepts_def)
        from retry_insert_here [OF ok hok this row(1,2,3) w] False True tail f(1) show ?thesis
          by (auto simp: heap_insert_def find_heap_page_def)
      next
        case z: True
        let ?s = "s\<lparr>st_free_hint := False\<rparr>"
        have "store_ok ?s fl" "heap_ok ?s fl rs chain" "room ?s 1"
          using ok hok f(2) z rm by (simp_all add: store_ok_def heap_ok_def in_use_def room_def)
        from append [OF this] obtain ref s' fl' chain' where
          "(case append_heap_page ?s of (pid', s2) \<Rightarrow> retry_insert s2 pid' row row_size) = Some (ref, s')"
          "inserted ?s fl rs chain row ref s' fl' chain'" by auto
        moreover have "inserted s fl rs chain row ref s' fl' chain'"
          using calculation(2) by (simp add: inserted_def heap_rows_hint in_use_def room_def)
        ultimately show ?thesis
          using True tail f(1) z by (auto simp: heap_insert_def find_heap_page_def)
      qed
    qed
  qed
qed

end
