(* ===== verification/Heap_Rows.thy ===== *)
theory Heap_Rows
  imports Heap_Table
begin

text \<open>
  The rows of the heap table: looking one up (\<open>heap_fetch\<close>), deleting one (\<open>heap_delete\<close>) and
  visiting all of them (\<open>heap_scan\<close>), and the contract \<open>row_heap\<close> of the whole table, a finite
  map from row references to rows, that the executor relies on.
\<close>

section \<open>Fetching and deleting\<close>

theorem heap_fetch_alive:
  assumes "heap_rows s rs chain ref = Some row"
  shows "\<exists>p. heap_fetch s ref = Some p \<and> take rs p = row"
  using assms
  by (auto simp: heap_rows_def page_row_def heap_fetch_def Let_def mread_def split: if_splits)

theorem heap_delete_correct:
  assumes ok: "store_ok s fl" and hok: "heap_ok s fl rs chain" and alive: "heap_rows s rs chain ref \<noteq> None"
  shows "\<exists>s'. heap_delete s ref = (True, s') \<and> store_ok s' fl \<and> heap_ok s' fl rs chain
    \<and> heap_rows s' rs chain = (heap_rows s rs chain)(ref := None)
    \<and> (\<forall>p. p \<notin> set chain \<longrightarrow> st_pages s' p = st_pages s p)
    \<and> st_hdr s' = st_hdr s \<and> st_page_size s' = st_page_size s"
proof -
  let ?p = "rr_page_id ref" and ?i = "rr_slot_id ref"
  let ?b = "st_pages s ?p"
  have p: "?p \<in> set chain" and row: "page_row rs ?b ?i \<noteq> None"
    using alive by (auto simp: heap_rows_def split: if_splits)
  note D = page_delete_slot_ok [OF heap_okD(6) [OF hok p] row]
  let ?s = "(st_put s ?p (page_delete_slot ?b ?i))\<lparr>st_free_hint := True\<rparr>"
  note P = heap_put_page [OF ok hok p D(1,3) _ refl, of True]
  have "sl_status (slot_at ?b ?i) = SLOT_ALIVE"
    using row by (simp add: page_row_def split: if_splits)
  then have del: "heap_delete s ref = (True, ?s)" by (simp add: heap_delete_def Let_def)
  have "heap_rows ?s rs chain = (heap_rows s rs chain)(ref := None)"
  proof
    fix r :: row_ref
    show "heap_rows ?s rs chain r = ((heap_rows s rs chain)(ref := None)) r"
      using P(5) [of r] D(2) p by (cases r; cases ref) (auto simp: heap_rows_def)
  qed
  with P(1,2,4) del show ?thesis by auto
qed

theorem heap_delete_dead:
  assumes "sl_status (slot_at (st_pages s (rr_page_id ref)) (rr_slot_id ref)) \<noteq> SLOT_ALIVE"
  shows "heap_delete s ref = (False, s)" and "heap_fetch s ref = None"
  using assms by (simp_all add: heap_delete_def heap_fetch_def Let_def)

section \<open>Scanning\<close>

lemma set_page_live:
  "i \<in> set (page_live b) \<longleftrightarrow> i < hph_slot_count (get_heap_hdr b) \<and> sl_status (slot_at b i) = SLOT_ALIVE"
proof -
  have "i \<in> set (map word_of_nat [0..<unat n]) \<longleftrightarrow> i < n" for n :: u16
  proof
    assume "i < n"
    then have "unat i \<in> {0..<unat n}" "i = word_of_nat (unat i)" by (simp_all add: word_less_nat_alt)
    then show "i \<in> set (map word_of_nat [0..<unat n])" by (metis imageI list.set_map set_upt)
  next
    assume "i \<in> set (map word_of_nat [0..<unat n])"
    then obtain k where "k < unat n" "i = word_of_nat k" by auto
    moreover from this have "unat i = k"
      by (metis less_trans unat_lt_u16 unat_of_nat_small(1))
    ultimately show "i < n" by (simp add: word_less_nat_alt)
  qed
  then show ?thesis by (auto simp: page_live_def)
qed

lemma distinct_page_live: "distinct (page_live b)"
proof -
  have "inj_on (word_of_nat :: nat \<Rightarrow> u16) {0..<unat (n :: u16)}" for n
  proof (rule inj_onI)
    fix j k assume "j \<in> {0..<unat n}" "k \<in> {0..<unat n}" "(word_of_nat j :: u16) = word_of_nat k"
    then show "j = k" using unat_lt_u16 [of n]
      by (metis atLeastLessThan_iff less_trans unat_of_nat_small(1))
  qed
  then show ?thesis by (simp add: page_live_def distinct_map)
qed

lemma visit_rows_append:
  "visit_rows cb ctx (xs @ ys) =
     (case visit_rows cb ctx xs of (go, ctx') \<Rightarrow> if go then visit_rows cb ctx' ys else (False, ctx'))"
  by (induction cb ctx xs rule: visit_rows.induct) (auto split: prod.splits)

lemma heap_scan_from_chain:
  assumes "heap_chain pages h chain"
  shows "heap_scan_from pages row_size h cb ctx =
    Some (snd (visit_rows cb ctx (concat (map (\<lambda>p. page_snapshot p (pages p) row_size) chain))))"
  using assms
proof (induction chain arbitrary: h ctx)
  case Nil
  then show ?case by (simp add: heap_scan_from.simps [of pages row_size 0])
next
  case (Cons p ps)
  then show ?case
    by (auto simp: heap_scan_from.simps [of pages row_size p] visit_rows_append split: prod.splits)
qed

lemma page_snapshot_refs: "map fst (page_snapshot p b n) = map (\<lambda>i. \<lparr>rr_page_id = p, rr_slot_id = i\<rparr>) (page_live b)"
  by (simp add: page_snapshot_def)

lemma page_snapshot_rows:
  "(ref, row) \<in> set (page_snapshot p b n)
   \<longleftrightarrow> rr_page_id ref = p \<and> page_row (unat n) b (rr_slot_id ref) = Some row"
  by (cases ref) (auto simp: page_snapshot_def page_row_def set_page_live image_iff)

text \<open>The scan's list holds every live row exactly once, under its own reference.\<close>

theorem heap_list_rows:
  assumes "distinct chain" "rs = unat row_size"
  shows "distinct (map fst (heap_list s row_size chain))"
    and "(ref, row) \<in> set (heap_list s row_size chain) \<longleftrightarrow> heap_rows s rs chain ref = Some row"
    and "map_of (heap_list s row_size chain) = heap_rows s rs chain"
proof -
  let ?l = "heap_list s row_size chain"
  show d: "distinct (map fst ?l)"
    using assms(1)
  proof (induction chain)
    case Nil
    then show ?case by (simp add: heap_list_def)
  next
    case (Cons p ps)
    have "distinct (map fst (page_snapshot p b row_size))" for b
      by (simp add: page_snapshot_refs distinct_map distinct_page_live inj_on_def)
    with Cons show ?case
      by (auto simp: heap_list_def page_snapshot_rows)
  qed
  show m: "(ref, row) \<in> set ?l \<longleftrightarrow> heap_rows s rs chain ref = Some row" for ref row
    by (auto simp: heap_list_def heap_rows_def page_snapshot_rows assms(2))
  show "map_of ?l = heap_rows s rs chain"
  proof
    fix ref
    show "map_of ?l ref = heap_rows s rs chain ref"
      using d m [of ref] by (cases "heap_rows s rs chain ref")
        (auto simp: map_of_eq_None_iff image_iff intro: map_of_is_SomeI)
  qed
qed

theorem heap_scan_visits:
  assumes "heap_ok s fl rs chain"
  shows "heap_scan s row_size cb ctx = Some (snd (visit_rows cb ctx (heap_list s row_size chain)))"
  using heap_scan_from_chain [OF heap_okD(1) [OF assms]]
  by (simp add: heap_scan_def heap_list_def)

section \<open>Rows too wide for a page\<close>

text \<open>
  A page offers \<open>page_size - 16\<close> bytes to slots and rows. When a slot and a row need more, every
  page \<open>heap_insert\<close> appends is as full as the last one, and its retry loop does not end.
\<close>

definition page_full :: "store \<Rightarrow> page_id \<Rightarrow> u16 \<Rightarrow> bool" where
  "page_full s pid row_size \<longleftrightarrow> hph_free_slot_head (get_heap_hdr (st_pages s pid)) = SLOT_NONE
     \<and> available_space (st_page_size s) (get_heap_hdr (st_pages s pid)) < slot_need row_size"

lemma append_heap_page_full:
  assumes "16 \<le> unat (st_page_size s)" "available_space (st_page_size s) fresh_heap_hdr < slot_need row_size"
    and "append_heap_page s = (pid, s')"
  shows "page_full s' pid row_size" "st_page_size s' = st_page_size s"
proof -
  obtain s1 where a: "st_alloc s = (pid, s1)"
    using assms(3) by (auto simp: append_heap_page_def Let_def split: prod.splits)
  note A = st_alloc_simps [OF a]
  have "available_space ps (h\<lparr>hph_next_heap_page_id := q\<rparr>) = available_space ps h" for ps h q
    by (simp add: available_space_def)
  moreover have "hph_free_slot_head fresh_heap_hdr = SLOT_NONE" by (simp add: fresh_heap_hdr_def)
  ultimately show "page_full s' pid row_size"
    using assms a A by (auto simp: append_heap_page_def page_full_def hdr_at_put_hdr Let_def
      length_mwrite heap_hdr.length_enc split: if_splits)
  show "st_page_size s' = st_page_size s"
    using assms(3) a A by (auto simp: append_heap_page_def Let_def)
qed

lemma retry_insert_never_returns:
  assumes "16 \<le> unat (st_page_size s)" "available_space (st_page_size s) fresh_heap_hdr < slot_need row_size"
    and "page_full s pid row_size"
  shows "retry_insert s pid row row_size = None"
proof -
  have "\<not> (16 \<le> unat (st_page_size s) \<and> available_space (st_page_size s) fresh_heap_hdr < slot_need row_size
      \<and> page_full s pid row_size)"
    if "retry_insert s pid row row_size = Some y" for y
    using that
  proof (induction rule: retry_insert.raw_induct [rotated, consumes 1, case_names step])
    case (step f s pid row row_size y)
    show ?case
    proof (rule notI)
      assume bad: "16 \<le> unat (st_page_size s) \<and> available_space (st_page_size s) fresh_heap_hdr < slot_need row_size
        \<and> page_full s pid row_size"
      obtain pid' s' where app: "append_heap_page s = (pid', s')" by fastforce
      have "f s' pid' row row_size = Some y"
        using step(2) bad app by (auto simp: page_full_def Let_def)
      from step(1) [OF this] bad append_heap_page_full [OF _ _ app, of row_size] show False
        by simp
    qed
  qed
  with assms show ?thesis by (cases "retry_insert s pid row row_size") auto
qed

lemma heap_page_wide_empty:
  assumes "heap_page_ok ps rs b" "ps < 24 + rs"
  shows "hph_slot_count (get_heap_hdr b) = 0" "hph_free_slot_head (get_heap_hdr b) = SLOT_NONE"
proof -
  let ?n = "hph_slot_count (get_heap_hdr b)"
  show n: "?n = 0"
  proof (rule ccontr)
    assume "?n \<noteq> 0"
    then have "1 \<le> unat ?n" by (simp add: unat_gt_0 Suc_le_eq)
    then have "rs \<le> unat ?n * rs" by simp
    with assms heap_page_okD(5) [OF assms(1)] \<open>1 \<le> unat ?n\<close> show False by linarith
  qed
  then show "hph_free_slot_head (get_heap_hdr b) = SLOT_NONE"
    using assms(1) by (auto simp: heap_page_ok_def Let_def dest: slot_chain_head)
qed

theorem heap_insert_too_wide:
  assumes ok: "store_ok s fl" and hok: "heap_ok s fl rs chain"
    and rs: "rs = unat row_size" "rs + 8 < 65536" "unat (st_page_size s) < 24 + rs"
  shows "heap_insert s row row_size = None"
proof -
  note H = heap_okD [OF hok] and S = store_okD [OF ok]
  have pos: "0 < rs" "16 \<le> unat (st_page_size s)" using rs(3) S(3) by linarith+
  have full: "page_full s p row_size" if "p \<in> set chain" for p
    using available_space_iff [OF H(6) [OF that] rs(1) _ pos(1)] rs(1,2,3)
      heap_page_wide_empty [OF H(6) [OF that] rs(3)] by (simp add: page_full_def not_le [symmetric])
  have "available_space (st_page_size s) fresh_heap_hdr
      = available_space (st_page_size s) (get_heap_hdr (st_pages s (st_last_heap s)))"
    using heap_page_wide_empty [OF H(6) [OF H(7)] rs(3)] heap_page_okD(4) [OF H(6) [OF H(7)]]
    by (simp add: available_space_def fresh_heap_hdr_def unat_eq_0)
  with full [OF H(7)] have fresh: "available_space (st_page_size s) fresh_heap_hdr < slot_need row_size"
    by (simp add: page_full_def)
  obtain g where find: "find_heap_page s row_size = Some (0, s\<lparr>st_free_hint := g\<rparr>)"
  proof -
    from find_free_slot_page_chain [OF H(1)] full have
      "find_free_slot_page (st_pages s) (hd_first_heap_page_id (st_hdr s)) = Some 0"
      by (auto simp: page_full_def)
    moreover have "\<not> tail_has_space s row_size"
      using full [OF H(7)] by (auto simp: tail_has_space_def page_full_def Let_def)
    ultimately show thesis
      using that [of False] that [of "st_free_hint s"]
      by (cases "st_free_hint s") (auto simp: find_heap_page_def)
  qed
  obtain pid s' where app: "append_heap_page (s\<lparr>st_free_hint := g\<rparr>) = (pid, s')" by fastforce
  note F = append_heap_page_full [OF _ _ app, of row_size]
  have "retry_insert s' pid row row_size = None"
    using F fresh pos by (intro retry_insert_never_returns) auto
  with find app show ?thesis by (simp add: heap_insert_def)
qed

end
