(* ===== verification/Heap_Contract.thy ===== *)
theory Heap_Contract
  imports Heap_Rows "HOL-Library.Multiset"
begin

text \<open>
  The contract between the heap table and the executor: \<open>row_heap\<close> is a finite map from
  references to rows with insertion, lookup, deletion and a scan that lists it. The client's
  lemmas are proved once from the contract; the interpretation \<open>hp\<close> shows that \<open>heap_insert\<close>,
  \<open>heap_fetch\<close>, \<open>heap_delete\<close> and \<open>heap_scan\<close> of theory \<open>Heap_Table\<close> provide it. The counter
  \<open>n\<close> bounds how many pages may still be allocated before the 32-bit page numbers run out.
\<close>

section \<open>The interface\<close>

text \<open>Inserting rows one after the other.\<close>

fun insert_rows :: "('s \<Rightarrow> 'd \<Rightarrow> ('r \<times> 's) option) \<Rightarrow> 's \<Rightarrow> 'd list \<Rightarrow> ('r list \<times> 's) option" where
  "insert_rows ins s [] = Some ([], s)"
| "insert_rows ins s (d # ds) = (case ins s d of None \<Rightarrow> None
     | Some (r, s') \<Rightarrow> (case insert_rows ins s' ds of None \<Rightarrow> None | Some (rs, s'') \<Rightarrow> Some (r # rs, s'')))"

locale row_heap =
  fixes models :: "'s \<Rightarrow> nat \<Rightarrow> ('r \<Rightarrow> 'd option) \<Rightarrow> bool" and good_row :: "'d \<Rightarrow> bool"
    and ins :: "'s \<Rightarrow> 'd \<Rightarrow> ('r \<times> 's) option" and get :: "'s \<Rightarrow> 'r \<Rightarrow> 'd option"
    and del :: "'s \<Rightarrow> 'r \<Rightarrow> bool \<times> 's" and all :: "'s \<Rightarrow> ('r \<times> 'd) list option"
  assumes ins_ok: "models s (Suc n) m \<Longrightarrow> good_row d
      \<Longrightarrow> \<exists>r s'. ins s d = Some (r, s') \<and> m r = None \<and> models s' n (m(r \<mapsto> d))"
    and get_ok: "models s n m \<Longrightarrow> m r = Some d \<Longrightarrow> get s r = Some d"
    and del_ok: "models s n m \<Longrightarrow> m r \<noteq> None \<Longrightarrow> \<exists>s'. del s r = (True, s') \<and> models s' n (m(r := None))"
    and all_ok: "models s n m \<Longrightarrow> \<exists>l. all s = Some l \<and> distinct (map fst l) \<and> map_of l = m"
begin

text \<open>A row just inserted is found under its reference; every other row is still there.\<close>

lemma ins_get:
  assumes "models s (Suc n) m" "good_row d" "ins s d = Some (r, s')"
  shows "get s' r = Some d" and "m q = Some e \<Longrightarrow> get s' q = Some e"
proof -
  from ins_ok [OF assms(1,2)] assms(3) have m: "m r = None" "models s' n (m(r \<mapsto> d))" by auto
  then show "get s' r = Some d" by (intro get_ok [OF m(2)]) auto
  assume "m q = Some e"
  with m show "get s' q = Some e" by (intro get_ok [OF m(2)]) auto
qed

lemma ins_all_ok:
  assumes "models s (length ds + n) m" "\<forall>d \<in> set ds. good_row d"
  shows "\<exists>rs s'. insert_rows ins s ds = Some (rs, s') \<and> length rs = length ds \<and> distinct rs
    \<and> (\<forall>r \<in> set rs. m r = None) \<and> models s' n (m ++ map_of (zip rs ds))"
  using assms
proof (induction ds arbitrary: s m)
  case Nil
  then show ?case by simp
next
  case (Cons d ds)
  then obtain r s1 where r: "ins s d = Some (r, s1)" "m r = None" "models s1 (length ds + n) (m(r \<mapsto> d))"
    using ins_ok [of s "length ds + n" m d] by auto
  with Cons obtain rs s2 where rs: "insert_rows ins s1 ds = Some (rs, s2)" "length rs = length ds" "distinct rs"
    "\<forall>q \<in> set rs. (m(r \<mapsto> d)) q = None" "models s2 n ((m(r \<mapsto> d)) ++ map_of (zip rs ds))"
    by fastforce
  have nin: "r \<notin> set rs" using rs(4) by auto
  then have zn: "map_of (zip rs ds) r = None" using rs(2) by (simp add: map_of_zip_is_None)
  have "(m(r \<mapsto> d)) ++ map_of (zip rs ds) = m ++ map_of (zip (r # rs) (d # ds))"
  proof
    fix q
    show "((m(r \<mapsto> d)) ++ map_of (zip rs ds)) q = (m ++ map_of (zip (r # rs) (d # ds))) q"
      using nin zn by (cases "q = r") (auto simp: map_add_def split: option.splits)
  qed
  with r rs nin show ?case by (auto split: if_splits)
qed

text \<open>
  A scan after inserting rows into an empty heap lists exactly these rows, each once.
\<close>

lemma ins_all_scan:
  assumes "models s (length ds + n) (\<lambda>_. None)" "\<forall>d \<in> set ds. good_row d"
  shows "\<exists>rs s' l. insert_rows ins s ds = Some (rs, s') \<and> all s' = Some l
    \<and> distinct rs \<and> length rs = length ds \<and> mset l = mset (zip rs ds)"
proof -
  from ins_all_ok [OF assms] obtain rs s' where rs: "insert_rows ins s ds = Some (rs, s')" "distinct rs"
    "length rs = length ds" "models s' n (map_of (zip rs ds))" by auto
  from all_ok [OF rs(4)] obtain l where l: "all s' = Some l" "distinct (map fst l)" "map_of l = map_of (zip rs ds)"
    by auto
  have "distinct l" "distinct (zip rs ds)"
    using l(2) rs(2,3) by (simp_all add: distinct_map distinct_zipI1)
  moreover have "set l = set (zip rs ds)"
    using l(2,3) rs(2,3) by (metis map_fst_zip map_of_eq_Some_iff subrelI subset_antisym)
  ultimately show ?thesis using rs l by (auto simp: set_eq_iff_mset_eq_distinct)
qed

text \<open>A deleted row is neither found by a scan nor does its deletion touch another row.\<close>

lemma del_scan:
  assumes "models s n m" "m r = Some d"
  shows "\<exists>s' l. del s r = (True, s') \<and> all s' = Some l \<and> map_of l = m(r := None)
    \<and> (\<forall>q e. q \<noteq> r \<longrightarrow> m q = Some e \<longrightarrow> get s' q = Some e)"
proof -
  from del_ok [OF assms(1)] assms(2) obtain s' where d: "del s r = (True, s')" "models s' n (m(r := None))"
    by auto
  from all_ok [OF d(2)] obtain l where "all s' = Some l" "map_of l = m(r := None)" by auto
  with d get_ok [OF d(2)] show ?thesis by auto
qed

end

section \<open>The heap table provides it\<close>

definition heap_collect :: "store \<Rightarrow> u16 \<Rightarrow> (row_ref \<times> bytes) list option" where
  "heap_collect s row_size = map_option rev (heap_scan s row_size (\<lambda>row ref acc. (True, (ref, row) # acc)) [])"

definition heap_get :: "u16 \<Rightarrow> store \<Rightarrow> row_ref \<Rightarrow> bytes option" where
  "heap_get row_size s ref = map_option (take (unat row_size)) (heap_fetch s ref)"

definition row_fits :: "u16 \<Rightarrow> store \<Rightarrow> bool" where
  "row_fits row_size s \<longleftrightarrow> 0 < unat row_size \<and> 24 + unat row_size \<le> unat (st_page_size s)"

definition heap_models :: "u16 \<Rightarrow> store \<Rightarrow> nat \<Rightarrow> (row_ref \<Rightarrow> bytes option) \<Rightarrow> bool" where
  "heap_models row_size s n m \<longleftrightarrow> row_fits row_size s \<and> room s n
     \<and> (\<exists>fl chain. store_ok s fl \<and> heap_ok s fl (unat row_size) chain \<and> m = heap_rows s (unat row_size) chain)"

lemma visit_rows_collect: "visit_rows (\<lambda>row ref acc. (True, (ref, row) # acc)) acc l = (True, rev l @ acc)"
  by (induction l arbitrary: acc) auto

lemma heap_collect_list:
  "heap_ok s fl rs chain \<Longrightarrow> heap_collect s row_size = Some (heap_list s row_size chain)"
  by (simp add: heap_collect_def heap_scan_visits visit_rows_collect)

interpretation hp: row_heap "heap_models row_size" "\<lambda>row. length row = unat row_size"
  "\<lambda>s row. heap_insert s row row_size" "heap_get row_size" heap_delete "\<lambda>s. heap_collect s row_size"
  for row_size :: u16
proof
  fix s n m and row :: bytes
  assume "heap_models row_size s (Suc n) m" and row: "length row = unat row_size"
  then obtain fl chain where fit: "row_fits row_size s" and rm: "room s (Suc n)" and ok: "store_ok s fl"
    and hok: "heap_ok s fl (unat row_size) chain" and m: "m = heap_rows s (unat row_size) chain"
    by (auto simp: heap_models_def)
  from rm have "room s 1" by (simp add: room_def)
  from heap_insert_correct [OF ok hok this row refl] fit obtain ref s' fl' chain' where
    "heap_insert s row row_size = Some (ref, s')" and i: "inserted s fl (unat row_size) chain row ref s' fl' chain'"
    by (auto simp: row_fits_def)
  moreover have "heap_models row_size s' n (m(ref \<mapsto> row))"
    unfolding heap_models_def using i fit rm m
    by (intro conjI exI [of _ fl'] exI [of _ chain']) (simp_all add: inserted_def row_fits_def)
  ultimately show "\<exists>r s'. heap_insert s row row_size = Some (r, s') \<and> m r = None \<and> heap_models row_size s' n (m(r \<mapsto> row))"
    using m by (auto simp: inserted_def)
next
  fix s n m r d
  assume "heap_models row_size s n m" "m r = Some d"
  then show "heap_get row_size s r = Some d"
    using heap_fetch_alive by (fastforce simp: heap_models_def heap_get_def)
next
  fix s n m r
  assume "heap_models row_size s n m" "m r \<noteq> None"
  then obtain fl chain where fit: "row_fits row_size s" and rm: "room s n" and ok: "store_ok s fl"
    and hok: "heap_ok s fl (unat row_size) chain" and m: "m = heap_rows s (unat row_size) chain"
    and al: "heap_rows s (unat row_size) chain r \<noteq> None"
    by (auto simp: heap_models_def)
  from heap_delete_correct [OF ok hok al] obtain s' where "heap_delete s r = (True, s')" "store_ok s' fl"
    "heap_ok s' fl (unat row_size) chain" "heap_rows s' (unat row_size) chain = m(r := None)"
    "st_hdr s' = st_hdr s" "st_page_size s' = st_page_size s" using m by auto
  moreover from this have "heap_models row_size s' n (m(r := None))"
    unfolding heap_models_def using fit rm
    by (intro conjI exI [of _ fl] exI [of _ chain]) (simp_all add: row_fits_def room_def)
  ultimately show "\<exists>s'. heap_delete s r = (True, s') \<and> heap_models row_size s' n (m(r := None))"
    by blast
next
  fix s n m
  assume "heap_models row_size s n m"
  then obtain fl chain where hok: "heap_ok s fl (unat row_size) chain" and m: "m = heap_rows s (unat row_size) chain"
    by (auto simp: heap_models_def)
  note L = heap_list_rows [OF heap_okD(3) [OF hok] refl, where s = s and row_size = row_size]
  show "\<exists>l. heap_collect s row_size = Some l \<and> distinct (map fst l) \<and> map_of l = m"
    using L(1,3) heap_collect_list [OF hok, of row_size] m by auto
qed

section \<open>A concrete heap\<close>

text \<open>A store of 64-byte pages with one empty heap page, the shape \<open>exec_create_table\<close> leaves.\<close>

definition demo_store :: store where
  "demo_store = \<lparr>st_page_size = 64,
     st_hdr = \<lparr>hd_magic = [], hd_version = 1, hd_page_size = 64, hd_root_index_page_id = 2,
       hd_first_heap_page_id = 1, hd_next_page_id = 3, hd_free_page_head = 0, hd_next_id = 1,
       hd_row_count = 0, hd_column_count = 0, hd_row_size = 8, hd_columns = []\<rparr>,
     st_pages = (\<lambda>_. replicate 64 0)(1 := mwrite (replicate 64 0) 0 (put_heap_hdr fresh_heap_hdr)),
     st_last_heap = 1, st_free_hint = False\<rparr>"

lemma demo_store_ok: "store_ok demo_store []"
  by (simp add: store_ok_def demo_store_def length_mwrite heap_hdr.length_enc)

lemma demo_heap_ok: "heap_ok demo_store [] rs [1]"
proof -
  have "get_heap_hdr (mwrite (replicate 64 0) 0 (put_heap_hdr fresh_heap_hdr)) = fresh_heap_hdr"
    by (rule heap_page_next_fresh) simp
  moreover have "heap_page_ok 64 rs (mwrite (replicate 64 0) 0 (put_heap_hdr fresh_heap_hdr))"
    using heap_page_ok_fresh(1) [of "replicate 64 0" rs] by simp
  ultimately show ?thesis
    by (simp add: heap_ok_def demo_store_def in_use_def fresh_heap_hdr_def)
qed

lemma demo_rows: "heap_rows demo_store rs [1] = (\<lambda>_. None)"
proof
  fix ref
  have "page_row rs (mwrite (replicate 64 0) 0 (put_heap_hdr fresh_heap_hdr)) i = None" for i
    by (rule heap_page_ok_fresh) simp_all
  then show "heap_rows demo_store rs [1] ref = None"
    by (simp add: heap_rows_def demo_store_def)
qed

lemma demo_models: "heap_models 8 demo_store 100 (\<lambda>_. None)"
  unfolding heap_models_def
  using demo_store_ok demo_heap_ok demo_rows
  by (fastforce simp: row_fits_def room_def demo_store_def)

end
