(* ===== verification/Schema.thy ===== *)
theory Schema
  imports Page_Format
begin

text \<open>
  Rows as bytes (\<open>src/storage/schema.c\<close>): the column layout, \<open>row_serialize\<close> and
  \<open>row_deserialize\<close>. A \<open>row_value_t\<close> is a union, so a value is its 256 bytes of storage, read as
  an integer or as a C string. An access outside the row buffer, the union or the columns of the
  header is undefined behaviour in C and is the result \<open>None\<close> here.
\<close>

section \<open>Values\<close>

type_synonym row_value = bytes

definition ROW_VALUE_SIZE :: nat where "ROW_VALUE_SIZE = 256"

definition int_val :: "row_value \<Rightarrow> u32" where "int_val v = rd32 v 0"
definition bigint_val :: "row_value \<Rightarrow> u64" where "bigint_val v = rd64 v 0"
definition str_val :: "row_value \<Rightarrow> string" where "str_val v = cstr_get v"

text \<open>\<open>strlen\<close>: undefined when the storage holds no terminator.\<close>

definition c_strlen :: "bytes \<Rightarrow> nat option" where
  "c_strlen b = (if 0 \<in> set b then Some (length (takeWhile (\<lambda>x. x \<noteq> 0) b)) else None)"

definition pad_value :: "bytes \<Rightarrow> row_value" where
  "pad_value d = d @ replicate (ROW_VALUE_SIZE - length d) 0"

section \<open>Layout\<close>

fun layout_cols :: "u16 \<Rightarrow> column_meta list \<Rightarrow> u16 \<times> column_meta list" where
  "layout_cols offset [] = (offset, [])"
| "layout_cols offset (c # cs) =
     (let (end_offset, cs') = layout_cols (offset + cm_size c) cs
      in (end_offset, c\<lparr>cm_offset := offset\<rparr> # cs'))"

definition schema_compute_layout :: "db_header \<Rightarrow> (u16 \<times> db_header) option" where
  "schema_compute_layout hdr =
     (let n = unat (hd_column_count hdr) in
      if length (hd_columns hdr) < n then None
      else let (offset, cs) = layout_cols 0 (take n (hd_columns hdr))
           in Some (offset, hdr\<lparr>hd_columns := cs @ drop n (hd_columns hdr), hd_row_size := offset\<rparr>))"

section \<open>Serialisation\<close>

text \<open>
  The bytes the \<open>switch\<close> copies for one column. For \<open>VARCHAR(0)\<close>, \<open>col->size - 1\<close> is -1 as an
  \<open>int\<close> and the length becomes \<open>SIZE_MAX\<close>.
\<close>

definition col_src :: "column_meta \<Rightarrow> row_value \<Rightarrow> bytes option" where
  "col_src col v =
     (if cm_type col = COL_TYPE_INT then Some (wr32 (int_val v))
      else if cm_type col = COL_TYPE_BIGINT then Some (wr64 (bigint_val v))
      else if cm_type col = COL_TYPE_VARCHAR then
        (case c_strlen v of
           None \<Rightarrow> None
         | Some len \<Rightarrow>
             if len \<ge> unat (cm_size col) then
               (if cm_size col = 0 then None else Some (take (unat (cm_size col) - 1) v))
             else Some (take len v))
      else Some [])"

fun serialize_from :: "column_meta list \<Rightarrow> row_value list \<Rightarrow> bytes \<Rightarrow> bytes option" where
  "serialize_from [] vs buf = Some buf"
| "serialize_from (col # cols) [] buf = None"
| "serialize_from (col # cols) (v # vs) buf =
     (case col_src col v of
        None \<Rightarrow> None
      | Some d \<Rightarrow>
          if unat (cm_offset col) + length d \<le> length buf
          then serialize_from cols vs (mwrite buf (unat (cm_offset col)) d) else None)"

definition active_columns :: "db_header \<Rightarrow> column_meta list option" where
  "active_columns hdr =
     (if length (hd_columns hdr) < unat (hd_column_count hdr) then None
      else Some (take (unat (hd_column_count hdr)) (hd_columns hdr)))"

definition row_serialize :: "db_header \<Rightarrow> row_value list \<Rightarrow> bytes option" where
  "row_serialize hdr vals =
     (case active_columns hdr of
        None \<Rightarrow> None
      | Some cols \<Rightarrow> serialize_from cols vals (replicate (unat (hd_row_size hdr)) 0))"

definition col_load :: "bytes \<Rightarrow> column_meta \<Rightarrow> row_value option" where
  "col_load buf col =
     (let off = unat (cm_offset col); size = unat (cm_size col) in
      if cm_type col = COL_TYPE_INT then
        (if off + 4 \<le> length buf then Some (pad_value (mread buf off 4)) else None)
      else if cm_type col = COL_TYPE_BIGINT then
        (if off + 8 \<le> length buf then Some (pad_value (mread buf off 8)) else None)
      else if cm_type col = COL_TYPE_VARCHAR then
        (if off + size \<le> length buf \<and> size < ROW_VALUE_SIZE then Some (pad_value (mread buf off size)) else None)
      else Some (pad_value []))"

definition row_deserialize :: "db_header \<Rightarrow> bytes \<Rightarrow> row_value list option" where
  "row_deserialize hdr buf =
     (case active_columns hdr of None \<Rightarrow> None | Some cols \<Rightarrow> those (map (col_load buf) cols))"

section \<open>Well formed layouts\<close>

definition col_sized :: "column_meta \<Rightarrow> bool" where
  "col_sized c \<longleftrightarrow> cm_type c = COL_TYPE_INT \<and> cm_size c = 4
     \<or> cm_type c = COL_TYPE_BIGINT \<and> cm_size c = 8
     \<or> cm_type c = COL_TYPE_VARCHAR \<and> 0 < cm_size c \<and> cm_size c < 256"

fun laid_out :: "nat \<Rightarrow> column_meta list \<Rightarrow> nat \<Rightarrow> bool" where
  "laid_out off [] e \<longleftrightarrow> off = e"
| "laid_out off (c # cs) e \<longleftrightarrow> unat (cm_offset c) = off \<and> col_sized c \<and> laid_out (off + unat (cm_size c)) cs e"

definition schema_ok :: "db_header \<Rightarrow> bool" where
  "schema_ok hdr \<longleftrightarrow> unat (hd_column_count hdr) \<le> length (hd_columns hdr)
     \<and> laid_out 0 (take (unat (hd_column_count hdr)) (hd_columns hdr)) (unat (hd_row_size hdr))"

definition value_ok :: "row_value \<Rightarrow> bool" where
  "value_ok v \<longleftrightarrow> length v = ROW_VALUE_SIZE \<and> 0 \<in> set v"

text \<open>The stored image of a value and the value read back.\<close>

definition col_image :: "column_meta \<Rightarrow> row_value \<Rightarrow> bytes" where
  "col_image c v = (case col_src c v of None \<Rightarrow> [] | Some d \<Rightarrow> d @ replicate (unat (cm_size c) - length d) 0)"

definition canonical :: "column_meta \<Rightarrow> row_value \<Rightarrow> row_value" where
  "canonical c v = pad_value (case col_src c v of None \<Rightarrow> [] | Some d \<Rightarrow> d)"

lemma laid_out_le: "laid_out off cs e \<Longrightarrow> off \<le> e"
  by (induction off cs e rule: laid_out.induct) auto

lemma c_strlen_some:
  assumes "0 \<in> set v"
  obtains n where "c_strlen v = Some n" "n < length v" "n = length (takeWhile (\<lambda>x. x \<noteq> 0) v)"
    "take n v = takeWhile (\<lambda>x. x \<noteq> 0) v"
proof -
  let ?n = "length (takeWhile (\<lambda>x. x \<noteq> 0) v)"
  have "?n < length v"
    using assms by (induction v) auto
  moreover have "take ?n v = takeWhile (\<lambda>x. x \<noteq> 0) v" by (metis takeWhile_eq_take)
  ultimately show thesis using assms by (intro that [of ?n]) (simp_all add: c_strlen_def)
qed

lemma col_src_sized:
  assumes "col_sized c" "value_ok v"
  obtains d where "col_src c v = Some d" "length d \<le> unat (cm_size c)" "unat (cm_size c) < ROW_VALUE_SIZE"
proof -
  from assms(2) obtain n where n: "c_strlen v = Some n" "n < length v"
    using c_strlen_some [of v] by (auto simp: value_ok_def)
  have s: "cm_size c < 256 \<longleftrightarrow> unat (cm_size c) < 256" by (simp add: word_less_nat_alt)
  from assms(1) n that show thesis
    by (cases "unat (cm_size c) \<le> n") (auto simp: col_sized_def col_src_def s ROW_VALUE_SIZE_def word_gt_0)
qed

lemma length_col_image: "col_sized c \<Longrightarrow> value_ok v \<Longrightarrow> length (col_image c v) = unat (cm_size c)"
  using col_src_sized [of c v] by (fastforce simp: col_image_def)

lemma serialize_from_layout:
  assumes "laid_out (length p) cols e" "length vs = length cols" "\<forall>v \<in> set vs. value_ok v"
  shows "serialize_from cols vs (p @ replicate (e - length p) 0) = Some (p @ concat (map2 col_image cols vs))
    \<and> length (p @ concat (map2 col_image cols vs)) = e"
  using assms
proof (induction cols arbitrary: p vs)
  case Nil
  then show ?case by simp
next
  case (Cons c cs)
  then obtain v vs' where vs: "vs = v # vs'" by (cases vs) auto
  from Cons.prems vs have off: "unat (cm_offset c) = length p" and sz: "col_sized c" and ok: "value_ok v"
    and rest: "laid_out (length p + unat (cm_size c)) cs e" by auto
  from sz ok obtain d where d: "col_src c v = Some d" "length d \<le> unat (cm_size c)" by (rule col_src_sized)
  have le: "length p + unat (cm_size c) \<le> e" using laid_out_le [OF rest] .
  let ?p = "p @ col_image c v"
  have len: "length ?p = length p + unat (cm_size c)" using length_col_image [OF sz ok] by simp
  have "drop (length p + length d) (p @ replicate (e - length p) 0)
      = replicate (unat (cm_size c) - length d) 0 @ replicate (e - length ?p) (0 :: 8 word)"
    using le d(2) len by (simp flip: replicate_add)
  then have "mwrite (p @ replicate (e - length p) 0) (length p) d = ?p @ replicate (e - length ?p) 0"
    by (simp add: mwrite_def col_image_def d(1))
  with Cons.IH [of ?p vs'] Cons.prems rest len vs off d le show ?case by simp
qed

theorem row_serialize_image:
  assumes "schema_ok hdr" "length vs = unat (hd_column_count hdr)" "\<forall>v \<in> set vs. value_ok v"
  shows "row_serialize hdr vs = Some (concat (map2 col_image (hd_columns hdr) vs))"
    and "length (concat (map2 col_image (hd_columns hdr) vs)) = unat (hd_row_size hdr)"
proof -
  let ?cs = "take (unat (hd_column_count hdr)) (hd_columns hdr)"
  have "zip ?cs vs = zip (hd_columns hdr) vs"
    using assms(2) by (metis order_refl take_all take_zip length_zip min.cobounded2)
  then have m: "map2 col_image ?cs vs = map2 col_image (hd_columns hdr) vs" by simp
  have "active_columns hdr = Some ?cs" using assms(1) by (simp add: schema_ok_def active_columns_def)
  with serialize_from_layout [of "[]" ?cs "unat (hd_row_size hdr)" vs] assms m
  show "row_serialize hdr vs = Some (concat (map2 col_image (hd_columns hdr) vs))"
    "length (concat (map2 col_image (hd_columns hdr) vs)) = unat (hd_row_size hdr)"
    by (simp_all add: row_serialize_def schema_ok_def)
qed

section \<open>Reading back\<close>

lemma pad_value_zeros:
  "length d + k \<le> ROW_VALUE_SIZE \<Longrightarrow> pad_value (d @ replicate k 0) = pad_value d"
  by (simp add: pad_value_def flip: replicate_add)

lemma length_pad_value: "length d \<le> ROW_VALUE_SIZE \<Longrightarrow> length (pad_value d) = ROW_VALUE_SIZE"
  by (simp add: pad_value_def)

lemma col_load_image:
  assumes sz: "col_sized c" and ok: "value_ok v" and off: "unat (cm_offset c) = length p"
  shows "col_load (p @ col_image c v @ q) c = Some (canonical c v)"
proof -
  from sz ok obtain d where d: "col_src c v = Some d" "length d \<le> unat (cm_size c)"
    "unat (cm_size c) < ROW_VALUE_SIZE" by (rule col_src_sized)
  note len = length_col_image [OF sz ok]
  have rd: "mread (p @ col_image c v @ q) (length p) (unat (cm_size c)) = col_image c v"
    using len by (simp add: mread_def)
  have img: "pad_value (col_image c v) = canonical c v"
    using d by (simp add: col_image_def canonical_def pad_value_zeros)
  from sz consider (int) "cm_type c = COL_TYPE_INT" "unat (cm_size c) = 4"
    | (big) "cm_type c = COL_TYPE_BIGINT" "unat (cm_size c) = 8"
    | (str) "cm_type c = COL_TYPE_VARCHAR" by (auto simp: col_sized_def)
  then show ?thesis
    using rd img off len d(3) by cases (auto simp: col_load_def Let_def)
qed

lemma col_loads_layout:
  assumes "laid_out (length p) cols e" "length vs = length cols" "\<forall>v \<in> set vs. value_ok v"
  shows "those (map (col_load (p @ concat (map2 col_image cols vs))) cols) = Some (map2 canonical cols vs)"
  using assms
proof (induction cols arbitrary: p vs)
  case Nil
  then show ?case by simp
next
  case (Cons c cs)
  then obtain v vs' where vs: "vs = v # vs'" by (cases vs) auto
  with Cons.prems have sz: "col_sized c" and ok: "value_ok v" by auto
  from Cons.IH [of "p @ col_image c v" vs'] Cons.prems vs
  have "those (map (col_load (p @ col_image c v @ concat (map2 col_image cs vs'))) cs) = Some (map2 canonical cs vs')"
    by (simp add: length_col_image [OF sz ok])
  then show ?case using col_load_image [OF sz ok] Cons.prems vs by simp
qed

text \<open>
  What survives storage: a number of the column's width exactly, a string up to \<open>size - 1\<close>
  characters.
\<close>

lemma canonical_int: "cm_type c = COL_TYPE_INT \<Longrightarrow> int_val (canonical c v) = int_val v"
  by (simp add: canonical_def col_src_def int_val_def pad_value_def)

lemma canonical_bigint: "cm_type c = COL_TYPE_BIGINT \<Longrightarrow> bigint_val (canonical c v) = bigint_val v"
  by (simp add: canonical_def col_src_def bigint_val_def pad_value_def)

lemma takeWhile_nonzero_pad:
  assumes "0 \<notin> set (d :: bytes)" "length d < ROW_VALUE_SIZE"
  shows "takeWhile (\<lambda>x. x \<noteq> 0) (pad_value d) = d"
proof -
  obtain k where "ROW_VALUE_SIZE - length d = Suc k" using assms(2) by (metis Suc_diff_Suc)
  then have "pad_value d = d @ 0 # replicate k 0" by (simp add: pad_value_def)
  moreover have "\<forall>x \<in> set d. x \<noteq> 0" using assms(1) by metis
  ultimately show ?thesis by (simp add: takeWhile_append)
qed

lemma canonical_varchar:
  assumes ty: "cm_type c = COL_TYPE_VARCHAR" and sz: "col_sized c" and ok: "value_ok v"
  shows "str_val (canonical c v) = take (unat (cm_size c) - 1) (str_val v)"
proof -
  let ?w = "takeWhile (\<lambda>x. x \<noteq> 0) v"
  from ok obtain n where n: "c_strlen v = Some n" "n = length ?w" "take n v = ?w"
    using c_strlen_some [of v] by (auto simp: value_ok_def)
  have s: "cm_size c \<noteq> 0" "unat (cm_size c) < 256"
    using sz ty by (auto simp: col_sized_def word_less_nat_alt)
  have src: "col_src c v = Some (take (unat (cm_size c) - 1) ?w)"
  proof (cases "unat (cm_size c) \<le> n")
    case True
    then have "take (unat (cm_size c) - 1) v = take (unat (cm_size c) - 1) (take n v)" by simp
    with True ty s n show ?thesis by (simp add: col_src_def)
  next
    case False
    with ty s n show ?thesis by (simp add: col_src_def)
  qed
  have "0 \<notin> set (take (unat (cm_size c) - 1) ?w)"
    by (metis in_set_takeD set_takeWhileD)
  moreover have "length (take (unat (cm_size c) - 1) ?w) < ROW_VALUE_SIZE"
    using s by (simp add: ROW_VALUE_SIZE_def)
  ultimately show ?thesis
    by (simp add: str_val_def cstr_get_def canonical_def src takeWhile_nonzero_pad bytes_str_def take_map)
qed

text \<open>What has been stored once is stored unchanged again.\<close>

lemma value_ok_canonical: "col_sized c \<Longrightarrow> value_ok (canonical c v)"
proof -
  assume sz: "col_sized c"
  have len: "unat (cm_size c) < 256" using sz by (auto simp: col_sized_def word_less_nat_alt)
  have "length d < 256" if "col_src c v = Some d" for d
    using sz len that by (auto simp: col_src_def col_sized_def split: option.splits if_splits)
  then have "\<exists>d. canonical c v = pad_value d \<and> length d < ROW_VALUE_SIZE"
    unfolding canonical_def ROW_VALUE_SIZE_def by (cases "col_src c v") (auto intro: exI [of _ "[]"])
  then show ?thesis by (auto simp: value_ok_def pad_value_def)
qed

lemma canonical_canonical:
  assumes sz: "col_sized c" and ok: "value_ok v"
  shows "canonical c (canonical c v) = canonical c v"
proof (cases "cm_type c = COL_TYPE_VARCHAR")
  case False
  then show ?thesis using sz by (auto simp: canonical_def col_src_def col_sized_def int_val_def bigint_val_def pad_value_def)
next
  case True
  let ?w = "\<lambda>v. takeWhile (\<lambda>x. x \<noteq> 0) (v :: bytes)" and ?m = "unat (cm_size c) - 1"
  have s: "cm_size c \<noteq> 0" "unat (cm_size c) < 256" using sz True by (auto simp: col_sized_def word_less_nat_alt)
  have can: "canonical c u = pad_value (take ?m (?w u))" if "value_ok u" for u
  proof -
    from that obtain n where n: "c_strlen u = Some n" "n = length (?w u)" "take n u = ?w u"
      using c_strlen_some [of u] by (auto simp: value_ok_def)
    show ?thesis
    proof (cases "unat (cm_size c) \<le> n")
      case True
      then have "take ?m u = take ?m (take n u)" by simp
      with True \<open>cm_type c = COL_TYPE_VARCHAR\<close> s n show ?thesis by (simp add: canonical_def col_src_def)
    next
      case False
      with \<open>cm_type c = COL_TYPE_VARCHAR\<close> s n show ?thesis by (simp add: canonical_def col_src_def)
    qed
  qed
  have "0 \<notin> set (take ?m (?w v))" by (metis in_set_takeD set_takeWhileD)
  then have "?w (canonical c v) = take ?m (?w v)"
    unfolding can [OF ok] using s by (intro takeWhile_nonzero_pad) (simp_all add: ROW_VALUE_SIZE_def)
  then have "canonical c (canonical c v) = pad_value (take ?m (take ?m (?w v)))"
    using can [OF value_ok_canonical [OF sz]] by metis
  then show ?thesis using can [OF ok] by simp
qed

theorem row_roundtrip:
  assumes "schema_ok hdr" "length vs = unat (hd_column_count hdr)" "\<forall>v \<in> set vs. value_ok v"
  shows "\<exists>buf. row_serialize hdr vs = Some buf \<and> length buf = unat (hd_row_size hdr)
    \<and> row_deserialize hdr buf = Some (map2 canonical (hd_columns hdr) vs)"
proof -
  let ?cs = "take (unat (hd_column_count hdr)) (hd_columns hdr)"
  have z: "zip ?cs vs = zip (hd_columns hdr) vs"
    using assms(2) by (metis order_refl take_all take_zip length_zip min.cobounded2)
  have "active_columns hdr = Some ?cs" using assms(1) by (simp add: schema_ok_def active_columns_def)
  moreover from col_loads_layout [of "[]" ?cs "unat (hd_row_size hdr)" vs] assms
  have "those (map (col_load (concat (map2 col_image (hd_columns hdr) vs))) ?cs) = Some (map2 canonical (hd_columns hdr) vs)"
    by (simp add: schema_ok_def flip: z)
  ultimately show ?thesis
    using row_serialize_image [OF assms] by (simp add: row_deserialize_def)
qed

section \<open>The computed layout is well formed\<close>

lemma layout_cols_laid_out:
  assumes "\<forall>c \<in> set cs. col_sized c" "unat off + sum_list (map (unat \<circ> cm_size) cs) < 65536"
  shows "laid_out (unat off) (snd (layout_cols off cs)) (unat (fst (layout_cols off cs)))
    \<and> unat (fst (layout_cols off cs)) = unat off + sum_list (map (unat \<circ> cm_size) cs)"
  using assms
proof (induction cs arbitrary: off)
  case Nil
  then show ?case by simp
next
  case (Cons c cs)
  then have "unat (off + cm_size c) = unat off + unat (cm_size c)"
    by (intro unat_add_small) simp
  with Cons.IH [of "off + cm_size c"] Cons.prems show ?case
    by (auto simp: split_beta Let_def col_sized_def)
qed

lemma layout_cols_keeps:
  "length (snd (layout_cols off cs)) = length cs"
  "map (\<lambda>c. (cm_name c, cm_type c, cm_size c)) (snd (layout_cols off cs)) = map (\<lambda>c. (cm_name c, cm_type c, cm_size c)) cs"
  by (induction cs arbitrary: off) (auto simp: split_beta Let_def)

theorem schema_compute_layout_ok:
  assumes "unat (hd_column_count hdr) \<le> length (hd_columns hdr)"
    and "\<forall>c \<in> set (take (unat (hd_column_count hdr)) (hd_columns hdr)). col_sized c"
    and "sum_list (map (unat \<circ> cm_size) (take (unat (hd_column_count hdr)) (hd_columns hdr))) < 65536"
  shows "\<exists>n hdr'. schema_compute_layout hdr = Some (n, hdr') \<and> schema_ok hdr'
    \<and> unat n = sum_list (map (unat \<circ> cm_size) (take (unat (hd_column_count hdr)) (hd_columns hdr)))
    \<and> hd_row_size hdr' = n \<and> length (hd_columns hdr') = length (hd_columns hdr)"
proof -
  let ?cs = "take (unat (hd_column_count hdr)) (hd_columns hdr)"
  note L = layout_cols_laid_out [of ?cs 0] layout_cols_keeps(1) [of 0 ?cs]
  have "length (snd (layout_cols 0 ?cs)) = unat (hd_column_count hdr)" using L(2) assms(1) by simp
  with assms conjunct1 [OF L(1)] conjunct2 [OF L(1)] show ?thesis
    by (simp add: schema_compute_layout_def split_beta Let_def schema_ok_def)
qed

text \<open>Column sizes outside the range the layout is meant for are undefined behaviour.\<close>

theorem varchar_size_limits:
  assumes "active_columns hdr = Some cols" "c \<in> set cols" "cm_type c = COL_TYPE_VARCHAR"
  shows "cm_size c = 0 \<Longrightarrow> row_serialize hdr vs = None"
    and "256 \<le> cm_size c \<Longrightarrow> row_deserialize hdr buf = None"
proof -
  have *: "serialize_from cs vs b = None" if "c \<in> set cs" "cm_size c = 0" for cs vs b
    using that(1)
  proof (induction cs vs b rule: serialize_from.induct)
    case (3 col cols v vs buf)
    then show ?case
      using assms(3) that(2) by (auto simp: col_src_def split: option.splits)
  qed simp_all
  show "cm_size c = 0 \<Longrightarrow> row_serialize hdr vs = None"
    using * assms(1,2) by (simp add: row_serialize_def)
  assume "256 \<le> cm_size c"
  then have "col_load buf c = None"
    using assms(3) by (simp add: col_load_def ROW_VALUE_SIZE_def word_le_nat_alt)
  moreover have "those (map (col_load buf) cs) = None" if "c \<in> set cs" "col_load buf c = None" for cs
    using that by (induction cs) (auto split: option.splits)
  ultimately show "row_deserialize hdr buf = None"
    using assms(1,2) by (simp add: row_deserialize_def)
qed

lemma row_store_load_eq:
  assumes "schema_ok hdr" "length vs = unat (hd_column_count hdr)" "\<forall>v \<in> set vs. value_ok v"
  shows "\<exists>buf. row_serialize hdr vs = Some buf \<and> row_deserialize hdr buf = Some (map2 canonical (hd_columns hdr) vs)"
  using row_roundtrip [OF assms] by blast

lemma laid_out_sized: "laid_out off cs e \<Longrightarrow> c \<in> set cs \<Longrightarrow> col_sized c"
  by (induction off cs e rule: laid_out.induct) auto

lemma schema_ok_sized:
  assumes "schema_ok hdr" "c = hd_columns hdr ! i" "i < unat (hd_column_count hdr)"
  shows "col_sized c"
proof -
  let ?cs = "take (unat (hd_column_count hdr)) (hd_columns hdr)"
  have "i < length ?cs" "?cs ! i = c" using assms by (simp_all add: schema_ok_def)
  then have "c \<in> set ?cs" by (metis nth_mem)
  then show ?thesis using assms(1) laid_out_sized by (auto simp: schema_ok_def)
qed

definition canonical_row :: "db_header \<Rightarrow> row_value list \<Rightarrow> bool" where
  "canonical_row hdr vs \<longleftrightarrow> map2 canonical (hd_columns hdr) vs = vs"

lemma canonical_row_map2:
  assumes "schema_ok hdr" "length vs = unat (hd_column_count hdr)" "\<forall>v \<in> set vs. value_ok v"
  shows "canonical_row hdr (map2 canonical (hd_columns hdr) vs)"
  unfolding canonical_row_def
proof (rule nth_equalityI)
  fix i assume "i < length (map2 canonical (hd_columns hdr) (map2 canonical (hd_columns hdr) vs))"
  then have i: "i < length (hd_columns hdr)" "i < length vs" by simp_all
  from canonical_canonical [OF schema_ok_sized [OF assms(1) refl, of i], of "vs ! i"] i assms(2,3)
  show "map2 canonical (hd_columns hdr) (map2 canonical (hd_columns hdr) vs) ! i = map2 canonical (hd_columns hdr) vs ! i"
    by simp
qed simp

lemma row_deserialize_length:
  assumes "row_deserialize hdr b = Some vs"
  shows "length vs = unat (hd_column_count hdr)"
proof -
  have "those (map (col_load b) cs) = Some vs \<Longrightarrow> length vs = length cs" for cs
    by (induction cs arbitrary: vs) (auto split: option.splits)
  then show ?thesis using assms by (auto simp: row_deserialize_def active_columns_def split: if_splits)
qed

end
