(* ===== verification/Frame_Index.thy ===== *)
theory Frame_Index
  imports Page_Format "HOL-Library.Monad_Syntax"
begin

text \<open>
  The frames of the page cache and the hash index from page numbers to frames
  (\<open>frame_index_insert\<close>, \<open>frame_index_remove\<close>, \<open>find_frame\<close> of \<open>src/storage/pager.c\<close>). A bucket
  holds the index of its first frame, \<open>hash_next\<close> leads to the next one, -1 ends the chain. The
  walks are partial functions: on a cyclic chain they do not end, and \<open>index_ok\<close> rules that out.
\<close>

section \<open>Frames\<close>

record frame =
  fr_page_id :: u32
  fr_valid :: bool
  fr_dirty :: bool
  fr_pin :: u32
  fr_tick :: u64
  fr_next :: int
  fr_data :: bytes

definition MAX_FRAMES :: nat where "MAX_FRAMES = 256"
definition FRAME_HASH_BUCKETS :: nat where "FRAME_HASH_BUCKETS = 512"

definition frame_bucket :: "u32 \<Rightarrow> nat" where
  "frame_bucket page_id = unat page_id mod FRAME_HASH_BUCKETS"

definition frame_index_insert :: "frame list \<Rightarrow> int list \<Rightarrow> nat \<Rightarrow> frame list \<times> int list" where
  "frame_index_insert frames buckets idx =
     (let bucket = frame_bucket (fr_page_id (frames ! idx))
      in (frames[idx := (frames ! idx)\<lparr>fr_next := buckets ! bucket\<rparr>], buckets[bucket := int idx]))"

text \<open>The pointer \<open>link\<close> of \<open>frame_index_remove\<close>: the head of a bucket or the \<open>hash_next\<close> of a frame.\<close>

datatype link = Bucket nat | Next nat

fun load_link :: "frame list \<Rightarrow> int list \<Rightarrow> link \<Rightarrow> int" where
  "load_link frames buckets (Bucket b) = buckets ! b"
| "load_link frames buckets (Next i) = fr_next (frames ! i)"

fun store_link :: "frame list \<Rightarrow> int list \<Rightarrow> link \<Rightarrow> int \<Rightarrow> frame list \<times> int list" where
  "store_link frames buckets (Bucket b) v = (frames, buckets[b := v])"
| "store_link frames buckets (Next i) v = (frames[i := (frames ! i)\<lparr>fr_next := v\<rparr>], buckets)"

partial_function (option) frame_unlink ::
  "frame list \<Rightarrow> int list \<Rightarrow> nat \<Rightarrow> link \<Rightarrow> (frame list \<times> int list) option" where
  "frame_unlink frames buckets idx link =
     (let cur = load_link frames buckets link in
      if cur < 0 then Some (frames[idx := (frames ! idx)\<lparr>fr_next := -1\<rparr>], buckets)
      else if cur = int idx then
        let (frames', buckets') = store_link frames buckets link (fr_next (frames ! idx))
        in Some (frames'[idx := (frames' ! idx)\<lparr>fr_next := -1\<rparr>], buckets')
      else frame_unlink frames buckets idx (Next (nat cur)))"

definition frame_index_remove :: "frame list \<Rightarrow> int list \<Rightarrow> nat \<Rightarrow> (frame list \<times> int list) option" where
  "frame_index_remove frames buckets idx =
     frame_unlink frames buckets idx (Bucket (frame_bucket (fr_page_id (frames ! idx))))"

partial_function (option) find_frame_from :: "frame list \<Rightarrow> u32 \<Rightarrow> int \<Rightarrow> int option" where
  "find_frame_from frames page_id idx =
     (if idx < 0 then Some (-1)
      else if fr_valid (frames ! nat idx) \<and> fr_page_id (frames ! nat idx) = page_id then Some idx
      else find_frame_from frames page_id (fr_next (frames ! nat idx)))"

section \<open>Well formed indexes\<close>

fun frame_chain :: "frame list \<Rightarrow> int \<Rightarrow> nat list \<Rightarrow> bool" where
  "frame_chain frames h [] \<longleftrightarrow> h < 0"
| "frame_chain frames h (i # is) \<longleftrightarrow> h = int i \<and> i < length frames \<and> frame_chain frames (fr_next (frames ! i)) is"

text \<open>The frames of the set \<open>V\<close> are exactly those on the chains, each in the bucket of its page.\<close>

definition in_bucket :: "frame list \<Rightarrow> nat set \<Rightarrow> nat \<Rightarrow> nat set" where
  "in_bucket frames V b = {i \<in> V. frame_bucket (fr_page_id (frames ! i)) = b}"

definition index_ok :: "frame list \<Rightarrow> int list \<Rightarrow> nat set \<Rightarrow> bool" where
  "index_ok frames buckets V \<longleftrightarrow> length buckets = FRAME_HASH_BUCKETS \<and> V \<subseteq> {..<length frames}
     \<and> (\<forall>b < FRAME_HASH_BUCKETS. \<exists>is. frame_chain frames (buckets ! b) is \<and> distinct is
          \<and> set is = in_bucket frames V b)"

lemma frame_bucket_less [simp]: "frame_bucket p < FRAME_HASH_BUCKETS"
  by (simp add: frame_bucket_def FRAME_HASH_BUCKETS_def)

lemma index_ok_bucket:
  assumes "index_ok fs bs V" "b < FRAME_HASH_BUCKETS"
  obtains cs where "frame_chain fs (bs ! b) cs" "distinct cs" "set cs = in_bucket fs V b"
  using assms by (auto simp: index_ok_def)

lemma frame_chain_cong:
  assumes "length fs = length fs'" "\<And>i. i \<in> set is \<Longrightarrow> fr_next (fs' ! i) = fr_next (fs ! i)"
  shows "frame_chain fs' h is = frame_chain fs h is"
  using assms by (induction "is" arbitrary: h) auto

text \<open>Only page numbers and links matter to the index.\<close>

lemma index_ok_cong:
  assumes "index_ok fs bs V" "length fs' = length fs"
    and "\<And>i. i \<in> V \<Longrightarrow> fr_next (fs' ! i) = fr_next (fs ! i) \<and> fr_page_id (fs' ! i) = fr_page_id (fs ! i)"
  shows "index_ok fs' bs V"
  unfolding index_ok_def
proof (intro conjI allI impI)
  have b: "in_bucket fs' V b = in_bucket fs V b" for b
    using assms(3) by (auto simp: in_bucket_def)
  fix b assume "b < FRAME_HASH_BUCKETS"
  then obtain cs where cs: "frame_chain fs (bs ! b) cs" "distinct cs" "set cs = in_bucket fs V b"
    using assms(1) by (auto simp: index_ok_def)
  moreover from cs have "frame_chain fs' (bs ! b) cs"
    using assms(2,3) frame_chain_cong [of fs fs' cs] by (auto simp: in_bucket_def)
  ultimately show "\<exists>is. frame_chain fs' (bs ! b) is \<and> distinct is \<and> set is = in_bucket fs' V b"
    using b by auto
qed (use assms(1,2) in \<open>auto simp: index_ok_def\<close>)

lemma index_ok_insert:
  assumes ok: "index_ok fs bs V" and idx: "idx < length fs" "idx \<notin> V"
    and ins: "frame_index_insert fs bs idx = (fs', bs')"
  shows "index_ok fs' bs' (insert idx V)"
  unfolding index_ok_def
proof (intro conjI allI impI)
  let ?b = "frame_bucket (fr_page_id (fs ! idx))"
  have fs': "fs' = fs[idx := (fs ! idx)\<lparr>fr_next := bs ! ?b\<rparr>]" and bs': "bs' = bs[?b := int idx]"
    using ins by (auto simp: frame_index_insert_def Let_def)
  show "length bs' = FRAME_HASH_BUCKETS" "insert idx V \<subseteq> {..<length fs'}"
    using ok idx by (auto simp: index_ok_def fs' bs')
  fix b assume b: "b < FRAME_HASH_BUCKETS"
  with ok obtain cs where cs: "frame_chain fs (bs ! b) cs" "distinct cs" "set cs = in_bucket fs V b"
    by (auto simp: index_ok_def)
  have nin: "idx \<notin> set cs" using cs(3) idx(2) by (auto simp: in_bucket_def)
  then have chain: "frame_chain fs' (bs ! b) cs"
    using cs(1) by (subst frame_chain_cong) (simp_all add: fs', metis nth_list_update_neq)
  have pid: "fr_page_id (fs' ! i) = fr_page_id (fs ! i)" for i
    by (cases "i = idx"; cases "i < length fs") (auto simp: fs' idx(1))
  have lenb: "?b < length bs" using ok by (simp add: index_ok_def)
  show "\<exists>is. frame_chain fs' (bs' ! b) is \<and> distinct is \<and> set is = in_bucket fs' (insert idx V) b"
  proof (cases "b = ?b")
    case True
    have "frame_chain fs' (bs' ! b) (idx # cs)"
      using True chain lenb idx(1) by (simp add: bs' fs')
    then show ?thesis using cs nin True
      by (intro exI [of _ "idx # cs"]) (auto simp: in_bucket_def pid)
  next
    case False
    with chain cs show ?thesis
      by (intro exI [of _ cs]) (auto simp: in_bucket_def pid bs')
  qed
qed

text \<open>Unlinking: the link that led to the frame now leads past it.\<close>

lemma frame_unlink_chain:
  assumes "frame_chain fs (load_link fs bs l) (xs @ idx # ys)" "idx \<notin> set xs"
  shows "frame_unlink fs bs idx l =
    (case store_link fs bs (if xs = [] then l else Next (last xs)) (fr_next (fs ! idx)) of
       (fs', bs') \<Rightarrow> Some (fs'[idx := (fs' ! idx)\<lparr>fr_next := -1\<rparr>], bs'))"
  using assms
proof (induction xs arbitrary: l)
  case Nil
  then show ?case by (subst frame_unlink.simps) (simp add: Let_def)
next
  case (Cons x xs)
  from Cons.prems have "frame_unlink fs bs idx l = frame_unlink fs bs idx (Next x)"
    by (subst frame_unlink.simps) (auto simp: Let_def)
  with Cons.IH [of "Next x"] Cons.prems show ?case by simp
qed

lemma frame_chain_drop:
  assumes "frame_chain fs h (xs @ idx # ys)" "distinct (xs @ idx # ys)"
    and "length fs' = length fs"
    and "\<And>i. i \<in> set (xs @ ys) \<Longrightarrow> xs = [] \<or> i \<noteq> last xs \<Longrightarrow> fr_next (fs' ! i) = fr_next (fs ! i)"
    and "xs \<noteq> [] \<Longrightarrow> fr_next (fs' ! last xs) = fr_next (fs ! idx)"
  shows "frame_chain fs' (if xs = [] then fr_next (fs ! idx) else h) (xs @ ys)"
  using assms
proof (induction xs arbitrary: h)
  case Nil
  then show ?case using frame_chain_cong [of fs fs' ys] by simp
next
  case (Cons x xs)
  show ?case
  proof (cases "xs = []")
    case True
    with Cons.prems frame_chain_cong [of fs fs' ys] show ?thesis by auto
  next
    case False
    then have "x \<noteq> last xs" using Cons.prems(2) by auto
    with False Cons show ?thesis by auto
  qed
qed

lemma index_ok_remove:
  assumes ok: "index_ok fs bs V" and idx: "idx \<in> V"
  shows "\<exists>fs' bs'. frame_index_remove fs bs idx = Some (fs', bs') \<and> index_ok fs' bs' (V - {idx})
    \<and> length fs' = length fs \<and> (\<forall>i. \<exists>n. i < length fs \<longrightarrow> fs' ! i = (fs ! i)\<lparr>fr_next := n\<rparr>)"
proof -
  let ?b = "frame_bucket (fr_page_id (fs ! idx))"
  have lenb: "?b < length bs" and lt: "idx < length fs" using ok idx by (auto simp: index_ok_def)
  obtain cs where cs: "frame_chain fs (bs ! ?b) cs" "distinct cs" "set cs = in_bucket fs V ?b"
    using index_ok_bucket [OF ok frame_bucket_less] .
  have "idx \<in> set cs" using idx cs(3) by (simp add: in_bucket_def)
  then obtain xs ys where split: "cs = xs @ idx # ys" by (meson split_list)
  with cs have nin: "idx \<notin> set xs" "idx \<notin> set ys" by auto
  define l where "l = (if xs = [] then Bucket ?b else Next (last xs))"
  obtain fs1 bs' where st: "store_link fs bs l (fr_next (fs ! idx)) = (fs1, bs')" by fastforce
  define fs' where "fs' = fs1[idx := (fs1 ! idx)\<lparr>fr_next := -1\<rparr>]"
  have rem: "frame_index_remove fs bs idx = Some (fs', bs')"
    using frame_unlink_chain [of fs bs "Bucket ?b" xs idx ys] cs(1) split nin(1) st
    by (simp add: frame_index_remove_def l_def fs'_def split: if_splits)
  have ne: "last xs \<noteq> idx" if "xs \<noteq> []" using that nin(1) by auto
  have last: "last xs < length fs" "last xs \<in> in_bucket fs V ?b" if "xs \<noteq> []"
    using that ok cs(3) split by (auto simp: index_ok_def in_bucket_def subset_iff)
  have fs'_eq: "fs' ! i = (if i = idx then (fs ! i)\<lparr>fr_next := -1\<rparr>
      else if xs \<noteq> [] \<and> i = last xs then (fs ! i)\<lparr>fr_next := fr_next (fs ! idx)\<rparr> else fs ! i)"
    if "i < length fs" for i
    using st that ne lt by (cases "xs = []") (auto simp: l_def fs'_def nth_list_update)
  have len: "length fs' = length fs" and bs'_eq: "bs' = (if xs = [] then bs[?b := fr_next (fs ! idx)] else bs)"
    using st by (cases "xs = []"; auto simp: l_def fs'_def)+
  have pid: "fr_page_id (fs' ! i) = fr_page_id (fs ! i)" if "i < length fs" for i
    using fs'_eq [OF that] by simp
  have lt_V: "i < length fs" if "i \<in> V" for i using that ok by (auto simp: index_ok_def)
  have "index_ok fs' bs' (V - {idx})"
    unfolding index_ok_def
  proof (intro conjI allI impI)
    show "length bs' = FRAME_HASH_BUCKETS" "V - {idx} \<subseteq> {..<length fs'}"
      using ok by (auto simp: index_ok_def bs'_eq len)
    fix b assume b: "b < FRAME_HASH_BUCKETS"
    have set_b: "in_bucket fs' (V - {idx}) b = in_bucket fs V b - {idx}"
      using pid lt_V by (auto simp: in_bucket_def)
    show "\<exists>is. frame_chain fs' (bs' ! b) is \<and> distinct is \<and> set is = in_bucket fs' (V - {idx}) b"
    proof (cases "b = ?b")
      case True
      have nx: "fr_next (fs' ! i) = fr_next (fs ! i)" if "i \<in> set (xs @ ys)" "xs = [] \<or> i \<noteq> last xs" for i
      proof -
        have "i \<in> V" using that(1) cs(3) split by (auto simp: in_bucket_def)
        with that nin fs'_eq [OF lt_V] show ?thesis by auto
      qed
      have "frame_chain fs' (if xs = [] then fr_next (fs ! idx) else bs ! ?b) (xs @ ys)"
        by (rule frame_chain_drop [OF cs(1)[unfolded split] _ len nx])
          (use cs(2) split last ne fs'_eq in auto)
      moreover have "set (xs @ ys) = in_bucket fs V b - {idx}"
        using cs(2,3) split True nin by auto
      moreover have "distinct (xs @ ys)" using cs(2) split by simp
      ultimately show ?thesis
        using True lenb set_b by (intro exI [of _ "xs @ ys"]) (auto simp: bs'_eq)
    next
      case False
      from ok b obtain ds where ds: "frame_chain fs (bs ! b) ds" "distinct ds" "set ds = in_bucket fs V b"
        by (auto simp: index_ok_def)
      have "fr_next (fs' ! i) = fr_next (fs ! i)" if "i \<in> set ds" for i
        using that ds(3) False last fs'_eq [of i] lt_V by (auto simp: in_bucket_def)
      with ds(1) have "frame_chain fs' (bs ! b) ds" by (subst frame_chain_cong) (auto simp: len)
      moreover have "in_bucket fs V b - {idx} = in_bucket fs V b" using False by (auto simp: in_bucket_def)
      ultimately show ?thesis
        using ds False set_b by (intro exI [of _ ds]) (auto simp: bs'_eq)
    qed
  qed
  moreover have "\<exists>n. i < length fs \<longrightarrow> fs' ! i = (fs ! i)\<lparr>fr_next := n\<rparr>" for i
  proof (cases "i < length fs")
    case True
    have "(fs ! i)\<lparr>fr_next := fr_next (fs ! i)\<rparr> = fs ! i" by simp
    then show ?thesis using fs'_eq [OF True] by (metis (full_types))
  qed simp
  ultimately show ?thesis using rem len by blast
qed

text \<open>Lookup: the frame of the page, if a valid frame on the chains holds it.\<close>

lemma find_frame_from_chain:
  assumes "frame_chain fs h is"
  shows "find_frame_from fs page_id h =
    Some (case find (\<lambda>i. fr_valid (fs ! i) \<and> fr_page_id (fs ! i) = page_id) is of None \<Rightarrow> -1 | Some i \<Rightarrow> int i)"
  using assms
proof (induction "is" arbitrary: h)
  case Nil
  then show ?case by (subst find_frame_from.simps) simp
next
  case (Cons i "is")
  then show ?case by (subst find_frame_from.simps) auto
qed

end
