(* ===== verification/Pager.thy ===== *)
theory Pager
  imports Frame_Index Page_Store
begin

text \<open>
  The page cache (\<open>src/storage/pager.c\<close>): frames with pin counts and access ticks, LRU
  eviction with write-back, the watermark flush, allocation through the cache, flush, open and
  close. The file is a function from offsets to bytes, zero past its end, so a short \<open>pread\<close>
  leaves the zeros \<open>memset\<close> put in the frame; \<open>pread\<close> and \<open>pwrite\<close> are taken to transfer what
  they are asked to. Operations return \<open>None\<close> when a walk of the hash chains does not end or the
  C code would dereference a null page. The counters a query reports are kept, messages on
  \<open>stderr\<close> are not; the latches of the frames are in \<open>Page_Latch\<close>.
\<close>

section \<open>The file\<close>

type_synonym disk = "nat \<Rightarrow> u8"

definition disk_read :: "disk \<Rightarrow> nat \<Rightarrow> nat \<Rightarrow> bytes" where
  "disk_read d off n = map d [off..<off + n]"

definition disk_write :: "disk \<Rightarrow> nat \<Rightarrow> bytes \<Rightarrow> disk" where
  "disk_write d off b = (\<lambda>i. if off \<le> i \<and> i < off + length b then b ! (i - off) else d i)"

section \<open>State\<close>

record query_stats =
  qs_page_loads :: u32
  qs_cache_hits :: u32
  qs_cache_misses :: u32
  qs_pages_flushed :: u32

record pager =
  pg_disk :: disk
  pg_page_size :: u32
  pg_header :: db_header
  pg_last_heap :: page_id
  pg_free_hint :: bool
  pg_frames :: "frame list"
  pg_buckets :: "int list"
  pg_tick :: u64
  pg_header_dirty :: bool
  pg_low :: u32
  pg_high :: u32
  pg_stats :: query_stats

definition raw_read :: "pager \<Rightarrow> page_id \<Rightarrow> bytes" where
  "raw_read p page_id = disk_read (pg_disk p) (unat page_id * unat (pg_page_size p)) (unat (pg_page_size p))"

definition raw_write :: "pager \<Rightarrow> page_id \<Rightarrow> bytes \<Rightarrow> pager" where
  "raw_write p page_id buf =
     p\<lparr>pg_disk := disk_write (pg_disk p) (unat page_id * unat (pg_page_size p)) (take (unat (pg_page_size p)) buf)\<rparr>"

definition set_frame :: "pager \<Rightarrow> nat \<Rightarrow> frame \<Rightarrow> pager" where
  "set_frame p i f = p\<lparr>pg_frames := (pg_frames p)[i := f]\<rparr>"

definition find_frame :: "pager \<Rightarrow> page_id \<Rightarrow> int option" where
  "find_frame p page_id = find_frame_from (pg_frames p) page_id (pg_buckets p ! frame_bucket page_id)"

section \<open>Replacement\<close>

fun first_invalid :: "frame list \<Rightarrow> nat \<Rightarrow> nat option" where
  "first_invalid [] i = None"
| "first_invalid (f # fs) i = (if \<not> fr_valid f then Some i else first_invalid fs (Suc i))"

text \<open>The two loops that pick the least recently used frame among the eligible ones.\<close>

fun lru_scan :: "(frame \<Rightarrow> bool) \<Rightarrow> frame list \<Rightarrow> nat \<Rightarrow> int \<Rightarrow> u64 \<Rightarrow> int" where
  "lru_scan ok [] i best min_tick = best"
| "lru_scan ok (f # fs) i best min_tick =
     (if ok f \<and> fr_tick f < min_tick then lru_scan ok fs (Suc i) (int i) (fr_tick f)
      else lru_scan ok fs (Suc i) best min_tick)"

definition lru_victim :: "(frame \<Rightarrow> bool) \<Rightarrow> frame list \<Rightarrow> int" where
  "lru_victim ok fs = lru_scan ok fs 0 (-1) (- 1)"

text \<open>Writing a frame back: the frame's bytes go to the file, the frame is clean.\<close>

definition write_back :: "pager \<Rightarrow> nat \<Rightarrow> pager" where
  "write_back p i =
     (let f = pg_frames p ! i;
          p = raw_write p (fr_page_id f) (fr_data f)
      in set_frame p i (f\<lparr>fr_dirty := False\<rparr>))"

definition count_flush :: "pager \<Rightarrow> pager" where
  "count_flush p = p\<lparr>pg_stats := (pg_stats p)\<lparr>qs_pages_flushed := qs_pages_flushed (pg_stats p) + 1\<rparr>\<rparr>"

definition evict_frame :: "pager \<Rightarrow> (int \<times> pager) option" where
  "evict_frame p =
     (case first_invalid (pg_frames p) 0 of
        Some i \<Rightarrow> Some (int i, p)
      | None \<Rightarrow>
          let best = lru_victim (\<lambda>f. fr_pin f = 0) (pg_frames p) in
          if best < 0 then Some (-1, p)
          else do {
            let i = nat best;
            let p = (if fr_dirty (pg_frames p ! i) then count_flush (write_back p i) else p);
            (fs, bs) \<leftarrow> frame_index_remove (pg_frames p) (pg_buckets p) i;
            Some (best, p\<lparr>pg_frames := fs[i := (fs ! i)\<lparr>fr_valid := False\<rparr>], pg_buckets := bs\<rparr>)
          })"

section \<open>Access\<close>

text \<open>\<open>pager_get_page\<close> returns the frame's index, -1 for the null pointer.\<close>

definition pager_get_page :: "pager \<Rightarrow> page_id \<Rightarrow> (int \<times> pager) option" where
  "pager_get_page p page_id = do {
     let p = p\<lparr>pg_stats := (pg_stats p)\<lparr>qs_page_loads := qs_page_loads (pg_stats p) + 1\<rparr>\<rparr>;
     idx \<leftarrow> find_frame p page_id;
     if idx \<ge> 0 then
       let p = p\<lparr>pg_stats := (pg_stats p)\<lparr>qs_cache_hits := qs_cache_hits (pg_stats p) + 1\<rparr>,
                 pg_tick := pg_tick p + 1\<rparr>;
           f = pg_frames p ! nat idx
       in Some (idx, set_frame p (nat idx) (f\<lparr>fr_pin := fr_pin f + 1, fr_tick := pg_tick p\<rparr>))
     else do {
       let p = p\<lparr>pg_stats := (pg_stats p)\<lparr>qs_cache_misses := qs_cache_misses (pg_stats p) + 1\<rparr>\<rparr>;
       (idx, p) \<leftarrow> evict_frame p;
       if idx < 0 then Some (-1, p)
       else
         let p = p\<lparr>pg_tick := pg_tick p + 1\<rparr>;
             f = (pg_frames p ! nat idx)\<lparr>fr_page_id := page_id, fr_valid := True, fr_dirty := False,
                   fr_pin := 1, fr_tick := pg_tick p, fr_data := raw_read p page_id\<rparr>;
             (fs, bs) = frame_index_insert ((pg_frames p)[nat idx := f]) (pg_buckets p) (nat idx)
         in Some (idx, p\<lparr>pg_frames := fs, pg_buckets := bs\<rparr>)
     }
   }"

definition count_dirty :: "pager \<Rightarrow> nat" where
  "count_dirty p = length (filter (\<lambda>f. fr_valid f \<and> fr_dirty f) (pg_frames p))"

definition flushable :: "frame \<Rightarrow> bool" where
  "flushable f \<longleftrightarrow> fr_valid f \<and> fr_dirty f \<and> fr_pin f = 0"

function flush_loop :: "nat \<Rightarrow> nat \<Rightarrow> pager \<Rightarrow> pager" where
  "flush_loop dirty target_count p =
     (if dirty \<le> target_count then p
      else let best = lru_victim flushable (pg_frames p) in
        if best < 0 then p
        else flush_loop (dirty - 1) target_count (count_flush (write_back p (nat best))))"
  by pat_completeness auto
termination by (relation "measure fst") auto

declare flush_loop.simps [simp del]

definition pager_flush_dirty :: "pager \<Rightarrow> u32 \<Rightarrow> pager" where
  "pager_flush_dirty p target_count = flush_loop (count_dirty p) (unat target_count) p"

definition pager_mark_dirty :: "pager \<Rightarrow> page_id \<Rightarrow> pager option" where
  "pager_mark_dirty p page_id = do {
     idx \<leftarrow> find_frame p page_id;
     let p = (if idx \<ge> 0 then set_frame p (nat idx) ((pg_frames p ! nat idx)\<lparr>fr_dirty := True\<rparr>) else p);
     let p = p\<lparr>pg_header_dirty := True\<rparr>;
     Some (if 0 < pg_high p \<and> unat (pg_high p) \<le> count_dirty p then pager_flush_dirty p (pg_low p) else p)
   }"

definition pager_unpin :: "pager \<Rightarrow> page_id \<Rightarrow> pager option" where
  "pager_unpin p page_id = do {
     idx \<leftarrow> find_frame p page_id;
     Some (if idx \<ge> 0 \<and> fr_pin (pg_frames p ! nat idx) > 0
           then set_frame p (nat idx) ((pg_frames p ! nat idx)\<lparr>fr_pin := fr_pin (pg_frames p ! nat idx) - 1\<rparr>)
           else p)
   }"

text \<open>A client writing through the pointer it was given: the frame's bytes become \<open>b\<close>.\<close>

definition frame_store :: "pager \<Rightarrow> nat \<Rightarrow> bytes \<Rightarrow> pager" where
  "frame_store p i b = set_frame p i ((pg_frames p ! i)\<lparr>fr_data := b\<rparr>)"

text \<open>
  The pattern of every client that changes a page: get it, write it, mark it dirty, unpin it.
\<close>

definition pager_update :: "pager \<Rightarrow> page_id \<Rightarrow> (bytes \<Rightarrow> bytes) \<Rightarrow> pager option" where
  "pager_update p page_id g = do {
     (idx, p) \<leftarrow> pager_get_page p page_id;
     if idx < 0 then None
     else do {
       let p = frame_store p (nat idx) (g (fr_data (pg_frames p ! nat idx)));
       p \<leftarrow> pager_mark_dirty p page_id;
       pager_unpin p page_id
     }
   }"

section \<open>Allocation\<close>

definition zero_page :: "pager \<Rightarrow> bytes" where
  "zero_page p = replicate (unat (pg_page_size p)) 0"

definition pager_alloc_page :: "pager \<Rightarrow> (page_id \<times> pager) option" where
  "pager_alloc_page p =
     (if hd_free_page_head (pg_header p) \<noteq> 0 then do {
        let pid = hd_free_page_head (pg_header p);
        (idx, p) \<leftarrow> pager_get_page p pid;
        if idx < 0 then None
        else do {
          let fph = get_free_hdr (fr_data (pg_frames p ! nat idx));
          let p = p\<lparr>pg_header := (pg_header p)\<lparr>hd_free_page_head := fph_next_free_page fph\<rparr>\<rparr>;
          let p = frame_store p (nat idx) (zero_page p);
          p \<leftarrow> pager_mark_dirty p pid;
          p \<leftarrow> pager_unpin p pid;
          Some (pid, p)
        }
      }
      else do {
        let pid = hd_next_page_id (pg_header p);
        let p = p\<lparr>pg_header := (pg_header p)\<lparr>hd_next_page_id := pid + 1\<rparr>\<rparr>;
        (idx, p) \<leftarrow> pager_get_page p pid;
        if idx < 0 then None
        else do {
          let p = frame_store p (nat idx) (zero_page p);
          p \<leftarrow> pager_mark_dirty p pid;
          p \<leftarrow> pager_unpin p pid;
          Some (pid, p)
        }
      })"

definition pager_free_page :: "pager \<Rightarrow> page_id \<Rightarrow> pager option" where
  "pager_free_page p page_id = do {
     (idx, p) \<leftarrow> pager_get_page p page_id;
     if idx < 0 then None
     else do {
       let fph = \<lparr>fph_page_type = PAGE_TYPE_FREE, fph_next_free_page = hd_free_page_head (pg_header p)\<rparr>;
       let p = frame_store p (nat idx) (mwrite (zero_page p) 0 (put_free_hdr fph));
       p \<leftarrow> pager_mark_dirty p page_id;
       p \<leftarrow> pager_unpin p page_id;
       Some (p\<lparr>pg_header := (pg_header p)\<lparr>hd_free_page_head := page_id\<rparr>\<rparr>)
     }
   }"

section \<open>Flush, open and close\<close>

fun flush_frames :: "pager \<Rightarrow> nat list \<Rightarrow> pager" where
  "flush_frames p [] = p"
| "flush_frames p (i # is) =
     (let f = pg_frames p ! i
      in flush_frames (if fr_valid f \<and> fr_dirty f then write_back p i else p) is)"

definition pager_flush_all :: "pager \<Rightarrow> pager" where
  "pager_flush_all p =
     (let p = flush_frames p [0..<length (pg_frames p)];
          hbuf = mwrite (zero_page p) 0 (put_db_header (pg_header p))
      in (raw_write p 0 hbuf)\<lparr>pg_header_dirty := False\<rparr>)"

definition empty_frame :: "u32 \<Rightarrow> frame" where
  "empty_frame ps = \<lparr>fr_page_id = 0, fr_valid = False, fr_dirty = False, fr_pin = 0, fr_tick = 0,
     fr_next = -1, fr_data = replicate (unat ps) 0\<rparr>"

definition new_pager :: "disk \<Rightarrow> u32 \<Rightarrow> db_header \<Rightarrow> pager" where
  "new_pager d ps h = \<lparr>pg_disk = d, pg_page_size = ps, pg_header = h, pg_last_heap = 0, pg_free_hint = False,
     pg_frames = replicate MAX_FRAMES (empty_frame ps), pg_buckets = replicate FRAME_HASH_BUCKETS (-1),
     pg_tick = 0, pg_header_dirty = False, pg_low = 16, pg_high = 64,
     pg_stats = \<lparr>qs_page_loads = 0, qs_cache_hits = 0, qs_cache_misses = 0, qs_pages_flushed = 0\<rparr>\<rparr>"

definition initial_header :: "u32 \<Rightarrow> db_header" where
  "initial_header ps = \<lparr>hd_magic = DB_MAGIC, hd_version = 1, hd_page_size = ps, hd_root_index_page_id = 2,
     hd_first_heap_page_id = 1, hd_next_page_id = 3, hd_free_page_head = 0, hd_next_id = 1,
     hd_row_count = 0, hd_column_count = 0, hd_row_size = 0,
     hd_columns = replicate MAX_COLUMNS \<lparr>cm_name = [], cm_type = 0, cm_size = 0, cm_offset = 0, cm_is_system = 0\<rparr>\<rparr>"

text \<open>\<open>pager_open\<close> with \<open>create\<close>: \<open>ps\<close> is what \<open>sysconf\<close> returned, 0 and -1 standing for no answer.\<close>

definition pager_create :: "u32 \<Rightarrow> pager" where
  "pager_create ps0 =
     (let ps = (if ps0 = 0 \<or> ps0 = - 1 then 4096 else ps0);
          h = initial_header ps;
          p = (new_pager (\<lambda>_. 0) ps h)\<lparr>pg_last_heap := 1\<rparr>;
          p = raw_write p 0 (mwrite (zero_page p) 0 (put_db_header h));
          hph = \<lparr>hph_page_type = PAGE_TYPE_HEAP, hph_next_heap_page_id = 0, hph_slot_count = 0,
                 hph_free_slot_head = SLOT_NONE, hph_free_space_offset = 0, hph_reserved = 0\<rparr>;
          p = raw_write p 1 (mwrite (zero_page p) 0 (put_heap_hdr hph));
          lph = \<lparr>lph_page_type = PAGE_TYPE_LEAF, lph_parent_page_id = 0, lph_key_count = 0,
                 lph_next_leaf = 0, lph_prev_leaf = 0\<rparr>
      in raw_write p 2 (mwrite (zero_page p) 0 (put_leaf_hdr lph)))"

text \<open>The walk that finds the last heap page and whether some heap page has a free slot.\<close>

partial_function (option) restore_heap_tail :: "pager \<Rightarrow> page_id \<Rightarrow> pager option" where
  "restore_heap_tail p pid =
     (if pid = 0 then Some p
      else Option.bind (pager_get_page p pid) (\<lambda>(idx, p).
        if idx < 0 then None
        else let hph = get_heap_hdr (fr_data (pg_frames p ! nat idx)) in
          Option.bind (pager_unpin p pid) (\<lambda>p.
            restore_heap_tail
              (p\<lparr>pg_free_hint := pg_free_hint p \<or> hph_free_slot_head hph \<noteq> SLOT_NONE, pg_last_heap := pid\<rparr>)
              (hph_next_heap_page_id hph))))"

text \<open>\<open>pager_open\<close> of an existing file: \<open>Some None\<close> is the error return.\<close>

definition pager_reopen :: "disk \<Rightarrow> pager option option" where
  "pager_reopen d =
     (let ps = hd_page_size (get_db_header (disk_read d 0 4096));
          h = get_db_header (disk_read d 0 (unat ps))
      in if take 7 (hd_magic h) \<noteq> take 7 DB_MAGIC then Some None
         else let p = (new_pager d ps h)\<lparr>pg_last_heap := hd_first_heap_page_id h\<rparr>
           in map_option Some (restore_heap_tail p (pg_last_heap p)))"

definition pager_close :: "pager \<Rightarrow> disk" where
  "pager_close p = pg_disk (pager_flush_all p)"

definition pager_reset_stats :: "pager \<Rightarrow> pager" where
  "pager_reset_stats p =
     p\<lparr>pg_stats := \<lparr>qs_page_loads = 0, qs_cache_hits = 0, qs_cache_misses = 0, qs_pages_flushed = 0\<rparr>\<rparr>"

end
