(* ===== verification/Pager_Cache.thy ===== *)
theory Pager_Cache
  imports Pager
begin

text \<open>
  The invariant of the page cache, and what each of its steps does to the contents of the pages:
  nothing. \<open>view\<close> is the page a client sees: the cached copy if there is one, the file's
  otherwise; \<open>pins\<close> counts the references held on a page. Fetching, evicting and flushing keep
  the view; only a client's write changes it.
\<close>

section \<open>The file\<close>

lemma length_disk_read [simp]: "length (disk_read d off n) = n"
  by (simp add: disk_read_def)

lemma disk_read_write_same: "disk_read (disk_write d off b) off (length b) = b"
  by (rule nth_equalityI) (simp_all add: disk_read_def disk_write_def)

lemma disk_read_write_other:
  "off + n \<le> off' \<or> off' + length b \<le> off \<Longrightarrow> disk_read (disk_write d off' b) off n = disk_read d off n"
  by (rule nth_equalityI) (auto simp: disk_read_def disk_write_def)

lemma length_raw_read [simp]: "length (raw_read p pid) = unat (pg_page_size p)"
  by (simp add: raw_read_def)

lemma raw_write_simps [simp]:
  "pg_page_size (raw_write p q b) = pg_page_size p" "pg_header (raw_write p q b) = pg_header p"
  "pg_frames (raw_write p q b) = pg_frames p" "pg_buckets (raw_write p q b) = pg_buckets p"
  "pg_tick (raw_write p q b) = pg_tick p" "pg_last_heap (raw_write p q b) = pg_last_heap p"
  "pg_free_hint (raw_write p q b) = pg_free_hint p" "pg_low (raw_write p q b) = pg_low p"
  "pg_high (raw_write p q b) = pg_high p"
  by (simp_all add: raw_write_def)

lemma raw_read_write:
  assumes "length b = unat (pg_page_size p)"
  shows "raw_read (raw_write p pid b) q = (if q = pid then b else raw_read p q)"
proof (cases "q = pid")
  case True
  with assms disk_read_write_same [of "pg_disk p" _ b] show ?thesis
    by (simp add: raw_read_def raw_write_def)
next
  case False
  let ?n = "unat (pg_page_size p)"
  from False have "unat q < unat pid \<or> unat pid < unat q" by (metis linorder_neqE_nat unat_inj_iff)
  then have "unat q * ?n + ?n \<le> unat pid * ?n \<or> unat pid * ?n + ?n \<le> unat q * ?n"
    by (metis Suc_leI add.commute mult_Suc mult_le_mono1)
  with False assms show ?thesis
    by (simp add: raw_read_def raw_write_def disk_read_write_other)
qed

lemma raw_read_cong:
  "pg_disk p = pg_disk q \<Longrightarrow> pg_page_size p = pg_page_size q \<Longrightarrow> raw_read p pid = raw_read q pid"
  by (simp add: raw_read_def)

section \<open>The invariant\<close>

definition valid_frames :: "frame list \<Rightarrow> nat set" where
  "valid_frames fs = {i. i < length fs \<and> fr_valid (fs ! i)}"

text \<open>The index is right and no page is cached twice.\<close>

definition cache_ok :: "pager \<Rightarrow> bool" where
  "cache_ok p \<longleftrightarrow> length (pg_frames p) = MAX_FRAMES
     \<and> index_ok (pg_frames p) (pg_buckets p) (valid_frames (pg_frames p))
     \<and> inj_on (\<lambda>i. fr_page_id (pg_frames p ! i)) (valid_frames (pg_frames p))"

text \<open>A frame holds a page's worth of bytes; a clean one agrees with the file. Page 0 is never cached.\<close>

definition frame_ok :: "pager \<Rightarrow> frame \<Rightarrow> bool" where
  "frame_ok p f \<longleftrightarrow> length (fr_data f) = unat (pg_page_size p)
     \<and> (fr_valid f \<longrightarrow> fr_page_id f \<noteq> 0 \<and> fr_tick f \<le> pg_tick p
          \<and> (\<not> fr_dirty f \<longrightarrow> fr_data f = raw_read p (fr_page_id f)))"

definition pager_ok :: "pager \<Rightarrow> bool" where
  "pager_ok p \<longleftrightarrow> cache_ok p \<and> (\<forall>i < MAX_FRAMES. frame_ok p (pg_frames p ! i))
     \<and> DB_HEADER_SIZE \<le> unat (pg_page_size p) \<and> unat (pg_page_size p) < 65536 \<and> pg_tick p < - 1"

definition holds :: "pager \<Rightarrow> nat \<Rightarrow> page_id \<Rightarrow> bool" where
  "holds p i pid \<longleftrightarrow> i < length (pg_frames p) \<and> fr_valid (pg_frames p ! i) \<and> fr_page_id (pg_frames p ! i) = pid"

definition view :: "pager \<Rightarrow> page_id \<Rightarrow> bytes" where
  "view p pid = (case find (\<lambda>f. fr_valid f \<and> fr_page_id f = pid) (pg_frames p) of
     Some f \<Rightarrow> fr_data f | None \<Rightarrow> raw_read p pid)"

definition pins :: "pager \<Rightarrow> page_id \<Rightarrow> nat" where
  "pins p pid = (case find (\<lambda>f. fr_valid f \<and> fr_page_id f = pid) (pg_frames p) of
     Some f \<Rightarrow> unat (fr_pin f) | None \<Rightarrow> 0)"

lemma valid_frames_holds: "i \<in> valid_frames (pg_frames p) \<longleftrightarrow> holds p i (fr_page_id (pg_frames p ! i))"
  by (auto simp: valid_frames_def holds_def)

lemma cache_ok_unique: "cache_ok p \<Longrightarrow> holds p i pid \<Longrightarrow> holds p j pid \<Longrightarrow> i = j"
  by (auto simp: cache_ok_def holds_def valid_frames_def inj_on_def)

lemma find_holds:
  assumes "cache_ok p" "holds p i pid"
  shows "find (\<lambda>f. fr_valid f \<and> fr_page_id f = pid) (pg_frames p) = Some (pg_frames p ! i)"
proof -
  let ?P = "\<lambda>f. fr_valid f \<and> fr_page_id f = pid"
  have "find ?P (pg_frames p) \<noteq> None"
    using assms(2) by (auto simp: find_None_iff holds_def)
  then obtain f where f: "find ?P (pg_frames p) = Some f" by blast
  then obtain j where "holds p j pid" "f = pg_frames p ! j"
    by (auto simp: find_Some_iff holds_def)
  with f cache_ok_unique [OF assms] show ?thesis by simp
qed

lemma find_not_holds:
  "(\<And>i. \<not> holds p i pid) \<Longrightarrow> find (\<lambda>f. fr_valid f \<and> fr_page_id f = pid) (pg_frames p) = None"
  by (auto simp: find_None_iff holds_def in_set_conv_nth)

lemma view_holds: "cache_ok p \<Longrightarrow> holds p i pid \<Longrightarrow> view p pid = fr_data (pg_frames p ! i)"
  by (simp add: view_def find_holds)

lemma pins_holds: "cache_ok p \<Longrightarrow> holds p i pid \<Longrightarrow> pins p pid = unat (fr_pin (pg_frames p ! i))"
  by (simp add: pins_def find_holds)

lemma view_not_holds: "(\<And>i. \<not> holds p i pid) \<Longrightarrow> view p pid = raw_read p pid"
  by (simp add: view_def find_not_holds)

lemma pins_not_holds: "(\<And>i. \<not> holds p i pid) \<Longrightarrow> pins p pid = 0"
  by (simp add: pins_def find_not_holds)

text \<open>The hash index finds exactly the cached pages.\<close>

theorem find_frame_ok:
  assumes "cache_ok p"
  shows "holds p i pid \<Longrightarrow> find_frame p pid = Some (int i)"
    and "(\<And>i. \<not> holds p i pid) \<Longrightarrow> find_frame p pid = Some (-1)"
proof -
  let ?P = "\<lambda>i. fr_valid (pg_frames p ! i) \<and> fr_page_id (pg_frames p ! i) = pid"
  obtain cs where cs: "frame_chain (pg_frames p) (pg_buckets p ! frame_bucket pid) cs"
    "set cs = in_bucket (pg_frames p) (valid_frames (pg_frames p)) (frame_bucket pid)"
    using index_ok_bucket [OF _ frame_bucket_less] assms unfolding cache_ok_def by blast
  have mem: "i \<in> set cs \<and> ?P i \<longleftrightarrow> holds p i pid" for i
    using cs(2) by (auto simp: in_bucket_def valid_frames_def holds_def)
  note F = find_frame_from_chain [OF cs(1), of pid]
  show "find_frame p pid = Some (int i)" if h: "holds p i pid"
  proof -
    have "find ?P cs \<noteq> None" using mem [of i] h by (auto simp: find_None_iff)
    then obtain j where j: "find ?P cs = Some j" by blast
    then have "j \<in> set cs \<and> ?P j" by (metis (mono_tags, lifting) find_Some_iff nth_mem)
    with mem h have "j = i" using cache_ok_unique [OF assms] by blast
    with F j show ?thesis by (simp add: find_frame_def)
  qed
  show "find_frame p pid = Some (-1)" if "\<And>i. \<not> holds p i pid"
  proof -
    have "find ?P cs = None" using mem that by (auto simp: find_None_iff)
    with F show ?thesis by (simp add: find_frame_def)
  qed
qed

section \<open>Changing one frame\<close>

lemma set_frame_simps [simp]:
  "pg_disk (set_frame p i f) = pg_disk p"
  "pg_page_size (set_frame p i f) = pg_page_size p" "pg_header (set_frame p i f) = pg_header p"
  "pg_frames (set_frame p i f) = (pg_frames p)[i := f]" "pg_buckets (set_frame p i f) = pg_buckets p"
  "pg_tick (set_frame p i f) = pg_tick p" "pg_last_heap (set_frame p i f) = pg_last_heap p"
  "pg_free_hint (set_frame p i f) = pg_free_hint p" "pg_low (set_frame p i f) = pg_low p"
  "pg_high (set_frame p i f) = pg_high p" "raw_read (set_frame p i f) pid = raw_read p pid"
  by (simp_all add: set_frame_def raw_read_def)

definition keeps_place :: "frame \<Rightarrow> frame \<Rightarrow> bool" where
  "keeps_place f f' \<longleftrightarrow> fr_page_id f' = fr_page_id f \<and> fr_valid f' = fr_valid f \<and> fr_next f' = fr_next f"

lemma holds_set_frame:
  "keeps_place (pg_frames p ! i) f \<Longrightarrow> holds (set_frame p i f) j pid = holds p j pid"
  by (cases "j = i"; cases "i < length (pg_frames p)") (auto simp: holds_def keeps_place_def)

lemma cache_ok_set_frame:
  assumes "cache_ok p" "keeps_place (pg_frames p ! i) f"
  shows "cache_ok (set_frame p i f)"
proof -
  have place: "fr_page_id ((pg_frames p)[i := f] ! j) = fr_page_id (pg_frames p ! j)"
    "fr_valid ((pg_frames p)[i := f] ! j) = fr_valid (pg_frames p ! j)"
    "fr_next ((pg_frames p)[i := f] ! j) = fr_next (pg_frames p ! j)" for j
    using assms(2) by (simp_all add: nth_update_any keeps_place_def)
  then have v: "valid_frames ((pg_frames p)[i := f]) = valid_frames (pg_frames p)"
    by (simp add: valid_frames_def)
  have "index_ok ((pg_frames p)[i := f]) (pg_buckets p) (valid_frames (pg_frames p))"
  proof (rule index_ok_cong)
    show "index_ok (pg_frames p) (pg_buckets p) (valid_frames (pg_frames p))"
      using assms(1) by (simp add: cache_ok_def)
  qed (simp_all only: place length_list_update)
  with assms(1) v show ?thesis
    unfolding cache_ok_def set_frame_simps place length_list_update by simp
qed

lemma view_set_frame:
  assumes "cache_ok p" "keeps_place (pg_frames p ! i) f" "holds p i pid"
  shows "view (set_frame p i f) = (view p)(pid := fr_data f)"
    and "pins (set_frame p i f) = (pins p)(pid := unat (fr_pin f))"
proof -
  note ok' = cache_ok_set_frame [OF assms(1,2)]
  have i: "i < length (pg_frames p)" using assms(3) by (simp add: holds_def)
  have *: "view (set_frame p i f) q = ((view p)(pid := fr_data f)) q
    \<and> pins (set_frame p i f) q = ((pins p)(pid := unat (fr_pin f))) q" for q
  proof (cases "\<exists>j. holds p j q")
    case True
    then obtain j where j: "holds p j q" by blast
    then have j': "holds (set_frame p i f) j q" using assms(2) by (simp add: holds_set_frame)
    have "j = i \<longleftrightarrow> q = pid"
      using j assms(3) cache_ok_unique [OF assms(1)] by (auto simp: holds_def)
    then show ?thesis
      using view_holds [OF ok' j'] pins_holds [OF ok' j'] view_holds [OF assms(1) j] pins_holds [OF assms(1) j] i
      by auto
  next
    case False
    then have "\<And>j. \<not> holds (set_frame p i f) j q" "q \<noteq> pid"
      using assms by (auto simp: holds_set_frame)
    with False show ?thesis by (simp add: view_not_holds pins_not_holds)
  qed
  show "view (set_frame p i f) = (view p)(pid := fr_data f)"
    "pins (set_frame p i f) = (pins p)(pid := unat (fr_pin f))"
    using * by (simp_all add: fun_eq_iff)
qed

lemma pager_ok_frame: "pager_ok p \<Longrightarrow> i < length (pg_frames p) \<Longrightarrow> frame_ok p (pg_frames p ! i)"
  by (simp add: pager_ok_def cache_ok_def)

lemma pager_ok_set_frame:
  assumes "pager_ok p" "keeps_place (pg_frames p ! i) f" "frame_ok p f"
  shows "pager_ok (set_frame p i f)"
proof -
  have "frame_ok (set_frame p i f) g = frame_ok p g" for g by (simp add: frame_ok_def)
  moreover have "frame_ok p ((pg_frames p)[i := f] ! j)" if "j < MAX_FRAMES" for j
    using that assms by (cases "j = i") (auto simp: pager_ok_def cache_ok_def)
  ultimately show ?thesis
    using assms cache_ok_set_frame by (simp add: pager_ok_def)
qed

end
