(* ===== verification/Pager_Evict.thy ===== *)
theory Pager_Evict
  imports Pager_Cache
begin

text \<open>
  Replacement: the LRU choice, write-back, eviction and loading, and \<open>pager_get_page\<close> as a whole.
  A pinned page is never evicted, a dirty one reaches the file before its frame is reused, and
  the page a client gets is the page it had before, wherever it was.
\<close>

section \<open>Fields the cache does not depend on\<close>

lemma cache_congs [simp]:
  "pager_ok (pg_stats_update f p) = pager_ok p" "pager_ok (pg_header_update h p) = pager_ok p"
  "pager_ok (pg_header_dirty_update d p) = pager_ok p"
  "pager_ok (pg_last_heap_update l p) = pager_ok p" "pager_ok (pg_free_hint_update g p) = pager_ok p"
  "cache_ok (pg_stats_update f p) = cache_ok p" "cache_ok (pg_header_update h p) = cache_ok p"
  "cache_ok (pg_header_dirty_update d p) = cache_ok p"
  "view (pg_stats_update f p) = view p" "view (pg_header_update h p) = view p"
  "view (pg_header_dirty_update d p) = view p"
  "view (pg_last_heap_update l p) = view p" "view (pg_free_hint_update g p) = view p"
  "pins (pg_stats_update f p) = pins p" "pins (pg_header_update h p) = pins p"
  "pins (pg_header_dirty_update d p) = pins p"
  "pins (pg_last_heap_update l p) = pins p" "pins (pg_free_hint_update g p) = pins p"
  "holds (pg_stats_update f p) = holds p" "holds (pg_header_update h p) = holds p"
  "holds (pg_header_dirty_update d p) = holds p"
  by (simp_all add: pager_ok_def cache_ok_def frame_ok_def view_def pins_def holds_def raw_read_def fun_eq_iff split: option.split)

lemma tick_congs:
  "view (p\<lparr>pg_tick := t\<rparr>) = view p" "pins (p\<lparr>pg_tick := t\<rparr>) = pins p" "holds (p\<lparr>pg_tick := t\<rparr>) = holds p"
  "pager_ok p \<Longrightarrow> pg_tick p \<le> t \<Longrightarrow> t < - 1 \<Longrightarrow> pager_ok (p\<lparr>pg_tick := t\<rparr>)"
  by (auto simp: pager_ok_def cache_ok_def frame_ok_def view_def pins_def holds_def raw_read_def fun_eq_iff split: option.split)

lemma find_frame_congs [simp]:
  "find_frame (pg_stats_update f p) = find_frame p" "find_frame (pg_header_update h p) = find_frame p"
  "find_frame (pg_tick_update t p) = find_frame p"
  by (simp_all add: find_frame_def fun_eq_iff)

text \<open>What no cache operation changes.\<close>

definition same_meta :: "pager \<Rightarrow> pager \<Rightarrow> bool" where
  "same_meta p p' \<longleftrightarrow> pg_page_size p' = pg_page_size p \<and> pg_header p' = pg_header p
     \<and> pg_last_heap p' = pg_last_heap p \<and> pg_free_hint p' = pg_free_hint p
     \<and> pg_low p' = pg_low p \<and> pg_high p' = pg_high p"

lemma same_meta_refl [simp]: "same_meta p p"
  by (simp add: same_meta_def)

lemma same_meta_trans: "same_meta p q \<Longrightarrow> same_meta q r \<Longrightarrow> same_meta p r"
  by (simp add: same_meta_def)

section \<open>The least recently used frame\<close>

lemma lru_scan_spec:
  "lru_scan ok fs i best m = best \<and> (\<forall>f \<in> set fs. ok f \<longrightarrow> m \<le> fr_tick f)
   \<or> (\<exists>k < length fs. lru_scan ok fs i best m = int (i + k) \<and> ok (fs ! k) \<and> fr_tick (fs ! k) < m
        \<and> (\<forall>f \<in> set fs. ok f \<longrightarrow> fr_tick (fs ! k) \<le> fr_tick f))"
proof (induction fs arbitrary: i best m)
  case Nil
  then show ?case by simp
next
  case (Cons g fs)
  show ?case
  proof (cases "ok g \<and> fr_tick g < m")
    case True
    with Cons.IH [of "Suc i" "int i" "fr_tick g"] show ?thesis
    proof (elim disjE)
      assume "lru_scan ok fs (Suc i) (int i) (fr_tick g) = int i \<and> (\<forall>f\<in>set fs. ok f \<longrightarrow> fr_tick g \<le> fr_tick f)"
      with True show ?thesis by (intro disjI2 exI [of _ 0]) auto
    next
      assume "\<exists>k<length fs. lru_scan ok fs (Suc i) (int i) (fr_tick g) = int (Suc i + k) \<and> ok (fs ! k)
        \<and> fr_tick (fs ! k) < fr_tick g \<and> (\<forall>f\<in>set fs. ok f \<longrightarrow> fr_tick (fs ! k) \<le> fr_tick f)"
      then obtain k where k: "k < length fs" "lru_scan ok fs (Suc i) (int i) (fr_tick g) = int (Suc i + k)"
        "ok (fs ! k)" "fr_tick (fs ! k) < fr_tick g" "\<forall>f\<in>set fs. ok f \<longrightarrow> fr_tick (fs ! k) \<le> fr_tick f" by blast
      moreover from k True have "fr_tick (fs ! k) < m" using less_trans by blast
      ultimately show ?thesis using True by (intro disjI2 exI [of _ "Suc k"]) auto
    qed
  next
    case False
    with Cons.IH [of "Suc i" best m] show ?thesis
    proof (elim disjE)
      assume "lru_scan ok fs (Suc i) best m = best \<and> (\<forall>f\<in>set fs. ok f \<longrightarrow> m \<le> fr_tick f)"
      with False show ?thesis by (intro disjI1) auto
    next
      assume "\<exists>k<length fs. lru_scan ok fs (Suc i) best m = int (Suc i + k) \<and> ok (fs ! k) \<and> fr_tick (fs ! k) < m
        \<and> (\<forall>f\<in>set fs. ok f \<longrightarrow> fr_tick (fs ! k) \<le> fr_tick f)"
      then obtain k where k: "k < length fs" "lru_scan ok fs (Suc i) best m = int (Suc i + k)"
        "ok (fs ! k)" "fr_tick (fs ! k) < m" "\<forall>f\<in>set fs. ok f \<longrightarrow> fr_tick (fs ! k) \<le> fr_tick f" by blast
      moreover from k False have "ok g \<Longrightarrow> fr_tick (fs ! k) \<le> fr_tick g" by force
      ultimately show ?thesis using False by (intro disjI2 exI [of _ "Suc k"]) auto
    qed
  qed
qed

theorem lru_victim_least:
  assumes "\<And>f. f \<in> set fs \<Longrightarrow> ok f \<Longrightarrow> fr_tick f < - 1"
  shows "lru_victim ok fs < 0 \<longleftrightarrow> (\<forall>f \<in> set fs. \<not> ok f)"
    and "0 \<le> lru_victim ok fs \<Longrightarrow> nat (lru_victim ok fs) < length fs \<and> ok (fs ! nat (lru_victim ok fs))
      \<and> (\<forall>f \<in> set fs. ok f \<longrightarrow> fr_tick (fs ! nat (lru_victim ok fs)) \<le> fr_tick f)"
  using lru_scan_spec [of ok fs 0 "-1" "- 1"] assms
  by (auto simp: lru_victim_def leD dest: leD)

section \<open>Write-back\<close>

lemma raw_read_congs [simp]:
  "raw_read (pg_stats_update f p) pid = raw_read p pid" "raw_read (pg_frames_update g p) pid = raw_read p pid"
  "raw_read (pg_buckets_update h p) pid = raw_read p pid"
  by (simp_all add: raw_read_def)

lemma write_back_simps [simp]:
  "pg_page_size (write_back p i) = pg_page_size p" "pg_header (write_back p i) = pg_header p"
  "pg_frames (write_back p i) = (pg_frames p)[i := (pg_frames p ! i)\<lparr>fr_dirty := False\<rparr>]"
  "pg_buckets (write_back p i) = pg_buckets p"
  "pg_tick (write_back p i) = pg_tick p" "pg_last_heap (write_back p i) = pg_last_heap p"
  "pg_free_hint (write_back p i) = pg_free_hint p" "pg_low (write_back p i) = pg_low p"
  "pg_high (write_back p i) = pg_high p"
  by (simp_all add: write_back_def Let_def)

lemma raw_read_write_back:
  assumes "pager_ok p" "holds p i pid"
  shows "raw_read (write_back p i) q = (if q = pid then fr_data (pg_frames p ! i) else raw_read p q)"
proof -
  have "frame_ok p (pg_frames p ! i)" using assms by (simp add: holds_def pager_ok_frame)
  with assms(2) show ?thesis
    by (simp add: write_back_def Let_def raw_read_write holds_def frame_ok_def)
qed

lemma write_back_ok:
  assumes ok: "pager_ok p" and h: "holds p i pid"
  shows "pager_ok (write_back p i)" and "view (write_back p i) = view p"
    and "pins (write_back p i) = pins p" and "holds (write_back p i) = holds p"
    and "same_meta p (write_back p i)"
proof -
  let ?f = "(pg_frames p ! i)\<lparr>fr_dirty := False\<rparr>" and ?w = "raw_write p (fr_page_id (pg_frames p ! i)) (fr_data (pg_frames p ! i))"
  have wb: "write_back p i = set_frame ?w i ?f" by (simp add: write_back_def Let_def)
  have c: "cache_ok p" and c': "cache_ok ?w" using ok by (simp_all add: pager_ok_def cache_ok_def)
  have pl: "keeps_place (pg_frames ?w ! i) ?f" by (simp add: keeps_place_def)
  have hw: "holds ?w = holds p" by (simp add: holds_def fun_eq_iff)
  show hh: "holds (write_back p i) = holds p"
    unfolding wb by (simp add: fun_eq_iff holds_set_frame [OF pl] hw)
  show "same_meta p (write_back p i)" by (simp add: same_meta_def)
  note rr = raw_read_write_back [OF ok h]
  have cb: "cache_ok (write_back p i)" unfolding wb by (rule cache_ok_set_frame [OF c' pl])
  have i: "i < length (pg_frames p)" using h by (simp add: holds_def)
  have fo: "frame_ok (write_back p i) (pg_frames (write_back p i) ! j)" if "j < MAX_FRAMES" for j
  proof -
    have "frame_ok p (pg_frames p ! j)" using ok that by (simp add: pager_ok_def)
    moreover have "fr_valid (pg_frames p ! j) \<Longrightarrow> j \<noteq> i \<Longrightarrow> fr_page_id (pg_frames p ! j) \<noteq> pid"
      using cache_ok_unique [OF c h] that c by (auto simp: holds_def cache_ok_def)
    ultimately show ?thesis
      using i rr h by (cases "j = i") (auto simp: frame_ok_def holds_def)
  qed
  with ok cb show "pager_ok (write_back p i)" by (simp add: pager_ok_def)
  have *: "view (write_back p i) q = view p q \<and> pins (write_back p i) q = pins p q" for q
  proof (cases "\<exists>j. holds p j q")
    case True
    then obtain j where j: "holds p j q" by blast
    with hh have j': "holds (write_back p i) j q" by simp
    show ?thesis
      using view_holds [OF c j] pins_holds [OF c j] view_holds [OF cb j'] pins_holds [OF cb j'] i
      by (simp add: nth_update_any)
  next
    case False
    with hh have n: "\<And>j. \<not> holds (write_back p i) j q" by simp
    from False h have "q \<noteq> pid" by blast
    with rr False n show ?thesis
      by (simp add: view_not_holds pins_not_holds)
  qed
  then show "view (write_back p i) = view p" "pins (write_back p i) = pins p" by (simp_all add: fun_eq_iff)
qed

end
