(* ===== verification/Pager_Access.thy ===== *)
theory Pager_Access
  imports Pager_Evict
begin

text \<open>
  Access to pages through the cache: eviction, loading, \<open>pager_get_page\<close>, \<open>pager_mark_dirty\<close> with
  its watermark flush, and \<open>pager_unpin\<close>.
\<close>

section \<open>Eviction\<close>

definition evictable :: "pager \<Rightarrow> bool" where
  "evictable p \<longleftrightarrow> (\<exists>f \<in> set (pg_frames p). \<not> fr_valid f \<or> fr_pin f = 0)"

lemma first_invalid_spec:
  "case first_invalid fs i of None \<Rightarrow> \<forall>f \<in> set fs. fr_valid f
   | Some k \<Rightarrow> i \<le> k \<and> k - i < length fs \<and> \<not> fr_valid (fs ! (k - i))"
proof (induction fs arbitrary: i)
  case Nil
  then show ?case by simp
next
  case (Cons f fs)
  from Cons.IH [of "Suc i"] show ?case
    by (auto simp: Suc_diff_le nth_Cons' split: option.splits)
qed

text \<open>Taking a clean frame off the index leaves every page's view alone.\<close>

lemma drop_frame_ok:
  assumes ok: "pager_ok p" and h: "holds p i pid" and clean: "\<not> fr_dirty (pg_frames p ! i)"
    and unpinned: "fr_pin (pg_frames p ! i) = 0"
    and rem: "frame_index_remove (pg_frames p) (pg_buckets p) i = Some (fs, bs)"
    and p': "p' = p\<lparr>pg_frames := fs[i := (fs ! i)\<lparr>fr_valid := False\<rparr>], pg_buckets := bs\<rparr>"
  shows "pager_ok p'" and "view p' = view p" and "pins p' = pins p"
    and "holds p' j q \<longleftrightarrow> holds p j q \<and> j \<noteq> i" and "same_meta p p'" and "\<not> fr_valid (pg_frames p' ! i)"
proof -
  let ?V = "valid_frames (pg_frames p)"
  have c: "cache_ok p" using ok by (simp add: pager_ok_def)
  then have ix: "index_ok (pg_frames p) (pg_buckets p) ?V" and len0: "length (pg_frames p) = MAX_FRAMES"
    by (simp_all add: cache_ok_def)
  have i: "i < length (pg_frames p)" "i \<in> ?V" using h by (auto simp: holds_def valid_frames_def)
  from index_ok_remove [OF ix i(2)] rem have ix': "index_ok fs bs (?V - {i})" and len: "length fs = length (pg_frames p)"
    and fsx: "\<forall>j. \<exists>n. j < length (pg_frames p) \<longrightarrow> fs ! j = (pg_frames p ! j)\<lparr>fr_next := n\<rparr>" by auto
  define gs where "gs = fs[i := (fs ! i)\<lparr>fr_valid := False\<rparr>]"
  note p' = p' [folded gs_def]
  have leng: "length gs = length (pg_frames p)" using len by (simp add: gs_def)
  have fr: "\<exists>n. gs ! j = (pg_frames p ! j)\<lparr>fr_next := n, fr_valid := fr_valid (pg_frames p ! j) \<and> j \<noteq> i\<rparr>"
    if "j < length (pg_frames p)" for j
  proof -
    from fsx that obtain n where n: "fs ! j = (pg_frames p ! j)\<lparr>fr_next := n\<rparr>" by blast
    show ?thesis
    proof (cases "j = i")
      case True
      then show ?thesis using n that len by (intro exI [of _ n]) (simp add: gs_def)
    next
      case False
      then show ?thesis using n that len by (intro exI [of _ n]) (simp add: gs_def nth_update_any)
    qed
  qed
  have fields: "fr_page_id (gs ! j) = fr_page_id (pg_frames p ! j)" "fr_data (gs ! j) = fr_data (pg_frames p ! j)"
    "fr_pin (gs ! j) = fr_pin (pg_frames p ! j)" "fr_dirty (gs ! j) = fr_dirty (pg_frames p ! j)"
    "fr_tick (gs ! j) = fr_tick (pg_frames p ! j)" "fr_valid (gs ! j) \<longleftrightarrow> fr_valid (pg_frames p ! j) \<and> j \<noteq> i"
    if "j < length (pg_frames p)" for j
    using fr [OF that] by auto
  have V': "valid_frames gs = ?V - {i}" using leng fields by (auto simp: valid_frames_def)
  show holds': "holds p' j q \<longleftrightarrow> holds p j q \<and> j \<noteq> i" for j q
    using fields [of j] leng by (auto simp: p' holds_def)
  have "index_ok gs bs (?V - {i})" using ix' by (rule index_ok_cong) (auto simp: gs_def nth_update_any)
  moreover have "inj_on (\<lambda>j. fr_page_id (gs ! j)) (?V - {i})"
    using c fields by (auto simp: cache_ok_def inj_on_def valid_frames_def)
  ultimately have c': "cache_ok p'" using leng len0 V' by (simp add: cache_ok_def p')
  have fo: "frame_ok p' (pg_frames p' ! j)" if "j < MAX_FRAMES" for j
    using pager_ok_frame [OF ok, of j] fields [of j] that len0 by (simp add: frame_ok_def p')
  show "pager_ok p'" using ok c' fo by (simp add: pager_ok_def p')
  show "same_meta p p'" by (simp add: same_meta_def p')
  show "\<not> fr_valid (pg_frames p' ! i)" using fields(6) [OF i(1)] by (simp add: p')
  have cl: "fr_data (pg_frames p ! i) = raw_read p pid"
    using pager_ok_frame [OF ok i(1)] clean h by (auto simp: frame_ok_def holds_def)
  have *: "view p' q = view p q \<and> pins p' q = pins p q" for q
  proof (cases "q = pid")
    case True
    have "\<not> holds p' j pid" for j using cache_ok_unique [OF c h] holds' by blast
    moreover have "raw_read p' pid = raw_read p pid" by (simp add: p')
    ultimately show ?thesis
      using view_holds [OF c h] pins_holds [OF c h] cl unpinned True by (simp add: view_not_holds pins_not_holds)
  next
    case False
    show ?thesis
    proof (cases "\<exists>j. holds p j q")
      case True
      then obtain j where j: "holds p j q" by blast
      with False h have "j \<noteq> i" by (auto simp: holds_def)
      with j holds' have j': "holds p' j q" by simp
      have "j < length (pg_frames p)" using j by (simp add: holds_def)
      from fields [OF this] show ?thesis
        using view_holds [OF c j] pins_holds [OF c j] view_holds [OF c' j'] pins_holds [OF c' j'] by (simp add: p')
    next
      case False
      then have "\<And>j. \<not> holds p' j q" using holds' by simp
      moreover have "raw_read p' q = raw_read p q" by (simp add: p')
      ultimately show ?thesis using False by (simp add: view_not_holds pins_not_holds)
    qed
  qed
  then show "view p' = view p" "pins p' = pins p" by (simp_all add: fun_eq_iff)
qed

theorem evict_frame_ok:
  assumes ok: "pager_ok p" and ev: "evictable p"
  shows "\<exists>i p'. evict_frame p = Some (int i, p') \<and> i < MAX_FRAMES \<and> pager_ok p' \<and> \<not> fr_valid (pg_frames p' ! i)
    \<and> view p' = view p \<and> pins p' = pins p \<and> same_meta p p' \<and> pg_tick p' = pg_tick p
    \<and> (\<forall>j q. holds p' j q \<longrightarrow> holds p j q)"
proof (cases "first_invalid (pg_frames p) 0")
  case (Some i)
  with first_invalid_spec [of "pg_frames p" 0] have "i < length (pg_frames p)" "\<not> fr_valid (pg_frames p ! i)" by auto
  with Some ok show ?thesis by (auto simp: evict_frame_def pager_ok_def cache_ok_def)
next
  case None
  with first_invalid_spec [of "pg_frames p" 0] have valid: "\<forall>f \<in> set (pg_frames p). fr_valid f" by simp
  let ?ok = "\<lambda>f. fr_pin f = 0" and ?fs = "pg_frames p"
  have tk: "fr_tick f < - 1" if "f \<in> set ?fs" "fr_pin f = 0" for f
  proof -
    from that(1) obtain i where "i < length ?fs" "f = ?fs ! i" by (auto simp: in_set_conv_nth)
    then have "frame_ok p f" "pg_tick p < - 1" using ok pager_ok_frame by (auto simp: pager_ok_def)
    then show ?thesis using valid that by (auto simp: frame_ok_def)
  qed
  define i where "i = nat (lru_victim ?ok ?fs)"
  have nn: "0 \<le> lru_victim ?ok ?fs"
    using lru_victim_least(1) [of ?fs ?ok] tk ev valid by (auto simp: evictable_def not_less [symmetric])
  then have i: "i < length ?fs" "fr_pin (?fs ! i) = 0"
    using lru_victim_least(2) [of ?fs ?ok] tk by (auto simp: i_def)
  define pid where "pid = fr_page_id (?fs ! i)"
  have h: "holds p i pid" using i valid by (auto simp: holds_def pid_def)
  define q where "q = (if fr_dirty (?fs ! i) then count_flush (write_back p i) else p)"
  note W = write_back_ok [OF ok h]
  have Q: "pager_ok q" "view q = view p" "pins q = pins p" "holds q = holds p" "same_meta p q"
    "pg_tick q = pg_tick p" "\<not> fr_dirty (pg_frames q ! i)" "fr_pin (pg_frames q ! i) = 0"
    using W ok i by (simp_all add: q_def count_flush_def same_meta_def)
  have hq: "holds q i pid" using Q(4) h by simp
  have "index_ok (pg_frames q) (pg_buckets q) (valid_frames (pg_frames q))"
    using Q(1) by (simp add: pager_ok_def cache_ok_def)
  moreover have "i \<in> valid_frames (pg_frames q)" using hq unfolding holds_def valid_frames_def by simp
  ultimately obtain fs bs where rem: "frame_index_remove (pg_frames q) (pg_buckets q) i = Some (fs, bs)"
    using index_ok_remove by blast
  define r where "r = q\<lparr>pg_frames := fs[i := (fs ! i)\<lparr>fr_valid := False\<rparr>], pg_buckets := bs\<rparr>"
  note D = drop_frame_ok [OF Q(1) hq Q(7,8) rem r_def]
  have best: "lru_victim ?ok ?fs = int i" using nn by (simp add: i_def)
  have "evict_frame p = Some (int i, r)"
    by (simp only: evict_frame_def None option.case best Let_def nat_int q_def [symmetric] rem
        of_nat_less_0_iff if_False Option.bind.simps prod.case r_def)
  moreover have "pg_tick r = pg_tick p" using Q(6) by (simp add: r_def)
  moreover have "same_meta p r" using Q(5) D(5) same_meta_trans by blast
  moreover have "i < MAX_FRAMES" using i ok by (simp add: pager_ok_def cache_ok_def)
  ultimately show ?thesis using D(1-4,6) Q(2,3,4) by (intro exI [of _ i] exI [of _ r]) simp
qed

theorem evict_frame_all_pinned:
  assumes "pager_ok p" "\<not> evictable p"
  shows "evict_frame p = Some (-1, p)"
proof -
  have v: "\<forall>f \<in> set (pg_frames p). fr_valid f \<and> fr_pin f \<noteq> 0" using assms(2) by (auto simp: evictable_def)
  with first_invalid_spec [of "pg_frames p" 0] have n: "first_invalid (pg_frames p) 0 = None"
    by (auto split: option.splits)
  have "\<not> (\<exists>f\<in>set (pg_frames p). fr_pin f = 0)" using v by auto
  then have "lru_victim (\<lambda>f. fr_pin f = 0) (pg_frames p) < 0"
    by (subst lru_victim_least(1)) (use v in auto)
  with n show ?thesis by (simp add: evict_frame_def Let_def)
qed

text \<open>The victim: unpinned, least recently used, and in the file before its frame is reused.\<close>

theorem evict_frame_victim:
  assumes ok: "pager_ok p" and full: "\<forall>f \<in> set (pg_frames p). fr_valid f"
    and ev: "evict_frame p = Some (int i, p')"
  shows "fr_pin (pg_frames p ! i) = 0"
    and "\<forall>f \<in> set (pg_frames p). fr_pin f = 0 \<longrightarrow> fr_tick (pg_frames p ! i) \<le> fr_tick f"
    and "raw_read p' (fr_page_id (pg_frames p ! i)) = fr_data (pg_frames p ! i)"
proof -
  let ?fs = "pg_frames p" and ?ok = "\<lambda>f. fr_pin f = 0"
  have none: "first_invalid ?fs 0 = None" using first_invalid_spec [of ?fs 0] full by (auto split: option.splits)
  have tk: "fr_tick f < - 1" if "f \<in> set ?fs" "fr_pin f = 0" for f
  proof -
    from that(1) obtain j where "j < length ?fs" "f = ?fs ! j" by (auto simp: in_set_conv_nth)
    then have "frame_ok p f" "pg_tick p < - 1" using ok pager_ok_frame by (auto simp: pager_ok_def)
    then show ?thesis using full that by (auto simp: frame_ok_def)
  qed
  define q where "q = (if fr_dirty (?fs ! i) then count_flush (write_back p i) else p)"
  have nn: "0 \<le> lru_victim ?ok ?fs" using ev none by (auto simp: evict_frame_def Let_def split: if_splits)
  then have i: "lru_victim ?ok ?fs = int i" using ev none
    by (auto simp: evict_frame_def Let_def bind_eq_Some_conv split: if_splits)
  from lru_victim_least(2) [of ?fs ?ok] tk i
  have v: "i < length ?fs" "fr_pin (?fs ! i) = 0" "\<forall>f \<in> set ?fs. fr_pin f = 0 \<longrightarrow> fr_tick (?fs ! i) \<le> fr_tick f" by auto
  then show "fr_pin (?fs ! i) = 0" "\<forall>f \<in> set ?fs. fr_pin f = 0 \<longrightarrow> fr_tick (?fs ! i) \<le> fr_tick f" by blast+
  have h: "holds p i (fr_page_id (?fs ! i))" using v full by (simp add: holds_def)
  have "pg_disk p' = pg_disk q" "pg_page_size p' = pg_page_size q"
    using ev none i by (auto simp: evict_frame_def Let_def q_def bind_eq_Some_conv)
  then have "raw_read p' pid = raw_read q pid" for pid by (rule raw_read_cong)
  moreover have "raw_read q (fr_page_id (?fs ! i)) = fr_data (?fs ! i)"
    using raw_read_write_back [OF ok h] pager_ok_frame [OF ok v(1)] v(1) full
    by (auto simp: q_def count_flush_def frame_ok_def)
  ultimately show "raw_read p' (fr_page_id (?fs ! i)) = fr_data (?fs ! i)" by simp
qed

section \<open>Loading\<close>

lemma load_frame_ok:
  assumes ok: "pager_ok p" and free: "\<not> fr_valid (pg_frames p ! i)" and i: "i < MAX_FRAMES"
    and pid: "pid \<noteq> 0" and new: "\<And>j. \<not> holds p j pid"
    and f: "f = (pg_frames p ! i)\<lparr>fr_page_id := pid, fr_valid := True, fr_dirty := False, fr_pin := 1,
      fr_tick := pg_tick p, fr_data := raw_read p pid\<rparr>"
    and ins: "frame_index_insert ((pg_frames p)[i := f]) (pg_buckets p) i = (fs, bs)"
    and p': "p' = p\<lparr>pg_frames := fs, pg_buckets := bs\<rparr>"
  shows "pager_ok p'" and "view p' = view p" and "pins p' = (pins p)(pid := 1)" and "holds p' i pid"
    and "same_meta p p'" and "pg_tick p' = pg_tick p"
proof -
  let ?V = "valid_frames (pg_frames p)"
  have c: "cache_ok p" using ok by (simp add: pager_ok_def)
  then have ix: "index_ok (pg_frames p) (pg_buckets p) ?V" and len0: "length (pg_frames p) = MAX_FRAMES"
    by (simp_all add: cache_ok_def)
  have nV: "i \<notin> ?V" using free by (simp add: valid_frames_def)
  have "index_ok ((pg_frames p)[i := f]) (pg_buckets p) ?V"
    using ix nV by (rule_tac index_ok_cong) (auto simp: nth_update_any)
  from index_ok_insert [OF this _ nV ins] i len0 have ix': "index_ok fs bs (insert i ?V)" by simp
  obtain n where fs: "fs = (pg_frames p)[i := f\<lparr>fr_next := n\<rparr>]"
    using ins i len0 by (auto simp: frame_index_insert_def Let_def)
  have V': "valid_frames fs = insert i ?V"
    using i len0 by (auto simp: fs f valid_frames_def nth_update_any)
  have hold: "holds p' j q \<longleftrightarrow> (if j = i then q = pid else holds p j q)" for j q
    using i len0 by (auto simp: p' fs f holds_def nth_update_any)
  then show "holds p' i pid" by simp
  have "inj_on (\<lambda>j. fr_page_id (fs ! j)) (insert i ?V)"
  proof (rule inj_onI)
    fix j k assume jk: "j \<in> insert i ?V" "k \<in> insert i ?V" "fr_page_id (fs ! j) = fr_page_id (fs ! k)"
    have "holds p' j (fr_page_id (fs ! j))" "holds p' k (fr_page_id (fs ! k))"
      using jk(1,2) unfolding V' [symmetric] by (auto simp: p' valid_frames_def holds_def)
    with jk(3) hold new cache_ok_unique [OF c] show "j = k" by metis
  qed
  with ix' V' len0 have c': "cache_ok p'" by (simp add: cache_ok_def p' fs)
  have "frame_ok p' (pg_frames p' ! j)" if "j < MAX_FRAMES" for j
    using pager_ok_frame [OF ok, of j] that len0 pid
    by (cases "j = i") (auto simp: frame_ok_def p' fs f nth_update_any)
  with ok c' show "pager_ok p'" by (simp add: pager_ok_def p')
  show "same_meta p p'" "pg_tick p' = pg_tick p" by (simp_all add: same_meta_def p')
  have fr: "pg_frames p' ! j = pg_frames p ! j" if "j \<noteq> i" for j
    using that by (simp add: p' fs)
  have fi: "pg_frames p' ! i = f\<lparr>fr_next := n\<rparr>" using i len0 by (simp add: p' fs)
  have *: "view p' q = view p q \<and> pins p' q = ((pins p)(pid := 1)) q" for q
  proof (cases "q = pid")
    case True
    have "holds p' i pid" using hold by simp
    from view_holds [OF c' this] pins_holds [OF c' this] True new show ?thesis
      by (simp add: fi f view_not_holds)
  next
    case False
    have ni: "\<not> holds p i q" using free by (simp add: holds_def)
    show ?thesis
    proof (cases "\<exists>j. holds p j q")
      case True
      then obtain j where j: "holds p j q" by blast
      with ni have ji: "j \<noteq> i" by blast
      with j hold have j': "holds p' j q" by simp
      show ?thesis
        using view_holds [OF c j] pins_holds [OF c j] view_holds [OF c' j'] pins_holds [OF c' j'] fr [OF ji] False
        by simp
    next
      case none: False
      then have "\<And>j. \<not> holds p' j q" using hold False by simp
      moreover have "raw_read p' q = raw_read p q" by (simp add: p')
      ultimately show ?thesis using none False by (simp add: view_not_holds pins_not_holds)
    qed
  qed
  then show "view p' = view p" "pins p' = (pins p)(pid := 1)" by (simp_all add: fun_eq_iff)
qed

section \<open>pager_get_page\<close>

definition cached :: "pager \<Rightarrow> page_id \<Rightarrow> bool" where
  "cached p pid \<longleftrightarrow> (\<exists>i. holds p i pid)"

text \<open>Room for one more access: the tick counter does not reach its last value.\<close>

definition tick_room :: "pager \<Rightarrow> nat \<Rightarrow> bool" where
  "tick_room p n \<longleftrightarrow> unat (pg_tick p) + n < 2 ^ 64 - 1"

lemma tick_step:
  assumes "tick_room p (Suc n)"
  shows "pg_tick p \<le> pg_tick p + 1" "pg_tick p + 1 < - 1" "unat (pg_tick p + 1) = Suc (unat (pg_tick p))"
proof -
  show u: "unat (pg_tick p + 1) = Suc (unat (pg_tick p))"
    using assms by (intro unat_Suc_small) (simp add: tick_room_def)
  have "unat (- 1 :: u64) = 2 ^ 64 - 1" by (simp add: unsigned_minus_1_eq_mask mask_eq_exp_minus_1)
  with u assms show "pg_tick p \<le> pg_tick p + 1" "pg_tick p + 1 < - 1"
    by (simp_all add: word_le_nat_alt word_less_nat_alt tick_room_def)
qed

text \<open>
  A page that is cached, or for which some frame can be given up, is returned with the contents
  it had, one pin more, and the other pages as they were.
\<close>

theorem pager_get_page_ok:
  assumes ok: "pager_ok p" and pid: "pid \<noteq> 0" and av: "cached p pid \<or> evictable p"
    and tr: "tick_room p (Suc n)" and pn: "pins p pid < 2 ^ 32 - 1"
  shows "\<exists>i p'. pager_get_page p pid = Some (int i, p') \<and> pager_ok p' \<and> holds p' i pid
    \<and> fr_data (pg_frames p' ! i) = view p pid \<and> view p' = view p
    \<and> pins p' = (pins p)(pid := pins p pid + 1) \<and> same_meta p p' \<and> tick_room p' n"
proof (cases "cached p pid")
  case True
  then obtain i where h: "holds p i pid" by (auto simp: cached_def)
  have c: "cache_ok p" using ok by (simp add: pager_ok_def)
  define q where "q = p\<lparr>pg_stats := (pg_stats p)\<lparr>qs_page_loads := qs_page_loads (pg_stats p) + 1,
    qs_cache_hits := qs_cache_hits (pg_stats p) + 1\<rparr>, pg_tick := pg_tick p + 1\<rparr>"
  have q: "pager_ok q" "view q = view p" "pins q = pins p" "holds q = holds p" "pg_frames q = pg_frames p"
    "pg_tick q = pg_tick p + 1" "same_meta p q"
    using tick_step [OF tr] ok by (simp_all add: q_def tick_congs same_meta_def)
  let ?f = "(pg_frames p ! i)\<lparr>fr_pin := fr_pin (pg_frames p ! i) + 1, fr_tick := pg_tick q\<rparr>"
  have pl: "keeps_place (pg_frames q ! i) ?f" using q by (simp add: keeps_place_def)
  have i: "i < length (pg_frames p)" using h by (simp add: holds_def)
  have "frame_ok q ?f"
    using pager_ok_frame [OF q(1), of i] i by (simp add: frame_ok_def q(5))
  from pager_ok_set_frame [OF q(1) pl this] have ok': "pager_ok (set_frame q i ?f)" .
  have hq: "holds q i pid" using h q(4) by simp
  have cq: "cache_ok q" using q(1) by (simp add: pager_ok_def)
  note V = view_set_frame [OF cq pl hq]
  have "view (set_frame q i ?f) = view p"
    using V(1) view_holds [OF c h] q(2) by (simp add: fun_eq_iff)
  moreover have "pins (set_frame q i ?f) = (pins p)(pid := pins p pid + 1)"
    using V(2) pn pins_holds [OF c h] q(3) by (simp add: unat_Suc_small)
  moreover have "holds (set_frame q i ?f) i pid" using holds_set_frame [OF pl] hq by simp
  moreover have "same_meta p (set_frame q i ?f)" using q(7) by (simp add: same_meta_def)
  moreover have "pager_get_page p pid = Some (int i, set_frame q i ?f)"
    using find_frame_ok(1) [OF c h] by (simp add: pager_get_page_def Let_def q_def)
  moreover have "tick_room (set_frame q i ?f) n"
    using tr tick_step(3) [OF tr] q(6) by (simp add: tick_room_def)
  ultimately show ?thesis using ok' view_holds [OF c h] i
    by (intro exI [of _ i] exI [of _ "set_frame q i ?f"]) (simp add: q(5))
next
  case False
  then have nh: "\<And>i. \<not> holds p i pid" and ev: "evictable p" using av by (auto simp: cached_def)
  have c: "cache_ok p" using ok by (simp add: pager_ok_def)
  define q where "q = p\<lparr>pg_stats := (pg_stats p)\<lparr>qs_page_loads := qs_page_loads (pg_stats p) + 1,
    qs_cache_misses := qs_cache_misses (pg_stats p) + 1\<rparr>\<rparr>"
  have q: "pager_ok q" "view q = view p" "pins q = pins p" "holds q = holds p" "evictable q" "same_meta p q"
    "pg_tick q = pg_tick p"
    using ok ev by (simp_all add: q_def evictable_def same_meta_def)
  from evict_frame_ok [OF q(1,5)] obtain i r where r: "evict_frame q = Some (int i, r)" "i < MAX_FRAMES"
    "pager_ok r" "\<not> fr_valid (pg_frames r ! i)" "view r = view p" "pins r = pins p" "same_meta q r"
    "pg_tick r = pg_tick p" "\<forall>j q. holds r j q \<longrightarrow> holds p j q" using q by auto
  define s where "s = r\<lparr>pg_tick := pg_tick r + 1\<rparr>"
  have s: "pager_ok s" "view s = view p" "pins s = pins p" "holds s = holds r" "pg_frames s = pg_frames r"
    using r tick_step [OF tr] by (simp_all add: s_def tick_congs)
  let ?f = "(pg_frames s ! i)\<lparr>fr_page_id := pid, fr_valid := True, fr_dirty := False, fr_pin := 1,
    fr_tick := pg_tick s, fr_data := raw_read s pid\<rparr>"
  obtain fs bs where ins: "frame_index_insert ((pg_frames s)[i := ?f]) (pg_buckets s) i = (fs, bs)" by fastforce
  define t where "t = s\<lparr>pg_frames := fs, pg_buckets := bs\<rparr>"
  have "\<not> holds s j pid" for j using nh r(9) s(4) by auto
  note L = load_frame_ok [OF s(1) _ r(2) pid this refl ins t_def, unfolded s(5), OF r(4)]
  have g: "pager_get_page p pid = Some (int i, t)"
    using find_frame_ok(2) [OF c nh] r(1) ins
    by (simp add: pager_get_page_def Let_def t_def s_def q_def)
  have "same_meta p t" using q(6) r(7) L(5) by (simp add: same_meta_def s_def)
  moreover have "pins p pid = 0" using nh by (simp add: pins_not_holds)
  moreover have "fr_data (pg_frames t ! i) = view p pid"
    using view_holds [OF _ L(4)] L(1,2) s(2) by (simp add: pager_ok_def)
  moreover have "tick_room t n" using tr tick_step(3) [OF tr] L(6) r(8) by (simp add: tick_room_def s_def)
  ultimately show ?thesis using g L(1-4) s by (intro exI [of _ i] exI [of _ t]) simp
qed

theorem pager_get_page_full:
  assumes ok: "pager_ok p" and full: "\<not> cached p pid" "\<not> evictable p"
  shows "\<exists>p'. pager_get_page p pid = Some (-1, p') \<and> view p' = view p \<and> pins p' = pins p"
proof -
  define q where "q = p\<lparr>pg_stats := (pg_stats p)\<lparr>qs_page_loads := qs_page_loads (pg_stats p) + 1,
    qs_cache_misses := qs_cache_misses (pg_stats p) + 1\<rparr>\<rparr>"
  have q: "pager_ok q" "\<not> evictable q" "view q = view p" "pins q = pins p"
    using ok full(2) by (simp_all add: q_def evictable_def)
  have "\<And>i. \<not> holds p i pid" using full(1) by (simp add: cached_def)
  from find_frame_ok(2) [OF _ this] ok evict_frame_all_pinned [OF q(1,2)] q(3,4) show ?thesis
    by (simp add: pager_get_page_def Let_def q_def pager_ok_def)
qed

end
