(* ===== verification/Pager_Refine.thy ===== *)
theory Pager_Refine
  imports Pager_Access Heap_Table
begin

text \<open>
  The cache implements the abstract store of theory \<open>Page_Store\<close>: a client's update, an
  allocation and a release through frames, evictions and watermark flushes are the store's, and
  flushing and reopening the file gives the same store back.
\<close>

section \<open>Flushing\<close>

lemma write_back_dirty:
  assumes "holds p i pid" "fr_dirty (pg_frames p ! i)"
  shows "Suc (count_dirty (write_back p i)) = count_dirty p"
proof -
  let ?P = "\<lambda>f. fr_valid f \<and> fr_dirty f" and ?fs = "pg_frames p"
  have i: "i < length ?fs" "?P (?fs ! i)" using assms by (auto simp: holds_def)
  have fs: "?fs = take i ?fs @ ?fs ! i # drop (Suc i) ?fs" using i by (simp add: id_take_nth_drop)
  have upd: "?fs[i := f] = take i ?fs @ f # drop (Suc i) ?fs" for f using i by (simp add: upd_conv_take_nth_drop)
  show ?thesis
    unfolding count_dirty_def write_back_simps upd using i(2) by (subst fs) simp
qed

lemma flush_victim:
  assumes ok: "pager_ok p" and v: "lru_victim flushable (pg_frames p) = int i"
  shows "holds p i (fr_page_id (pg_frames p ! i))" "flushable (pg_frames p ! i)"
    "\<forall>f \<in> set (pg_frames p). flushable f \<longrightarrow> fr_tick (pg_frames p ! i) \<le> fr_tick f"
proof -
  have "fr_tick f < - 1" if "f \<in> set (pg_frames p)" "flushable f" for f
  proof -
    from that(1) obtain j where "j < length (pg_frames p)" "f = pg_frames p ! j" by (auto simp: in_set_conv_nth)
    then have "frame_ok p f" "pg_tick p < - 1" using ok pager_ok_frame by (auto simp: pager_ok_def)
    then show ?thesis using that(2) by (auto simp: frame_ok_def flushable_def)
  qed
  from lru_victim_least(2) [of "pg_frames p" flushable] this v
  have *: "i < length (pg_frames p) \<and> flushable (pg_frames p ! i)
    \<and> (\<forall>f \<in> set (pg_frames p). flushable f \<longrightarrow> fr_tick (pg_frames p ! i) \<le> fr_tick f)" by simp
  then show "holds p i (fr_page_id (pg_frames p ! i))" "flushable (pg_frames p ! i)"
    "\<forall>f \<in> set (pg_frames p). flushable f \<longrightarrow> fr_tick (pg_frames p ! i) \<le> fr_tick f"
    by (auto simp: holds_def flushable_def)
qed

lemma flush_loop_ok:
  assumes "pager_ok p"
  shows "pager_ok (flush_loop d t p) \<and> view (flush_loop d t p) = view p \<and> pins (flush_loop d t p) = pins p
    \<and> holds (flush_loop d t p) = holds p \<and> same_meta p (flush_loop d t p)
    \<and> pg_tick (flush_loop d t p) = pg_tick p"
  using assms
proof (induction d t p rule: flush_loop.induct)
  case (1 d t p)
  let ?best = "lru_victim flushable (pg_frames p)"
  show ?case
  proof (cases "d \<le> t \<or> ?best < 0")
    case True
    then show ?thesis using 1 by (subst (1 2 3 4 5 6) flush_loop.simps) auto
  next
    case False
    then have v: "?best = int (nat ?best)" by simp
    let ?q = "count_flush (write_back p (nat ?best))"
    note W = write_back_ok [OF 1(2) flush_victim(1) [OF 1(2) v]]
    have Q: "pager_ok ?q" "view ?q = view p" "pins ?q = pins p" "holds ?q = holds p" "same_meta p ?q"
      "pg_tick ?q = pg_tick p"
      using W by (simp_all add: count_flush_def same_meta_def)
    have "flush_loop d t p = flush_loop (d - 1) t ?q"
      using False by (subst flush_loop.simps) (simp add: Let_def)
    with 1(1) [OF _ refl _ Q(1)] False Q show ?thesis using same_meta_trans [OF Q(5)] by simp
  qed
qed

theorem pager_flush_dirty_target:
  assumes "pager_ok p"
  shows "count_dirty (pager_flush_dirty p t) \<le> unat t
    \<or> (\<forall>f \<in> set (pg_frames (pager_flush_dirty p t)). \<not> flushable f)"
proof -
  have "count_dirty (flush_loop d k p) \<le> k \<or> (\<forall>f \<in> set (pg_frames (flush_loop d k p)). \<not> flushable f)"
    if "pager_ok p" "d = count_dirty p" for d k p
    using that
  proof (induction d k p rule: flush_loop.induct)
    case (1 d k p)
    let ?best = "lru_victim flushable (pg_frames p)"
    have tk: "fr_tick f < - 1" if "f \<in> set (pg_frames p)" "flushable f" for f
    proof -
      from that(1) obtain j where "j < length (pg_frames p)" "f = pg_frames p ! j" by (auto simp: in_set_conv_nth)
      then have "frame_ok p f" "pg_tick p < - 1" using 1(2) pager_ok_frame by (auto simp: pager_ok_def)
      then show ?thesis using that(2) by (auto simp: frame_ok_def flushable_def)
    qed
    consider "d \<le> k" | "k < d" "?best < 0" | "k < d" "0 \<le> ?best" by linarith
    then show ?case
    proof cases
      case 1
      then show ?thesis using \<open>d = count_dirty p\<close> by (simp add: flush_loop.simps [of "count_dirty p" k p])
    next
      case 2
      then have "flush_loop d k p = p" by (simp add: flush_loop.simps [of d k p] Let_def)
      with lru_victim_least(1) [of "pg_frames p" flushable] tk 2(2) show ?thesis by simp
    next
      case 3
      then have v: "?best = int (nat ?best)" by simp
      let ?q = "count_flush (write_back p (nat ?best))"
      note F = flush_victim [OF 1(2) v]
      have "pager_ok ?q" using write_back_ok(1) [OF 1(2) F(1)] by (simp add: count_flush_def)
      moreover have "d - 1 = count_dirty ?q"
        using write_back_dirty [OF F(1)] F(2) 1(3) by (simp add: count_flush_def count_dirty_def flushable_def)
      moreover have "flush_loop d k p = flush_loop (d - 1) k ?q"
        using 3 by (subst flush_loop.simps) (simp add: Let_def)
      ultimately show ?thesis using 1(1) 3 by simp
    qed
  qed
  from this [OF assms refl] show ?thesis by (simp add: pager_flush_dirty_def)
qed

section \<open>Writing a page\<close>

lemma frame_store_mark_dirty:
  assumes ok: "pager_ok p" and h: "holds p i pid" and b: "length b = unat (pg_page_size p)"
  shows "\<exists>p'. pager_mark_dirty (frame_store p i b) pid = Some p' \<and> pager_ok p' \<and> view p' = (view p)(pid := b)
    \<and> pins p' = pins p \<and> holds p' = holds p \<and> same_meta p p' \<and> pg_tick p' = pg_tick p"
proof -
  have c: "cache_ok p" using ok by (simp add: pager_ok_def)
  have i: "i < length (pg_frames p)" using h by (simp add: holds_def)
  let ?f = "(pg_frames p ! i)\<lparr>fr_data := b\<rparr>"
  define q where "q = frame_store p i b"
  have pl: "keeps_place (pg_frames p ! i) ?f" by (simp add: keeps_place_def)
  have q: "cache_ok q" "holds q i pid" "pg_frames q ! i = ?f"
    using cache_ok_set_frame [OF c pl] holds_set_frame [OF pl] h i by (simp_all add: q_def frame_store_def)
  let ?g = "(pg_frames p ! i)\<lparr>fr_data := b, fr_dirty := True\<rparr>"
  define r where "r = set_frame p i ?g"
  have pg: "keeps_place (pg_frames p ! i) ?g" by (simp add: keeps_place_def)
  have "frame_ok p ?g" using pager_ok_frame [OF ok i] b by (simp add: frame_ok_def)
  from pager_ok_set_frame [OF ok pg this] have r: "pager_ok r" by (simp add: r_def)
  note V = view_set_frame [OF c pg h]
  have rv: "view r = (view p)(pid := b)" "pins r = pins p" "holds r = holds p"
    using V pins_holds [OF c h] holds_set_frame [OF pg] by (simp_all add: r_def fun_eq_iff)
  have qr: "set_frame q i (?f\<lparr>fr_dirty := True\<rparr>) = r"
    by (simp add: q_def r_def frame_store_def set_frame_def)
  define t where "t = r\<lparr>pg_header_dirty := True\<rparr>"
  have t: "pager_ok t" "view t = (view p)(pid := b)" "pins t = pins p" "holds t = holds p" "same_meta p t"
    "pg_tick t = pg_tick p"
    using r rv by (simp_all add: t_def same_meta_def r_def)
  note F = flush_loop_ok [OF t(1), of "count_dirty t" "unat (pg_low t)"]
  have "pager_mark_dirty q pid = Some (if 0 < pg_high t \<and> unat (pg_high t) \<le> count_dirty t
      then pager_flush_dirty t (pg_low t) else t)"
    using find_frame_ok(1) [OF q(1,2)] q(3) qr by (simp add: pager_mark_dirty_def t_def Let_def)
  with F t show ?thesis
    using same_meta_trans [OF t(5)] by (auto simp: q_def [symmetric] pager_flush_dirty_def)
qed

theorem pager_unpin_ok:
  assumes ok: "pager_ok p" and pin: "0 < pins p pid"
  shows "\<exists>p'. pager_unpin p pid = Some p' \<and> pager_ok p' \<and> view p' = view p
    \<and> pins p' = (pins p)(pid := pins p pid - 1) \<and> same_meta p p' \<and> pg_tick p' = pg_tick p"
proof -
  have c: "cache_ok p" using ok by (simp add: pager_ok_def)
  obtain i where h: "holds p i pid" using pin pins_not_holds [of p pid] by (metis less_irrefl)
  have i: "i < length (pg_frames p)" using h by (simp add: holds_def)
  let ?f = "(pg_frames p ! i)\<lparr>fr_pin := fr_pin (pg_frames p ! i) - 1\<rparr>"
  have pl: "keeps_place (pg_frames p ! i) ?f" by (simp add: keeps_place_def)
  have "frame_ok p ?f" using pager_ok_frame [OF ok i] by (simp add: frame_ok_def)
  note S = pager_ok_set_frame [OF ok pl this] view_set_frame [OF c pl h]
  have p: "0 < fr_pin (pg_frames p ! i)" "unat (fr_pin (pg_frames p ! i)) = pins p pid"
    using pin pins_holds [OF c h] by (simp_all add: word_less_nat_alt)
  then have "unat (fr_pin (pg_frames p ! i) - 1) = pins p pid - 1"
    using pin by (subst unat_sub) (simp_all add: word_le_nat_alt)
  with S view_holds [OF c h] p find_frame_ok(1) [OF c h] show ?thesis
    by (simp add: pager_unpin_def same_meta_def fun_eq_iff)
qed

section \<open>Refinement\<close>

definition abs_store :: "pager \<Rightarrow> store" where
  "abs_store p = \<lparr>st_page_size = pg_page_size p, st_hdr = pg_header p, st_pages = view p,
     st_last_heap = pg_last_heap p, st_free_hint = pg_free_hint p\<rparr>"

text \<open>When a page can be brought in: its pins are not exhausted and it is cached or a frame is free.\<close>

definition ready :: "pager \<Rightarrow> page_id \<Rightarrow> bool" where
  "ready p pid \<longleftrightarrow> pid \<noteq> 0 \<and> (cached p pid \<or> evictable p) \<and> pins p pid < 2 ^ 32 - 1"

lemma ready_quiescent:
  assumes "pager_ok p" "\<And>q. pins p q = 0" "pid \<noteq> 0"
  shows "ready p pid"
proof -
  have c: "cache_ok p" using assms(1) by (simp add: pager_ok_def)
  then have "0 < length (pg_frames p)" by (simp add: cache_ok_def MAX_FRAMES_def)
  then have f: "pg_frames p ! 0 \<in> set (pg_frames p)" by simp
  have "fr_pin (pg_frames p ! 0) = 0" if "fr_valid (pg_frames p ! 0)"
  proof -
    have "holds p 0 (fr_page_id (pg_frames p ! 0))" using that \<open>0 < length (pg_frames p)\<close> by (simp add: holds_def)
    from pins_holds [OF c this] assms(2) show ?thesis by (simp add: unat_eq_0)
  qed
  with f assms show ?thesis by (auto simp: ready_def evictable_def)
qed

lemma pins_restore: "((m :: page_id \<Rightarrow> nat)(pid := m pid + 1))(pid := m pid + 1 - 1) = m"
  by (simp add: fun_eq_iff)

lemma view_length: 
  assumes "pager_ok p"
  shows "length (view p pid) = unat (pg_page_size p)"
proof (cases "\<exists>i. holds p i pid")
  case True
  then obtain i where h: "holds p i pid" by blast
  then have "i < length (pg_frames p)" by (simp add: holds_def)
  from pager_ok_frame [OF assms this] view_holds [OF _ h] assms show ?thesis
    by (simp add: frame_ok_def pager_ok_def)
qed (simp add: view_not_holds)

text \<open>The tail every page-changing operation shares: store, mark dirty, unpin.\<close>

lemma store_dirty_unpin:
  assumes ok: "pager_ok p" and h: "holds p i pid" and b: "length b = unat (pg_page_size p)" and pin: "0 < pins p pid"
  shows "\<exists>q r. pager_mark_dirty (frame_store p i b) pid = Some q \<and> pager_unpin q pid = Some r
    \<and> pager_ok r \<and> view r = (view p)(pid := b) \<and> pins r = (pins p)(pid := pins p pid - 1)
    \<and> same_meta p r \<and> pg_tick r = pg_tick p"
proof -
  from frame_store_mark_dirty [OF ok h b] obtain q where q: "pager_mark_dirty (frame_store p i b) pid = Some q"
    "pager_ok q" "view q = (view p)(pid := b)" "pins q = pins p" "same_meta p q" "pg_tick q = pg_tick p" by blast
  from pager_unpin_ok [OF q(2), of pid] pin q(4) obtain r where "pager_unpin q pid = Some r" "pager_ok r"
    "view r = view q" "pins r = (pins q)(pid := pins q pid - 1)" "same_meta q r" "pg_tick r = pg_tick q" by auto
  with q show ?thesis using same_meta_trans [OF q(5)] by auto
qed

theorem pager_update_refines:
  assumes ok: "pager_ok p" and rd: "ready p pid" and tr: "tick_room p (Suc n)"
    and g: "length (g (view p pid)) = unat (pg_page_size p)"
  shows "\<exists>p'. pager_update p pid g = Some p' \<and> pager_ok p'
    \<and> abs_store p' = st_put (abs_store p) pid (g (st_pages (abs_store p) pid))
    \<and> pins p' = pins p \<and> tick_room p' n"
proof -
  from rd have R: "pid \<noteq> 0" "cached p pid \<or> evictable p" "pins p pid < 2 ^ 32 - 1" by (auto simp: ready_def)
  from pager_get_page_ok [OF ok R(1,2) tr R(3)] obtain i q where q: "pager_get_page p pid = Some (int i, q)"
    "pager_ok q" "holds q i pid" "fr_data (pg_frames q ! i) = view p pid" "view q = view p"
    "pins q = (pins p)(pid := pins p pid + 1)" "same_meta p q" "tick_room q n" by blast
  have "length (g (view p pid)) = unat (pg_page_size q)" using g q(7) by (simp add: same_meta_def)
  from store_dirty_unpin [OF q(2,3) this] q(6) obtain r t where
    t: "pager_mark_dirty (frame_store q i (g (view p pid))) pid = Some r" "pager_unpin r pid = Some t"
    "pager_ok t" "view t = (view q)(pid := g (view p pid))" "pins t = (pins q)(pid := pins q pid - 1)"
    "same_meta q t" "pg_tick t = pg_tick q" by auto
  have "pager_update p pid g = Some t"
    using q(1,4) t(1,2) by (simp add: pager_update_def Let_def)
  moreover have "pins t = pins p" using t(5) q(6) by (simp add: fun_eq_iff)
  moreover have "abs_store t = st_put (abs_store p) pid (g (st_pages (abs_store p) pid))"
    using same_meta_trans [OF q(7) t(6)] t(4) q(5) by (simp add: abs_store_def st_put_def same_meta_def)
  ultimately show ?thesis using t(3,7) q(8) by (simp add: tick_room_def)
qed

theorem pager_alloc_refines:
  assumes ok: "pager_ok p" and a: "st_alloc (abs_store p) = (pid, s')" and rd: "ready p pid"
    and tr: "tick_room p (Suc n)"
  shows "\<exists>p'. pager_alloc_page p = Some (pid, p') \<and> pager_ok p' \<and> abs_store p' = s'
    \<and> pins p' = pins p \<and> tick_room p' n"
proof -
  let ?h = "pg_header p" and ?z = "replicate (unat (pg_page_size p)) 0"
  define q where "q = (if hd_free_page_head ?h \<noteq> 0 then p else p\<lparr>pg_header := ?h\<lparr>hd_next_page_id := pid + 1\<rparr>\<rparr>)"
  define hd where "hd = (if hd_free_page_head ?h \<noteq> 0
    then ?h\<lparr>hd_free_page_head := fph_next_free_page (get_free_hdr (view p pid))\<rparr>
    else ?h\<lparr>hd_next_page_id := pid + 1\<rparr>)"
  have pid: "pid = (if hd_free_page_head ?h \<noteq> 0 then hd_free_page_head ?h else hd_next_page_id ?h)"
    and s': "s' = \<lparr>st_page_size = pg_page_size p, st_hdr = hd, st_pages = (view p)(pid := ?z),
      st_last_heap = pg_last_heap p, st_free_hint = pg_free_hint p\<rparr>"
    using a by (auto simp: st_alloc_def abs_store_def Let_def st_put_def page_zero_def hd_def split: if_splits)
  have q: "pager_ok q" "view q = view p" "pins q = pins p" "tick_room q (Suc n)" "pg_page_size q = pg_page_size p"
    "pg_last_heap q = pg_last_heap p" "pg_free_hint q = pg_free_hint p"
    "cached q pid \<or> evictable q"
    using ok tr rd by (auto simp: q_def tick_room_def cached_def evictable_def ready_def)
  have pz: "pid \<noteq> 0" "pins q pid < 2 ^ 32 - 1" using rd q(3) by (auto simp: ready_def)
  from pager_get_page_ok [OF q(1) pz(1) q(8,4) pz(2)] obtain i r where r: "pager_get_page q pid = Some (int i, r)"
    "pager_ok r" "holds r i pid" "fr_data (pg_frames r ! i) = view q pid" "view r = view q"
    "pins r = (pins q)(pid := pins q pid + 1)" "same_meta q r" "tick_room r n" by blast
  define t where "t = (if hd_free_page_head ?h \<noteq> 0 then r\<lparr>pg_header := hd\<rparr> else r)"
  have t: "pager_ok t" "holds t i pid" "view t = view p" "pins t = (pins p)(pid := pins p pid + 1)"
    "pg_header t = hd" "tick_room t n" "pg_page_size t = pg_page_size p" "pg_last_heap t = pg_last_heap p"
    "pg_free_hint t = pg_free_hint p"
    using r q by (auto simp: t_def same_meta_def q_def hd_def tick_room_def split: if_splits)
  from store_dirty_unpin [OF t(1,2), of ?z] t(4,7) obtain u v where
    v: "pager_mark_dirty (frame_store t i ?z) pid = Some u" "pager_unpin u pid = Some v"
    "pager_ok v" "view v = (view t)(pid := ?z)" "pins v = (pins t)(pid := pins t pid - 1)"
    "same_meta t v" "pg_tick v = pg_tick t" by auto
  have "pager_alloc_page p = Some (pid, v)"
  proof (cases "hd_free_page_head ?h = 0")
    case True
    then have "pid = hd_next_page_id ?h" "q = p\<lparr>pg_header := ?h\<lparr>hd_next_page_id := pid + 1\<rparr>\<rparr>" "t = r"
      using pid by (simp_all add: q_def t_def)
    with True r(1) v(1,2) t(7) show ?thesis by (simp add: pager_alloc_page_def Let_def zero_page_def)
  next
    case False
    then have "pid = hd_free_page_head ?h" "q = p" "t = r\<lparr>pg_header := hd\<rparr>" using pid by (simp_all add: q_def t_def)
    moreover have "pg_header r = ?h" using r(7) \<open>q = p\<close> by (simp add: same_meta_def)
    ultimately show ?thesis using False r(1,4) v(1,2) t(7) q(2)
      by (simp add: pager_alloc_page_def Let_def zero_page_def hd_def)
  qed
  moreover have "abs_store v = s'" using v(4,6) t by (simp add: abs_store_def s' same_meta_def)
  moreover have "pins v = pins p" using v(5) t(4) by (simp add: fun_eq_iff)
  ultimately show ?thesis using v(3,7) t(6) by (simp add: tick_room_def)
qed

theorem pager_free_refines:
  assumes ok: "pager_ok p" and rd: "ready p pid" and tr: "tick_room p (Suc n)"
  shows "\<exists>p'. pager_free_page p pid = Some p' \<and> pager_ok p' \<and> abs_store p' = st_free (abs_store p) pid
    \<and> pins p' = pins p \<and> tick_room p' n"
proof -
  from rd have R: "pid \<noteq> 0" "cached p pid \<or> evictable p" "pins p pid < 2 ^ 32 - 1" by (auto simp: ready_def)
  from pager_get_page_ok [OF ok R(1,2) tr R(3)] obtain i q where q: "pager_get_page p pid = Some (int i, q)"
    "pager_ok q" "holds q i pid" "view q = view p"
    "pins q = (pins p)(pid := pins p pid + 1)" "same_meta p q" "tick_room q n" by blast
  let ?b = "mwrite (zero_page q) 0 (put_free_hdr
    \<lparr>fph_page_type = PAGE_TYPE_FREE, fph_next_free_page = hd_free_page_head (pg_header p)\<rparr>)"
  have "8 \<le> unat (pg_page_size q)" using q(2) by (simp add: pager_ok_def DB_HEADER_SIZE_value)
  then have len: "length ?b = unat (pg_page_size q)"
    by (simp add: length_mwrite zero_page_def free_hdr.length_enc)
  from store_dirty_unpin [OF q(2,3) len] q(5) obtain r t where
    t: "pager_mark_dirty (frame_store q i ?b) pid = Some r" "pager_unpin r pid = Some t"
    "pager_ok t" "view t = (view q)(pid := ?b)" "pins t = (pins q)(pid := pins q pid - 1)"
    "same_meta q t" "pg_tick t = pg_tick q" by auto
  let ?t = "t\<lparr>pg_header := (pg_header t)\<lparr>hd_free_page_head := pid\<rparr>\<rparr>"
  have m: "pg_header q = pg_header p" "pg_page_size q = pg_page_size p" "pg_header t = pg_header p"
    using q(6) t(6) by (simp_all add: same_meta_def)
  have "pager_free_page p pid = Some ?t"
    using q(1) t(1,2) m(1,3) by (simp add: pager_free_page_def Let_def)
  moreover have "abs_store ?t = st_free (abs_store p) pid"
    using same_meta_trans [OF q(6) t(6)] t(4) q(4) m
    by (simp add: abs_store_def st_free_def Let_def st_put_def same_meta_def page_zero_def zero_page_def)
  moreover have "pins ?t = pins p" using t(5) q(5) by (simp add: fun_eq_iff)
  ultimately show ?thesis using t(3,7) q(7) by (simp add: tick_room_def)
qed

end
