(* ===== verification/Pager_Durable.thy ===== *)
theory Pager_Durable
  imports Pager_Refine
begin

text \<open>
  Durability: \<open>pager_flush_all\<close> puts every page and the header into the file, and opening that
  file again gives the pages, the header, the last heap page and the free-slot hint back.
\<close>

section \<open>Flushing all frames\<close>

lemma flush_frames_ok:
  assumes "pager_ok p" "set is \<subseteq> {..<MAX_FRAMES}"
  shows "pager_ok (flush_frames p is) \<and> view (flush_frames p is) = view p \<and> pins (flush_frames p is) = pins p
    \<and> same_meta p (flush_frames p is) \<and> pg_tick (flush_frames p is) = pg_tick p
    \<and> (\<forall>i < MAX_FRAMES. fr_dirty (pg_frames (flush_frames p is) ! i) \<and> fr_valid (pg_frames (flush_frames p is) ! i)
         \<longrightarrow> fr_dirty (pg_frames p ! i) \<and> fr_valid (pg_frames p ! i) \<and> i \<notin> set is)"
  using assms
proof (induction "is" arbitrary: p)
  case Nil
  then show ?case by simp
next
  case (Cons i "is")
  let ?f = "pg_frames p ! i"
  define q where "q = (if fr_valid ?f \<and> fr_dirty ?f then write_back p i else p)"
  have len: "length (pg_frames p) = MAX_FRAMES" and i: "i < MAX_FRAMES"
    using Cons.prems by (simp_all add: pager_ok_def cache_ok_def)
  have h: "holds p i (fr_page_id ?f)" if "fr_valid ?f" using that len i by (simp add: holds_def)
  have q: "pager_ok q" "view q = view p" "pins q = pins p" "same_meta p q" "pg_tick q = pg_tick p"
    using write_back_ok [OF Cons.prems(1) h] Cons.prems(1) by (auto simp: q_def)
  have d: "fr_dirty (pg_frames q ! j) \<and> fr_valid (pg_frames q ! j)
      \<longrightarrow> fr_dirty (pg_frames p ! j) \<and> fr_valid (pg_frames p ! j) \<and> j \<noteq> i" if "j < MAX_FRAMES" for j
    using that len by (auto simp: q_def nth_update_any)
  have "flush_frames p (i # is) = flush_frames q is" by (simp add: q_def Let_def)
  moreover from Cons.IH [OF q(1)] Cons.prems(2) have "pager_ok (flush_frames q is) \<and> view (flush_frames q is) = view q
    \<and> pins (flush_frames q is) = pins q \<and> same_meta q (flush_frames q is) \<and> pg_tick (flush_frames q is) = pg_tick q
    \<and> (\<forall>j < MAX_FRAMES. fr_dirty (pg_frames (flush_frames q is) ! j) \<and> fr_valid (pg_frames (flush_frames q is) ! j)
         \<longrightarrow> fr_dirty (pg_frames q ! j) \<and> fr_valid (pg_frames q ! j) \<and> j \<notin> set is)" by simp
  ultimately show ?case using q d same_meta_trans [OF q(4)] by auto
qed

text \<open>With no dirty frame left, the file holds what clients see.\<close>

lemma clean_view:
  assumes ok: "pager_ok p" and clean: "\<forall>i < MAX_FRAMES. fr_valid (pg_frames p ! i) \<longrightarrow> \<not> fr_dirty (pg_frames p ! i)"
  shows "raw_read p pid = view p pid"
proof (cases "\<exists>i. holds p i pid")
  case True
  then obtain i where h: "holds p i pid" by blast
  have c: "cache_ok p" using ok by (simp add: pager_ok_def)
  have i: "i < length (pg_frames p)" "i < MAX_FRAMES" using h c by (auto simp: holds_def cache_ok_def)
  from pager_ok_frame [OF ok i(1)] view_holds [OF c h] clean i(2) h show ?thesis
    by (auto simp: frame_ok_def holds_def)
qed (simp add: view_not_holds)

lemma length_header_page:
  assumes "pager_ok p" "header_fits h"
  shows "length (mwrite (zero_page p) 0 (put_db_header h)) = unat (pg_page_size p)"
  using assms by (simp add: length_mwrite zero_page_def db_header.length_enc pager_ok_def)

theorem pager_flush_all_durable:
  assumes ok: "pager_ok p" and hd: "header_fits (pg_header p)"
  shows "pager_ok (pager_flush_all p)"
    and "pid \<noteq> 0 \<Longrightarrow> raw_read (pager_flush_all p) pid = view p pid"
    and "raw_read (pager_flush_all p) 0 = mwrite (zero_page p) 0 (put_db_header (pg_header p))"
    and "pid \<noteq> 0 \<Longrightarrow> view (pager_flush_all p) pid = view p pid"
    and "same_meta p (pager_flush_all p)" and "\<not> pg_header_dirty (pager_flush_all p)"
proof -
  have len: "length (pg_frames p) = MAX_FRAMES" using ok by (simp add: pager_ok_def cache_ok_def)
  define q where "q = flush_frames p [0..<MAX_FRAMES]"
  have F: "pager_ok q" "view q = view p" "same_meta p q"
    and clean: "\<forall>i < MAX_FRAMES. fr_valid (pg_frames q ! i) \<longrightarrow> \<not> fr_dirty (pg_frames q ! i)"
    using flush_frames_ok [OF ok, of "[0..<MAX_FRAMES]"] by (auto simp: q_def atLeast0LessThan)
  have z: "zero_page q = zero_page p" "pg_header q = pg_header p" "pg_page_size q = pg_page_size p"
    using F(3) by (simp_all add: zero_page_def same_meta_def)
  let ?b = "mwrite (zero_page p) 0 (put_db_header (pg_header p))"
  define r where "r = raw_write q 0 ?b"
  have fl: "pager_flush_all p = r\<lparr>pg_header_dirty := False\<rparr>"
    by (simp add: pager_flush_all_def q_def [symmetric] len Let_def z r_def)
  have rr: "raw_read r pid = (if pid = 0 then ?b else view p pid)" for pid
    using raw_read_write [of ?b q 0 pid] length_header_page [OF ok hd] clean_view [OF F(1) clean] F(2) z(3)
    by (simp add: r_def)
  have flr: "raw_read (pager_flush_all p) pid = raw_read r pid" for pid by (simp add: fl raw_read_def)
  show "pid \<noteq> 0 \<Longrightarrow> raw_read (pager_flush_all p) pid = view p pid"
    "raw_read (pager_flush_all p) 0 = ?b" by (simp_all add: flr rr)
  have c: "cache_ok q" using F(1) by (simp add: pager_ok_def)
  have c': "cache_ok r" using c by (simp add: r_def cache_ok_def)
  have "frame_ok r (pg_frames r ! i)" if "i < MAX_FRAMES" for i
  proof -
    have "frame_ok q (pg_frames q ! i)" using F(1) that by (simp add: pager_ok_def)
    then show ?thesis using rr clean_view [OF F(1) clean] F(2) by (auto simp: frame_ok_def r_def)
  qed
  with F(1) c' have okr: "pager_ok r" by (simp add: pager_ok_def r_def)
  then show "pager_ok (pager_flush_all p)" by (simp add: fl)
  show "same_meta p (pager_flush_all p)" "\<not> pg_header_dirty (pager_flush_all p)"
    using F(3) by (simp_all add: fl r_def same_meta_def)
  have "\<forall>i < MAX_FRAMES. fr_valid (pg_frames r ! i) \<longrightarrow> \<not> fr_dirty (pg_frames r ! i)"
    using clean by (simp add: r_def)
  then have "view r pid = raw_read r pid" using clean_view [OF okr] by metis
  then show "pid \<noteq> 0 \<Longrightarrow> view (pager_flush_all p) pid = view p pid"
    using rr [of pid] by (simp add: fl)
qed

section \<open>A fresh cache\<close>

lemma new_pager_ok:
  assumes "DB_HEADER_SIZE \<le> unat ps" "unat ps < 65536"
  shows "pager_ok (new_pager d ps h)" and "view (new_pager d ps h) pid = disk_read d (unat pid * unat ps) (unat ps)"
    and "pins (new_pager d ps h) pid = 0"
proof -
  let ?p = "new_pager d ps h"
  have v: "valid_frames (pg_frames ?p) = {}" by (auto simp: valid_frames_def new_pager_def empty_frame_def)
  have "index_ok (pg_frames ?p) (pg_buckets ?p) {}"
    unfolding index_ok_def
    by (auto simp: new_pager_def in_bucket_def intro!: exI [of _ "[]"])
  with v have "cache_ok ?p" by (simp add: cache_ok_def) (simp add: new_pager_def)
  then show "pager_ok ?p"
    using assms by (auto simp: pager_ok_def frame_ok_def) (simp_all add: new_pager_def empty_frame_def word_less_nat_alt
        unsigned_minus_1_eq_mask mask_eq_exp_minus_1)
  have nh: "\<And>i. \<not> holds ?p i pid" by (auto simp: holds_def new_pager_def empty_frame_def)
  then show "view ?p pid = disk_read d (unat pid * unat ps) (unat ps)"
    by (simp add: view_not_holds raw_read_def) (simp add: new_pager_def)
  show "pins ?p pid = 0" using nh by (simp add: pins_not_holds)
qed

section \<open>Reopening\<close>

lemma restore_heap_tail_ok:
  assumes "heap_chain (view p) pid chain" "pager_ok p" "pins p = (\<lambda>_. 0)" "tick_room p (length chain)"
  shows "\<exists>p'. restore_heap_tail p pid = Some p' \<and> pager_ok p' \<and> view p' = view p \<and> pins p' = pins p
    \<and> pg_header p' = pg_header p \<and> pg_page_size p' = pg_page_size p
    \<and> pg_last_heap p' = (if chain = [] then pg_last_heap p else last chain)
    \<and> (pg_free_hint p' \<longleftrightarrow> pg_free_hint p
        \<or> (\<exists>q \<in> set chain. hph_free_slot_head (get_heap_hdr (view p q)) \<noteq> SLOT_NONE))"
  using assms
proof (induction chain arbitrary: p pid)
  case Nil
  then show ?case by (simp add: restore_heap_tail.simps [of p 0] fun_eq_iff)
next
  case (Cons c cs)
  then have pid: "pid = c" "c \<noteq> 0" and ch: "heap_chain (view p) (hph_next_heap_page_id (get_heap_hdr (view p c))) cs"
    by auto
  have rd: "ready p c" using Cons.prems pid(2) by (intro ready_quiescent) auto
  have av: "cached p c \<or> evictable p" "pins p c < 2 ^ 32 - 1" using rd by (simp_all add: ready_def)
  have tr: "tick_room p (Suc (length cs))" using Cons.prems(4) by simp
  from pager_get_page_ok [OF Cons.prems(2) pid(2) av(1) tr av(2)] obtain i q where q: "pager_get_page p c = Some (int i, q)"
    "pager_ok q" "fr_data (pg_frames q ! i) = view p c" "view q = view p"
    "pins q = (pins p)(c := pins p c + 1)" "same_meta p q" "tick_room q (length cs)" by blast
  from pager_unpin_ok [OF q(2), of c] q(5) obtain r where r: "pager_unpin q c = Some r" "pager_ok r" "view r = view q"
    "pins r = (pins q)(c := pins q c - 1)" "same_meta q r" "pg_tick r = pg_tick q" by auto
  let ?free = "hph_free_slot_head (get_heap_hdr (view p c)) \<noteq> SLOT_NONE"
  define s where "s = r\<lparr>pg_free_hint := pg_free_hint r \<or> ?free, pg_last_heap := c\<rparr>"
  have s: "pager_ok s" "view s = view p" "pins s = pins p" "tick_room s (length cs)"
    "pg_header s = pg_header p" "pg_page_size s = pg_page_size p" "pg_last_heap s = c"
    "pg_free_hint s \<longleftrightarrow> pg_free_hint p \<or> ?free"
    using r q by (simp_all add: s_def same_meta_def tick_room_def fun_eq_iff)
  have "restore_heap_tail p pid = restore_heap_tail s (hph_next_heap_page_id (get_heap_hdr (view p c)))"
    using q(1,3) r(1) pid by (subst restore_heap_tail.simps) (simp add: s_def Let_def)
  moreover from Cons.IH [of s "hph_next_heap_page_id (get_heap_hdr (view p c))"] s ch Cons.prems(3)
  obtain p' where "restore_heap_tail s (hph_next_heap_page_id (get_heap_hdr (view p c))) = Some p'"
    "pager_ok p'" "view p' = view s" "pins p' = pins s" "pg_header p' = pg_header s" "pg_page_size p' = pg_page_size s"
    "pg_last_heap p' = (if cs = [] then pg_last_heap s else last cs)"
    "pg_free_hint p' \<longleftrightarrow> pg_free_hint s \<or> (\<exists>q \<in> set cs. hph_free_slot_head (get_heap_hdr (view s q)) \<noteq> SLOT_NONE)"
    by auto
  ultimately show ?case using s by auto
qed

theorem pager_reopen_restores:
  assumes ok: "pager_ok p" and hd: "header_fits (pg_header p)" and magic: "hd_magic (pg_header p) = DB_MAGIC"
    and ps: "hd_page_size (pg_header p) = pg_page_size p"
    and chain: "heap_chain (view p) (hd_first_heap_page_id (pg_header p)) chain" "chain \<noteq> []" "length chain < 2 ^ 64 - 1"
  shows "\<exists>p'. pager_reopen (pager_close p) = Some (Some p') \<and> pager_ok p' \<and> pg_header p' = pg_header p
    \<and> pg_page_size p' = pg_page_size p \<and> (\<forall>pid. pid \<noteq> 0 \<longrightarrow> view p' pid = view p pid)
    \<and> (\<forall>pid. pins p' pid = 0) \<and> pg_last_heap p' = last chain
    \<and> (pg_free_hint p' \<longleftrightarrow> (\<exists>q \<in> set chain. hph_free_slot_head (get_heap_hdr (view p q)) \<noteq> SLOT_NONE))"
proof -
  let ?d = "pager_close p" and ?h = "pg_header p" and ?ps = "pg_page_size p"
  note F = pager_flush_all_durable [OF ok hd]
  have size: "DB_HEADER_SIZE \<le> unat ?ps" "unat ?ps < 65536" using ok by (simp_all add: pager_ok_def)
  have meta: "pg_page_size (pager_flush_all p) = ?ps" using F(5) by (simp add: same_meta_def)
  have page: "disk_read ?d (unat pid * unat ?ps) (unat ?ps) = raw_read (pager_flush_all p) pid" for pid
    by (simp add: pager_close_def raw_read_def meta)
  have hdr: "get_db_header (disk_read ?d 0 n) = ?h" if "DB_HEADER_SIZE \<le> n" for n
  proof -
    have t: "take DB_HEADER_SIZE (disk_read ?d 0 m) = disk_read ?d 0 DB_HEADER_SIZE" if "DB_HEADER_SIZE \<le> m" for m
      using that by (simp add: disk_read_def take_map)
    have "disk_read ?d 0 (unat ?ps) = mwrite (zero_page p) 0 (put_db_header ?h)"
      using page [of 0] F(3) by simp
    then have "get_db_header (disk_read ?d 0 (unat ?ps)) = ?h"
      using db_header.load_store [where off = 0 and x = ?h and b = "zero_page p"] hd size
      by (simp add: zero_page_def)
    then have "get_db_header (disk_read ?d 0 DB_HEADER_SIZE) = ?h"
      using db_header.dec_take [of "disk_read ?d 0 (unat ?ps)"] t [OF size(1)] size by simp
    with db_header.dec_take [of "disk_read ?d 0 n"] t [OF that] that show ?thesis by simp
  qed
  have h1: "get_db_header (disk_read ?d 0 4096) = ?h" "get_db_header (disk_read ?d 0 (unat ?ps)) = ?h"
    using hdr size by (simp_all add: DB_HEADER_SIZE_value)
  define q where "q = (new_pager ?d ?ps ?h)\<lparr>pg_last_heap := hd_first_heap_page_id ?h\<rparr>"
  note N = new_pager_ok [OF size, of ?d ?h]
  have q: "pager_ok q" "pins q = (\<lambda>_. 0)" "\<And>pid. pid \<noteq> 0 \<Longrightarrow> view q pid = view p pid"
    "pg_header q = ?h" "pg_page_size q = ?ps" "\<not> pg_free_hint q"
    using N F(2) page by (simp_all add: q_def fun_eq_iff) (simp_all add: new_pager_def)
  have "0 \<notin> set chain" using chain(1) by (rule heap_chain_nonzero)
  then have eq: "view q c = view p c" if "c \<in> set chain" for c using q(3) that by metis
  with chain(1) have ch: "heap_chain (view q) (hd_first_heap_page_id ?h) chain"
    by (subst heap_chain_cong [where pg' = "view p"]) auto
  have tr: "tick_room q (length chain)" using chain(3) by (simp add: tick_room_def q_def new_pager_def)
  from restore_heap_tail_ok [OF ch q(1,2) tr] obtain p' where p': "restore_heap_tail q (hd_first_heap_page_id ?h) = Some p'"
    "pager_ok p'" "view p' = view q" "pins p' = pins q" "pg_header p' = pg_header q" "pg_page_size p' = pg_page_size q"
    "pg_last_heap p' = last chain"
    "pg_free_hint p' \<longleftrightarrow> (\<exists>c \<in> set chain. hph_free_slot_head (get_heap_hdr (view q c)) \<noteq> SLOT_NONE)"
    using chain(2) q(6) by auto
  have "pager_reopen ?d = Some (Some p')"
    using p'(1) by (simp add: pager_reopen_def h1 ps magic Let_def q_def [symmetric]) (simp add: q_def)
  with p' q eq show ?thesis by auto
qed

theorem pager_reopen_rejects:
  assumes "take 7 (hd_magic (get_db_header (disk_read d 0 (unat (hd_page_size (get_db_header (disk_read d 0 4096)))))))
    \<noteq> take 7 DB_MAGIC"
  shows "pager_reopen d = Some None"
  using assms by (simp add: pager_reopen_def Let_def)

end
