(* ===== verification/RW_Lock.thy ===== *)
theory RW_Lock
  imports Main
begin

text \<open>
  \<open>pthread_rwlock_t\<close> as the page latches and the engine lock use it: the number of its readers and
  whether a writer has it. \<open>None\<close> of the locking calls is a wait, \<open>None\<close> of the unlocking call its
  use on a lock nobody has, which is undefined.
\<close>

record rwlock =
  rw_readers :: nat
  rw_writer :: bool

definition rwlock_init :: rwlock where
  "rwlock_init = \<lparr>rw_readers = 0, rw_writer = False\<rparr>"

definition rwlock_rdlock :: "rwlock \<Rightarrow> rwlock option" where
  "rwlock_rdlock l = (if rw_writer l then None else Some (l\<lparr>rw_readers := rw_readers l + 1\<rparr>))"

definition rwlock_wrlock :: "rwlock \<Rightarrow> rwlock option" where
  "rwlock_wrlock l = (if rw_writer l \<or> 0 < rw_readers l then None else Some (l\<lparr>rw_writer := True\<rparr>))"

definition rwlock_unlock :: "rwlock \<Rightarrow> rwlock option" where
  "rwlock_unlock l =
     (if rw_writer l then Some (l\<lparr>rw_writer := False\<rparr>)
      else if 0 < rw_readers l then Some (l\<lparr>rw_readers := rw_readers l - 1\<rparr>)
      else None)"

end
