(* ===== verification/Page_Latch.thy ===== *)
theory Page_Latch
  imports Pager_Refine RW_Lock
begin

text \<open>
  The page latches (\<open>pager_get_page_rlatch\<close>, \<open>pager_get_page_wlatch\<close>, \<open>pager_unlatch_r\<close>,
  \<open>pager_unlatch_w\<close> of \<open>src/storage/pager.c\<close>): a read-write lock per frame, taken after the page is
  pinned. What a call does under one hold of \<open>pager_mutex\<close> is one step, and the steps of different
  threads interleave: a latching call fetches and pins its page, gives the mutex up, looks the
  frame up again, gives the mutex up again, and then waits for the latch of the frame it found.
  Every page a thread has pinned is a reference in the state: whose it is, how it is used, the
  frame whose bytes the thread was given, and how far the call has come. A client's write through
  its pointer is a step together with the \<open>pager_mark_dirty\<close> that follows it.
\<close>

section \<open>State\<close>

datatype access = Plain | Rlatch | Wlatch

datatype stage = Pinned | Found nat | Latched nat | Bare

record page_ref =
  rf_thread :: nat
  rf_access :: access
  rf_page :: page_id
  rf_frame :: nat
  rf_stage :: stage

record latched_pager =
  lp_pager :: pager
  lp_latches :: "rwlock list"
  lp_refs :: "page_ref list"

text \<open>The end of \<open>pager_open\<close>: every frame has its latch.\<close>

definition latches_init :: "pager \<Rightarrow> latched_pager" where
  "latches_init p = \<lparr>lp_pager = p, lp_latches = replicate MAX_FRAMES rwlock_init, lp_refs = []\<rparr>"

text \<open>A thread inside a latching call does nothing else.\<close>

fun pending :: "stage \<Rightarrow> bool" where
  "pending Pinned = True"
| "pending (Found i) = True"
| "pending s = False"

definition idle :: "latched_pager \<Rightarrow> nat \<Rightarrow> bool" where
  "idle s t \<longleftrightarrow> (\<forall>r \<in> set (lp_refs s). rf_thread r = t \<longrightarrow> \<not> pending (rf_stage r))"

fun latched :: "stage \<Rightarrow> bool" where
  "latched (Latched i) = True"
| "latched s = False"

section \<open>The calls and their steps\<close>

text \<open>The first part of every call: \<open>pager_get_page\<close>. Without a frame it returns the null pointer.\<close>

definition latch_fetch :: "latched_pager \<Rightarrow> nat \<Rightarrow> access \<Rightarrow> page_id \<Rightarrow> latched_pager option" where
  "latch_fetch s t a pid =
     (if \<not> idle s t then None
      else case pager_get_page (lp_pager s) pid of
        None \<Rightarrow> None
      | Some (idx, p) \<Rightarrow>
          Some (if idx < 0 then s\<lparr>lp_pager := p\<rparr>
                else s\<lparr>lp_pager := p,
                       lp_refs := \<lparr>rf_thread = t, rf_access = a, rf_page = pid, rf_frame = nat idx,
                         rf_stage = (if a = Plain then Bare else Pinned)\<rparr> # lp_refs s\<rparr>))"

text \<open>The second part: the frame is looked up again.\<close>

definition latch_look :: "latched_pager \<Rightarrow> nat \<Rightarrow> latched_pager option" where
  "latch_look s t =
     (case List.extract (\<lambda>r. rf_thread r = t \<and> rf_stage r = Pinned) (lp_refs s) of
        None \<Rightarrow> None
      | Some (xs, r, ys) \<Rightarrow>
          (case find_frame (lp_pager s) (rf_page r) of
             None \<Rightarrow> None
           | Some idx \<Rightarrow>
               Some (s\<lparr>lp_refs := xs @ r\<lparr>rf_stage := (if idx \<ge> 0 then Found (nat idx) else Bare)\<rparr> # ys\<rparr>)))"

text \<open>The third: the latch of that frame, for reading or for writing; no step while it has to wait.\<close>

definition latch_lock :: "access \<Rightarrow> rwlock \<Rightarrow> rwlock option" where
  "latch_lock a = (if a = Wlatch then rwlock_wrlock else rwlock_rdlock)"

definition latch_take :: "latched_pager \<Rightarrow> nat \<Rightarrow> latched_pager option" where
  "latch_take s t =
     (case List.extract (\<lambda>r. rf_thread r = t \<and> pending (rf_stage r)) (lp_refs s) of
        None \<Rightarrow> None
      | Some (xs, r, ys) \<Rightarrow>
          (case rf_stage r of
             Found i \<Rightarrow>
               (case latch_lock (rf_access r) (lp_latches s ! i) of
                  None \<Rightarrow> None
                | Some l \<Rightarrow>
                    Some (s\<lparr>lp_latches := (lp_latches s)[i := l], lp_refs := xs @ r\<lparr>rf_stage := Latched i\<rparr> # ys\<rparr>))
           | _ \<Rightarrow> None))"

text \<open>The two latching calls, when no other thread comes between their parts.\<close>

definition pager_get_page_rlatch :: "latched_pager \<Rightarrow> nat \<Rightarrow> page_id \<Rightarrow> latched_pager option" where
  "pager_get_page_rlatch s t pid = do {
     s \<leftarrow> latch_fetch s t Rlatch pid;
     if idle s t then Some s else do { s \<leftarrow> latch_look s t; latch_take s t } }"

definition pager_get_page_wlatch :: "latched_pager \<Rightarrow> nat \<Rightarrow> page_id \<Rightarrow> latched_pager option" where
  "pager_get_page_wlatch s t pid = do {
     s \<leftarrow> latch_fetch s t Wlatch pid;
     if idle s t then Some s else do { s \<leftarrow> latch_look s t; latch_take s t } }"

text \<open>Giving a latch back, under the mutex: unlock and unpin. The two functions have one body.\<close>

definition unlatch :: "pager \<Rightarrow> rwlock list \<Rightarrow> page_id \<Rightarrow> (pager \<times> rwlock list) option" where
  "unlatch p ls pid = do {
     idx \<leftarrow> find_frame p pid;
     if idx \<ge> 0 then do {
       l \<leftarrow> rwlock_unlock (ls ! nat idx);
       let f = pg_frames p ! nat idx;
       Some (if fr_pin f > 0 then set_frame p (nat idx) (f\<lparr>fr_pin := fr_pin f - 1\<rparr>) else p, ls[nat idx := l])
     }
     else Some (p, ls)
   }"

definition pager_unlatch_r :: "pager \<Rightarrow> rwlock list \<Rightarrow> page_id \<Rightarrow> (pager \<times> rwlock list) option" where
  "pager_unlatch_r p ls pid = unlatch p ls pid"

definition pager_unlatch_w :: "pager \<Rightarrow> rwlock list \<Rightarrow> page_id \<Rightarrow> (pager \<times> rwlock list) option" where
  "pager_unlatch_w p ls pid = unlatch p ls pid"

definition latch_release :: "latched_pager \<Rightarrow> nat \<Rightarrow> access \<Rightarrow> page_id \<Rightarrow> latched_pager option" where
  "latch_release s t a pid =
     (case List.extract (\<lambda>r. rf_thread r = t \<and> rf_access r = a \<and> rf_page r = pid \<and> latched (rf_stage r)) (lp_refs s) of
        None \<Rightarrow> None
      | Some (xs, r, ys) \<Rightarrow>
          if \<not> idle s t then None
          else map_option (\<lambda>(p, ls). s\<lparr>lp_pager := p, lp_latches := ls, lp_refs := xs @ ys\<rparr>)
            ((if a = Wlatch then pager_unlatch_w else pager_unlatch_r) (lp_pager s) (lp_latches s) pid))"

text \<open>A page used without a latch is given back by \<open>pager_unpin\<close>.\<close>

definition latch_unpin :: "latched_pager \<Rightarrow> nat \<Rightarrow> page_id \<Rightarrow> latched_pager option" where
  "latch_unpin s t pid =
     (case List.extract (\<lambda>r. rf_thread r = t \<and> rf_page r = pid \<and> rf_stage r = Bare) (lp_refs s) of
        None \<Rightarrow> None
      | Some (xs, r, ys) \<Rightarrow>
          if \<not> idle s t then None
          else map_option (\<lambda>p. s\<lparr>lp_pager := p, lp_refs := xs @ ys\<rparr>) (pager_unpin (lp_pager s) pid))"

text \<open>A client with a write latch changes the page through the pointer it was given.\<close>

definition latch_edit :: "latched_pager \<Rightarrow> nat \<Rightarrow> page_id \<Rightarrow> bytes \<Rightarrow> latched_pager option" where
  "latch_edit s t pid b =
     (case List.extract (\<lambda>r. rf_thread r = t \<and> rf_access r = Wlatch \<and> rf_page r = pid \<and> latched (rf_stage r)) (lp_refs s) of
        None \<Rightarrow> None
      | Some (xs, r, ys) \<Rightarrow>
          if \<not> idle s t then None
          else map_option (\<lambda>p. s\<lparr>lp_pager := p\<rparr>) (pager_mark_dirty (frame_store (lp_pager s) (rf_frame r) b) pid))"

section \<open>Runs\<close>

datatype latch_event =
    Fetch nat access page_id
  | Look nat
  | Take nat
  | Release nat access page_id
  | Unpin nat page_id
  | Edit nat page_id bytes

fun latch_step :: "latched_pager \<Rightarrow> latch_event \<Rightarrow> latched_pager option" where
  "latch_step s (Fetch t a pid) = latch_fetch s t a pid"
| "latch_step s (Look t) = latch_look s t"
| "latch_step s (Take t) = latch_take s t"
| "latch_step s (Release t a pid) = latch_release s t a pid"
| "latch_step s (Unpin t pid) = latch_unpin s t pid"
| "latch_step s (Edit t pid b) = latch_edit s t pid b"

fun latch_run :: "latched_pager \<Rightarrow> latch_event list \<Rightarrow> latched_pager option" where
  "latch_run s [] = Some s"
| "latch_run s (e # es) = (case latch_step s e of None \<Rightarrow> None | Some s' \<Rightarrow> latch_run s' es)"

lemma latch_run_append:
  "latch_run s (es @ es') = (case latch_run s es of None \<Rightarrow> None | Some s' \<Rightarrow> latch_run s' es')"
  by (induction es arbitrary: s) (auto split: option.split)

text \<open>What a client asks: pages other than the header, and a page's worth of bytes.\<close>

fun event_ok :: "u32 \<Rightarrow> latch_event \<Rightarrow> bool" where
  "event_ok ps (Fetch t a pid) = (pid \<noteq> 0)"
| "event_ok ps (Edit t pid b) = (length b = unat ps)"
| "event_ok ps e = True"

section \<open>The invariant\<close>

definition ref_ok :: "pager \<Rightarrow> page_ref \<Rightarrow> bool" where
  "ref_ok p r \<longleftrightarrow> holds p (rf_frame r) (rf_page r)
     \<and> (case rf_stage r of Pinned \<Rightarrow> rf_access r \<noteq> Plain
          | Found i \<Rightarrow> i = rf_frame r \<and> rf_access r \<noteq> Plain
          | Latched i \<Rightarrow> i = rf_frame r \<and> rf_access r \<noteq> Plain
          | Bare \<Rightarrow> rf_access r = Plain)"

definition page_refs :: "page_ref list \<Rightarrow> page_id \<Rightarrow> nat" where
  "page_refs rs pid = length (filter (\<lambda>r. rf_page r = pid) rs)"

definition latch_refs :: "page_ref list \<Rightarrow> access \<Rightarrow> nat \<Rightarrow> nat" where
  "latch_refs rs a i = length (filter (\<lambda>r. rf_access r = a \<and> rf_stage r = Latched i) rs)"

definition lock_agrees :: "page_ref list \<Rightarrow> nat \<Rightarrow> rwlock \<Rightarrow> bool" where
  "lock_agrees rs i l \<longleftrightarrow> rw_readers l = latch_refs rs Rlatch i \<and> of_bool (rw_writer l) = latch_refs rs Wlatch i
     \<and> (rw_writer l \<longrightarrow> rw_readers l = 0)"

definition latch_inv :: "latched_pager \<Rightarrow> bool" where
  "latch_inv s \<longleftrightarrow> pager_ok (lp_pager s) \<and> length (lp_latches s) = MAX_FRAMES
     \<and> pins (lp_pager s) = page_refs (lp_refs s) \<and> (\<forall>r \<in> set (lp_refs s). ref_ok (lp_pager s) r)
     \<and> (\<forall>i < MAX_FRAMES. lock_agrees (lp_refs s) i (lp_latches s ! i))"

text \<open>Room for \<open>n\<close> more steps: neither the tick nor the pins come to their last value.\<close>

definition latch_room :: "latched_pager \<Rightarrow> nat \<Rightarrow> bool" where
  "latch_room s n \<longleftrightarrow> tick_room (lp_pager s) n \<and> length (lp_refs s) + n < 2 ^ 32"

lemma page_refs_simps [simp]:
  "page_refs [] q = 0" "page_refs (r # rs) q = (if rf_page r = q then 1 else 0) + page_refs rs q"
  "page_refs (xs @ ys) q = page_refs xs q + page_refs ys q"
  by (simp_all add: page_refs_def)

lemma latch_refs_simps [simp]:
  "latch_refs [] a i = 0"
  "latch_refs (r # rs) a i = (if rf_access r = a \<and> rf_stage r = Latched i then 1 else 0) + latch_refs rs a i"
  "latch_refs (xs @ ys) a i = latch_refs xs a i + latch_refs ys a i"
  by (simp_all add: latch_refs_def)

lemma lock_agrees_cong:
  "latch_refs rs' Rlatch i = latch_refs rs Rlatch i \<Longrightarrow> latch_refs rs' Wlatch i = latch_refs rs Wlatch i
    \<Longrightarrow> lock_agrees rs' i l = lock_agrees rs i l"
  by (simp add: lock_agrees_def)

lemma page_refs_le: "page_refs rs q \<le> length rs"
  by (simp add: page_refs_def)

lemma latch_refs_pos: "r \<in> set rs \<Longrightarrow> rf_stage r = Latched i \<Longrightarrow> 0 < latch_refs rs (rf_access r) i"
  by (auto simp: latch_refs_def filter_empty_conv)

section \<open>Pinned pages stay in their frames\<close>

lemma load_holds:
  assumes "frame_index_insert ((pg_frames p)[i := f]) bs i = (fs, bs')" "fr_page_id f = pid" "fr_valid f"
    and "i < length (pg_frames p)"
  shows "holds (p\<lparr>pg_frames := fs, pg_buckets := b\<rparr>) j q \<longleftrightarrow> (if j = i then q = pid else holds p j q)"
  using assms by (auto simp: frame_index_insert_def Let_def holds_def nth_update_any)

lemma pager_get_page_places:
  assumes ok: "pager_ok p" and pid: "pid \<noteq> 0" and av: "cached p pid \<or> evictable p"
    and tr: "tick_room p (Suc n)" and pn: "pins p pid < 2 ^ 32 - 1"
    and get: "pager_get_page p pid = Some (int i, p')" and h: "holds p j q" "0 < pins p q"
  shows "holds p' j q"
proof (cases "cached p pid")
  case True
  then obtain k where k: "holds p k pid" by (auto simp: cached_def)
  have c: "cache_ok p" using ok by (simp add: pager_ok_def)
  have "holds p' = holds p"
    using get find_frame_ok(1) [OF c k]
    by (auto simp: pager_get_page_def Let_def holds_def nth_update_any set_frame_def fun_eq_iff split: if_splits)
  with h show ?thesis by simp
next
  case False
  then have nh: "\<And>i. \<not> holds p i pid" and ev: "evictable p" using av by (auto simp: cached_def)
  have c: "cache_ok p" using ok by (simp add: pager_ok_def)
  define u where "u = p\<lparr>pg_stats := (pg_stats p)\<lparr>qs_page_loads := qs_page_loads (pg_stats p) + 1,
    qs_cache_misses := qs_cache_misses (pg_stats p) + 1\<rparr>\<rparr>"
  have u: "pager_ok u" "evictable u" "holds u = holds p" using ok ev by (simp_all add: u_def evictable_def)
  from evict_frame_ok [OF u(1,2)] obtain k r where r: "evict_frame u = Some (int k, r)" "k < MAX_FRAMES"
    "pager_ok r" "\<forall>j q. holds r j q \<longrightarrow> holds p j q" using u(3) by auto
  define s where "s = r\<lparr>pg_tick := pg_tick r + 1\<rparr>"
  let ?f = "(pg_frames s ! k)\<lparr>fr_page_id := pid, fr_valid := True, fr_dirty := False, fr_pin := 1,
    fr_tick := pg_tick s, fr_data := raw_read s pid\<rparr>"
  obtain fs bs where ins: "frame_index_insert ((pg_frames s)[k := ?f]) (pg_buckets s) k = (fs, bs)" by fastforce
  have "p' = s\<lparr>pg_frames := fs, pg_buckets := bs\<rparr>"
    using get find_frame_ok(2) [OF c nh] r(1) ins by (simp add: pager_get_page_def Let_def s_def u_def)
  moreover have "k < length (pg_frames s)" using r(2,3) by (simp add: s_def pager_ok_def cache_ok_def)
  ultimately have hold: "holds p' m w \<longleftrightarrow> (if m = k then w = pid else holds r m w)" for m w
    using load_holds [OF ins, of pid bs m w] by (simp add: s_def tick_congs)
  from pager_get_page_ok [OF ok pid av tr pn] get have "pins p' = (pins p)(pid := pins p pid + 1)" by auto
  moreover have qp: "q \<noteq> pid" using nh h(1) by blast
  ultimately have "0 < pins p' q" using h(2) by simp
  then obtain m where m: "holds p' m q" using pins_not_holds [of p' q] by (metis less_irrefl)
  with hold qp r(4) have "holds p m q" by (auto split: if_splits)
  with cache_ok_unique [OF c h(1)] m show ?thesis by simp
qed

lemma pager_get_page_null:
  assumes ok: "pager_ok p" and full: "\<not> cached p pid" "\<not> evictable p"
  shows "\<exists>p'. pager_get_page p pid = Some (-1, p') \<and> pager_ok p' \<and> view p' = view p \<and> pins p' = pins p
    \<and> holds p' = holds p \<and> pg_tick p' = pg_tick p \<and> pg_page_size p' = pg_page_size p"
proof -
  define q where "q = p\<lparr>pg_stats := (pg_stats p)\<lparr>qs_page_loads := qs_page_loads (pg_stats p) + 1,
    qs_cache_misses := qs_cache_misses (pg_stats p) + 1\<rparr>\<rparr>"
  have q: "pager_ok q" "\<not> evictable q" using ok full(2) by (simp_all add: q_def evictable_def)
  have "\<And>i. \<not> holds p i pid" using full(1) by (simp add: cached_def)
  from find_frame_ok(2) [OF _ this] ok evict_frame_all_pinned [OF q]
  have "pager_get_page p pid = Some (-1, q)" by (simp add: pager_get_page_def Let_def q_def pager_ok_def)
  then show ?thesis using ok by (simp add: q_def)
qed

lemma ref_ok_moves:
  assumes "ref_ok p r" "holds p' (rf_frame r) (rf_page r)"
  shows "ref_ok p' r"
  using assms by (simp add: ref_ok_def)

lemma page_refs_pos: "r \<in> set rs \<Longrightarrow> 0 < page_refs rs (rf_page r)"
  by (auto simp: page_refs_def filter_empty_conv)

section \<open>Every step keeps the invariant\<close>

text \<open>
  What every step keeps: the invariant, the page size and the room; and the contents of each page
  unless a thread with its write latch changes them.
\<close>

definition step_keeps :: "latched_pager \<Rightarrow> latched_pager \<Rightarrow> nat \<Rightarrow> bool" where
  "step_keeps s s' n \<longleftrightarrow> latch_inv s' \<and> latch_room s' n
     \<and> pg_page_size (lp_pager s') = pg_page_size (lp_pager s)"

lemma latch_invD:
  assumes "latch_inv s"
  shows "pager_ok (lp_pager s)" "length (lp_latches s) = MAX_FRAMES" "pins (lp_pager s) = page_refs (lp_refs s)"
    "r \<in> set (lp_refs s) \<Longrightarrow> ref_ok (lp_pager s) r"
    "i < MAX_FRAMES \<Longrightarrow> lock_agrees (lp_refs s) i (lp_latches s ! i)"
  using assms by (auto simp: latch_inv_def)

lemma fetch_keeps:
  assumes inv: "latch_inv s" and room: "latch_room s (Suc n)" and pid: "pid \<noteq> 0"
    and step: "latch_fetch s t a pid = Some s'"
  shows "step_keeps s s' n" and "view (lp_pager s') = view (lp_pager s)"
proof -
  let ?p = "lp_pager s"
  note I = latch_invD [OF inv]
  have tr: "tick_room ?p (Suc n)" and len: "length (lp_refs s) + Suc n < 2 ^ 32"
    using room by (simp_all add: latch_room_def)
  have pn: "pins ?p pid < 2 ^ 32 - 1" using page_refs_le [of "lp_refs s" pid] len I(3) by simp
  have "step_keeps s s' n \<and> view (lp_pager s') = view (lp_pager s)"
  proof (cases "cached ?p pid \<or> evictable ?p")
    case True
    note G = pager_get_page_ok [OF I(1) pid True tr pn]
    from G obtain i p' where g: "pager_get_page ?p pid = Some (int i, p')" "pager_ok p'" "holds p' i pid"
      "view p' = view ?p" "pins p' = (pins ?p)(pid := pins ?p pid + 1)" "same_meta ?p p'" "tick_room p' n" by blast
    let ?r = "\<lparr>rf_thread = t, rf_access = a, rf_page = pid, rf_frame = i, rf_stage = (if a = Plain then Bare else Pinned)\<rparr>"
    have s': "s' = s\<lparr>lp_pager := p', lp_refs := ?r # lp_refs s\<rparr>"
      using step g(1) by (simp add: latch_fetch_def split: if_splits)
    have old: "ref_ok p' r" if "r \<in> set (lp_refs s)" for r
      using ref_ok_moves [OF I(4) [OF that]] pager_get_page_places [OF I(1) pid True tr pn g(1)] that
        page_refs_pos [OF that] I(3) I(4) [OF that] by (simp add: ref_ok_def)
    have "ref_ok p' ?r" using g(3) by (simp add: ref_ok_def)
    moreover have "lock_agrees (?r # lp_refs s) k l = lock_agrees (lp_refs s) k l" for k l
      by (rule lock_agrees_cong) auto
    moreover have "pins p' = page_refs (?r # lp_refs s)" using g(5) I(3) by (simp add: fun_eq_iff)
    ultimately have "latch_inv s'" using old g(2) I(2,5) by (simp add: latch_inv_def s')
    with g len show ?thesis by (simp add: step_keeps_def latch_room_def s' same_meta_def)
  next
    case False
    from pager_get_page_null [OF I(1)] False obtain p' where g: "pager_get_page ?p pid = Some (-1, p')" "pager_ok p'"
      "view p' = view ?p" "pins p' = pins ?p" "holds p' = holds ?p" "pg_tick p' = pg_tick ?p" "pg_page_size p' = pg_page_size ?p" by blast
    have s': "s' = s\<lparr>lp_pager := p'\<rparr>" using step g(1) by (simp add: latch_fetch_def split: if_splits)
    have "latch_inv s'" using inv g by (simp add: latch_inv_def s' ref_ok_def)
    with g tr len show ?thesis by (simp add: step_keeps_def latch_room_def s' tick_room_def)
  qed
  then show "step_keeps s s' n" "view (lp_pager s') = view (lp_pager s)" by simp_all
qed

lemma extract_split:
  "List.extract P rs = Some (xs, r, ys) \<Longrightarrow> rs = xs @ r # ys \<and> P r"
  by (simp add: extract_Some_iff)

lemma latched_iff: "latched s \<longleftrightarrow> (\<exists>i. s = Latched i)"
  by (cases s) auto

lemma look_keeps:
  assumes inv: "latch_inv s" and room: "latch_room s (Suc n)" and step: "latch_look s t = Some s'"
  shows "step_keeps s s' n" and "view (lp_pager s') = view (lp_pager s)"
proof -
  note I = latch_invD [OF inv]
  from step obtain xs r ys where e: "List.extract (\<lambda>r. rf_thread r = t \<and> rf_stage r = Pinned) (lp_refs s) = Some (xs, r, ys)"
    by (auto simp: latch_look_def split: option.splits)
  from extract_split [OF e] have rs: "lp_refs s = xs @ r # ys" and st: "rf_stage r = Pinned" by auto
  have h: "ref_ok (lp_pager s) r" using I(4) [of r] rs by simp
  have c: "cache_ok (lp_pager s)" using I(1) by (simp add: pager_ok_def)
  have f: "find_frame (lp_pager s) (rf_page r) = Some (int (rf_frame r))"
    using h find_frame_ok(1) [OF c] by (simp add: ref_ok_def)
  have s': "s' = s\<lparr>lp_refs := xs @ r\<lparr>rf_stage := Found (rf_frame r)\<rparr> # ys\<rparr>"
    using step e f by (simp add: latch_look_def)
  have "ref_ok (lp_pager s) (r\<lparr>rf_stage := Found (rf_frame r)\<rparr>)" using h st by (simp add: ref_ok_def)
  moreover have "lock_agrees (xs @ r\<lparr>rf_stage := Found (rf_frame r)\<rparr> # ys) k l = lock_agrees (lp_refs s) k l" for k l
    using st by (intro lock_agrees_cong) (simp_all add: rs)
  moreover have "page_refs (xs @ r\<lparr>rf_stage := Found (rf_frame r)\<rparr> # ys) = page_refs (lp_refs s)"
    by (simp add: rs fun_eq_iff)
  ultimately have "latch_inv s'" using I rs by (simp add: latch_inv_def s')
  then show "step_keeps s s' n" "view (lp_pager s') = view (lp_pager s)"
    using room rs by (simp_all add: step_keeps_def latch_room_def s' tick_room_def)
qed

lemma lock_agrees_take:
  assumes "lock_agrees (xs @ r # ys) i l" "rf_stage r = Found i" "rf_access r \<noteq> Plain"
    and "latch_lock (rf_access r) l = Some l'"
  shows "lock_agrees (xs @ r\<lparr>rf_stage := Latched i\<rparr> # ys) i l'"
  using assms by (cases "rf_access r")
    (auto simp: lock_agrees_def latch_lock_def rwlock_rdlock_def rwlock_wrlock_def split: if_splits)

lemma take_keeps:
  assumes inv: "latch_inv s" and room: "latch_room s (Suc n)" and step: "latch_take s t = Some s'"
  shows "step_keeps s s' n" and "view (lp_pager s') = view (lp_pager s)"
proof -
  note I = latch_invD [OF inv]
  from step obtain xs r ys i l where
    e: "List.extract (\<lambda>r. rf_thread r = t \<and> pending (rf_stage r)) (lp_refs s) = Some (xs, r, ys)"
    and st: "rf_stage r = Found i" and l: "latch_lock (rf_access r) (lp_latches s ! i) = Some l"
    and s': "s' = s\<lparr>lp_latches := (lp_latches s)[i := l], lp_refs := xs @ r\<lparr>rf_stage := Latched i\<rparr> # ys\<rparr>"
    by (auto simp: latch_take_def split: option.splits stage.splits)
  from extract_split [OF e] have rs: "lp_refs s = xs @ r # ys" by simp
  let ?r = "r\<lparr>rf_stage := Latched i\<rparr>"
  have h: "ref_ok (lp_pager s) r" using I(4) [of r] rs by simp
  then have i: "i = rf_frame r" "rf_access r \<noteq> Plain" using st by (simp_all add: ref_ok_def)
  have im: "i < MAX_FRAMES" using h i I(1) by (simp add: ref_ok_def holds_def pager_ok_def cache_ok_def)
  have "lock_agrees (xs @ ?r # ys) k ((lp_latches s)[i := l] ! k)" if "k < MAX_FRAMES" for k
  proof (cases "k = i")
    case True
    with lock_agrees_take [OF _ st i(2) l] I(5) [OF im] im I(2) rs show ?thesis by simp
  next
    case False
    have "lock_agrees (xs @ ?r # ys) k (lp_latches s ! k) = lock_agrees (lp_refs s) k (lp_latches s ! k)"
      using False st by (intro lock_agrees_cong) (simp_all add: rs)
    with False I(5) [OF that] show ?thesis by simp
  qed
  moreover have "ref_ok (lp_pager s) ?r" using h i by (simp add: ref_ok_def)
  moreover have "page_refs (xs @ ?r # ys) = page_refs (lp_refs s)" by (simp add: rs fun_eq_iff)
  ultimately have "latch_inv s'" using I rs by (simp add: latch_inv_def s')
  then show "step_keeps s s' n" "view (lp_pager s') = view (lp_pager s)"
    using room rs by (simp_all add: step_keeps_def latch_room_def s' tick_room_def)
qed

lemma unpin_holds: "pager_unpin p pid = Some p' \<Longrightarrow> holds p' = holds p"
  by (auto simp: pager_unpin_def bind_eq_Some_conv holds_set_frame keeps_place_def fun_eq_iff split: if_splits)

text \<open>Taking a reference away, as every call does that gives a page back.\<close>

lemma drop_ref_keeps:
  assumes inv: "latch_inv s" and room: "latch_room s (Suc n)" and rs: "lp_refs s = xs @ r # ys"
    and p': "pager_unpin (lp_pager s) (rf_page r) = Some p'"
    and ls: "length ls = MAX_FRAMES" "\<And>i. i < MAX_FRAMES \<Longrightarrow> lock_agrees (xs @ ys) i (ls ! i)"
    and s': "s' = s\<lparr>lp_pager := p', lp_latches := ls, lp_refs := xs @ ys\<rparr>"
  shows "step_keeps s s' n" and "view (lp_pager s') = view (lp_pager s)"
proof -
  note I = latch_invD [OF inv]
  have "0 < pins (lp_pager s) (rf_page r)" using page_refs_pos [of r] rs I(3) by simp
  from pager_unpin_ok [OF I(1) this] p' have U: "pager_ok p'" "view p' = view (lp_pager s)"
    "pins p' = (pins (lp_pager s))(rf_page r := pins (lp_pager s) (rf_page r) - 1)" "same_meta (lp_pager s) p'"
    "pg_tick p' = pg_tick (lp_pager s)" by auto
  have "pins p' = page_refs (xs @ ys)" using U(3) I(3) rs by (auto simp: fun_eq_iff)
  moreover have "ref_ok p' q" if "q \<in> set (xs @ ys)" for q
    using I(4) [of q] that rs unpin_holds [OF p'] by (auto simp: ref_ok_def)
  ultimately have "latch_inv s'" using U(1) ls by (auto simp: latch_inv_def s')
  with U room rs show "step_keeps s s' n" "view (lp_pager s') = view (lp_pager s)"
    by (simp_all add: step_keeps_def latch_room_def s' tick_room_def same_meta_def)
qed

lemma unpin_keeps:
  assumes inv: "latch_inv s" and room: "latch_room s (Suc n)" and step: "latch_unpin s t pid = Some s'"
  shows "step_keeps s s' n" and "view (lp_pager s') = view (lp_pager s)"
proof -
  note I = latch_invD [OF inv]
  from step obtain xs r ys p' where
    e: "List.extract (\<lambda>r. rf_thread r = t \<and> rf_page r = pid \<and> rf_stage r = Bare) (lp_refs s) = Some (xs, r, ys)"
    and p': "pager_unpin (lp_pager s) pid = Some p'" and s': "s' = s\<lparr>lp_pager := p', lp_refs := xs @ ys\<rparr>"
    by (auto simp: latch_unpin_def split: option.splits if_splits)
  from extract_split [OF e] have rs: "lp_refs s = xs @ r # ys" and r: "rf_page r = pid" "rf_stage r = Bare" by auto
  have "lock_agrees (xs @ ys) i l = lock_agrees (lp_refs s) i l" for i l
    using r by (intro lock_agrees_cong) (simp_all add: rs)
  then have "lock_agrees (xs @ ys) i (lp_latches s ! i)" if "i < MAX_FRAMES" for i using I(5) [OF that] by simp
  note D = drop_ref_keeps [OF inv room rs _ I(2) this, of p' s']
  show "step_keeps s s' n" "view (lp_pager s') = view (lp_pager s)" using D p' r s' by simp_all
qed

text \<open>
  Giving a latch back: the frame is found again, its latch is one the thread has, so unlocking it
  is defined, and the page loses one pin.
\<close>

lemma lock_agrees_release:
  assumes "lock_agrees (xs @ r # ys) i l" "rf_stage r = Latched i" "rf_access r \<noteq> Plain"
  obtains l' where "rwlock_unlock l = Some l'" "lock_agrees (xs @ ys) i l'"
proof (cases "rf_access r")
  case Wlatch
  with assms have "rw_writer l" "lock_agrees (xs @ ys) i (l\<lparr>rw_writer := False\<rparr>)"
    by (auto simp: lock_agrees_def of_bool_def split: if_splits)
  with that show ?thesis by (simp add: rwlock_unlock_def)
next
  case Rlatch
  with assms have "0 < rw_readers l" "\<not> rw_writer l" "lock_agrees (xs @ ys) i (l\<lparr>rw_readers := rw_readers l - 1\<rparr>)"
    by (auto simp: lock_agrees_def of_bool_def split: if_splits)
  with that show ?thesis by (simp add: rwlock_unlock_def)
qed (use assms in simp)

lemma unlatch_unfold:
  assumes "pager_ok p" "holds p i pid" "rwlock_unlock (ls ! i) = Some l"
  shows "unlatch p ls pid = map_option (\<lambda>p. (p, ls[i := l])) (pager_unpin p pid)"
  using assms find_frame_ok(1) [of p i pid]
  by (simp add: unlatch_def pager_unpin_def Let_def pager_ok_def)

lemma release_keeps:
  assumes inv: "latch_inv s" and room: "latch_room s (Suc n)" and step: "latch_release s t a pid = Some s'"
  shows "step_keeps s s' n" and "view (lp_pager s') = view (lp_pager s)"
proof -
  note I = latch_invD [OF inv]
  from step obtain xs r ys p' ls where
    e: "List.extract (\<lambda>r. rf_thread r = t \<and> rf_access r = a \<and> rf_page r = pid \<and> latched (rf_stage r)) (lp_refs s) = Some (xs, r, ys)"
    and u: "unlatch (lp_pager s) (lp_latches s) pid = Some (p', ls)"
    and s': "s' = s\<lparr>lp_pager := p', lp_latches := ls, lp_refs := xs @ ys\<rparr>"
    by (auto simp: latch_release_def pager_unlatch_r_def pager_unlatch_w_def split: option.splits if_splits)
  from extract_split [OF e] have rs: "lp_refs s = xs @ r # ys" and r: "rf_page r = pid" "latched (rf_stage r)" by auto
  from r(2) obtain i where st: "rf_stage r = Latched i" by (auto simp: latched_iff)
  have h: "ref_ok (lp_pager s) r" using I(4) [of r] rs by simp
  then have i: "holds (lp_pager s) i pid" "rf_access r \<noteq> Plain" using st r(1) by (simp_all add: ref_ok_def)
  have im: "i < MAX_FRAMES" using i(1) I(1) by (simp add: holds_def pager_ok_def cache_ok_def)
  have "lock_agrees (xs @ r # ys) i (lp_latches s ! i)" using I(5) [OF im] rs by simp
  then obtain l where l: "rwlock_unlock (lp_latches s ! i) = Some l" "lock_agrees (xs @ ys) i l"
    by (rule lock_agrees_release [OF _ st i(2)])
  from u unlatch_unfold [OF I(1) i(1) l(1)] have p': "pager_unpin (lp_pager s) (rf_page r) = Some p'"
    and ls: "ls = (lp_latches s)[i := l]" using r(1) by auto
  have "lock_agrees (xs @ ys) k (ls ! k)" if "k < MAX_FRAMES" for k
  proof (cases "k = i")
    case True
    with l(2) ls im I(2) show ?thesis by simp
  next
    case False
    have "lock_agrees (xs @ ys) k (lp_latches s ! k) = lock_agrees (lp_refs s) k (lp_latches s ! k)"
      using False st by (intro lock_agrees_cong) (simp_all add: rs)
    with False I(5) [OF that] ls show ?thesis by simp
  qed
  note D = drop_ref_keeps [OF inv room rs p' _ this s']
  show "step_keeps s s' n" "view (lp_pager s') = view (lp_pager s)" using D ls I(2) by simp_all
qed

lemma edit_keeps:
  assumes inv: "latch_inv s" and room: "latch_room s (Suc n)" and b: "length b = unat (pg_page_size (lp_pager s))"
    and step: "latch_edit s t pid b = Some s'"
  shows "step_keeps s s' n" and "view (lp_pager s') = (view (lp_pager s))(pid := b)" and "lp_refs s' = lp_refs s"
proof -
  note I = latch_invD [OF inv]
  from step obtain xs r ys p' where
    e: "List.extract (\<lambda>r. rf_thread r = t \<and> rf_access r = Wlatch \<and> rf_page r = pid \<and> latched (rf_stage r)) (lp_refs s) = Some (xs, r, ys)"
    and p': "pager_mark_dirty (frame_store (lp_pager s) (rf_frame r) b) pid = Some p'" and s': "s' = s\<lparr>lp_pager := p'\<rparr>"
    by (auto simp: latch_edit_def split: option.splits if_splits)
  from extract_split [OF e] I(4) [of r] have "holds (lp_pager s) (rf_frame r) pid" by (auto simp: ref_ok_def)
  from frame_store_mark_dirty [OF I(1) this b] p' have M: "pager_ok p'" "view p' = (view (lp_pager s))(pid := b)"
    "pins p' = pins (lp_pager s)" "holds p' = holds (lp_pager s)" "same_meta (lp_pager s) p'" "pg_tick p' = pg_tick (lp_pager s)"
    by auto
  have "latch_inv s'" using inv M by (simp add: latch_inv_def s' ref_ok_def)
  with M room show "step_keeps s s' n" "view (lp_pager s') = (view (lp_pager s))(pid := b)" "lp_refs s' = lp_refs s"
    by (simp_all add: step_keeps_def latch_room_def s' tick_room_def same_meta_def)
qed

lemma latch_step_keeps:
  assumes "latch_inv s" "latch_room s (Suc n)" "event_ok (pg_page_size (lp_pager s)) e" "latch_step s e = Some s'"
  shows "step_keeps s s' n"
  using assms fetch_keeps(1) look_keeps(1) take_keeps(1) release_keeps(1) unpin_keeps(1) edit_keeps(1)
  by (cases e) auto

lemma latch_run_keeps:
  assumes "latch_inv s" "latch_room s (length es + n)" "\<forall>e \<in> set es. event_ok (pg_page_size (lp_pager s)) e"
    and "latch_run s es = Some s'"
  shows "step_keeps s s' n"
  using assms
proof (induction es arbitrary: s)
  case Nil
  then show ?case by (simp add: step_keeps_def)
next
  case (Cons e es)
  then obtain s1 where s1: "latch_step s e = Some s1" "latch_run s1 es = Some s'" by (auto split: option.splits)
  have k: "step_keeps s s1 (length es + n)"
    by (rule latch_step_keeps [OF Cons.prems(1) _ _ s1(1)]) (use Cons.prems(2,3) in simp_all)
  with Cons.IH [of s1] Cons.prems(3) s1(2) show ?case by (simp add: step_keeps_def)
qed

lemma latches_init_inv:
  assumes "pager_ok p" "\<And>q. pins p q = 0"
  shows "latch_inv (latches_init p)"
  using assms by (simp add: latch_inv_def latches_init_def fun_eq_iff lock_agrees_def rwlock_init_def)

section \<open>At most one call of a thread is open\<close>

definition one_call :: "page_ref list \<Rightarrow> bool" where
  "one_call rs \<longleftrightarrow> distinct (map rf_thread (filter (\<lambda>r. pending (rf_stage r)) rs))"

lemma one_call_same:
  assumes "one_call rs" "r \<in> set rs" "r' \<in> set rs" "pending (rf_stage r)" "pending (rf_stage r')" "rf_thread r = rf_thread r'"
  shows "r = r'"
  using assms by (auto simp: one_call_def distinct_map inj_on_def)

lemma one_call_change:
  assumes "one_call (xs @ r # ys)" "pending (rf_stage r') \<Longrightarrow> pending (rf_stage r)" "rf_thread r' = rf_thread r"
  shows "one_call (xs @ r' # ys)"
  using assms by (cases "pending (rf_stage r')"; cases "pending (rf_stage r)") (auto simp: one_call_def)

lemma one_call_drop: "one_call (xs @ r # ys) \<Longrightarrow> one_call (xs @ ys)"
  by (auto simp: one_call_def split: if_splits)

lemma one_call_step:
  assumes "one_call (lp_refs s)" "latch_step s e = Some s'"
  shows "one_call (lp_refs s')"
proof (cases e)
  case (Fetch t a pid)
  with assms show ?thesis
    by (auto simp: latch_fetch_def one_call_def idle_def split: option.splits if_splits)
next
  case (Look t)
  with assms(2) obtain xs r ys st where "lp_refs s = xs @ r # ys" "rf_stage r = Pinned"
    "lp_refs s' = xs @ r\<lparr>rf_stage := st\<rparr> # ys"
    by (auto simp: latch_look_def split: option.splits dest!: extract_split)
  with assms(1) one_call_change [of xs r ys "r\<lparr>rf_stage := st\<rparr>"] show ?thesis by simp
next
  case (Take t)
  with assms(2) obtain xs r ys st where "lp_refs s = xs @ r # ys" "pending (rf_stage r)"
    "lp_refs s' = xs @ r\<lparr>rf_stage := st\<rparr> # ys"
    by (auto simp: latch_take_def split: option.splits stage.splits dest!: extract_split)
  with assms(1) one_call_change [of xs r ys "r\<lparr>rf_stage := st\<rparr>"] show ?thesis by simp
next
  case (Release t a pid)
  with assms(2) obtain xs r ys where "lp_refs s = xs @ r # ys" "lp_refs s' = xs @ ys"
    by (auto simp: latch_release_def split: option.splits if_splits dest!: extract_split)
  with assms(1) one_call_drop [of xs r ys] show ?thesis by simp
next
  case (Unpin t pid)
  with assms(2) obtain xs r ys where "lp_refs s = xs @ r # ys" "lp_refs s' = xs @ ys"
    by (auto simp: latch_unpin_def split: option.splits if_splits dest!: extract_split)
  with assms(1) one_call_drop [of xs r ys] show ?thesis by simp
next
  case (Edit t pid b)
  with assms show ?thesis by (auto simp: latch_edit_def split: option.splits if_splits)
qed

lemma one_call_run: "one_call (lp_refs s) \<Longrightarrow> latch_run s es = Some s' \<Longrightarrow> one_call (lp_refs s')"
  by (induction es arbitrary: s) (auto split: option.splits dest: one_call_step)

section \<open>Exclusion\<close>

text \<open>The references with a latch of one kind on a page.\<close>

definition latch_holders :: "page_ref list \<Rightarrow> access \<Rightarrow> page_id \<Rightarrow> page_ref list" where
  "latch_holders rs a q = filter (\<lambda>r. rf_access r = a \<and> rf_page r = q \<and> latched (rf_stage r)) rs"

lemma latch_holders_frame:
  assumes inv: "latch_inv s" and h: "holds (lp_pager s) i q"
  shows "length (latch_holders (lp_refs s) a q) = latch_refs (lp_refs s) a i"
proof -
  have c: "cache_ok (lp_pager s)" using latch_invD(1) [OF inv] by (simp add: pager_ok_def)
  have "(rf_page r = q \<and> latched (rf_stage r)) = (rf_stage r = Latched i)" if "r \<in> set (lp_refs s)" for r
  proof -
    have r: "ref_ok (lp_pager s) r" using latch_invD(4) [OF inv that] .
    then have hr: "holds (lp_pager s) (rf_frame r) (rf_page r)" by (simp add: ref_ok_def)
    have "rf_page r = q \<longleftrightarrow> rf_frame r = i"
    proof
      assume "rf_page r = q"
      with hr cache_ok_unique [OF c h] show "rf_frame r = i" by simp
    next
      assume "rf_frame r = i"
      with hr h show "rf_page r = q" by (simp add: holds_def)
    qed
    moreover have "rf_stage r = Latched k \<Longrightarrow> k = rf_frame r" for k using r by (simp add: ref_ok_def)
    ultimately show ?thesis by (cases "rf_stage r") auto
  qed
  then show ?thesis
    unfolding latch_holders_def latch_refs_def by (intro arg_cong [of _ _ length] filter_cong) auto
qed

lemma latches_exclude:
  assumes inv: "latch_inv s"
  shows "length (latch_holders (lp_refs s) Wlatch q) \<le> 1"
    and "latch_holders (lp_refs s) Wlatch q \<noteq> [] \<Longrightarrow> latch_holders (lp_refs s) Rlatch q = []"
proof -
  have "length (latch_holders (lp_refs s) Wlatch q) \<le> 1
    \<and> (latch_holders (lp_refs s) Wlatch q \<noteq> [] \<longrightarrow> latch_holders (lp_refs s) Rlatch q = [])"
  proof (cases "\<exists>i. holds (lp_pager s) i q")
    case True
    then obtain i where h: "holds (lp_pager s) i q" by blast
    then have "i < MAX_FRAMES" using latch_invD(1) [OF inv] by (simp add: holds_def pager_ok_def cache_ok_def)
    from latch_invD(5) [OF inv this] show ?thesis
      unfolding lock_agrees_def latch_holders_frame [OF inv h, symmetric]
      by (cases "rw_writer (lp_latches s ! i)") (simp, metis length_0_conv, simp)
  next
    case False
    then have "latch_holders (lp_refs s) a q = []" for a
      using latch_invD(4) [OF inv] by (auto simp: latch_holders_def filter_empty_conv ref_ok_def)
    then show ?thesis by simp
  qed
  then show "length (latch_holders (lp_refs s) Wlatch q) \<le> 1"
    "latch_holders (lp_refs s) Wlatch q \<noteq> [] \<Longrightarrow> latch_holders (lp_refs s) Rlatch q = []" by simp_all
qed

text \<open>So two latches on a page, one of them for writing, are the same.\<close>

lemma writer_alone:
  assumes inv: "latch_inv s" and r: "r \<in> set (lp_refs s)" "latched (rf_stage r)"
    and w: "w \<in> set (lp_refs s)" "latched (rf_stage w)" "rf_access w = Wlatch" "rf_page w = rf_page r"
  shows "r = w"
proof -
  note X = latches_exclude [OF inv, of "rf_page r"]
  have ww: "w \<in> set (latch_holders (lp_refs s) Wlatch (rf_page r))" using w by (simp add: latch_holders_def)
  have "rf_access r \<noteq> Plain" using latch_invD(4) [OF inv r(1)] r(2) by (auto simp: ref_ok_def latched_iff)
  moreover have "rf_access r \<noteq> Rlatch"
    using X(2) ww r by (auto simp: latch_holders_def filter_empty_conv)
  ultimately have "rf_access r = Wlatch" by (cases "rf_access r") auto
  then have "r \<in> set (latch_holders (lp_refs s) Wlatch (rf_page r))" using r by (simp add: latch_holders_def)
  with ww X(1) show ?thesis
    by (cases "latch_holders (lp_refs s) Wlatch (rf_page r)") auto
qed

section \<open>A latched page keeps its contents\<close>

text \<open>The events by which thread \<open>t\<close> itself ends or uses its latch on page \<open>q\<close>.\<close>

fun touches :: "nat \<Rightarrow> page_id \<Rightarrow> latch_event \<Rightarrow> bool" where
  "touches t q (Release t' a pid) \<longleftrightarrow> t' = t \<and> pid = q"
| "touches t q (Edit t' pid b) \<longleftrightarrow> t' = t \<and> pid = q"
| "touches t q e \<longleftrightarrow> False"

lemma latched_ref_stays:
  assumes "r \<in> set (lp_refs s)" "latched (rf_stage r)" "\<not> touches (rf_thread r) (rf_page r) e" "latch_step s e = Some s'"
  shows "r \<in> set (lp_refs s')"
  using assms
  by (cases e) (auto simp: latch_fetch_def latch_look_def latch_take_def latch_release_def latch_unpin_def latch_edit_def
    split: option.splits stage.splits if_splits dest!: extract_split)

lemma latched_page_step:
  assumes inv: "latch_inv s" and room: "latch_room s (Suc n)" and ev: "event_ok (pg_page_size (lp_pager s)) e"
    and r: "r \<in> set (lp_refs s)" "latched (rf_stage r)" "\<not> touches (rf_thread r) (rf_page r) e"
    and step: "latch_step s e = Some s'"
  shows "view (lp_pager s') (rf_page r) = view (lp_pager s) (rf_page r)"
proof (cases e)
  case (Edit t pid b)
  with step ev have ed: "latch_edit s t pid b = Some s'" and b: "length b = unat (pg_page_size (lp_pager s))" by simp_all
  then obtain xs w ys where "List.extract (\<lambda>r. rf_thread r = t \<and> rf_access r = Wlatch \<and> rf_page r = pid
    \<and> latched (rf_stage r)) (lp_refs s) = Some (xs, w, ys)" by (auto simp: latch_edit_def split: option.splits)
  from extract_split [OF this] have w: "w \<in> set (lp_refs s)" "latched (rf_stage w)" "rf_access w = Wlatch"
    "rf_page w = pid" "rf_thread w = t" by auto
  have "pid \<noteq> rf_page r" using writer_alone [OF inv r(1,2) w(1-3)] w(4,5) r(3) Edit by auto
  with edit_keeps(2) [OF inv room b ed] show ?thesis by simp
qed (use step ev fetch_keeps(2) [OF inv room] look_keeps(2) [OF inv room] take_keeps(2) [OF inv room]
       release_keeps(2) [OF inv room] unpin_keeps(2) [OF inv room] in auto)

lemma latched_page_run:
  assumes "latch_inv s" "latch_room s (length es + n)" "\<forall>e \<in> set es. event_ok (pg_page_size (lp_pager s)) e"
    and "r \<in> set (lp_refs s)" "latched (rf_stage r)" "\<forall>e \<in> set es. \<not> touches (rf_thread r) (rf_page r) e"
    and "latch_run s es = Some s'"
  shows "r \<in> set (lp_refs s') \<and> view (lp_pager s') (rf_page r) = view (lp_pager s) (rf_page r)"
  using assms
proof (induction es arbitrary: s)
  case Nil
  then show ?case by simp
next
  case (Cons e es)
  then obtain s1 where s1: "latch_step s e = Some s1" "latch_run s1 es = Some s'" by (auto split: option.splits)
  have room: "latch_room s (Suc (length es + n))" and ev: "event_ok (pg_page_size (lp_pager s)) e"
    and nt: "\<not> touches (rf_thread r) (rf_page r) e" using Cons.prems(2,3,6) by simp_all
  have "step_keeps s s1 (length es + n)" by (rule latch_step_keeps [OF Cons.prems(1) room ev s1(1)])
  then have k: "latch_inv s1" "latch_room s1 (length es + n)" "pg_page_size (lp_pager s1) = pg_page_size (lp_pager s)"
    by (simp_all add: step_keeps_def)
  have r1: "r \<in> set (lp_refs s1)" by (rule latched_ref_stays [OF Cons.prems(4,5) nt s1(1)])
  have "view (lp_pager s1) (rf_page r) = view (lp_pager s) (rf_page r)"
    by (rule latched_page_step [OF Cons.prems(1) room ev Cons.prems(4,5) nt s1(1)])
  moreover have "r \<in> set (lp_refs s') \<and> view (lp_pager s') (rf_page r) = view (lp_pager s1) (rf_page r)"
    by (rule Cons.IH [OF k(1,2) _ r1 Cons.prems(5) _ s1(2)]) (use Cons.prems(3,6) k(3) in simp_all)
  ultimately show ?case by simp
qed

text \<open>What the thread reads through its pointer is the page.\<close>

lemma ref_data:
  assumes "latch_inv s" "r \<in> set (lp_refs s)"
  shows "fr_data (pg_frames (lp_pager s) ! rf_frame r) = view (lp_pager s) (rf_page r)"
  using assms view_holds latch_invD(1,4) [OF assms(1)] by (fastforce simp: ref_ok_def pager_ok_def)

section \<open>Progress\<close>

lemma extract_some:
  assumes "r \<in> set rs" "P r"
  obtains xs r' ys where "List.extract P rs = Some (xs, r', ys)"
  using assms that by (cases "List.extract P rs") (auto simp: extract_None_iff)

lemma look_possible:
  assumes inv: "latch_inv s" and r: "r \<in> set (lp_refs s)" "rf_stage r = Pinned"
  shows "\<exists>s'. latch_look s (rf_thread r) = Some s'"
proof -
  obtain xs q ys where e: "List.extract (\<lambda>q. rf_thread q = rf_thread r \<and> rf_stage q = Pinned) (lp_refs s) = Some (xs, q, ys)"
    by (rule extract_some [OF r(1), where P = "\<lambda>q. rf_thread q = rf_thread r \<and> rf_stage q = Pinned"]) (use r(2) in simp_all)
  from extract_split [OF e] have "q \<in> set (lp_refs s)" by simp
  then have "holds (lp_pager s) (rf_frame q) (rf_page q)" using latch_invD(4) [OF inv] by (simp add: ref_ok_def)
  then have "find_frame (lp_pager s) (rf_page q) = Some (int (rf_frame q))"
    using find_frame_ok(1) latch_invD(1) [OF inv] by (simp add: pager_ok_def)
  with e show ?thesis by (simp add: latch_look_def)
qed

lemma take_possible:
  assumes inv: "latch_inv s" "one_call (lp_refs s)" and r: "r \<in> set (lp_refs s)" "rf_stage r = Found i"
    and l: "latch_lock (rf_access r) (lp_latches s ! i) \<noteq> None"
  shows "\<exists>s'. latch_take s (rf_thread r) = Some s'"
proof -
  obtain xs q ys where e: "List.extract (\<lambda>q. rf_thread q = rf_thread r \<and> pending (rf_stage q)) (lp_refs s) = Some (xs, q, ys)"
    by (rule extract_some [OF r(1), where P = "\<lambda>q. rf_thread q = rf_thread r \<and> pending (rf_stage q)"]) (use r(2) in simp_all)
  from extract_split [OF e] one_call_same [OF inv(2), of q r] r have "q = r" by auto
  with e r l show ?thesis by (auto simp: latch_take_def)
qed

text \<open>Unlocking is always defined: the latch of the frame found is the one the thread took.\<close>

lemma release_possible:
  assumes inv: "latch_inv s" and r: "r \<in> set (lp_refs s)" "latched (rf_stage r)" and idle: "idle s (rf_thread r)"
  shows "\<exists>s'. latch_release s (rf_thread r) (rf_access r) (rf_page r) = Some s'"
proof -
  note I = latch_invD [OF inv]
  obtain xs q ys where e: "List.extract (\<lambda>q. rf_thread q = rf_thread r \<and> rf_access q = rf_access r
    \<and> rf_page q = rf_page r \<and> latched (rf_stage q)) (lp_refs s) = Some (xs, q, ys)"
    by (rule extract_some [OF r(1), where P = "\<lambda>q. rf_thread q = rf_thread r \<and> rf_access q = rf_access r 
      \<and> rf_page q = rf_page r \<and> latched (rf_stage q)"]) (use r(2) in simp_all)
  from extract_split [OF e] have rs: "lp_refs s = xs @ q # ys" and q: "rf_page q = rf_page r" "latched (rf_stage q)" by auto
  from q(2) obtain i where st: "rf_stage q = Latched i" by (auto simp: latched_iff)
  have "ref_ok (lp_pager s) q" using I(4) [of q] rs by simp
  then have i: "holds (lp_pager s) i (rf_page r)" "rf_access q \<noteq> Plain" using st q(1) by (simp_all add: ref_ok_def)
  have im: "i < MAX_FRAMES" using i(1) I(1) by (simp add: holds_def pager_ok_def cache_ok_def)
  have "lock_agrees (xs @ q # ys) i (lp_latches s ! i)" using I(5) [OF im] rs by simp
  then obtain l where l: "rwlock_unlock (lp_latches s ! i) = Some l" by (rule lock_agrees_release [OF _ st i(2)])
  have "0 < pins (lp_pager s) (rf_page r)" using page_refs_pos [OF r(1)] I(3) by simp
  from pager_unpin_ok [OF I(1) this] obtain p' where "pager_unpin (lp_pager s) (rf_page r) = Some p'" by blast
  with unlatch_unfold [OF I(1) i(1) l] e idle show ?thesis
    by (simp add: latch_release_def pager_unlatch_r_def pager_unlatch_w_def)
qed

text \<open>A latch that cannot be had is held by some reference to the same page.\<close>

lemma blocked_by_holder:
  assumes inv: "latch_inv s" and r: "r \<in> set (lp_refs s)" "rf_stage r = Found i"
    and l: "latch_lock (rf_access r) (lp_latches s ! i) = None"
  obtains h where "h \<in> set (lp_refs s)" "rf_stage h = Latched i" "rf_page h = rf_page r"
proof -
  note I = latch_invD [OF inv]
  have hr: "holds (lp_pager s) i (rf_page r)" using I(4) [OF r(1)] r(2) by (simp add: ref_ok_def)
  then have "i < MAX_FRAMES" using I(1) by (simp add: holds_def pager_ok_def cache_ok_def)
  from I(5) [OF this] l have "0 < latch_refs (lp_refs s) Rlatch i \<or> 0 < latch_refs (lp_refs s) Wlatch i"
    by (auto simp: lock_agrees_def latch_lock_def rwlock_wrlock_def rwlock_rdlock_def split: if_splits)
  then obtain h where h: "h \<in> set (lp_refs s)" "rf_stage h = Latched i"
    by (auto simp: latch_refs_def filter_empty_conv)
  then have "holds (lp_pager s) i (rf_page h)" using I(4) [OF h(1)] by (simp add: ref_ok_def)
  with hr have "rf_page h = rf_page r" by (simp add: holds_def)
  with h that show ?thesis by blast
qed

text \<open>
  Threads that latch pages in the order of some rank, as a walk from parents to children does,
  never all wait for each other.
\<close>

definition ordered_waits :: "(page_id \<Rightarrow> nat) \<Rightarrow> page_ref list \<Rightarrow> bool" where
  "ordered_waits rank rs \<longleftrightarrow> (\<forall>h \<in> set rs. \<forall>w \<in> set rs. rf_thread h = rf_thread w \<longrightarrow> latched (rf_stage h)
     \<longrightarrow> pending (rf_stage w) \<longrightarrow> rank (rf_page h) < rank (rf_page w))"

lemma latches_progress:
  assumes inv: "latch_inv s" "one_call (lp_refs s)" and ord: "ordered_waits rank (lp_refs s)"
    and w: "w \<in> set (lp_refs s)" "pending (rf_stage w)"
  shows "\<exists>t s'. latch_look s t = Some s' \<or> latch_take s t = Some s' \<or> (\<exists>a pid. latch_release s t a pid = Some s')"
proof -
  let ?W = "{r \<in> set (lp_refs s). pending (rf_stage r)}"
  have "finite ((rank \<circ> rf_page) ` ?W)" "(rank \<circ> rf_page) ` ?W \<noteq> {}" using w by auto
  from Max_in [OF this] obtain m where m: "m \<in> ?W" "rank (rf_page m) = Max ((rank \<circ> rf_page) ` ?W)" by auto
  have top: "rank (rf_page r) \<le> rank (rf_page m)" if "r \<in> ?W" for r
    unfolding m(2) using that by (intro Max_ge) auto
  show ?thesis
  proof (cases "rf_stage m")
    case Pinned
    with look_possible [OF inv(1)] m show ?thesis by blast
  next
    case (Found i)
    show ?thesis
    proof (cases "latch_lock (rf_access m) (lp_latches s ! i)")
      case None
      obtain h where h: "h \<in> set (lp_refs s)" "rf_stage h = Latched i" "rf_page h = rf_page m"
        by (rule blocked_by_holder [OF inv(1) _ Found None]) (use m in auto)
      have "idle s (rf_thread h)"
      proof (rule ccontr)
        assume "\<not> idle s (rf_thread h)"
        then obtain r where r: "r \<in> ?W" "rf_thread r = rf_thread h" by (auto simp: idle_def)
        with ord h have "rank (rf_page h) < rank (rf_page r)" by (auto simp: ordered_waits_def)
        with top [OF r(1)] h(3) show False by simp
      qed
      with release_possible [OF inv(1) h(1)] h(2) show ?thesis by auto
    next
      case (Some l)
      with take_possible [OF inv _ Found] m show ?thesis by auto
    qed
  qed (use m in auto)
qed

text \<open>While fewer pages are in use than there are frames, a frame can be given up.\<close>

lemma evictable_few:
  assumes inv: "latch_inv s" and few: "length (lp_refs s) < MAX_FRAMES"
  shows "evictable (lp_pager s)"
proof (rule ccontr)
  assume full: "\<not> evictable (lp_pager s)"
  note I = latch_invD [OF inv]
  have len: "length (pg_frames (lp_pager s)) = MAX_FRAMES" and c: "cache_ok (lp_pager s)"
    using I(1) by (simp_all add: pager_ok_def cache_ok_def)
  have "i \<in> rf_frame ` set (lp_refs s)" if "i < MAX_FRAMES" for i
  proof -
    let ?q = "fr_page_id (pg_frames (lp_pager s) ! i)"
    have f: "fr_valid (pg_frames (lp_pager s) ! i)" "fr_pin (pg_frames (lp_pager s) ! i) \<noteq> 0"
      using full that len by (auto simp: evictable_def)
    have h: "holds (lp_pager s) i ?q" using f(1) that len by (simp add: holds_def)
    have "0 < pins (lp_pager s) ?q" using pins_holds [OF c h] f(2) by (simp add: unat_gt_0)
    then have "0 < page_refs (lp_refs s) ?q" using I(3) by simp
    then obtain r where r: "r \<in> set (lp_refs s)" "rf_page r = ?q" by (auto simp: page_refs_def filter_empty_conv)
    with I(4) [OF r(1)] cache_ok_unique [OF c h, of "rf_frame r"] show ?thesis by (force simp: ref_ok_def)
  qed
  then have "{..<MAX_FRAMES} \<subseteq> rf_frame ` set (lp_refs s)" by blast
  from card_mono [OF _ this] have "MAX_FRAMES \<le> card (rf_frame ` set (lp_refs s))" by simp
  also have "\<dots> \<le> length (lp_refs s)" using card_image_le card_length le_trans by blast
  finally show False using few by simp
qed

text \<open>A latching call gets to its wait while fewer pages are in use than there are frames.\<close>

lemma latch_fetch_look:
  assumes inv: "latch_inv s" and room: "latch_room s (n + 2)" and pid: "pid \<noteq> 0" and idle: "idle s t"
    and few: "length (lp_refs s) < MAX_FRAMES" and a: "a \<noteq> Plain"
  shows "\<exists>s' i. latch_run s [Fetch t a pid, Look t] = Some s' \<and> latch_inv s' \<and> latch_room s' n
    \<and> lp_refs s' = \<lparr>rf_thread = t, rf_access = a, rf_page = pid, rf_frame = i, rf_stage = Found i\<rparr> # lp_refs s
    \<and> pg_page_size (lp_pager s') = pg_page_size (lp_pager s)"
proof -
  let ?p = "lp_pager s"
  note I = latch_invD [OF inv]
  have tr: "tick_room ?p (Suc (n + 1))" and len: "length (lp_refs s) + (n + 2) < 2 ^ 32"
    using room by (simp_all add: latch_room_def)
  have pn: "pins ?p pid < 2 ^ 32 - 1" using page_refs_le [of "lp_refs s" pid] len I(3) by simp
  from pager_get_page_ok [OF I(1) pid _ tr pn] evictable_few [OF inv few] obtain i p' where
    g: "pager_get_page ?p pid = Some (int i, p')" "pager_ok p'" "holds p' i pid" by blast
  let ?r = "\<lambda>st. \<lparr>rf_thread = t, rf_access = a, rf_page = pid, rf_frame = i, rf_stage = st\<rparr>"
  define s1 where "s1 = s\<lparr>lp_pager := p', lp_refs := ?r Pinned # lp_refs s\<rparr>"
  have st1: "latch_step s (Fetch t a pid) = Some s1" using g(1) idle a by (simp add: latch_fetch_def s1_def)
  have f: "find_frame p' pid = Some (int i)" using g find_frame_ok(1) by (simp add: pager_ok_def)
  define s2 where "s2 = s1\<lparr>lp_refs := ?r (Found i) # lp_refs s\<rparr>"
  have st2: "latch_step s1 (Look t) = Some s2"
    using f by (simp add: latch_look_def s1_def s2_def extract_Cons_code)
  have r12: "latch_run s [Fetch t a pid, Look t] = Some s2" using st1 st2 by simp
  have "step_keeps s s2 n"
    by (rule latch_run_keeps [OF inv _ _ r12]) (use room pid in \<open>simp_all add: add.commute\<close>)
  with r12 show ?thesis by (auto simp: step_keeps_def s2_def)
qed

text \<open>Nobody having latched the page, it gets its latch.\<close>

lemma latch_call_possible:
  assumes inv: "latch_inv s" and room: "latch_room s (n + 3)" and pid: "pid \<noteq> 0" and idle: "idle s t"
    and few: "length (lp_refs s) < MAX_FRAMES" and a: "a \<noteq> Plain"
    and free: "\<forall>r \<in> set (lp_refs s). rf_page r \<noteq> pid"
  shows "\<exists>s' i. latch_run s [Fetch t a pid, Look t, Take t] = Some s' \<and> latch_inv s' \<and> latch_room s' n
    \<and> lp_refs s' = \<lparr>rf_thread = t, rf_access = a, rf_page = pid, rf_frame = i, rf_stage = Latched i\<rparr> # lp_refs s
    \<and> pg_page_size (lp_pager s') = pg_page_size (lp_pager s)"
proof -
  have "latch_room s (Suc n + 2)" using room by (simp add: numeral_3_eq_3)
  from latch_fetch_look [OF inv this pid idle few a] obtain s2 i where
    r: "latch_run s [Fetch t a pid, Look t] = Some s2" and inv2: "latch_inv s2" "latch_room s2 (Suc n)"
    and refs: "lp_refs s2 = \<lparr>rf_thread = t, rf_access = a, rf_page = pid, rf_frame = i, rf_stage = Found i\<rparr> # lp_refs s"
    and ps: "pg_page_size (lp_pager s2) = pg_page_size (lp_pager s)" by blast
  let ?r = "\<lambda>st. \<lparr>rf_thread = t, rf_access = a, rf_page = pid, rf_frame = i, rf_stage = st\<rparr>"
  have "latch_lock a (lp_latches s2 ! i) \<noteq> None"
  proof
    assume "latch_lock a (lp_latches s2 ! i) = None"
    then obtain h where h: "h \<in> set (lp_refs s2)" "rf_stage h = Latched i" "rf_page h = pid"
      using blocked_by_holder [OF inv2(1), of "?r (Found i)" i] refs by auto
    have "h \<noteq> ?r (Found i)" using h(2) by auto
    with h(1,3) free refs show False by auto
  qed
  then obtain l where l: "latch_lock a (lp_latches s2 ! i) = Some l" by blast
  define s3 where "s3 = s2\<lparr>lp_latches := (lp_latches s2)[i := l], lp_refs := ?r (Latched i) # lp_refs s\<rparr>"
  have st3: "latch_step s2 (Take t) = Some s3"
    using l refs by (simp add: latch_take_def s3_def extract_Cons_code)
  have "latch_run s [Fetch t a pid, Look t, Take t] = Some s3" using r st3 by (auto split: option.splits)
  moreover have "step_keeps s2 s3 n" by (rule latch_step_keeps [OF inv2 _ st3]) simp
  ultimately show ?thesis using ps by (auto simp: step_keeps_def s3_def)
qed

text \<open>So an undisturbed call of \<open>pager_get_page_wlatch\<close> does the three steps.\<close>

lemma pager_get_page_wlatch_run:
  assumes "latch_run s [Fetch t Wlatch pid, Look t, Take t] = Some s'"
  shows "pager_get_page_wlatch s t pid = Some s'"
  using assms
  by (auto simp: pager_get_page_wlatch_def idle_def latch_look_def split: option.splits dest!: extract_split)

lemma pager_get_page_rlatch_run:
  assumes "latch_run s [Fetch t Rlatch pid, Look t, Take t] = Some s'"
  shows "pager_get_page_rlatch s t pid = Some s'"
  using assms
  by (auto simp: pager_get_page_rlatch_def idle_def latch_look_def split: option.splits dest!: extract_split)

lemma edit_possible:
  assumes inv: "latch_inv s" and idle: "idle s t" and b: "length b = unat (pg_page_size (lp_pager s))"
    and r: "r \<in> set (lp_refs s)" "rf_thread r = t" "rf_access r = Wlatch" "rf_page r = pid" "latched (rf_stage r)"
  shows "\<exists>s'. latch_edit s t pid b = Some s'"
proof -
  obtain xs q ys where e: "List.extract (\<lambda>r. rf_thread r = t \<and> rf_access r = Wlatch \<and> rf_page r = pid
    \<and> latched (rf_stage r)) (lp_refs s) = Some (xs, q, ys)"
    by (rule extract_some [OF r(1), where P = "\<lambda>r. rf_thread r = t \<and> rf_access r = Wlatch \<and> rf_page r = pid
      \<and> latched (rf_stage r)"]) (use r(2-) in simp_all)
  from extract_split [OF e] latch_invD(4) [OF inv, of q] have "holds (lp_pager s) (rf_frame q) pid"
    by (auto simp: ref_ok_def)
  from frame_store_mark_dirty [OF latch_invD(1) [OF inv] this b] e idle show ?thesis
    by (auto simp: latch_edit_def)
qed

section \<open>Crossed waits\<close>

text \<open>
  Without such an order two threads can wait for each other: one has a latch on a page and waits
  for one on another page, where a second thread has a write latch and waits for the first page.
\<close>

definition waits :: "page_ref \<Rightarrow> bool" where
  "waits r \<longleftrightarrow> pending (rf_stage r) \<and> rf_stage r \<noteq> Pinned"

definition crossed :: "page_ref list \<Rightarrow> page_ref \<Rightarrow> page_ref \<Rightarrow> page_ref \<Rightarrow> page_ref \<Rightarrow> bool" where
  "crossed rs h w h' w' \<longleftrightarrow> {h, w, h', w'} \<subseteq> set rs
     \<and> rf_thread w = rf_thread h \<and> rf_thread w' = rf_thread h'
     \<and> latched (rf_stage h) \<and> latched (rf_stage h') \<and> waits w \<and> waits w'
     \<and> rf_page w = rf_page h' \<and> rf_page w' = rf_page h
     \<and> rf_access h' = Wlatch \<and> rf_access w' = Wlatch"

lemma take_blocked:
  assumes inv: "latch_inv s" "one_call (lp_refs s)" and w: "w \<in> set (lp_refs s)" "waits w"
    and h: "h \<in> set (lp_refs s)" "latched (rf_stage h)" "rf_page h = rf_page w"
    and conflict: "rf_access h = Wlatch \<or> rf_access w = Wlatch"
  shows "latch_take s (rf_thread w) = None"
proof -
  note I = latch_invD [OF inv(1)]
  have c: "cache_ok (lp_pager s)" using I(1) by (simp add: pager_ok_def)
  obtain i where i: "rf_stage w = Found i" using w(2) by (cases "rf_stage w") (auto simp: waits_def)
  have hw: "holds (lp_pager s) i (rf_page w)" using I(4) [OF w(1)] i by (simp add: ref_ok_def)
  have hh: "holds (lp_pager s) (rf_frame h) (rf_page w)" "rf_stage h = Latched (rf_frame h)" "rf_access h \<noteq> Plain"
    using I(4) [OF h(1)] h(2,3) by (auto simp: ref_ok_def latched_iff)
  have "rf_frame h = i" using cache_ok_unique [OF c hh(1) hw] .
  then have n: "0 < latch_refs (lp_refs s) (rf_access h) i" using latch_refs_pos [OF h(1)] hh(2) by simp
  have "i < MAX_FRAMES" using hw c by (simp add: holds_def cache_ok_def)
  from I(5) [OF this] n conflict hh(3) have l: "latch_lock (rf_access w) (lp_latches s ! i) = None"
    by (cases "rf_access h") (auto simp: lock_agrees_def latch_lock_def rwlock_wrlock_def rwlock_rdlock_def of_bool_def split: if_splits)
  show ?thesis
  proof (cases "List.extract (\<lambda>r. rf_thread r = rf_thread w \<and> pending (rf_stage r)) (lp_refs s)")
    case (Some z)
    then obtain xs q ys where z: "List.extract (\<lambda>r. rf_thread r = rf_thread w \<and> pending (rf_stage r)) (lp_refs s)
      = Some (xs, q, ys)" by (cases z) auto
    from extract_split [OF z] one_call_same [OF inv(2), of q w] w i have "q = w" by auto
    with z i l show ?thesis by (simp add: latch_take_def)
  qed (simp add: latch_take_def)
qed

lemma waiting_ref_stays:
  assumes r: "r \<in> set (lp_refs s)" "waits r" and e: "e \<noteq> Take (rf_thread r)" and step: "latch_step s e = Some s'"
  shows "r \<in> set (lp_refs s')"
proof -
  have "\<not> latched (rf_stage r)" "rf_stage r \<noteq> Pinned" "rf_stage r \<noteq> Bare"
    using r(2) by (cases "rf_stage r"; simp add: waits_def)+
  with r(1) e step show ?thesis
    by (cases e) (auto simp: latch_fetch_def latch_look_def latch_take_def latch_release_def latch_unpin_def latch_edit_def
      split: option.splits stage.splits if_splits dest!: extract_split)
qed

lemma touch_needs_idle: "touches t q e \<Longrightarrow> latch_step s e = Some s' \<Longrightarrow> idle s t"
  by (cases e) (auto simp: latch_release_def latch_edit_def split: option.splits if_splits)

lemma crossed_step:
  assumes inv: "latch_inv s" "one_call (lp_refs s)" and x: "crossed (lp_refs s) h w h' w'"
    and step: "latch_step s e = Some s'"
  shows "crossed (lp_refs s') h w h' w'"
proof -
  have m: "h \<in> set (lp_refs s)" "w \<in> set (lp_refs s)" "h' \<in> set (lp_refs s)" "w' \<in> set (lp_refs s)"
    and t: "rf_thread w = rf_thread h" "rf_thread w' = rf_thread h'"
    and st: "latched (rf_stage h)" "latched (rf_stage h')" "waits w" "waits w'"
    and pg: "rf_page w = rf_page h'" "rf_page w' = rf_page h" "rf_access h' = Wlatch" "rf_access w' = Wlatch"
    using x by (auto simp: crossed_def)
  have "\<not> idle s (rf_thread h)" "\<not> idle s (rf_thread h')"
    using m(2,4) t st(3,4) by (auto simp: idle_def waits_def)
  then have "\<not> touches (rf_thread h) q e" "\<not> touches (rf_thread h') q e" for q
    using touch_needs_idle step by blast+
  then have k: "h \<in> set (lp_refs s')" "h' \<in> set (lp_refs s')"
    using latched_ref_stays [OF m(1) st(1) _ step] latched_ref_stays [OF m(3) st(2) _ step] by blast+
  have "latch_take s (rf_thread w) = None" "latch_take s (rf_thread w') = None"
    using take_blocked [OF inv m(2) st(3) m(3) st(2)] take_blocked [OF inv m(4) st(4) m(1) st(1)] pg by simp_all
  then have "e \<noteq> Take (rf_thread w)" "e \<noteq> Take (rf_thread w')" using step by auto
  with waiting_ref_stays [OF m(2) st(3) _ step] waiting_ref_stays [OF m(4) st(4) _ step] k x
  show ?thesis by (auto simp: crossed_def)
qed

lemma crossed_run:
  assumes "latch_inv s" "one_call (lp_refs s)" "latch_room s (length es + n)"
    and "\<forall>e \<in> set es. event_ok (pg_page_size (lp_pager s)) e"
    and "crossed (lp_refs s) h w h' w'" "latch_run s es = Some s'"
  shows "crossed (lp_refs s') h w h' w'"
  using assms
proof (induction es arbitrary: s)
  case Nil
  then show ?case by simp
next
  case (Cons e es)
  then obtain s1 where s1: "latch_step s e = Some s1" "latch_run s1 es = Some s'" by (auto split: option.splits)
  have "step_keeps s s1 (length es + n)"
    by (rule latch_step_keeps [OF Cons.prems(1) _ _ s1(1)]) (use Cons.prems(3,4) in simp_all)
  then have k: "latch_inv s1" "latch_room s1 (length es + n)" "pg_page_size (lp_pager s1) = pg_page_size (lp_pager s)"
    by (simp_all add: step_keeps_def)
  show ?case
    by (rule Cons.IH [OF k(1) one_call_step [OF Cons.prems(2) s1(1)] k(2) _ _ s1(2)])
      (use Cons.prems(4) k(3) crossed_step [OF Cons.prems(1,2,5) s1(1)] in simp_all)
qed

end
