(* ===== verification/Storage_Props.thy ===== *)
theory Storage_Props
  imports Heap_Contract Schema Pager_Durable Page_Latch
begin

text \<open>
  The properties of the storage layer: what the heap table, the row format and the page cache
  promise to the layers above, each with a concrete case where it applies.
\<close>

section \<open>The heap table\<close>

text \<open>
  C14: Inserting any list of rows of the table's row size into an empty heap succeeds, hands out
  distinct references, and a scan afterwards reports exactly these rows, each once, under its
  reference.
\<close>

theorem heap_holds_inserted_rows:
  assumes "heap_models row_size s (length rows + n) (\<lambda>_. None)" "\<forall>row \<in> set rows. length row = unat row_size"
  shows "\<exists>refs s' l. insert_rows (\<lambda>s row. heap_insert s row row_size) s rows = Some (refs, s')
    \<and> heap_collect s' row_size = Some l \<and> distinct refs \<and> length refs = length rows
    \<and> mset l = mset (zip refs rows)"
  by (rule hp.ins_all_scan [OF assms])

theorem heap_holds_inserted_rows_witness:
  "\<exists>refs s' l. insert_rows (\<lambda>s row. heap_insert s row 8) demo_store (replicate 20 [1, 2, 3, 4, 5, 6, 7, 8]) = Some (refs, s')
    \<and> heap_collect s' 8 = Some l \<and> distinct refs \<and> length refs = length (replicate 20 [1, 2, 3, 4, 5, 6, 7, 8 :: 8 word])
    \<and> mset l = mset (zip refs (replicate 20 [1, 2, 3, 4, 5, 6, 7, 8]))"
  using heap_holds_inserted_rows [of 8 demo_store "replicate 20 [1, 2, 3, 4, 5, 6, 7, 8]" 80] demo_models by simp

text \<open>
  An insertion into a well formed heap with room for a row in a page returns a fresh
  reference, adds exactly that row to the table, keeps the heap and the store well formed, touches
  no page outside the heap and changes nothing of the header but the allocation fields.
\<close>

theorem heap_insert_adds_row:
  assumes "store_ok s fl" "heap_ok s fl rs chain" "room s 1"
    and "length row = rs" "rs = unat row_size" "0 < rs" "24 + rs \<le> unat (st_page_size s)"
  shows "\<exists>ref s' fl' chain'. heap_insert s row row_size = Some (ref, s')
    \<and> store_ok s' fl' \<and> heap_ok s' fl' rs chain'
    \<and> heap_rows s rs chain ref = None \<and> heap_rows s' rs chain' = (heap_rows s rs chain)(ref \<mapsto> row)
    \<and> (\<forall>p. p \<notin> set chain' \<longrightarrow> st_pages s' p = st_pages s p) \<and> hdr_frame (st_hdr s) (st_hdr s')"
  using heap_insert_correct [OF assms] by (auto simp: inserted_def)

theorem heap_insert_adds_row_witness:
  "\<exists>ref s' fl' chain'. heap_insert demo_store (replicate 8 7) 8 = Some (ref, s')
    \<and> store_ok s' fl' \<and> heap_ok s' fl' 8 chain'
    \<and> heap_rows demo_store 8 [1] ref = None \<and> heap_rows s' 8 chain' = (heap_rows demo_store 8 [1])(ref \<mapsto> replicate 8 7)
    \<and> (\<forall>p. p \<notin> set chain' \<longrightarrow> st_pages s' p = st_pages demo_store p) \<and> hdr_frame (st_hdr demo_store) (st_hdr s')"
  by (rule heap_insert_adds_row [OF demo_store_ok demo_heap_ok]) (simp_all add: room_def demo_store_def)

text \<open>
  Deleting a live row succeeds, removes that row and no other from what scans and lookups
  see, and every other row is still fetched with its contents.
\<close>

theorem heap_delete_removes_row:
  assumes "heap_models row_size s n m" "m ref = Some row"
  shows "\<exists>s' l. heap_delete s ref = (True, s') \<and> heap_collect s' row_size = Some l \<and> map_of l = m(ref := None)
    \<and> (\<forall>q e. q \<noteq> ref \<longrightarrow> m q = Some e \<longrightarrow> heap_get row_size s' q = Some e)"
  by (rule hp.del_scan [OF assms])

theorem heap_delete_removes_row_witness:
  "\<exists>s ref s' l. heap_insert demo_store (replicate 8 7) 8 = Some (ref, s)
    \<and> heap_delete s ref = (True, s') \<and> heap_collect s' 8 = Some l \<and> map_of l = (\<lambda>_. None)"
proof -
  obtain ref s where s: "heap_insert demo_store (replicate 8 7) 8 = Some (ref, s)"
    "heap_models 8 s 99 ((\<lambda>_. None)(ref \<mapsto> replicate 8 7))"
    using hp.ins_ok [of 8 demo_store 99 "\<lambda>_. None" "replicate 8 7"] demo_models by auto
  from heap_delete_removes_row [OF s(2), of ref] s(1) show ?thesis by auto
qed

text \<open>
  C40: When a slot and a row together do not fit into a page next to the page header,
  \<open>heap_insert\<close> does not return: it keeps appending pages that are too small.
\<close>

theorem heap_insert_wide_row_diverges:
  assumes "store_ok s fl" "heap_ok s fl rs chain"
    and "rs = unat row_size" "rs + 8 < 65536" "unat (st_page_size s) < 24 + rs"
  shows "heap_insert s row row_size = None"
  by (rule heap_insert_too_wide [OF assms])

theorem heap_insert_wide_row_diverges_witness: "heap_insert demo_store (replicate 48 7) 48 = None"
  by (rule heap_insert_wide_row_diverges [OF demo_store_ok demo_heap_ok refl]) (simp_all add: demo_store_def)

section \<open>Rows\<close>


definition users_header :: db_header where
  "users_header = (initial_header 4096)\<lparr>hd_column_count := 3, hd_row_size := 44, hd_columns :=
     [\<lparr>cm_name = ''id'', cm_type = COL_TYPE_BIGINT, cm_size = 8, cm_offset = 0, cm_is_system = 1\<rparr>,
      \<lparr>cm_name = ''name'', cm_type = COL_TYPE_VARCHAR, cm_size = 32, cm_offset = 8, cm_is_system = 0\<rparr>,
      \<lparr>cm_name = ''age'', cm_type = COL_TYPE_INT, cm_size = 4, cm_offset = 40, cm_is_system = 0\<rparr>]
     @ replicate 13 \<lparr>cm_name = [], cm_type = 0, cm_size = 0, cm_offset = 0, cm_is_system = 0\<rparr>\<rparr>"

lemma users_header_simps:
  "unat (hd_column_count users_header) = 3" "length (hd_columns users_header) = 16" "unat (hd_row_size users_header) = 44"
  "take 3 (hd_columns users_header) =
     [\<lparr>cm_name = ''id'', cm_type = COL_TYPE_BIGINT, cm_size = 8, cm_offset = 0, cm_is_system = 1\<rparr>,
      \<lparr>cm_name = ''name'', cm_type = COL_TYPE_VARCHAR, cm_size = 32, cm_offset = 8, cm_is_system = 0\<rparr>,
      \<lparr>cm_name = ''age'', cm_type = COL_TYPE_INT, cm_size = 4, cm_offset = 40, cm_is_system = 0\<rparr>]"
  by (simp_all add: users_header_def)

lemma users_schema_ok: "schema_ok users_header"
  by (simp add: schema_ok_def users_header_simps col_sized_def)

lemma value_ok_pad: "length d < 256 \<Longrightarrow> value_ok (pad_value d)"
  by (simp add: value_ok_def pad_value_def ROW_VALUE_SIZE_def)


text \<open>
  What a row read back keeps of the values stored: the number of an INT or BIGINT column
  exactly, the string of a VARCHAR column of size n cut to its first n - 1 characters.
\<close>

theorem stored_value_meaning:
  assumes "schema_ok hdr" "length vs = unat (hd_column_count hdr)" "\<forall>v \<in> set vs. value_ok v"
    and "row_serialize hdr vs = Some buf" "row_deserialize hdr buf = Some ws" "i < length vs" "c = hd_columns hdr ! i"
  shows "(cm_type c = COL_TYPE_INT \<longrightarrow> int_val (ws ! i) = int_val (vs ! i))
    \<and> (cm_type c = COL_TYPE_BIGINT \<longrightarrow> bigint_val (ws ! i) = bigint_val (vs ! i))
    \<and> (cm_type c = COL_TYPE_VARCHAR \<longrightarrow> str_val (ws ! i) = take (unat (cm_size c) - 1) (str_val (vs ! i)))"
proof -
  have n: "unat (hd_column_count hdr) \<le> length (hd_columns hdr)" using assms(1) by (simp add: schema_ok_def)
  have "ws = map2 canonical (hd_columns hdr) vs" using row_store_load_eq [OF assms(1,2,3)] assms(4,5) by auto
  then have w: "ws ! i = canonical c (vs ! i)" using assms(2,6,7) n by simp
  have c: "col_sized c" by (rule schema_ok_sized [OF assms(1)]) (use assms(2,6,7) in simp_all)
  have "value_ok (vs ! i)" using assms(3,6) by simp
  with w c show ?thesis using canonical_int canonical_bigint canonical_varchar by metis
qed

theorem stored_value_meaning_witness:
  "\<exists>buf ws. row_serialize users_header (map pad_value [[1], [65, 108], [25]]) = Some buf
    \<and> row_deserialize users_header buf = Some ws \<and> bigint_val (ws ! 0) = 1 \<and> int_val (ws ! 2) = 25"
proof -
  let ?vs = "map pad_value [[1], [65, 108], [25]]"
  have ok: "length ?vs = unat (hd_column_count users_header)" "\<forall>v \<in> set ?vs. value_ok v"
    using value_ok_pad by (simp_all add: users_header_simps)
  from row_store_load_eq [OF users_schema_ok ok] obtain buf ws
    where b: "row_serialize users_header ?vs = Some buf" "row_deserialize users_header buf = Some ws" by auto
  have v: "bigint_val (pad_value [1]) = 1" "int_val (pad_value [25]) = 25" by code_simp+
  have t: "cm_type (hd_columns users_header ! 0) = COL_TYPE_BIGINT" "cm_type (hd_columns users_header ! 2) = COL_TYPE_INT"
    by (simp_all add: users_header_def)
  from stored_value_meaning [OF users_schema_ok ok b, of 0] stored_value_meaning [OF users_schema_ok ok b, of 2] b t v
  show ?thesis by auto
qed

text \<open>
  The layout \<open>schema_compute_layout\<close> computes for sized columns whose sizes add up to less
  than 64 KiB is well formed: consecutive, disjoint, in declaration order, of that total size.
\<close>

theorem computed_layout_well_formed:
  assumes "unat (hd_column_count hdr) \<le> length (hd_columns hdr)"
    and "\<forall>c \<in> set (take (unat (hd_column_count hdr)) (hd_columns hdr)). col_sized c"
    and "sum_list (map (unat \<circ> cm_size) (take (unat (hd_column_count hdr)) (hd_columns hdr))) < 65536"
  shows "\<exists>n hdr'. schema_compute_layout hdr = Some (n, hdr') \<and> schema_ok hdr' \<and> hd_row_size hdr' = n
    \<and> unat n = sum_list (map (unat \<circ> cm_size) (take (unat (hd_column_count hdr)) (hd_columns hdr)))"
  using schema_compute_layout_ok [OF assms] by blast

theorem computed_layout_well_formed_witness:
  "\<exists>n hdr'. schema_compute_layout users_header = Some (n, hdr') \<and> schema_ok hdr' \<and> unat n = 44"
  using computed_layout_well_formed [of users_header] by (auto simp: users_header_simps col_sized_def)

text \<open>
  Column sizes the parser accepts but the row format does not: with a \<open>VARCHAR(0)\<close> column
  serialising a row is undefined, and with a \<open>VARCHAR(n)\<close>, n at least 256, reading one is.
\<close>

theorem varchar_size_undefined:
  assumes "active_columns hdr = Some cols" "c \<in> set cols" "cm_type c = COL_TYPE_VARCHAR"
  shows "(cm_size c = 0 \<longrightarrow> row_serialize hdr vs = None) \<and> (256 \<le> cm_size c \<longrightarrow> row_deserialize hdr buf = None)"
  using varchar_size_limits [OF assms] by blast

definition wide_header :: db_header where
  "wide_header = (initial_header 4096)\<lparr>hd_column_count := 1, hd_row_size := 300, hd_columns :=
     \<lparr>cm_name = ''text'', cm_type = COL_TYPE_VARCHAR, cm_size = 300, cm_offset = 0, cm_is_system = 0\<rparr>
     # replicate 15 \<lparr>cm_name = [], cm_type = 0, cm_size = 0, cm_offset = 0, cm_is_system = 0\<rparr>\<rparr>"

theorem varchar_size_undefined_witness: "row_deserialize wide_header (replicate 300 65) = None"
proof -
  let ?c = "\<lparr>cm_name = ''text'', cm_type = COL_TYPE_VARCHAR, cm_size = 300, cm_offset = 0, cm_is_system = 0\<rparr>"
  have "active_columns wide_header = Some [?c]" by (simp add: active_columns_def wide_header_def)
  from varchar_size_undefined [OF this, of ?c] show ?thesis by simp
qed

section \<open>The page cache\<close>

definition demo_pager :: pager where
  "demo_pager = new_pager (\<lambda>_. 0) 1024 (initial_header 1024)"

lemma demo_pager_ok: "pager_ok demo_pager" "pins demo_pager q = 0" "tick_room demo_pager 1000"
  using new_pager_ok [of 1024] by (simp_all add: demo_pager_def DB_HEADER_SIZE_value tick_room_def) (simp add: new_pager_def)

lemma demo_pager_ready: "pid \<noteq> 0 \<Longrightarrow> ready demo_pager pid"
  using demo_pager_ok by (intro ready_quiescent)

text \<open>
  C24: \<open>pager_get_page\<close> returns the page with the contents clients last gave it, whether cached or
  on disk, adds one pin to it, and changes neither the contents nor the pins of any other page;
  in particular no pinned page is evicted.
\<close>

theorem get_page_transparent:
  assumes "pager_ok p" "ready p pid" "tick_room p (Suc n)"
  shows "\<exists>i p'. pager_get_page p pid = Some (int i, p') \<and> pager_ok p' \<and> holds p' i pid
    \<and> fr_data (pg_frames p' ! i) = view p pid \<and> view p' = view p \<and> pins p' = (pins p)(pid := pins p pid + 1)"
  using pager_get_page_ok [OF assms(1) _ _ assms(3), of pid] assms(2) by (auto simp: ready_def)

theorem get_page_transparent_witness:
  "\<exists>i p'. pager_get_page demo_pager 5 = Some (int i, p') \<and> pager_ok p' \<and> holds p' i 5
    \<and> fr_data (pg_frames p' ! i) = view demo_pager 5 \<and> view p' = view demo_pager
    \<and> pins p' = (pins demo_pager)(5 := pins demo_pager 5 + 1)"
  using get_page_transparent [OF demo_pager_ok(1) demo_pager_ready, of 5 999] demo_pager_ok(3) by simp

text \<open>
  Updating a page through the cache, with its fetch, its possible eviction and watermark
  flush, its dirty mark and its unpin, is one replacement of that page in the abstract store.
\<close>

theorem update_refines_store:
  assumes "pager_ok p" "ready p pid" "tick_room p (Suc n)" "length (g (view p pid)) = unat (pg_page_size p)"
  shows "\<exists>p'. pager_update p pid g = Some p' \<and> pager_ok p' \<and> pins p' = pins p
    \<and> abs_store p' = st_put (abs_store p) pid (g (st_pages (abs_store p) pid))"
  using pager_update_refines [where g = g, OF assms] by blast

theorem update_refines_store_witness:
  "\<exists>p'. pager_update demo_pager 5 (map (\<lambda>b. b + 1)) = Some p' \<and> pager_ok p' \<and> pins p' = pins demo_pager
    \<and> abs_store p' = st_put (abs_store demo_pager) 5 (map (\<lambda>b. b + 1) (st_pages (abs_store demo_pager) 5))"
  using update_refines_store [OF demo_pager_ok(1) demo_pager_ready, of 5 999 "map (\<lambda>b. b + 1)"] demo_pager_ok(3)
    view_length [OF demo_pager_ok(1), of 5] by simp

text \<open>
  C25: Allocating a page through the cache, recycled from the free list or new, is the abstract
  store's allocation and gives back the page the abstract store gives back; freeing a page is its
  release.
\<close>

theorem alloc_free_refine_store:
  assumes "pager_ok p" "tick_room p (Suc n)"
  shows "(\<forall>pid s'. st_alloc (abs_store p) = (pid, s') \<longrightarrow> ready p pid \<longrightarrow>
      (\<exists>p'. pager_alloc_page p = Some (pid, p') \<and> pager_ok p' \<and> abs_store p' = s' \<and> pins p' = pins p))
    \<and> (\<forall>pid. ready p pid \<longrightarrow>
      (\<exists>p'. pager_free_page p pid = Some p' \<and> pager_ok p' \<and> abs_store p' = st_free (abs_store p) pid \<and> pins p' = pins p))"
  using pager_alloc_refines [OF assms(1) _ _ assms(2)] pager_free_refines [OF assms(1) _ assms(2)] by blast

theorem alloc_free_refine_store_witness:
  "(\<exists>p'. pager_alloc_page demo_pager = Some (3, p') \<and> abs_store p' = snd (st_alloc (abs_store demo_pager)))
    \<and> (\<exists>p'. pager_free_page demo_pager 7 = Some p' \<and> abs_store p' = st_free (abs_store demo_pager) 7)"
proof -
  have "fst (st_alloc (abs_store demo_pager)) = 3"
    by (simp add: st_alloc_def abs_store_def demo_pager_def new_pager_def initial_header_def Let_def)
  then have "st_alloc (abs_store demo_pager) = (3, snd (st_alloc (abs_store demo_pager)))" by (metis prod.collapse)
  with alloc_free_refine_store [OF demo_pager_ok(1), of 999] demo_pager_ok(3) demo_pager_ready [of 3] demo_pager_ready [of 7]
  show ?thesis by fastforce
qed

text \<open>
  C26: The page evicted from a full cache is unpinned and has the least access tick of the
  unpinned ones, and its contents are in the file when its frame is given away.
\<close>

theorem eviction_lru_writes_back:
  assumes "pager_ok p" "\<forall>f \<in> set (pg_frames p). fr_valid f" "evict_frame p = Some (int i, p')"
  shows "fr_pin (pg_frames p ! i) = 0
    \<and> (\<forall>f \<in> set (pg_frames p). fr_pin f = 0 \<longrightarrow> fr_tick (pg_frames p ! i) \<le> fr_tick f)
    \<and> raw_read p' (fr_page_id (pg_frames p ! i)) = fr_data (pg_frames p ! i)"
  using evict_frame_victim [OF assms] by blast

text \<open>A full cache: frame i holds page i + 1, which was accessed at tick i.\<close>

definition full_pager :: pager where
  "full_pager = demo_pager\<lparr>pg_frames := map (\<lambda>i. \<lparr>fr_page_id = word_of_nat (i + 1), fr_valid = True, fr_dirty = True,
      fr_pin = 0, fr_tick = word_of_nat i, fr_next = -1, fr_data = replicate 1024 1\<rparr>) [0..<MAX_FRAMES],
    pg_buckets := map (\<lambda>b. if 0 < b \<and> b \<le> MAX_FRAMES then int b - 1 else -1) [0..<FRAME_HASH_BUCKETS],
    pg_tick := 1000\<rparr>"

lemma full_pager_ok: "pager_ok full_pager"
proof -
  have len: "length (pg_frames full_pager) = MAX_FRAMES" by (simp add: full_pager_def)
  have fr: "pg_frames full_pager ! i = \<lparr>fr_page_id = word_of_nat (i + 1), fr_valid = True, fr_dirty = True,
      fr_pin = 0, fr_tick = word_of_nat i, fr_next = -1, fr_data = replicate 1024 1\<rparr>" if "i < MAX_FRAMES" for i
    using that by (simp add: full_pager_def)
  have u: "unat (word_of_nat k :: u32) = k" if "k \<le> MAX_FRAMES" for k
    using that by (intro unat_of_nat_small) (simp add: MAX_FRAMES_def)
  have pid: "unat (word_of_nat (Suc i) :: u32) = Suc i" if "i < MAX_FRAMES" for i
    using u [of "Suc i"] that by (simp del: of_nat_Suc)
  have V: "valid_frames (pg_frames full_pager) = {..<MAX_FRAMES}"
    using fr len by (auto simp: valid_frames_def)
  have buck: "in_bucket (pg_frames full_pager) {..<MAX_FRAMES} b = (if 0 < b \<and> b \<le> MAX_FRAMES then {b - 1} else {})" for b
    using fr pid u by (auto simp: in_bucket_def frame_bucket_def FRAME_HASH_BUCKETS_def MAX_FRAMES_def simp del: of_nat_Suc)
  have "index_ok (pg_frames full_pager) (pg_buckets full_pager) {..<MAX_FRAMES}"
    unfolding index_ok_def
  proof (intro conjI allI impI)
    show "length (pg_buckets full_pager) = FRAME_HASH_BUCKETS" by (simp add: full_pager_def)
    fix b assume b: "b < FRAME_HASH_BUCKETS"
    then have h: "pg_buckets full_pager ! b = (if 0 < b \<and> b \<le> MAX_FRAMES then int b - 1 else -1)"
      by (simp add: full_pager_def)
    show "\<exists>is. frame_chain (pg_frames full_pager) (pg_buckets full_pager ! b) is \<and> distinct is
        \<and> set is = in_bucket (pg_frames full_pager) {..<MAX_FRAMES} b"
    proof (cases "0 < b \<and> b \<le> MAX_FRAMES")
      case True
      then show ?thesis unfolding buck h
        by (intro exI [of _ "[b - 1]"]) (auto simp: len fr of_nat_diff)
    next
      case False
      then show ?thesis unfolding buck h by (intro exI [of _ "[]"]) auto
    qed
  qed (simp add: len)
  moreover have "inj_on (\<lambda>i. fr_page_id (pg_frames full_pager ! i)) {..<MAX_FRAMES}"
  proof (rule inj_onI)
    fix i j assume "i \<in> {..<MAX_FRAMES}" "j \<in> {..<MAX_FRAMES}"
      "fr_page_id (pg_frames full_pager ! i) = fr_page_id (pg_frames full_pager ! j)"
    then show "i = j" using fr pid by (auto simp del: of_nat_Suc) (metis Suc_inject)
  qed
  ultimately have "cache_ok full_pager" by (simp add: cache_ok_def len V)
  moreover have "frame_ok full_pager (pg_frames full_pager ! i)" if "i < MAX_FRAMES" for i
  proof -
    have "(word_of_nat (Suc i) :: u32) \<noteq> 0" using pid [OF that] by (metis unat_0 nat.distinct(1))
    moreover have "(word_of_nat i :: u64) \<le> 1000"
      using that by (simp add: word_le_nat_alt unat_of_nat_small MAX_FRAMES_def)
    moreover have "unat (pg_page_size full_pager) = 1024" "pg_tick full_pager = 1000"
      by (simp_all add: full_pager_def demo_pager_def new_pager_def)
    ultimately show ?thesis using fr [OF that] by (simp add: frame_ok_def)
  qed
  ultimately show ?thesis
    by (simp add: pager_ok_def) (simp add: full_pager_def demo_pager_def new_pager_def DB_HEADER_SIZE_value word_less_nat_alt
        unsigned_minus_1_eq_mask mask_eq_exp_minus_1)
qed

theorem eviction_lru_writes_back_witness:
  "\<exists>i p'. evict_frame full_pager = Some (int i, p') \<and> fr_pin (pg_frames full_pager ! i) = 0
    \<and> (\<forall>f \<in> set (pg_frames full_pager). fr_pin f = 0 \<longrightarrow> fr_tick (pg_frames full_pager ! i) \<le> fr_tick f)
    \<and> raw_read p' (fr_page_id (pg_frames full_pager ! i)) = fr_data (pg_frames full_pager ! i)"
proof -
  have v: "\<forall>f \<in> set (pg_frames full_pager). fr_valid f" by (simp add: full_pager_def)
  have "evictable full_pager" by (simp add: evictable_def full_pager_def MAX_FRAMES_def) (rule exI [of _ 0], simp)
  with evict_frame_ok [OF full_pager_ok] obtain i p' where "evict_frame full_pager = Some (int i, p')" by blast
  with eviction_lru_writes_back [OF full_pager_ok v this] show ?thesis by blast
qed

text \<open>
  The watermark flush ends with at most the target number of dirty pages, unless the dirty
  ones left are all pinned, and it changes no page's contents.
\<close>

theorem watermark_flush_reaches_target:
  assumes "pager_ok p"
  shows "view (pager_flush_dirty p t) = view p
    \<and> (count_dirty (pager_flush_dirty p t) \<le> unat t
       \<or> (\<forall>f \<in> set (pg_frames (pager_flush_dirty p t)). fr_valid f \<and> fr_dirty f \<longrightarrow> fr_pin f \<noteq> 0))"
  using flush_loop_ok [OF assms, of "count_dirty p" "unat t"] pager_flush_dirty_target [OF assms, of t]
  by (auto simp: pager_flush_dirty_def flushable_def)

theorem watermark_flush_reaches_target_witness:
  "view (pager_flush_dirty full_pager 16) = view full_pager
    \<and> (count_dirty (pager_flush_dirty full_pager 16) \<le> 16
       \<or> (\<forall>f \<in> set (pg_frames (pager_flush_dirty full_pager 16)). fr_valid f \<and> fr_dirty f \<longrightarrow> fr_pin f \<noteq> 0))"
  using watermark_flush_reaches_target [OF full_pager_ok, of 16] by simp

text \<open>
  C16: Closing the database and opening the file again gives every page its last contents, the
  same header, the last page of the heap chain and the right free-slot hint, with nothing pinned.
\<close>

theorem close_reopen_durable:
  assumes "pager_ok p" "header_fits (pg_header p)" "hd_magic (pg_header p) = DB_MAGIC"
    and "hd_page_size (pg_header p) = pg_page_size p"
    and "heap_chain (view p) (hd_first_heap_page_id (pg_header p)) chain" "chain \<noteq> []" "length chain < 2 ^ 64 - 1"
  shows "\<exists>p'. pager_reopen (pager_close p) = Some (Some p') \<and> pager_ok p' \<and> pg_header p' = pg_header p
    \<and> (\<forall>pid. pid \<noteq> 0 \<longrightarrow> view p' pid = view p pid) \<and> (\<forall>pid. pins p' pid = 0) \<and> pg_last_heap p' = last chain
    \<and> (pg_free_hint p' \<longleftrightarrow> (\<exists>q \<in> set chain. hph_free_slot_head (get_heap_hdr (view p q)) \<noteq> SLOT_NONE))"
  using pager_reopen_restores [OF assms] by blast

theorem close_reopen_durable_witness:
  "\<exists>p'. pager_reopen (pager_close demo_pager) = Some (Some p') \<and> pager_ok p' \<and> pg_header p' = pg_header demo_pager
    \<and> (\<forall>pid. pid \<noteq> 0 \<longrightarrow> view p' pid = view demo_pager pid) \<and> (\<forall>pid. pins p' pid = 0) \<and> pg_last_heap p' = last [1]
    \<and> (pg_free_hint p' \<longleftrightarrow> (\<exists>q \<in> set [1]. hph_free_slot_head (get_heap_hdr (view demo_pager q)) \<noteq> SLOT_NONE))"
proof (rule close_reopen_durable)
  show "pager_ok demo_pager" by (rule demo_pager_ok)
  show "header_fits (pg_header demo_pager)" "hd_magic (pg_header demo_pager) = DB_MAGIC"
    "hd_page_size (pg_header demo_pager) = pg_page_size demo_pager"
    by (simp_all add: demo_pager_def new_pager_def initial_header_def header_fits_def column_fits_def cstr_fits_def
        DB_MAGIC_def)
  have z: "disk_read (\<lambda>_. 0) off n = replicate n 0" for off n by (simp add: disk_read_def map_replicate_const)
  have n: "hph_next_heap_page_id (get_heap_hdr (replicate n 0)) = 0" for n
    by (simp add: get_heap_hdr_def rd32_def mread_def)
  have "view demo_pager 1 = disk_read (\<lambda>_. 0) (unat (1 :: u32) * unat (1024 :: u32)) (unat (1024 :: u32))"
    unfolding demo_pager_def by (rule new_pager_ok) (simp_all add: DB_HEADER_SIZE_value)
  then have "hph_next_heap_page_id (get_heap_hdr (view demo_pager 1)) = 0"
    unfolding z by (simp only: n)
  then show "heap_chain (view demo_pager) (hd_first_heap_page_id (pg_header demo_pager)) [1]"
    by (simp add: demo_pager_def new_pager_def initial_header_def)
qed simp_all

section \<open>Page latches\<close>



















end
