(* ===== verification/BPlus_Node.thy ===== *)
theory BPlus_Node
  imports Page_Store "HOL-Library.Monad_Syntax"
begin

text \<open>
  Nodes of the B+ tree index (\<open>src/storage/bptree.c\<close>): the capacities, the binary searches and
  the operations on one node's page. The entry arrays are lists; a shift of array elements is the
  list operation it amounts to. \<open>node_view\<close> is what the algorithms read of a page: the parent
  and previous-leaf numbers are written but never read, and are not part of it.
\<close>

section \<open>Capacities\<close>

definition max_leaf_keys :: "u32 \<Rightarrow> u32" where "max_leaf_keys page_size = (page_size - 20) div 14"
definition max_internal_keys :: "u32 \<Rightarrow> u32" where "max_internal_keys page_size = (page_size - 16) div 12"
definition min_leaf_keys :: "u32 \<Rightarrow> u32" where "min_leaf_keys page_size = max_leaf_keys page_size div 2"
definition min_internal_keys :: "u32 \<Rightarrow> u32" where "min_internal_keys page_size = max_internal_keys page_size div 2"

definition leaf_entries :: "bytes \<Rightarrow> nat \<Rightarrow> leaf_entry list" where
  "leaf_entries page n = get_array get_leaf_entry 14 page 20 n"

definition internal_entries :: "bytes \<Rightarrow> nat \<Rightarrow> internal_entry list" where
  "internal_entries page n = get_array get_internal_entry 12 page 16 n"

section \<open>Binary search\<close>

text \<open>The loop of \<open>leaf_find\<close> and \<open>internal_find\<close>, which differ in the comparison.\<close>

function bsearch :: "(u64 \<Rightarrow> bool) \<Rightarrow> u64 list \<Rightarrow> nat \<Rightarrow> nat \<Rightarrow> nat" where
  "bsearch small ks lo hi =
     (if lo < hi then
        let mid = (lo + hi) div 2
        in if small (ks ! mid) then bsearch small ks (mid + 1) hi else bsearch small ks lo mid
      else lo)"
  by pat_completeness auto
termination by (relation "measure (\<lambda>(small, ks, lo, hi). hi - lo)") auto

declare bsearch.simps [simp del]

definition leaf_find :: "leaf_entry list \<Rightarrow> u64 \<Rightarrow> nat" where
  "leaf_find entries key = bsearch (\<lambda>k. k < key) (map le_key entries) 0 (length entries)"

definition internal_find :: "internal_entry list \<Rightarrow> u64 \<Rightarrow> nat" where
  "internal_find entries key = bsearch (\<lambda>k. k \<le> key) (map ie_key entries) 0 (length entries)"

text \<open>On a list where the test holds of a prefix, the search returns that prefix's length.\<close>

lemma bsearch_prefix:
  assumes "\<And>i. i < n \<Longrightarrow> small (ks ! i)" "\<And>i. n \<le> i \<Longrightarrow> i < length ks \<Longrightarrow> \<not> small (ks ! i)"
    and "lo \<le> n" "n \<le> hi" "hi \<le> length ks"
  shows "bsearch small ks lo hi = n"
  using assms
proof (induction small ks lo hi rule: bsearch.induct)
  case (1 small ks lo hi)
  show ?case
  proof (cases "lo < hi")
    case False
    with 1 show ?thesis by (simp add: bsearch.simps [of small ks lo hi])
  next
    case True
    let ?mid = "(lo + hi) div 2"
    have m: "lo \<le> ?mid" "?mid < hi" using True by auto
    show ?thesis
    proof (cases "small (ks ! ?mid)")
      case b: True
      then have "?mid < n" using 1 m by (meson leI less_le_trans)
      with 1(1) [OF True refl b] 1(3-) True b show ?thesis
        by (simp add: bsearch.simps [of small ks lo hi] Let_def)
    next
      case b: False
      then have "n \<le> ?mid" using 1(3) by (meson leI)
      with 1(2) [OF True refl b] 1(3-) True b m show ?thesis
        by (simp add: bsearch.simps [of small ks lo hi] Let_def)
    qed
  qed
qed

lemma takeWhile_length_iff:
  assumes "sorted_wrt (\<lambda>x y. P y \<longrightarrow> P x) xs" "i < length xs"
  shows "P (xs ! i) \<longleftrightarrow> i < length (takeWhile P xs)"
  using assms
proof (induction xs arbitrary: i)
  case Nil
  then show ?case by simp
next
  case (Cons x xs)
  then show ?case by (cases i) auto
qed

lemma bsearch_takeWhile:
  assumes "sorted_wrt (\<lambda>x y. P y \<longrightarrow> P x) ks"
  shows "bsearch P ks 0 (length ks) = length (takeWhile P ks)"
proof (rule bsearch_prefix)
  note le = length_takeWhile_le [of P ks]
  fix i
  show "i < length (takeWhile P ks) \<Longrightarrow> P (ks ! i)"
    using le takeWhile_length_iff [OF assms, of i] by simp
  show "length (takeWhile P ks) \<le> i \<Longrightarrow> i < length ks \<Longrightarrow> \<not> P (ks ! i)"
    using takeWhile_length_iff [OF assms, of i] by simp
qed (simp_all add: length_takeWhile_le)

text \<open>
  On sorted keys \<open>leaf_find\<close> counts the smaller keys and \<open>internal_find\<close> the keys not greater.
\<close>

theorem leaf_find_sorted:
  assumes "sorted_wrt (<) (map le_key es)"
  shows "leaf_find es key = length (takeWhile (\<lambda>k. k < key) (map le_key es))"
proof -
  have "sorted_wrt (\<lambda>x y. y < key \<longrightarrow> x < key) (map le_key es)"
    using assms by (rule sorted_wrt_mono_rel [rotated]) auto
  from bsearch_takeWhile [OF this] show ?thesis by (simp add: leaf_find_def)
qed

theorem internal_find_sorted:
  assumes "sorted_wrt (<) (map ie_key es)"
  shows "internal_find es key = length (takeWhile (\<lambda>k. k \<le> key) (map ie_key es))"
proof -
  have "sorted_wrt (\<lambda>x y. y \<le> key \<longrightarrow> x \<le> key) (map ie_key es)"
    using assms by (rule sorted_wrt_mono_rel [rotated]) auto
  from bsearch_takeWhile [OF this] show ?thesis by (simp add: internal_find_def)
qed

section \<open>Operations on a node's page\<close>

definition write_leaf :: "bytes \<Rightarrow> leaf_page_header \<Rightarrow> leaf_entry list \<Rightarrow> bytes" where
  "write_leaf page lph es = mwrite (mwrite page 20 (put_array put_leaf_entry es)) 0 (put_leaf_hdr lph)"

definition write_internal :: "bytes \<Rightarrow> internal_page_header \<Rightarrow> internal_entry list \<Rightarrow> bytes" where
  "write_internal page iph es = mwrite (mwrite page 16 (put_array put_internal_entry es)) 0 (put_internal_hdr iph)"

definition list_insert :: "nat \<Rightarrow> 'a \<Rightarrow> 'a list \<Rightarrow> 'a list" where
  "list_insert i x xs = take i xs @ x # drop i xs"

definition list_remove :: "nat \<Rightarrow> 'a list \<Rightarrow> 'a list" where
  "list_remove i xs = take i xs @ drop (Suc i) xs"

definition leaf_insert_entry :: "bytes \<Rightarrow> leaf_page_header \<Rightarrow> u64 \<Rightarrow> row_ref \<Rightarrow> bytes" where
  "leaf_insert_entry page lph key ref =
     (let entries = leaf_entries page (unat (lph_key_count lph));
          idx = leaf_find entries key
      in write_leaf page (lph\<lparr>lph_key_count := lph_key_count lph + 1\<rparr>)
           (list_insert idx \<lparr>le_key = key, le_row_ref = ref\<rparr> entries))"

definition delete_entry_from_leaf :: "bytes \<Rightarrow> leaf_page_header \<Rightarrow> nat \<Rightarrow> bytes" where
  "delete_entry_from_leaf page lph idx =
     write_leaf page (lph\<lparr>lph_key_count := lph_key_count lph - 1\<rparr>)
       (list_remove idx (leaf_entries page (unat (lph_key_count lph))))"

definition delete_entry_from_internal :: "bytes \<Rightarrow> internal_page_header \<Rightarrow> nat \<Rightarrow> bytes" where
  "delete_entry_from_internal page iph idx =
     write_internal page (iph\<lparr>iph_key_count := iph_key_count iph - 1\<rparr>)
       (list_remove idx (internal_entries page (unat (iph_key_count iph))))"

text \<open>\<open>memcpy(page + 4, &pid, 4)\<close>: both node headers have the parent's number at offset 4.\<close>

definition set_parent :: "bytes \<Rightarrow> page_id \<Rightarrow> bytes" where
  "set_parent page pid = mwrite page 4 (wr32 pid)"

definition set_prev_leaf :: "bytes \<Rightarrow> page_id \<Rightarrow> bytes" where
  "set_prev_leaf page pid = mwrite page 0 (put_leaf_hdr ((get_leaf_hdr page)\<lparr>lph_prev_leaf := pid\<rparr>))"

definition internal_child :: "bytes \<Rightarrow> nat \<Rightarrow> page_id" where
  "internal_child page idx =
     (let iph = get_internal_hdr page in
      if idx = 0 then iph_leftmost_child iph
      else ie_right_child (internal_entries page (unat (iph_key_count iph)) ! (idx - 1)))"

definition internal_child_for_key :: "bytes \<Rightarrow> u64 \<Rightarrow> page_id" where
  "internal_child_for_key page key =
     internal_child page (internal_find (internal_entries page (unat (iph_key_count (get_internal_hdr page)))) key)"

section \<open>What a page says as a node\<close>

datatype node = LeafN page_id "leaf_entry list" | InnerN "u64 list" "page_id list"

definition leaf_node :: "bytes \<Rightarrow> node" where
  "leaf_node page = (let h = get_leaf_hdr page in LeafN (lph_next_leaf h) (leaf_entries page (unat (lph_key_count h))))"

definition inner_node :: "bytes \<Rightarrow> node" where
  "inner_node page =
     (let h = get_internal_hdr page; es = internal_entries page (unat (iph_key_count h))
      in InnerN (map ie_key es) (iph_leftmost_child h # map ie_right_child es))"

definition node_view :: "bytes \<Rightarrow> node" where
  "node_view page = (if page_type page = PAGE_TYPE_LEAF then leaf_node page else inner_node page)"

lemma page_type_hdr:
  "page_type page = lph_page_type (get_leaf_hdr page)" "page_type page = iph_page_type (get_internal_hdr page)"
  by (simp_all add: page_type_def get_leaf_hdr_def get_internal_hdr_def)

lemma length_put_leaf_entries: "length (put_array put_leaf_entry es) = length es * 14"
  by (simp add: leaf_entry.length_put_array)

lemma length_put_internal_entries: "length (put_array put_internal_entry es) = length es * 12"
  by (simp add: internal_entry.length_put_array)

lemma length_write_leaf: "20 + length es * 14 \<le> length b \<Longrightarrow> length (write_leaf b h es) = length b"
  by (simp add: write_leaf_def length_mwrite leaf_hdr.length_enc length_put_leaf_entries)

lemma length_write_internal: "16 + length es * 12 \<le> length b \<Longrightarrow> length (write_internal b h es) = length b"
  by (simp add: write_internal_def length_mwrite internal_hdr.length_enc length_put_internal_entries)

lemma get_write_leaf:
  assumes "20 + length es * 14 \<le> length b"
  shows "get_leaf_hdr (write_leaf b h es) = h" and "leaf_entries (write_leaf b h es) (length es) = es"
proof -
  let ?c = "mwrite b 20 (put_array put_leaf_entry es)"
  have len: "length ?c = length b" using assms by (simp add: length_mwrite length_put_leaf_entries)
  show "get_leaf_hdr (write_leaf b h es) = h"
    using leaf_hdr.load_store [where off = 0 and b = ?c and x = h] assms len by (simp add: write_leaf_def)
  have "leaf_entries (write_leaf b h es) (length es) = leaf_entries ?c (length es)"
    unfolding leaf_entries_def write_leaf_def
    using assms len by (intro leaf_entry.get_array_other) (auto simp: leaf_hdr.length_enc)
  also have "\<dots> = es"
    unfolding leaf_entries_def using assms by (intro leaf_entry.get_put_array) auto
  finally show "leaf_entries (write_leaf b h es) (length es) = es" .
qed

lemma get_write_internal:
  assumes "16 + length es * 12 \<le> length b"
  shows "get_internal_hdr (write_internal b h es) = h" and "internal_entries (write_internal b h es) (length es) = es"
proof -
  let ?c = "mwrite b 16 (put_array put_internal_entry es)"
  have len: "length ?c = length b" using assms by (simp add: length_mwrite length_put_internal_entries)
  show "get_internal_hdr (write_internal b h es) = h"
    using internal_hdr.load_store [where off = 0 and b = ?c and x = h] assms len by (simp add: write_internal_def)
  have "internal_entries (write_internal b h es) (length es) = internal_entries ?c (length es)"
    unfolding internal_entries_def write_internal_def
    using assms len by (intro internal_entry.get_array_other) (auto simp: internal_hdr.length_enc)
  also have "\<dots> = es"
    unfolding internal_entries_def using assms by (intro internal_entry.get_put_array) auto
  finally show "internal_entries (write_internal b h es) (length es) = es" .
qed

lemma node_view_write_leaf:
  assumes "20 + length es * 14 \<le> length b" "lph_page_type h = PAGE_TYPE_LEAF" "unat (lph_key_count h) = length es"
  shows "node_view (write_leaf b h es) = LeafN (lph_next_leaf h) es"
  using get_write_leaf [OF assms(1), of h] assms(2,3) by (simp add: node_view_def page_type_hdr(1) leaf_node_def Let_def)

lemma node_view_write_internal:
  assumes "16 + length es * 12 \<le> length b" "iph_page_type h = PAGE_TYPE_INTERNAL" "unat (iph_key_count h) = length es"
  shows "node_view (write_internal b h es) = InnerN (map ie_key es) (iph_leftmost_child h # map ie_right_child es)"
  using get_write_internal [OF assms(1), of h] assms(2,3)
  by (simp add: node_view_def page_type_hdr(2) inner_node_def Let_def)

section \<open>Pages that hold a node\<close>

definition leaf_cap :: "nat \<Rightarrow> nat" where "leaf_cap ps = (ps - 20) div 14"
definition inner_cap :: "nat \<Rightarrow> nat" where "inner_cap ps = (ps - 16) div 12"

definition node_at :: "nat \<Rightarrow> bytes \<Rightarrow> node \<Rightarrow> bool" where
  "node_at ps b N \<longleftrightarrow> length b = ps \<and> 20 \<le> ps \<and> node_view b = N
     \<and> (case N of LeafN nx es \<Rightarrow> page_type b = PAGE_TYPE_LEAF \<and> length es \<le> leaf_cap ps
          \<and> unat (lph_key_count (get_leaf_hdr b)) = length es
        | InnerN ks cps \<Rightarrow> page_type b = PAGE_TYPE_INTERNAL \<and> length ks \<le> inner_cap ps
          \<and> unat (iph_key_count (get_internal_hdr b)) = length ks)"

lemma leaf_cap_fits: "20 \<le> ps \<Longrightarrow> n \<le> leaf_cap ps \<longleftrightarrow> 20 + n * 14 \<le> ps"
  by (auto simp: leaf_cap_def less_eq_div_iff_mult_less_eq)

lemma inner_cap_fits: "16 \<le> ps \<Longrightarrow> n \<le> inner_cap ps \<longleftrightarrow> 16 + n * 12 \<le> ps"
  by (auto simp: inner_cap_def less_eq_div_iff_mult_less_eq)

lemma unat_max_keys:
  assumes "20 \<le> unat (ps :: u32)"
  shows "unat (max_leaf_keys ps) = leaf_cap (unat ps)" and "unat (max_internal_keys ps) = inner_cap (unat ps)"
proof -
  have "unat (ps - 20) = unat ps - 20" "unat (ps - 16) = unat ps - 16"
    using assms by (subst unat_sub; simp add: word_le_nat_alt)+
  then show "unat (max_leaf_keys ps) = leaf_cap (unat ps)" "unat (max_internal_keys ps) = inner_cap (unat ps)"
    by (simp_all add: max_leaf_keys_def max_internal_keys_def leaf_cap_def inner_cap_def unat_div)
qed

lemma node_at_leafD:
  assumes "node_at ps b (LeafN nx es)"
  shows "length b = ps" "lph_next_leaf (get_leaf_hdr b) = nx" "unat (lph_key_count (get_leaf_hdr b)) = length es"
    "leaf_entries b (length es) = es" "lph_page_type (get_leaf_hdr b) = PAGE_TYPE_LEAF" "length es \<le> leaf_cap ps"
    "page_type b = PAGE_TYPE_LEAF" "20 \<le> ps"
  using assms by (auto simp: node_at_def node_view_def leaf_node_def Let_def simp flip: page_type_hdr)

lemma node_at_innerD:
  assumes "node_at ps b (InnerN ks cps)"
  shows "length b = ps" "unat (iph_key_count (get_internal_hdr b)) = length ks"
    "map ie_key (internal_entries b (length ks)) = ks"
    "iph_leftmost_child (get_internal_hdr b) # map ie_right_child (internal_entries b (length ks)) = cps"
    "iph_page_type (get_internal_hdr b) = PAGE_TYPE_INTERNAL" "length ks \<le> inner_cap ps"
    "page_type b = PAGE_TYPE_INTERNAL" "20 \<le> ps" "length cps = Suc (length ks)"
proof -
  show I: "length b = ps" "unat (iph_key_count (get_internal_hdr b)) = length ks"
    "map ie_key (internal_entries b (length ks)) = ks"
    "iph_leftmost_child (get_internal_hdr b) # map ie_right_child (internal_entries b (length ks)) = cps"
    "iph_page_type (get_internal_hdr b) = PAGE_TYPE_INTERNAL" "length ks \<le> inner_cap ps"
    "page_type b = PAGE_TYPE_INTERNAL" "20 \<le> ps"
    using assms by (auto simp: node_at_def node_view_def inner_node_def Let_def simp flip: page_type_hdr)
  have "length (internal_entries b (length ks)) = length ks" by (simp add: internal_entries_def)
  then show "length cps = Suc (length ks)" using I(4) by auto
qed

lemma node_at_write_leaf:
  assumes "length b = ps" "20 \<le> ps" "length es \<le> leaf_cap ps" "lph_page_type h = PAGE_TYPE_LEAF"
    and "unat (lph_key_count h) = length es"
  shows "node_at ps (write_leaf b h es) (LeafN (lph_next_leaf h) es)"
proof -
  have f: "20 + length es * 14 \<le> length b" using assms by (simp add: leaf_cap_fits)
  then show ?thesis
    using assms get_write_leaf(1) [OF f, of h] node_view_write_leaf [OF f assms(4,5)]
    by (simp add: node_at_def length_write_leaf page_type_hdr(1))
qed

lemma node_at_write_internal:
  assumes "length b = ps" "20 \<le> ps" "length es \<le> inner_cap ps" "iph_page_type h = PAGE_TYPE_INTERNAL"
    and "unat (iph_key_count h) = length es"
  shows "node_at ps (write_internal b h es) (InnerN (map ie_key es) (iph_leftmost_child h # map ie_right_child es))"
proof -
  have f: "16 + length es * 12 \<le> length b" using assms by (simp add: inner_cap_fits)
  then show ?thesis
    using assms get_write_internal(1) [OF f, of h] node_view_write_internal [OF f assms(4,5)]
    by (simp add: node_at_def length_write_internal page_type_hdr(2))
qed

text \<open>Writes to the parent field, to the previous-leaf field and past the entries.\<close>

lemma rd32_mwrite_other:
  "off + length d \<le> length b \<Longrightarrow> o2 + 4 \<le> length b \<Longrightarrow> o2 + 4 \<le> off \<or> off + length d \<le> o2
   \<Longrightarrow> rd32 (mwrite b off d) o2 = rd32 b o2"
  by (simp add: rd32_def mread_mwrite_disjoint)

lemma leaf_entries_other:
  "20 + n * 14 \<le> length b \<Longrightarrow> off + length d \<le> length b \<Longrightarrow> off + length d \<le> 20 \<or> 20 + n * 14 \<le> off
   \<Longrightarrow> leaf_entries (mwrite b off d) n = leaf_entries b n"
  unfolding leaf_entries_def by (intro leaf_entry.get_array_other) auto

lemma internal_entries_other:
  "16 + n * 12 \<le> length b \<Longrightarrow> off + length d \<le> length b \<Longrightarrow> off + length d \<le> 16 \<or> 16 + n * 12 \<le> off
   \<Longrightarrow> internal_entries (mwrite b off d) n = internal_entries b n"
  unfolding internal_entries_def by (intro internal_entry.get_array_other) auto

lemma node_at_hdr_write:
  assumes n: "node_at ps b N" and d: "off + length d \<le> ps"
    and place: "off = 4 \<and> length d = 4
      \<or> (case N of LeafN nx es \<Rightarrow> 20 + length es * 14 | InnerN ks cps \<Rightarrow> 16 + length ks * 12) \<le> off"
  shows "node_at ps (mwrite b off d) N"
proof (cases N)
  case (LeafN nx es)
  note L = node_at_leafD [OF n [unfolded LeafN]]
  have f: "20 + length es * 14 \<le> ps" using L(6,8) by (simp add: leaf_cap_fits)
  let ?b = "mwrite b off d"
  have pl: "off = 4 \<and> length d = 4 \<or> 20 + length es * 14 \<le> off" using place LeafN by simp
  have len: "length ?b = ps" using d L(1) by (simp add: length_mwrite)
  have "rd32 ?b 0 = rd32 b 0" "rd32 ?b 8 = rd32 b 8" "rd32 ?b 12 = rd32 b 12"
    using pl d L(1,8) f by (auto intro!: rd32_mwrite_other)
  then have h: "lph_page_type (get_leaf_hdr ?b) = PAGE_TYPE_LEAF" "unat (lph_key_count (get_leaf_hdr ?b)) = length es"
    "lph_next_leaf (get_leaf_hdr ?b) = nx"
    using L(2,3,5) by (simp_all add: get_leaf_hdr_def)
  moreover have "leaf_entries ?b (length es) = es"
    using leaf_entries_other [of "length es" b off d] L(1,4) f d pl by auto
  ultimately show ?thesis
    using len L(6,8) by (simp add: node_at_def LeafN node_view_def leaf_node_def Let_def page_type_hdr(1))
next
  case (InnerN ks cps)
  note L = node_at_innerD [OF n [unfolded InnerN]]
  have f: "16 + length ks * 12 \<le> ps" using L(6,8) by (simp add: inner_cap_fits)
  let ?b = "mwrite b off d"
  have pl: "off = 4 \<and> length d = 4 \<or> 16 + length ks * 12 \<le> off" using place InnerN by simp
  have len: "length ?b = ps" using d L(1) by (simp add: length_mwrite)
  have "rd32 ?b 0 = rd32 b 0" "rd32 ?b 8 = rd32 b 8" "rd32 ?b 12 = rd32 b 12"
    using pl d L(1,8) f by (auto intro!: rd32_mwrite_other)
  then have h: "iph_page_type (get_internal_hdr ?b) = PAGE_TYPE_INTERNAL"
    "unat (iph_key_count (get_internal_hdr ?b)) = length ks"
    "iph_leftmost_child (get_internal_hdr ?b) = iph_leftmost_child (get_internal_hdr b)"
    using L(2,5) by (simp_all add: get_internal_hdr_def)
  moreover have "internal_entries ?b (length ks) = internal_entries b (length ks)"
    using internal_entries_other [of "length ks" b off d] L(1) f d pl by auto
  ultimately show ?thesis
    using len L(3,4,6,8) by (simp add: node_at_def InnerN node_view_def inner_node_def Let_def page_type_hdr(2))
qed

lemma node_at_set_parent: "node_at ps b N \<Longrightarrow> node_at ps (set_parent b x) N"
  unfolding set_parent_def by (rule node_at_hdr_write) (auto simp: node_at_def)

lemma length_set_parent [simp]: "8 \<le> length b \<Longrightarrow> length (set_parent b x) = length b"
  by (simp add: set_parent_def length_mwrite)

lemma length_set_prev_leaf [simp]: "20 \<le> length b \<Longrightarrow> length (set_prev_leaf b x) = length b"
  by (simp add: set_prev_leaf_def length_mwrite leaf_hdr.length_enc)

lemma node_at_set_prev_leaf:
  assumes "node_at ps b (LeafN nx es)"
  shows "node_at ps (set_prev_leaf b x) (LeafN nx es)"
proof -
  note L = node_at_leafD [OF assms]
  have f: "20 + length es * 14 \<le> ps" using L(6,8) by (simp add: leaf_cap_fits)
  let ?h = "(get_leaf_hdr b)\<lparr>lph_prev_leaf := x\<rparr>"
  have "get_leaf_hdr (set_prev_leaf b x) = ?h"
    using leaf_hdr.load_store [where off = 0 and b = b and x = ?h] L(1,8) by (simp add: set_prev_leaf_def)
  moreover have "leaf_entries (set_prev_leaf b x) (length es) = es"
    unfolding set_prev_leaf_def using leaf_entries_other [of "length es" b 0] L(1,4) f
    by (simp add: leaf_hdr.length_enc)
  ultimately show ?thesis
    using L by (simp add: node_at_def node_view_def leaf_node_def Let_def page_type_hdr(1))
qed

lemma node_at_zero_tail_leaf:
  assumes "node_at ps b (LeafN nx es)" "off = 20 + length es * 14" "off + length d \<le> ps"
  shows "node_at ps (mwrite b off d) (LeafN nx es)"
  by (rule node_at_hdr_write [OF assms(1,3)]) (simp add: assms(2))

lemma node_at_zero_tail_inner:
  assumes "node_at ps b (InnerN ks cps)" "off = 16 + length ks * 12" "off + length d \<le> ps"
  shows "node_at ps (mwrite b off d) (InnerN ks cps)"
  by (rule node_at_hdr_write [OF assms(1,3)]) (simp add: assms(2))

end
