(* ===== verification/BPlus_Tree.thy ===== *)
theory BPlus_Tree
  imports BPlus_Node
begin

text \<open>
  The operations of \<open>src/storage/bptree.c\<close> on the page store, in the order of the file: the
  descents, search, range scan, insertion with its splits, deletion with its borrows and merges,
  height. Latches and pins are the cache's business and leave no trace here, but the latch stack
  does: it is the list of pages from the last safe node down to the leaf, and splits and merges
  walk it upwards. A walk down a tree whose pages form a cycle does not end, hence the partial
  functions; \<open>None\<close> is not returning.
\<close>

section \<open>Descents\<close>

definition root_id :: "store \<Rightarrow> page_id" where
  "root_id s = hd_root_index_page_id (st_hdr s)"

partial_function (option) find_leaf_from :: "(page_id \<Rightarrow> bytes) \<Rightarrow> u64 \<Rightarrow> page_id \<Rightarrow> page_id option" where
  "find_leaf_from pages key pid =
     (if page_type (pages pid) = PAGE_TYPE_LEAF then Some pid
      else find_leaf_from pages key (internal_child_for_key (pages pid) key))"

definition find_leaf_rlatch :: "store \<Rightarrow> u64 \<Rightarrow> page_id option" where
  "find_leaf_rlatch s key = find_leaf_from (st_pages s) key (root_id s)"

partial_function (option) find_leftmost_from :: "(page_id \<Rightarrow> bytes) \<Rightarrow> page_id \<Rightarrow> page_id option" where
  "find_leftmost_from pages pid =
     (if page_type (pages pid) = PAGE_TYPE_LEAF then Some pid
      else find_leftmost_from pages (iph_leftmost_child (get_internal_hdr (pages pid))))"

definition find_leftmost_leaf_rlatch :: "store \<Rightarrow> page_id option" where
  "find_leftmost_leaf_rlatch s = find_leftmost_from (st_pages s) (root_id s)"

definition MAX_TREE_DEPTH :: nat where "MAX_TREE_DEPTH = 32"

definition ls_push :: "page_id list \<Rightarrow> page_id \<Rightarrow> page_id list" where
  "ls_push stack pid = (if length stack < MAX_TREE_DEPTH then stack @ [pid] else stack)"

text \<open>A safe node takes one more key without splitting, or loses one without merging.\<close>

definition safe_node :: "u32 \<Rightarrow> bool \<Rightarrow> bytes \<Rightarrow> bool" where
  "safe_node page_size is_insert page =
     (if is_insert then
        (if page_type page = PAGE_TYPE_LEAF then lph_key_count (get_leaf_hdr page) < max_leaf_keys page_size
         else iph_key_count (get_internal_hdr page) < max_internal_keys page_size)
      else
        (if page_type page = PAGE_TYPE_LEAF then lph_key_count (get_leaf_hdr page) > min_leaf_keys page_size
         else iph_key_count (get_internal_hdr page) > min_internal_keys page_size))"

partial_function (option) find_leaf_wlatch_from ::
  "(page_id \<Rightarrow> bytes) \<Rightarrow> u32 \<Rightarrow> bool \<Rightarrow> u64 \<Rightarrow> page_id \<Rightarrow> page_id list \<Rightarrow> (page_id \<times> page_id list) option" where
  "find_leaf_wlatch_from pages page_size is_insert key pid stack =
     (if page_type (pages pid) = PAGE_TYPE_LEAF then Some (pid, stack)
      else
        let child_pid = internal_child_for_key (pages pid) key;
            stack = (if safe_node page_size is_insert (pages child_pid) then [] else stack)
        in find_leaf_wlatch_from pages page_size is_insert key child_pid (ls_push stack child_pid))"

definition find_leaf_wlatch :: "store \<Rightarrow> bool \<Rightarrow> u64 \<Rightarrow> (page_id \<times> page_id list) option" where
  "find_leaf_wlatch s is_insert key =
     find_leaf_wlatch_from (st_pages s) (st_page_size s) is_insert key (root_id s) (ls_push [] (root_id s))"

section \<open>Search and range scan\<close>

definition bptree_search :: "store \<Rightarrow> u64 \<Rightarrow> row_ref option option" where
  "bptree_search s key =
     (case find_leaf_rlatch s key of
        None \<Rightarrow> None
      | Some pid \<Rightarrow>
          let page = st_pages s pid;
              entries = leaf_entries page (unat (lph_key_count (get_leaf_hdr page)));
              idx = leaf_find entries key
          in Some (if idx < length entries \<and> le_key (entries ! idx) = key
                   then Some (le_row_ref (entries ! idx)) else None))"

text \<open>Visiting entries until the upper bound or the callback stops the scan.\<close>

fun scan_entries :: "bool \<Rightarrow> u64 \<Rightarrow> bool \<Rightarrow> (u64 \<Rightarrow> row_ref \<Rightarrow> 'c \<Rightarrow> bool \<times> 'c) \<Rightarrow> 'c \<Rightarrow> leaf_entry list \<Rightarrow> bool \<times> 'c" where
  "scan_entries has_hi hi hi_inclusive cb ctx [] = (True, ctx)"
| "scan_entries has_hi hi hi_inclusive cb ctx (e # es) =
     (if has_hi \<and> (if hi_inclusive then le_key e > hi else le_key e \<ge> hi) then (False, ctx)
      else case cb (le_key e) (le_row_ref e) ctx of
        (go, ctx') \<Rightarrow> if go then scan_entries has_hi hi hi_inclusive cb ctx' es else (False, ctx'))"

partial_function (option) scan_leaves ::
  "(page_id \<Rightarrow> bytes) \<Rightarrow> bool \<Rightarrow> u64 \<Rightarrow> bool \<Rightarrow> (u64 \<Rightarrow> row_ref \<Rightarrow> 'c \<Rightarrow> bool \<times> 'c) \<Rightarrow> page_id \<Rightarrow> nat \<Rightarrow> 'c \<Rightarrow> 'c option" where
  "scan_leaves pages has_hi hi hi_inclusive cb pid idx ctx =
     (let page = pages pid;
          lph = get_leaf_hdr page;
          entries = leaf_entries page (unat (lph_key_count lph))
      in case scan_entries has_hi hi hi_inclusive cb ctx (drop idx entries) of
           (go, ctx') \<Rightarrow>
             if \<not> go \<or> lph_next_leaf lph = 0 then Some ctx'
             else scan_leaves pages has_hi hi hi_inclusive cb (lph_next_leaf lph) 0 ctx')"

definition skip_equal :: "leaf_entry list \<Rightarrow> u64 \<Rightarrow> nat \<Rightarrow> nat" where
  "skip_equal entries lo idx = idx + length (takeWhile (\<lambda>e. le_key e = lo) (drop idx entries))"

definition bptree_range_scan ::
  "store \<Rightarrow> bool \<Rightarrow> u64 \<Rightarrow> bool \<Rightarrow> bool \<Rightarrow> u64 \<Rightarrow> bool \<Rightarrow> (u64 \<Rightarrow> row_ref \<Rightarrow> 'c \<Rightarrow> bool \<times> 'c) \<Rightarrow> 'c \<Rightarrow> 'c option" where
  "bptree_range_scan s has_lo lo lo_inclusive has_hi hi hi_inclusive cb ctx =
     (case (if has_lo then find_leaf_rlatch s lo else find_leftmost_leaf_rlatch s) of
        None \<Rightarrow> None
      | Some pid \<Rightarrow>
          let page = st_pages s pid;
              entries = leaf_entries page (unat (lph_key_count (get_leaf_hdr page)));
              idx = (if has_lo then
                       let i = leaf_find entries lo in if lo_inclusive then i else skip_equal entries lo i
                     else 0)
          in scan_leaves (st_pages s) has_hi hi hi_inclusive cb pid idx ctx)"

section \<open>Insertion\<close>

definition update_child_parent :: "store \<Rightarrow> page_id \<Rightarrow> page_id \<Rightarrow> store" where
  "update_child_parent s child_pid parent_pid =
     st_put s child_pid (set_parent (st_pages s child_pid) parent_pid)"

text \<open>The part of \<open>propagate_insert\<close> that splits a full parent; returns the promoted key and the new page.\<close>

definition split_internal :: "store \<Rightarrow> page_id \<Rightarrow> u64 \<Rightarrow> page_id \<Rightarrow> u64 \<times> page_id \<times> store" where
  "split_internal s parent_pid cur_key cur_right =
     (let s = update_child_parent s cur_right parent_pid;
          pp = st_pages s parent_pid;
          iph = get_internal_hdr pp;
          entries = internal_entries pp (unat (iph_key_count iph));
          mk = unat (max_internal_keys (st_page_size s));
          tmp = list_insert (internal_find entries cur_key) \<lparr>ie_key = cur_key, ie_right_child = cur_right\<rparr> entries;
          total = length tmp;
          split = total div 2;
          promote_key = ie_key (tmp ! split);
          (new_pid, s) = st_alloc s;
          new_iph = \<lparr>iph_page_type = PAGE_TYPE_INTERNAL, iph_parent_page_id = iph_parent_page_id iph,
            iph_key_count = word_of_nat (total - split - 1), iph_leftmost_child = ie_right_child (tmp ! split)\<rparr>;
          s = st_put s new_pid (write_internal (page_zero s) new_iph (drop (split + 1) tmp));
          s = foldl (\<lambda>s c. update_child_parent s c new_pid) s
                (ie_right_child (tmp ! split) # map ie_right_child (drop (split + 1) tmp));
          pp = write_internal (st_pages s parent_pid) (iph\<lparr>iph_key_count := word_of_nat split\<rparr>) (take split tmp);
          s = st_put s parent_pid (mwrite pp (16 + split * 12) (replicate ((mk - split) * 12) 0))
      in (promote_key, new_pid, s))"

definition new_root :: "store \<Rightarrow> page_id \<Rightarrow> u64 \<Rightarrow> page_id \<Rightarrow> store" where
  "new_root s old_root cur_key cur_right =
     (let (root, s) = st_alloc s;
          root_iph = \<lparr>iph_page_type = PAGE_TYPE_INTERNAL, iph_parent_page_id = 0, iph_key_count = 1,
            iph_leftmost_child = old_root\<rparr>;
          s = st_put s root (write_internal (page_zero s) root_iph [\<lparr>ie_key = cur_key, ie_right_child = cur_right\<rparr>]);
          s = update_child_parent s old_root root;
          s = update_child_parent s cur_right root
      in s\<lparr>st_hdr := (st_hdr s)\<lparr>hd_root_index_page_id := root\<rparr>\<rparr>)"

fun propagate_insert :: "store \<Rightarrow> u64 \<Rightarrow> page_id \<Rightarrow> page_id list \<Rightarrow> nat \<Rightarrow> store" where
  "propagate_insert s cur_key cur_right stack 0 = new_root s (stack ! 0) cur_key cur_right"
| "propagate_insert s cur_key cur_right stack (Suc level) =
     (let parent_pid = stack ! level;
          pp = st_pages s parent_pid;
          iph = get_internal_hdr pp;
          entries = internal_entries pp (unat (iph_key_count iph))
      in if iph_key_count iph < max_internal_keys (st_page_size s) then
           let s = st_put s parent_pid (write_internal pp (iph\<lparr>iph_key_count := iph_key_count iph + 1\<rparr>)
                 (list_insert (internal_find entries cur_key) \<lparr>ie_key = cur_key, ie_right_child = cur_right\<rparr> entries))
           in update_child_parent s cur_right parent_pid
         else
           let (promote_key, new_pid, s) = split_internal s parent_pid cur_key cur_right
           in propagate_insert s promote_key new_pid stack level)"

text \<open>Splitting a full leaf; returns the promoted key and the new leaf.\<close>

definition split_leaf :: "store \<Rightarrow> page_id \<Rightarrow> u64 \<Rightarrow> row_ref \<Rightarrow> u64 \<times> page_id \<times> store" where
  "split_leaf s leaf_pid key ref =
     (let page = st_pages s leaf_pid;
          lph = get_leaf_hdr page;
          entries = leaf_entries page (unat (lph_key_count lph));
          mk = unat (max_leaf_keys (st_page_size s));
          tmp = list_insert (leaf_find entries key) \<lparr>le_key = key, le_row_ref = ref\<rparr> entries;
          total = length tmp;
          split = total div 2;
          (new_pid, s) = st_alloc s;
          new_lph = \<lparr>lph_page_type = PAGE_TYPE_LEAF, lph_parent_page_id = lph_parent_page_id lph,
            lph_key_count = word_of_nat (total - split), lph_next_leaf = lph_next_leaf lph, lph_prev_leaf = leaf_pid\<rparr>;
          s = st_put s new_pid (write_leaf (page_zero s) new_lph (drop split tmp));
          nxt = lph_next_leaf lph;
          s = (if nxt \<noteq> 0 then st_put s nxt (set_prev_leaf (st_pages s nxt) new_pid) else s);
          page = write_leaf (st_pages s leaf_pid)
            (lph\<lparr>lph_key_count := word_of_nat split, lph_next_leaf := new_pid\<rparr>) (take split tmp);
          s = st_put s leaf_pid (mwrite page (20 + split * 14) (replicate ((mk - split) * 14) 0))
      in (le_key (tmp ! split), new_pid, s))"

text \<open>Returns 0, or -1 for a key that is already there.\<close>

definition bptree_insert :: "store \<Rightarrow> u64 \<Rightarrow> row_ref \<Rightarrow> (int \<times> store) option" where
  "bptree_insert s key ref =
     (case find_leaf_wlatch s True key of
        None \<Rightarrow> None
      | Some (leaf_pid, stack) \<Rightarrow>
          let page = st_pages s leaf_pid;
              lph = get_leaf_hdr page;
              entries = leaf_entries page (unat (lph_key_count lph));
              idx = leaf_find entries key
          in if idx < length entries \<and> le_key (entries ! idx) = key then Some (-1, s)
             else if lph_key_count lph < max_leaf_keys (st_page_size s) then
               Some (0, st_put s leaf_pid (leaf_insert_entry page lph key ref))
             else
               let (promote_key, new_pid, s) = split_leaf s leaf_pid key ref
               in Some (0, propagate_insert s promote_key new_pid stack (length stack - 1)))"

section \<open>Deletion\<close>

definition find_child_idx :: "bytes \<Rightarrow> page_id \<Rightarrow> nat option" where
  "find_child_idx page child_pid =
     (let iph = get_internal_hdr page;
          children = map ie_right_child (internal_entries page (unat (iph_key_count iph)))
      in if iph_leftmost_child iph = child_pid then Some 0
         else if child_pid \<in> set children then Some (length (takeWhile (\<lambda>c. c \<noteq> child_pid) children) + 1)
         else None)"

definition set_separator :: "bytes \<Rightarrow> nat \<Rightarrow> u64 \<Rightarrow> bytes" where
  "set_separator page sep_idx key =
     (let iph = get_internal_hdr page; es = internal_entries page (unat (iph_key_count iph))
      in write_internal page iph (es[sep_idx := (es ! sep_idx)\<lparr>ie_key := key\<rparr>]))"

text \<open>Borrowing between internal nodes rotates a child through the parent's separator.\<close>

definition borrow_right_internal :: "store \<Rightarrow> page_id \<Rightarrow> page_id \<Rightarrow> page_id \<Rightarrow> nat \<Rightarrow> store" where
  "borrow_right_internal s node_pid rsib_pid parent_pid sep_idx =
     (let pp = st_pages s parent_pid; npage = st_pages s node_pid; rpage = st_pages s rsib_pid;
          niph = get_internal_hdr npage; riph = get_internal_hdr rpage;
          pentries = internal_entries pp (unat (iph_key_count (get_internal_hdr pp)));
          nentries = internal_entries npage (unat (iph_key_count niph));
          rentries = internal_entries rpage (unat (iph_key_count riph));
          moved_child = iph_leftmost_child riph;
          s = st_put s node_pid (write_internal npage (niph\<lparr>iph_key_count := iph_key_count niph + 1\<rparr>)
                (nentries @ [\<lparr>ie_key = ie_key (pentries ! sep_idx), ie_right_child = moved_child\<rparr>]));
          s = st_put s rsib_pid (write_internal rpage
                (riph\<lparr>iph_leftmost_child := ie_right_child (rentries ! 0), iph_key_count := iph_key_count riph - 1\<rparr>)
                (list_remove 0 rentries));
          s = st_put s parent_pid (set_separator pp sep_idx (ie_key (rentries ! 0)))
      in update_child_parent s moved_child node_pid)"

definition borrow_left_internal :: "store \<Rightarrow> page_id \<Rightarrow> page_id \<Rightarrow> page_id \<Rightarrow> nat \<Rightarrow> store" where
  "borrow_left_internal s node_pid lsib_pid parent_pid sep_idx =
     (let pp = st_pages s parent_pid; npage = st_pages s node_pid; lpage = st_pages s lsib_pid;
          niph = get_internal_hdr npage; liph = get_internal_hdr lpage;
          pentries = internal_entries pp (unat (iph_key_count (get_internal_hdr pp)));
          nentries = internal_entries npage (unat (iph_key_count niph));
          lentries = internal_entries lpage (unat (iph_key_count liph));
          borrowed = lentries ! (length lentries - 1);
          s = st_put s node_pid (write_internal npage
                (niph\<lparr>iph_leftmost_child := ie_right_child borrowed, iph_key_count := iph_key_count niph + 1\<rparr>)
                (\<lparr>ie_key = ie_key (pentries ! sep_idx), ie_right_child = iph_leftmost_child niph\<rparr> # nentries));
          s = st_put s lsib_pid (mwrite lpage 0 (put_internal_hdr (liph\<lparr>iph_key_count := iph_key_count liph - 1\<rparr>)));
          s = st_put s parent_pid (set_separator pp sep_idx (ie_key borrowed))
      in update_child_parent s (ie_right_child borrowed) node_pid)"

text \<open>Merging the right one of two neighbouring internal nodes into the left one.\<close>

definition merge_internal :: "store \<Rightarrow> page_id \<Rightarrow> page_id \<Rightarrow> page_id \<Rightarrow> nat \<Rightarrow> store" where
  "merge_internal s left_pid right_pid parent_pid sep_idx =
     (let pp = st_pages s parent_pid; lpage = st_pages s left_pid; rpage = st_pages s right_pid;
          iph = get_internal_hdr pp; liph = get_internal_hdr lpage; riph = get_internal_hdr rpage;
          pentries = internal_entries pp (unat (iph_key_count iph));
          lentries = internal_entries lpage (unat (iph_key_count liph));
          rentries = internal_entries rpage (unat (iph_key_count riph));
          s = st_put s left_pid (write_internal lpage
                (liph\<lparr>iph_key_count := iph_key_count liph + 1 + iph_key_count riph\<rparr>)
                (lentries @ \<lparr>ie_key = ie_key (pentries ! sep_idx), ie_right_child = iph_leftmost_child riph\<rparr> # rentries));
          s = foldl (\<lambda>s c. update_child_parent s c left_pid) s
                (iph_leftmost_child riph # map ie_right_child rentries);
          s = st_put s parent_pid (delete_entry_from_internal (st_pages s parent_pid) iph sep_idx)
      in st_free s right_pid)"

definition shrink_root :: "store \<Rightarrow> page_id \<Rightarrow> store" where
  "shrink_root s node_pid =
     (let iph = get_internal_hdr (st_pages s node_pid) in
      if iph_key_count iph = 0 then
        let child = iph_leftmost_child iph;
            s = st_free s node_pid;
            s = s\<lparr>st_hdr := (st_hdr s)\<lparr>hd_root_index_page_id := child\<rparr>\<rparr>
        in update_child_parent s child 0
      else s)"

function (sequential) propagate_delete :: "store \<Rightarrow> page_id list \<Rightarrow> nat \<Rightarrow> store"
  and fix_internal_underflow :: "store \<Rightarrow> page_id list \<Rightarrow> page_id \<Rightarrow> nat \<Rightarrow> store" where
  "propagate_delete s stack parent_level =
     (let node_pid = stack ! parent_level in
      if node_pid = root_id s then shrink_root s node_pid
      else if iph_key_count (get_internal_hdr (st_pages s node_pid)) \<ge> min_internal_keys (st_page_size s) then s
      else fix_internal_underflow s stack node_pid parent_level)"
| "fix_internal_underflow s stack node_pid 0 = s"
| "fix_internal_underflow s stack node_pid (Suc level) =
     (let parent_pid = stack ! level;
          pp = st_pages s parent_pid;
          iph = get_internal_hdr pp;
          min_keys = min_internal_keys (st_page_size s)
      in case find_child_idx pp node_pid of
           None \<Rightarrow> s
         | Some child_idx \<Rightarrow>
             let rsib_pid = internal_child pp (child_idx + 1); lsib_pid = internal_child pp (child_idx - 1) in
             if child_idx < unat (iph_key_count iph)
                \<and> iph_key_count (get_internal_hdr (st_pages s rsib_pid)) > min_keys
             then borrow_right_internal s node_pid rsib_pid parent_pid child_idx
             else if child_idx > 0 \<and> iph_key_count (get_internal_hdr (st_pages s lsib_pid)) > min_keys
             then borrow_left_internal s node_pid lsib_pid parent_pid (child_idx - 1)
             else if child_idx > 0
             then propagate_delete (merge_internal s lsib_pid node_pid parent_pid (child_idx - 1)) stack level
             else propagate_delete (merge_internal s node_pid (internal_child pp 1) parent_pid 0) stack level)"
  by pat_completeness auto
termination
  by (relation "measure (\<lambda>x. case x of Inl (s, stack, level) \<Rightarrow> 2 * level + 1
                                     | Inr (s, stack, pid, level) \<Rightarrow> 2 * level)") auto

declare propagate_delete.simps [simp del] fix_internal_underflow.simps [simp del]

definition borrow_right_leaf :: "store \<Rightarrow> page_id \<Rightarrow> page_id \<Rightarrow> page_id \<Rightarrow> nat \<Rightarrow> store" where
  "borrow_right_leaf s leaf_pid rsib_pid parent_pid sep_idx =
     (let rpage = st_pages s rsib_pid;
          rlph = get_leaf_hdr rpage;
          borrowed = leaf_entries rpage (unat (lph_key_count rlph)) ! 0;
          rpage = delete_entry_from_leaf rpage rlph 0;
          new_sep_key = le_key (get_leaf_entry (drop 20 rpage));
          s = st_put s rsib_pid rpage;
          page = st_pages s leaf_pid;
          s = st_put s leaf_pid (leaf_insert_entry page (get_leaf_hdr page) (le_key borrowed) (le_row_ref borrowed))
      in st_put s parent_pid (set_separator (st_pages s parent_pid) sep_idx new_sep_key))"

definition borrow_left_leaf :: "store \<Rightarrow> page_id \<Rightarrow> page_id \<Rightarrow> page_id \<Rightarrow> nat \<Rightarrow> store" where
  "borrow_left_leaf s leaf_pid lsib_pid parent_pid sep_idx =
     (let lpage = st_pages s lsib_pid;
          llph = get_leaf_hdr lpage;
          borrowed = leaf_entries lpage (unat (lph_key_count llph)) ! (unat (lph_key_count llph) - 1);
          s = st_put s lsib_pid (mwrite lpage 0 (put_leaf_hdr (llph\<lparr>lph_key_count := lph_key_count llph - 1\<rparr>)));
          page = st_pages s leaf_pid;
          page = leaf_insert_entry page (get_leaf_hdr page) (le_key borrowed) (le_row_ref borrowed);
          s = st_put s leaf_pid page
      in st_put s parent_pid (set_separator (st_pages s parent_pid) sep_idx (le_key (get_leaf_entry (drop 20 page)))))"

definition merge_leaf :: "store \<Rightarrow> page_id \<Rightarrow> page_id \<Rightarrow> page_id \<Rightarrow> nat \<Rightarrow> store" where
  "merge_leaf s left_pid right_pid parent_pid sep_idx =
     (let lpage = st_pages s left_pid; rpage = st_pages s right_pid;
          llph = get_leaf_hdr lpage; rlph = get_leaf_hdr rpage;
          s = st_put s left_pid (write_leaf lpage
                (llph\<lparr>lph_key_count := lph_key_count llph + lph_key_count rlph, lph_next_leaf := lph_next_leaf rlph\<rparr>)
                (leaf_entries lpage (unat (lph_key_count llph)) @ leaf_entries rpage (unat (lph_key_count rlph))));
          nxt = lph_next_leaf rlph;
          s = (if nxt \<noteq> 0 then st_put s nxt (set_prev_leaf (st_pages s nxt) left_pid) else s);
          pp = st_pages s parent_pid;
          s = st_put s parent_pid (delete_entry_from_internal pp (get_internal_hdr pp) sep_idx)
      in st_free s right_pid)"

definition fix_leaf_underflow :: "store \<Rightarrow> page_id \<Rightarrow> page_id list \<Rightarrow> store" where
  "fix_leaf_underflow s leaf_pid stack =
     (let leaf_level = length stack - 1 in
      if leaf_level = 0 then s
      else
        let parent_pid = stack ! (leaf_level - 1);
            pp = st_pages s parent_pid;
            iph = get_internal_hdr pp;
            min_keys = min_leaf_keys (st_page_size s)
        in case find_child_idx pp leaf_pid of
             None \<Rightarrow> s
           | Some child_idx \<Rightarrow>
               let rsib_pid = internal_child pp (child_idx + 1); lsib_pid = internal_child pp (child_idx - 1) in
               if child_idx < unat (iph_key_count iph)
                  \<and> lph_key_count (get_leaf_hdr (st_pages s rsib_pid)) > min_keys
               then borrow_right_leaf s leaf_pid rsib_pid parent_pid child_idx
               else if child_idx > 0 \<and> lph_key_count (get_leaf_hdr (st_pages s lsib_pid)) > min_keys
               then borrow_left_leaf s leaf_pid lsib_pid parent_pid (child_idx - 1)
               else if child_idx > 0
               then propagate_delete (merge_leaf s lsib_pid leaf_pid parent_pid (child_idx - 1)) stack (leaf_level - 1)
               else propagate_delete (merge_leaf s leaf_pid (internal_child pp 1) parent_pid 0) stack (leaf_level - 1))"

text \<open>Returns 0, or -1 for a key that is not there.\<close>

definition bptree_delete :: "store \<Rightarrow> u64 \<Rightarrow> (int \<times> store) option" where
  "bptree_delete s key =
     (case find_leaf_wlatch s False key of
        None \<Rightarrow> None
      | Some (leaf_pid, stack) \<Rightarrow>
          let page = st_pages s leaf_pid;
              lph = get_leaf_hdr page;
              entries = leaf_entries page (unat (lph_key_count lph));
              idx = leaf_find entries key
          in if idx \<ge> length entries \<or> le_key (entries ! idx) \<noteq> key then Some (-1, s)
             else
               let s = st_put s leaf_pid (delete_entry_from_leaf page lph idx) in
               if leaf_pid = root_id s \<or> lph_key_count lph - 1 \<ge> min_leaf_keys (st_page_size s) then Some (0, s)
               else Some (0, fix_leaf_underflow s leaf_pid stack))"

section \<open>Height\<close>

partial_function (option) height_from :: "(page_id \<Rightarrow> bytes) \<Rightarrow> page_id \<Rightarrow> nat \<Rightarrow> nat option" where
  "height_from pages pid h =
     (if page_type (pages pid) = PAGE_TYPE_LEAF then Some (h + 1)
      else height_from pages (iph_leftmost_child (get_internal_hdr (pages pid))) (h + 1))"

definition bptree_height :: "store \<Rightarrow> nat option" where
  "bptree_height s = height_from (st_pages s) (root_id s) 0"

end
