(* ===== verification/BPlus_Inv.thy ===== *)
theory BPlus_Inv
  imports BPlus_Tree "HOL-Library.Multiset"
begin

text \<open>
  The tree a store holds: \<open>bt\<close> with the page number of every node, \<open>bt_ok\<close> saying that the
  pages hold its nodes, with keys in order, all leaves at the same depth and no overfull node,
  and contexts (paths from a node up to the root) for the algorithms that work their way up.
\<close>

section \<open>Trees\<close>

datatype bt = Leaf page_id "leaf_entry list" | Inner page_id "u64 list" "bt list"

fun pid_of :: "bt \<Rightarrow> page_id" where
  "pid_of (Leaf p es) = p"
| "pid_of (Inner p ks cs) = p"

fun pids :: "bt \<Rightarrow> page_id list" where
  "pids (Leaf p es) = [p]"
| "pids (Inner p ks cs) = p # concat (map pids cs)"

fun leaves :: "bt \<Rightarrow> page_id list" where
  "leaves (Leaf p es) = [p]"
| "leaves (Inner p ks cs) = concat (map leaves cs)"

fun entries :: "bt \<Rightarrow> leaf_entry list" where
  "entries (Leaf p es) = es"
| "entries (Inner p ks cs) = concat (map entries cs)"

definition keys_between :: "nat \<Rightarrow> nat \<Rightarrow> u64 list \<Rightarrow> bool" where
  "keys_between lo hi ks \<longleftrightarrow> sorted_wrt (<) ks \<and> (\<forall>k \<in> set ks. lo \<le> unat k \<and> unat k < hi)"

text \<open>The key interval of the i-th child under the separators \<open>ks\<close>.\<close>

definition lo_of :: "nat \<Rightarrow> u64 list \<Rightarrow> nat \<Rightarrow> nat" where
  "lo_of lo ks i = (if i = 0 then lo else unat (ks ! (i - 1)))"

definition hi_of :: "nat \<Rightarrow> u64 list \<Rightarrow> nat \<Rightarrow> nat" where
  "hi_of hi ks i = (if i < length ks then unat (ks ! i) else hi)"

text \<open>An inner node has a separator, and its separators lie above the lower end of its interval.\<close>

definition seps_above :: "nat \<Rightarrow> u64 list \<Rightarrow> bool" where
  "seps_above lo ks \<longleftrightarrow> ks \<noteq> [] \<and> (\<forall>k \<in> set ks. lo < unat k)"

lemma seps_aboveD: "seps_above lo ks \<Longrightarrow> ks \<noteq> []" "seps_above lo ks \<Longrightarrow> k \<in> set ks \<Longrightarrow> lo < unat k"
  by (simp_all add: seps_above_def)

inductive bt_ok :: "nat \<Rightarrow> (page_id \<Rightarrow> bytes) \<Rightarrow> nat \<Rightarrow> nat \<Rightarrow> nat \<Rightarrow> bt \<Rightarrow> bool" for ps pg where
  leaf: "node_at ps (pg p) (LeafN nx es) \<Longrightarrow> keys_between lo hi (map le_key es) \<Longrightarrow> bt_ok ps pg 0 lo hi (Leaf p es)"
| inner: "node_at ps (pg p) (InnerN ks (map pid_of cs)) \<Longrightarrow> keys_between lo hi ks \<Longrightarrow> seps_above lo ks
    \<Longrightarrow> length cs = Suc (length ks)
    \<Longrightarrow> \<forall>i < length cs. bt_ok ps pg h (lo_of lo ks i) (hi_of hi ks i) (cs ! i)
    \<Longrightarrow> bt_ok ps pg (Suc h) lo hi (Inner p ks cs)"

inductive_simps bt_ok_Leaf: "bt_ok ps pg h lo hi (Leaf p es)"
inductive_simps bt_ok_Inner: "bt_ok ps pg h lo hi (Inner p ks cs)"
inductive_cases bt_ok_0E: "bt_ok ps pg 0 lo hi t"
inductive_cases bt_ok_SucE: "bt_ok ps pg (Suc h) lo hi t"

section \<open>Intervals\<close>

lemma keys_between_append:
  "keys_between lo hi (xs @ ys) \<longleftrightarrow> keys_between lo hi xs \<and> keys_between lo hi ys \<and> (\<forall>x \<in> set xs. \<forall>y \<in> set ys. x < y)"
  by (auto simp: keys_between_def sorted_wrt_append)

lemma keys_between_mono: "keys_between lo hi ks \<Longrightarrow> lo' \<le> lo \<Longrightarrow> hi \<le> hi' \<Longrightarrow> keys_between lo' hi' ks"
  by (fastforce simp: keys_between_def)

lemma keys_between_nth_mono:
  assumes "keys_between lo hi ks" "i \<le> j" "j < length ks"
  shows "unat (ks ! i) \<le> unat (ks ! j)"
proof (cases "i = j")
  case False
  with assms have "ks ! i < ks ! j" by (simp add: keys_between_def sorted_wrt_nth_less)
  then show ?thesis by (simp add: word_less_nat_alt)
qed simp

lemma bounds_range:
  assumes "keys_between lo hi ks" "lo \<le> hi" "i \<le> length ks"
  shows "lo \<le> lo_of lo ks i" "hi_of hi ks i \<le> hi" "lo_of lo ks i \<le> hi_of hi ks i"
proof -
  have k: "lo \<le> unat (ks ! j)" "unat (ks ! j) < hi" if "j < length ks" for j
    using assms(1) that by (auto simp: keys_between_def)
  show "lo \<le> lo_of lo ks i" using k(1) [of "i - 1"] assms(3) by (cases i) (simp_all add: lo_of_def)
  show "hi_of hi ks i \<le> hi" using k(2) [of i] by (auto simp: hi_of_def)
  show "lo_of lo ks i \<le> hi_of hi ks i"
    using keys_between_nth_mono [OF assms(1), of "i - 1" i] k [of i] k [of "i - 1"] assms(2,3)
    by (cases i) (auto simp: lo_of_def hi_of_def)
qed

lemma bounds_order:
  assumes "keys_between lo hi ks" "i < j" "j \<le> length ks"
  shows "hi_of hi ks i \<le> lo_of lo ks j"
  using keys_between_nth_mono [OF assms(1), of i "j - 1"] assms(2,3)
  by (cases j) (auto simp: lo_of_def hi_of_def)

text \<open>The child a key belongs to.\<close>

definition child_of :: "u64 list \<Rightarrow> u64 \<Rightarrow> nat" where
  "child_of ks key = length (takeWhile (\<lambda>k. k \<le> key) ks)"

lemma child_of_le: "child_of ks key \<le> length ks"
  by (simp add: child_of_def length_takeWhile_le)

lemma child_of_iff:
  assumes "keys_between lo hi ks" "i < length ks"
  shows "ks ! i \<le> key \<longleftrightarrow> i < child_of ks key"
  unfolding child_of_def
proof (rule takeWhile_length_iff)
  show "sorted_wrt (\<lambda>x y. y \<le> key \<longrightarrow> x \<le> key) ks"
    using assms(1) unfolding keys_between_def by (auto elim: sorted_wrt_mono_rel [rotated])
qed (rule assms(2))

lemma child_of_interval:
  assumes "keys_between lo hi ks" "lo \<le> unat key" "unat key < hi"
  shows "lo_of lo ks (child_of ks key) \<le> unat key" "unat key < hi_of hi ks (child_of ks key)"
proof -
  let ?i = "child_of ks key"
  show "lo_of lo ks ?i \<le> unat key"
  proof (cases "?i = 0")
    case False
    then have "?i - 1 < length ks" "?i - 1 < ?i" using child_of_le [of ks key] by linarith+
    then have "ks ! (?i - 1) \<le> key" using child_of_iff [OF assms(1)] by blast
    with False show ?thesis by (simp add: lo_of_def word_le_nat_alt)
  qed (simp add: lo_of_def assms(2))
  show "unat key < hi_of hi ks ?i"
  proof (cases "?i < length ks")
    case True
    then have "\<not> ks ! ?i \<le> key" using child_of_iff [OF assms(1) True] by blast
    with True show ?thesis by (simp add: hi_of_def word_le_nat_alt)
  qed (simp add: hi_of_def assms(3))
qed

lemma child_of_unique:
  assumes "keys_between lo hi ks" "i \<le> length ks" "lo_of lo ks i \<le> unat key" "unat key < hi_of hi ks i"
  shows "child_of ks key = i"
proof (rule antisym)
  show "child_of ks key \<le> i"
  proof (rule ccontr)
    assume "\<not> ?thesis"
    then have l: "i < length ks" "i < child_of ks key" using child_of_le [of ks key] by linarith+
    then have "ks ! i \<le> key" using child_of_iff [OF assms(1)] by blast
    with assms(4) l(1) show False by (simp add: hi_of_def word_le_nat_alt)
  qed
  show "i \<le> child_of ks key"
  proof (cases i)
    case (Suc j)
    then have "ks ! j \<le> key" using assms(3) by (simp add: lo_of_def word_le_nat_alt)
    then show ?thesis using child_of_iff [OF assms(1), of j] Suc assms(2) by simp
  qed simp
qed

section \<open>Pages and trees\<close>

lemma pid_of_in_pids: "pid_of t \<in> set (pids t)"
  by (cases t) auto

lemma bt_ok_cong:
  assumes "bt_ok ps pg h lo hi t" "\<And>p N. p \<in> set (pids t) \<Longrightarrow> node_at ps (pg p) N \<Longrightarrow> node_at ps (pg' p) N"
  shows "bt_ok ps pg' h lo hi t"
  using assms
proof (induction h lo hi t rule: bt_ok.induct)
  case (leaf p nx es lo hi)
  then show ?case by (auto intro: bt_ok.leaf)
next
  case (inner p ks cs lo hi h)
  have "bt_ok ps pg' h (lo_of lo ks i) (hi_of hi ks i) (cs ! i)" if "i < length cs" for i
  proof -
    have "set (pids (cs ! i)) \<subseteq> set (pids (Inner p ks cs))" using that by (auto intro!: bexI [of _ "cs ! i"])
    with inner that show ?thesis by blast
  qed
  with inner show ?case by (intro bt_ok.inner) auto
qed

lemma leaves_subset: "set (leaves t) \<subseteq> set (pids t)"
  by (induction t) auto

text \<open>The entries of a tree come in key order, within the tree's interval.\<close>

lemma keys_between_concat:
  assumes "length ls = Suc (length ks)" "keys_between lo hi ks" "lo \<le> hi"
    and "\<And>i. i < length ls \<Longrightarrow> keys_between (lo_of lo ks i) (hi_of hi ks i) (ls ! i)"
  shows "keys_between lo hi (concat ls)"
proof -
  have "keys_between lo (hi_of hi ks (n - 1)) (concat (take n ls))" if "n \<le> length ls" "0 < n" for n
    using that
  proof (induction n)
    case (Suc n)
    have i: "n \<le> length ks" using Suc assms(1) by simp
    note B = bounds_range [OF assms(2,3) i]
    have here: "keys_between (lo_of lo ks n) (hi_of hi ks n) (ls ! n)" using Suc assms(4) by simp
    have tk: "take (Suc n) ls = take n ls @ [ls ! n]" using Suc by (simp add: take_Suc_conv_app_nth)
    show ?case
    proof (cases "n = 0")
      case True
      with here B Suc.prems show ?thesis by (cases ls) (simp_all add: lo_of_def)
    next
      case False
      with Suc have IH: "keys_between lo (hi_of hi ks (n - 1)) (concat (take n ls))" by simp
      have o: "hi_of hi ks (n - 1) \<le> lo_of lo ks n" using bounds_order [OF assms(2)] False i by simp
      have "x < y" if "x \<in> set (concat (take n ls))" "y \<in> set (ls ! n)" for x y
      proof -
        have "unat x < hi_of hi ks (n - 1)" "lo_of lo ks n \<le> unat y"
          using that IH here unfolding keys_between_def by blast+
        with o show ?thesis by (simp add: word_less_nat_alt)
      qed
      moreover have "keys_between lo (hi_of hi ks n) (concat (take n ls))"
        using IH by (rule keys_between_mono) (use o B in auto)
      moreover have "keys_between lo (hi_of hi ks n) (ls ! n)"
        using here by (rule keys_between_mono) (use B in auto)
      ultimately show ?thesis by (auto simp: tk keys_between_append)
    qed
  qed simp
  from this [of "length ls"] assms(1) have "keys_between lo (hi_of hi ks (length ls - 1)) (concat ls)" by simp
  then show ?thesis using assms(1) by (simp add: hi_of_def)
qed

lemma entries_between:
  assumes "bt_ok ps pg h lo hi t" "lo \<le> hi"
  shows "keys_between lo hi (map le_key (entries t))"
  using assms
proof (induction h lo hi t rule: bt_ok.induct)
  case (leaf p nx es lo hi)
  then show ?case by simp
next
  case (inner p ks cs lo hi h)
  let ?ls = "map (\<lambda>t. map le_key (entries t)) cs"
  have i: "keys_between (lo_of lo ks i) (hi_of hi ks i) (?ls ! i)" if "i < length ?ls" for i
  proof -
    have "lo_of lo ks i \<le> hi_of hi ks i" using bounds_range(3) [OF inner(2,6)] that inner(4) by simp
    with inner.IH that show ?thesis by simp
  qed
  have "keys_between lo hi (concat ?ls)"
    using inner i by (intro keys_between_concat) auto
  then show ?case by (simp add: map_concat comp_def)
qed

section \<open>Contexts\<close>

text \<open>A path from a node to the root, innermost step first: page, separators, children, the child taken.\<close>

type_synonym ctx = "(page_id \<times> u64 list \<times> bt list \<times> nat) list"

fun plug :: "ctx \<Rightarrow> bt \<Rightarrow> bt" where
  "plug [] t = t"
| "plug ((p, ks, cs, i) # c) t = plug c (Inner p ks (cs[i := t]))"

definition hole_pid :: "ctx \<Rightarrow> page_id \<Rightarrow> bool" where
  "hole_pid c x \<longleftrightarrow> (case c of [] \<Rightarrow> True | (p, ks, cs, i) # d \<Rightarrow> pid_of (cs ! i) = x)"

lemma hole_pid_simps [simp]: "hole_pid [] x" "hole_pid ((p, ks, cs, i) # d) x \<longleftrightarrow> pid_of (cs ! i) = x"
  by (simp_all add: hole_pid_def)

fun ctx_ok :: "nat \<Rightarrow> (page_id \<Rightarrow> bytes) \<Rightarrow> nat \<Rightarrow> ctx \<Rightarrow> nat \<Rightarrow> nat \<Rightarrow> nat \<Rightarrow> bool" where
  "ctx_ok ps pg H [] h lo hi \<longleftrightarrow> h = H \<and> lo = 0 \<and> hi = 2 ^ 64"
| "ctx_ok ps pg H ((p, ks, cs, i) # c) h lo hi \<longleftrightarrow>
     hole_pid c p
     \<and> (\<exists>plo phi. ctx_ok ps pg H c (Suc h) plo phi \<and> node_at ps (pg p) (InnerN ks (map pid_of cs))
        \<and> keys_between plo phi ks \<and> seps_above plo ks \<and> length cs = Suc (length ks) \<and> i < length cs
        \<and> (\<forall>j < length cs. j \<noteq> i \<longrightarrow> bt_ok ps pg h (lo_of plo ks j) (hi_of phi ks j) (cs ! j))
        \<and> lo = lo_of plo ks i \<and> hi = hi_of phi ks i \<and> plo \<le> phi)"

fun ctx_pids :: "ctx \<Rightarrow> page_id list" where
  "ctx_pids [] = []"
| "ctx_pids ((p, ks, cs, i) # c) = p # concat (map pids (take i cs)) @ concat (map pids (drop (Suc i) cs)) @ ctx_pids c"

definition ctx_nodes :: "ctx \<Rightarrow> page_id list" where
  "ctx_nodes c = map fst c"

text \<open>What lies before and after the hole.\<close>

fun ctx_before :: "(bt \<Rightarrow> 'a list) \<Rightarrow> ctx \<Rightarrow> 'a list" where
  "ctx_before f [] = []"
| "ctx_before f ((p, ks, cs, i) # c) = ctx_before f c @ concat (map f (take i cs))"

fun ctx_after :: "(bt \<Rightarrow> 'a list) \<Rightarrow> ctx \<Rightarrow> 'a list" where
  "ctx_after f [] = []"
| "ctx_after f ((p, ks, cs, i) # c) = concat (map f (drop (Suc i) cs)) @ ctx_after f c"

fun ctx_indices_ok :: "ctx \<Rightarrow> bool" where
  "ctx_indices_ok [] \<longleftrightarrow> True"
| "ctx_indices_ok ((p, ks, cs, i) # c) \<longleftrightarrow> i < length cs \<and> ctx_indices_ok c"

lemma ctx_ok_indices: "ctx_ok ps pg H c h lo hi \<Longrightarrow> ctx_indices_ok c"
  by (induction c arbitrary: h lo hi) auto

lemma concat_map_update:
  "i < length cs \<Longrightarrow> concat (map f (cs[i := t])) = concat (map f (take i cs)) @ f t @ concat (map f (drop (Suc i) cs))"
  by (simp add: upd_conv_take_nth_drop)

lemma entries_plug: "ctx_indices_ok c \<Longrightarrow> entries (plug c t) = ctx_before entries c @ entries t @ ctx_after entries c"
  by (induction c t rule: plug.induct) (auto simp: concat_map_update)

lemma leaves_plug: "ctx_indices_ok c \<Longrightarrow> leaves (plug c t) = ctx_before leaves c @ leaves t @ ctx_after leaves c"
  by (induction c t rule: plug.induct) (auto simp: concat_map_update)

lemma pids_plug: "ctx_indices_ok c \<Longrightarrow> mset (pids (plug c t)) = mset (pids t) + mset (ctx_pids c)"
  by (induction c t rule: plug.induct) (auto simp: concat_map_update)

lemma plug_append: "plug (c @ d) t = plug d (plug c t)"
  by (induction c t rule: plug.induct) auto

lemma plug_ok:
  assumes "ctx_ok ps pg H c h lo hi" "bt_ok ps pg h lo hi t" "hole_pid c (pid_of t)"
  shows "bt_ok ps pg H 0 (2 ^ 64) (plug c t)"
  using assms
proof (induction c arbitrary: h lo hi t)
  case Nil
  then show ?case by simp
next
  case (Cons f c)
  obtain p ks cs i where f: "f = (p, ks, cs, i)" by (cases f)
  with Cons.prems(1) obtain plo phi where P: "ctx_ok ps pg H c (Suc h) plo phi" "hole_pid c p"
    "node_at ps (pg p) (InnerN ks (map pid_of cs))" "keys_between plo phi ks" "seps_above plo ks"
    "length cs = Suc (length ks)" "i < length cs"
    "\<forall>j < length cs. j \<noteq> i \<longrightarrow> bt_ok ps pg h (lo_of plo ks j) (hi_of phi ks j) (cs ! j)"
    "lo = lo_of plo ks i" "hi = hi_of phi ks i" by auto
  have "pid_of t = pid_of (cs ! i)" using Cons.prems(3) f by simp
  then have m: "map pid_of (cs[i := t]) = map pid_of cs"
    using P(7) by (simp add: map_update list_update_same_conv)
  have "bt_ok ps pg (Suc h) plo phi (Inner p ks (cs[i := t]))"
    using P Cons.prems(2) m by (intro bt_ok.inner) (auto simp: nth_list_update)
  from Cons.IH [OF P(1) this] P(2) f show ?case by simp
qed

lemma ctx_ok_cong:
  assumes "ctx_ok ps pg H c h lo hi" "\<And>p N. p \<in> set (ctx_pids c) \<Longrightarrow> node_at ps (pg p) N \<Longrightarrow> node_at ps (pg' p) N"
  shows "ctx_ok ps pg' H c h lo hi"
  using assms
proof (induction c arbitrary: h lo hi)
  case Nil
  then show ?case by simp
next
  case (Cons f c)
  obtain p ks cs i where f: "f = (p, ks, cs, i)" by (cases f)
  have "bt_ok ps pg' h l u (cs ! j)" if "bt_ok ps pg h l u (cs ! j)" "j < length cs" "j \<noteq> i" for j l u
  proof (rule bt_ok_cong [OF that(1)])
    fix q N assume q: "q \<in> set (pids (cs ! j))" "node_at ps (pg q) N"
    have "cs ! j \<in> set (take i cs) \<or> cs ! j \<in> set (drop (Suc i) cs)"
    proof (cases "j < i")
      case True
      then show ?thesis using that(2) by (auto simp: in_set_conv_nth intro!: exI [of _ j])
    next
      case False
      then show ?thesis using that by (auto simp: in_set_conv_nth intro!: exI [of _ "j - Suc i"])
    qed
    with q(1) have "q \<in> set (ctx_pids (f # c))" by (auto simp: f)
    with q(2) Cons.prems(2) show "node_at ps (pg' q) N" by blast
  qed
  moreover have "node_at ps (pg' p) N" if "node_at ps (pg p) N" for N
    using that Cons.prems(2) [of p N] by (simp add: f)
  moreover have "ctx_ok ps pg' H c h' lo' hi'" if "ctx_ok ps pg H c h' lo' hi'" for h' lo' hi'
    using that by (rule Cons.IH) (use Cons.prems(2) f in auto)
  moreover from Cons.prems(1) f obtain plo phi where "ctx_ok ps pg H c (Suc h) plo phi" "hole_pid c p"
    "node_at ps (pg p) (InnerN ks (map pid_of cs))" "keys_between plo phi ks" "seps_above plo ks"
    "length cs = Suc (length ks)" "i < length cs"
    "\<forall>j < length cs. j \<noteq> i \<longrightarrow> bt_ok ps pg h (lo_of plo ks j) (hi_of phi ks j) (cs ! j)"
    "lo = lo_of plo ks i" "hi = hi_of phi ks i" "plo \<le> phi" by auto
  ultimately show ?case unfolding f ctx_ok.simps
    by (intro conjI exI [of _ plo] exI [of _ phi] allI impI) simp_all
qed

text \<open>The keys before the hole are below its interval, those after it not.\<close>

lemma ctx_bounds:
  assumes "ctx_ok ps pg H c h lo hi"
  shows "lo \<le> hi" "\<forall>e \<in> set (ctx_before entries c). unat (le_key e) < lo"
    "\<forall>e \<in> set (ctx_after entries c). hi \<le> unat (le_key e)"
  using assms
proof (induction c arbitrary: h lo hi)
  case Nil
  {
    case 1
    then show ?case by simp
  next
    case 2
    then show ?case by simp
  next
    case 3
    then show ?case by simp
  }
next
  case (Cons f c)
  obtain p ks cs i where f: "f = (p, ks, cs, i)" by (cases f)
  {
    fix h lo hi assume "ctx_ok ps pg H (f # c) h lo hi"
    then obtain plo phi where P: "ctx_ok ps pg H c (Suc h) plo phi" "keys_between plo phi ks"
      "length cs = Suc (length ks)" "i < length cs"
      "\<forall>j < length cs. j \<noteq> i \<longrightarrow> bt_ok ps pg h (lo_of plo ks j) (hi_of phi ks j) (cs ! j)"
      "lo = lo_of plo ks i" "hi = hi_of phi ks i" "plo \<le> phi" using f by auto
    note B = bounds_range [OF P(2,8)]
    have kb: "keys_between (lo_of plo ks j) (hi_of phi ks j) (map le_key (entries (cs ! j)))"
      if "j < length cs" "j \<noteq> i" for j
      by (rule entries_between [OF P(5) [rule_format, OF that]]) (use B(3) [of j] P(3) that in simp)
    have le: "lo \<le> hi" using B(3) [of i] P(3,4,6,7) by simp
    have bef: "unat (le_key e) < lo" if "e \<in> set (ctx_before entries (f # c))" for e
    proof -
      from that consider "e \<in> set (ctx_before entries c)" | j where "j < i" "e \<in> set (entries (cs ! j))"
        using P(4) by (auto simp: f in_set_conv_nth [of _ "take i cs"])
      then show ?thesis
      proof cases
        case 1
        have "unat (le_key e) < plo" using Cons.IH(2) [OF P(1)] 1 by blast
        then show ?thesis using B(1) [of i] P(3,4,6) by simp
      next
        case 2
        then have "unat (le_key e) < hi_of phi ks j" using kb [of j] P(4) by (auto simp: keys_between_def)
        then show ?thesis using bounds_order [OF P(2) 2(1)] P(3,4,6) by simp
      qed
    qed
    have aft: "hi \<le> unat (le_key e)" if "e \<in> set (ctx_after entries (f # c))" for e
    proof -
      have "e \<in> set (ctx_after entries c) \<or> (\<exists>x \<in> set (drop (Suc i) cs). e \<in> set (entries x))"
        using that by (auto simp: f)
      then consider "e \<in> set (ctx_after entries c)" | j where "i < j" "j < length cs" "e \<in> set (entries (cs ! j))"
        by (auto simp: in_set_conv_nth) (metis add_Suc_right add_Suc_shift less_add_Suc1 less_diff_conv add.commute)
      then show ?thesis
      proof cases
        case 1
        have "phi \<le> unat (le_key e)" using Cons.IH(3) [OF P(1)] 1 by blast
        then show ?thesis using B(2) [of i] P(3,4,7) by simp
      next
        case 2
        then have "lo_of plo ks j \<le> unat (le_key e)" using kb [of j] by (auto simp: keys_between_def)
        then show ?thesis using bounds_order [OF P(2) 2(1)] 2(2) P(3,7) by simp
      qed
    qed
    note le bef aft
  }
  note * = this
  {
    case 1
    then show ?case using * by blast
  next
    case 2
    then show ?case using * by blast
  next
    case 3
    then show ?case using * by blast
  }
qed

end
