(* ===== verification/BPlus_Search.thy ===== *)
theory BPlus_Search
  imports BPlus_Inv
begin

text \<open>
  The descents end at the leaf whose interval holds the key, and \<open>bptree_search\<close> finds exactly
  the keys of the tree. The write descent's stack holds the path from the last safe node.
\<close>

section \<open>One step down\<close>

lemma internal_child_inner:
  assumes "node_at ps page (InnerN ks cps)" "i \<le> length ks"
  shows "internal_child page i = cps ! i"
proof -
  note I = node_at_innerD [OF assms(1)]
  have "length (internal_entries page (length ks)) = length ks" by (simp add: internal_entries_def)
  with I(2,4) assms(2) show ?thesis
    by (cases i) (auto simp: internal_child_def Let_def nth_Cons' simp del: I(4) simp flip: I(4))
qed

lemma internal_find_inner:
  assumes "node_at ps page (InnerN ks cps)" "sorted_wrt (<) ks"
  shows "internal_find (internal_entries page (length ks)) key = child_of ks key"
  using internal_find_sorted [of "internal_entries page (length ks)" key] node_at_innerD(3) [OF assms(1)] assms(2)
  by (simp add: child_of_def)

lemma internal_child_for_key_inner:
  assumes "node_at ps page (InnerN ks cps)" "sorted_wrt (<) ks"
  shows "internal_child_for_key page key = cps ! child_of ks key"
  using internal_child_inner [OF assms(1) child_of_le] internal_find_inner [OF assms] node_at_innerD(2) [OF assms(1)]
  by (simp add: internal_child_for_key_def)

section \<open>Going down\<close>

definition stack_ok :: "u32 \<Rightarrow> bool \<Rightarrow> (page_id \<Rightarrow> bytes) \<Rightarrow> ctx \<Rightarrow> page_id \<Rightarrow> page_id list \<Rightarrow> bool" where
  "stack_ok psz ins pg c pid st \<longleftrightarrow>
     (\<exists>c1 c2. c = c1 @ c2 \<and> st = rev (map fst c1) @ [pid] \<and> (c2 \<noteq> [] \<longrightarrow> safe_node psz ins (pg (hd st))))"

lemma stack_ok_length: "stack_ok psz ins pg c pid st \<Longrightarrow> length st \<le> Suc (length c)"
  by (auto simp: stack_ok_def)

lemma stack_ok_step:
  assumes "stack_ok psz ins pg c pid st" "length c < 31"
  shows "stack_ok psz ins pg ((pid, ks, cs, i) # c) child
    (ls_push (if safe_node psz ins (pg child) then [] else st) child)"
proof (cases "safe_node psz ins (pg child)")
  case True
  show ?thesis
    unfolding stack_ok_def
    by (rule exI [of _ "[]"], rule exI [of _ "(pid, ks, cs, i) # c"]) (use True in \<open>simp add: ls_push_def MAX_TREE_DEPTH_def\<close>)
next
  case False
  from assms(1) obtain c1 c2 where c: "c = c1 @ c2" "st = rev (map fst c1) @ [pid]"
    "c2 \<noteq> [] \<longrightarrow> safe_node psz ins (pg (hd st))" by (auto simp: stack_ok_def)
  have "length st < 32" using stack_ok_length [OF assms(1)] assms(2) by simp
  then have st: "ls_push st child = rev (map fst ((pid, ks, cs, i) # c1)) @ [child]"
    using c(2) by (simp add: ls_push_def MAX_TREE_DEPTH_def)
  have "hd (st @ [child]) = hd st" using c(2) by (cases "rev (map fst c1)") auto
  then have "c2 \<noteq> [] \<longrightarrow> safe_node psz ins (pg (hd (ls_push st child)))"
    using c(2,3) st by (simp add: hd_append)
  with False c(1) st show ?thesis
    unfolding stack_ok_def by (intro exI [where x = "(pid, ks, cs, i) # c1"] exI [where x = c2]) simp
qed

text \<open>What a descent for \<open>key\<close> from the tree \<open>t\<close> in the context \<open>c\<close> reaches.\<close>

lemma descend:
  assumes "bt_ok ps pg h lo hi t" "ctx_ok ps pg H c h lo hi" "hole_pid c (pid_of t)"
    and "lo \<le> unat key" "unat key < hi" "length c + h < 32" "stack_ok psz ins pg c (pid_of t) st"
  shows "\<exists>d p nx es clo chi st'. plug d (Leaf p es) = plug c t \<and> ctx_ok ps pg H d 0 clo chi \<and> hole_pid d p
    \<and> bt_ok ps pg 0 clo chi (Leaf p es) \<and> node_at ps (pg p) (LeafN nx es)
    \<and> clo \<le> unat key \<and> unat key < chi \<and> find_leaf_from pg key (pid_of t) = Some p
    \<and> find_leaf_wlatch_from pg psz ins key (pid_of t) st = Some (p, st') \<and> stack_ok psz ins pg d p st'
    \<and> length d = length c + h"
  using assms
proof (induction h lo hi t arbitrary: c st rule: bt_ok.induct)
  case (leaf p nx es lo hi)
  have "page_type (pg p) = PAGE_TYPE_LEAF" using node_at_leafD(7) [OF leaf(1)] .
  moreover have "bt_ok ps pg 0 lo hi (Leaf p es)" using leaf by (auto intro: bt_ok.leaf)
  ultimately show ?case
    using leaf by (intro exI [of _ c] exI [of _ p] exI [of _ nx] exI [of _ es] exI [of _ lo] exI [of _ hi] exI [of _ st])
      (simp add: find_leaf_from.simps [of pg key p] find_leaf_wlatch_from.simps [of pg psz ins key p st])
next
  case (inner p ks cs lo hi h)
  let ?i = "child_of ks key"
  have i: "?i < length cs" using child_of_le [of ks key] inner(4) by simp
  have srt: "sorted_wrt (<) ks" using inner(2) by (simp add: keys_between_def)
  have pt: "page_type (pg p) \<noteq> PAGE_TYPE_LEAF" using node_at_innerD(7) [OF inner(1)] by simp
  have child: "internal_child_for_key (pg p) key = pid_of (cs ! ?i)"
    using internal_child_for_key_inner [OF inner(1) srt] i by simp
  let ?c = "(p, ks, cs, ?i) # c"
  let ?st = "ls_push (if safe_node psz ins (pg (pid_of (cs ! ?i))) then [] else st) (pid_of (cs ! ?i))"
  have lohi: "lo \<le> hi" using inner.prems by simp
  have ctx: "ctx_ok ps pg H ?c h (lo_of lo ks ?i) (hi_of hi ks ?i)"
    unfolding ctx_ok.simps
    by (intro conjI, use inner.prems(2) in simp, rule exI [of _ lo], rule exI [of _ hi])
      (use inner.hyps inner.IH inner.prems(1) i lohi in simp)
  note iv = child_of_interval [OF inner(2) inner.prems(3,4)]
  have st: "stack_ok psz ins pg ?c (pid_of (cs ! ?i)) ?st"
    using stack_ok_step [OF inner.prems(6) [simplified]] inner.prems(5) by simp
  have eq: "plug ?c (cs ! ?i) = plug c (Inner p ks cs)" by simp
  have fl: "find_leaf_from pg key p = find_leaf_from pg key (pid_of (cs ! ?i))"
    "find_leaf_wlatch_from pg psz ins key p st = find_leaf_wlatch_from pg psz ins key (pid_of (cs ! ?i)) ?st"
    using pt child by (simp_all add: find_leaf_from.simps [of pg key p] find_leaf_wlatch_from.simps [of pg psz ins key p st] Let_def)
  have "length ?c + h < 32" using inner.prems(5) by simp
  from inner.IH [rule_format, OF i, THEN conjunct2, rule_format, of ?c ?st] ctx iv st this
  show ?case unfolding eq pid_of.simps fl by simp
qed

section \<open>The tree of a store\<close>

text \<open>The leaves are linked in order; \<open>nx\<close> is what follows the last one.\<close>

fun leaf_links :: "nat \<Rightarrow> (page_id \<Rightarrow> bytes) \<Rightarrow> page_id list \<Rightarrow> page_id \<Rightarrow> bool" where
  "leaf_links ps pg [] nx \<longleftrightarrow> True"
| "leaf_links ps pg (p # r) nx \<longleftrightarrow> (\<exists>es. node_at ps (pg p) (LeafN (hd (r @ [nx])) es)) \<and> leaf_links ps pg r nx"

lemma leaf_links_append:
  "leaf_links ps pg (xs @ ys) nx \<longleftrightarrow> leaf_links ps pg xs (hd (ys @ [nx])) \<and> leaf_links ps pg ys nx"
proof (induction xs)
  case (Cons x xs)
  then show ?case by (cases xs) auto
qed simp

lemma leaf_links_cong:
  assumes "leaf_links ps pg l nx"
    and "\<And>q n es. q \<in> set l \<Longrightarrow> node_at ps (pg q) (LeafN n es) \<Longrightarrow> node_at ps (pg' q) (LeafN n es)"
  shows "leaf_links ps pg' l nx"
  using assms
proof (induction l)
  case (Cons p r)
  then show ?case by (metis leaf_links.simps(2) list.set_intros(1,2))
qed simp

definition index_tree :: "store \<Rightarrow> page_id list \<Rightarrow> nat \<Rightarrow> bt \<Rightarrow> bool" where
  "index_tree s fl h t \<longleftrightarrow> bt_ok (unat (st_page_size s)) (st_pages s) h 0 (2 ^ 64) t
     \<and> pid_of t = root_id s \<and> distinct (pids t) \<and> (\<forall>p \<in> set (pids t). in_use s fl p)
     \<and> leaf_links (unat (st_page_size s)) (st_pages s) (leaves t) 0 \<and> h < 32"

text \<open>The index as a map.\<close>

definition index_map :: "bt \<Rightarrow> u64 \<Rightarrow> row_ref option" where
  "index_map t = map_of (map (\<lambda>e. (le_key e, le_row_ref e)) (entries t))"

lemma index_descend:
  assumes "index_tree s fl h t"
  shows "\<exists>d p nx es clo chi st'. t = plug d (Leaf p es) \<and> ctx_ok (unat (st_page_size s)) (st_pages s) h d 0 clo chi
    \<and> hole_pid d p \<and> bt_ok (unat (st_page_size s)) (st_pages s) 0 clo chi (Leaf p es)
    \<and> node_at (unat (st_page_size s)) (st_pages s p) (LeafN nx es)
    \<and> clo \<le> unat key \<and> unat key < chi \<and> find_leaf_rlatch s key = Some p
    \<and> find_leaf_wlatch s ins key = Some (p, st') \<and> stack_ok (st_page_size s) ins (st_pages s) d p st' \<and> length d = h"
proof -
  have "stack_ok (st_page_size s) ins (st_pages s) [] (pid_of t) (ls_push [] (root_id s))"
    using assms by (simp add: stack_ok_def ls_push_def MAX_TREE_DEPTH_def index_tree_def)
  moreover have "unat key < 2 ^ 64" using unat_lt_u64 [of key] by simp
  ultimately show ?thesis
    using assms descend [of "unat (st_page_size s)" "st_pages s" h 0 "2 ^ 64" t h "[]" key "st_page_size s" ins
      "ls_push [] (root_id s)"]
    unfolding index_tree_def find_leaf_rlatch_def find_leaf_wlatch_def by simp metis
qed

text \<open>The keys of the tree that lie in the leaf's interval are the leaf's.\<close>

lemma index_map_leaf:
  assumes "ctx_ok ps pg H d 0 clo chi" "clo \<le> unat key" "unat key < chi"
  shows "index_map (plug d (Leaf p es)) key = map_of (map (\<lambda>e. (le_key e, le_row_ref e)) es) key"
proof -
  let ?kv = "\<lambda>e. (le_key e, le_row_ref e)"
  note B = ctx_bounds [OF assms(1)]
  have "map_of (map ?kv (ctx_before entries d)) key = None"
    using B(2) assms(2) by (auto simp: map_of_eq_None_iff)
  moreover have "map_of (map ?kv (ctx_after entries d)) key = None"
    using B(3) assms(3) by (auto simp: map_of_eq_None_iff)
  ultimately show ?thesis
    using entries_plug [OF ctx_ok_indices [OF assms(1)], of "Leaf p es"]
    by (simp add: index_map_def map_add_def split: option.splits)
qed

lemma leaf_lookup:
  assumes "sorted_wrt (<) (map le_key es)"
  shows "(leaf_find es key < length es \<and> le_key (es ! leaf_find es key) = key)
      \<longleftrightarrow> key \<in> set (map le_key es)"
    and "leaf_find es key < length es \<Longrightarrow> le_key (es ! leaf_find es key) = key
      \<Longrightarrow> map_of (map (\<lambda>e. (le_key e, le_row_ref e)) es) key = Some (le_row_ref (es ! leaf_find es key))"
    and "leaf_find es key \<le> length es"
    and "\<forall>k \<in> set (map le_key (take (leaf_find es key) es)). k < key"
    and "\<forall>k \<in> set (map le_key (drop (leaf_find es key) es)). key \<le> k"
proof -
  let ?n = "leaf_find es key" and ?ks = "map le_key es"
  have n: "?n = length (takeWhile (\<lambda>k. k < key) ?ks)" by (rule leaf_find_sorted [OF assms])
  show le: "?n \<le> length es" using length_takeWhile_le [of "\<lambda>k. k < key" ?ks] n by simp
  have "sorted_wrt (\<lambda>x y. y < key \<longrightarrow> x < key) ?ks" using assms by (auto elim: sorted_wrt_mono_rel [rotated])
  from takeWhile_length_iff [OF this] n have iff: "le_key (es ! i) < key \<longleftrightarrow> i < ?n" if "i < length es" for i
    using that by simp
  show "\<forall>k \<in> set (map le_key (take ?n es)). k < key"
    using iff le by (auto simp: in_set_conv_nth)
  show ge: "\<forall>k \<in> set (map le_key (drop ?n es)). key \<le> k"
    using iff le by (auto simp: in_set_conv_nth not_less [symmetric])
  have d: "distinct ?ks" using assms by (rule sorted_wrt_less_distinct)
  show "(?n < length es \<and> le_key (es ! ?n) = key) \<longleftrightarrow> key \<in> set ?ks"
  proof
    assume "key \<in> set ?ks"
    then obtain i where i: "i < length es" "le_key (es ! i) = key" by (auto simp: in_set_conv_nth)
    then have "?n \<le> i" using iff [of i] by simp
    moreover have "\<not> ?n < i"
    proof
      assume "?n < i"
      then have "le_key (es ! ?n) < le_key (es ! i)" using assms i(1) sorted_wrt_nth_less [of "(<)" ?ks ?n i] by simp
      then show False using iff [of ?n] i \<open>?n < i\<close> by simp
    qed
    ultimately show "?n < length es \<and> le_key (es ! ?n) = key" using i by auto
  next
    assume "?n < length es \<and> le_key (es ! ?n) = key"
    then show "key \<in> set ?ks" by (metis image_eqI list.set_map nth_mem)
  qed
  assume "?n < length es" "le_key (es ! ?n) = key"
  then have "(key, le_row_ref (es ! ?n)) \<in> set (map (\<lambda>e. (le_key e, le_row_ref e)) es)"
    by (metis (no_types, lifting) image_eqI list.set_map nth_mem)
  then show "map_of (map (\<lambda>e. (le_key e, le_row_ref e)) es) key = Some (le_row_ref (es ! ?n))"
    using d by (intro map_of_is_SomeI) (simp_all add: comp_def)
qed

theorem bptree_search_correct:
  assumes "index_tree s fl h t"
  shows "bptree_search s key = Some (index_map t key)"
proof -
  from index_descend [OF assms, of key True] obtain d p nx es clo chi where D: "t = plug d (Leaf p es)"
    "ctx_ok (unat (st_page_size s)) (st_pages s) h d 0 clo chi"
    "bt_ok (unat (st_page_size s)) (st_pages s) 0 clo chi (Leaf p es)"
    "node_at (unat (st_page_size s)) (st_pages s p) (LeafN nx es)" "clo \<le> unat key" "unat key < chi"
    "find_leaf_rlatch s key = Some p" by blast
  note L = node_at_leafD [OF D(4)]
  have srt: "sorted_wrt (<) (map le_key es)" using D(3) by (auto simp: bt_ok_Leaf keys_between_def)
  note K = leaf_lookup [OF srt, of key]
  have m: "index_map t key = map_of (map (\<lambda>e. (le_key e, le_row_ref e)) es) key"
    unfolding D(1) by (rule index_map_leaf [OF D(2,5,6)])
  have none: "map_of (map (\<lambda>e. (le_key e, le_row_ref e)) es) key = None" if "key \<notin> set (map le_key es)"
    using that by (force simp: map_of_eq_None_iff)
  show ?thesis
    using D(7) L(3,4) K(1,2) none m by (auto simp: bptree_search_def Let_def)
qed

end
