(* ===== verification/BPlus_Evolve.thy ===== *)
theory BPlus_Evolve
  imports BPlus_Search
begin

text \<open>
  How the index operations change a store. \<open>evolves s fl s' fl' N W T\<close>: the pages \<open>N\<close> were
  allocated, the pages outside \<open>T\<close> are untouched, those outside \<open>W\<close> still hold the node they
  held (parent and previous-leaf numbers may differ), and the header changed in its allocation
  fields and the root only.
\<close>

section \<open>Evolution of a store\<close>

definition idx_frame :: "db_header \<Rightarrow> db_header \<Rightarrow> bool" where
  "idx_frame h h' \<longleftrightarrow> hdr_frame (h\<lparr>hd_root_index_page_id := 0\<rparr>) (h'\<lparr>hd_root_index_page_id := 0\<rparr>)"

definition evolves ::
  "store \<Rightarrow> page_id list \<Rightarrow> store \<Rightarrow> page_id list \<Rightarrow> page_id set \<Rightarrow> page_id set \<Rightarrow> page_id set \<Rightarrow> bool" where
  "evolves s fl s' fl' N W T \<longleftrightarrow>
     store_ok s' fl' \<and> st_page_size s' = st_page_size s \<and> st_last_heap s' = st_last_heap s
     \<and> st_free_hint s' = st_free_hint s \<and> idx_frame (st_hdr s) (st_hdr s')
     \<and> (\<forall>q. in_use s' fl' q \<longleftrightarrow> in_use s fl q \<or> q \<in> N) \<and> (\<forall>q \<in> N. \<not> in_use s fl q)
     \<and> (\<forall>q. in_use s fl q \<and> q \<notin> T \<longrightarrow> st_pages s' q = st_pages s q)
     \<and> (\<forall>q X. in_use s fl q \<and> q \<notin> W \<and> node_at (unat (st_page_size s)) (st_pages s q) X
          \<longrightarrow> node_at (unat (st_page_size s)) (st_pages s' q) X)
     \<and> finite N \<and> unat (hd_next_page_id (st_hdr s')) \<le> unat (hd_next_page_id (st_hdr s)) + card N"

lemma idx_frame_refl [simp]: "idx_frame h h"
  by (simp add: idx_frame_def)

lemma idx_frame_trans: "idx_frame h h' \<Longrightarrow> idx_frame h' h'' \<Longrightarrow> idx_frame h h''"
  unfolding idx_frame_def by (rule hdr_frame_trans)

lemma idx_frame_alloc: "st_alloc s = (p, s') \<Longrightarrow> idx_frame (st_hdr s) (st_hdr s')"
  by (auto simp: st_alloc_def Let_def idx_frame_def hdr_frame_def split: if_splits)

lemma evolvesD:
  assumes "evolves s fl s' fl' N W T"
  shows "store_ok s' fl'" "st_page_size s' = st_page_size s" "st_last_heap s' = st_last_heap s"
    "st_free_hint s' = st_free_hint s" "idx_frame (st_hdr s) (st_hdr s')"
    "in_use s' fl' q \<longleftrightarrow> in_use s fl q \<or> q \<in> N" "q \<in> N \<Longrightarrow> \<not> in_use s fl q"
    "in_use s fl q \<Longrightarrow> q \<notin> T \<Longrightarrow> st_pages s' q = st_pages s q"
    "in_use s fl q \<Longrightarrow> q \<notin> W \<Longrightarrow> node_at (unat (st_page_size s)) (st_pages s q) X
      \<Longrightarrow> node_at (unat (st_page_size s)) (st_pages s' q) X"
    "finite N" "unat (hd_next_page_id (st_hdr s')) \<le> unat (hd_next_page_id (st_hdr s)) + card N"
  using assms by (auto simp: evolves_def)

lemma evolves_refl: "store_ok s fl \<Longrightarrow> evolves s fl s fl {} {} {}"
  by (simp add: evolves_def)

lemma evolves_trans:
  assumes A: "evolves s fl s1 fl1 N1 W1 T1" and B: "evolves s1 fl1 s2 fl2 N2 W2 T2"
  shows "evolves s fl s2 fl2 (N1 \<union> N2) (W1 \<union> W2) (T1 \<union> T2)"
proof -
  note a = evolvesD [OF A] and b = evolvesD [OF B]
  have "\<forall>q \<in> N1 \<union> N2. \<not> in_use s fl q" using a(6,7) b(7) by blast
  moreover have "\<forall>q X. in_use s fl q \<and> q \<notin> W1 \<union> W2 \<and> node_at (unat (st_page_size s)) (st_pages s q) X
      \<longrightarrow> node_at (unat (st_page_size s)) (st_pages s2 q) X"
    using a(2,6,9) b(9) by auto
  moreover have "\<forall>q. in_use s fl q \<and> q \<notin> T1 \<union> T2 \<longrightarrow> st_pages s2 q = st_pages s q"
    using a(6,8) b(8) by auto
  moreover have "N1 \<inter> N2 = {}" using a(6) b(7) by blast
  then have "card (N1 \<union> N2) = card N1 + card N2" using a(10) b(10) by (simp add: card_Un_disjoint)
  then have "unat (hd_next_page_id (st_hdr s2)) \<le> unat (hd_next_page_id (st_hdr s)) + card (N1 \<union> N2)"
    using a(11) b(11) by linarith
  ultimately show ?thesis
    using a(2-6,10) b(1-6,10) by (auto simp: evolves_def intro: idx_frame_trans)
qed

lemma evolves_room: "evolves s fl s' fl' N W T \<Longrightarrow> card N \<le> k \<Longrightarrow> room s (n + k) \<Longrightarrow> room s' n"
  by (auto simp: evolves_def room_def)

lemma evolves_mono:
  assumes "evolves s fl s' fl' N W T" "\<And>q. q \<in> W \<Longrightarrow> in_use s fl q \<Longrightarrow> q \<in> W'"
    "\<And>q. q \<in> T \<Longrightarrow> in_use s fl q \<Longrightarrow> q \<in> T'"
  shows "evolves s fl s' fl' N W' T'"
  using assms unfolding evolves_def by blast

lemma evolves_put:
  assumes "store_ok s fl" "in_use s fl p" "length b = unat (st_page_size s)"
  shows "evolves s fl (st_put s p b) fl {} {p} {p}"
  using assms store_ok_put [OF assms(1) _ assms(3), of p] by (auto simp: evolves_def in_use_def)

lemma evolves_put_same:
  assumes "store_ok s fl" "in_use s fl p" "length b = unat (st_page_size s)"
    and "\<And>X. node_at (unat (st_page_size s)) (st_pages s p) X \<Longrightarrow> node_at (unat (st_page_size s)) b X"
  shows "evolves s fl (st_put s p b) fl {} {} {p}"
  using assms store_ok_put [OF assms(1) _ assms(3), of p] by (auto simp: evolves_def in_use_def)

lemma evolves_alloc:
  assumes "store_ok s fl" "room s 1" "st_alloc s = (p, s')"
  shows "evolves s fl s' (tl fl) {p} {} {}"
proof -
  note A = st_alloc_ok [OF assms(1,3,2)] and B = st_alloc_simps [OF assms(3)]
  have fresh: "\<not> in_use s fl p" by (rule st_alloc_fresh [OF assms(1,3)])
  then have "st_pages s' q = st_pages s q" if "in_use s fl q" for q using that B(1) by auto
  moreover have "unat (hd_next_page_id (st_hdr s')) \<le> unat (hd_next_page_id (st_hdr s)) + 1"
    using assms(3) by (auto simp: st_alloc_def Let_def unat_word_ariths split: if_splits)
  ultimately show ?thesis using A B fresh idx_frame_alloc [OF assms(3)] by (simp add: evolves_def)
qed

lemma evolves_set_root:
  assumes "store_ok s fl"
  shows "evolves s fl (s\<lparr>st_hdr := (st_hdr s)\<lparr>hd_root_index_page_id := r\<rparr>\<rparr>) fl {} {} {}"
  using assms store_ok_hdr_cong [of "(st_hdr s)\<lparr>hd_root_index_page_id := r\<rparr>" s fl]
  by (simp add: evolves_def idx_frame_def hdr_frame_def)

lemma update_child_parent_simps [simp]:
  "st_hdr (update_child_parent s c p) = st_hdr s" "st_page_size (update_child_parent s c p) = st_page_size s"
  "root_id (update_child_parent s c p) = root_id s" "room (update_child_parent s c p) n = room s n"
  by (simp_all add: update_child_parent_def root_id_def room_def)

lemma root_id_put [simp]: "root_id (st_put s p b) = root_id s"
  by (simp add: root_id_def)

lemma room_put [simp]: "room (st_put s p b) n = room s n"
  by (simp add: room_def)

lemma root_id_alloc: "st_alloc s = (p, s') \<Longrightarrow> root_id s' = root_id s"
  using st_alloc_simps(5) by (simp add: root_id_def)

lemma evolves_update_child_parent:
  assumes "store_ok s fl" "in_use s fl c"
  shows "evolves s fl (update_child_parent s c p) fl {} {} {c}"
  unfolding update_child_parent_def
  using store_okD(1) [OF assms(1), of c] store_okD(3) [OF assms(1)]
  by (intro evolves_put_same assms node_at_set_parent) simp

lemma evolves_update_children:
  assumes "store_ok s fl" "\<forall>c \<in> set cl. in_use s fl c"
  shows "evolves s fl (foldl (\<lambda>s c. update_child_parent s c p) s cl) fl {} {} (set cl)"
    and "root_id (foldl (\<lambda>s c. update_child_parent s c p) s cl) = root_id s"
    and "room (foldl (\<lambda>s c. update_child_parent s c p) s cl) n = room s n"
  using assms
proof (induction cl arbitrary: s)
  case Nil
  {
    case 1
    then show ?case by (simp add: evolves_refl)
  next
    case 2
    then show ?case by simp
  next
    case 3
    then show ?case by simp
  }
next
  case (Cons c cl)
  {
    fix s assume s: "store_ok s fl" "\<forall>c \<in> set (c # cl). in_use s fl c"
    note E = evolves_update_child_parent [OF s(1), of c p]
    have u: "in_use s fl c" using s(2) by simp
    have "\<forall>c' \<in> set cl. in_use (update_child_parent s c p) fl c'" using evolvesD(6) [OF E [OF u]] s(2) by simp
    note ih = Cons.IH [OF evolvesD(1) [OF E [OF u]] this]
    have "evolves s fl (foldl (\<lambda>s c. update_child_parent s c p) s (c # cl)) fl {} {} (set (c # cl))"
      using evolves_trans [OF E [OF u] ih(1)] by simp
    moreover have "root_id (foldl (\<lambda>s c. update_child_parent s c p) s (c # cl)) = root_id s"
      "room (foldl (\<lambda>s c. update_child_parent s c p) s (c # cl)) n = room s n"
      using ih(2,3) by simp_all
    moreover note calculation
  }
  note X = this
  {
    case 1
    then show ?case using X by blast
  next
    case 2
    then show ?case using X by blast
  next
    case 3
    then show ?case using X by blast
  }
qed

section \<open>Trees and contexts in an evolving store\<close>

lemma bt_ok_evolves:
  assumes "evolves s fl s' fl' N W T" "bt_ok (unat (st_page_size s)) (st_pages s) h lo hi t"
    and "\<forall>q \<in> set (pids t). in_use s fl q" "set (pids t) \<inter> W = {}"
  shows "bt_ok (unat (st_page_size s)) (st_pages s') h lo hi t"
  by (rule bt_ok_cong [OF assms(2)]) (use evolvesD(9) [OF assms(1)] assms(3,4) in blast)

lemma ctx_ok_evolves:
  assumes "evolves s fl s' fl' N W T" "ctx_ok (unat (st_page_size s)) (st_pages s) H c h lo hi"
    and "\<forall>q \<in> set (ctx_pids c). in_use s fl q" "set (ctx_pids c) \<inter> W = {}"
  shows "ctx_ok (unat (st_page_size s)) (st_pages s') H c h lo hi"
  by (rule ctx_ok_cong [OF assms(2)]) (use evolvesD(9) [OF assms(1)] assms(3,4) in blast)

end
