(* ===== verification/BPlus_Split.thy ===== *)
theory BPlus_Split
  imports BPlus_Evolve
begin

text \<open>
  What \<open>split_leaf\<close>, \<open>split_internal\<close> and \<open>new_root\<close> do to the nodes of a store, and the key
  intervals of the pieces.
\<close>

section \<open>Children under separators\<close>

definition kids :: "nat \<Rightarrow> (page_id \<Rightarrow> bytes) \<Rightarrow> nat \<Rightarrow> nat \<Rightarrow> nat \<Rightarrow> u64 list \<Rightarrow> bt list \<Rightarrow> bool" where
  "kids ps pg h lo hi ks cs \<longleftrightarrow> keys_between lo hi ks \<and> (\<forall>k \<in> set ks. lo < unat k) \<and> length cs = Suc (length ks)
     \<and> (\<forall>j < length cs. bt_ok ps pg h (lo_of lo ks j) (hi_of hi ks j) (cs ! j))"

lemma bt_ok_InnerI:
  "node_at ps (pg p) (InnerN ks (map pid_of cs)) \<Longrightarrow> kids ps pg h lo hi ks cs \<Longrightarrow> ks \<noteq> []
   \<Longrightarrow> bt_ok ps pg (Suc h) lo hi (Inner p ks cs)"
  by (auto simp: kids_def seps_above_def intro: bt_ok.inner)

lemma kids_cong:
  assumes "kids ps pg h lo hi ks cs"
    and "\<And>p N. p \<in> set (concat (map pids cs)) \<Longrightarrow> node_at ps (pg p) N \<Longrightarrow> node_at ps (pg' p) N"
  shows "kids ps pg' h lo hi ks cs"
proof -
  have "bt_ok ps pg' h (lo_of lo ks j) (hi_of hi ks j) (cs ! j)" if "j < length cs" for j
  proof (rule bt_ok_cong)
    show "bt_ok ps pg h (lo_of lo ks j) (hi_of hi ks j) (cs ! j)" using assms(1) that by (simp add: kids_def)
    fix p N assume "p \<in> set (pids (cs ! j))" "node_at ps (pg p) N"
    then show "node_at ps (pg' p) N" using assms(2) that by (auto intro: nth_mem)
  qed
  then show ?thesis using assms(1) by (simp add: kids_def)
qed

lemma list_insert_nth:
  "i \<le> length xs \<Longrightarrow> list_insert i x xs ! j = (if j < i then xs ! j else if j = i then x else xs ! (j - 1))"
  by (auto simp: list_insert_def nth_append nth_Cons')

lemma length_list_insert [simp]: "length (list_insert i x xs) = Suc (length xs)"
  by (simp add: list_insert_def min_def)

lemma map_list_insert: "map f (list_insert i x xs) = list_insert i (f x) (map f xs)"
  by (simp add: list_insert_def take_map drop_map)

lemma list_insert_Suc_Cons [simp]: "list_insert (Suc i) x (a # xs) = a # list_insert i x xs"
  by (simp add: list_insert_def)

lemma keys_between_insert:
  assumes "keys_between lo hi ks" "i \<le> length ks" "lo_of lo ks i < unat k" "unat k < hi_of hi ks i" "lo \<le> hi"
  shows "keys_between lo hi (list_insert i k ks)"
proof -
  have p: "keys_between lo hi (take i ks)" "keys_between lo hi (drop i ks)"
    and o: "\<forall>x \<in> set (take i ks). \<forall>y \<in> set (drop i ks). x < y"
    using assms(1) keys_between_append [of lo hi "take i ks" "drop i ks"] by simp_all
  have lt: "x < k" if "x \<in> set (take i ks)" for x
  proof -
    from that assms(2) obtain j where j: "j < i" "x = ks ! j" by (auto simp: in_set_conv_nth)
    have "unat (ks ! j) \<le> unat (ks ! (i - 1))" using keys_between_nth_mono [OF assms(1), of j "i - 1"] j(1) assms(2) by simp
    also have "\<dots> < unat k" using assms(3) j(1) by (simp add: lo_of_def)
    finally show ?thesis by (simp add: j(2) word_less_nat_alt)
  qed
  have gt: "k < y" if "y \<in> set (drop i ks)" for y
  proof -
    from that obtain j where "j < length (drop i ks)" "y = drop i ks ! j" unfolding in_set_conv_nth by blast
    then have j: "i + j < length ks" "y = ks ! (i + j)" using assms(2) by simp_all
    have "unat k < unat (ks ! i)" using assms(4) j(1) by (simp add: hi_of_def)
    also have "\<dots> \<le> unat (ks ! (i + j))" using keys_between_nth_mono [OF assms(1), of i "i + j"] j(1) by simp
    finally show ?thesis by (simp add: j(2) word_less_nat_alt)
  qed
  have "lo \<le> unat k" "unat k < hi" using bounds_range [OF assms(1,5,2)] assms(3,4) by linarith+
  then have "keys_between lo hi (k # drop i ks)" using p(2) gt by (auto simp: keys_between_def)
  then show ?thesis using p o lt by (auto simp: list_insert_def keys_between_append)
qed

lemma kids_insert:
  assumes kb: "keys_between lo hi ks" "length cs = Suc (length ks)" "i < length cs" "lo \<le> hi"
    and above: "\<forall>x \<in> set ks. lo < unat x"
    and others: "\<forall>j < length cs. j \<noteq> i \<longrightarrow> bt_ok ps pg h (lo_of lo ks j) (hi_of hi ks j) (cs ! j)"
    and t1: "bt_ok ps pg h (lo_of lo ks i) (unat k) t1" and t2: "bt_ok ps pg h (unat k) (hi_of hi ks i) t2"
    and k: "lo_of lo ks i < unat k" "unat k < hi_of hi ks i"
  shows "kids ps pg h lo hi (list_insert i k ks) (list_insert (Suc i) t2 (cs[i := t1]))"
proof -
  have i: "i \<le> length ks" using kb by simp
  have "bt_ok ps pg h (lo_of lo (list_insert i k ks) j) (hi_of hi (list_insert i k ks) j) (list_insert (Suc i) t2 (cs[i := t1]) ! j)"
    if j: "j < length (list_insert (Suc i) t2 (cs[i := t1]))" for j
  proof -
    consider "j < i" | "j = i" | "j = Suc i" | "Suc i < j" by linarith
    then show ?thesis
    proof cases
      case 1
      then have "lo_of lo (list_insert i k ks) j = lo_of lo ks j" "hi_of hi (list_insert i k ks) j = hi_of hi ks j"
        using i by (auto simp: lo_of_def hi_of_def list_insert_nth)
      with 1 others kb show ?thesis by (simp add: list_insert_nth)
    next
      case 2
      then have "lo_of lo (list_insert i k ks) j = lo_of lo ks i" "hi_of hi (list_insert i k ks) j = unat k"
        using i by (auto simp: lo_of_def hi_of_def list_insert_nth)
      with 2 t1 kb show ?thesis by (simp add: list_insert_nth)
    next
      case 3
      then have "lo_of lo (list_insert i k ks) j = unat k" "hi_of hi (list_insert i k ks) j = hi_of hi ks i"
        using i by (auto simp: lo_of_def hi_of_def list_insert_nth)
      with 3 t2 kb show ?thesis by (simp add: list_insert_nth)
    next
      case 4
      then have "lo_of lo (list_insert i k ks) j = lo_of lo ks (j - 1)" "hi_of hi (list_insert i k ks) j = hi_of hi ks (j - 1)"
        using i j kb by (auto simp: lo_of_def hi_of_def list_insert_nth)
      with 4 others kb j show ?thesis by (simp add: list_insert_nth)
    qed
  qed
  moreover have "lo < unat k" using bounds_range(1) [OF kb(1,4) i] k(1) by simp
  then have "\<forall>x \<in> set (list_insert i k ks). lo < unat x"
    using above by (auto simp: list_insert_def dest: in_set_takeD in_set_dropD)
  ultimately show ?thesis
    unfolding kids_def using keys_between_insert [OF kb(1) i k kb(4)] kb(2) by simp
qed

lemma kids_split:
  assumes "kids ps pg h lo hi ks cs" "j < length ks"
  shows "kids ps pg h lo (unat (ks ! j)) (take j ks) (take (Suc j) cs)"
    and "kids ps pg h (unat (ks ! j)) hi (drop (Suc j) ks) (drop (Suc j) cs)"
proof -
  have K: "keys_between lo hi ks" "length cs = Suc (length ks)" "\<forall>k \<in> set ks. lo < unat k"
    and b: "\<And>i. i < length cs \<Longrightarrow> bt_ok ps pg h (lo_of lo ks i) (hi_of hi ks i) (cs ! i)"
    using assms(1) by (auto simp: kids_def)
  have dec: "ks = take j ks @ ks ! j # drop (Suc j) ks" using assms(2) by (simp add: id_take_nth_drop)
  have kb: "keys_between lo hi (take j ks)" "keys_between lo hi (ks ! j # drop (Suc j) ks)"
    "\<forall>x \<in> set (take j ks). x < ks ! j"
    using K(1) dec keys_between_append [of lo hi "take j ks" "ks ! j # drop (Suc j) ks"] by auto
  have l: "lo_of lo (take j ks) i = lo_of lo ks i" "hi_of (unat (ks ! j)) (take j ks) i = hi_of hi ks i" if "i \<le> j" for i
    using that assms(2) by (auto simp: lo_of_def hi_of_def)
  have r: "lo_of (unat (ks ! j)) (drop (Suc j) ks) i = lo_of lo ks (Suc j + i)"
    "hi_of hi (drop (Suc j) ks) i = hi_of hi ks (Suc j + i)" if "Suc j + i \<le> length ks" for i
    using that by (auto simp: lo_of_def hi_of_def)
  have "keys_between lo (unat (ks ! j)) (take j ks)"
    using kb(1,3) by (auto simp: keys_between_def word_less_nat_alt)
  then show "kids ps pg h lo (unat (ks ! j)) (take j ks) (take (Suc j) cs)"
    unfolding kids_def using K(2,3) assms(2) b l by (auto dest: in_set_takeD)
  have "keys_between (unat (ks ! j)) hi (drop (Suc j) ks)"
    using kb(2) by (auto simp: keys_between_def word_less_nat_alt)
  moreover have "\<forall>k \<in> set (drop (Suc j) ks). unat (ks ! j) < unat k"
    using kb(2) by (auto simp: keys_between_def word_less_nat_alt)
  ultimately show "kids ps pg h (unat (ks ! j)) hi (drop (Suc j) ks) (drop (Suc j) cs)"
    unfolding kids_def using K(2) assms(2) b [of "Suc j + _"] r by auto
qed

section \<open>Capacities\<close>

lemma caps:
  assumes "store_ok s fl"
  shows "unat (max_leaf_keys (st_page_size s)) = leaf_cap (unat (st_page_size s))"
    "unat (max_internal_keys (st_page_size s)) = inner_cap (unat (st_page_size s))"
    "3 \<le> leaf_cap (unat (st_page_size s))" "4 \<le> inner_cap (unat (st_page_size s))"
    "leaf_cap (unat (st_page_size s)) < 65536" "inner_cap (unat (st_page_size s)) < 65536"
    "20 \<le> unat (st_page_size s)"
proof -
  note S = store_okD(3,4) [OF assms]
  from S show "20 \<le> unat (st_page_size s)" by simp
  then show "unat (max_leaf_keys (st_page_size s)) = leaf_cap (unat (st_page_size s))"
    "unat (max_internal_keys (st_page_size s)) = inner_cap (unat (st_page_size s))"
    by (rule unat_max_keys)+
  show "3 \<le> leaf_cap (unat (st_page_size s))" "4 \<le> inner_cap (unat (st_page_size s))"
    using S by (simp_all add: leaf_cap_fits inner_cap_fits)
  show "leaf_cap (unat (st_page_size s)) < 65536" "inner_cap (unat (st_page_size s)) < 65536"
    using S by (simp_all add: leaf_cap_def inner_cap_def div_less_iff_less_mult)
qed

section \<open>Splitting a leaf\<close>

lemma split_leaf_nodes:
  assumes ok: "store_ok s fl" "room s 1" and p: "in_use s fl p" "node_at (unat (st_page_size s)) (st_pages s p) (LeafN nx es)"
    and full: "length es = leaf_cap (unat (st_page_size s))"
    and nx: "nx \<noteq> 0 \<Longrightarrow> in_use s fl nx \<and> nx \<noteq> p \<and> (\<exists>n es'. node_at (unat (st_page_size s)) (st_pages s nx) (LeafN n es'))"
    and tmp: "tmp = list_insert (leaf_find es key) \<lparr>le_key = key, le_row_ref = ref\<rparr> es" "leaf_find es key \<le> length es"
    and sp: "sp = length tmp div 2"
  shows "\<exists>new s' fl'. split_leaf s p key ref = (le_key (tmp ! sp), new, s') \<and> evolves s fl s' fl' {new} {p} {p, nx}
    \<and> root_id s' = root_id s \<and> (\<forall>n. room s (Suc n) \<longrightarrow> room s' n) \<and> new \<noteq> 0
    \<and> node_at (unat (st_page_size s)) (st_pages s' p) (LeafN new (take sp tmp))
    \<and> node_at (unat (st_page_size s)) (st_pages s' new) (LeafN nx (drop sp tmp))"
proof -
  let ?ps = "unat (st_page_size s)"
  note C = caps [OF ok(1)] and L = node_at_leafD [OF p(2)]
  have len: "length tmp = Suc (leaf_cap ?ps)" using tmp full by simp
  obtain new s1 where a: "st_alloc s = (new, s1)" by (cases "st_alloc s")
  note E1 = evolves_alloc [OF ok a] and A = st_alloc_simps [OF a]
  note D1 = evolvesD [OF E1]
  have psz: "st_page_size s1 = st_page_size s" by (rule A(2))
  have new: "in_use s1 (tl fl) new" "new \<noteq> p" "new \<noteq> nx \<or> nx = 0" "new \<noteq> 0"
    using D1(6) st_alloc_fresh [OF ok(1) a] p(1) nx st_alloc_ok(2) [OF ok(1) a ok(2)] by auto
  define nlph where "nlph = \<lparr>lph_page_type = PAGE_TYPE_LEAF, lph_parent_page_id = lph_parent_page_id (get_leaf_hdr (st_pages s p)),
    lph_key_count = word_of_nat (length tmp - sp), lph_next_leaf = nx, lph_prev_leaf = p\<rparr>"
  define s2 where "s2 = st_put s1 new (write_leaf (page_zero s1) nlph (drop sp tmp))"
  have N2: "node_at ?ps (write_leaf (page_zero s1) nlph (drop sp tmp)) (LeafN nx (drop sp tmp))"
  proof -
    have "unat (lph_key_count nlph) = length (drop sp tmp)"
      unfolding nlph_def leaf_page_header.select_convs length_drop
      by (rule unat_of_nat_small) (use len C(5) in linarith)
    moreover have "length (drop sp tmp) \<le> leaf_cap ?ps" using len sp C(3) by simp
    moreover have "lph_page_type nlph = PAGE_TYPE_LEAF" "lph_next_leaf nlph = nx" by (simp_all add: nlph_def)
    ultimately show ?thesis
      using node_at_write_leaf [of "page_zero s1" ?ps "drop sp tmp" nlph] C(7) psz by simp
  qed
  have E2: "evolves s1 (tl fl) s2 (tl fl) {} {new} {new}"
    unfolding s2_def by (rule evolves_put [OF D1(1) new(1)]) (use N2 psz in \<open>simp add: node_at_def\<close>)
  note D2 = evolvesD [OF E2]
  define s3 where "s3 = (if nx \<noteq> 0 then st_put s2 nx (set_prev_leaf (st_pages s2 nx) new) else s2)"
  have E3: "evolves s2 (tl fl) s3 (tl fl) {} {} {nx}"
  proof (cases "nx = 0")
    case True
    then show ?thesis unfolding s3_def using evolves_refl [OF D2(1)] by (auto intro: evolves_mono)
  next
    case False
    from nx [OF False] obtain n es' where n: "in_use s fl nx" "nx \<noteq> p" "node_at ?ps (st_pages s nx) (LeafN n es')" by blast
    then have eq: "st_pages s2 nx = st_pages s nx" using new False by (simp add: s2_def A(1))
    have "evolves s2 (tl fl) (st_put s2 nx (set_prev_leaf (st_pages s2 nx) new)) (tl fl) {} {} {nx}"
    proof (rule evolves_put_same [OF D2(1)])
      show "in_use s2 (tl fl) nx" using D2(6) D1(6) n(1) by simp
      show "length (set_prev_leaf (st_pages s2 nx) new) = unat (st_page_size s2)"
        using store_okD(1) [OF D2(1)] C D2(2) psz by simp
      fix X assume "node_at (unat (st_page_size s2)) (st_pages s2 nx) X"
      moreover have "node_at ?ps (st_pages s2 nx) (LeafN n es')" using n(3) eq by simp
      ultimately have "X = LeafN n es'" by (simp add: node_at_def)
      then show "node_at (unat (st_page_size s2)) (set_prev_leaf (st_pages s2 nx) new) X"
        using node_at_set_prev_leaf [OF n(3)] eq D2(2) psz by simp
    qed
    with False show ?thesis by (simp add: s3_def)
  qed
  note D3 = evolvesD [OF E3]
  have p3: "in_use s3 (tl fl) p" "st_pages s3 p = st_pages s p"
    using D1(6) D2(6) D3(6) p(1) new(2) nx by (auto simp: s3_def s2_def A(1))
  define pg where "pg = mwrite (write_leaf (st_pages s3 p) ((get_leaf_hdr (st_pages s p))\<lparr>lph_key_count := word_of_nat sp, lph_next_leaf := new\<rparr>)
    (take sp tmp)) (20 + sp * 14) (replicate ((leaf_cap ?ps - sp) * 14) 0)"
  have spc: "sp \<le> leaf_cap ?ps" "sp \<le> length tmp" using len sp by linarith+
  have NP: "node_at ?ps pg (LeafN new (take sp tmp))"
    unfolding pg_def
  proof (rule node_at_zero_tail_leaf)
    show "node_at ?ps (write_leaf (st_pages s3 p) ((get_leaf_hdr (st_pages s p))\<lparr>lph_key_count := word_of_nat sp, lph_next_leaf := new\<rparr>)
      (take sp tmp)) (LeafN new (take sp tmp))"
      using node_at_write_leaf [of "st_pages s3 p" ?ps "take sp tmp" "(get_leaf_hdr (st_pages s p))\<lparr>lph_key_count := word_of_nat sp, lph_next_leaf := new\<rparr>"]
        C spc L p3 by (simp add: unat_of_nat_small min_def)
    show "20 + sp * 14 = 20 + length (take sp tmp) * 14" using spc by (simp add: min_def)
    have "20 + leaf_cap ?ps * 14 \<le> ?ps" using leaf_cap_fits [OF C(7), of "leaf_cap ?ps"] by simp
    then show "20 + sp * 14 + length (replicate ((leaf_cap ?ps - sp) * 14) 0) \<le> ?ps"
      using spc by (simp add: diff_mult_distrib)
  qed
  define s4 where "s4 = st_put s3 p pg"
  have E4: "evolves s3 (tl fl) s4 (tl fl) {} {p} {p}"
    unfolding s4_def by (rule evolves_put [OF D3(1) p3(1)]) (use NP D3(2) D2(2) psz in \<open>simp add: node_at_def\<close>)
  have "evolves s fl s4 (tl fl) {new} {new, p} {new, nx, p}"
    using evolves_trans [OF evolves_trans [OF evolves_trans [OF E1 E2] E3] E4] by (simp add: insert_commute)
  then have E: "evolves s fl s4 (tl fl) {new} {p} {p, nx}"
    by (rule evolves_mono) (use st_alloc_fresh [OF ok(1) a] in auto)
  have sl: "split_leaf s p key ref = (le_key (tmp ! sp), new, s4)"
    unfolding split_leaf_def Let_def L(3) L(4) C(1) tmp(1) [symmetric] a prod.case L(2) sp [symmetric]
      nlph_def [symmetric] s2_def [symmetric] s3_def [symmetric] pg_def [symmetric] s4_def [symmetric] psz ..
  have r: "root_id s4 = root_id s" "\<And>n. room s (Suc n) \<Longrightarrow> room s4 n"
    using root_id_alloc [OF a] st_alloc_room [OF a] by (auto simp: s4_def s3_def s2_def)
  have "st_pages s4 new = write_leaf (page_zero s1) nlph (drop sp tmp)"
    using new nx by (auto simp: s4_def s3_def s2_def)
  then have nn: "node_at ?ps (st_pages s4 new) (LeafN nx (drop sp tmp))" using N2 by simp
  have np: "node_at ?ps (st_pages s4 p) (LeafN new (take sp tmp))" using NP by (simp add: s4_def)
  show ?thesis
    by (rule exI [of _ new], rule exI [of _ s4], rule exI [of _ "tl fl"]) (use sl E r new(4) nn np in auto)
qed

section \<open>Splitting an internal node\<close>

lemma split_internal_nodes:
  assumes ok: "store_ok s fl" "room s 1"
    and p: "in_use s fl p" "node_at (unat (st_page_size s)) (st_pages s p) (InnerN ks cps)" "sorted_wrt (<) ks"
    and full: "length ks = inner_cap (unat (st_page_size s))"
    and ch: "in_use s fl right" "\<forall>c \<in> set cps. in_use s fl c"
    and ks': "ks' = list_insert (child_of ks k) k ks" and cps': "cps' = list_insert (Suc (child_of ks k)) right cps"
    and sp: "sp = length ks' div 2"
  shows "\<exists>new s' fl'. split_internal s p k right = (ks' ! sp, new, s')
    \<and> evolves s fl s' fl' {new} {p} (insert p (set cps'))
    \<and> root_id s' = root_id s \<and> (\<forall>n. room s (Suc n) \<longrightarrow> room s' n) \<and> new \<noteq> 0
    \<and> node_at (unat (st_page_size s)) (st_pages s' p) (InnerN (take sp ks') (take (Suc sp) cps'))
    \<and> node_at (unat (st_page_size s)) (st_pages s' new) (InnerN (drop (Suc sp) ks') (drop (Suc sp) cps'))"
proof -
  let ?ps = "unat (st_page_size s)"
  note C = caps [OF ok(1)]
  define s1 where "s1 = update_child_parent s right p"
  have E1: "evolves s fl s1 fl {} {} {right}" unfolding s1_def by (rule evolves_update_child_parent [OF ok(1) ch(1)])
  note D1 = evolvesD [OF E1]
  have P1: "node_at ?ps (st_pages s1 p) (InnerN ks cps)" using D1(9) p(1,2) by simp
  note L = node_at_innerD [OF P1]
  have psz1: "st_page_size s1 = st_page_size s" and room1: "room s1 1" using ok(2) by (simp_all add: s1_def)
  define es where "es = internal_entries (st_pages s1 p) (length ks)"
  define iph where "iph = get_internal_hdr (st_pages s1 p)"
  have es: "map ie_key es = ks" "iph_leftmost_child iph # map ie_right_child es = cps" using L(3,4) by (simp_all add: es_def iph_def)
  have fi: "internal_find es k = child_of ks k"
    using internal_find_inner [OF P1 p(3)] by (simp add: es_def)
  define tmp where "tmp = list_insert (child_of ks k) \<lparr>ie_key = k, ie_right_child = right\<rparr> es"
  have tmp: "map ie_key tmp = ks'" "iph_leftmost_child iph # map ie_right_child tmp = cps'"
    using es by (simp_all add: tmp_def ks' cps' map_list_insert flip: es(2))
  have len: "length ks' = Suc (inner_cap ?ps)" "length tmp = length ks'"
    using full arg_cong [OF tmp(1), of length] by (simp_all add: ks')
  have spl: "sp < length tmp" "sp \<le> inner_cap ?ps" "length tmp - sp - 1 \<le> inner_cap ?ps" using len sp C(4) by linarith+
  have key: "ie_key (tmp ! sp) = ks' ! sp" using tmp(1) spl(1) by auto
  have rights: "drop (Suc sp) cps' = map ie_right_child (drop sp tmp)" using tmp(2) by (auto simp: drop_map)
  have rc: "ie_right_child (tmp ! sp) # map ie_right_child (drop (sp + 1) tmp) = drop (Suc sp) cps'"
    unfolding rights using arg_cong [OF Cons_nth_drop_Suc [OF spl(1)], of "map ie_right_child"] by simp
  obtain new s2 where a: "st_alloc s1 = (new, s2)" by (cases "st_alloc s1")
  note E2 = evolves_alloc [OF D1(1) room1 a] and A = st_alloc_simps [OF a]
  note D2 = evolvesD [OF E2]
  have new: "\<not> in_use s fl new" "new \<noteq> p" "new \<noteq> 0" "in_use s2 (tl fl) new"
    using D2(6) st_alloc_fresh [OF D1(1) a] D1(6) p(1) st_alloc_ok(2) [OF D1(1) a room1] by auto
  define niph where "niph = \<lparr>iph_page_type = PAGE_TYPE_INTERNAL, iph_parent_page_id = iph_parent_page_id iph,
    iph_key_count = word_of_nat (length tmp - sp - 1), iph_leftmost_child = ie_right_child (tmp ! sp)\<rparr>"
  define s3 where "s3 = st_put s2 new (write_internal (page_zero s2) niph (drop (sp + 1) tmp))"
  have N3: "node_at ?ps (write_internal (page_zero s2) niph (drop (sp + 1) tmp)) (InnerN (drop (Suc sp) ks') (drop (Suc sp) cps'))"
  proof -
    have "unat (lph :: u32) = length (drop (sp + 1) tmp)" if "lph = word_of_nat (length tmp - sp - 1)" for lph
      unfolding that length_drop by (subst unat_of_nat_small) (use spl(3) C(6) in linarith)+
    then have "unat (iph_key_count niph) = length (drop (sp + 1) tmp)" by (simp add: niph_def)
    moreover have "length (drop (sp + 1) tmp) \<le> inner_cap ?ps" using spl(3) by simp
    moreover have "iph_page_type niph = PAGE_TYPE_INTERNAL" "iph_leftmost_child niph = ie_right_child (tmp ! sp)"
      by (simp_all add: niph_def)
    moreover have "map ie_key (drop (sp + 1) tmp) = drop (Suc sp) ks'" using tmp(1) by (auto simp: drop_map)
    ultimately show ?thesis
      using node_at_write_internal [of "page_zero s2" ?ps "drop (sp + 1) tmp" niph] C(7) psz1 A(2) rc by simp
  qed
  have E3: "evolves s2 (tl fl) s3 (tl fl) {} {new} {new}"
    unfolding s3_def by (rule evolves_put [OF D2(1) new(4)]) (use N3 psz1 A(2) in \<open>simp add: node_at_def\<close>)
  note D3 = evolvesD [OF E3]
  define s4 where "s4 = foldl (\<lambda>s c. update_child_parent s c new) s3 (drop (Suc sp) cps')"
  have "set (drop (Suc sp) cps') \<subseteq> insert right (set cps)"
    using set_drop_subset [of "Suc sp" cps'] by (auto simp: cps' list_insert_def dest: in_set_takeD in_set_dropD)
  then have "\<forall>c \<in> set (drop (Suc sp) cps'). in_use s3 (tl fl) c" using ch D1(6) D2(6) D3(6) by blast
  note U = evolves_update_children [OF D3(1) this, of new, folded s4_def]
  note D4 = evolvesD [OF U(1)]
  have psz4: "st_page_size s4 = st_page_size s" using D4(2) D3(2) D2(2) psz1 by simp
  have p4: "in_use s4 (tl fl) p" using D1(6) D2(6) D3(6) D4(6) p(1) by simp
  define hdr where "hdr = iph\<lparr>iph_key_count := word_of_nat sp\<rparr>"
  define pg where "pg = mwrite (write_internal (st_pages s4 p) hdr (take sp tmp)) (16 + sp * 12)
    (replicate ((inner_cap ?ps - sp) * 12) 0)"
  have NP: "node_at ?ps pg (InnerN (take sp ks') (take (Suc sp) cps'))"
    unfolding pg_def
  proof (rule node_at_zero_tail_inner)
    have "unat (iph_key_count hdr) = length (take sp tmp)"
      using spl C(6) by (simp add: hdr_def unat_of_nat_small)
    moreover have "length (take sp tmp) \<le> inner_cap ?ps" using spl by simp
    moreover have "iph_page_type hdr = PAGE_TYPE_INTERNAL" using L(5) by (simp add: hdr_def iph_def)
    moreover have "map ie_key (take sp tmp) = take sp ks'" using tmp(1) by (auto simp: take_map)
    moreover have "iph_leftmost_child hdr # map ie_right_child (take sp tmp) = take (Suc sp) cps'"
      using tmp(2) by (auto simp: take_map hdr_def)
    moreover have "length (st_pages s4 p) = ?ps" using store_okD(1) [OF D4(1)] psz4 by simp
    ultimately show "node_at ?ps (write_internal (st_pages s4 p) hdr (take sp tmp)) (InnerN (take sp ks') (take (Suc sp) cps'))"
      using node_at_write_internal [of "st_pages s4 p" ?ps "take sp tmp" hdr] C(7) by simp
    show "16 + sp * 12 = 16 + length (take sp ks') * 12" using spl len by simp
    have "16 + inner_cap ?ps * 12 \<le> ?ps" using inner_cap_fits [of ?ps "inner_cap ?ps"] C(7) by simp
    then show "16 + sp * 12 + length (replicate ((inner_cap ?ps - sp) * 12) 0) \<le> ?ps"
      using spl by (simp add: diff_mult_distrib)
  qed
  define s5 where "s5 = st_put s4 p pg"
  have E5: "evolves s4 (tl fl) s5 (tl fl) {} {p} {p}"
    unfolding s5_def by (rule evolves_put [OF D4(1) p4]) (use NP psz4 in \<open>simp add: node_at_def\<close>)
  have "evolves s fl s5 (tl fl) {new} {new, p} ({right, new, p} \<union> set (drop (Suc sp) cps'))"
    using evolves_trans [OF evolves_trans [OF evolves_trans [OF evolves_trans [OF E1 E2] E3] U(1)] E5]
    by (simp add: insert_commute Un_commute Un_left_commute)
  moreover have "right \<in> set cps'" by (simp add: cps' list_insert_def)
  ultimately have E: "evolves s fl s5 (tl fl) {new} {p} (insert p (set cps'))"
    using new(1) by (elim evolves_mono) (auto dest: in_set_dropD)
  have sl: "split_internal s p k right = (ks' ! sp, new, s5)"
    unfolding split_internal_def Let_def s1_def [symmetric] iph_def [symmetric] L(2) [folded iph_def] es_def [symmetric] fi
      tmp_def [symmetric] C(2) psz1 sp [folded len(2), symmetric] key a prod.case niph_def [symmetric] s3_def [symmetric]
      rc s4_def [symmetric] hdr_def [symmetric] pg_def [symmetric] s5_def [symmetric] ..
  have r: "root_id s5 = root_id s" "\<And>n. room s (Suc n) \<Longrightarrow> room s5 n"
    using root_id_alloc [OF a] st_alloc_room [OF a] U(2,3) by (simp_all add: s5_def s3_def s1_def)
  have "in_use s3 (tl fl) new" using D3(6) new(4) by simp
  moreover have "node_at (unat (st_page_size s3)) (st_pages s3 new) (InnerN (drop (Suc sp) ks') (drop (Suc sp) cps'))"
    using N3 psz1 A(2) by (simp add: s3_def)
  ultimately have "node_at ?ps (st_pages s4 new) (InnerN (drop (Suc sp) ks') (drop (Suc sp) cps'))"
    using D4(9) psz1 A(2) D3(2) by fastforce
  then have nn: "node_at ?ps (st_pages s5 new) (InnerN (drop (Suc sp) ks') (drop (Suc sp) cps'))"
    using new(2) by (simp add: s5_def)
  have np: "node_at ?ps (st_pages s5 p) (InnerN (take sp ks') (take (Suc sp) cps'))" using NP by (simp add: s5_def)
  show ?thesis
    by (rule exI [of _ new], rule exI [of _ s5], rule exI [of _ "tl fl"]) (use sl E r new(3) nn np in auto)
qed

section \<open>A new root\<close>

lemma new_root_nodes:
  assumes ok: "store_ok s fl" "room s 1" and u: "in_use s fl l" "in_use s fl r"
  shows "\<exists>new s' fl'. new_root s l k r = s' \<and> evolves s fl s' fl' {new} {} {l, r} \<and> root_id s' = new \<and> new \<noteq> 0
    \<and> node_at (unat (st_page_size s)) (st_pages s' new) (InnerN [k] [l, r])"
proof -
  let ?ps = "unat (st_page_size s)"
  note C = caps [OF ok(1)]
  obtain new s1 where a: "st_alloc s = (new, s1)" by (cases "st_alloc s")
  note E1 = evolves_alloc [OF ok a] and A = st_alloc_simps [OF a]
  note D1 = evolvesD [OF E1]
  have fresh: "\<not> in_use s fl new" by (rule st_alloc_fresh [OF ok(1) a])
  have new: "in_use s1 (tl fl) new" "new \<noteq> 0" using D1(6) st_alloc_ok(2) [OF ok(1) a ok(2)] by auto
  define h where "h = \<lparr>iph_page_type = PAGE_TYPE_INTERNAL, iph_parent_page_id = 0, iph_key_count = 1, iph_leftmost_child = l\<rparr>"
  define s2 where "s2 = st_put s1 new (write_internal (page_zero s1) h [\<lparr>ie_key = k, ie_right_child = r\<rparr>])"
  have N: "node_at ?ps (write_internal (page_zero s1) h [\<lparr>ie_key = k, ie_right_child = r\<rparr>]) (InnerN [k] [l, r])"
    using node_at_write_internal [of "page_zero s1" ?ps "[\<lparr>ie_key = k, ie_right_child = r\<rparr>]" h] C(4,7) A(2)
    by (simp add: h_def)
  have E2: "evolves s1 (tl fl) s2 (tl fl) {} {new} {new}"
    unfolding s2_def by (rule evolves_put [OF D1(1) new(1)]) (use N A(2) in \<open>simp add: node_at_def\<close>)
  note D2 = evolvesD [OF E2]
  define s3 where "s3 = update_child_parent s2 l new"
  have E3: "evolves s2 (tl fl) s3 (tl fl) {} {} {l}"
    unfolding s3_def by (rule evolves_update_child_parent [OF D2(1)]) (use D1(6) D2(6) u in simp)
  note D3 = evolvesD [OF E3]
  define s4 where "s4 = update_child_parent s3 r new"
  have E4: "evolves s3 (tl fl) s4 (tl fl) {} {} {r}"
    unfolding s4_def by (rule evolves_update_child_parent [OF D3(1)]) (use D1(6) D2(6) D3(6) u in simp)
  note D4 = evolvesD [OF E4]
  define s5 where "s5 = s4\<lparr>st_hdr := (st_hdr s4)\<lparr>hd_root_index_page_id := new\<rparr>\<rparr>"
  have E5: "evolves s4 (tl fl) s5 (tl fl) {} {} {}" unfolding s5_def by (rule evolves_set_root [OF D4(1)])
  have "evolves s fl s5 (tl fl) {new} {new} {new, l, r}"
    using evolves_trans [OF evolves_trans [OF evolves_trans [OF evolves_trans [OF E1 E2] E3] E4] E5] by (simp add: insert_commute)
  then have E: "evolves s fl s5 (tl fl) {new} {} {l, r}" using fresh by (elim evolves_mono) auto
  have "st_pages s4 new = st_pages s2 new" using fresh u by (auto simp: s4_def s3_def update_child_parent_def)
  then have "node_at ?ps (st_pages s5 new) (InnerN [k] [l, r])" using N by (simp add: s5_def s2_def)
  moreover have "new_root s l k r = s5"
    unfolding new_root_def Let_def a prod.case h_def [symmetric] s2_def [symmetric] s3_def [symmetric] s4_def [symmetric]
      s5_def [symmetric] ..
  ultimately show ?thesis
    by (intro exI [where x = new] exI [where x = s5] exI [where x = "tl fl"]) (use E new(2) in \<open>simp add: s5_def root_id_def\<close>)
qed

end
