(* ===== verification/BPlus_Insert.thy ===== *)
theory BPlus_Insert
  imports BPlus_Split
begin

text \<open>
  \<open>propagate_insert\<close> puts the second half of a split node beside the first, whatever the number of
  further splits, and \<open>bptree_insert\<close> adds the key to the index map and keeps the tree.
\<close>

section \<open>A separator goes into a node with room\<close>

lemma insert_internal_nodes:
  fixes k :: u64
  assumes ok: "store_ok s fl"
    and p: "in_use s fl p" "node_at (unat (st_page_size s)) (st_pages s p) (InnerN ks cps)" "sorted_wrt (<) ks"
    and space: "length ks < inner_cap (unat (st_page_size s))" and right: "in_use s fl right"
  defines "pp \<equiv> st_pages s p"
  defines "iph \<equiv> get_internal_hdr pp"
  defines "es \<equiv> internal_entries pp (unat (iph_key_count iph))"
  defines "s' \<equiv> update_child_parent (st_put s p (write_internal pp (iph\<lparr>iph_key_count := iph_key_count iph + 1\<rparr>)
    (list_insert (internal_find es k) \<lparr>ie_key = k, ie_right_child = right\<rparr> es))) right p"
  shows "evolves s fl s' fl {} {p} {p, right}" "root_id s' = root_id s"
    "node_at (unat (st_page_size s)) (st_pages s' p)
      (InnerN (list_insert (child_of ks k) k ks) (list_insert (Suc (child_of ks k)) right cps))"
proof -
  let ?ps = "unat (st_page_size s)"
  note C = caps [OF ok] and L = node_at_innerD [OF p(2), folded pp_def iph_def]
  have e: "map ie_key es = ks" "iph_leftmost_child iph # map ie_right_child es = cps"
    using L(2,3,4) by (simp_all add: es_def)
  have fi: "internal_find es k = child_of ks k"
    using internal_find_inner [OF p(2,3)] by (simp add: es_def L(2) pp_def [symmetric])
  define tmp where "tmp = list_insert (child_of ks k) \<lparr>ie_key = k, ie_right_child = right\<rparr> es"
  have tmp: "map ie_key tmp = list_insert (child_of ks k) k ks"
    "iph_leftmost_child iph # map ie_right_child tmp = list_insert (Suc (child_of ks k)) right cps"
    using e by (simp_all add: tmp_def map_list_insert flip: e(2))
  have len: "length tmp = Suc (length ks)" using arg_cong [OF tmp(1), of length] by simp
  define h where "h = iph\<lparr>iph_key_count := iph_key_count iph + 1\<rparr>"
  have N: "node_at ?ps (write_internal pp h tmp) (InnerN (list_insert (child_of ks k) k ks) (list_insert (Suc (child_of ks k)) right cps))"
  proof -
    have "unat (iph_key_count iph + 1) = Suc (unat (iph_key_count iph))"
      using L(2) space C(6) by (intro unat_Suc_small) simp
    then have "unat (iph_key_count h) = length tmp" using L(2) len by (simp add: h_def)
    moreover have "iph_page_type h = PAGE_TYPE_INTERNAL" "iph_leftmost_child h = iph_leftmost_child iph"
      using L(5) by (simp_all add: h_def)
    ultimately show ?thesis
      using node_at_write_internal [of pp ?ps tmp h] L(1) C(7) len space tmp by simp
  qed
  define s1 where "s1 = st_put s p (write_internal pp h tmp)"
  have s': "s' = update_child_parent s1 right p" by (simp add: s'_def s1_def h_def tmp_def fi)
  have E1: "evolves s fl s1 fl {} {p} {p}"
    unfolding s1_def by (rule evolves_put [OF ok p(1)]) (use N in \<open>simp add: node_at_def\<close>)
  note D1 = evolvesD [OF E1]
  have E2: "evolves s1 fl s' fl {} {} {right}"
    unfolding s' by (rule evolves_update_child_parent [OF D1(1)]) (use D1(6) right in simp)
  show "evolves s fl s' fl {} {p} {p, right}" using evolves_trans [OF E1 E2] by (simp add: insert_commute)
  show "root_id s' = root_id s" by (simp add: s' s1_def)
  have "in_use s1 fl p" using D1(6) p(1) by simp
  then show "node_at ?ps (st_pages s' p) (InnerN (list_insert (child_of ks k) k ks) (list_insert (Suc (child_of ks k)) right cps))"
    using evolvesD(9) [OF E2] N D1(2) by (fastforce simp: s1_def)
qed

section \<open>Propagation\<close>

lemma concat_map_pair:
  assumes "i < length cs"
  shows "concat (map f (list_insert (Suc i) t2 (cs[i := t1])))
    = concat (map f (take i cs)) @ f t1 @ f t2 @ concat (map f (drop (Suc i) cs))"
proof -
  have "list_insert (Suc i) t2 (cs[i := t1]) = take i cs @ t1 # t2 # drop (Suc i) cs"
    using assms by (simp add: list_insert_def take_Suc_conv_app_nth)
  then show ?thesis by simp
qed

lemma pid_of_plug_cong: "pid_of t = pid_of u \<Longrightarrow> pid_of (plug c t) = pid_of (plug c u)"
proof (induction c arbitrary: t u)
  case (Cons f c)
  then show ?case by (cases f) auto
qed simp

lemma set_list_insert: "set (list_insert i x xs) = insert x (set xs)"
proof -
  have "set (take i xs) \<union> set (drop i xs) = set xs" by (metis append_take_drop_id set_append)
  then show ?thesis by (auto simp: list_insert_def)
qed

text \<open>The stack of the write descent against the context: \<open>c1\<close> is the part it holds, the rest is above a safe node.\<close>

definition stack_fits :: "nat \<Rightarrow> ctx \<Rightarrow> page_id \<Rightarrow> ctx \<Rightarrow> page_id list \<Rightarrow> bool" where
  "stack_fits ps c pid c1 stack \<longleftrightarrow>
     (\<exists>c2. c = c1 @ c2 \<and> (c2 \<noteq> [] \<longrightarrow> c1 \<noteq> [] \<and> length (fst (snd (last c1))) < inner_cap ps))
     \<and> stack ! length c1 = pid \<and> (\<forall>j < length c1. stack ! j = fst (rev c1 ! j))"

lemma stack_fits_Nil: "stack_fits ps [] pid c1 stack \<Longrightarrow> c1 = [] \<and> stack ! 0 = pid"
  by (auto simp: stack_fits_def)

lemma stack_fits_Cons:
  assumes "stack_fits ps ((p, ks, cs, i) # c) pid c1 stack"
  obtains c1' where "c1 = (p, ks, cs, i) # c1'" "stack ! length c1' = p"
    "length ks \<ge> inner_cap ps \<Longrightarrow> stack_fits ps c p c1' stack"
proof -
  from assms obtain c2 where c2: "(p, ks, cs, i) # c = c1 @ c2"
    "c2 \<noteq> [] \<longrightarrow> c1 \<noteq> [] \<and> length (fst (snd (last c1))) < inner_cap ps"
    and st: "\<forall>j < length c1. stack ! j = fst (rev c1 ! j)" by (auto simp: stack_fits_def)
  obtain c1' where c1: "c1 = (p, ks, cs, i) # c1'" using c2 by (cases c1) auto
  have sp: "stack ! length c1' = p" using st c1 by (auto dest!: spec [of _ "length c1'"] simp: nth_append)
  have "stack_fits ps c p c1' stack" if f: "length ks \<ge> inner_cap ps"
  proof -
    have "c2 \<noteq> [] \<longrightarrow> c1' \<noteq> [] \<and> length (fst (snd (last c1'))) < inner_cap ps"
      using c2(2) f c1 by (auto split: if_splits)
    moreover have "\<forall>j < length c1'. stack ! j = fst (rev c1' ! j)"
      using st c1 by (auto simp: nth_append dest!: spec)
    ultimately show ?thesis using c2(1) c1 sp by (auto simp: stack_fits_def)
  qed
  with c1 sp show thesis by (rule that)
qed

lemma propagate_insert_ok:
  assumes "store_ok s fl" "room s (Suc (length c))"
    and "ctx_ok (unat (st_page_size s)) (st_pages s) H c h lo hi" "hole_pid c (pid_of t1)"
    and "bt_ok (unat (st_page_size s)) (st_pages s) h lo (unat k) t1"
    and "bt_ok (unat (st_page_size s)) (st_pages s) h (unat k) hi t2" "lo < unat k" "unat k < hi"
    and "distinct (pids t1 @ pids t2 @ ctx_pids c)" "\<forall>q \<in> set (pids t1 @ pids t2 @ ctx_pids c). in_use s fl q"
    and "stack_fits (unat (st_page_size s)) c (pid_of t1) c1 stack" "pid_of (plug c t1) = root_id s"
  shows "\<exists>s' fl' H' t' N. propagate_insert s k (pid_of t2) stack (length c1) = s'
    \<and> evolves s fl s' fl' N (set (map fst c)) (set (pids t1 @ pids t2 @ ctx_pids c))
    \<and> bt_ok (unat (st_page_size s)) (st_pages s') H' 0 (2 ^ 64) t' \<and> pid_of t' = root_id s'
    \<and> entries t' = ctx_before entries c @ entries t1 @ entries t2 @ ctx_after entries c
    \<and> leaves t' = ctx_before leaves c @ leaves t1 @ leaves t2 @ ctx_after leaves c
    \<and> distinct (pids t') \<and> set (pids t') = set (pids t1 @ pids t2 @ ctx_pids c) \<union> N \<and> card N \<le> Suc (length c)"
  using assms
proof (induction c arbitrary: s fl h lo hi t1 t2 k c1)
  case Nil
  let ?ps = "unat (st_page_size s)"
  from Nil.prems(3) have b: "h = H" "lo = 0" "hi = 2 ^ 64" by simp_all
  note c1 = stack_fits_Nil [OF Nil.prems(11)]
  have u: "in_use s fl (pid_of t1)" "in_use s fl (pid_of t2)" using Nil.prems(10) pid_of_in_pids by simp_all
  from new_root_nodes [OF Nil.prems(1) _ u, of k] Nil.prems(2)
  obtain new s' fl' where R: "new_root s (pid_of t1) k (pid_of t2) = s'"
    "evolves s fl s' fl' {new} {} {pid_of t1, pid_of t2}" "root_id s' = new"
    "node_at ?ps (st_pages s' new) (InnerN [k] [pid_of t1, pid_of t2])" by auto
  note D = evolvesD [OF R(2)]
  let ?t = "Inner new [k] [t1, t2]"
  have bts: "bt_ok ?ps (st_pages s') H 0 (unat k) t1" "bt_ok ?ps (st_pages s') H (unat k) (2 ^ 64) t2"
    using bt_ok_evolves [OF R(2) Nil.prems(5)] bt_ok_evolves [OF R(2) Nil.prems(6)] Nil.prems(10) b by simp_all
  have "kids ?ps (st_pages s') H 0 (2 ^ 64) [k] [t1, t2]"
    unfolding kids_def using bts Nil.prems(7) b by (auto simp: keys_between_def less_Suc_eq lo_of_def hi_of_def)
  then have "bt_ok ?ps (st_pages s') (Suc H) 0 (2 ^ 64) ?t" using R(4) by (intro bt_ok_InnerI) simp_all
  moreover have "new \<notin> set (pids t1) \<union> set (pids t2)" using D(7) [of new] Nil.prems(10) by auto
  moreover have "evolves s fl s' fl' {new} {} (set (pids t1 @ pids t2))"
    by (rule evolves_mono [OF R(2)]) (auto simp: pid_of_in_pids)
  ultimately show ?case
    using R(1,3) c1 Nil.prems(9)
    by (intro exI [where x = s'] exI [where x = fl'] exI [where x = "Suc H"] exI [where x = ?t] exI [where x = "{new}"]) auto
next
  case (Cons f c)
  let ?ps = "unat (st_page_size s)" and ?pg = "st_pages s"
  obtain p ks cs i where f: "f = (p, ks, cs, i)" by (cases f)
  from Cons.prems(3) f obtain plo phi where P: "ctx_ok ?ps ?pg H c (Suc h) plo phi" "hole_pid c p"
    "node_at ?ps (?pg p) (InnerN ks (map pid_of cs))" "keys_between plo phi ks" "seps_above plo ks"
    "length cs = Suc (length ks)" "i < length cs"
    "\<forall>j < length cs. j \<noteq> i \<longrightarrow> bt_ok ?ps ?pg h (lo_of plo ks j) (hi_of phi ks j) (cs ! j)"
    "lo = lo_of plo ks i" "hi = hi_of phi ks i" "plo \<le> phi" by auto
  define ks' where "ks' = list_insert i k ks"
  define cs' where "cs' = list_insert (Suc i) t2 (cs[i := t1])"
  have hole: "pid_of (cs ! i) = pid_of t1" using Cons.prems(4) f by simp
  have srt: "sorted_wrt (<) ks" using P(4) by (simp add: keys_between_def)
  have ci: "child_of ks k = i"
    by (rule child_of_unique [OF P(4)]) (use P(6,7,9,10) Cons.prems(7,8) in auto)
  have pidcs: "map pid_of (cs[i := t1]) = map pid_of cs"
    using hole P(7) by (simp add: map_update list_update_same_conv)
  have cps': "list_insert (Suc i) (pid_of t2) (map pid_of cs) = map pid_of cs'"
    unfolding cs'_def map_list_insert pidcs ..
  have K: "kids ?ps ?pg h plo phi ks' cs'"
    unfolding ks'_def cs'_def
    by (rule kids_insert) (use P Cons.prems(5-8) in \<open>simp_all add: seps_above_def\<close>)
  have lens: "length ks' = Suc (length ks)" "length cs' = Suc (Suc (length ks))"
    using P(6) by (simp_all add: ks'_def cs'_def)
  note pr = concat_map_pair [OF P(7), of _ t2 t1, folded cs'_def]
  have pidset: "set (concat (map pids cs')) \<union> {p} \<union> set (ctx_pids c) = set (pids t1 @ pids t2 @ ctx_pids (f # c))"
    by (auto simp: pr f)
  have dist: "distinct (p # concat (map pids cs') @ ctx_pids c)"
    using Cons.prems(9) by (auto simp: pr f)
  have u: "in_use s fl p" "in_use s fl (pid_of t2)" "\<forall>q \<in> set (concat (map pids cs')) \<union> set (ctx_pids c). in_use s fl q"
    using Cons.prems(10) pidset pid_of_in_pids [of t2] by auto
  from Cons.prems(11) f obtain c1' where c1: "c1 = (p, ks, cs, i) # c1'" "stack ! length c1' = p"
    "length ks \<ge> inner_cap ?ps \<Longrightarrow> stack_fits ?ps c p c1' stack" by (auto elim: stack_fits_Cons)
  have cnt: "unat (iph_key_count (get_internal_hdr (?pg p))) = length ks" by (rule node_at_innerD(2) [OF P(3)])
  have cap: "iph_key_count (get_internal_hdr (?pg p)) < max_internal_keys (st_page_size s) \<longleftrightarrow> length ks < inner_cap ?ps"
    by (simp add: word_less_nat_alt cnt caps(2) [OF Cons.prems(1)])
  have pidcs': "pid_of t \<in> set (concat (map pids cs'))" if "t \<in> set cs'" for t
    using that pid_of_in_pids by auto
  show ?case
  proof (cases "length ks < inner_cap ?ps")
    case True
    note I = insert_internal_nodes [OF Cons.prems(1) u(1) P(3) srt True u(2), where k = k, unfolded ci cps', folded ks'_def]
    let ?s' = "update_child_parent (st_put s p (write_internal (?pg p)
      (get_internal_hdr (?pg p)\<lparr>iph_key_count := iph_key_count (get_internal_hdr (?pg p)) + 1\<rparr>)
      (list_insert (internal_find (internal_entries (?pg p) (unat (iph_key_count (get_internal_hdr (?pg p))))) k)
        \<lparr>ie_key = k, ie_right_child = pid_of t2\<rparr> (internal_entries (?pg p) (unat (iph_key_count (get_internal_hdr (?pg p)))))))) (pid_of t2) p"
    let ?n = "Inner p ks' cs'" and ?t = "plug c (Inner p ks' cs')"
    note D = evolvesD [OF I(1)]
    have "kids ?ps (st_pages ?s') h plo phi ks' cs'"
      by (rule kids_cong [OF K]) (use D(9) u(3) dist in auto)
    then have bt: "bt_ok ?ps (st_pages ?s') (Suc h) plo phi ?n"
      using I(3) lens by (intro bt_ok_InnerI) auto
    have ctx: "ctx_ok ?ps (st_pages ?s') H c (Suc h) plo phi"
      by (rule ctx_ok_evolves [OF I(1) P(1)]) (use u(3) dist in auto)
    note idx = ctx_ok_indices [OF P(1)]
    have ms: "mset (pids ?t) = mset (p # concat (map pids cs') @ ctx_pids c)"
      by (simp add: pids_plug [OF idx])
    have "bt_ok ?ps (st_pages ?s') H 0 (2 ^ 64) ?t" by (rule plug_ok [OF ctx bt]) (use P(2) in simp)
    moreover have "pid_of ?t = root_id ?s'"
      using Cons.prems(12) pid_of_plug_cong [of ?n "Inner p ks (cs[i := t1])" c] I(2) by (simp add: f)
    moreover have "entries ?t = ctx_before entries (f # c) @ entries t1 @ entries t2 @ ctx_after entries (f # c)"
      "leaves ?t = ctx_before leaves (f # c) @ leaves t1 @ leaves t2 @ ctx_after leaves (f # c)"
      by (simp_all add: entries_plug [OF idx] leaves_plug [OF idx] pr f)
    moreover have "distinct (pids ?t)" using mset_eq_imp_distinct_iff [OF ms] dist by simp
    moreover have "set (pids ?t) = set (pids t1 @ pids t2 @ ctx_pids (f # c)) \<union> {}"
      using mset_eq_setD [OF ms] pidset by auto
    moreover have "card ({} :: page_id set) \<le> Suc (length (f # c))" by simp
    moreover have "evolves s fl ?s' fl {} (set (map fst (f # c))) (set (pids t1 @ pids t2 @ ctx_pids (f # c)))"
      by (rule evolves_mono [OF I(1)]) (auto simp: f pid_of_in_pids)
    moreover have "propagate_insert s k (pid_of t2) stack (length c1) = ?s'"
      using c1(1,2) cap True by (simp add: Let_def)
    ultimately show ?thesis by blast
  next
    case False
    then have full: "length ks = inner_cap ?ps" using node_at_innerD(6) [OF P(3)] by simp
    define sp where "sp = length ks' div 2"
    have sp: "0 < sp" "sp < length ks'" "Suc sp < length ks'"
      using caps(4) [OF Cons.prems(1)] full lens by (simp_all add: sp_def)
    have "room s 1" using Cons.prems(2) by (simp add: room_def)
    moreover have "\<forall>c \<in> set (map pid_of cs). in_use s fl c"
    proof
      fix q assume "q \<in> set (map pid_of cs)"
      then have "q \<in> set (map pid_of (cs[i := t1]))" using pidcs by simp
      then obtain t where t: "t \<in> set (cs[i := t1])" "q = pid_of t" by auto
      then have "t \<in> set cs'" by (simp add: cs'_def set_list_insert)
      then show "in_use s fl q" using u(3) pidcs' t(2) by auto
    qed
    ultimately obtain new s1 fl1 where S: "split_internal s p k (pid_of t2) = (ks' ! sp, new, s1)"
      "evolves s fl s1 fl1 {new} {p} (insert p (set (map pid_of cs')))" "root_id s1 = root_id s"
      "\<forall>n. room s (Suc n) \<longrightarrow> room s1 n"
      "node_at ?ps (st_pages s1 p) (InnerN (take sp ks') (take (Suc sp) (map pid_of cs')))"
      "node_at ?ps (st_pages s1 new) (InnerN (drop (Suc sp) ks') (drop (Suc sp) (map pid_of cs')))"
      using split_internal_nodes [OF Cons.prems(1) _ u(1) P(3) srt full u(2), where k = k and ks' = ks'
          and cps' = "map pid_of cs'" and sp = sp] ci cps' ks'_def sp_def by auto
    note D = evolvesD [OF S(2)]
    have psz: "st_page_size s1 = st_page_size s" by (rule D(2))
    let ?l = "Inner p (take sp ks') (take (Suc sp) cs')" and ?r = "Inner new (drop (Suc sp) ks') (drop (Suc sp) cs')"
    have K1: "kids ?ps (st_pages s1) h plo phi ks' cs'"
      by (rule kids_cong [OF K]) (use D(9) u(3) dist in auto)
    note KS = kids_split [OF K1 sp(2)]
    have bl: "bt_ok ?ps (st_pages s1) (Suc h) plo (unat (ks' ! sp)) ?l"
      using S(5) sp by (intro bt_ok_InnerI KS(1)) (auto simp: take_map)
    have br: "bt_ok ?ps (st_pages s1) (Suc h) (unat (ks' ! sp)) phi ?r"
      using S(6) sp by (intro bt_ok_InnerI KS(2)) (auto simp: drop_map)
    have ctx: "ctx_ok ?ps (st_pages s1) H c (Suc h) plo phi"
      by (rule ctx_ok_evolves [OF S(2) P(1)]) (use u(3) dist in auto)
    have new: "new \<notin> insert p (set (concat (map pids cs')) \<union> set (ctx_pids c))"
      using D(7) [of new] u by auto
    have kb: "keys_between plo phi ks'" using K by (simp add: kids_def)
    have "ks' ! 0 < ks' ! sp" using kb sp by (simp add: keys_between_def sorted_wrt_nth_less)
    moreover have "ks' ! 0 \<in> set ks'" using sp(2) by (intro nth_mem) linarith
    then have "plo \<le> unat (ks' ! 0)" using kb by (simp add: keys_between_def)
    ultimately have lo: "plo < unat (ks' ! sp)" by (simp add: word_less_nat_alt)
    have hi: "unat (ks' ! sp) < phi" using kb sp by (simp add: keys_between_def)
    have cat: "concat (map f (take (Suc sp) cs')) @ concat (map f (drop (Suc sp) cs')) = concat (map f cs')" for f :: "bt \<Rightarrow> 'b list"
      by (metis append_take_drop_id concat_append map_append)
    have pl: "mset (pids ?l @ pids ?r @ ctx_pids c) = mset (new # p # concat (map pids cs') @ ctx_pids c)"
      using arg_cong [OF cat [of pids], of mset] by simp
    have d1: "distinct (pids ?l @ pids ?r @ ctx_pids c)" using mset_eq_imp_distinct_iff [OF pl] dist new by simp
    have st1: "set (pids ?l @ pids ?r @ ctx_pids c) = insert new (set (pids t1 @ pids t2 @ ctx_pids (f # c)))"
      using mset_eq_setD [OF pl] pidset by auto
    have u1: "\<forall>q \<in> set (pids ?l @ pids ?r @ ctx_pids c). in_use s1 fl1 q"
      unfolding st1 using D(6) Cons.prems(10) by blast
    have fits: "stack_fits (unat (st_page_size s1)) c (pid_of ?l) c1' stack" using c1(3) full psz by simp
    have "pid_of (plug c ?l) = root_id s1"
      using Cons.prems(12) pid_of_plug_cong [of ?l "Inner p ks (cs[i := t1])" c] S(3) by (simp add: f)
    moreover have "room s1 (Suc (length c))" using S(4) Cons.prems(2) by simp
    moreover have "hole_pid c (pid_of ?l)" using P(2) by simp
    ultimately obtain s' fl' H' t' N where R: "propagate_insert s1 (ks' ! sp) (pid_of ?r) stack (length c1') = s'"
      "evolves s1 fl1 s' fl' N (set (map fst c)) (set (pids ?l @ pids ?r @ ctx_pids c))"
      "bt_ok ?ps (st_pages s') H' 0 (2 ^ 64) t'" "pid_of t' = root_id s'"
      "entries t' = ctx_before entries c @ entries ?l @ entries ?r @ ctx_after entries c"
      "leaves t' = ctx_before leaves c @ leaves ?l @ leaves ?r @ ctx_after leaves c"
      "distinct (pids t')" "set (pids t') = set (pids ?l @ pids ?r @ ctx_pids c) \<union> N" "card N \<le> Suc (length c)"
      using Cons.IH [OF D(1) _ ctx [folded psz] _ bl [folded psz] br [folded psz] lo hi d1 u1 fits] psz by metis
    have sub: "insert p (set (map pid_of cs')) \<subseteq> set (pids t1 @ pids t2 @ ctx_pids (f # c))"
    proof
      fix q assume "q \<in> insert p (set (map pid_of cs'))"
      then have "q \<in> set (concat (map pids cs')) \<union> {p}" using pidcs' by (auto simp del: set_concat)
      then show "q \<in> set (pids t1 @ pids t2 @ ctx_pids (f # c))" unfolding pidset [symmetric] by blast
    qed
    have E: "evolves s fl s' fl' ({new} \<union> N) (set (map fst (f # c))) (set (pids t1 @ pids t2 @ ctx_pids (f # c)))"
      using evolves_trans [OF S(2) R(2)] unfolding st1
    proof (rule evolves_mono)
      fix q assume "q \<in> {p} \<union> set (map fst c)"
      then show "q \<in> set (map fst (f # c))" by (auto simp: f)
    next
      fix q assume "q \<in> insert p (set (map pid_of cs')) \<union> insert new (set (pids t1 @ pids t2 @ ctx_pids (f # c)))" "in_use s fl q"
      moreover have "q \<noteq> new" using D(7) [of new] \<open>in_use s fl q\<close> by blast
      ultimately show "q \<in> set (pids t1 @ pids t2 @ ctx_pids (f # c))" using sub by blast
    qed
    have es: "entries t' = ctx_before entries (f # c) @ entries t1 @ entries t2 @ ctx_after entries (f # c)"
      using R(5) cat [of entries] by (simp add: f pr)
    have ls: "leaves t' = ctx_before leaves (f # c) @ leaves t1 @ leaves t2 @ ctx_after leaves (f # c)"
      using R(6) cat [of leaves] by (simp add: f pr)
    have pi: "propagate_insert s k (pid_of t2) stack (length c1) = s'"
      using c1(1,2) cap full S(1) R(1) by (simp add: Let_def)
    have ps: "set (pids t') = set (pids t1 @ pids t2 @ ctx_pids (f # c)) \<union> ({new} \<union> N)" unfolding R(8) st1 by blast
    have cd: "card ({new} \<union> N) \<le> Suc (length (f # c))" using card_Un_le [of "{new}" N] R(9) by simp
    show ?thesis
      by (intro exI [where x = s'] exI [where x = fl'] exI [where x = H'] exI [where x = t'] exI [where x = "{new} \<union> N"] conjI
          pi E R(3,4,7) es ls ps cd)
  qed
qed

end
