(* ===== verification/BPlus_Map.thy ===== *)
theory BPlus_Map
  imports BPlus_Insert
begin

text \<open>
  The index as a map: \<open>bptree_insert\<close> adds a key that is not there, refuses one that is, keeps
  the tree and touches no page outside it.
\<close>

section \<open>The height of a tree\<close>

lemma leaves_ge: "bt_ok ps pg h lo hi t \<Longrightarrow> 2 ^ h \<le> length (leaves t)"
proof (induction h lo hi t rule: bt_ok.induct)
  case (leaf p nx es lo hi)
  then show ?case by simp
next
  case (inner p ks cs lo hi h)
  have two: "2 \<le> length cs" using inner.hyps by (cases ks) (auto simp: seps_above_def)
  then obtain a b r where cs: "cs = a # b # r" by (cases cs; cases "tl cs") auto
  have "0 < length cs" "1 < length cs" using two by linarith+
  then have "2 ^ h \<le> length (leaves (cs ! 0))" "2 ^ h \<le> length (leaves (cs ! 1))"
    using inner.IH by blast+
  then show ?case by (simp add: cs)
qed

lemma leaves_le_pids: "length (leaves t) \<le> length (pids t)"
proof (induction t)
  case (Inner p ks cs)
  then have "sum_list (map (\<lambda>t. length (leaves t)) cs) \<le> sum_list (map (\<lambda>t. length (pids t)) cs)"
    by (intro sum_list_mono) auto
  then show ?case by (simp add: length_concat comp_def)
qed simp

lemma height_bound:
  assumes "bt_ok ps pg h lo hi t" "distinct (pids t)" "0 \<notin> set (pids t)"
  shows "h < 32"
proof -
  have "length (pids t) = card (set (pids t))" using assms(2) by (simp add: distinct_card)
  also have "\<dots> < card (UNIV :: page_id set)"
    by (rule psubset_card_mono) (use assms(3) in auto)
  finally have "length (pids t) < 2 ^ 32" by (simp add: card_word)
  moreover have "2 ^ h \<le> length (pids t)" using leaves_ge [OF assms(1)] leaves_le_pids [of t] by simp
  ultimately have "(2 :: nat) ^ h < 2 ^ 32" by simp
  then show ?thesis using power_less_imp_less_exp [of "2 :: nat" h 32] by simp
qed

section \<open>Keys of a leaf\<close>

lemma leaf_insert_keys:
  assumes "keys_between lo hi (map le_key es)" "lo \<le> unat (le_key e)" "unat (le_key e) < hi"
    and "le_key e \<notin> set (map le_key es)"
  shows "keys_between lo hi (map le_key (list_insert (leaf_find es (le_key e)) e es))"
proof -
  let ?n = "leaf_find es (le_key e)"
  have srt: "sorted_wrt (<) (map le_key es)" using assms(1) by (simp add: keys_between_def)
  note L = leaf_lookup(4,5) [OF srt, of "le_key e"]
  have "keys_between lo hi (map le_key (take ?n es) @ map le_key (drop ?n es))"
    using assms(1) by (simp flip: map_append)
  then have kb: "keys_between lo hi (map le_key (take ?n es))" "keys_between lo hi (map le_key (drop ?n es))"
    "\<forall>x \<in> set (map le_key (take ?n es)). \<forall>y \<in> set (map le_key (drop ?n es)). x < y"
    unfolding keys_between_append by blast+
  have gt: "le_key e < y" if "y \<in> set (map le_key (drop ?n es))" for y
  proof -
    have "y \<in> set (map le_key es)" using that by (auto dest: in_set_dropD)
    then show ?thesis using L(2) that assms(4) by (metis order_le_less)
  qed
  have "keys_between lo hi (le_key e # map le_key (drop ?n es))"
    using kb(2) gt assms(2,3) by (auto simp: keys_between_def)
  then have "keys_between lo hi (map le_key (take ?n es) @ le_key e # map le_key (drop ?n es))"
    using kb(1,3) L(1) by (auto simp: keys_between_append)
  then show ?thesis by (simp add: list_insert_def)
qed

lemma keys_between_cut:
  assumes "keys_between lo hi ks" "j < length ks"
  shows "keys_between lo (unat (ks ! j)) (take j ks)" "keys_between (unat (ks ! j)) hi (drop j ks)"
proof -
  have dec: "ks = take j ks @ ks ! j # drop (Suc j) ks" "drop j ks = ks ! j # drop (Suc j) ks"
    using assms(2) by (simp_all add: id_take_nth_drop Cons_nth_drop_Suc)
  have kb: "keys_between lo hi (take j ks)" "keys_between lo hi (ks ! j # drop (Suc j) ks)"
    "\<forall>x \<in> set (take j ks). x < ks ! j"
    using assms(1) dec(1) keys_between_append [of lo hi "take j ks" "ks ! j # drop (Suc j) ks"] by auto
  show "keys_between lo (unat (ks ! j)) (take j ks)"
    using kb(1,3) by (auto simp: keys_between_def word_less_nat_alt)
  show "keys_between (unat (ks ! j)) hi (drop j ks)"
    unfolding dec(2) using kb(2) by (auto simp: keys_between_def word_less_nat_alt)
qed

lemma map_of_insert:
  assumes "k \<notin> fst ` set xs"
  shows "map_of (xs @ (k, v) # ys) = (map_of (xs @ ys))(k \<mapsto> v)"
proof -
  have "map_of xs k = None" using assms by (simp add: map_of_eq_None_iff)
  then show ?thesis by (auto simp: map_add_def fun_eq_iff split: option.splits)
qed

text \<open>A new entry somewhere in a tree's entries adds its key to the map.\<close>

lemma index_map_insert:
  assumes "entries t = A @ B" "entries t' = A @ e # B" "index_map t (le_key e) = None"
  shows "index_map t' = (index_map t)(le_key e \<mapsto> le_row_ref e)"
proof -
  have "le_key e \<notin> fst ` set (map (\<lambda>e. (le_key e, le_row_ref e)) A)"
    using assms(1,3) by (auto simp: index_map_def map_of_eq_None_iff)
  from map_of_insert [OF this] show ?thesis by (simp add: index_map_def assms(1,2))
qed

section \<open>The stack and the context\<close>

lemma ctx_ok_node:
  "ctx_ok ps pg H c h lo hi \<Longrightarrow> (p, ks, cs, i) \<in> set c \<Longrightarrow> node_at ps (pg p) (InnerN ks (map pid_of cs))"
  by (induction c arbitrary: h lo hi) auto

lemma stack_fits_full:
  assumes ok: "store_ok s fl" and st: "stack_ok (st_page_size s) True (st_pages s) d p st"
    and c: "ctx_ok (unat (st_page_size s)) (st_pages s) H d h lo hi"
    and full: "node_at (unat (st_page_size s)) (st_pages s p) (LeafN nx es)" "length es = leaf_cap (unat (st_page_size s))"
  obtains c1 where "stack_fits (unat (st_page_size s)) d p c1 st" "length st = Suc (length c1)"
proof -
  from st obtain c1 c2 where d: "d = c1 @ c2" "st = rev (map fst c1) @ [p]"
    "c2 \<noteq> [] \<longrightarrow> safe_node (st_page_size s) True (st_pages s (hd st))" by (auto simp: stack_ok_def)
  have safe: "c1 \<noteq> [] \<and> length (fst (snd (last c1))) < inner_cap (unat (st_page_size s))" if "c2 \<noteq> []"
  proof -
    from d(3) that have sf: "safe_node (st_page_size s) True (st_pages s (hd st))" by simp
    have ne: "c1 \<noteq> []"
    proof
      assume "c1 = []"
      then have "hd st = p" using d(2) by simp
      then show False using sf node_at_leafD(3,7) [OF full(1)] full(2) caps(1) [OF ok]
        by (simp add: safe_node_def word_less_nat_alt)
    qed
    obtain q ks cs i where l: "last c1 = (q, ks, cs, i)" by (cases "last c1")
    have "hd (rev c1) = last c1" using ne by (simp add: hd_rev)
    then have "hd st = q" using d(2) ne l by (simp add: hd_append rev_map hd_map)
    moreover have "(q, ks, cs, i) \<in> set d" using d(1) ne l by (metis UnCI last_in_set set_append)
    then have "node_at (unat (st_page_size s)) (st_pages s q) (InnerN ks (map pid_of cs))" by (rule ctx_ok_node [OF c])
    ultimately show ?thesis using sf ne l node_at_innerD(2,7) caps(2) [OF ok]
      by (fastforce simp: safe_node_def word_less_nat_alt)
  qed
  have "stack_fits (unat (st_page_size s)) d p c1 st"
    unfolding stack_fits_def
    by (intro conjI exI [of _ c2]) (use d safe in \<open>auto simp: nth_append rev_map\<close>)
  with that d(2) show thesis by simp
qed

section \<open>Links between leaves\<close>

lemma leaf_links_keep:
  assumes "leaf_links ps pg l nx"
    and "\<And>q n es. q \<in> set l \<Longrightarrow> node_at ps (pg q) (LeafN n es) \<Longrightarrow> \<exists>es'. node_at ps (pg' q) (LeafN n es')"
  shows "leaf_links ps pg' l nx"
  using assms
proof (induction l)
  case (Cons p r)
  then show ?case by (metis leaf_links.simps(2) list.set_intros(1,2))
qed simp

lemma distinct_concat_map:
  assumes "distinct (concat (map f cs))" "\<And>t. t \<in> set cs \<Longrightarrow> distinct (f t) \<Longrightarrow> distinct (g t)"
    and "\<And>t. t \<in> set cs \<Longrightarrow> set (g t) \<subseteq> set (f t)"
  shows "distinct (concat (map g cs))"
  using assms
proof (induction cs)
  case (Cons t cs)
  have "set (concat (map g cs)) \<subseteq> set (concat (map f cs))" using Cons.prems(3) by fastforce
  moreover have "set (g t) \<subseteq> set (f t)" using Cons.prems(3) by simp
  moreover have "set (f t) \<inter> set (concat (map f cs)) = {}" using Cons.prems(1) by simp
  ultimately have "set (g t) \<inter> set (concat (map g cs)) = {}" by blast
  moreover have "distinct (concat (map g cs))" by (rule Cons.IH) (use Cons.prems in auto)
  moreover have "distinct (g t)" using Cons.prems(1,2) by simp
  ultimately show ?case by simp
qed simp

lemma distinct_leaves: "distinct (pids t) \<Longrightarrow> distinct (leaves t)"
proof (induction t)
  case (Inner p ks cs)
  have "distinct (concat (map leaves cs))"
    by (rule distinct_concat_map [of pids]) (use Inner leaves_subset in auto)
  then show ?case by simp
qed simp

lemma leaf_links_next:
  assumes "leaf_links ps pg (A @ p # B) 0" "node_at ps (pg p) (LeafN nx es)"
  shows "nx = hd (B @ [0])"
  using assms by (auto simp: leaf_links_append node_at_def)

lemma leaf_links_split:
  assumes "leaf_links ps pg (A @ p # B) 0" "node_at ps (pg p) (LeafN nx es)"
    and "\<And>q n es. q \<in> set A \<union> set B \<Longrightarrow> node_at ps (pg q) (LeafN n es) \<Longrightarrow> node_at ps (pg' q) (LeafN n es)"
    and "node_at ps (pg' p) (LeafN new es1)" "node_at ps (pg' new) (LeafN nx es2)"
  shows "leaf_links ps pg' (A @ p # new # B) 0"
proof -
  have "leaf_links ps pg A (hd ((p # B) @ [0]))" "leaf_links ps pg B 0"
    using assms(1) by (auto simp: leaf_links_append)
  then have "leaf_links ps pg' A p" "leaf_links ps pg' B 0"
    by (auto elim!: leaf_links_cong intro: assms(3))
  moreover have "nx = hd (B @ [0])" by (rule leaf_links_next [OF assms(1,2)])
  ultimately show ?thesis using assms(4,5) by (auto simp: leaf_links_append)
qed

section \<open>Insertion\<close>

text \<open>One operation on an index: the tree changed, pages were only taken for the tree and given back by it, the rest of the store is as before.\<close>

definition index_step :: "store \<Rightarrow> page_id list \<Rightarrow> bt \<Rightarrow> store \<Rightarrow> page_id list \<Rightarrow> bt \<Rightarrow> bool" where
  "index_step s fl t s' fl' t' \<longleftrightarrow>
     store_ok s' fl' \<and> st_page_size s' = st_page_size s \<and> st_last_heap s' = st_last_heap s
     \<and> st_free_hint s' = st_free_hint s \<and> idx_frame (st_hdr s) (st_hdr s')
     \<and> (\<forall>q. in_use s fl q \<and> q \<notin> set (pids t) \<longrightarrow> in_use s' fl' q \<and> st_pages s' q = st_pages s q \<and> q \<notin> set (pids t'))
     \<and> (\<forall>n. room s (n + 33) \<longrightarrow> room s' n)"

lemma index_stepI:
  assumes "evolves s fl s' fl' N W (set (pids t))" "set (pids t') = set (pids t) \<union> N" "card N \<le> 33"
  shows "index_step s fl t s' fl' t'"
  using evolvesD [OF assms(1)] evolves_room [OF assms(1,3)] assms(2) by (auto simp: index_step_def)

lemma index_treeI:
  assumes ev: "evolves s fl s' fl' N W T" and t: "\<forall>p \<in> set (pids t). in_use s fl p" "set (pids t') = set (pids t) \<union> N"
    and "bt_ok (unat (st_page_size s)) (st_pages s') h' 0 (2 ^ 64) t'" "pid_of t' = root_id s'" "distinct (pids t')"
    and "leaf_links (unat (st_page_size s)) (st_pages s') (leaves t') 0"
  shows "index_tree s' fl' h' t'"
proof -
  note D = evolvesD [OF ev]
  have u: "\<forall>p \<in> set (pids t'). in_use s' fl' p" using t D(6) by blast
  then have "0 \<notin> set (pids t')" by (auto simp: in_use_def)
  then have "h' < 32" using height_bound assms(4,6) by blast
  with u assms(4-) D(2) show ?thesis by (simp add: index_tree_def)
qed

lemma insert_into_leaf:
  fixes ref :: row_ref
  assumes ok: "store_ok s fl" and it: "index_tree s fl h (plug d (Leaf p es))"
    and c: "ctx_ok (unat (st_page_size s)) (st_pages s) h d 0 clo chi" "hole_pid d p"
    and lf: "node_at (unat (st_page_size s)) (st_pages s p) (LeafN nx es)" "keys_between clo chi (map le_key es)"
    and key: "clo \<le> unat key" "unat key < chi" "key \<notin> set (map le_key es)"
    and space: "length es < leaf_cap (unat (st_page_size s))"
  defines "s' \<equiv> st_put s p (leaf_insert_entry (st_pages s p) (get_leaf_hdr (st_pages s p)) key ref)"
    and "t' \<equiv> plug d (Leaf p (list_insert (leaf_find es key) \<lparr>le_key = key, le_row_ref = ref\<rparr> es))"
  shows "index_tree s' fl h t'" "index_step s fl (plug d (Leaf p es)) s' fl t'"
proof -
  let ?ps = "unat (st_page_size s)" and ?t = "plug d (Leaf p es)"
  let ?es = "list_insert (leaf_find es key) \<lparr>le_key = key, le_row_ref = ref\<rparr> es"
  let ?h = "(get_leaf_hdr (st_pages s p))\<lparr>lph_key_count := lph_key_count (get_leaf_hdr (st_pages s p)) + 1\<rparr>"
  note C = caps [OF ok] and L = node_at_leafD [OF lf(1)] and idx = ctx_ok_indices [OF c(1)]
  have s': "s' = st_put s p (write_leaf (st_pages s p) ?h ?es)"
    by (simp add: s'_def leaf_insert_entry_def Let_def L(3,4))
  have "unat (lph_key_count (get_leaf_hdr (st_pages s p)) + 1) = Suc (length es)"
    using L(3) space C(5) by (subst unat_Suc_small) simp_all
  then have N: "node_at ?ps (write_leaf (st_pages s p) ?h ?es) (LeafN nx ?es)"
    using node_at_write_leaf [of "st_pages s p" ?ps ?es ?h] L C(7) space by simp
  have pids: "set (pids ?t) = insert p (set (ctx_pids d))" "distinct (p # ctx_pids d)"
    "mset (pids t') = mset (pids ?t)"
    using mset_eq_setD [OF pids_plug [OF idx, of "Leaf p es", unfolded mset_append [symmetric]]]
      mset_eq_imp_distinct_iff [OF pids_plug [OF idx, of "Leaf p es", unfolded mset_append [symmetric]]] it
    by (simp_all add: index_tree_def t'_def pids_plug [OF idx])
  have u: "\<forall>q \<in> set (pids ?t). in_use s fl q" using it by (simp add: index_tree_def)
  have E: "evolves s fl s' fl {} {p} {p}"
    unfolding s' by (rule evolves_put [OF ok]) (use u pids N in \<open>auto simp: node_at_def\<close>)
  note D = evolvesD [OF E]
  have "bt_ok ?ps (st_pages s') 0 clo chi (Leaf p ?es)"
    using N leaf_insert_keys [OF lf(2), of "\<lparr>le_key = key, le_row_ref = ref\<rparr>"] key
    by (auto simp: s' intro!: bt_ok.leaf)
  moreover have "ctx_ok ?ps (st_pages s') h d 0 clo chi"
    by (rule ctx_ok_evolves [OF E c(1)]) (use u pids in auto)
  ultimately have bt: "bt_ok ?ps (st_pages s') h 0 (2 ^ 64) t'" unfolding t'_def using plug_ok c(2) by fastforce
  have pr: "pid_of t' = root_id s'"
    using pid_of_plug_cong [of "Leaf p ?es" "Leaf p es" d] it by (simp add: t'_def s' index_tree_def)
  have lv: "leaves t' = leaves ?t" by (simp add: t'_def leaves_plug [OF idx])
  have "leaf_links ?ps (st_pages s') (leaves ?t) 0"
  proof (rule leaf_links_keep)
    show "leaf_links ?ps (st_pages s) (leaves ?t) 0" using it by (simp add: index_tree_def)
    fix q n es' assume q: "q \<in> set (leaves ?t)" "node_at ?ps (st_pages s q) (LeafN n es')"
    show "\<exists>es'. node_at ?ps (st_pages s' q) (LeafN n es')"
    proof (cases "q = p")
      case True
      then have "n = nx" using q(2) lf(1) by (simp add: node_at_def)
      then show ?thesis using N True by (auto simp: s')
    next
      case False
      then show ?thesis using D(9) [OF _ _ q(2)] u q(1) leaves_subset [of ?t] by auto
    qed
  qed
  then have links: "leaf_links ?ps (st_pages s') (leaves t') 0" using lv by simp
  have st: "set (pids t') = set (pids ?t) \<union> {}" using mset_eq_setD [OF pids(3)] by simp
  have ds: "distinct (pids t')" using mset_eq_imp_distinct_iff [OF pids(3)] it by (simp add: index_tree_def)
  show "index_tree s' fl h t'" by (rule index_treeI [OF E u st bt pr ds links])
  have "evolves s fl s' fl {} {p} (set (pids ?t))" by (rule evolves_mono [OF E]) (use pids in auto)
  then show "index_step s fl ?t s' fl t'" using st by (rule index_stepI) simp
qed

lemma insert_with_split:
  fixes ref :: row_ref
  assumes ok: "store_ok s fl" "room s (h + 2)" and it: "index_tree s fl h (plug d (Leaf p es))"
    and c: "ctx_ok (unat (st_page_size s)) (st_pages s) h d 0 clo chi" "hole_pid d p" "length d = h"
    and lf: "node_at (unat (st_page_size s)) (st_pages s p) (LeafN nx es)" "keys_between clo chi (map le_key es)"
    and key: "clo \<le> unat key" "unat key < chi" "key \<notin> set (map le_key es)"
    and full: "length es = leaf_cap (unat (st_page_size s))"
    and fits: "stack_fits (unat (st_page_size s)) d p c1 st"
  shows "\<exists>pk new s1 s' fl' h' t'. split_leaf s p key ref = (pk, new, s1) \<and> propagate_insert s1 pk new st (length c1) = s'
    \<and> index_tree s' fl' h' t' \<and> index_step s fl (plug d (Leaf p es)) s' fl' t'
    \<and> entries t' = ctx_before entries d
        @ list_insert (leaf_find es key) \<lparr>le_key = key, le_row_ref = ref\<rparr> es @ ctx_after entries d"
proof -
  let ?ps = "unat (st_page_size s)" and ?t = "plug d (Leaf p es)"
  note C = caps [OF ok(1)] and idx = ctx_ok_indices [OF c(1)]
  define tmp where "tmp = list_insert (leaf_find es key) \<lparr>le_key = key, le_row_ref = ref\<rparr> es"
  define sp where "sp = length tmp div 2"
  have srt: "sorted_wrt (<) (map le_key es)" using lf(2) by (simp add: keys_between_def)
  have it': "distinct (pids ?t)" "\<forall>q \<in> set (pids ?t). in_use s fl q" "leaf_links ?ps (st_pages s) (leaves ?t) 0"
    "pid_of ?t = root_id s" using it by (simp_all add: index_tree_def)
  note pm = pids_plug [OF idx, of "Leaf p es", unfolded mset_append [symmetric]]
  have pids: "set (pids ?t) = insert p (set (ctx_pids d))" "distinct (p # ctx_pids d)"
    using mset_eq_setD [OF pm] mset_eq_imp_distinct_iff [OF pm] it'(1) by simp_all
  let ?A = "ctx_before leaves d" and ?B = "ctx_after leaves d"
  have lv: "leaves ?t = ?A @ p # ?B" by (simp add: leaves_plug [OF idx])
  have nxB: "nx = hd (?B @ [0])" by (rule leaf_links_next [OF it'(3) [unfolded lv] lf(1)])
  have nx: "in_use s fl nx \<and> nx \<noteq> p \<and> (\<exists>n es'. node_at ?ps (st_pages s nx) (LeafN n es'))" if nz: "nx \<noteq> 0"
  proof -
    obtain r where B: "?B = nx # r" using nxB nz by (cases ?B) auto
    then have "nx \<in> set (leaves ?t)" "nx \<noteq> p" using lv distinct_leaves [OF it'(1)] by auto
    moreover have "\<exists>n es'. node_at ?ps (st_pages s nx) (LeafN n es')"
      using it'(3) by (auto simp: lv B leaf_links_append)
    ultimately show ?thesis using it'(2) leaves_subset by blast
  qed
  have "room s 1" using ok(2) by (simp add: room_def)
  from split_leaf_nodes [OF ok(1) this _ lf(1) full nx tmp_def leaf_lookup(3) [OF srt] sp_def] it'(2) pids(1)
  obtain new s1 fl1 where S: "split_leaf s p key ref = (le_key (tmp ! sp), new, s1)"
    "evolves s fl s1 fl1 {new} {p} {p, nx}" "root_id s1 = root_id s" "\<forall>n. room s (Suc n) \<longrightarrow> room s1 n"
    "node_at ?ps (st_pages s1 p) (LeafN new (take sp tmp))" "node_at ?ps (st_pages s1 new) (LeafN nx (drop sp tmp))" by auto
  note D = evolvesD [OF S(2)]
  have psz: "st_page_size s1 = st_page_size s" by (rule D(2))
  have len: "length tmp = Suc (leaf_cap ?ps)" using full by (simp add: tmp_def)
  have spb: "0 < sp" "sp < length tmp" using len C(3) by (simp_all add: sp_def)
  have kt: "keys_between clo chi (map le_key tmp)"
    unfolding tmp_def using leaf_insert_keys [OF lf(2), of "\<lparr>le_key = key, le_row_ref = ref\<rparr>"] key by simp
  let ?k = "le_key (tmp ! sp)"
  have k: "map le_key tmp ! sp = ?k" using spb by simp
  note cut = keys_between_cut [OF kt, of sp, unfolded length_map k, OF spb(2)]
  have b1: "bt_ok ?ps (st_pages s1) 0 clo (unat ?k) (Leaf p (take sp tmp))"
    using S(5) cut(1) by (auto intro!: bt_ok.leaf simp: take_map)
  have b2: "bt_ok ?ps (st_pages s1) 0 (unat ?k) chi (Leaf new (drop sp tmp))"
    using S(6) cut(2) by (auto intro!: bt_ok.leaf simp: drop_map)
  have k0: "clo < unat ?k" "unat ?k < chi"
  proof -
    have "map le_key tmp ! 0 < map le_key tmp ! sp"
      using kt spb by (intro sorted_wrt_nth_less [of "(<)"]) (auto simp: keys_between_def)
    moreover have "map le_key tmp ! 0 \<in> set (map le_key tmp)" "map le_key tmp ! sp \<in> set (map le_key tmp)"
      using spb by (intro nth_mem, unfold length_map, linarith)+
    ultimately show "clo < unat ?k" "unat ?k < chi"
      using kt unfolding k by (fastforce simp: keys_between_def word_less_nat_alt simp del: set_map nth_map)+
  qed
  have ctx: "ctx_ok ?ps (st_pages s1) h d 0 clo chi"
    by (rule ctx_ok_evolves [OF S(2) c(1)]) (use it'(2) pids in auto)
  have new: "new \<notin> set (pids ?t)" using D(7) [of new] it'(2) by blast
  have dist: "distinct (pids (Leaf p (take sp tmp)) @ pids (Leaf new (drop sp tmp)) @ ctx_pids d)"
    using pids new by auto
  have u1: "\<forall>q \<in> set (pids (Leaf p (take sp tmp)) @ pids (Leaf new (drop sp tmp)) @ ctx_pids d). in_use s1 fl1 q"
    using D(6) it'(2) pids(1) by auto
  have pr: "pid_of (plug d (Leaf p (take sp tmp))) = root_id s1"
    using pid_of_plug_cong [of "Leaf p (take sp tmp)" "Leaf p es" d] it'(4) S(3) by simp
  have "room s1 (Suc (length d))" using S(4) ok(2) c(3) by simp
  moreover have "hole_pid d (pid_of (Leaf p (take sp tmp)))" using c(2) by simp
  moreover have "stack_fits (unat (st_page_size s1)) d (pid_of (Leaf p (take sp tmp))) c1 st" using fits psz by simp
  ultimately obtain s' fl' h' t' N where R:
    "propagate_insert s1 ?k (pid_of (Leaf new (drop sp tmp))) st (length c1) = s'"
    "evolves s1 fl1 s' fl' N (set (map fst d)) (set (pids (Leaf p (take sp tmp)) @ pids (Leaf new (drop sp tmp)) @ ctx_pids d))"
    "bt_ok (unat (st_page_size s1)) (st_pages s') h' 0 (2 ^ 64) t'" "pid_of t' = root_id s'"
    "entries t' = ctx_before entries d @ entries (Leaf p (take sp tmp)) @ entries (Leaf new (drop sp tmp)) @ ctx_after entries d"
    "leaves t' = ctx_before leaves d @ leaves (Leaf p (take sp tmp)) @ leaves (Leaf new (drop sp tmp)) @ ctx_after leaves d"
    "distinct (pids t')"
    "set (pids t') = set (pids (Leaf p (take sp tmp)) @ pids (Leaf new (drop sp tmp)) @ ctx_pids d) \<union> N" "card N \<le> Suc (length d)"
    using propagate_insert_ok [OF D(1) _ ctx [folded psz] _ b1 [folded psz] b2 [folded psz] k0 dist u1 _ pr] by metis
  note D' = evolvesD [OF R(2)]
  have st: "set (pids t') = set (pids ?t) \<union> ({new} \<union> N)" unfolding R(8) using pids(1) by auto
  have E: "evolves s fl s' fl' ({new} \<union> N) ({p} \<union> set (map fst d)) (set (pids ?t))"
  proof (rule evolves_mono [OF evolves_trans [OF S(2) R(2)]])
    fix q assume "q \<in> {p, nx} \<union> set (pids (Leaf p (take sp tmp)) @ pids (Leaf new (drop sp tmp)) @ ctx_pids d)"
      and q: "in_use s fl q"
    then have "q \<in> insert p (set (ctx_pids d)) \<or> q = nx" using D(7) [of new] by auto
    moreover have "nx \<in> set (leaves ?t)" if "nx \<noteq> 0"
      using nxB that by (cases ?B) (auto simp: lv)
    moreover have "q \<noteq> 0" using q by (simp add: in_use_def)
    ultimately show "q \<in> set (pids ?t)" using pids(1) leaves_subset by blast
  qed auto
  have leaf_keep: "node_at ?ps (st_pages s' q) (LeafN n es')"
    if q: "in_use s1 fl1 q" "node_at ?ps (st_pages s1 q) (LeafN n es')" for q n es'
  proof -
    have "q \<notin> set (map fst d)"
    proof
      assume "q \<in> set (map fst d)"
      then obtain ks cs i where "(q, ks, cs, i) \<in> set d" by auto
      from ctx_ok_node [OF ctx this] q(2) show False by (simp add: node_at_def)
    qed
    with D'(9) q psz show ?thesis by simp
  qed
  have "leaf_links ?ps (st_pages s') (?A @ p # new # ?B) 0"
  proof (rule leaf_links_split [OF it'(3) [unfolded lv] lf(1)])
    have uu: "in_use s1 fl1 p" "in_use s1 fl1 new" using u1 by simp_all
    show "node_at ?ps (st_pages s' p) (LeafN new (take sp tmp))" by (rule leaf_keep [OF uu(1) S(5)])
    show "node_at ?ps (st_pages s' new) (LeafN nx (drop sp tmp))" by (rule leaf_keep [OF uu(2) S(6)])
    fix q n es' assume q: "q \<in> set ?A \<union> set ?B" "node_at ?ps (st_pages s q) (LeafN n es')"
    have "q \<in> set (pids ?t)" "q \<noteq> p" using q(1) lv leaves_subset [of ?t] distinct_leaves [OF it'(1)] by auto
    then show "node_at ?ps (st_pages s' q) (LeafN n es')"
      using leaf_keep D(6,9) it'(2) q(2) by blast
  qed
  then have links: "leaf_links ?ps (st_pages s') (leaves t') 0" using R(6) by simp
  have "index_tree s' fl' h' t'" by (rule index_treeI [OF E it'(2) st R(3) [unfolded psz] R(4,7) links])
  moreover have "card ({new} \<union> N) \<le> 33"
    using card_Un_le [of "{new}" N] R(9) c(3) it by (simp add: index_tree_def)
  with E st have "index_step s fl ?t s' fl' t'" by (rule index_stepI)
  moreover have "entries t' = ctx_before entries d @ tmp @ ctx_after entries d"
    using R(5) append_take_drop_id [of sp tmp] by (simp flip: append_assoc)
  ultimately show ?thesis using S(1) R(1) unfolding tmp_def [symmetric] by simp blast
qed

text \<open>A key that is there is refused and nothing changes; any other key is added.\<close>

lemma index_map_absent: "index_map t key = None \<longleftrightarrow> key \<notin> set (map le_key (entries t))"
  by (auto simp: index_map_def map_of_eq_None_iff image_image)

theorem bptree_insert_correct:
  assumes ok: "store_ok s fl" "room s (h + 2)" and it: "index_tree s fl h t"
  shows "index_map t key \<noteq> None \<Longrightarrow> bptree_insert s key ref = Some (-1, s)"
    and "index_map t key = None \<Longrightarrow> \<exists>s' fl' h' t'. bptree_insert s key ref = Some (0, s')
      \<and> index_tree s' fl' h' t' \<and> index_map t' = (index_map t)(key \<mapsto> ref) \<and> index_step s fl t s' fl' t'"
proof -
  let ?ps = "unat (st_page_size s)"
  from index_descend [OF it, of key True] obtain d p nx es clo chi st where D: "t = plug d (Leaf p es)"
    "ctx_ok ?ps (st_pages s) h d 0 clo chi" "hole_pid d p" "bt_ok ?ps (st_pages s) 0 clo chi (Leaf p es)"
    "node_at ?ps (st_pages s p) (LeafN nx es)" "clo \<le> unat key" "unat key < chi"
    "find_leaf_wlatch s True key = Some (p, st)" "stack_ok (st_page_size s) True (st_pages s) d p st" "length d = h"
    by blast
  note L = node_at_leafD [OF D(5)] and C = caps [OF ok(1)] and idx = ctx_ok_indices [OF D(2)]
  have kb: "keys_between clo chi (map le_key es)" using D(4) by (simp add: bt_ok_Leaf)
  then have srt: "sorted_wrt (<) (map le_key es)" by (simp add: keys_between_def)
  note K = leaf_lookup [OF srt, of key]
  have m: "index_map t key = map_of (map (\<lambda>e. (le_key e, le_row_ref e)) es) key"
    unfolding D(1) by (rule index_map_leaf [OF D(2,6,7)])
  have none: "index_map t key = None \<longleftrightarrow> key \<notin> set (map le_key es)"
    unfolding m by (auto simp: map_of_eq_None_iff image_image)
  show "bptree_insert s key ref = Some (-1, s)" if "index_map t key \<noteq> None"
    using that none K(1) D(8) L(3,4) by (simp add: bptree_insert_def Let_def)
  assume nk: "index_map t key = None"
  then have key: "key \<notin> set (map le_key es)" using none by simp
  have nf: "\<not> (leaf_find es key < length es \<and> le_key (es ! leaf_find es key) = key)" using K(1) key by simp
  let ?e = "\<lparr>le_key = key, le_row_ref = ref\<rparr>"
  have et: "entries t = (ctx_before entries d @ take (leaf_find es key) es) @ drop (leaf_find es key) es @ ctx_after entries d"
    unfolding D(1) entries_plug [OF idx] by simp
  have map: "index_map t' = (index_map t)(key \<mapsto> ref)"
    if "entries t' = ctx_before entries d @ list_insert (leaf_find es key) ?e es @ ctx_after entries d" for t'
    using index_map_insert [OF et, of t' ?e] that nk by (simp add: list_insert_def)
  show "\<exists>s' fl' h' t'. bptree_insert s key ref = Some (0, s')
      \<and> index_tree s' fl' h' t' \<and> index_map t' = (index_map t)(key \<mapsto> ref) \<and> index_step s fl t s' fl' t'"
  proof (cases "length es < leaf_cap ?ps")
    case True
    note I = insert_into_leaf [OF ok(1) it [unfolded D(1)] D(2,3,5) kb D(6,7) key True, where ref = ref]
    have "lph_key_count (get_leaf_hdr (st_pages s p)) < max_leaf_keys (st_page_size s)"
      using True L(3) C(1) by (simp add: word_less_nat_alt)
    then have "bptree_insert s key ref
        = Some (0, st_put s p (leaf_insert_entry (st_pages s p) (get_leaf_hdr (st_pages s p)) key ref))"
      using nf D(8) L(3,4) by (simp add: bptree_insert_def Let_def)
    with I map [of "plug d (Leaf p (list_insert (leaf_find es key) ?e es))"] show ?thesis
      unfolding D(1) by (auto simp: entries_plug [OF idx] D(1))
  next
    case False
    then have full: "length es = leaf_cap ?ps" using L(6) by simp
    obtain c1 where c1: "stack_fits ?ps d p c1 st" "length st = Suc (length c1)"
      using stack_fits_full [OF ok(1) D(9,2,5) full] .
    from insert_with_split [OF ok it [unfolded D(1)] D(2,3,10,5) kb D(6,7) key full c1(1), of ref]
    obtain pk new s1 s' fl' h' t' where I: "split_leaf s p key ref = (pk, new, s1)"
      "propagate_insert s1 pk new st (length c1) = s'" "index_tree s' fl' h' t'" "index_step s fl t s' fl' t'"
      "entries t' = ctx_before entries d @ list_insert (leaf_find es key) ?e es @ ctx_after entries d"
      unfolding D(1) by blast
    have "\<not> lph_key_count (get_leaf_hdr (st_pages s p)) < max_leaf_keys (st_page_size s)"
      using full L(3) C(1) by (simp add: word_less_nat_alt)
    then have "bptree_insert s key ref = Some (0, s')"
      using nf D(8) L(3,4) c1(2) I(1,2) by (simp add: bptree_insert_def Let_def)
    with I(3,4) map [OF I(5)] show ?thesis by blast
  qed
qed

end
