(* ===== verification/BPlus_Scan.thy ===== *)
theory BPlus_Scan
  imports BPlus_Map
begin

text \<open>
  The range scan visits the entries of the tree that lie between the bounds, in key order, until
  the callback stops it; the height is the number of levels.
\<close>

section \<open>Following the leaves\<close>

lemma concat_map_pieces:
  "(\<And>x. x \<in> set xs \<Longrightarrow> f x = concat (map g (k x))) \<Longrightarrow> concat (map f xs) = concat (map g (concat (map k xs)))"
  by (induction xs) auto

text \<open>The callback over a list of entries.\<close>

fun visit_entries :: "(u64 \<Rightarrow> row_ref \<Rightarrow> 'c \<Rightarrow> bool \<times> 'c) \<Rightarrow> 'c \<Rightarrow> leaf_entry list \<Rightarrow> 'c" where
  "visit_entries cb ctx [] = ctx"
| "visit_entries cb ctx (e # es) =
     (case cb (le_key e) (le_row_ref e) ctx of (go, ctx') \<Rightarrow> if go then visit_entries cb ctx' es else ctx')"

definition below_hi :: "bool \<Rightarrow> u64 \<Rightarrow> bool \<Rightarrow> u64 \<Rightarrow> bool" where
  "below_hi has_hi hi hi_inclusive k \<longleftrightarrow> \<not> has_hi \<or> (if hi_inclusive then k \<le> hi else k < hi)"

definition above_lo :: "bool \<Rightarrow> u64 \<Rightarrow> bool \<Rightarrow> u64 \<Rightarrow> bool" where
  "above_lo has_lo lo lo_inclusive k \<longleftrightarrow> \<not> has_lo \<or> (if lo_inclusive then lo \<le> k else lo < k)"

lemma scan_entries_append:
  "scan_entries b hi i cb ctx (xs @ ys) =
     (case scan_entries b hi i cb ctx xs of (go, c) \<Rightarrow> if go then scan_entries b hi i cb c ys else (False, c))"
  by (induction xs arbitrary: ctx) (auto split: prod.splits)

lemma scan_entries_sorted:
  "sorted_wrt (<) (map le_key es)
   \<Longrightarrow> snd (scan_entries b hi i cb ctx es) = visit_entries cb ctx (filter (\<lambda>e. below_hi b hi i (le_key e)) es)"
proof (induction es arbitrary: ctx)
  case (Cons e es)
  show ?case
  proof (cases "below_hi b hi i (le_key e)")
    case True
    then show ?thesis using Cons by (auto simp: below_hi_def not_le not_less split: prod.splits if_splits)
  next
    case False
    then have stop: "b \<and> (if i then le_key e > hi else le_key e \<ge> hi)"
      by (auto simp: below_hi_def not_le not_less)
    have "\<not> below_hi b hi i (le_key x)" if "x \<in> set es" for x
    proof -
      have "le_key e < le_key x" using Cons.prems that by simp
      then show ?thesis using stop by (auto simp: below_hi_def split: if_splits)
    qed
    then have "filter (\<lambda>e. below_hi b hi i (le_key e)) (e # es) = []" using False by (simp add: filter_empty_conv)
    then show ?thesis using stop by simp
  qed
qed simp

definition page_entries :: "bytes \<Rightarrow> leaf_entry list" where
  "page_entries page = leaf_entries page (unat (lph_key_count (get_leaf_hdr page)))"

lemma scan_leaves_links:
  assumes "leaf_links ps pg (p # r) 0" "0 \<notin> set r"
  shows "scan_leaves pg b hi i cb p idx ctx
    = Some (snd (scan_entries b hi i cb ctx (drop idx (page_entries (pg p)) @ concat (map (\<lambda>q. page_entries (pg q)) r))))"
  using assms
proof (induction r arbitrary: p idx ctx)
  case Nil
  then obtain es where "node_at ps (pg p) (LeafN 0 es)" by auto
  note L = node_at_leafD [OF this]
  show ?case
    by (subst scan_leaves.simps) (simp add: L(2) page_entries_def Let_def split: prod.splits)
next
  case (Cons q r)
  then obtain es where "node_at ps (pg p) (LeafN q es)" by auto
  note L = node_at_leafD [OF this]
  have IH: "scan_leaves pg b hi i cb q 0 c
      = Some (snd (scan_entries b hi i cb c (page_entries (pg q) @ concat (map (\<lambda>q. page_entries (pg q)) r))))" for c
    using Cons.IH [of q 0 c] Cons.prems by simp
  have "q \<noteq> 0" using Cons.prems(2) by auto
  then show ?case
    by (subst scan_leaves.simps)
      (simp add: L(2) page_entries_def [symmetric] Let_def IH scan_entries_append split: prod.splits)
qed

lemma entries_of_leaves:
  "bt_ok ps pg h lo hi t \<Longrightarrow> entries t = concat (map (\<lambda>q. page_entries (pg q)) (leaves t))"
proof (induction h lo hi t rule: bt_ok.induct)
  case (leaf p nx es lo hi)
  then show ?case using node_at_leafD(3,4) [OF leaf(1)] by (simp add: page_entries_def)
next
  case (inner p ks cs lo hi h)
  have "entries t = concat (map (\<lambda>q. page_entries (pg q)) (leaves t))" if "t \<in> set cs" for t
    using inner.IH that by (metis in_set_conv_nth)
  from concat_map_pieces [OF this] show ?case by simp
qed

lemma ctx_after_entries:
  "ctx_ok ps pg H d h lo hi \<Longrightarrow> ctx_after entries d = concat (map (\<lambda>q. page_entries (pg q)) (ctx_after leaves d))"
proof (induction d arbitrary: h lo hi)
  case (Cons f d)
  obtain p ks cs i where f: "f = (p, ks, cs, i)" by (cases f)
  from Cons.prems f obtain plo phi where P: "ctx_ok ps pg H d (Suc h) plo phi"
    "\<forall>j < length cs. j \<noteq> i \<longrightarrow> bt_ok ps pg h (lo_of plo ks j) (hi_of phi ks j) (cs ! j)" by auto
  have "entries t = concat (map (\<lambda>q. page_entries (pg q)) (leaves t))" if "t \<in> set (drop (Suc i) cs)" for t
  proof -
    from that obtain j where "j < length (drop (Suc i) cs)" "t = drop (Suc i) cs ! j" unfolding in_set_conv_nth by blast
    then have "Suc i + j < length cs" "t = cs ! (Suc i + j)" by simp_all
    with P(2) show ?thesis using entries_of_leaves by (metis add_Suc less_add_Suc1 less_irrefl)
  qed
  from concat_map_pieces [OF this] show ?case using Cons.IH [OF P(1)] by (simp add: f)
qed simp

section \<open>The leftmost leaf and the height\<close>

lemma leftmost_and_height:
  assumes "bt_ok ps pg h lo hi t"
  shows "find_leftmost_from pg (pid_of t) = Some (hd (leaves t)) \<and> leaves t \<noteq> []
    \<and> height_from pg (pid_of t) n = Some (n + h + 1)"
  using assms
proof (induction h lo hi t arbitrary: n rule: bt_ok.induct)
  case (leaf p nx es lo hi)
  then show ?case using node_at_leafD(7) [OF leaf(1)]
    by (simp add: find_leftmost_from.simps [of pg p] height_from.simps [of pg p])
next
  case (inner p ks cs lo hi h)
  note I = node_at_innerD [OF inner(1)]
  obtain c r where cs: "cs = c # r" using inner.hyps by (cases cs) auto
  have lc: "iph_leftmost_child (get_internal_hdr (pg p)) = pid_of c" using I(4) cs by simp
  have pt: "page_type (pg p) \<noteq> PAGE_TYPE_LEAF" using I(7) by simp
  have IH: "find_leftmost_from pg (pid_of c) = Some (hd (leaves c)) \<and> leaves c \<noteq> []
    \<and> height_from pg (pid_of c) n = Some (n + h + 1)" for n
    using inner.IH [rule_format, of 0] cs by simp
  show ?case
    using pt lc IH [of "Suc n"] by (simp add: find_leftmost_from.simps [of pg p] height_from.simps [of pg p n] cs)
qed

theorem bptree_height_correct: "index_tree s fl h t \<Longrightarrow> bptree_height s = Some (h + 1)"
  using leftmost_and_height [of _ _ h 0 "2 ^ 64" t 0] unfolding index_tree_def bptree_height_def by fastforce

section \<open>The range scan\<close>

lemma skip_equal_drop:
  assumes "sorted_wrt (<) (map le_key es)"
  shows "drop (skip_equal es lo (leaf_find es lo)) es = filter (\<lambda>e. lo < le_key e) es"
proof -
  let ?n = "leaf_find es lo"
  note K = leaf_lookup [OF assms, of lo]
  have sd: "sorted_wrt (<) (map le_key (drop ?n es))" using assms by (simp add: sorted_wrt_drop flip: drop_map)
  have dw: "dropWhile (\<lambda>e. le_key e = lo) xs = filter (\<lambda>e. lo < le_key e) xs"
    if "sorted_wrt (<) (map le_key xs)" "\<forall>k \<in> set (map le_key xs). lo \<le> k" for xs
  proof (cases xs)
    case (Cons e r)
    have "\<forall>x \<in> set r. lo < le_key x" using that Cons by (auto intro: le_less_trans)
    moreover have "lo \<le> le_key e" using that(2) Cons by simp
    ultimately show ?thesis using Cons by (cases r) (auto simp: order_le_less filter_id_conv)
  qed simp
  have "drop (skip_equal es lo ?n) es = dropWhile (\<lambda>e. le_key e = lo) (drop ?n es)"
    by (simp add: skip_equal_def dropWhile_eq_drop add.commute)
  also have "\<dots> = filter (\<lambda>e. lo < le_key e) (drop ?n es)" using dw [OF sd] K(5) by blast
  also have "\<dots> = filter (\<lambda>e. lo < le_key e) es"
  proof -
    have "filter (\<lambda>e. lo < le_key e) (take ?n es) = []" using K(4) by (fastforce simp: filter_empty_conv)
    then show ?thesis by (metis append_Nil append_take_drop_id filter_append)
  qed
  finally show ?thesis .
qed

lemma drop_leaf_find:
  assumes "sorted_wrt (<) (map le_key es)"
  shows "drop (leaf_find es lo) es = filter (\<lambda>e. lo \<le> le_key e) es"
proof -
  note K = leaf_lookup(4,5) [OF assms, of lo]
  have "filter (\<lambda>e. lo \<le> le_key e) (take (leaf_find es lo) es) = []"
    using K(1) by (fastforce simp: filter_empty_conv)
  moreover have "filter (\<lambda>e. lo \<le> le_key e) (drop (leaf_find es lo) es) = drop (leaf_find es lo) es"
    using K(2) by (simp add: filter_id_conv)
  ultimately show ?thesis by (metis append_Nil append_take_drop_id filter_append)
qed

theorem bptree_range_scan_correct:
  assumes it: "index_tree s fl h t"
  shows "bptree_range_scan s has_lo lo lo_inc has_hi hi hi_inc cb ctx
    = Some (visit_entries cb ctx (filter (\<lambda>e. above_lo has_lo lo lo_inc (le_key e) \<and> below_hi has_hi hi hi_inc (le_key e)) (entries t)))"
proof -
  let ?ps = "unat (st_page_size s)" and ?pg = "st_pages s"
  have bt: "bt_ok ?ps ?pg h 0 (2 ^ 64) t" and links: "leaf_links ?ps ?pg (leaves t) 0"
    and nz: "0 \<notin> set (leaves t)" and root: "pid_of t = root_id s"
    using it leaves_subset [of t] by (auto simp: index_tree_def in_use_def)
  have srt: "sorted_wrt (<) (map le_key (entries t))"
    using entries_between [OF bt] by (simp add: keys_between_def)
  have fin: "Some (snd (scan_entries has_hi hi hi_inc cb ctx es))
      = Some (visit_entries cb ctx (filter (\<lambda>e. above_lo has_lo lo lo_inc (le_key e) \<and> below_hi has_hi hi hi_inc (le_key e)) (entries t)))"
    if es: "es = filter (\<lambda>e. above_lo has_lo lo lo_inc (le_key e)) (entries t)" for es
  proof -
    have "sorted_wrt (<) (map le_key es)"
      unfolding es using srt by (simp add: sorted_wrt_map sorted_wrt_filter)
    from scan_entries_sorted [OF this] show ?thesis by (simp add: es filter_filter conj_commute)
  qed
  show ?thesis
  proof (cases has_lo)
    case False
    obtain p r where l: "leaves t = p # r" using leftmost_and_height [OF bt] by (cases "leaves t") auto
    have f: "find_leftmost_leaf_rlatch s = Some p"
      using leftmost_and_height [OF bt] l root by (simp add: find_leftmost_leaf_rlatch_def)
    have "bptree_range_scan s has_lo lo lo_inc has_hi hi hi_inc cb ctx
        = Some (snd (scan_entries has_hi hi hi_inc cb ctx (entries t)))"
      using False f scan_leaves_links [OF links [unfolded l], of has_hi hi hi_inc cb 0 ctx] nz l entries_of_leaves [OF bt]
      by (simp add: bptree_range_scan_def Let_def)
    with fin [of "entries t"] False show ?thesis by (simp add: above_lo_def)
  next
    case True
    from index_descend [OF it, of lo True] obtain d p nx es clo chi where D: "t = plug d (Leaf p es)"
      "ctx_ok ?ps ?pg h d 0 clo chi" "bt_ok ?ps ?pg 0 clo chi (Leaf p es)"
      "node_at ?ps (?pg p) (LeafN nx es)" "clo \<le> unat lo" "unat lo < chi" "find_leaf_rlatch s lo = Some p" by blast
    note L = node_at_leafD [OF D(4)] and idx = ctx_ok_indices [OF D(2)]
    have sl: "sorted_wrt (<) (map le_key es)" using D(3) by (simp add: bt_ok_Leaf keys_between_def)
    have lv: "leaves t = ctx_before leaves d @ p # ctx_after leaves d" by (simp add: D(1) leaves_plug [OF idx])
    have et: "entries t = ctx_before entries d @ es @ ctx_after entries d" by (simp add: D(1) entries_plug [OF idx])
    have after: "ctx_after entries d = concat (map (\<lambda>q. page_entries (?pg q)) (ctx_after leaves d))"
      using D(2) by (rule ctx_after_entries)
    have pl: "leaf_links ?ps ?pg (p # ctx_after leaves d) 0" using links unfolding lv leaf_links_append by blast
    have n0: "0 \<notin> set (ctx_after leaves d)" using nz lv by simp
    have pe: "page_entries (?pg p) = es" using L(3,4) by (simp add: page_entries_def)
    define idx' where "idx' = (if lo_inc then leaf_find es lo else skip_equal es lo (leaf_find es lo))"
    have sc: "bptree_range_scan s has_lo lo lo_inc has_hi hi hi_inc cb ctx
        = Some (snd (scan_entries has_hi hi hi_inc cb ctx (drop idx' es @ ctx_after entries d)))"
      using True D(7) L(3,4) scan_leaves_links [OF pl n0, of has_hi hi hi_inc cb idx' ctx] pe
      by (cases lo_inc) (simp_all add: bptree_range_scan_def Let_def idx'_def after)
    note B = ctx_bounds [OF D(2)]
    have "filter (\<lambda>e. above_lo has_lo lo lo_inc (le_key e)) (ctx_before entries d) = []"
    proof -
      have "\<not> above_lo has_lo lo lo_inc (le_key e)" if "e \<in> set (ctx_before entries d)" for e
      proof -
        have "unat (le_key e) < unat lo" using B(2) that D(5) by fastforce
        then show ?thesis using True by (simp add: above_lo_def word_le_nat_alt word_less_nat_alt)
      qed
      then show ?thesis by (simp add: filter_empty_conv)
    qed
    moreover have "filter (\<lambda>e. above_lo has_lo lo lo_inc (le_key e)) (ctx_after entries d) = ctx_after entries d"
    proof -
      have "above_lo has_lo lo lo_inc (le_key e)" if "e \<in> set (ctx_after entries d)" for e
      proof -
        have "unat lo < unat (le_key e)" using B(3) that D(6) by fastforce
        then show ?thesis by (simp add: above_lo_def word_le_nat_alt word_less_nat_alt)
      qed
      then show ?thesis by (simp add: filter_id_conv)
    qed
    moreover have "filter (\<lambda>e. above_lo has_lo lo lo_inc (le_key e)) es = drop idx' es"
      using True skip_equal_drop [OF sl, of lo] drop_leaf_find [OF sl, of lo] by (simp add: above_lo_def idx'_def)
    ultimately have "drop idx' es @ ctx_after entries d = filter (\<lambda>e. above_lo has_lo lo lo_inc (le_key e)) (entries t)"
      by (simp add: et)
    from fin [OF this] sc show ?thesis by simp
  qed
qed

end
