(* ===== verification/BPlus_Contract.thy ===== *)
theory BPlus_Contract
  imports BPlus_Scan Heap_Contract
begin

text \<open>
  The contract between the index and the executor: \<open>key_index\<close> is a finite map from keys to
  references with insertion that refuses duplicates, lookup and a scan over an interval of keys.
  The interpretation \<open>ix\<close> shows that the B+ tree of theory \<open>BPlus_Tree\<close> provides it; the counter
  \<open>n\<close> bounds how many insertions the 32-bit page numbers still leave room for (an insertion
  takes at most 33 pages).
\<close>

section \<open>The interface\<close>

fun insert_keys :: "('s \<Rightarrow> u64 \<Rightarrow> 'r \<Rightarrow> (int \<times> 's) option) \<Rightarrow> 's \<Rightarrow> (u64 \<times> 'r) list \<Rightarrow> 's option" where
  "insert_keys ins s [] = Some s"
| "insert_keys ins s ((k, r) # kr) = (case ins s k r of None \<Rightarrow> None | Some (rc, s') \<Rightarrow> insert_keys ins s' kr)"

locale key_index =
  fixes models :: "'s \<Rightarrow> nat \<Rightarrow> (u64 \<Rightarrow> 'r option) \<Rightarrow> bool"
    and ins :: "'s \<Rightarrow> u64 \<Rightarrow> 'r \<Rightarrow> (int \<times> 's) option" and find :: "'s \<Rightarrow> u64 \<Rightarrow> 'r option option"
    and listing :: "'s \<Rightarrow> (u64 \<times> 'r) list option"
  assumes ins_new: "models s (Suc n) m \<Longrightarrow> m k = None \<Longrightarrow> \<exists>s'. ins s k r = Some (0, s') \<and> models s' n (m(k \<mapsto> r))"
    and ins_dup: "models s (Suc n) m \<Longrightarrow> m k \<noteq> None \<Longrightarrow> ins s k r = Some (-1, s)"
    and models_less: "models s (Suc n) m \<Longrightarrow> models s n m"
    and find_ok: "models s n m \<Longrightarrow> find s k = Some (m k)"
    and listing_ok: "models s n m \<Longrightarrow> \<exists>l. listing s = Some l \<and> sorted_wrt (<) (map fst l) \<and> map_of l = m"
begin

text \<open>Of several insertions under one key the first counts.\<close>

lemma ins_list_ok:
  assumes "models s (length kr + n) m"
  shows "\<exists>s'. insert_keys ins s kr = Some s' \<and> models s' n (map_of kr ++ m)"
  using assms
proof (induction kr arbitrary: s m)
  case (Cons p kr)
  obtain k r where p: "p = (k, r)" by (cases p)
  have g: "models s (Suc (length kr + n)) m" using Cons.prems by simp
  show ?case
  proof (cases "m k")
    case None
    with ins_new [OF g] obtain s1 where s1: "ins s k r = Some (0, s1)" "models s1 (length kr + n) (m(k \<mapsto> r))" by blast
    from Cons.IH [OF s1(2)] obtain s' where "insert_keys ins s1 kr = Some s'" "models s' n (map_of kr ++ m(k \<mapsto> r))" by blast
    moreover have "map_of kr ++ m(k \<mapsto> r) = map_of (p # kr) ++ m"
      using None by (auto simp: p map_add_def fun_eq_iff split: option.splits)
    ultimately have "models s' n (map_of (p # kr) ++ m)" "insert_keys ins s1 kr = Some s'" by (simp_all only:)
    moreover from this(2) have "insert_keys ins s (p # kr) = Some s'" using s1(1) p by simp
    ultimately show ?thesis by blast
  next
    case (Some v)
    with ins_dup [OF g] have "ins s k r = Some (-1, s)" by simp
    moreover from Cons.IH [OF models_less [OF g]] obtain s' where "insert_keys ins s kr = Some s'" "models s' n (map_of kr ++ m)" by blast
    moreover have "map_of kr ++ m = map_of (p # kr) ++ m"
      using Some by (auto simp: p map_add_def fun_eq_iff split: option.splits)
    ultimately have "models s' n (map_of (p # kr) ++ m)" "insert_keys ins s (p # kr) = Some s'" using p by (simp_all only:) simp
    then show ?thesis by blast
  qed
qed simp

lemma ins_list_find:
  assumes "models s (length kr + n) (\<lambda>_. None)"
  shows "\<exists>s' l. insert_keys ins s kr = Some s' \<and> (\<forall>k. find s' k = Some (map_of kr k))
    \<and> listing s' = Some l \<and> sorted_wrt (<) (map fst l) \<and> map_of l = map_of kr"
proof -
  from ins_list_ok [OF assms] obtain s' where s': "insert_keys ins s kr = Some s'" "models s' n (map_of kr)" by auto
  from listing_ok [OF s'(2)] obtain l where "listing s' = Some l" "sorted_wrt (<) (map fst l)" "map_of l = map_of kr" by blast
  with s' find_ok [OF s'(2)] show ?thesis by blast
qed

end

section \<open>The B+ tree provides it\<close>

definition index_collect :: "store \<Rightarrow> (u64 \<times> row_ref) list option" where
  "index_collect s = map_option rev (bptree_range_scan s False 0 False False 0 False (\<lambda>k r acc. (True, (k, r) # acc)) [])"

definition index_models :: "store \<Rightarrow> nat \<Rightarrow> (u64 \<Rightarrow> row_ref option) \<Rightarrow> bool" where
  "index_models s n m \<longleftrightarrow> room s (33 * n)
     \<and> (\<exists>fl h t. store_ok s fl \<and> index_tree s fl h t \<and> m = index_map t)"

lemma visit_entries_collect:
  "visit_entries (\<lambda>k r acc. (True, (k, r) # acc)) acc es = rev (map (\<lambda>e. (le_key e, le_row_ref e)) es) @ acc"
  by (induction es arbitrary: acc) auto

lemma index_collect_entries:
  assumes "index_tree s fl h t"
  shows "index_collect s = Some (map (\<lambda>e. (le_key e, le_row_ref e)) (entries t))"
  unfolding index_collect_def bptree_range_scan_correct [OF assms]
  by (simp add: visit_entries_collect above_lo_def below_hi_def)

lemma index_tree_sorted: "index_tree s fl h t \<Longrightarrow> sorted_wrt (<) (map le_key (entries t))"
  using entries_between unfolding index_tree_def keys_between_def by (metis zero_le)

interpretation ix: key_index index_models bptree_insert bptree_search index_collect
proof
  fix s n m k and r :: row_ref
  assume "index_models s (Suc n) m"
  then obtain fl h t where I: "room s (33 * n + 33)" "store_ok s fl" "index_tree s fl h t" "m = index_map t"
    by (auto simp: index_models_def add.commute)
  have rm: "room s (h + 2)" using I(1,3) by (auto simp: room_def index_tree_def)
  note C = bptree_insert_correct [OF I(2) rm I(3), of k r]
  show "m k \<noteq> None \<Longrightarrow> bptree_insert s k r = Some (-1, s)" using C(1) I(4) by simp
  assume "m k = None"
  then have "index_map t k = None" using I(4) by simp
  from C(2) [OF this] I(4) obtain s' fl' h' t' where "bptree_insert s k r = Some (0, s')" "index_tree s' fl' h' t'"
    "index_map t' = m(k \<mapsto> r)" "index_step s fl t s' fl' t'" by blast
  with I(1) show "\<exists>s'. bptree_insert s k r = Some (0, s') \<and> index_models s' n (m(k \<mapsto> r))"
    unfolding index_models_def index_step_def by metis
next
  fix s n m assume "index_models s (Suc n) m"
  then show "index_models s n m" by (auto simp: index_models_def room_def)
next
  fix s n m k assume "index_models s n m"
  then show "bptree_search s k = Some (m k)" using bptree_search_correct by (auto simp: index_models_def)
next
  fix s n m assume "index_models s n m"
  then obtain fl h t where I: "index_tree s fl h t" "m = index_map t" by (auto simp: index_models_def)
  then show "\<exists>l. index_collect s = Some l \<and> sorted_wrt (<) (map fst l) \<and> map_of l = m"
    using index_collect_entries [OF I(1)] index_tree_sorted [OF I(1)] by (simp add: index_map_def comp_def)
qed

section \<open>A concrete index\<close>

text \<open>The demonstration store with an empty leaf as root, the shape \<open>pager_open\<close> creates; a leaf holds three keys.\<close>

definition demo_index :: store where
  "demo_index = st_put demo_store 2 (write_leaf (replicate 64 0)
     \<lparr>lph_page_type = PAGE_TYPE_LEAF, lph_parent_page_id = 0, lph_key_count = 0, lph_next_leaf = 0, lph_prev_leaf = 0\<rparr> [])"

lemma demo_index_node:
  "node_at 64 (st_pages demo_index 2) (LeafN 0 [])"
  using node_at_write_leaf [of "replicate 64 0" 64 "[]"
    "\<lparr>lph_page_type = PAGE_TYPE_LEAF, lph_parent_page_id = 0, lph_key_count = 0, lph_next_leaf = 0, lph_prev_leaf = 0\<rparr>"]
  by (simp add: demo_index_def leaf_cap_def)

lemma demo_index_ok: "store_ok demo_index []"
  unfolding demo_index_def using demo_store_ok
  by (rule store_ok_put) (simp_all add: length_write_leaf demo_store_def)

lemma demo_index_simps: "st_page_size demo_index = 64" "root_id demo_index = 2" "in_use demo_index [] 2" "room demo_index n = (n + 3 < 2 ^ 32)"
  by (simp_all add: demo_index_def demo_store_def root_id_def in_use_def room_def)

lemma demo_index_tree: "index_tree demo_index [] 0 (Leaf 2 [])"
  using demo_index_node
  by (auto simp: index_tree_def demo_index_simps bt_ok_Leaf keys_between_def)

lemma demo_index_models: "n \<le> 1000 \<Longrightarrow> index_models demo_index n (\<lambda>_. None)"
  unfolding index_models_def using demo_index_ok demo_index_tree
  by (fastforce simp: demo_index_simps index_map_def)

end
