(* ===== verification/BPlus_Shrink.thy ===== *)
theory BPlus_Shrink
  imports BPlus_Insert
begin

text \<open>
  What the writes of \<open>bptree_delete\<close> do to a node, and how its operations change a store:
  \<open>shrinks s fl s' fl' F W T\<close> says that the pages \<open>F\<close> were given back, the pages outside \<open>T\<close> are
  untouched and those outside \<open>W\<close> still hold the node they held.
\<close>

section \<open>Writes to a node\<close>

lemma list_remove_nth_split: "i < length xs \<Longrightarrow> xs = A @ x # B \<Longrightarrow> i = length A \<Longrightarrow> list_remove i xs = A @ B"
  by (simp add: list_remove_def)

lemma length_list_remove: "i < length xs \<Longrightarrow> length (list_remove i xs) = length xs - 1"
  by (simp add: list_remove_def)

lemma map_list_remove: "map f (list_remove i xs) = list_remove i (map f xs)"
  by (simp add: list_remove_def take_map drop_map)

lemma u32_minus_one: "unat (c :: u32) = n \<Longrightarrow> 0 < n \<Longrightarrow> unat (c - 1) = n - 1"
  by (subst unat_sub) (auto simp: word_le_nat_alt)

lemma node_at_set_separator:
  assumes n: "node_at ps b (InnerN ks cps)" and i: "i < length ks"
  shows "node_at ps (set_separator b i k) (InnerN (ks[i := k]) cps)"
proof -
  note L = node_at_innerD [OF n]
  define es where "es = internal_entries b (length ks)"
  define es' where "es' = es[i := (es ! i)\<lparr>ie_key := k\<rparr>]"
  have es: "map ie_key es = ks" "iph_leftmost_child (get_internal_hdr b) # map ie_right_child es = cps" "length es = length ks"
    using L(3,4) by (simp_all add: es_def internal_entries_def)
  have e': "map ie_key es' = ks[i := k]" "map ie_right_child es' = map ie_right_child es" "length es' = length ks"
    using i es by (simp_all add: es'_def map_update list_update_nth_same)
      (metis length_map list_update_id nth_map)
  have "node_at ps (write_internal b (get_internal_hdr b) es')
    (InnerN (map ie_key es') (iph_leftmost_child (get_internal_hdr b) # map ie_right_child es'))"
    by (rule node_at_write_internal) (use L e' in simp_all)
  moreover have "set_separator b i k = write_internal b (get_internal_hdr b) es'"
    by (simp add: set_separator_def Let_def L(2) es'_def es_def)
  ultimately show ?thesis using e' es(2) by simp
qed

lemma node_at_delete_internal:
  assumes n: "node_at ps b (InnerN ks cps)" and i: "i < length ks"
  shows "node_at ps (delete_entry_from_internal b (get_internal_hdr b) i)
    (InnerN (list_remove i ks) (list_remove (Suc i) cps))"
proof -
  note L = node_at_innerD [OF n]
  define es where "es = internal_entries b (length ks)"
  let ?h = "(get_internal_hdr b)\<lparr>iph_key_count := iph_key_count (get_internal_hdr b) - 1\<rparr>"
  have es: "map ie_key es = ks" "iph_leftmost_child (get_internal_hdr b) # map ie_right_child es = cps" "length es = length ks"
    using L(3,4) by (simp_all add: es_def internal_entries_def)
  have c: "unat (iph_key_count ?h) = length (list_remove i es)"
    using u32_minus_one [OF L(2)] length_list_remove [of i es] i es(3) by (cases ks) auto
  have "node_at ps (write_internal b ?h (list_remove i es))
    (InnerN (map ie_key (list_remove i es)) (iph_leftmost_child ?h # map ie_right_child (list_remove i es)))"
    by (rule node_at_write_internal) (use L c i es(3) in \<open>simp_all add: length_list_remove\<close>)
  moreover have "iph_leftmost_child ?h # map ie_right_child (list_remove i es) = list_remove (Suc i) cps"
    by (simp add: map_list_remove flip: es(2)) (simp add: list_remove_def)
  ultimately show ?thesis
    by (simp add: delete_entry_from_internal_def L(2) map_list_remove es(1) flip: es_def)
qed

lemma node_at_delete_leaf:
  assumes n: "node_at ps b (LeafN nx es)" and i: "i < length es"
  shows "node_at ps (delete_entry_from_leaf b (get_leaf_hdr b) i) (LeafN nx (list_remove i es))"
proof -
  note L = node_at_leafD [OF n]
  let ?h = "(get_leaf_hdr b)\<lparr>lph_key_count := lph_key_count (get_leaf_hdr b) - 1\<rparr>"
  have c: "unat (lph_key_count ?h) = length (list_remove i es)"
    using u32_minus_one [OF L(3)] length_list_remove [OF i] i by (cases es) auto
  have "node_at ps (write_leaf b ?h (list_remove i es)) (LeafN (lph_next_leaf ?h) (list_remove i es))"
    by (rule node_at_write_leaf) (use L c i in \<open>simp_all add: length_list_remove\<close>)
  then show ?thesis by (simp add: delete_entry_from_leaf_def L)
qed

lemma node_at_leaf_insert:
  assumes n: "node_at ps b (LeafN nx es)" and space: "length es < leaf_cap ps" "leaf_cap ps < 65536"
  shows "node_at ps (leaf_insert_entry b (get_leaf_hdr b) key ref)
    (LeafN nx (list_insert (leaf_find es key) \<lparr>le_key = key, le_row_ref = ref\<rparr> es))"
proof -
  note L = node_at_leafD [OF n]
  let ?h = "(get_leaf_hdr b)\<lparr>lph_key_count := lph_key_count (get_leaf_hdr b) + 1\<rparr>"
  let ?es = "list_insert (leaf_find es key) \<lparr>le_key = key, le_row_ref = ref\<rparr> es"
  have "unat (lph_key_count (get_leaf_hdr b) + 1) = Suc (length es)"
    using L(3) space by (subst unat_Suc_small) simp_all
  then have "node_at ps (write_leaf b ?h ?es) (LeafN (lph_next_leaf ?h) ?es)"
    by (intro node_at_write_leaf) (use L space in simp_all)
  then show ?thesis by (simp add: leaf_insert_entry_def Let_def L)
qed

text \<open>Writing only the header with a smaller count cuts the last entry off.\<close>

lemma get_array_butlast:
  "get_array f w b off n = es \<Longrightarrow> es \<noteq> [] \<Longrightarrow> get_array f w b off (n - 1) = butlast es"
  by (cases n) (auto simp: get_array_def)

lemma node_at_truncate_leaf:
  assumes n: "node_at ps b (LeafN nx es)" and ne: "es \<noteq> []"
  shows "node_at ps (mwrite b 0 (put_leaf_hdr ((get_leaf_hdr b)\<lparr>lph_key_count := lph_key_count (get_leaf_hdr b) - 1\<rparr>)))
    (LeafN nx (butlast es))"
proof -
  note L = node_at_leafD [OF n]
  let ?h = "(get_leaf_hdr b)\<lparr>lph_key_count := lph_key_count (get_leaf_hdr b) - 1\<rparr>"
  let ?b = "mwrite b 0 (put_leaf_hdr ?h)"
  have f: "20 + length es * 14 \<le> ps" using L(6,8) by (simp add: leaf_cap_fits)
  have h: "get_leaf_hdr ?b = ?h"
    using leaf_hdr.load_store [where off = 0 and b = b and x = ?h] L(1,8) by simp
  have "leaf_entries b (length es - 1) = butlast es"
    using get_array_butlast [OF L(4) [unfolded leaf_entries_def] ne] by (simp add: leaf_entries_def)
  moreover have "leaf_entries ?b (length es - 1) = leaf_entries b (length es - 1)"
    using f L(1) by (intro leaf_entries_other) (auto simp: leaf_hdr.length_enc)
  moreover have "unat (lph_key_count ?h) = length es - 1" using u32_minus_one [OF L(3)] ne by simp
  moreover have "length ?b = ps" using L(1,8) by (simp add: length_mwrite leaf_hdr.length_enc)
  ultimately show ?thesis
    using h L by (simp add: node_at_def node_view_def leaf_node_def Let_def page_type_hdr(1))
qed

lemma node_at_truncate_internal:
  assumes n: "node_at ps b (InnerN ks cps)" and ne: "ks \<noteq> []"
  shows "node_at ps (mwrite b 0 (put_internal_hdr ((get_internal_hdr b)\<lparr>iph_key_count := iph_key_count (get_internal_hdr b) - 1\<rparr>)))
    (InnerN (butlast ks) (butlast cps))"
proof -
  note L = node_at_innerD [OF n]
  define es where "es = internal_entries b (length ks)"
  let ?h = "(get_internal_hdr b)\<lparr>iph_key_count := iph_key_count (get_internal_hdr b) - 1\<rparr>"
  let ?b = "mwrite b 0 (put_internal_hdr ?h)"
  have es: "map ie_key es = ks" "iph_leftmost_child (get_internal_hdr b) # map ie_right_child es = cps" "length es = length ks"
    using L(3,4) by (simp_all add: es_def internal_entries_def)
  have f: "16 + length ks * 12 \<le> ps" using L(6,8) by (simp add: inner_cap_fits)
  have h: "get_internal_hdr ?b = ?h"
    using internal_hdr.load_store [where off = 0 and b = b and x = ?h] L(1,8) by simp
  have ne': "es \<noteq> []" using es ne by auto
  have "internal_entries b (length ks - 1) = butlast es"
    using get_array_butlast [OF _ ne', of get_internal_entry 12 b 16 "length ks"] by (simp add: internal_entries_def es_def)
  moreover have "internal_entries ?b (length ks - 1) = internal_entries b (length ks - 1)"
    using f L(1) by (intro internal_entries_other) (auto simp: internal_hdr.length_enc)
  moreover have "unat (iph_key_count ?h) = length ks - 1" using u32_minus_one [OF L(2)] ne by simp
  moreover have "length ?b = ps" using L(1,8) by (simp add: length_mwrite internal_hdr.length_enc)
  moreover have "butlast cps = iph_leftmost_child (get_internal_hdr b) # map ie_right_child (butlast es)"
    using ne' by (simp add: map_butlast flip: es(2))
  ultimately show ?thesis
    using h L es(1) by (simp add: node_at_def node_view_def inner_node_def Let_def page_type_hdr(2) map_butlast)
qed

lemma node_at_first_entry:
  assumes "node_at ps b (LeafN nx (e # es))"
  shows "get_leaf_entry (drop 20 b) = e"
  using node_at_leafD(4) [OF assms] by (simp add: leaf_entries_def get_array_def map_upt_Suc del: upt_Suc)

lemma find_child_idx_nth:
  assumes n: "node_at ps b (InnerN ks cps)" and d: "distinct cps" and i: "i < length cps"
  shows "find_child_idx b (cps ! i) = Some i"
proof -
  note L = node_at_innerD [OF n]
  define es where "es = internal_entries b (length ks)"
  have cps: "cps = iph_leftmost_child (get_internal_hdr b) # map ie_right_child es" using L(4) by (simp add: es_def)
  show ?thesis
  proof (cases i)
    case 0
    then show ?thesis by (simp add: find_child_idx_def Let_def cps)
  next
    case (Suc j)
    define rs where "rs = map ie_right_child es"
    have c: "cps = iph_leftmost_child (get_internal_hdr b) # rs" "cps ! i = rs ! j" "j < length rs" "distinct rs"
      "iph_leftmost_child (get_internal_hdr b) \<notin> set rs"
      using cps Suc i d by (simp_all add: rs_def)
    have "takeWhile (\<lambda>c. c \<noteq> rs ! j) rs = take j rs"
    proof (rule takeWhile_eq_take_P_nth)
      show "k < j \<Longrightarrow> k < length rs \<Longrightarrow> rs ! k \<noteq> rs ! j" for k using c(3,4) by (auto simp: nth_eq_iff_index_eq)
    qed simp
    then have "length (takeWhile (\<lambda>c. c \<noteq> rs ! j) rs) = j" using c(3) by simp
    moreover have "iph_leftmost_child (get_internal_hdr b) \<noteq> rs ! j" using c(3,5) by (metis nth_mem)
    ultimately show ?thesis
      using c(2,3) Suc L(2) by (simp add: find_child_idx_def Let_def flip: es_def rs_def)
  qed
qed

section \<open>Giving pages back\<close>

definition shrinks ::
  "store \<Rightarrow> page_id list \<Rightarrow> store \<Rightarrow> page_id list \<Rightarrow> page_id set \<Rightarrow> page_id set \<Rightarrow> page_id set \<Rightarrow> bool" where
  "shrinks s fl s' fl' F W T \<longleftrightarrow>
     store_ok s' fl' \<and> st_page_size s' = st_page_size s \<and> st_last_heap s' = st_last_heap s
     \<and> st_free_hint s' = st_free_hint s \<and> idx_frame (st_hdr s) (st_hdr s')
     \<and> (\<forall>q. in_use s' fl' q \<longleftrightarrow> in_use s fl q \<and> q \<notin> F) \<and> (\<forall>q \<in> F. in_use s fl q)
     \<and> (\<forall>q. in_use s' fl' q \<and> q \<notin> T \<longrightarrow> st_pages s' q = st_pages s q)
     \<and> (\<forall>q X. in_use s' fl' q \<and> q \<notin> W \<and> node_at (unat (st_page_size s)) (st_pages s q) X
          \<longrightarrow> node_at (unat (st_page_size s)) (st_pages s' q) X)
     \<and> unat (hd_next_page_id (st_hdr s')) \<le> unat (hd_next_page_id (st_hdr s))"

lemma shrinksD:
  assumes "shrinks s fl s' fl' F W T"
  shows "store_ok s' fl'" "st_page_size s' = st_page_size s" "st_last_heap s' = st_last_heap s"
    "st_free_hint s' = st_free_hint s" "idx_frame (st_hdr s) (st_hdr s')"
    "in_use s' fl' q \<longleftrightarrow> in_use s fl q \<and> q \<notin> F" "q \<in> F \<Longrightarrow> in_use s fl q"
    "in_use s' fl' q \<Longrightarrow> q \<notin> T \<Longrightarrow> st_pages s' q = st_pages s q"
    "in_use s' fl' q \<Longrightarrow> q \<notin> W \<Longrightarrow> node_at (unat (st_page_size s)) (st_pages s q) X
      \<Longrightarrow> node_at (unat (st_page_size s)) (st_pages s' q) X"
    "unat (hd_next_page_id (st_hdr s')) \<le> unat (hd_next_page_id (st_hdr s))"
  using assms by (auto simp: shrinks_def)

lemma shrinks_of_evolves: "evolves s fl s' fl' {} W T \<Longrightarrow> shrinks s fl s' fl' {} W T"
  by (auto simp: evolves_def shrinks_def)

lemma shrinks_refl: "store_ok s fl \<Longrightarrow> shrinks s fl s fl {} {} {}"
  by (rule shrinks_of_evolves [OF evolves_refl])

lemma shrinks_trans:
  assumes A: "shrinks s fl s1 fl1 F1 W1 T1" and B: "shrinks s1 fl1 s2 fl2 F2 W2 T2"
  shows "shrinks s fl s2 fl2 (F1 \<union> F2) (W1 \<union> W2) (T1 \<union> T2)"
proof -
  note a = shrinksD [OF A] and b = shrinksD [OF B]
  have "\<forall>q. in_use s2 fl2 q \<longleftrightarrow> in_use s fl q \<and> q \<notin> F1 \<union> F2" using a(6) b(6) by blast
  moreover have "\<forall>q \<in> F1 \<union> F2. in_use s fl q" using a(6,7) b(7) by blast
  moreover have "\<forall>q. in_use s2 fl2 q \<and> q \<notin> T1 \<union> T2 \<longrightarrow> st_pages s2 q = st_pages s q" using a(8) b(6,8) by auto
  moreover have "\<forall>q X. in_use s2 fl2 q \<and> q \<notin> W1 \<union> W2 \<and> node_at (unat (st_page_size s)) (st_pages s q) X
      \<longrightarrow> node_at (unat (st_page_size s)) (st_pages s2 q) X" using a(2,9) b(6,9) by auto
  ultimately show ?thesis
    using a(2-5,10) b(1-5,10) by (auto simp: shrinks_def intro: idx_frame_trans)
qed

lemma shrinks_mono:
  assumes "shrinks s fl s' fl' F W T" "\<And>q. q \<in> W \<Longrightarrow> in_use s' fl' q \<Longrightarrow> q \<in> W'" "\<And>q. q \<in> T \<Longrightarrow> in_use s' fl' q \<Longrightarrow> q \<in> T'"
  shows "shrinks s fl s' fl' F W' T'"
  using assms unfolding shrinks_def by blast

lemma shrinks_put:
  "store_ok s fl \<Longrightarrow> in_use s fl p \<Longrightarrow> length b = unat (st_page_size s) \<Longrightarrow> shrinks s fl (st_put s p b) fl {} {p} {p}"
  by (rule shrinks_of_evolves [OF evolves_put])

lemma shrinks_put_node:
  "store_ok s fl \<Longrightarrow> in_use s fl p \<Longrightarrow> node_at (unat (st_page_size s)) b N \<Longrightarrow> shrinks s fl (st_put s p b) fl {} {p} {p}"
  by (rule shrinks_put) (simp_all add: node_at_def)

lemma shrinks_free:
  assumes "store_ok s fl" "in_use s fl p"
  shows "shrinks s fl (st_free s p) (p # fl) {p} {} {}"
proof -
  have "idx_frame (st_hdr s) (st_hdr (st_free s p))"
    by (simp add: idx_frame_def hdr_frame_def st_free_def Let_def)
  then show ?thesis
    using st_free_ok [OF assms] assms(2) by (auto simp: shrinks_def)
qed

lemma shrinks_set_root:
  "store_ok s fl \<Longrightarrow> shrinks s fl (s\<lparr>st_hdr := (st_hdr s)\<lparr>hd_root_index_page_id := r\<rparr>\<rparr>) fl {} {} {}"
  by (rule shrinks_of_evolves [OF evolves_set_root])

lemma root_id_free [simp]: "root_id (st_free s p) = root_id s"
  by (simp add: root_id_def)

section \<open>Borrowing and merging leaves\<close>

lemma leaf_entry_eta [simp]: "\<lparr>le_key = le_key b, le_row_ref = le_row_ref b\<rparr> = b"
  by (cases b) simp

text \<open>Three pages replaced, one after the other.\<close>

lemma shrinks_put3:
  assumes "store_ok s fl" "in_use s fl a" "in_use s fl b" "in_use s fl c"
    and "node_at (unat (st_page_size s)) pa A" "node_at (unat (st_page_size s)) pb B" "node_at (unat (st_page_size s)) pc C"
  shows "shrinks s fl (st_put (st_put (st_put s a pa) b pb) c pc) fl {} {a, b, c} {a, b, c}"
proof -
  have S1: "shrinks s fl (st_put s a pa) fl {} {a} {a}" by (rule shrinks_put_node [OF assms(1,2,5)])
  have S2: "shrinks (st_put s a pa) fl (st_put (st_put s a pa) b pb) fl {} {b} {b}"
    by (rule shrinks_put_node [OF shrinksD(1) [OF S1]]) (use assms in simp_all)
  have S3: "shrinks (st_put (st_put s a pa) b pb) fl (st_put (st_put (st_put s a pa) b pb) c pc) fl {} {c} {c}"
    by (rule shrinks_put_node [OF shrinksD(1) [OF S2]]) (use assms in simp_all)
  show ?thesis
    by (rule shrinks_mono [OF shrinks_trans [OF shrinks_trans [OF S1 S2] S3, simplified]]) auto
qed

lemma borrow_right_leaf_nodes:
  assumes ok: "store_ok s fl" and u: "in_use s fl p" "in_use s fl r" "in_use s fl q" "distinct [p, r, q]"
    and p: "node_at (unat (st_page_size s)) (st_pages s p) (LeafN nx es)"
    and r: "node_at (unat (st_page_size s)) (st_pages s r) (LeafN nr (b # es'))" "es' \<noteq> []"
    and q: "node_at (unat (st_page_size s)) (st_pages s q) (InnerN ks cps)" "i < length ks"
    and space: "length es < leaf_cap (unat (st_page_size s))" "leaf_find es (le_key b) = length es"
  shows "\<exists>s'. borrow_right_leaf s p r q i = s' \<and> shrinks s fl s' fl {} {p, r, q} {p, r, q} \<and> root_id s' = root_id s
    \<and> node_at (unat (st_page_size s)) (st_pages s' p) (LeafN nx (es @ [b]))
    \<and> node_at (unat (st_page_size s)) (st_pages s' r) (LeafN nr es')
    \<and> node_at (unat (st_page_size s)) (st_pages s' q) (InnerN (ks[i := le_key (hd es')]) cps)"
proof -
  let ?ps = "unat (st_page_size s)"
  define rp where "rp = delete_entry_from_leaf (st_pages s r) (get_leaf_hdr (st_pages s r)) 0"
  define pp where "pp = leaf_insert_entry (st_pages s p) (get_leaf_hdr (st_pages s p)) (le_key b) (le_row_ref b)"
  define qp where "qp = set_separator (st_pages s q) i (le_key (hd es'))"
  have R: "node_at ?ps rp (LeafN nr es')"
    using node_at_delete_leaf [OF r(1), of 0] by (simp add: rp_def list_remove_def)
  have P: "node_at ?ps pp (LeafN nx (es @ [b]))"
    using node_at_leaf_insert [OF p space(1) caps(5) [OF ok], of "le_key b" "le_row_ref b"] space(2)
    by (simp add: pp_def list_insert_def)
  have Q: "node_at ?ps qp (InnerN (ks[i := le_key (hd es')]) cps)"
    unfolding qp_def by (rule node_at_set_separator [OF q])
  have first: "get_leaf_entry (drop 20 rp) = hd es'"
    using node_at_first_entry [of ?ps rp nr "hd es'" "tl es'"] R r(2) by simp
  have "leaf_entries (st_pages s r) (unat (lph_key_count (get_leaf_hdr (st_pages s r)))) = b # es'"
    using node_at_leafD(3,4) [OF r(1)] by simp
  then have eq: "borrow_right_leaf s p r q i = st_put (st_put (st_put s r rp) p pp) q qp"
    using u(4) by (auto simp: borrow_right_leaf_def Let_def rp_def pp_def qp_def first [unfolded rp_def])
  have "shrinks s fl (st_put (st_put (st_put s r rp) p pp) q qp) fl {} {p, r, q} {p, r, q}"
    by (rule shrinks_mono [OF shrinks_put3 [OF ok u(2,1,3) R P Q]]) auto
  then show ?thesis unfolding eq using u(4) P Q R by auto
qed

lemma borrow_left_leaf_nodes:
  assumes ok: "store_ok s fl" and u: "in_use s fl p" "in_use s fl l" "in_use s fl q" "distinct [p, l, q]"
    and p: "node_at (unat (st_page_size s)) (st_pages s p) (LeafN nx es)"
    and l: "node_at (unat (st_page_size s)) (st_pages s l) (LeafN nl (es' @ [b]))"
    and q: "node_at (unat (st_page_size s)) (st_pages s q) (InnerN ks cps)" "i < length ks"
    and space: "length es < leaf_cap (unat (st_page_size s))" "leaf_find es (le_key b) = 0"
  shows "\<exists>s'. borrow_left_leaf s p l q i = s' \<and> shrinks s fl s' fl {} {p, l, q} {p, l, q} \<and> root_id s' = root_id s
    \<and> node_at (unat (st_page_size s)) (st_pages s' p) (LeafN nx (b # es))
    \<and> node_at (unat (st_page_size s)) (st_pages s' l) (LeafN nl es')
    \<and> node_at (unat (st_page_size s)) (st_pages s' q) (InnerN (ks[i := le_key b]) cps)"
proof -
  let ?ps = "unat (st_page_size s)" and ?lh = "get_leaf_hdr (st_pages s l)"
  define lp where "lp = mwrite (st_pages s l) 0 (put_leaf_hdr (?lh\<lparr>lph_key_count := lph_key_count ?lh - 1\<rparr>))"
  define pp where "pp = leaf_insert_entry (st_pages s p) (get_leaf_hdr (st_pages s p)) (le_key b) (le_row_ref b)"
  define qp where "qp = set_separator (st_pages s q) i (le_key b)"
  have L: "node_at ?ps lp (LeafN nl es')"
    using node_at_truncate_leaf [OF l] by (simp add: lp_def)
  have P: "node_at ?ps pp (LeafN nx (b # es))"
    using node_at_leaf_insert [OF p space(1) caps(5) [OF ok], of "le_key b" "le_row_ref b"] space(2)
    by (simp add: pp_def list_insert_def)
  have Q: "node_at ?ps qp (InnerN (ks[i := le_key b]) cps)"
    unfolding qp_def by (rule node_at_set_separator [OF q])
  have first: "get_leaf_entry (drop 20 pp) = b" by (rule node_at_first_entry [OF P])
  have c: "unat (lph_key_count ?lh) = length (es' @ [b])" "leaf_entries (st_pages s l) (length (es' @ [b])) = es' @ [b]"
    using node_at_leafD(3,4) [OF l] by simp_all
  have eq: "borrow_left_leaf s p l q i = st_put (st_put (st_put s l lp) p pp) q qp"
    using u(4) c by (auto simp: borrow_left_leaf_def Let_def lp_def pp_def qp_def first [unfolded pp_def])
  have "shrinks s fl (st_put (st_put (st_put s l lp) p pp) q qp) fl {} {p, l, q} {p, l, q}"
    by (rule shrinks_mono [OF shrinks_put3 [OF ok u(2,1,3) L P Q]]) auto
  then show ?thesis unfolding eq using u(4) P Q L by auto
qed

lemma merge_leaf_nodes:
  assumes ok: "store_ok s fl" and u: "in_use s fl l" "in_use s fl r" "in_use s fl q" "distinct [l, r, q]"
    and l: "node_at (unat (st_page_size s)) (st_pages s l) (LeafN nl es1)"
    and r: "node_at (unat (st_page_size s)) (st_pages s r) (LeafN nr es2)"
    and q: "node_at (unat (st_page_size s)) (st_pages s q) (InnerN ks cps)" "i < length ks"
    and nr: "nr \<noteq> 0 \<Longrightarrow> in_use s fl nr \<and> nr \<notin> {l, r} \<and> (\<exists>n es'. node_at (unat (st_page_size s)) (st_pages s nr) (LeafN n es'))"
    and space: "length es1 + length es2 \<le> leaf_cap (unat (st_page_size s))"
  shows "\<exists>s'. merge_leaf s l r q i = s' \<and> shrinks s fl s' (r # fl) {r} {l, q} {l, q, nr} \<and> root_id s' = root_id s
    \<and> node_at (unat (st_page_size s)) (st_pages s' l) (LeafN nr (es1 @ es2))
    \<and> node_at (unat (st_page_size s)) (st_pages s' q) (InnerN (list_remove i ks) (list_remove (Suc i) cps))"
proof -
  let ?ps = "unat (st_page_size s)" and ?lh = "get_leaf_hdr (st_pages s l)" and ?rh = "get_leaf_hdr (st_pages s r)"
  note C = caps [OF ok] and L = node_at_leafD [OF l] and R = node_at_leafD [OF r]
  define h where "h = ?lh\<lparr>lph_key_count := lph_key_count ?lh + lph_key_count ?rh, lph_next_leaf := nr\<rparr>"
  define lp where "lp = write_leaf (st_pages s l) h (es1 @ es2)"
  have "unat (lph_key_count h) = length (es1 @ es2)"
    unfolding h_def using L(3) R(3) space C(5) by (simp add: unat_add_small)
  then have LP: "node_at ?ps lp (LeafN nr (es1 @ es2))"
    using node_at_write_leaf [of "st_pages s l" ?ps "es1 @ es2" h] L space by (simp add: lp_def h_def)
  define s1 where "s1 = st_put s l lp"
  have S1: "shrinks s fl s1 fl {} {l} {l}" unfolding s1_def by (rule shrinks_put_node [OF ok u(1) LP])
  note D1 = shrinksD [OF S1]
  define s2 where "s2 = (if nr \<noteq> 0 then st_put s1 nr (set_prev_leaf (st_pages s1 nr) l) else s1)"
  have S2: "shrinks s1 fl s2 fl {} {} {nr}"
  proof (cases "nr = 0")
    case True
    then show ?thesis unfolding s2_def using shrinks_refl [OF D1(1)] by (auto intro: shrinks_mono)
  next
    case False
    from nr [OF False] obtain n es' where n: "in_use s fl nr" "nr \<noteq> l" "node_at ?ps (st_pages s nr) (LeafN n es')" by auto
    have "evolves s1 fl (st_put s1 nr (set_prev_leaf (st_pages s1 nr) l)) fl {} {} {nr}"
    proof (rule evolves_put_same [OF D1(1)])
      show "in_use s1 fl nr" using n(1) by (simp add: s1_def)
      show "length (set_prev_leaf (st_pages s1 nr) l) = unat (st_page_size s1)"
        using store_okD(1) [OF D1(1)] C(7) D1(2) by simp
      fix X assume "node_at (unat (st_page_size s1)) (st_pages s1 nr) X"
      then have "X = LeafN n es'" using n by (simp add: node_at_def s1_def)
      then show "node_at (unat (st_page_size s1)) (set_prev_leaf (st_pages s1 nr) l) X"
        using node_at_set_prev_leaf [OF n(3)] n(2) by (simp add: s1_def)
    qed
    then show ?thesis using False by (simp add: s2_def shrinks_of_evolves)
  qed
  note D2 = shrinksD [OF S2]
  have qn: "nr \<noteq> q" if "nr \<noteq> 0" using nr [OF that] q(1) by (auto simp: node_at_def)
  have q2: "st_pages s2 q = st_pages s q" "in_use s2 fl q" using u qn by (auto simp: s2_def s1_def)
  define qp where "qp = delete_entry_from_internal (st_pages s q) (get_internal_hdr (st_pages s q)) i"
  have Q: "node_at ?ps qp (InnerN (list_remove i ks) (list_remove (Suc i) cps))"
    unfolding qp_def by (rule node_at_delete_internal [OF q])
  have psz: "st_page_size s2 = st_page_size s" by (simp add: s2_def s1_def)
  have S3: "shrinks s2 fl (st_put s2 q qp) fl {} {q} {q}"
    by (rule shrinks_put_node [OF D2(1) q2(2)]) (use Q psz in simp)
  have r3: "in_use (st_put s2 q qp) fl r" using u(2) by (simp add: s2_def s1_def)
  have S4: "shrinks (st_put s2 q qp) fl (st_free (st_put s2 q qp) r) (r # fl) {r} {} {}"
    by (rule shrinks_free [OF shrinksD(1) [OF S3] r3])
  have eq: "merge_leaf s l r q i = st_free (st_put s2 q qp) r"
    unfolding merge_leaf_def Let_def L(3,4) R(2,3,4) h_def [symmetric] lp_def [symmetric] s1_def [symmetric]
      s2_def [symmetric] q2(1) qp_def [symmetric] ..
  have sh: "shrinks s fl (st_free (st_put s2 q qp) r) (r # fl) {r} {l, q} {l, q, nr}"
    by (rule shrinks_mono [OF shrinks_trans [OF shrinks_trans [OF shrinks_trans [OF S1 S2] S3] S4, simplified]]) auto
  have "st_pages s2 l = lp" using nr by (auto simp: s2_def s1_def)
  then have "node_at ?ps (st_pages (st_free (st_put s2 q qp) r) l) (LeafN nr (es1 @ es2))" using LP u(4) by simp
  moreover have "node_at ?ps (st_pages (st_free (st_put s2 q qp) r) q) (InnerN (list_remove i ks) (list_remove (Suc i) cps))"
  proof -
    have "q \<noteq> r" using u(4) by auto
    then show ?thesis using Q by simp
  qed
  moreover have "root_id (st_free (st_put s2 q qp) r) = root_id s" by (simp add: s2_def s1_def)
  ultimately show ?thesis unfolding eq using sh by blast
qed

section \<open>Borrowing and merging inner nodes\<close>

text \<open>A node's page with its entries.\<close>

lemma inner_page:
  assumes "node_at ps b (InnerN ks cps)"
  obtains es where "internal_entries b (unat (iph_key_count (get_internal_hdr b))) = es" "map ie_key es = ks"
    "iph_leftmost_child (get_internal_hdr b) # map ie_right_child es = cps" "length es = length ks"
  using node_at_innerD(2,3,4) [OF assms] by (simp add: internal_entries_def)

lemma borrow_right_internal_nodes:
  assumes ok: "store_ok s fl" and u: "in_use s fl p" "in_use s fl r" "in_use s fl q" "distinct [p, r, q]"
    and p: "node_at (unat (st_page_size s)) (st_pages s p) (InnerN ks1 cs1)"
    and r: "node_at (unat (st_page_size s)) (st_pages s r) (InnerN (k # ks2) (c # cs2))"
    and q: "node_at (unat (st_page_size s)) (st_pages s q) (InnerN ks cps)" "i < length ks"
    and space: "length ks1 < inner_cap (unat (st_page_size s))" and c: "in_use s fl c"
  shows "\<exists>s'. borrow_right_internal s p r q i = s' \<and> shrinks s fl s' fl {} {p, r, q} {p, r, q, c} \<and> root_id s' = root_id s
    \<and> node_at (unat (st_page_size s)) (st_pages s' p) (InnerN (ks1 @ [ks ! i]) (cs1 @ [c]))
    \<and> node_at (unat (st_page_size s)) (st_pages s' r) (InnerN ks2 cs2)
    \<and> node_at (unat (st_page_size s)) (st_pages s' q) (InnerN (ks[i := k]) cps)"
proof -
  let ?ps = "unat (st_page_size s)" and ?nh = "get_internal_hdr (st_pages s p)" and ?rh = "get_internal_hdr (st_pages s r)"
  note P = node_at_innerD [OF p] and R = node_at_innerD [OF r] and C = caps [OF ok]
  obtain nes where nes: "internal_entries (st_pages s p) (unat (iph_key_count ?nh)) = nes" "map ie_key nes = ks1"
    "iph_leftmost_child ?nh # map ie_right_child nes = cs1" "length nes = length ks1" using inner_page [OF p] .
  obtain res where res: "internal_entries (st_pages s r) (unat (iph_key_count ?rh)) = res" "map ie_key res = k # ks2"
    "iph_leftmost_child ?rh # map ie_right_child res = c # cs2" "length res = length (k # ks2)" using inner_page [OF r] .
  obtain qes where qes: "internal_entries (st_pages s q) (unat (iph_key_count (get_internal_hdr (st_pages s q)))) = qes"
    "map ie_key qes = ks" "length qes = length ks" using inner_page [OF q(1)] by metis
  have qi: "ie_key (qes ! i) = ks ! i" using qes(2,3) q(2) by auto
  obtain e rest where re: "res = e # rest" "ie_key e = k" "map ie_key rest = ks2" "map ie_right_child res = cs2"
    using res(2,3) by auto
  define nh where "nh = ?nh\<lparr>iph_key_count := iph_key_count ?nh + 1\<rparr>"
  define rh where "rh = ?rh\<lparr>iph_leftmost_child := ie_right_child (res ! 0), iph_key_count := iph_key_count ?rh - 1\<rparr>"
  define np where "np = write_internal (st_pages s p) nh (nes @ [\<lparr>ie_key = ks ! i, ie_right_child = c\<rparr>])"
  define rp where "rp = write_internal (st_pages s r) rh (list_remove 0 res)"
  define qp where "qp = set_separator (st_pages s q) i k"
  have "unat (iph_key_count ?nh + 1) = Suc (length ks1)"
    using P(2) space C(6) by (subst unat_Suc_small) simp_all
  then have "node_at ?ps np (InnerN (map ie_key (nes @ [\<lparr>ie_key = ks ! i, ie_right_child = c\<rparr>]))
      (iph_leftmost_child nh # map ie_right_child (nes @ [\<lparr>ie_key = ks ! i, ie_right_child = c\<rparr>])))"
    unfolding np_def by (intro node_at_write_internal) (use P(1,5,6,8) nes(4) space in \<open>simp_all add: nh_def\<close>)
  then have NP: "node_at ?ps np (InnerN (ks1 @ [ks ! i]) (cs1 @ [c]))" using nes(2) by (simp add: nh_def flip: nes(3))
  have "unat (iph_key_count rh) = length (list_remove 0 res)"
    using u32_minus_one [OF R(2)] res(4) by (simp add: rh_def list_remove_def)
  moreover have "length (list_remove 0 res) \<le> inner_cap ?ps"
    using R(6) res(4) by (simp add: list_remove_def)
  ultimately have "node_at ?ps rp (InnerN (map ie_key (list_remove 0 res)) (iph_leftmost_child rh # map ie_right_child (list_remove 0 res)))"
    unfolding rp_def by (intro node_at_write_internal) (use R(1,5,8) in \<open>simp_all add: rh_def\<close>)
  then have RP: "node_at ?ps rp (InnerN ks2 cs2)" using re by (simp add: rh_def list_remove_def)
  have QP: "node_at ?ps qp (InnerN (ks[i := k]) cps)" unfolding qp_def by (rule node_at_set_separator [OF q])
  define s1 where "s1 = st_put (st_put (st_put s p np) r rp) q qp"
  have S1: "shrinks s fl s1 fl {} {p, r, q} {p, r, q}" unfolding s1_def by (rule shrinks_put3 [OF ok u(1-3) NP RP QP])
  note D1 = shrinksD [OF S1]
  have S2: "shrinks s1 fl (update_child_parent s1 c p) fl {} {} {c}"
    by (rule shrinks_of_evolves [OF evolves_update_child_parent [OF D1(1)]]) (use c in \<open>simp add: s1_def\<close>)
  have "iph_leftmost_child ?rh = c" using res(3) by simp
  then have eq: "borrow_right_internal s p r q i = update_child_parent s1 c p"
    unfolding borrow_right_internal_def Let_def nes(1) res(1) qes(1) qi
    using re(1,2) by (simp add: s1_def np_def nh_def rp_def rh_def qp_def)
  have sh: "shrinks s fl (update_child_parent s1 c p) fl {} {p, r, q} {p, r, q, c}"
    by (rule shrinks_mono [OF shrinks_trans [OF S1 S2, simplified]]) auto
  have "node_at ?ps (st_pages s1 p) (InnerN (ks1 @ [ks ! i]) (cs1 @ [c]))" "node_at ?ps (st_pages s1 r) (InnerN ks2 cs2)"
    "node_at ?ps (st_pages s1 q) (InnerN (ks[i := k]) cps)"
    using NP RP QP u(4) by (auto simp: s1_def)
  moreover have "in_use (update_child_parent s1 c p) fl x" if "in_use s fl x" for x using shrinksD(6) [OF sh] that by simp
  then have "node_at ?ps (st_pages (update_child_parent s1 c p) x) X" if "in_use s fl x" "node_at ?ps (st_pages s1 x) X" for x X
    using shrinksD(9) [OF S2, of x X] that D1(2) by simp
  moreover have "root_id (update_child_parent s1 c p) = root_id s" by (simp add: s1_def)
  ultimately show ?thesis unfolding eq using sh u(1-3) by blast
qed

lemma borrow_left_internal_nodes:
  assumes ok: "store_ok s fl" and u: "in_use s fl p" "in_use s fl l" "in_use s fl q" "distinct [p, l, q]"
    and p: "node_at (unat (st_page_size s)) (st_pages s p) (InnerN ks2 cs2)"
    and l: "node_at (unat (st_page_size s)) (st_pages s l) (InnerN (ks1 @ [k]) (cs1 @ [c]))"
    and q: "node_at (unat (st_page_size s)) (st_pages s q) (InnerN ks cps)" "i < length ks"
    and space: "length ks2 < inner_cap (unat (st_page_size s))" and c: "in_use s fl c"
  shows "\<exists>s'. borrow_left_internal s p l q i = s' \<and> shrinks s fl s' fl {} {p, l, q} {p, l, q, c} \<and> root_id s' = root_id s
    \<and> node_at (unat (st_page_size s)) (st_pages s' p) (InnerN (ks ! i # ks2) (c # cs2))
    \<and> node_at (unat (st_page_size s)) (st_pages s' l) (InnerN ks1 cs1)
    \<and> node_at (unat (st_page_size s)) (st_pages s' q) (InnerN (ks[i := k]) cps)"
proof -
  let ?ps = "unat (st_page_size s)" and ?nh = "get_internal_hdr (st_pages s p)" and ?lh = "get_internal_hdr (st_pages s l)"
  note P = node_at_innerD [OF p] and L = node_at_innerD [OF l] and C = caps [OF ok]
  obtain nes where nes: "internal_entries (st_pages s p) (unat (iph_key_count ?nh)) = nes" "map ie_key nes = ks2"
    "iph_leftmost_child ?nh # map ie_right_child nes = cs2" "length nes = length ks2" using inner_page [OF p] .
  obtain les where les: "internal_entries (st_pages s l) (unat (iph_key_count ?lh)) = les" "map ie_key les = ks1 @ [k]"
    "iph_leftmost_child ?lh # map ie_right_child les = cs1 @ [c]" "length les = length (ks1 @ [k])" using inner_page [OF l] .
  obtain qes where qes: "internal_entries (st_pages s q) (unat (iph_key_count (get_internal_hdr (st_pages s q)))) = qes"
    "map ie_key qes = ks" "length qes = length ks" using inner_page [OF q(1)] by metis
  have qi: "ie_key (qes ! i) = ks ! i" using qes(2,3) q(2) by auto
  have "les \<noteq> []" using les(4) by auto
  then have lst: "ie_key (les ! (length les - 1)) = k" "ie_right_child (les ! (length les - 1)) = c"
    using arg_cong [OF les(2), of last] arg_cong [OF les(3), of last] by (simp_all add: last_map last_conv_nth)
  define nh where "nh = ?nh\<lparr>iph_leftmost_child := c, iph_key_count := iph_key_count ?nh + 1\<rparr>"
  define np where "np = write_internal (st_pages s p) nh (\<lparr>ie_key = ks ! i, ie_right_child = iph_leftmost_child ?nh\<rparr> # nes)"
  define lp where "lp = mwrite (st_pages s l) 0 (put_internal_hdr (?lh\<lparr>iph_key_count := iph_key_count ?lh - 1\<rparr>))"
  define qp where "qp = set_separator (st_pages s q) i k"
  have "unat (iph_key_count ?nh + 1) = Suc (length ks2)"
    using P(2) space C(6) by (subst unat_Suc_small) simp_all
  then have "node_at ?ps np (InnerN (map ie_key (\<lparr>ie_key = ks ! i, ie_right_child = iph_leftmost_child ?nh\<rparr> # nes))
      (iph_leftmost_child nh # map ie_right_child (\<lparr>ie_key = ks ! i, ie_right_child = iph_leftmost_child ?nh\<rparr> # nes)))"
    unfolding np_def by (intro node_at_write_internal) (use P(1,5,6,8) nes(4) space in \<open>simp_all add: nh_def\<close>)
  then have NP: "node_at ?ps np (InnerN (ks ! i # ks2) (c # cs2))" using nes(2,3) by (simp add: nh_def)
  have LP: "node_at ?ps lp (InnerN ks1 cs1)" using node_at_truncate_internal [OF l] by (simp add: lp_def)
  have QP: "node_at ?ps qp (InnerN (ks[i := k]) cps)" unfolding qp_def by (rule node_at_set_separator [OF q])
  define s1 where "s1 = st_put (st_put (st_put s p np) l lp) q qp"
  have S1: "shrinks s fl s1 fl {} {p, l, q} {p, l, q}" unfolding s1_def by (rule shrinks_put3 [OF ok u(1-3) NP LP QP])
  note D1 = shrinksD [OF S1]
  have S2: "shrinks s1 fl (update_child_parent s1 c p) fl {} {} {c}"
    by (rule shrinks_of_evolves [OF evolves_update_child_parent [OF D1(1)]]) (use c in \<open>simp add: s1_def\<close>)
  have eq: "borrow_left_internal s p l q i = update_child_parent s1 c p"
    unfolding borrow_left_internal_def Let_def nes(1) les(1) qes(1) qi lst
    by (simp add: s1_def np_def nh_def lp_def qp_def)
  have sh: "shrinks s fl (update_child_parent s1 c p) fl {} {p, l, q} {p, l, q, c}"
    by (rule shrinks_mono [OF shrinks_trans [OF S1 S2, simplified]]) auto
  have "node_at ?ps (st_pages s1 p) (InnerN (ks ! i # ks2) (c # cs2))" "node_at ?ps (st_pages s1 l) (InnerN ks1 cs1)"
    "node_at ?ps (st_pages s1 q) (InnerN (ks[i := k]) cps)"
    using NP LP QP u(4) by (auto simp: s1_def)
  moreover have "in_use (update_child_parent s1 c p) fl x" if "in_use s fl x" for x using shrinksD(6) [OF sh] that by simp
  then have "node_at ?ps (st_pages (update_child_parent s1 c p) x) X" if "in_use s fl x" "node_at ?ps (st_pages s1 x) X" for x X
    using shrinksD(9) [OF S2, of x X] that D1(2) by simp
  moreover have "root_id (update_child_parent s1 c p) = root_id s" by (simp add: s1_def)
  ultimately show ?thesis unfolding eq using sh u(1-3) by blast
qed

lemma merge_internal_nodes:
  assumes ok: "store_ok s fl" and u: "in_use s fl l" "in_use s fl r" "in_use s fl q" "distinct [l, r, q]"
    and l: "node_at (unat (st_page_size s)) (st_pages s l) (InnerN ks1 cs1)"
    and r: "node_at (unat (st_page_size s)) (st_pages s r) (InnerN ks2 cs2)"
    and q: "node_at (unat (st_page_size s)) (st_pages s q) (InnerN ks cps)" "i < length ks"
    and space: "length ks1 + length ks2 < inner_cap (unat (st_page_size s))"
    and cs: "\<forall>c \<in> set cs2. in_use s fl c" "q \<notin> set cs2"
  shows "\<exists>s'. merge_internal s l r q i = s' \<and> shrinks s fl s' (r # fl) {r} {l, q} ({l, q} \<union> set cs2) \<and> root_id s' = root_id s
    \<and> node_at (unat (st_page_size s)) (st_pages s' l) (InnerN (ks1 @ ks ! i # ks2) (cs1 @ cs2))
    \<and> node_at (unat (st_page_size s)) (st_pages s' q) (InnerN (list_remove i ks) (list_remove (Suc i) cps))"
proof -
  let ?ps = "unat (st_page_size s)" and ?lh = "get_internal_hdr (st_pages s l)" and ?rh = "get_internal_hdr (st_pages s r)"
  note L = node_at_innerD [OF l] and R = node_at_innerD [OF r] and C = caps [OF ok]
  obtain les where les: "internal_entries (st_pages s l) (unat (iph_key_count ?lh)) = les" "map ie_key les = ks1"
    "iph_leftmost_child ?lh # map ie_right_child les = cs1" "length les = length ks1" using inner_page [OF l] .
  obtain res where res: "internal_entries (st_pages s r) (unat (iph_key_count ?rh)) = res" "map ie_key res = ks2"
    "iph_leftmost_child ?rh # map ie_right_child res = cs2" "length res = length ks2" using inner_page [OF r] .
  obtain qes where qes: "internal_entries (st_pages s q) (unat (iph_key_count (get_internal_hdr (st_pages s q)))) = qes"
    "map ie_key qes = ks" "length qes = length ks" using inner_page [OF q(1)] by metis
  have qi: "ie_key (qes ! i) = ks ! i" using qes(2,3) q(2) by auto
  define h where "h = ?lh\<lparr>iph_key_count := iph_key_count ?lh + 1 + iph_key_count ?rh\<rparr>"
  define es where "es = les @ \<lparr>ie_key = ks ! i, ie_right_child = iph_leftmost_child ?rh\<rparr> # res"
  define lp where "lp = write_internal (st_pages s l) h es"
  have "unat (iph_key_count ?lh + 1) = Suc (length ks1)" using L(2) space C(6) by (subst unat_Suc_small) simp_all
  then have "unat (iph_key_count h) = length es"
    unfolding h_def using R(2) space C(6) les(4) res(4) by (simp add: unat_add_small es_def)
  then have "node_at ?ps lp (InnerN (map ie_key es) (iph_leftmost_child h # map ie_right_child es))"
    unfolding lp_def by (intro node_at_write_internal) (use L(1,5,8) les(4) res(4) space in \<open>simp_all add: h_def es_def\<close>)
  then have LP: "node_at ?ps lp (InnerN (ks1 @ ks ! i # ks2) (cs1 @ cs2))"
    by (simp add: h_def es_def les(2) res(2) flip: les(3) res(3))
  define s1 where "s1 = st_put s l lp"
  have S1: "shrinks s fl s1 fl {} {l} {l}" unfolding s1_def by (rule shrinks_put_node [OF ok u(1) LP])
  note D1 = shrinksD [OF S1]
  define s2 where "s2 = foldl (\<lambda>s c. update_child_parent s c l) s1 cs2"
  have c1: "\<forall>c \<in> set cs2. in_use s1 fl c" using cs(1) by (simp add: s1_def)
  note UC = evolves_update_children [OF D1(1) c1, where p = l, folded s2_def]
  have S2: "shrinks s1 fl s2 fl {} {} (set cs2)" by (rule shrinks_of_evolves [OF UC(1)])
  note D2 = shrinksD [OF S2]
  have l2: "node_at ?ps (st_pages s2 l) (InnerN (ks1 @ ks ! i # ks2) (cs1 @ cs2))"
    using D2(9) [of l] D2(6) [of l] D1(2,6) u(1) LP by (simp add: s1_def)
  have q2: "st_pages s2 q = st_pages s q" "in_use s2 fl q"
    using D2(6,8) [of q] D1(6) [of q] u(3,4) cs(2) by (auto simp: s1_def)
  define qp where "qp = delete_entry_from_internal (st_pages s q) (get_internal_hdr (st_pages s q)) i"
  have Q: "node_at ?ps qp (InnerN (list_remove i ks) (list_remove (Suc i) cps))"
    unfolding qp_def by (rule node_at_delete_internal [OF q])
  have S3: "shrinks s2 fl (st_put s2 q qp) fl {} {q} {q}"
    by (rule shrinks_put_node [OF D2(1) q2(2)]) (use Q D2(2) D1(2) in simp)
  have r3: "in_use (st_put s2 q qp) fl r" using u(2) D2(6) D1(6) by simp
  have S4: "shrinks (st_put s2 q qp) fl (st_free (st_put s2 q qp) r) (r # fl) {r} {} {}"
    by (rule shrinks_free [OF shrinksD(1) [OF S3] r3])
  have eq: "merge_internal s l r q i = st_free (st_put s2 q qp) r"
    unfolding merge_internal_def Let_def les(1) res(1,3) qes(1) qi h_def [symmetric] es_def [symmetric] lp_def [symmetric]
      s1_def [symmetric] s2_def [symmetric] q2(1) qp_def [symmetric] ..
  have sh: "shrinks s fl (st_free (st_put s2 q qp) r) (r # fl) {r} {l, q} ({l, q} \<union> set cs2)"
    by (rule shrinks_mono [OF shrinks_trans [OF shrinks_trans [OF shrinks_trans [OF S1 S2] S3] S4, simplified]]) auto
  have ne: "l \<noteq> r" "q \<noteq> r" "l \<noteq> q" using u(4) by auto
  have "node_at ?ps (st_pages (st_free (st_put s2 q qp) r) l) (InnerN (ks1 @ ks ! i # ks2) (cs1 @ cs2))"
    using l2 ne by simp
  moreover have "node_at ?ps (st_pages (st_free (st_put s2 q qp) r) q) (InnerN (list_remove i ks) (list_remove (Suc i) cps))"
    using Q ne by simp
  moreover have "root_id (st_free (st_put s2 q qp) r) = root_id s" using UC(2) by (simp add: s1_def)
  ultimately show ?thesis unfolding eq using sh by blast
qed

section \<open>The root\<close>

lemma shrink_root_nodes:
  assumes ok: "store_ok s fl" and p: "in_use s fl p" "node_at (unat (st_page_size s)) (st_pages s p) (InnerN ks cps)"
  shows "ks \<noteq> [] \<Longrightarrow> shrink_root s p = s"
    and "ks = [] \<Longrightarrow> cps = [c] \<Longrightarrow> in_use s fl c \<Longrightarrow> c \<noteq> p \<Longrightarrow>
      \<exists>s'. shrink_root s p = s' \<and> shrinks s fl s' (p # fl) {p} {} {c} \<and> root_id s' = c"
proof -
  let ?h = "get_internal_hdr (st_pages s p)"
  note P = node_at_innerD [OF p(2)]
  have z: "iph_key_count ?h = 0 \<longleftrightarrow> ks = []" using P(2) by (auto simp: unat_eq_0)
  show "ks \<noteq> [] \<Longrightarrow> shrink_root s p = s" using z by (simp add: shrink_root_def Let_def)
  assume e: "ks = []" "cps = [c]" and c: "in_use s fl c" "c \<noteq> p"
  have lc: "iph_leftmost_child ?h = c" using P(4) e by simp
  define s1 where "s1 = st_free s p"
  have S1: "shrinks s fl s1 (p # fl) {p} {} {}" unfolding s1_def by (rule shrinks_free [OF ok p(1)])
  note D1 = shrinksD [OF S1]
  define s2 where "s2 = s1\<lparr>st_hdr := (st_hdr s1)\<lparr>hd_root_index_page_id := c\<rparr>\<rparr>"
  have S2: "shrinks s1 (p # fl) s2 (p # fl) {} {} {}" unfolding s2_def by (rule shrinks_set_root [OF D1(1)])
  note D2 = shrinksD [OF S2]
  have "in_use s2 (p # fl) c" using D2(6) D1(6) c by simp
  then have S3: "shrinks s2 (p # fl) (update_child_parent s2 c 0) (p # fl) {} {} {c}"
    by (rule shrinks_of_evolves [OF evolves_update_child_parent [OF D2(1)]])
  have "shrink_root s p = update_child_parent s2 c 0"
    using z e(1) lc by (simp add: shrink_root_def Let_def s2_def s1_def)
  moreover have "root_id (update_child_parent s2 c 0) = c" by (simp add: s2_def) (simp add: root_id_def)
  moreover have "shrinks s fl (update_child_parent s2 c 0) (p # fl) {p} {} {c}"
    by (rule shrinks_mono [OF shrinks_trans [OF shrinks_trans [OF S1 S2] S3, simplified]]) auto
  ultimately show "\<exists>s'. shrink_root s p = s' \<and> shrinks s fl s' (p # fl) {p} {} {c} \<and> root_id s' = c" by blast
qed

end
