(* ===== verification/BPlus_Pairs.thy ===== *)
theory BPlus_Pairs
  imports BPlus_Shrink BPlus_Map
begin

text \<open>
  Two neighbouring children of a node: what rotating an entry between them or merging them does to
  the key intervals, the entries and the pages of the tree.
\<close>

section \<open>Intervals of the pieces\<close>

lemma kids_append:
  assumes l: "kids ps pg h lo (unat m) ks1 cs1" and r: "kids ps pg h (unat m) hi ks2 cs2"
    and m: "lo < unat m" "unat m < hi"
  shows "kids ps pg h lo hi (ks1 @ m # ks2) (cs1 @ cs2)"
proof -
  let ?ks = "ks1 @ m # ks2" and ?n = "length ks1"
  have L: "keys_between lo (unat m) ks1" "\<forall>k \<in> set ks1. lo < unat k" "length cs1 = Suc ?n"
    "\<And>j. j < length cs1 \<Longrightarrow> bt_ok ps pg h (lo_of lo ks1 j) (hi_of (unat m) ks1 j) (cs1 ! j)"
    using l by (simp_all add: kids_def)
  have R: "keys_between (unat m) hi ks2" "\<forall>k \<in> set ks2. unat m < unat k" "length cs2 = Suc (length ks2)"
    "\<And>j. j < length cs2 \<Longrightarrow> bt_ok ps pg h (lo_of (unat m) ks2 j) (hi_of hi ks2 j) (cs2 ! j)"
    using r by (simp_all add: kids_def)
  have "keys_between lo hi ?ks"
  proof -
    have "keys_between lo hi ks1" by (rule keys_between_mono [OF L(1)]) (use m in simp_all)
    moreover have "keys_between lo hi (m # ks2)"
      using R(1,2) m by (auto simp: keys_between_def word_less_nat_alt)
    moreover have "x < y" if "x \<in> set ks1" "y \<in> set (m # ks2)" for x y
    proof -
      have "unat x < unat m" using L(1) that(1) by (simp add: keys_between_def)
      moreover have "unat m \<le> unat y" using R(2) that(2) by auto
      ultimately show ?thesis by (simp add: word_less_nat_alt)
    qed
    ultimately show ?thesis by (auto simp: keys_between_append)
  qed
  moreover have "\<forall>k \<in> set ?ks. lo < unat k" using L(2) R(2) m(1) by fastforce
  moreover have "bt_ok ps pg h (lo_of lo ?ks j) (hi_of hi ?ks j) ((cs1 @ cs2) ! j)" if j: "j < length (cs1 @ cs2)" for j
  proof (cases "j < length cs1")
    case True
    then have "lo_of lo ?ks j = lo_of lo ks1 j" "hi_of hi ?ks j = hi_of (unat m) ks1 j"
      using L(3) by (auto simp: lo_of_def hi_of_def nth_append)
    then show ?thesis using L(4) [OF True] True by (simp add: nth_append)
  next
    case False
    then obtain d where d: "j = Suc ?n + d" using L(3) by (metis add.commute le_add_diff_inverse2 not_less)
    then have "lo_of lo ?ks j = lo_of (unat m) ks2 d" "hi_of hi ?ks j = hi_of hi ks2 d"
      by (auto simp: lo_of_def hi_of_def nth_append)
    moreover have "d < length cs2" using j d L(3) by simp
    ultimately show ?thesis using R(4) [of d] d L(3) by (simp add: nth_append)
  qed
  ultimately show ?thesis using L(3) R(3) by (simp add: kids_def)
qed

lemma kids_rotate:
  assumes kb: "keys_between lo hi ks" "\<forall>x \<in> set ks. lo < unat x" "length cs = Suc (length ks)" "a < length ks" "lo \<le> hi"
    and others: "\<forall>j < length cs. j \<noteq> a \<and> j \<noteq> Suc a \<longrightarrow> bt_ok ps pg h (lo_of lo ks j) (hi_of hi ks j) (cs ! j)"
    and t1: "bt_ok ps pg h (lo_of lo ks a) (unat k) t1" and t2: "bt_ok ps pg h (unat k) (hi_of hi ks (Suc a)) t2"
    and k: "lo_of lo ks a < unat k" "unat k < hi_of hi ks (Suc a)"
  shows "kids ps pg h lo hi (ks[a := k]) (cs[a := t1, Suc a := t2])"
proof -
  have lo: "lo_of lo (ks[a := k]) j = (if j = Suc a then unat k else lo_of lo ks j)" if "j \<le> length ks" for j
    using that kb(4) by (cases j) (auto simp: lo_of_def nth_list_update)
  have hi: "hi_of hi (ks[a := k]) j = (if j = a then unat k else hi_of hi ks j)" for j
    using kb(4) by (auto simp: hi_of_def)
  have B: "lo \<le> lo_of lo ks a" "hi_of hi ks (Suc a) \<le> hi" using bounds_range [OF kb(1,5)] kb(4) by simp_all
  have srt: "sorted_wrt (<) ks" using kb(1) by (simp add: keys_between_def)
  have "sorted_wrt (<) (ks[a := k])"
  proof (rule sorted_wrt_iff_nth_less [THEN iffD2], intro allI impI)
    fix i j assume ij: "i < j" "j < length (ks[a := k])"
    have base: "ks ! i < ks ! j" using srt ij by (simp add: sorted_wrt_nth_less)
    show "ks[a := k] ! i < ks[a := k] ! j"
    proof (cases "i = a \<or> j = a")
      case False
      then show ?thesis using base by simp
    next
      case True
      show ?thesis
      proof (cases "i = a")
        case True
        have "unat k < unat (ks ! Suc a)" using k(2) ij True by (auto simp: hi_of_def split: if_splits)
        also have "\<dots> \<le> unat (ks ! j)" using keys_between_nth_mono [OF kb(1), of "Suc a" j] ij True by simp
        finally show ?thesis using True ij by (simp add: word_less_nat_alt)
      next
        case False
        then have "j = a" using True by simp
        have "unat (ks ! i) \<le> unat (ks ! (a - 1))" using keys_between_nth_mono [OF kb(1), of i "a - 1"] ij \<open>j = a\<close> kb(4) by simp
        also have "\<dots> < unat k" using k(1) ij \<open>j = a\<close> by (simp add: lo_of_def)
        finally show ?thesis using \<open>j = a\<close> ij by (simp add: word_less_nat_alt)
      qed
    qed
  qed
  moreover have "lo \<le> unat x \<and> unat x < hi \<and> lo < unat x" if "x \<in> set (ks[a := k])" for x
  proof -
    have "x = k \<or> x \<in> set ks" using that set_update_subset_insert [of ks a k] by auto
    then show ?thesis using kb(1,2) k B by (auto simp: keys_between_def)
  qed
  moreover have "bt_ok ps pg h (lo_of lo (ks[a := k]) j) (hi_of hi (ks[a := k]) j) (cs[a := t1, Suc a := t2] ! j)"
    if "j < length (cs[a := t1, Suc a := t2])" for j
    using that others t1 t2 kb(3,4) lo [of j] hi [of j] by (auto simp: nth_list_update)
  ultimately show ?thesis using kb(3) by (auto simp: kids_def keys_between_def)
qed

lemma list_remove_nth: "i < length xs \<Longrightarrow> j < length xs - 1 \<Longrightarrow> list_remove i xs ! j = (if j < i then xs ! j else xs ! Suc j)"
  by (auto simp: list_remove_def nth_append)

lemma kids_merge:
  assumes kb: "keys_between lo hi ks" "\<forall>x \<in> set ks. lo < unat x" "length cs = Suc (length ks)" "a < length ks"
    and others: "\<forall>j < length cs. j \<noteq> a \<and> j \<noteq> Suc a \<longrightarrow> bt_ok ps pg h (lo_of lo ks j) (hi_of hi ks j) (cs ! j)"
    and t: "bt_ok ps pg h (lo_of lo ks a) (hi_of hi ks (Suc a)) t"
  shows "kids ps pg h lo hi (list_remove a ks) ((list_remove (Suc a) cs)[a := t])"
proof -
  let ?ks = "list_remove a ks" and ?cs = "(list_remove (Suc a) cs)[a := t]"
  have len: "length ?ks = length ks - 1" "length ?cs = length ks"
    using kb(3,4) length_list_remove [of a ks] length_list_remove [of "Suc a" cs] by simp_all
  have lo: "lo_of lo ?ks j = (if j \<le> a then lo_of lo ks j else lo_of lo ks (Suc j))" if "j < length ks" for j
    using that kb(4) list_remove_nth [OF kb(4), of "j - 1"] by (cases j) (auto simp: lo_of_def)
  have hi: "hi_of hi ?ks j = (if j < a then hi_of hi ks j else hi_of hi ks (Suc j))" if "j < length ks" for j
    using that kb(4) list_remove_nth [OF kb(4), of j] len(1) by (auto simp: hi_of_def)
  have sub: "set ?ks \<subseteq> set ks" by (auto simp: list_remove_def dest: in_set_takeD in_set_dropD)
  have "ks = take a ks @ ks ! a # drop (Suc a) ks" using kb(4) by (simp add: id_take_nth_drop)
  then have "keys_between lo hi (take a ks @ ks ! a # drop (Suc a) ks)" using kb(1) by simp
  then have "keys_between lo hi ?ks"
    by (auto simp: keys_between_def list_remove_def sorted_wrt_append)
  moreover have "bt_ok ps pg h (lo_of lo ?ks j) (hi_of hi ?ks j) (?cs ! j)" if "j < length ?cs" for j
  proof -
    have j: "j < length ks" using that len(2) by simp
    have n: "list_remove (Suc a) cs ! j = (if j < Suc a then cs ! j else cs ! Suc j)"
      using list_remove_nth [of "Suc a" cs j] kb(3,4) j by simp
    have sc: "length (list_remove (Suc a) cs) = length ks" using len(2) by simp
    consider "j < a" | "j = a" | "a < j" by linarith
    then show ?thesis
    proof cases
      case 1
      then show ?thesis using others kb(3) j n lo [OF j] hi [OF j] by simp
    next
      case 2
      then show ?thesis using t lo [OF j] hi [OF j] sc j by simp
    next
      case 3
      then show ?thesis using others [rule_format, of "Suc j"] kb(3) j n lo [OF j] hi [OF j] by simp
    qed
  qed
  ultimately show ?thesis using sub kb(2) len kb(4) by (auto simp: kids_def)
qed

section \<open>Lists around a pair\<close>

lemma pair_split: "Suc a < length cs \<Longrightarrow> cs = take a cs @ cs ! a # cs ! Suc a # drop (Suc (Suc a)) cs"
  by (metis Cons_nth_drop_Suc Suc_lessD append_take_drop_id)

lemma concat_rotate:
  "Suc a < length cs \<Longrightarrow> concat (map f (cs[a := t1, Suc a := t2]))
     = concat (map f (take a cs)) @ f t1 @ f t2 @ concat (map f (drop (Suc (Suc a)) cs))"
  by (subst pair_split [of a "cs[a := t1, Suc a := t2]"]) simp_all

lemma merge_children: "Suc a < length cs \<Longrightarrow> (list_remove (Suc a) cs)[a := t] = take a cs @ t # drop (Suc (Suc a)) cs"
  by (simp add: list_remove_def take_Suc_conv_app_nth list_update_append)

lemma concat_at:
  assumes "Suc a < length cs"
  shows "concat (map f (take a cs)) @ g @ concat (map f (drop (Suc a) cs))
      = concat (map f (take a cs)) @ g @ f (cs ! Suc a) @ concat (map f (drop (Suc (Suc a)) cs))"
    and "concat (map f (take (Suc a) cs)) @ g @ concat (map f (drop (Suc (Suc a)) cs))
      = concat (map f (take a cs)) @ f (cs ! a) @ g @ concat (map f (drop (Suc (Suc a)) cs))"
  using assms by (simp_all add: take_Suc_conv_app_nth flip: Cons_nth_drop_Suc [of "Suc a" cs])

lemma distinct_pid_of: "distinct (concat (map pids cs)) \<Longrightarrow> distinct (map pid_of cs)"
proof (induction cs)
  case (Cons t cs)
  have "pid_of t \<in> set (pids t)" by (rule pid_of_in_pids)
  moreover have "pid_of ` set cs \<subseteq> set (concat (map pids cs))" using pid_of_in_pids by fastforce
  ultimately show ?case using Cons by auto
qed simp

lemma bt_ok_shrinks:
  assumes "shrinks s fl s' fl' F W T" "bt_ok (unat (st_page_size s)) (st_pages s) h lo hi t"
    and "\<forall>q \<in> set (pids t). in_use s fl q \<and> q \<notin> F" "set (pids t) \<inter> W = {}"
  shows "bt_ok (unat (st_page_size s)) (st_pages s') h lo hi t"
  by (rule bt_ok_cong [OF assms(2)]) (use shrinksD(6,9) [OF assms(1)] assms(3,4) in blast)

lemma ctx_ok_shrinks:
  assumes "shrinks s fl s' fl' F W T" "ctx_ok (unat (st_page_size s)) (st_pages s) H c h lo hi"
    and "\<forall>q \<in> set (ctx_pids c). in_use s fl q \<and> q \<notin> F" "set (ctx_pids c) \<inter> W = {}"
  shows "ctx_ok (unat (st_page_size s)) (st_pages s') H c h lo hi"
  by (rule ctx_ok_cong [OF assms(2)]) (use shrinksD(6,9) [OF assms(1)] assms(3,4) in blast)

lemma kids_shrinks:
  assumes "shrinks s fl s' fl' F W T" "kids (unat (st_page_size s)) (st_pages s) h lo hi ks cs"
    and "\<forall>q \<in> set (concat (map pids cs)). in_use s fl q \<and> q \<notin> F" "set (concat (map pids cs)) \<inter> W = {}"
  shows "kids (unat (st_page_size s)) (st_pages s') h lo hi ks cs"
  by (rule kids_cong [OF assms(2)]) (use shrinksD(6,9) [OF assms(1)] assms(3,4) in blast)

end
