(* ===== verification/BPlus_Frame.thy ===== *)
theory BPlus_Frame
  imports BPlus_Pairs
begin

text \<open>
  The two states a deletion works its way up through: an inner node that may have lost its last
  separator (\<open>hole_node\<close>), and an inner node two neighbouring children of which are about to be
  rebalanced (\<open>frame_ok\<close>). Rotating or merging the children leads from the second to the first.
\<close>

section \<open>A node under repair\<close>

definition hole_node :: "store \<Rightarrow> page_id list \<Rightarrow> nat \<Rightarrow> ctx \<Rightarrow> nat \<Rightarrow> nat \<Rightarrow> nat \<Rightarrow> page_id \<Rightarrow> u64 list \<Rightarrow> bt list \<Rightarrow> bool" where
  "hole_node s fl H c h lo hi p ks cs \<longleftrightarrow> store_ok s fl
     \<and> node_at (unat (st_page_size s)) (st_pages s p) (InnerN ks (map pid_of cs))
     \<and> kids (unat (st_page_size s)) (st_pages s) h lo hi ks cs
     \<and> ctx_ok (unat (st_page_size s)) (st_pages s) H c (Suc h) lo hi \<and> hole_pid c p
     \<and> distinct (p # concat (map pids cs) @ ctx_pids c)
     \<and> (\<forall>q \<in> set (p # concat (map pids cs) @ ctx_pids c). in_use s fl q)
     \<and> pid_of (plug c (Inner p ks cs)) = root_id s"

lemma hole_nodeD:
  assumes "hole_node s fl H c h lo hi p ks cs"
  shows "store_ok s fl" "node_at (unat (st_page_size s)) (st_pages s p) (InnerN ks (map pid_of cs))"
    "kids (unat (st_page_size s)) (st_pages s) h lo hi ks cs"
    "ctx_ok (unat (st_page_size s)) (st_pages s) H c (Suc h) lo hi" "hole_pid c p"
    "distinct (p # concat (map pids cs) @ ctx_pids c)"
    "q \<in> set (p # concat (map pids cs) @ ctx_pids c) \<Longrightarrow> in_use s fl q"
    "pid_of (plug c (Inner p ks cs)) = root_id s"
    "length cs = Suc (length ks)" "keys_between lo hi ks" "k \<in> set ks \<Longrightarrow> lo < unat k"
    "j < length cs \<Longrightarrow> bt_ok (unat (st_page_size s)) (st_pages s) h (lo_of lo ks j) (hi_of hi ks j) (cs ! j)"
  using assms unfolding hole_node_def by (auto simp: kids_def)

text \<open>
  The node \<open>q\<close> with separators \<open>ks\<close> and children \<open>cs\<close>; nothing is said of the children on the two
  sides of separator \<open>a\<close>.
\<close>

definition frame_ok :: "store \<Rightarrow> page_id list \<Rightarrow> nat \<Rightarrow> ctx \<Rightarrow> nat \<Rightarrow> nat \<Rightarrow> nat \<Rightarrow> page_id \<Rightarrow> u64 list \<Rightarrow> bt list \<Rightarrow> nat \<Rightarrow> bool" where
  "frame_ok s fl H c h lo hi q ks cs a \<longleftrightarrow> store_ok s fl
     \<and> node_at (unat (st_page_size s)) (st_pages s q) (InnerN ks (map pid_of cs))
     \<and> keys_between lo hi ks \<and> (\<forall>k \<in> set ks. lo < unat k) \<and> length cs = Suc (length ks) \<and> a < length ks \<and> lo \<le> hi
     \<and> (\<forall>j < length cs. j \<noteq> a \<and> j \<noteq> Suc a \<longrightarrow>
          bt_ok (unat (st_page_size s)) (st_pages s) h (lo_of lo ks j) (hi_of hi ks j) (cs ! j))
     \<and> ctx_ok (unat (st_page_size s)) (st_pages s) H c (Suc h) lo hi \<and> hole_pid c q
     \<and> distinct (q # concat (map pids cs) @ ctx_pids c)
     \<and> (\<forall>x \<in> set (q # concat (map pids cs) @ ctx_pids c). in_use s fl x)
     \<and> pid_of (plug c (Inner q ks cs)) = root_id s"

lemma frame_okD:
  assumes "frame_ok s fl H c h lo hi q ks cs a"
  shows "store_ok s fl" "node_at (unat (st_page_size s)) (st_pages s q) (InnerN ks (map pid_of cs))"
    "keys_between lo hi ks" "\<forall>k \<in> set ks. lo < unat k" "length cs = Suc (length ks)" "a < length ks" "lo \<le> hi"
    "\<forall>j < length cs. j \<noteq> a \<and> j \<noteq> Suc a \<longrightarrow>
      bt_ok (unat (st_page_size s)) (st_pages s) h (lo_of lo ks j) (hi_of hi ks j) (cs ! j)"
    "ctx_ok (unat (st_page_size s)) (st_pages s) H c (Suc h) lo hi" "hole_pid c q"
    "distinct (q # concat (map pids cs) @ ctx_pids c)"
    "\<forall>x \<in> set (q # concat (map pids cs) @ ctx_pids c). in_use s fl x"
    "pid_of (plug c (Inner q ks cs)) = root_id s"
  using assms unfolding frame_ok_def by simp_all

lemma frame_at_hole:
  assumes ok: "store_ok s fl"
    and c: "ctx_ok (unat (st_page_size s)) (st_pages s) H ((q, ks, cs, i) # c) h lo hi" "hole_pid ((q, ks, cs, i) # c) (pid_of t)"
    and d: "distinct (pids t @ ctx_pids ((q, ks, cs, i) # c))"
    and u: "\<forall>x \<in> set (pids t @ ctx_pids ((q, ks, cs, i) # c)). in_use s fl x"
    and r: "pid_of (plug ((q, ks, cs, i) # c) t) = root_id s"
  obtains plo phi where "lo = lo_of plo ks i" "hi = hi_of phi ks i" "i < Suc (length ks)" "length cs = Suc (length ks)"
    "\<And>a. a < length ks \<Longrightarrow> i = a \<or> i = Suc a \<Longrightarrow> frame_ok s fl H c h plo phi q ks (cs[i := t]) a"
    "\<And>j. j < length cs \<Longrightarrow> j \<noteq> i \<Longrightarrow> bt_ok (unat (st_page_size s)) (st_pages s) h (lo_of plo ks j) (hi_of phi ks j) (cs ! j)"
    "node_at (unat (st_page_size s)) (st_pages s q) (InnerN ks (map pid_of (cs[i := t])))"
proof -
  let ?ps = "unat (st_page_size s)" and ?pg = "st_pages s"
  from c(1) obtain plo phi where P: "ctx_ok ?ps ?pg H c (Suc h) plo phi" "hole_pid c q"
    "node_at ?ps (?pg q) (InnerN ks (map pid_of cs))" "keys_between plo phi ks" "seps_above plo ks"
    "length cs = Suc (length ks)" "i < length cs"
    "\<forall>j < length cs. j \<noteq> i \<longrightarrow> bt_ok ?ps ?pg h (lo_of plo ks j) (hi_of phi ks j) (cs ! j)"
    "lo = lo_of plo ks i" "hi = hi_of phi ks i" "plo \<le> phi" by auto
  have pc: "map pid_of (cs[i := t]) = map pid_of cs"
    using c(2) P(7) by (simp add: map_update list_update_same_conv)
  have m: "mset (q # concat (map pids (cs[i := t])) @ ctx_pids c) = mset (pids t @ ctx_pids ((q, ks, cs, i) # c))"
    by (simp add: concat_map_update [OF P(7)])
  have "frame_ok s fl H c h plo phi q ks (cs[i := t]) a" if "a < length ks" "i = a \<or> i = Suc a" for a
    unfolding frame_ok_def pc
    using ok P that r mset_eq_imp_distinct_iff [OF m] mset_eq_setD [OF m] d u
    by (auto simp: seps_above_def)
  then show thesis by (intro that) (use P pc in auto)
qed

section \<open>Steps of the repair\<close>

text \<open>Pages of the tree, \<open>U\<close>, may be given back; leaves that stay keep their node.\<close>

definition tree_step :: "store \<Rightarrow> page_id list \<Rightarrow> store \<Rightarrow> page_id list \<Rightarrow> page_id set \<Rightarrow> page_id set \<Rightarrow> bool" where
  "tree_step s fl s' fl' F U \<longleftrightarrow> shrinks s fl s' fl' F U U \<and> F \<subseteq> U
     \<and> (\<forall>q n es. in_use s' fl' q \<and> node_at (unat (st_page_size s)) (st_pages s q) (LeafN n es)
          \<longrightarrow> node_at (unat (st_page_size s)) (st_pages s' q) (LeafN n es))"

lemma tree_step_refl: "store_ok s fl \<Longrightarrow> tree_step s fl s fl {} U"
  using shrinks_mono [OF shrinks_refl, of s fl U U] by (simp add: tree_step_def)

lemma tree_step_trans:
  assumes a: "tree_step s fl s1 fl1 F1 U" and b: "tree_step s1 fl1 s2 fl2 F2 (U - F1)"
  shows "tree_step s fl s2 fl2 (F1 \<union> F2) U"
proof -
  note A = a [unfolded tree_step_def] and B = b [unfolded tree_step_def]
  have sh: "shrinks s fl s2 fl2 (F1 \<union> F2) U U"
    by (rule shrinks_mono [OF shrinks_trans]) (use A B in auto)
  moreover have "node_at (unat (st_page_size s)) (st_pages s2 q) (LeafN n es)"
    if "in_use s2 fl2 q" "node_at (unat (st_page_size s)) (st_pages s q) (LeafN n es)" for q n es
  proof -
    have "in_use s1 fl1 q" using that(1) shrinksD(6) [of s1 fl1 s2 fl2 F2] B by blast
    then show ?thesis using A B that shrinksD(2) [of s fl s1 fl1 F1] by auto
  qed
  ultimately show ?thesis using A B by (auto simp: tree_step_def)
qed

lemma tree_step_of_shrinks:
  assumes sh: "shrinks s fl s' fl' F W T" and "W \<subseteq> U" "T \<subseteq> U" "F \<subseteq> U"
    and inner: "\<And>q. q \<in> W \<Longrightarrow> \<exists>ks cps. node_at (unat (st_page_size s)) (st_pages s q) (InnerN ks cps)"
  shows "tree_step s fl s' fl' F U"
proof -
  have "shrinks s fl s' fl' F U U" by (rule shrinks_mono [OF sh]) (use assms(2,3) in auto)
  moreover have "node_at (unat (st_page_size s)) (st_pages s' q) (LeafN n es)"
    if q: "in_use s' fl' q" "node_at (unat (st_page_size s)) (st_pages s q) (LeafN n es)" for q n es
  proof -
    have "q \<notin> W" using inner [of q] q(2) by (auto simp: node_at_def)
    then show ?thesis using shrinksD(9) [OF sh q(1) _ q(2)] by simp
  qed
  ultimately show ?thesis using assms(4) by (simp add: tree_step_def)
qed

section \<open>From a pair of children to the node above\<close>

lemma distinct_concat_nth_disjoint:
  assumes "distinct (concat xss)" "i < length xss" "j < length xss" "i \<noteq> j"
  shows "set (xss ! i) \<inter> set (xss ! j) = {}"
  using assms
proof (induction xss arbitrary: i j)
  case (Cons xs xss)
  have "set xs \<inter> set (xss ! k) = {}" if "k < length xss" for k
    using Cons.prems(1) nth_mem [OF that] by auto
  then show ?case using Cons by (cases i; cases j) (auto simp: Int_commute)
qed simp

lemma frame_pages:
  assumes fr: "frame_ok s fl H c h lo hi q ks cs a"
  defines "P \<equiv> {q} \<union> set (pids (cs ! a)) \<union> set (pids (cs ! Suc a))"
  shows "j < length cs \<Longrightarrow> j \<noteq> a \<Longrightarrow> j \<noteq> Suc a \<Longrightarrow> set (pids (cs ! j)) \<inter> P = {}"
    and "set (ctx_pids c) \<inter> P = {}"
    and "P \<subseteq> set (q # concat (map pids cs) @ ctx_pids c)"
    and "j < length cs \<Longrightarrow> set (pids (cs ! j)) \<subseteq> set (q # concat (map pids cs) @ ctx_pids c)"
    and "mset (q # concat (map pids cs) @ ctx_pids c) = mset (pids (cs ! a)) + mset (pids (cs ! Suc a))
      + mset (q # concat (map pids (take a cs)) @ concat (map pids (drop (Suc (Suc a)) cs)) @ ctx_pids c)"
proof -
  note Fr = frame_okD [OF fr]
  have l: "Suc a < length cs" using Fr(5,6) by simp
  have sub: "set (pids (cs ! i)) \<subseteq> set (concat (map pids cs))" if "i < length cs" for i
    using nth_mem [OF that] by auto
  have d: "distinct (concat (map pids cs))" "q \<notin> set (concat (map pids cs))"
    "set (ctx_pids c) \<inter> (insert q (set (concat (map pids cs)))) = {}" using Fr(11) by auto
  show "set (pids (cs ! j)) \<inter> P = {}" if "j < length cs" "j \<noteq> a" "j \<noteq> Suc a"
    using distinct_concat_nth_disjoint [OF d(1), of j a] distinct_concat_nth_disjoint [OF d(1), of j "Suc a"]
      sub [OF that(1)] d(2) that l unfolding P_def by auto
  show "set (ctx_pids c) \<inter> P = {}" "P \<subseteq> set (q # concat (map pids cs) @ ctx_pids c)"
    using d(3) sub [of a] sub [of "Suc a"] l unfolding P_def by auto
  show "set (pids (cs ! j)) \<subseteq> set (q # concat (map pids cs) @ ctx_pids c)" if "j < length cs" using sub [OF that] by auto
  show "mset (q # concat (map pids cs) @ ctx_pids c) = mset (pids (cs ! a)) + mset (pids (cs ! Suc a))
      + mset (q # concat (map pids (take a cs)) @ concat (map pids (drop (Suc (Suc a)) cs)) @ ctx_pids c)"
    by (subst (1) pair_split [OF l]) simp
qed

lemma frame_others:
  assumes fr: "frame_ok s fl H c h lo hi q ks cs a" and sh: "shrinks s fl s1 fl1 F W T"
    and W: "F \<union> W \<subseteq> {q} \<union> set (pids (cs ! a)) \<union> set (pids (cs ! Suc a))"
  shows "\<forall>j < length cs. j \<noteq> a \<and> j \<noteq> Suc a \<longrightarrow>
      bt_ok (unat (st_page_size s)) (st_pages s1) h (lo_of lo ks j) (hi_of hi ks j) (cs ! j)"
    and "ctx_ok (unat (st_page_size s)) (st_pages s1) H c (Suc h) lo hi"
proof -
  note Fr = frame_okD [OF fr] and P = frame_pages [OF fr]
  show "\<forall>j < length cs. j \<noteq> a \<and> j \<noteq> Suc a \<longrightarrow>
      bt_ok (unat (st_page_size s)) (st_pages s1) h (lo_of lo ks j) (hi_of hi ks j) (cs ! j)"
  proof (intro allI impI, elim conjE)
    fix j assume j: "j < length cs" "j \<noteq> a" "j \<noteq> Suc a"
    show "bt_ok (unat (st_page_size s)) (st_pages s1) h (lo_of lo ks j) (hi_of hi ks j) (cs ! j)"
      by (rule bt_ok_shrinks [OF sh]) (use Fr(8,12) j P(1) [OF j] P(4) [OF j(1)] W in blast)+
  qed
  show "ctx_ok (unat (st_page_size s)) (st_pages s1) H c (Suc h) lo hi"
    by (rule ctx_ok_shrinks [OF sh Fr(9)]) (use Fr(12) P(2) W in auto)
qed

lemma frame_rotate:
  assumes fr: "frame_ok s fl H c h lo hi q ks cs a" and sh: "shrinks s fl s1 fl {} W T"
    and W: "W \<subseteq> {q} \<union> set (pids (cs ! a)) \<union> set (pids (cs ! Suc a))"
    and t1: "bt_ok (unat (st_page_size s)) (st_pages s1) h (lo_of lo ks a) (unat k) t1" "pid_of t1 = pid_of (cs ! a)"
    and t2: "bt_ok (unat (st_page_size s)) (st_pages s1) h (unat k) (hi_of hi ks (Suc a)) t2" "pid_of t2 = pid_of (cs ! Suc a)"
    and k: "lo_of lo ks a < unat k" "unat k < hi_of hi ks (Suc a)"
    and q: "node_at (unat (st_page_size s)) (st_pages s1 q) (InnerN (ks[a := k]) (map pid_of cs))"
    and m: "mset (pids t1) + mset (pids t2) = mset (pids (cs ! a)) + mset (pids (cs ! Suc a))"
    and r: "root_id s1 = root_id s"
  shows "hole_node s1 fl H c h lo hi q (ks[a := k]) (cs[a := t1, Suc a := t2])"
    and "set (q # concat (map pids (cs[a := t1, Suc a := t2])) @ ctx_pids c) = set (q # concat (map pids cs) @ ctx_pids c)"
proof -
  note Fr = frame_okD [OF fr] and D = shrinksD [OF sh] and P = frame_pages [OF fr]
  let ?cs = "cs[a := t1, Suc a := t2]"
  have l: "Suc a < length cs" using Fr(5,6) by simp
  have ms: "mset (q # concat (map pids ?cs) @ ctx_pids c) = mset (q # concat (map pids cs) @ ctx_pids c)"
    using m by (simp add: concat_rotate [OF l] P(5) [simplified])
  show "set (q # concat (map pids ?cs) @ ctx_pids c) = set (q # concat (map pids cs) @ ctx_pids c)"
    by (rule mset_eq_setD [OF ms])
  note O = frame_others [OF fr sh, simplified Un_empty_left, OF W]
  have K: "kids (unat (st_page_size s)) (st_pages s1) h lo hi (ks[a := k]) ?cs"
    by (rule kids_rotate [OF Fr(3-7) O(1) t1(1) t2(1) k])
  have pc: "map pid_of ?cs = map pid_of cs"
    using t1(2) t2(2) l by (intro nth_equalityI) (auto simp: nth_list_update)
  have "pid_of (plug c (Inner q (ks[a := k]) ?cs)) = root_id s1"
    using pid_of_plug_cong [of "Inner q (ks[a := k]) ?cs" "Inner q ks cs" c] Fr(13) r by simp
  moreover have "\<forall>x \<in> set (q # concat (map pids ?cs) @ ctx_pids c). in_use s1 fl x"
    unfolding mset_eq_setD [OF ms] using Fr(12) D(6) by blast
  moreover have "distinct (q # concat (map pids ?cs) @ ctx_pids c)" using mset_eq_imp_distinct_iff [OF ms] Fr(11) by blast
  ultimately show "hole_node s1 fl H c h lo hi q (ks[a := k]) ?cs"
    unfolding hole_node_def D(2) pc using D(1) q K O(2) Fr(10) by blast
qed

lemma frame_merge:
  assumes fr: "frame_ok s fl H c h lo hi q ks cs a" and sh: "shrinks s fl s1 fl1 {r} W T"
    and W: "W \<subseteq> {q} \<union> set (pids (cs ! a)) \<union> set (pids (cs ! Suc a))"
    and t: "bt_ok (unat (st_page_size s)) (st_pages s1) h (lo_of lo ks a) (hi_of hi ks (Suc a)) t" "pid_of t = pid_of (cs ! a)"
    and q: "node_at (unat (st_page_size s)) (st_pages s1 q) (InnerN (list_remove a ks) (list_remove (Suc a) (map pid_of cs)))"
    and m: "mset (r # pids t) = mset (pids (cs ! a)) + mset (pids (cs ! Suc a))"
    and r: "root_id s1 = root_id s"
  shows "hole_node s1 fl1 H c h lo hi q (list_remove a ks) ((list_remove (Suc a) cs)[a := t])"
    and "set (q # concat (map pids ((list_remove (Suc a) cs)[a := t])) @ ctx_pids c)
      = set (q # concat (map pids cs) @ ctx_pids c) - {r}"
proof -
  note Fr = frame_okD [OF fr] and D = shrinksD [OF sh] and P = frame_pages [OF fr]
  let ?cs = "(list_remove (Suc a) cs)[a := t]"
  have l: "Suc a < length cs" using Fr(5,6) by simp
  have ms: "mset (r # q # concat (map pids ?cs) @ ctx_pids c) = mset (q # concat (map pids cs) @ ctx_pids c)"
    using m by (simp add: merge_children [OF l] P(5) [simplified])
  then have dist: "distinct (r # q # concat (map pids ?cs) @ ctx_pids c)"
    using mset_eq_imp_distinct_iff Fr(11) by blast
  then show st: "set (q # concat (map pids ?cs) @ ctx_pids c) = set (q # concat (map pids cs) @ ctx_pids c) - {r}"
    using mset_eq_setD [OF ms] by auto
  have "r \<in> set (pids (cs ! a)) \<union> set (pids (cs ! Suc a))"
    using mset_eq_setD [OF m [folded mset_append]] by auto
  then have "{r} \<union> W \<subseteq> {q} \<union> set (pids (cs ! a)) \<union> set (pids (cs ! Suc a))" using W by blast
  note O = frame_others [OF fr sh this]
  have K: "kids (unat (st_page_size s)) (st_pages s1) h lo hi (list_remove a ks) ?cs"
    by (rule kids_merge [OF Fr(3-6) O(1) t(1)])
  have pc: "map pid_of ?cs = list_remove (Suc a) (map pid_of cs)"
    using t(2) l by (simp add: merge_children [OF l])
      (simp add: list_remove_def take_map drop_map take_Suc_conv_app_nth)
  have "pid_of (plug c (Inner q (list_remove a ks) ?cs)) = root_id s1"
    using pid_of_plug_cong [of "Inner q (list_remove a ks) ?cs" "Inner q ks cs" c] Fr(13) r by simp
  moreover have "\<forall>x \<in> set (q # concat (map pids ?cs) @ ctx_pids c). in_use s1 fl1 x"
    unfolding st using Fr(12) D(6) by blast
  moreover have "distinct (q # concat (map pids ?cs) @ ctx_pids c)" using dist by simp
  ultimately show "hole_node s1 fl1 H c h lo hi q (list_remove a ks) ?cs"
    unfolding hole_node_def D(2) pc using D(1) q K O(2) Fr(10) by blast
qed

end
