(* ===== verification/BPlus_Delete.thy ===== *)
theory BPlus_Delete
  imports BPlus_Frame
begin

text \<open>
  \<open>propagate_delete\<close> repairs the inner nodes above a merge, whatever the number of further merges, and
  \<open>bptree_delete\<close> removes the key from the index map and keeps the tree.
\<close>

section \<open>Rebalancing two inner nodes\<close>

text \<open>The state after a pair of children of \<open>q\<close> was rebalanced into \<open>s1\<close>: \<open>q\<close> has \<open>n\<close> separators.\<close>

definition rebalanced :: "store \<Rightarrow> page_id list \<Rightarrow> nat \<Rightarrow> ctx \<Rightarrow> nat \<Rightarrow> nat \<Rightarrow> nat \<Rightarrow> page_id \<Rightarrow> bt list \<Rightarrow> nat \<Rightarrow> store \<Rightarrow> bool" where
  "rebalanced s fl H c h lo hi q cs n s1 \<longleftrightarrow> (\<exists>fl1 F ks' cs'.
     hole_node s1 fl1 H c h lo hi q ks' cs' \<and> length ks' = n
     \<and> tree_step s fl s1 fl1 F (set (q # concat (map pids cs) @ ctx_pids c))
     \<and> set (q # concat (map pids cs') @ ctx_pids c) = set (q # concat (map pids cs) @ ctx_pids c) - F
     \<and> concat (map entries cs') = concat (map entries cs) \<and> concat (map leaves cs') = concat (map leaves cs))"

lemma separator_above:
  assumes "keys_between lo hi ks" "\<forall>x \<in> set ks. lo < unat x" "a < length ks"
  shows "lo_of lo ks a < unat (ks ! a)"
proof (cases a)
  case (Suc b)
  have "ks ! b < ks ! a" using assms(1,3) Suc by (simp add: keys_between_def sorted_wrt_nth_less)
  then show ?thesis using Suc by (simp add: lo_of_def word_less_nat_alt)
qed (use assms in \<open>simp add: lo_of_def\<close>)

lemma concat_same:
  "Suc a < length cs \<Longrightarrow> f t1 @ f t2 = f (cs ! a) @ f (cs ! Suc a)
    \<Longrightarrow> concat (map f (cs[a := t1, Suc a := t2])) = concat (map f cs)"
  by (subst (2) pair_split [of a cs]) (simp_all add: concat_rotate)

lemma concat_merged:
  "Suc a < length cs \<Longrightarrow> f t = f (cs ! a) @ f (cs ! Suc a)
    \<Longrightarrow> concat (map f ((list_remove (Suc a) cs)[a := t])) = concat (map f cs)"
  by (subst (2) pair_split [of a cs]) (simp_all add: merge_children)

lemma kids_inner:
  assumes "bt_ok ps pg (Suc h) lo hi (Inner p ks cs)"
  shows "node_at ps (pg p) (InnerN ks (map pid_of cs))" "kids ps pg h lo hi ks cs" "ks \<noteq> []"
  using assms by (simp_all add: bt_ok_Inner kids_def seps_above_def)

lemma inner_pair_pages:
  assumes fr: "frame_ok s fl H c h lo hi q ks cs a" and A: "cs ! a = Inner p ks1 cs1" and B: "cs ! Suc a = Inner r ks2 cs2"
  defines "U \<equiv> set (q # concat (map pids cs) @ ctx_pids c)"
    and "G \<equiv> set (concat (map pids cs1)) \<union> set (concat (map pids cs2))"
  shows "p \<in> U" "r \<in> U" "q \<in> U" "G \<subseteq> U" "G \<inter> {p, r, q} = {}" "distinct [p, r, q]" "x \<in> U \<Longrightarrow> in_use s fl x"
    "{p, r, q} \<subseteq> {q} \<union> set (pids (cs ! a)) \<union> set (pids (cs ! Suc a))" "Suc a < length cs" "e \<in> set (cs1 @ cs2) \<Longrightarrow> pid_of e \<in> G"
proof -
  note Fr = frame_okD [OF fr] and P = frame_pages [OF fr]
  show l: "Suc a < length cs" using Fr(5,6) by simp
  have sub: "set (pids (cs ! a)) \<subseteq> U" "set (pids (cs ! Suc a)) \<subseteq> U"
    using P(4) [of a] P(4) [of "Suc a"] l unfolding U_def by auto
  have d: "distinct (q # pids (cs ! a) @ pids (cs ! Suc a))"
    using mset_eq_imp_distinct_iff [OF P(5) [unfolded mset_append [symmetric]]] Fr(11) by auto
  show "p \<in> U" "r \<in> U" "G \<subseteq> U" using sub by (auto simp: A B G_def)
  show "q \<in> U" by (simp add: U_def)
  show "G \<inter> {p, r, q} = {}" "distinct [p, r, q]" using d by (auto simp: A B G_def)
  show "x \<in> U \<Longrightarrow> in_use s fl x" using Fr(12) unfolding U_def by blast
  show "{p, r, q} \<subseteq> {q} \<union> set (pids (cs ! a)) \<union> set (pids (cs ! Suc a))" by (auto simp: A B)
  show "e \<in> set (cs1 @ cs2) \<Longrightarrow> pid_of e \<in> G" using pid_of_in_pids [of e] by (auto simp: G_def)
qed

lemma rebalanced_borrow_right:
  assumes fr: "frame_ok s fl H c (Suc h) lo hi q ks cs a"
    and A: "cs ! a = Inner p ks1 cs1" "node_at (unat (st_page_size s)) (st_pages s p) (InnerN ks1 (map pid_of cs1))"
      "kids (unat (st_page_size s)) (st_pages s) h (lo_of lo ks a) (unat (ks ! a)) ks1 cs1"
    and B: "cs ! Suc a = Inner r (k # ks2) (e # cs2)" "ks2 \<noteq> []"
      "bt_ok (unat (st_page_size s)) (st_pages s) (Suc h) (unat (ks ! a)) (hi_of hi ks (Suc a)) (cs ! Suc a)"
    and space: "length ks1 < inner_cap (unat (st_page_size s))"
  shows "rebalanced s fl H c (Suc h) lo hi q cs (length ks) (borrow_right_internal s p r q a)"
proof -
  let ?ps = "unat (st_page_size s)"
  note Fr = frame_okD [OF fr] and K = kids_inner [OF B(3) [unfolded B(1)]] and P = inner_pair_pages [OF fr A(1) B(1)]
  define U where "U = set (q # concat (map pids cs) @ ctx_pids c)"
  define G where "G = set (concat (map pids cs1)) \<union> set (concat (map pids (e # cs2)))"
  note Q = P [folded U_def G_def]
  have eU: "pid_of e \<in> U" using Q(10) [of e] Q(4) by auto
  from borrow_right_internal_nodes [OF Fr(1) Q(7) Q(7) Q(7) _ A(2) _ Fr(2,6) space Q(7), OF Q(1-3,6) _ eU, of k ks2 "map pid_of cs2"]
  obtain s1 where s1: "borrow_right_internal s p r q a = s1" "shrinks s fl s1 fl {} {p, r, q} {p, r, q, pid_of e}"
    "root_id s1 = root_id s" "node_at ?ps (st_pages s1 p) (InnerN (ks1 @ [ks ! a]) (map pid_of (cs1 @ [e])))"
    "node_at ?ps (st_pages s1 r) (InnerN ks2 (map pid_of cs2))" "node_at ?ps (st_pages s1 q) (InnerN (ks[a := k]) (map pid_of cs))"
    using K(1) by auto
  have keep: "kids ?ps (st_pages s1) h l' h' ks' cs'" if "kids ?ps (st_pages s) h l' h' ks' cs'"
    "set (concat (map pids cs')) \<subseteq> G" for l' h' ks' cs'
    by (rule kids_shrinks [OF s1(2) that(1)]) (use that(2) Q(4,5,7) in blast)+
  have K1: "kids ?ps (st_pages s1) h (lo_of lo ks a) (unat (ks ! a)) ks1 cs1" by (rule keep [OF A(3)]) (simp add: G_def)
  have K2: "kids ?ps (st_pages s1) h (unat (ks ! a)) (unat k) [] [e]" "kids ?ps (st_pages s1) h (unat k) (hi_of hi ks (Suc a)) ks2 cs2"
    using kids_split [OF K(2), of 0] by (auto intro!: keep simp: G_def)
  have m: "lo_of lo ks a < unat (ks ! a)" by (rule separator_above [OF Fr(3,4,6)])
  have k: "unat (ks ! a) < unat k" "unat k < hi_of hi ks (Suc a)" using K(2) by (auto simp: kids_def keys_between_def)
  let ?t1 = "Inner p (ks1 @ [ks ! a]) (cs1 @ [e])" and ?t2 = "Inner r ks2 cs2"
  have t1: "bt_ok ?ps (st_pages s1) (Suc h) (lo_of lo ks a) (unat k) ?t1"
    by (rule bt_ok_InnerI [OF s1(4) kids_append [OF K1 K2(1) m k(1)]]) simp
  have t2: "bt_ok ?ps (st_pages s1) (Suc h) (unat k) (hi_of hi ks (Suc a)) ?t2"
    by (rule bt_ok_InnerI [OF s1(5) K2(2) B(2)])
  note R = frame_rotate [OF fr s1(2) Q(8) t1 _ t2 _ less_trans [OF m k(1)] k(2) s1(6) _ s1(3), simplified A(1) B(1)]
  have "tree_step s fl s1 fl {} U"
    by (rule tree_step_of_shrinks [OF s1(2)]) (use Q(1-3) eU A(2) K(1) Fr(2) in auto)
  moreover have "hole_node s1 fl H c (Suc h) lo hi q (ks[a := k]) (cs[a := ?t1, Suc a := ?t2])"
    "set (q # concat (map pids (cs[a := ?t1, Suc a := ?t2])) @ ctx_pids c) = U"
    unfolding U_def using R by simp_all
  moreover have "concat (map entries (cs[a := ?t1, Suc a := ?t2])) = concat (map entries cs)"
    "concat (map leaves (cs[a := ?t1, Suc a := ?t2])) = concat (map leaves cs)"
    by (rule concat_same [OF Q(9)], simp add: A(1) B(1))+
  ultimately show ?thesis
    unfolding rebalanced_def s1(1) U_def by (metis Diff_empty length_list_update)
qed

lemma separator_below:
  assumes "keys_between lo hi ks" "a < length ks"
  shows "unat (ks ! a) < hi_of hi ks (Suc a)"
proof (cases "Suc a < length ks")
  case True
  then have "ks ! a < ks ! Suc a" using assms(1) by (simp add: keys_between_def sorted_wrt_nth_less)
  then show ?thesis using True by (simp add: hi_of_def word_less_nat_alt)
qed (use assms in \<open>auto simp: hi_of_def keys_between_def\<close>)

lemma rebalanced_borrow_left:
  assumes fr: "frame_ok s fl H c (Suc h) lo hi q ks cs a"
    and A: "cs ! a = Inner l (ks1 @ [k]) (cs1 @ [e])" "ks1 \<noteq> []"
      "bt_ok (unat (st_page_size s)) (st_pages s) (Suc h) (lo_of lo ks a) (unat (ks ! a)) (cs ! a)"
    and B: "cs ! Suc a = Inner p ks2 cs2" "node_at (unat (st_page_size s)) (st_pages s p) (InnerN ks2 (map pid_of cs2))"
      "kids (unat (st_page_size s)) (st_pages s) h (unat (ks ! a)) (hi_of hi ks (Suc a)) ks2 cs2"
    and space: "length ks2 < inner_cap (unat (st_page_size s))"
  shows "rebalanced s fl H c (Suc h) lo hi q cs (length ks) (borrow_left_internal s p l q a)"
proof -
  let ?ps = "unat (st_page_size s)"
  note Fr = frame_okD [OF fr] and K = kids_inner [OF A(3) [unfolded A(1)]] and P = inner_pair_pages [OF fr A(1) B(1)]
  define U where "U = set (q # concat (map pids cs) @ ctx_pids c)"
  define G where "G = set (concat (map pids (cs1 @ [e]))) \<union> set (concat (map pids cs2))"
  note Q = P [folded U_def G_def]
  have eU: "pid_of e \<in> U" using Q(10) [of e] Q(4) by auto
  have d: "distinct [p, l, q]" using Q(6) by auto
  from borrow_left_internal_nodes [OF Fr(1) Q(7) Q(7) Q(7) _ B(2) _ Fr(2,6) space Q(7), OF Q(2,1,3) d _ eU, of ks1 k "map pid_of cs1"]
  obtain s1 where s1: "borrow_left_internal s p l q a = s1" "shrinks s fl s1 fl {} {p, l, q} {p, l, q, pid_of e}"
    "root_id s1 = root_id s" "node_at ?ps (st_pages s1 p) (InnerN (ks ! a # ks2) (map pid_of (e # cs2)))"
    "node_at ?ps (st_pages s1 l) (InnerN ks1 (map pid_of cs1))" "node_at ?ps (st_pages s1 q) (InnerN (ks[a := k]) (map pid_of cs))"
    using K(1) by auto
  have keep: "kids ?ps (st_pages s1) h l' h' ks' cs'" if "kids ?ps (st_pages s) h l' h' ks' cs'"
    "set (concat (map pids cs')) \<subseteq> G" for l' h' ks' cs'
    by (rule kids_shrinks [OF s1(2) that(1)]) (use that(2) Q(4,5,7) in blast)+
  have len: "length cs1 = Suc (length ks1)" using K(2) by (simp add: kids_def)
  have K1: "kids ?ps (st_pages s1) h (lo_of lo ks a) (unat k) ks1 cs1" "kids ?ps (st_pages s1) h (unat k) (unat (ks ! a)) [] [e]"
    using kids_split [OF K(2), of "length ks1"] len by (auto intro!: keep simp: G_def)
  have K2: "kids ?ps (st_pages s1) h (unat (ks ! a)) (hi_of hi ks (Suc a)) ks2 cs2" by (rule keep [OF B(3)]) (simp add: G_def)
  have m: "unat (ks ! a) < hi_of hi ks (Suc a)" by (rule separator_below [OF Fr(3,6)])
  have k: "lo_of lo ks a < unat k" "unat k < unat (ks ! a)" using K(2) by (auto simp: kids_def keys_between_def)
  let ?t1 = "Inner l ks1 cs1" and ?t2 = "Inner p (ks ! a # ks2) (e # cs2)"
  have t1: "bt_ok ?ps (st_pages s1) (Suc h) (lo_of lo ks a) (unat k) ?t1"
    by (rule bt_ok_InnerI [OF s1(5) K1(1) A(2)])
  have t2: "bt_ok ?ps (st_pages s1) (Suc h) (unat k) (hi_of hi ks (Suc a)) ?t2"
    by (rule bt_ok_InnerI [OF s1(4) kids_append [OF K1(2) K2 k(2) m, simplified]]) simp
  have W: "{p, l, q} \<subseteq> {q} \<union> set (pids (cs ! a)) \<union> set (pids (cs ! Suc a))" using Q(8) by auto
  note R = frame_rotate [OF fr s1(2) W t1 _ t2 _ k(1) less_trans [OF k(2) m] s1(6) _ s1(3), simplified A(1) B(1)]
  have "tree_step s fl s1 fl {} U"
    by (rule tree_step_of_shrinks [OF s1(2)]) (use Q(1-3) eU B(2) K(1) Fr(2) in auto)
  moreover have "hole_node s1 fl H c (Suc h) lo hi q (ks[a := k]) (cs[a := ?t1, Suc a := ?t2])"
    "set (q # concat (map pids (cs[a := ?t1, Suc a := ?t2])) @ ctx_pids c) = U"
    unfolding U_def using R by simp_all
  moreover have "concat (map entries (cs[a := ?t1, Suc a := ?t2])) = concat (map entries cs)"
    "concat (map leaves (cs[a := ?t1, Suc a := ?t2])) = concat (map leaves cs)"
    by (rule concat_same [OF Q(9)], simp add: A(1) B(1))+
  ultimately show ?thesis
    unfolding rebalanced_def s1(1) U_def by (metis Diff_empty length_list_update)
qed

lemma rebalanced_merge:
  assumes fr: "frame_ok s fl H c (Suc h) lo hi q ks cs a"
    and A: "cs ! a = Inner l ks1 cs1" "node_at (unat (st_page_size s)) (st_pages s l) (InnerN ks1 (map pid_of cs1))"
      "kids (unat (st_page_size s)) (st_pages s) h (lo_of lo ks a) (unat (ks ! a)) ks1 cs1"
    and B: "cs ! Suc a = Inner r ks2 cs2" "node_at (unat (st_page_size s)) (st_pages s r) (InnerN ks2 (map pid_of cs2))"
      "kids (unat (st_page_size s)) (st_pages s) h (unat (ks ! a)) (hi_of hi ks (Suc a)) ks2 cs2"
    and space: "length ks1 + length ks2 < inner_cap (unat (st_page_size s))"
  shows "rebalanced s fl H c (Suc h) lo hi q cs (length ks - 1) (merge_internal s l r q a)"
proof -
  let ?ps = "unat (st_page_size s)"
  note Fr = frame_okD [OF fr] and P = inner_pair_pages [OF fr A(1) B(1)]
  define U where "U = set (q # concat (map pids cs) @ ctx_pids c)"
  define G where "G = set (concat (map pids cs1)) \<union> set (concat (map pids cs2))"
  note Q = P [folded U_def G_def]
  have c2: "set (map pid_of cs2) \<subseteq> U" "q \<notin> set (map pid_of cs2)" using Q(10) Q(4,5) by auto
  have "\<forall>x \<in> set (map pid_of cs2). in_use s fl x" using c2(1) Q(7) by blast
  from merge_internal_nodes [OF Fr(1) Q(7) Q(7) Q(7) _ A(2) B(2) Fr(2,6) space this c2(2), OF Q(1-3,6)]
  obtain s1 where s1: "merge_internal s l r q a = s1"
    "shrinks s fl s1 (r # fl) {r} {l, q} ({l, q} \<union> set (map pid_of cs2))" "root_id s1 = root_id s"
    "node_at ?ps (st_pages s1 l) (InnerN (ks1 @ ks ! a # ks2) (map pid_of (cs1 @ cs2)))"
    "node_at ?ps (st_pages s1 q) (InnerN (list_remove a ks) (list_remove (Suc a) (map pid_of cs)))"
    by auto
  have keep: "kids ?ps (st_pages s1) h l' h' ks' cs'" if "kids ?ps (st_pages s) h l' h' ks' cs'"
    "set (concat (map pids cs')) \<subseteq> G" for l' h' ks' cs'
    by (rule kids_shrinks [OF s1(2) that(1)]) (use that(2) Q(4,5,7) in blast)+
  have K1: "kids ?ps (st_pages s1) h (lo_of lo ks a) (unat (ks ! a)) ks1 cs1" by (rule keep [OF A(3)]) (simp add: G_def)
  have K2: "kids ?ps (st_pages s1) h (unat (ks ! a)) (hi_of hi ks (Suc a)) ks2 cs2" by (rule keep [OF B(3)]) (simp add: G_def)
  let ?t = "Inner l (ks1 @ ks ! a # ks2) (cs1 @ cs2)"
  have t: "bt_ok ?ps (st_pages s1) (Suc h) (lo_of lo ks a) (hi_of hi ks (Suc a)) ?t"
    by (rule bt_ok_InnerI [OF s1(4) kids_append [OF K1 K2 separator_above [OF Fr(3,4,6)] separator_below [OF Fr(3,6)]]]) simp
  have W: "{l, q} \<subseteq> {q} \<union> set (pids (cs ! a)) \<union> set (pids (cs ! Suc a))" using Q(8) by auto
  note R = frame_merge [OF fr s1(2) W t _ s1(5) _ s1(3), simplified A(1) B(1)]
  have "tree_step s fl s1 (r # fl) {r} U"
    by (rule tree_step_of_shrinks [OF s1(2)]) (use Q(1-3) c2 A(2) Fr(2) in auto)
  moreover have "hole_node s1 (r # fl) H c (Suc h) lo hi q (list_remove a ks) ((list_remove (Suc a) cs)[a := ?t])"
    "set (q # concat (map pids ((list_remove (Suc a) cs)[a := ?t])) @ ctx_pids c) = U - {r}"
    unfolding U_def using R by simp_all
  moreover have "concat (map entries ((list_remove (Suc a) cs)[a := ?t])) = concat (map entries cs)"
    "concat (map leaves ((list_remove (Suc a) cs)[a := ?t])) = concat (map leaves cs)"
    by (rule concat_merged [OF Q(9)], simp add: A(1) B(1))+
  moreover have "length (list_remove a ks) = length ks - 1" using Fr(6) by (rule length_list_remove)
  ultimately show ?thesis
    unfolding rebalanced_def s1(1) U_def by metis
qed

section \<open>Up to the root\<close>

text \<open>A tree of the pages \<open>U\<close> that are left, with the entries \<open>E\<close> and the leaves \<open>L\<close>.\<close>

definition tree_left :: "store \<Rightarrow> page_id list \<Rightarrow> page_id set \<Rightarrow> leaf_entry list \<Rightarrow> page_id list \<Rightarrow> store \<Rightarrow> bool" where
  "tree_left s fl U E L s' \<longleftrightarrow> (\<exists>fl' F H t. tree_step s fl s' fl' F U
     \<and> bt_ok (unat (st_page_size s)) (st_pages s') H 0 (2 ^ 64) t \<and> pid_of t = root_id s'
     \<and> entries t = E \<and> leaves t = L \<and> distinct (pids t) \<and> set (pids t) = U - F)"

lemma tree_left_trans:
  assumes "tree_step s fl s1 fl1 F U" "tree_left s1 fl1 (U - F) E L s'"
  shows "tree_left s fl U E L s'"
proof -
  have ps: "st_page_size s1 = st_page_size s" using assms(1) shrinksD(2) by (auto simp: tree_step_def)
  from assms(2) obtain fl' F' H t where T: "tree_step s1 fl1 s' fl' F' (U - F)"
     "bt_ok (unat (st_page_size s1)) (st_pages s') H 0 (2 ^ 64) t" "pid_of t = root_id s'"
     "entries t = E" "leaves t = L" "distinct (pids t)" "set (pids t) = U - F - F'" unfolding tree_left_def by blast
  have "set (pids t) = U - (F \<union> F')" using T(7) by blast
  then show ?thesis unfolding tree_left_def using tree_step_trans [OF assms(1) T(1)] T(2-6) ps by metis
qed

lemma tree_left_hole:
  assumes hn: "hole_node s fl H c h lo hi p ks cs" and ne: "ks \<noteq> []"
  shows "tree_left s fl (set (p # concat (map pids cs) @ ctx_pids c))
    (ctx_before entries c @ concat (map entries cs) @ ctx_after entries c)
    (ctx_before leaves c @ concat (map leaves cs) @ ctx_after leaves c) s"
proof -
  note h = hole_nodeD [OF hn] and idx = ctx_ok_indices [OF hole_nodeD(4) [OF hn]]
  let ?t = "plug c (Inner p ks cs)"
  have ms: "mset (pids ?t) = mset (p # concat (map pids cs) @ ctx_pids c)" by (simp add: pids_plug [OF idx])
  have "bt_ok (unat (st_page_size s)) (st_pages s) H 0 (2 ^ 64) ?t"
    by (rule plug_ok [OF h(4) bt_ok_InnerI [OF h(2,3) ne]]) (use h(5) in simp)
  moreover have "tree_step s fl s fl {} (set (p # concat (map pids cs) @ ctx_pids c))" by (rule tree_step_refl [OF h(1)])
  moreover have "distinct (pids ?t)" using mset_eq_imp_distinct_iff [OF ms] h(6) by blast
  moreover have "set (pids ?t) = set (p # concat (map pids cs) @ ctx_pids c) - {}" using mset_eq_setD [OF ms] by blast
  ultimately show ?thesis
    unfolding tree_left_def using h(8) entries_plug [OF idx, of "Inner p ks cs"] leaves_plug [OF idx, of "Inner p ks cs"]
    by (metis entries.simps(2) leaves.simps(2))
qed

lemma tree_left_rebalanced:
  assumes "rebalanced s fl H c h lo hi q cs n s1"
    and "\<And>fl1 ks' cs'. hole_node s1 fl1 H c h lo hi q ks' cs' \<Longrightarrow> length ks' = n \<Longrightarrow> st_page_size s1 = st_page_size s
      \<Longrightarrow> tree_left s1 fl1 (set (q # concat (map pids cs') @ ctx_pids c))
        (ctx_before entries c @ concat (map entries cs') @ ctx_after entries c)
        (ctx_before leaves c @ concat (map leaves cs') @ ctx_after leaves c) s'"
  shows "tree_left s fl (set (q # concat (map pids cs) @ ctx_pids c))
    (ctx_before entries c @ concat (map entries cs) @ ctx_after entries c)
    (ctx_before leaves c @ concat (map leaves cs) @ ctx_after leaves c) s'"
proof -
  from assms(1) obtain fl1 F ks' cs' where R: "hole_node s1 fl1 H c h lo hi q ks' cs'" "length ks' = n"
     "tree_step s fl s1 fl1 F (set (q # concat (map pids cs) @ ctx_pids c))"
     "set (q # concat (map pids cs') @ ctx_pids c) = set (q # concat (map pids cs) @ ctx_pids c) - F"
     "concat (map entries cs') = concat (map entries cs)" "concat (map leaves cs') = concat (map leaves cs)"
    unfolding rebalanced_def by blast
  have "st_page_size s1 = st_page_size s" using R(3) shrinksD(2) by (auto simp: tree_step_def)
  from assms(2) [OF R(1,2) this] show ?thesis unfolding R(4-6) by (rule tree_left_trans [OF R(3)])
qed

lemma tree_left_borrowed:
  assumes "rebalanced s fl H c h lo hi q cs n s1" "n \<noteq> 0"
  shows "tree_left s fl (set (q # concat (map pids cs) @ ctx_pids c))
    (ctx_before entries c @ concat (map entries cs) @ ctx_after entries c)
    (ctx_before leaves c @ concat (map leaves cs) @ ctx_after leaves c) s1"
  by (rule tree_left_rebalanced [OF assms(1)], rule tree_left_hole) (use assms(2) in auto)

text \<open>
  The stack of the write descent against the context above the node \<open>p\<close> with \<open>n\<close> separators: \<open>c1\<close>
  is the part it holds; what is above hangs from a node that can lose a separator, or lost one.
\<close>

definition stack_holds :: "nat \<Rightarrow> ctx \<Rightarrow> page_id \<Rightarrow> nat \<Rightarrow> ctx \<Rightarrow> page_id list \<Rightarrow> bool" where
  "stack_holds m c p n c1 stack \<longleftrightarrow>
     (\<exists>c2. c = c1 @ c2 \<and> (c2 \<noteq> [] \<longrightarrow> (if c1 = [] then m \<le> n else m < length (fst (snd (last c1))))))
     \<and> stack ! length c1 = p \<and> (\<forall>j < length c1. stack ! j = fst (rev c1 ! j))"

lemma stack_holds_Cons:
  assumes "stack_holds m ((q, ks, cs, i) # c) p n c1 stack" "n < m"
  obtains c1' where "c1 = (q, ks, cs, i) # c1'" "stack ! length c1' = q"
    "\<And>n'. length ks - 1 \<le> n' \<Longrightarrow> stack_holds m c q n' c1' stack"
proof -
  from assms obtain c2 where c2: "(q, ks, cs, i) # c = c1 @ c2"
    "c2 \<noteq> [] \<longrightarrow> (if c1 = [] then m \<le> n else m < length (fst (snd (last c1))))"
    and st: "\<forall>j < length c1. stack ! j = fst (rev c1 ! j)" by (auto simp: stack_holds_def)
  obtain c1' where c1: "c1 = (q, ks, cs, i) # c1'" using c2 assms(2) by (cases c1) auto
  have sq: "stack ! length c1' = q" using st c1 by (auto dest!: spec [of _ "length c1'"] simp: nth_append)
  have "stack_holds m c q n' c1' stack" if "length ks - 1 \<le> n'" for n'
  proof -
    have "c2 \<noteq> [] \<longrightarrow> (if c1' = [] then m \<le> n' else m < length (fst (snd (last c1'))))"
      using c2(2) c1 that by auto
    moreover have "\<forall>j < length c1'. stack ! j = fst (rev c1' ! j)"
      using st c1 by (auto simp: nth_append dest!: spec)
    ultimately show ?thesis using c2(1) c1 sq by (auto simp: stack_holds_def)
  qed
  with c1 sq show thesis by (rule that)
qed

lemma root_of_context: "ctx_indices_ok c \<Longrightarrow> c \<noteq> [] \<Longrightarrow> pid_of (plug c t) \<in> set (ctx_pids c)"
proof (induction c arbitrary: t)
  case (Cons f c)
  obtain p ks cs i where f: "f = (p, ks, cs, i)" by (cases f)
  then show ?case using Cons by (cases "c = []") auto
qed simp

lemma min_caps:
  assumes "store_ok s fl"
  shows "unat (min_leaf_keys (st_page_size s)) = leaf_cap (unat (st_page_size s)) div 2"
    "unat (min_internal_keys (st_page_size s)) = inner_cap (unat (st_page_size s)) div 2"
  using caps(1,2) [OF assms] by (simp_all add: min_leaf_keys_def min_internal_keys_def unat_div)

lemma tree_left_root:
  assumes hn: "hole_node s fl H [] h lo hi p [] cs"
  shows "tree_left s fl (set (p # concat (map pids cs))) (concat (map entries cs)) (concat (map leaves cs)) (shrink_root s p)"
proof -
  note h = hole_nodeD [OF hn]
  obtain t where cs: "cs = [t]" using h(9) by (cases cs) auto
  have b: "lo = 0" "hi = 2 ^ 64" using h(4) by simp_all
  have t: "bt_ok (unat (st_page_size s)) (st_pages s) h 0 (2 ^ 64) t"
    using h(12) [of 0] b by (simp add: cs lo_of_def hi_of_def)
  have pt: "pid_of t \<in> set (pids t)" by (rule pid_of_in_pids)
  have u: "in_use s fl p" "\<forall>x \<in> set (pids t). in_use s fl x" "p \<notin> set (pids t)" "distinct (pids t)"
    using h(6,7) by (auto simp: cs)
  have n: "node_at (unat (st_page_size s)) (st_pages s p) (InnerN [] [pid_of t])" using h(2) by (simp add: cs)
  from shrink_root_nodes(2) [OF h(1) u(1) n refl refl] u pt
  obtain s' where s': "shrink_root s p = s'" "shrinks s fl s' (p # fl) {p} {} {pid_of t}" "root_id s' = pid_of t" by blast
  have st: "tree_step s fl s' (p # fl) {p} (set (p # pids t))"
    by (rule tree_step_of_shrinks [OF s'(2)]) (use pt in auto)
  moreover have "bt_ok (unat (st_page_size s)) (st_pages s') h 0 (2 ^ 64) t"
    by (rule bt_ok_shrinks [OF s'(2) t]) (use u in auto)
  moreover have "set (pids t) = set (p # pids t) - {p}" using u(3) by auto
  ultimately have "tree_left s fl (set (p # pids t)) (entries t) (leaves t) s'"
    unfolding tree_left_def using s'(3) u(4) by metis
  then show ?thesis unfolding s'(1) by (simp add: cs)
qed

text \<open>A sibling as an inner node with its count.\<close>

lemma inner_sibling:
  assumes "bt_ok ps pg (Suc h) lo hi t"
  obtains p ks cs where "t = Inner p ks cs" "node_at ps (pg p) (InnerN ks (map pid_of cs))" "kids ps pg h lo hi ks cs" "ks \<noteq> []"
    "unat (iph_key_count (get_internal_hdr (pg (pid_of t)))) = length ks" "length cs = Suc (length ks)"
  using assms by (elim bt_ok_SucE) (auto simp: kids_def seps_above_def dest: node_at_innerD(2))

lemma fix_internal_ok:
  assumes hn: "hole_node s fl H ((q, qks, qcs, i) # c) h lo hi p ks cs"
    and short: "length ks < inner_cap (unat (st_page_size s)) div 2" and lev: "stack ! level = q"
  defines "cs0 \<equiv> qcs[i := Inner p ks cs]"
  assumes cont: "\<And>plo phi s1. rebalanced s fl H c (Suc h) plo phi q cs0 (length qks - 1) s1 \<Longrightarrow>
      tree_left s fl (set (q # concat (map pids cs0) @ ctx_pids c))
        (ctx_before entries c @ concat (map entries cs0) @ ctx_after entries c)
        (ctx_before leaves c @ concat (map leaves cs0) @ ctx_after leaves c) (propagate_delete s1 stack level)"
  shows "tree_left s fl (set (q # concat (map pids cs0) @ ctx_pids c))
        (ctx_before entries c @ concat (map entries cs0) @ ctx_after entries c)
        (ctx_before leaves c @ concat (map leaves cs0) @ ctx_after leaves c) (fix_internal_underflow s stack p (Suc level))"
proof -
  let ?ps = "unat (st_page_size s)" and ?pg = "st_pages s" and ?m = "inner_cap (unat (st_page_size s)) div 2"
  note h = hole_nodeD [OF hn] and C = caps [OF hole_nodeD(1) [OF hn]] and M = min_caps [OF hole_nodeD(1) [OF hn]]
  obtain plo phi where P: "lo = lo_of plo qks i" "hi = hi_of phi qks i" "i < Suc (length qks)" "length qcs = Suc (length qks)"
    "\<And>a. a < length qks \<Longrightarrow> i = a \<or> i = Suc a \<Longrightarrow> frame_ok s fl H c (Suc h) plo phi q qks cs0 a"
    "\<And>j. j < length qcs \<Longrightarrow> j \<noteq> i \<Longrightarrow> bt_ok ?ps ?pg (Suc h) (lo_of plo qks j) (hi_of phi qks j) (qcs ! j)"
    "node_at ?ps (?pg q) (InnerN qks (map pid_of cs0))"
    using frame_at_hole [OF h(1,4), of "Inner p ks cs"] h(5-8) unfolding cs0_def by auto
  have nq: "0 < length qks"
    using h(4) by (auto simp: seps_above_def)
  have len: "length cs0 = Suc (length qks)" "i < length cs0" using P(3,4) by (simp_all add: cs0_def)
  have at: "cs0 ! i = Inner p ks cs" "\<And>j. j \<noteq> i \<Longrightarrow> cs0 ! j = qcs ! j" using len by (simp_all add: cs0_def)
  have cnt: "unat (iph_key_count (get_internal_hdr (?pg q))) = length qks" using node_at_innerD(2) [OF P(7)] .
  have child: "internal_child (?pg q) j = pid_of (cs0 ! j)" if "j < length cs0" for j
    using internal_child_inner [OF P(7)] that len by simp
  have "distinct (map pid_of cs0)"
  proof (rule distinct_pid_of)
    have "\<exists>a < length qks. i = a \<or> i = Suc a" using nq P(3) by (cases i) auto
    then show "distinct (concat (map pids cs0))" using frame_okD(11) [OF P(5)] by auto
  qed
  from find_child_idx_nth [OF P(7) this, of i] have fi: "find_child_idx (?pg q) p = Some i" using len at by simp
  have gt: "iph_key_count (get_internal_hdr (?pg x)) > min_internal_keys (st_page_size s) \<longleftrightarrow> ?m < n"
    if "unat (iph_key_count (get_internal_hdr (?pg x))) = n" for x n
    using that M(2) by (simp add: word_less_nat_alt)
  have mlt: "?m < inner_cap ?ps" "2 \<le> ?m" using C(4) by simp_all
  note unf = fix_internal_underflow.simps(2) [of s stack p level, unfolded lev Let_def fi option.case cnt]
  consider (right) "i < length qks" "?m < unat (iph_key_count (get_internal_hdr (?pg (internal_child (?pg q) (i + 1)))))"
    | (left) "\<not> (i < length qks \<and> iph_key_count (get_internal_hdr (?pg (internal_child (?pg q) (i + 1)))) > min_internal_keys (st_page_size s))"
        "0 < i" "?m < unat (iph_key_count (get_internal_hdr (?pg (internal_child (?pg q) (i - 1)))))"
    | (merge) "\<not> (i < length qks \<and> iph_key_count (get_internal_hdr (?pg (internal_child (?pg q) (i + 1)))) > min_internal_keys (st_page_size s))"
        "0 < i" "\<not> ?m < unat (iph_key_count (get_internal_hdr (?pg (internal_child (?pg q) (i - 1)))))"
    | (first) "\<not> (i < length qks \<and> iph_key_count (get_internal_hdr (?pg (internal_child (?pg q) (i + 1)))) > min_internal_keys (st_page_size s))"
        "i = 0"
    using gt by blast
  then show ?thesis
  proof cases
    case right
    note fr = P(5) [OF right(1)]
    have b: "bt_ok ?ps ?pg (Suc h) (unat (qks ! i)) (hi_of phi qks (Suc i)) (cs0 ! Suc i)"
      using P(6) [of "Suc i"] right(1) P(4) at by (simp add: lo_of_def)
    obtain r rks rcs where R: "cs0 ! Suc i = Inner r rks rcs" "unat (iph_key_count (get_internal_hdr (?pg r))) = length rks"
      "length rcs = Suc (length rks)" using inner_sibling [OF b] by (metis pid_of.simps(2))
    have rp: "internal_child (?pg q) (i + 1) = r" using child [of "Suc i"] right(1) len R(1) by simp
    have "2 < length rks" using right(2) mlt R(2) rp by simp
    then obtain k ks2 where ks2: "rks = k # ks2" "ks2 \<noteq> []"
      by (cases rks; cases "tl rks") auto
    obtain e cs2 where cs2: "rcs = e # cs2" using R(3) by (cases rcs) auto
    have "fix_internal_underflow s stack p (Suc level) = borrow_right_internal s p r q i"
      using right rp gt [OF refl] unfolding unf by simp
    then show ?thesis
      using tree_left_borrowed [OF rebalanced_borrow_right [OF fr at(1) h(2) _ R(1) [unfolded ks2(1) cs2] ks2(2) b]] h(3) P(1,2)
        right(1) short mlt nq by (simp add: hi_of_def)
  next
    case left
    then obtain a where a: "i = Suc a" by (cases i) auto
    then have al: "a < length qks" using P(3) by simp
    note fr = P(5) [OF al]
    have b: "bt_ok ?ps ?pg (Suc h) (lo_of plo qks a) (unat (qks ! a)) (cs0 ! a)"
      using P(6) [of a] al P(4) at(2) [of a] a by (simp add: hi_of_def)
    obtain l lks lcs where R: "cs0 ! a = Inner l lks lcs" "unat (iph_key_count (get_internal_hdr (?pg l))) = length lks"
      "length lcs = Suc (length lks)" using inner_sibling [OF b] by (metis pid_of.simps(2))
    have lp: "internal_child (?pg q) (i - 1) = l" using child [of a] al len R(1) a by simp
    have "2 < length lks" using left(3) mlt R(2) lp by simp
    then have "lks \<noteq> []" "length (butlast lks) \<noteq> 0" by auto
    then have "lks = butlast lks @ [last lks]" "butlast lks \<noteq> []" by (simp, metis list.size(3))
    then obtain ks1 k where ks1: "lks = ks1 @ [k]" "ks1 \<noteq> []" by blast
    obtain cs1 e where cs1: "lcs = cs1 @ [e]" using R(3) by (cases lcs rule: rev_cases) auto
    have "fix_internal_underflow s stack p (Suc level) = borrow_left_internal s p l q a"
      using left(1,3) lp gt [OF refl] a unfolding unf by auto
    then show ?thesis
      using tree_left_borrowed [OF rebalanced_borrow_left [OF fr R(1) [unfolded ks1(1) cs1] ks1(2) b at(1) [unfolded a] h(2)]] h(3)
        P(1,2) a short mlt nq by (simp add: lo_of_def)
  next
    case merge
    then obtain a where a: "i = Suc a" by (cases i) auto
    then have al: "a < length qks" using P(3) by simp
    note fr = P(5) [OF al]
    obtain l lks lcs where R: "cs0 ! a = Inner l lks lcs" "unat (iph_key_count (get_internal_hdr (?pg l))) = length lks"
      "node_at ?ps (?pg l) (InnerN lks (map pid_of lcs))" "kids ?ps ?pg h (lo_of plo qks a) (unat (qks ! a)) lks lcs"
      using P(6) [of a] al P(4) at(2) [of a] a by (auto simp: hi_of_def elim!: inner_sibling)
    have lp: "internal_child (?pg q) (i - 1) = l" using child [of a] al len R(1) a by simp
    have "length lks + length ks < inner_cap ?ps" using merge(3) lp R(2) short by simp
    moreover have "fix_internal_underflow s stack p (Suc level) = propagate_delete (merge_internal s l p q a) stack level"
      using merge(1,3) lp gt [OF refl] a unfolding unf by auto
    ultimately show ?thesis
      using cont [OF rebalanced_merge [OF fr R(1,3,4) at(1) [unfolded a] h(2)]] h(3) P(1,2) a by (simp add: lo_of_def)
  next
    case first
    note fr = P(5) [OF nq]
    obtain r rks rcs where R: "cs0 ! Suc 0 = Inner r rks rcs" "unat (iph_key_count (get_internal_hdr (?pg r))) = length rks"
      "node_at ?ps (?pg r) (InnerN rks (map pid_of rcs))" "kids ?ps ?pg h (unat (qks ! 0)) (hi_of phi qks (Suc 0)) rks rcs"
      using P(6) [of "Suc 0"] nq P(4) at(2) [of "Suc 0"] first(2) by (auto simp: lo_of_def elim!: inner_sibling)
    have rp: "internal_child (?pg q) 1 = r" using child [of "Suc 0"] nq len R(1) by simp
    have "\<not> ?m < length rks" using first nq rp gt [OF R(2)] by simp
    then have "length ks + length rks < inner_cap ?ps" using short by simp
    moreover have "fix_internal_underflow s stack p (Suc level) = propagate_delete (merge_internal s p r q 0) stack level"
      using first rp unfolding unf by auto
    ultimately show ?thesis
      using cont [OF rebalanced_merge [OF fr at(1) [unfolded first(2)] h(2) _ R(1,3,4)]] h(3) P(1,2) first(2) nq
      by (simp add: hi_of_def)
  qed
qed

lemma propagate_delete_ok:
  assumes "hole_node s fl H c h lo hi p ks cs"
    and "stack_holds (inner_cap (unat (st_page_size s)) div 2) c p (length ks) c1 stack"
  shows "tree_left s fl (set (p # concat (map pids cs) @ ctx_pids c))
    (ctx_before entries c @ concat (map entries cs) @ ctx_after entries c)
    (ctx_before leaves c @ concat (map leaves cs) @ ctx_after leaves c) (propagate_delete s stack (length c1))"
  using assms
proof (induction c arbitrary: s fl h lo hi p ks cs c1)
  case Nil
  note h = hole_nodeD [OF Nil.prems(1)]
  have "c1 = []" "stack ! 0 = p" using Nil.prems(2) by (auto simp: stack_holds_def)
  moreover have "p = root_id s" using h(8) by simp
  ultimately have eq: "propagate_delete s stack (length c1) = shrink_root s p" by (simp add: propagate_delete.simps)
  show ?case
  proof (cases "ks = []")
    case True
    then show ?thesis unfolding eq using tree_left_root [OF Nil.prems(1) [unfolded True]] by simp
  next
    case False
    then have "shrink_root s p = s" using shrink_root_nodes(1) [OF h(1) h(7) h(2)] by simp
    then show ?thesis unfolding eq using tree_left_hole [OF Nil.prems(1) False] by simp
  qed
next
  case (Cons f c)
  let ?m = "inner_cap (unat (st_page_size s)) div 2"
  note h = hole_nodeD [OF Cons.prems(1)] and C = caps [OF hole_nodeD(1) [OF Cons.prems(1)]]
  obtain q qks qcs i where f: "f = (q, qks, qcs, i)" by (cases f)
  note idx = ctx_ok_indices [OF h(4)]
  have "p \<noteq> root_id s" using root_of_context [OF idx, of "Inner p ks cs"] h(6,8) by auto
  moreover have "stack ! length c1 = p" using Cons.prems(2) by (simp add: stack_holds_def)
  moreover have "iph_key_count (get_internal_hdr (st_pages s p)) \<ge> min_internal_keys (st_page_size s) \<longleftrightarrow> ?m \<le> length ks"
    using node_at_innerD(2) [OF h(2)] min_caps(2) [OF h(1)] by (simp add: word_le_nat_alt)
  ultimately have eq: "propagate_delete s stack (length c1)
      = (if ?m \<le> length ks then s else fix_internal_underflow s stack p (length c1))"
    by (simp add: propagate_delete.simps Let_def)
  show ?case
  proof (cases "?m \<le> length ks")
    case True
    then have "ks \<noteq> []" using C(4) by auto
    then show ?thesis using tree_left_hole [OF Cons.prems(1)] eq True by simp
  next
    case False
    then have short: "length ks < ?m" by simp
    obtain c1' where c1: "c1 = (q, qks, qcs, i) # c1'" "stack ! length c1' = q"
      "\<And>n'. length qks - 1 \<le> n' \<Longrightarrow> stack_holds ?m c q n' c1' stack"
      using stack_holds_Cons [OF Cons.prems(2) [unfolded f] short] by metis
    have i: "i < length qcs" using idx f by simp
    have st: "set (q # concat (map pids (qcs[i := Inner p ks cs])) @ ctx_pids c) = set (p # concat (map pids cs) @ ctx_pids (f # c))"
      by (auto simp: concat_map_update [OF i] f)
    have fix_ok: "tree_left s fl (set (q # concat (map pids (qcs[i := Inner p ks cs])) @ ctx_pids c))
        (ctx_before entries c @ concat (map entries (qcs[i := Inner p ks cs])) @ ctx_after entries c)
        (ctx_before leaves c @ concat (map leaves (qcs[i := Inner p ks cs])) @ ctx_after leaves c)
        (fix_internal_underflow s stack p (Suc (length c1')))"
    proof (rule fix_internal_ok [OF Cons.prems(1) [unfolded f] short c1(2)])
      fix plo phi s1
      assume R: "rebalanced s fl H c (Suc h) plo phi q (qcs[i := Inner p ks cs]) (length qks - 1) s1"
      show "tree_left s fl (set (q # concat (map pids (qcs[i := Inner p ks cs])) @ ctx_pids c))
        (ctx_before entries c @ concat (map entries (qcs[i := Inner p ks cs])) @ ctx_after entries c)
        (ctx_before leaves c @ concat (map leaves (qcs[i := Inner p ks cs])) @ ctx_after leaves c)
        (propagate_delete s1 stack (length c1'))"
      proof (rule tree_left_rebalanced [OF R])
        fix fl1 ks' cs'
        assume n: "hole_node s1 fl1 H c (Suc h) plo phi q ks' cs'" "length ks' = length qks - 1" "st_page_size s1 = st_page_size s"
        have "stack_holds (inner_cap (unat (st_page_size s1)) div 2) c q (length ks') c1' stack"
          unfolding n(2,3) by (rule c1(3) [OF order_refl])
        then show "tree_left s1 fl1 (set (q # concat (map pids cs') @ ctx_pids c))
          (ctx_before entries c @ concat (map entries cs') @ ctx_after entries c)
          (ctx_before leaves c @ concat (map leaves cs') @ ctx_after leaves c) (propagate_delete s1 stack (length c1'))"
          by (rule Cons.IH [OF n(1)])
      qed
    qed
    then have "tree_left s fl (set (p # concat (map pids cs) @ ctx_pids (f # c)))
      (ctx_before entries (f # c) @ concat (map entries cs) @ ctx_after entries (f # c))
      (ctx_before leaves (f # c) @ concat (map leaves cs) @ ctx_after leaves (f # c))
      (fix_internal_underflow s stack p (Suc (length c1')))"
      unfolding st by (simp add: f concat_map_update [OF i])
    then show ?thesis using eq False c1(1) by simp
  qed
qed

end
