(* ===== verification/BPlus_Leaves.thy ===== *)
theory BPlus_Leaves
  imports BPlus_Delete
begin

text \<open>
  \<open>fix_leaf_underflow\<close>: a leaf with too few entries takes one from a neighbour or is merged with it;
  the chain of leaves follows. With it \<open>bptree_delete\<close> removes a key from the index.
\<close>

section \<open>Rebalancing two leaves\<close>

definition leaves_rebalanced :: "store \<Rightarrow> page_id list \<Rightarrow> nat \<Rightarrow> ctx \<Rightarrow> nat \<Rightarrow> nat \<Rightarrow> page_id \<Rightarrow> bt list \<Rightarrow> nat \<Rightarrow> store \<Rightarrow> bool" where
  "leaves_rebalanced s fl H c lo hi q cs n s1 \<longleftrightarrow> (\<exists>fl1 F ks' cs'.
     hole_node s1 fl1 H c 0 lo hi q ks' cs' \<and> length ks' = n
     \<and> shrinks s fl s1 fl1 F (set (q # concat (map pids cs) @ ctx_pids c)) (set (q # concat (map pids cs) @ ctx_pids c))
     \<and> F \<subseteq> set (q # concat (map pids cs) @ ctx_pids c)
     \<and> set (q # concat (map pids cs') @ ctx_pids c) = set (q # concat (map pids cs) @ ctx_pids c) - F
     \<and> concat (map entries cs') = concat (map entries cs)
     \<and> leaf_links (unat (st_page_size s)) (st_pages s1) (ctx_before leaves c @ concat (map leaves cs') @ ctx_after leaves c) 0)"

lemma leaf_pair_pages:
  assumes fr: "frame_ok s fl H c h lo hi q ks cs a" and A: "cs ! a = Leaf p es1" and B: "cs ! Suc a = Leaf r es2"
  defines "U \<equiv> set (q # concat (map pids cs) @ ctx_pids c)"
  shows "p \<in> U" "r \<in> U" "q \<in> U" "distinct [p, r, q]" "x \<in> U \<Longrightarrow> in_use s fl x" "Suc a < length cs"
    "{p, r, q} \<subseteq> {q} \<union> set (pids (cs ! a)) \<union> set (pids (cs ! Suc a))"
proof -
  note Fr = frame_okD [OF fr] and P = frame_pages [OF fr]
  show l: "Suc a < length cs" using Fr(5,6) by simp
  have sub: "set (pids (cs ! a)) \<subseteq> U" "set (pids (cs ! Suc a)) \<subseteq> U"
    using P(4) [of a] P(4) [of "Suc a"] l unfolding U_def by auto
  have d: "distinct (q # pids (cs ! a) @ pids (cs ! Suc a))"
    using mset_eq_imp_distinct_iff [OF P(5) [unfolded mset_append [symmetric]]] Fr(11) by auto
  show "p \<in> U" "r \<in> U" using sub by (auto simp: A B)
  show "q \<in> U" by (simp add: U_def)
  show "distinct [p, r, q]" using d by (auto simp: A B)
  show "x \<in> U \<Longrightarrow> in_use s fl x" using Fr(12) unfolding U_def by blast
  show "{p, r, q} \<subseteq> {q} \<union> set (pids (cs ! a)) \<union> set (pids (cs ! Suc a))" by (auto simp: A B)
qed

lemma leaf_find_all: "sorted_wrt (<) (map le_key es) \<Longrightarrow> \<forall>k \<in> set (map le_key es). k < key \<Longrightarrow> leaf_find es key = length es"
  by (simp add: leaf_find_sorted takeWhile_eq_all_conv [THEN iffD2])

lemma leaf_find_none: "sorted_wrt (<) (map le_key es) \<Longrightarrow> \<forall>k \<in> set (map le_key es). key < k \<Longrightarrow> leaf_find es key = 0"
  by (cases es) (auto simp: leaf_find_sorted)

lemma links_of_context:
  assumes fr: "frame_ok s fl H c h lo hi q ks cs a"
    and "x \<in> set (ctx_before leaves c @ concat (map leaves cs) @ ctx_after leaves c)"
  shows "x \<in> set (q # concat (map pids cs) @ ctx_pids c)"
proof -
  note idx = ctx_ok_indices [OF frame_okD(9) [OF fr]]
  have "x \<in> set (leaves (plug c (Inner q ks cs)))" using assms(2) by (simp add: leaves_plug [OF idx])
  then have "x \<in> set (pids (plug c (Inner q ks cs)))" using leaves_subset by blast
  then show ?thesis using mset_eq_setD [OF pids_plug [OF idx, of "Inner q ks cs", unfolded mset_append [symmetric]]] by auto
qed

lemma links_borrowed:
  assumes fr: "frame_ok s fl H c h lo hi q ks cs a" and sh: "shrinks s fl s1 fl {} {p, r, q} T"
    and links: "leaf_links (unat (st_page_size s)) (st_pages s) (ctx_before leaves c @ concat (map leaves cs) @ ctx_after leaves c) 0"
    and p: "node_at (unat (st_page_size s)) (st_pages s p) (LeafN nx es)" "node_at (unat (st_page_size s)) (st_pages s1 p) (LeafN nx es')"
    and r: "node_at (unat (st_page_size s)) (st_pages s r) (LeafN nr er)" "node_at (unat (st_page_size s)) (st_pages s1 r) (LeafN nr er')"
  shows "leaf_links (unat (st_page_size s)) (st_pages s1) (ctx_before leaves c @ concat (map leaves cs) @ ctx_after leaves c) 0"
proof (rule leaf_links_keep [OF links])
  fix x n ex assume x: "x \<in> set (ctx_before leaves c @ concat (map leaves cs) @ ctx_after leaves c)"
    "node_at (unat (st_page_size s)) (st_pages s x) (LeafN n ex)"
  have "in_use s fl x" using links_of_context [OF fr x(1)] frame_okD(12) [OF fr] by blast
  then have u: "in_use s1 fl x" using shrinksD(6) [OF sh] by blast
  have "x \<noteq> q" using x(2) frame_okD(2) [OF fr] by (auto simp: node_at_def)
  then show "\<exists>es'. node_at (unat (st_page_size s)) (st_pages s1 x) (LeafN n es')"
    using shrinksD(9) [OF sh u _ x(2)] p r x(2) by (cases "x = p"; cases "x = r") (auto simp: node_at_def)
qed

lemma leaf_borrow_right:
  assumes fr: "frame_ok s fl H c 0 lo hi q ks cs a"
    and A: "cs ! a = Leaf p es" "node_at (unat (st_page_size s)) (st_pages s p) (LeafN nx es)"
      "keys_between (lo_of lo ks a) (unat (ks ! a)) (map le_key es)"
    and B: "cs ! Suc a = Leaf r (b # es')" "es' \<noteq> []"
      "bt_ok (unat (st_page_size s)) (st_pages s) 0 (unat (ks ! a)) (hi_of hi ks (Suc a)) (cs ! Suc a)"
    and space: "length es < leaf_cap (unat (st_page_size s))"
    and links: "leaf_links (unat (st_page_size s)) (st_pages s) (ctx_before leaves c @ concat (map leaves cs) @ ctx_after leaves c) 0"
  shows "leaves_rebalanced s fl H c lo hi q cs (length ks) (borrow_right_leaf s p r q a)"
proof -
  let ?ps = "unat (st_page_size s)" and ?k = "le_key (hd es')"
  note Fr = frame_okD [OF fr] and P = leaf_pair_pages [OF fr A(1) B(1)]
  define U where "U = set (q # concat (map pids cs) @ ctx_pids c)"
  note Q = P [folded U_def]
  obtain nr where R: "node_at ?ps (st_pages s r) (LeafN nr (b # es'))"
    and kb: "keys_between (unat (ks ! a)) (hi_of hi ks (Suc a)) (map le_key (b # es'))"
    using B(3) unfolding B(1) bt_ok_Leaf by blast
  have m: "lo_of lo ks a < unat (ks ! a)" by (rule separator_above [OF Fr(3,4,6)])
  obtain b' es'' where es': "es' = b' # es''" using B(2) by (cases es') auto
  have k: "unat (ks ! a) \<le> unat (le_key b)" "unat (le_key b) < unat ?k" "unat ?k < hi_of hi ks (Suc a)"
    using kb by (auto simp: es' keys_between_def word_less_nat_alt)
  have "\<forall>x \<in> set (map le_key es). x < le_key b"
    using A(3) k(1) unfolding keys_between_def word_less_nat_alt by fastforce
  then have find: "leaf_find es (le_key b) = length es" using A(3) by (intro leaf_find_all) (simp_all add: keys_between_def)
  from borrow_right_leaf_nodes [OF Fr(1) Q(5) Q(5) Q(5) _ A(2) R B(2) Fr(2,6) space find, OF Q(1-4)]
  obtain s1 where s1: "borrow_right_leaf s p r q a = s1" "shrinks s fl s1 fl {} {p, r, q} {p, r, q}" "root_id s1 = root_id s"
    "node_at ?ps (st_pages s1 p) (LeafN nx (es @ [b]))" "node_at ?ps (st_pages s1 r) (LeafN nr es')"
    "node_at ?ps (st_pages s1 q) (InnerN (ks[a := ?k]) (map pid_of cs))" by auto
  let ?t1 = "Leaf p (es @ [b])" and ?t2 = "Leaf r es'"
  have "keys_between (lo_of lo ks a) (unat ?k) (map le_key (es @ [b]))"
    using A(3) k(1,2) m unfolding keys_between_def by (fastforce simp: sorted_wrt_append word_less_nat_alt)
  then have t1: "bt_ok ?ps (st_pages s1) 0 (lo_of lo ks a) (unat ?k) ?t1" using s1(4) by (blast intro: bt_ok.leaf)
  have "keys_between (unat ?k) (hi_of hi ks (Suc a)) (map le_key es')"
    using kb by (auto simp: es' keys_between_def word_le_nat_alt word_less_nat_alt)
  then have t2: "bt_ok ?ps (st_pages s1) 0 (unat ?k) (hi_of hi ks (Suc a)) ?t2" using s1(5) by (blast intro: bt_ok.leaf)
  have m2: "lo_of lo ks a < unat ?k" using m k(1,2) by linarith
  note F = frame_rotate [OF fr s1(2) Q(7) t1 _ t2 _ m2 k(3) s1(6) _ s1(3), simplified A(1) B(1)]
  have "shrinks s fl s1 fl {} U U" by (rule shrinks_mono [OF s1(2)]) (use Q(1-3) in auto)
  moreover have "hole_node s1 fl H c 0 lo hi q (ks[a := ?k]) (cs[a := ?t1, Suc a := ?t2])"
    "set (q # concat (map pids (cs[a := ?t1, Suc a := ?t2])) @ ctx_pids c) = U"
    unfolding U_def using F by simp_all
  moreover have "concat (map entries (cs[a := ?t1, Suc a := ?t2])) = concat (map entries cs)"
    "concat (map leaves (cs[a := ?t1, Suc a := ?t2])) = concat (map leaves cs)"
    by (rule concat_same [OF Q(6)], simp add: A(1) B(1))+
  ultimately show ?thesis
    using links_borrowed [OF fr s1(2) links A(2) s1(4) R s1(5)]
    unfolding leaves_rebalanced_def s1(1) U_def by (metis Diff_empty length_list_update empty_subsetI)
qed

lemma leaf_borrow_left:
  assumes fr: "frame_ok s fl H c 0 lo hi q ks cs a"
    and A: "cs ! a = Leaf l (es' @ [b])" "es' \<noteq> []"
      "bt_ok (unat (st_page_size s)) (st_pages s) 0 (lo_of lo ks a) (unat (ks ! a)) (cs ! a)"
    and B: "cs ! Suc a = Leaf p es" "node_at (unat (st_page_size s)) (st_pages s p) (LeafN nx es)"
      "keys_between (unat (ks ! a)) (hi_of hi ks (Suc a)) (map le_key es)"
    and space: "length es < leaf_cap (unat (st_page_size s))"
    and links: "leaf_links (unat (st_page_size s)) (st_pages s) (ctx_before leaves c @ concat (map leaves cs) @ ctx_after leaves c) 0"
  shows "leaves_rebalanced s fl H c lo hi q cs (length ks) (borrow_left_leaf s p l q a)"
proof -
  let ?ps = "unat (st_page_size s)" and ?k = "le_key b"
  note Fr = frame_okD [OF fr] and P = leaf_pair_pages [OF fr A(1) B(1)]
  define U where "U = set (q # concat (map pids cs) @ ctx_pids c)"
  note Q = P [folded U_def]
  obtain nl where L: "node_at ?ps (st_pages s l) (LeafN nl (es' @ [b]))"
    and kb: "keys_between (lo_of lo ks a) (unat (ks ! a)) (map le_key (es' @ [b]))"
    using A(3) unfolding A(1) bt_ok_Leaf by blast
  have m: "unat (ks ! a) < hi_of hi ks (Suc a)" by (rule separator_below [OF Fr(3,6)])
  obtain b' es'' where es': "es' = b' # es''" using A(2) by (cases es') auto
  have k: "lo_of lo ks a < unat ?k" "unat ?k < unat (ks ! a)"
    using kb by (auto simp: es' keys_between_def word_less_nat_alt)
  have "\<forall>x \<in> set (map le_key es). ?k < x"
    using B(3) k(2) unfolding keys_between_def word_less_nat_alt by fastforce
  then have find: "leaf_find es ?k = 0" using B(3) by (intro leaf_find_none) (simp_all add: keys_between_def)
  have d: "distinct [p, l, q]" using Q(4) by auto
  from borrow_left_leaf_nodes [OF Fr(1) Q(5) Q(5) Q(5) _ B(2) L Fr(2,6) space find, OF Q(2,1,3) d]
  obtain s1 where s1: "borrow_left_leaf s p l q a = s1" "shrinks s fl s1 fl {} {p, l, q} {p, l, q}" "root_id s1 = root_id s"
    "node_at ?ps (st_pages s1 p) (LeafN nx (b # es))" "node_at ?ps (st_pages s1 l) (LeafN nl es')"
    "node_at ?ps (st_pages s1 q) (InnerN (ks[a := ?k]) (map pid_of cs))" by auto
  let ?t1 = "Leaf l es'" and ?t2 = "Leaf p (b # es)"
  have "keys_between (lo_of lo ks a) (unat ?k) (map le_key es')"
    using kb by (auto simp: keys_between_def sorted_wrt_append word_less_nat_alt)
  then have t1: "bt_ok ?ps (st_pages s1) 0 (lo_of lo ks a) (unat ?k) ?t1" using s1(5) by (blast intro: bt_ok.leaf)
  have "keys_between (unat ?k) (hi_of hi ks (Suc a)) (map le_key (b # es))"
    using B(3) k(2) m unfolding keys_between_def by (fastforce simp: word_less_nat_alt)
  then have t2: "bt_ok ?ps (st_pages s1) 0 (unat ?k) (hi_of hi ks (Suc a)) ?t2" using s1(4) by (blast intro: bt_ok.leaf)
  have W: "{p, l, q} \<subseteq> {q} \<union> set (pids (cs ! a)) \<union> set (pids (cs ! Suc a))" using Q(7) by auto
  note F = frame_rotate [OF fr s1(2) W t1 _ t2 _ k(1) less_trans [OF k(2) m] s1(6) _ s1(3), simplified A(1) B(1)]
  have "shrinks s fl s1 fl {} U U" by (rule shrinks_mono [OF s1(2)]) (use Q(1-3) in auto)
  moreover have "hole_node s1 fl H c 0 lo hi q (ks[a := ?k]) (cs[a := ?t1, Suc a := ?t2])"
    "set (q # concat (map pids (cs[a := ?t1, Suc a := ?t2])) @ ctx_pids c) = U"
    unfolding U_def using F by simp_all
  moreover have "concat (map entries (cs[a := ?t1, Suc a := ?t2])) = concat (map entries cs)"
    "concat (map leaves (cs[a := ?t1, Suc a := ?t2])) = concat (map leaves cs)"
    by (rule concat_same [OF Q(6)], simp add: A(1) B(1))+
  ultimately show ?thesis
    using links_borrowed [OF fr s1(2) links B(2) s1(4) L s1(5)]
    unfolding leaves_rebalanced_def s1(1) U_def by (metis Diff_empty length_list_update empty_subsetI)
qed

lemma leaf_links_merge:
  assumes "leaf_links ps pg (A @ l # r # B) 0" "node_at ps (pg r) (LeafN nr es2)"
    and "\<And>q n es. q \<in> set A \<union> set B \<Longrightarrow> node_at ps (pg q) (LeafN n es) \<Longrightarrow> node_at ps (pg' q) (LeafN n es)"
    and "node_at ps (pg' l) (LeafN nr es)"
  shows "leaf_links ps pg' (A @ l # B) 0" "nr = hd (B @ [0])"
proof -
  have "leaf_links ps pg A l" "leaf_links ps pg B 0" using assms(1) by (auto simp: leaf_links_append)
  then have "leaf_links ps pg' A l" "leaf_links ps pg' B 0"
    by (auto elim!: leaf_links_cong intro: assms(3))
  moreover have "leaf_links ps pg ((A @ [l]) @ r # B) 0" using assms(1) by simp
  then show "nr = hd (B @ [0])" by (rule leaf_links_next) (rule assms(2))
  ultimately show "leaf_links ps pg' (A @ l # B) 0" using assms(4) by (auto simp: leaf_links_append)
qed

lemma leaf_merge:
  assumes fr: "frame_ok s fl H c 0 lo hi q ks cs a"
    and A: "cs ! a = Leaf l es1" "node_at (unat (st_page_size s)) (st_pages s l) (LeafN nl es1)"
      "keys_between (lo_of lo ks a) (unat (ks ! a)) (map le_key es1)"
    and B: "cs ! Suc a = Leaf r es2" "node_at (unat (st_page_size s)) (st_pages s r) (LeafN nr es2)"
      "keys_between (unat (ks ! a)) (hi_of hi ks (Suc a)) (map le_key es2)"
    and space: "length es1 + length es2 \<le> leaf_cap (unat (st_page_size s))"
    and links: "leaf_links (unat (st_page_size s)) (st_pages s) (ctx_before leaves c @ concat (map leaves cs) @ ctx_after leaves c) 0"
  shows "leaves_rebalanced s fl H c lo hi q cs (length ks - 1) (merge_leaf s l r q a)"
proof -
  let ?ps = "unat (st_page_size s)"
  note Fr = frame_okD [OF fr] and P = leaf_pair_pages [OF fr A(1) B(1)]
  define U where "U = set (q # concat (map pids cs) @ ctx_pids c)"
  note Q = P [folded U_def]
  define LA where "LA = ctx_before leaves c @ concat (map leaves (take a cs))"
  define LB where "LB = concat (map leaves (drop (Suc (Suc a)) cs)) @ ctx_after leaves c"
  have lv: "ctx_before leaves c @ concat (map leaves cs) @ ctx_after leaves c = LA @ l # r # LB"
    by (subst pair_split [OF Q(6)]) (simp add: A(1) B(1) LA_def LB_def)
  have inU: "x \<in> U" if "x \<in> set (LA @ l # r # LB)" for x
    using links_of_context [OF fr, of x] that unfolding lv U_def by blast
  have dl: "distinct (LA @ l # r # LB)"
  proof -
    note idx = ctx_ok_indices [OF Fr(9)]
    have "distinct (pids (plug c (Inner q ks cs)))"
      using mset_eq_imp_distinct_iff [OF pids_plug [OF idx, of "Inner q ks cs", unfolded mset_append [symmetric]]] Fr(11) by simp
    then have "distinct (leaves (plug c (Inner q ks cs)))" by (rule distinct_leaves)
    then show ?thesis unfolding leaves_plug [OF idx] lv [symmetric] by simp
  qed
  have nrB: "nr = hd (LB @ [0])"
    using leaf_links_next [of ?ps "st_pages s" "LA @ [l]" r LB nr es2] links B(2) unfolding lv by simp
  have nr: "in_use s fl nr \<and> nr \<notin> {l, r} \<and> (\<exists>n es'. node_at ?ps (st_pages s nr) (LeafN n es'))" if nz: "nr \<noteq> 0"
  proof -
    obtain B' where B': "LB = nr # B'" using nrB nz by (cases LB) auto
    then have "\<exists>n es'. node_at ?ps (st_pages s nr) (LeafN n es')"
      using links unfolding lv by (auto simp: leaf_links_append)
    moreover have "nr \<in> U" "nr \<notin> {l, r}" using inU [of nr] dl by (auto simp: B')
    ultimately show ?thesis using Q(5) by blast
  qed
  from merge_leaf_nodes [OF Fr(1) Q(5) Q(5) Q(5) _ A(2) B(2) Fr(2,6) nr space, OF Q(1-4)]
  obtain s1 where s1: "merge_leaf s l r q a = s1" "shrinks s fl s1 (r # fl) {r} {l, q} {l, q, nr}" "root_id s1 = root_id s"
    "node_at ?ps (st_pages s1 l) (LeafN nr (es1 @ es2))"
    "node_at ?ps (st_pages s1 q) (InnerN (list_remove a ks) (list_remove (Suc a) (map pid_of cs)))" by auto
  note D = shrinksD [OF s1(2)]
  let ?t = "Leaf l (es1 @ es2)"
  have m: "lo_of lo ks a < unat (ks ! a)" "unat (ks ! a) < hi_of hi ks (Suc a)"
    using separator_above [OF Fr(3,4,6)] separator_below [OF Fr(3,6)] .
  have "x < y" if "x \<in> set (map le_key es1)" "y \<in> set (map le_key es2)" for x y
  proof -
    have "unat x < unat (ks ! a)" "unat (ks ! a) \<le> unat y" using A(3) B(3) that unfolding keys_between_def by blast+
    then show ?thesis by (simp add: word_less_nat_alt)
  qed
  then have "keys_between (lo_of lo ks a) (hi_of hi ks (Suc a)) (map le_key (es1 @ es2))"
    using keys_between_mono [OF A(3), of "lo_of lo ks a" "hi_of hi ks (Suc a)"]
      keys_between_mono [OF B(3), of "lo_of lo ks a" "hi_of hi ks (Suc a)"] m
    by (simp add: keys_between_append)
  then have t: "bt_ok ?ps (st_pages s1) 0 (lo_of lo ks a) (hi_of hi ks (Suc a)) ?t" using s1(4) by (blast intro: bt_ok.leaf)
  have W: "{l, q} \<subseteq> {q} \<union> set (pids (cs ! a)) \<union> set (pids (cs ! Suc a))" using Q(7) by auto
  note F = frame_merge [OF fr s1(2) W t _ s1(5) _ s1(3), simplified A(1) B(1)]
  have keep: "node_at ?ps (st_pages s1 x) (LeafN n es)" if x: "x \<in> set LA \<union> set LB" "node_at ?ps (st_pages s x) (LeafN n es)" for x n es
  proof -
    have "x \<in> U" "x \<noteq> l" "x \<noteq> r" using inU [of x] x(1) dl by auto
    moreover have "x \<noteq> q" using x(2) Fr(2) by (auto simp: node_at_def)
    ultimately show ?thesis using D(6) [of x] D(9) [of x] Q(5) x(2) by auto
  qed
  have lk: "leaf_links ?ps (st_pages s1) (LA @ l # LB) 0"
    by (rule leaf_links_merge(1) [where pg = "st_pages s" and r = r, OF links [unfolded lv]]) (use keep B(2) s1(4) in blast)+
  have "nr \<in> U" if "nr \<noteq> 0" using nrB that inU by (cases LB) auto
  moreover have "\<not> in_use s1 (r # fl) 0" by (simp add: in_use_def)
  ultimately have sh: "shrinks s fl s1 (r # fl) {r} U U" by (intro shrinks_mono [OF s1(2)]) (use Q(1-3) in auto)
  have hn: "hole_node s1 (r # fl) H c 0 lo hi q (list_remove a ks) ((list_remove (Suc a) cs)[a := ?t])"
    "set (q # concat (map pids ((list_remove (Suc a) cs)[a := ?t])) @ ctx_pids c) = U - {r}"
    unfolding U_def using F by simp_all
  have en: "concat (map entries ((list_remove (Suc a) cs)[a := ?t])) = concat (map entries cs)"
    by (rule concat_merged [OF Q(6)], simp add: A(1) B(1))
  have "ctx_before leaves c @ concat (map leaves ((list_remove (Suc a) cs)[a := ?t])) @ ctx_after leaves c = LA @ l # LB"
    by (simp add: merge_children [OF Q(6)] LA_def LB_def)
  moreover have "length (list_remove a ks) = length ks - 1" using Fr(6) by (rule length_list_remove)
  moreover have "{r} \<subseteq> U" using Q(2) by simp
  ultimately show ?thesis
    unfolding leaves_rebalanced_def s1(1) using hn sh en lk unfolding U_def by metis
qed

section \<open>Underflow of a leaf\<close>

text \<open>An index of the pages \<open>U\<close> that are left, with the entries \<open>E\<close>.\<close>

definition index_left :: "store \<Rightarrow> page_id list \<Rightarrow> page_id set \<Rightarrow> leaf_entry list \<Rightarrow> store \<Rightarrow> bool" where
  "index_left s fl U E s' \<longleftrightarrow> (\<exists>fl' F H t. shrinks s fl s' fl' F U U \<and> F \<subseteq> U
     \<and> bt_ok (unat (st_page_size s)) (st_pages s') H 0 (2 ^ 64) t \<and> pid_of t = root_id s' \<and> entries t = E
     \<and> distinct (pids t) \<and> set (pids t) = U - F \<and> leaf_links (unat (st_page_size s)) (st_pages s') (leaves t) 0)"

lemma index_left_after:
  assumes sh: "shrinks s fl s1 fl1 {} U U" and il: "index_left s1 fl1 U E s'"
  shows "index_left s fl U E s'"
proof -
  from il obtain fl' F H t where T: "shrinks s1 fl1 s' fl' F U U" "F \<subseteq> U"
    "bt_ok (unat (st_page_size s)) (st_pages s') H 0 (2 ^ 64) t" "pid_of t = root_id s'" "entries t = E"
    "distinct (pids t)" "set (pids t) = U - F" "leaf_links (unat (st_page_size s)) (st_pages s') (leaves t) 0"
    unfolding index_left_def shrinksD(2) [OF sh] by blast
  have "shrinks s fl s' fl' F U U" using shrinks_trans [OF sh T(1)] by simp
  with T(2-) show ?thesis unfolding index_left_def by blast
qed

lemma index_left_tree:
  assumes sh: "shrinks s fl s1 fl1 F U U" "F \<subseteq> U" "\<forall>x \<in> U. in_use s fl x"
    and tl: "tree_left s1 fl1 (U - F) E L s'" and links: "leaf_links (unat (st_page_size s)) (st_pages s1) L 0"
  shows "index_left s fl U E s'"
proof -
  note D = shrinksD [OF sh(1)]
  from tl obtain fl' F' H t where T: "tree_step s1 fl1 s' fl' F' (U - F)"
     "bt_ok (unat (st_page_size s)) (st_pages s') H 0 (2 ^ 64) t" "pid_of t = root_id s'" "entries t = E" "leaves t = L"
     "distinct (pids t)" "set (pids t) = U - F - F'" unfolding tree_left_def D(2) by blast
  note ts = T(1) [unfolded tree_step_def D(2)]
  have sh2: "shrinks s1 fl1 s' fl' F' (U - F) (U - F)" using ts by blast
  have "shrinks s fl s' fl' (F \<union> F') U U" by (rule shrinks_mono [OF shrinks_trans [OF sh(1) sh2]]) auto
  moreover have "leaf_links (unat (st_page_size s)) (st_pages s') (leaves t) 0"
    unfolding T(5)
  proof (rule leaf_links_cong [OF links])
    fix q n es assume q: "q \<in> set L" "node_at (unat (st_page_size s)) (st_pages s1 q) (LeafN n es)"
    have "q \<in> U - F - F'" using q(1) T(5,7) leaves_subset [of t] by blast
    then have "in_use s' fl' q" using shrinksD(6) [OF sh2] D(6) sh(3) by blast
    then show "node_at (unat (st_page_size s)) (st_pages s' q) (LeafN n es)" using ts q(2) by blast
  qed
  moreover have "F \<union> F' \<subseteq> U" "set (pids t) = U - (F \<union> F')" using sh(2) ts T(7) by blast+
  ultimately show ?thesis unfolding index_left_def using T(2-4,6) by blast
qed

lemma index_left_rebalanced:
  assumes lr: "leaves_rebalanced s fl H c lo hi q cs n s1"
    and u: "\<forall>x \<in> set (q # concat (map pids cs) @ ctx_pids c). in_use s fl x"
    and go: "\<And>fl1 ks' cs'. hole_node s1 fl1 H c 0 lo hi q ks' cs' \<Longrightarrow> length ks' = n \<Longrightarrow> st_page_size s1 = st_page_size s
      \<Longrightarrow> tree_left s1 fl1 (set (q # concat (map pids cs') @ ctx_pids c))
        (ctx_before entries c @ concat (map entries cs') @ ctx_after entries c)
        (ctx_before leaves c @ concat (map leaves cs') @ ctx_after leaves c) s'"
  shows "index_left s fl (set (q # concat (map pids cs) @ ctx_pids c))
    (ctx_before entries c @ concat (map entries cs) @ ctx_after entries c) s'"
proof -
  from lr obtain fl1 F ks' cs' where R: "hole_node s1 fl1 H c 0 lo hi q ks' cs'" "length ks' = n"
     "shrinks s fl s1 fl1 F (set (q # concat (map pids cs) @ ctx_pids c)) (set (q # concat (map pids cs) @ ctx_pids c))"
     "F \<subseteq> set (q # concat (map pids cs) @ ctx_pids c)"
     "set (q # concat (map pids cs') @ ctx_pids c) = set (q # concat (map pids cs) @ ctx_pids c) - F"
     "concat (map entries cs') = concat (map entries cs)"
     "leaf_links (unat (st_page_size s)) (st_pages s1) (ctx_before leaves c @ concat (map leaves cs') @ ctx_after leaves c) 0"
    unfolding leaves_rebalanced_def by blast
  from go [OF R(1,2) shrinksD(2) [OF R(3)]] show ?thesis
    unfolding R(5,6) by (rule index_left_tree [OF R(3,4) u _ R(7)])
qed

lemma leaf_sibling:
  assumes "bt_ok ps pg 0 lo hi t"
  obtains p es nx where "t = Leaf p es" "node_at ps (pg p) (LeafN nx es)" "keys_between lo hi (map le_key es)"
    "unat (lph_key_count (get_leaf_hdr (pg (pid_of t)))) = length es"
  using assms by (elim bt_ok_0E) (auto dest: node_at_leafD(3))

lemma fix_leaf_ok:
  assumes ok: "store_ok s fl" and c: "ctx_ok (unat (st_page_size s)) (st_pages s) H d 0 clo chi" "hole_pid d p"
    and p: "node_at (unat (st_page_size s)) (st_pages s p) (LeafN nx es)" "keys_between clo chi (map le_key es)"
    and ds: "distinct (p # ctx_pids d)" and u: "\<forall>x \<in> set (p # ctx_pids d). in_use s fl x"
    and rt: "pid_of (plug d (Leaf p es)) = root_id s"
    and links: "leaf_links (unat (st_page_size s)) (st_pages s) (leaves (plug d (Leaf p es))) 0"
    and stk: "stack_holds (inner_cap (unat (st_page_size s)) div 2) d p 0 c1 stack" "length stack = Suc (length c1)"
    and short: "length es < leaf_cap (unat (st_page_size s)) div 2"
  shows "index_left s fl (set (p # ctx_pids d)) (entries (plug d (Leaf p es))) (fix_leaf_underflow s p stack)"
proof (cases d)
  case Nil
  then have "length stack = 1" using stk by (auto simp: stack_holds_def)
  then have eq: "fix_leaf_underflow s p stack = s" by (simp add: fix_leaf_underflow_def)
  have "shrinks s fl s fl {} {p} {p}" by (rule shrinks_mono [OF shrinks_refl [OF ok]]) auto
  moreover have "bt_ok (unat (st_page_size s)) (st_pages s) 0 clo chi (Leaf p es)" using p by (blast intro: bt_ok.leaf)
  then have "bt_ok (unat (st_page_size s)) (st_pages s) H 0 (2 ^ 64) (Leaf p es)"
    using plug_ok [OF c(1)] c(2) Nil by fastforce
  ultimately have "index_left s fl {p} es s"
    unfolding index_left_def using rt links by (intro exI [of _ fl] exI [of _ "{}"] exI [of _ H] exI [of _ "Leaf p es"]) (simp add: Nil)
  then show ?thesis by (simp add: Nil eq)
next
  case (Cons f c0)
  let ?ps = "unat (st_page_size s)" and ?pg = "st_pages s" and ?m = "leaf_cap (unat (st_page_size s)) div 2"
  obtain q qks qcs i where f: "f = (q, qks, qcs, i)" by (cases f)
  note d = Cons [unfolded f]
  define cs0 where "cs0 = qcs[i := Leaf p es]"
  note C = caps [OF ok] and M = min_caps [OF ok]
  obtain plo phi where P: "clo = lo_of plo qks i" "chi = hi_of phi qks i" "i < Suc (length qks)" "length qcs = Suc (length qks)"
    "\<And>a. a < length qks \<Longrightarrow> i = a \<or> i = Suc a \<Longrightarrow> frame_ok s fl H c0 0 plo phi q qks cs0 a"
    "\<And>j. j < length qcs \<Longrightarrow> j \<noteq> i \<Longrightarrow> bt_ok ?ps ?pg 0 (lo_of plo qks j) (hi_of phi qks j) (qcs ! j)"
    "node_at ?ps (?pg q) (InnerN qks (map pid_of cs0))"
    using frame_at_hole [OF ok c(1) [unfolded d], of "Leaf p es"] c(2) ds u rt unfolding cs0_def d by auto
  have nq: "0 < length qks" using c(1) unfolding d by (auto simp: seps_above_def)
  have len: "length cs0 = Suc (length qks)" "i < length cs0" using P(3,4) by (simp_all add: cs0_def)
  have at: "cs0 ! i = Leaf p es" "\<And>j. j \<noteq> i \<Longrightarrow> cs0 ! j = qcs ! j" using len by (simp_all add: cs0_def)
  have i: "i < length qcs" using P(3,4) by simp
  have U: "set (p # ctx_pids d) = set (q # concat (map pids cs0) @ ctx_pids c0)"
    by (auto simp: d cs0_def concat_map_update [OF i])
  have E: "entries (plug d (Leaf p es)) = ctx_before entries c0 @ concat (map entries cs0) @ ctx_after entries c0"
    using entries_plug [OF ctx_ok_indices [OF c(1)], of "Leaf p es"] by (simp add: d cs0_def concat_map_update [OF i])
  have L: "leaves (plug d (Leaf p es)) = ctx_before leaves c0 @ concat (map leaves cs0) @ ctx_after leaves c0"
    using leaves_plug [OF ctx_ok_indices [OF c(1)], of "Leaf p es"] by (simp add: d cs0_def concat_map_update [OF i])
  note lk = links [unfolded L] and uu = u [unfolded U]
  have cnt: "unat (iph_key_count (get_internal_hdr (?pg q))) = length qks" using node_at_innerD(2) [OF P(7)] .
  have child: "internal_child (?pg q) j = pid_of (cs0 ! j)" if "j < length cs0" for j
    using internal_child_inner [OF P(7)] that len by simp
  have "distinct (map pid_of cs0)"
  proof (rule distinct_pid_of)
    have "\<exists>a < length qks. i = a \<or> i = Suc a" using nq P(3) by (cases i) auto
    then show "distinct (concat (map pids cs0))" using frame_okD(11) [OF P(5)] by auto
  qed
  from find_child_idx_nth [OF P(7) this, of i] have fi: "find_child_idx (?pg q) p = Some i" using len at by simp
  have gt: "lph_key_count (get_leaf_hdr (?pg x)) > min_leaf_keys (st_page_size s) \<longleftrightarrow> ?m < n"
    if "unat (lph_key_count (get_leaf_hdr (?pg x))) = n" for x n
    using that M(1) by (simp add: word_less_nat_alt)
  have "0 < inner_cap ?ps div 2" using C(4) by simp
  from stack_holds_Cons [OF stk(1) [unfolded d] this] obtain c1' where c1: "c1 = (q, qks, qcs, i) # c1'" "stack ! length c1' = q"
    "\<And>n'. length qks - 1 \<le> n' \<Longrightarrow> stack_holds (inner_cap ?ps div 2) c0 q n' c1' stack" by metis
  have lev: "length stack - 1 = Suc (length c1')" using stk(2) c1(1) by simp
  note unf = fix_leaf_underflow_def [of s p stack, unfolded lev Let_def diff_Suc_1 c1(2) fi option.case cnt]
  have merged: "index_left s fl (set (q # concat (map pids cs0) @ ctx_pids c0))
      (ctx_before entries c0 @ concat (map entries cs0) @ ctx_after entries c0) (propagate_delete s1 stack (length c1'))"
    if R: "leaves_rebalanced s fl H c0 plo phi q cs0 (length qks - 1) s1" for s1
  proof (rule index_left_rebalanced [OF R uu])
    fix fl1 ks' cs'
    assume n: "hole_node s1 fl1 H c0 0 plo phi q ks' cs'" "length ks' = length qks - 1" "st_page_size s1 = st_page_size s"
    have "stack_holds (inner_cap (unat (st_page_size s1)) div 2) c0 q (length ks') c1' stack"
      unfolding n(2,3) by (rule c1(3) [OF order_refl])
    then show "tree_left s1 fl1 (set (q # concat (map pids cs') @ ctx_pids c0))
      (ctx_before entries c0 @ concat (map entries cs') @ ctx_after entries c0)
      (ctx_before leaves c0 @ concat (map leaves cs') @ ctx_after leaves c0) (propagate_delete s1 stack (length c1'))"
      by (rule propagate_delete_ok [OF n(1)])
  qed
  have borrowed: "index_left s fl (set (q # concat (map pids cs0) @ ctx_pids c0))
      (ctx_before entries c0 @ concat (map entries cs0) @ ctx_after entries c0) s1"
    if R: "leaves_rebalanced s fl H c0 plo phi q cs0 (length qks) s1" for s1
    by (rule index_left_rebalanced [OF R uu], erule tree_left_hole) (use nq in auto)
  have "index_left s fl (set (q # concat (map pids cs0) @ ctx_pids c0))
      (ctx_before entries c0 @ concat (map entries cs0) @ ctx_after entries c0) (fix_leaf_underflow s p stack)"
  proof -
    have mlt: "?m < leaf_cap ?ps" "1 \<le> ?m" using C(3) by simp_all
    let ?over = "\<lambda>x. lph_key_count (get_leaf_hdr (?pg x)) > min_leaf_keys (st_page_size s)"
    consider (right) "i < length qks" "?over (internal_child (?pg q) (i + 1))"
      | (left) "\<not> (i < length qks \<and> ?over (internal_child (?pg q) (i + 1)))" "0 < i" "?over (internal_child (?pg q) (i - 1))"
      | (merge) "\<not> (i < length qks \<and> ?over (internal_child (?pg q) (i + 1)))" "0 < i" "\<not> ?over (internal_child (?pg q) (i - 1))"
      | (first) "\<not> (i < length qks \<and> ?over (internal_child (?pg q) (i + 1)))" "i = 0"
      by blast
    then show ?thesis
    proof cases
      case right
      note fr = P(5) [OF right(1)]
      have b: "bt_ok ?ps ?pg 0 (unat (qks ! i)) (hi_of phi qks (Suc i)) (cs0 ! Suc i)"
        using P(6) [of "Suc i"] right(1) P(4) at by (simp add: lo_of_def)
      obtain r rs where R: "cs0 ! Suc i = Leaf r rs" "unat (lph_key_count (get_leaf_hdr (?pg r))) = length rs"
        using leaf_sibling [OF b] by (metis pid_of.simps(1))
      have rp: "internal_child (?pg q) (i + 1) = r" using child [of "Suc i"] right(1) len R(1) by simp
      have "1 < length rs" using right(2) mlt gt [OF R(2)] rp by simp
      then obtain e es' where es': "rs = e # es'" "es' \<noteq> []" by (cases rs; cases "tl rs") auto
      have "fix_leaf_underflow s p stack = borrow_right_leaf s p r q i" using right rp unfolding unf by simp
      then show ?thesis
        using borrowed [OF leaf_borrow_right [OF fr at(1) p(1) _ R(1) [unfolded es'(1)] es'(2) b _ lk]] p(2) P(1,2) right(1) short mlt
        by (simp add: hi_of_def)
    next
      case left
      then obtain a where a: "i = Suc a" by (cases i) auto
      then have al: "a < length qks" using P(3) by simp
      note fr = P(5) [OF al]
      have b: "bt_ok ?ps ?pg 0 (lo_of plo qks a) (unat (qks ! a)) (cs0 ! a)"
        using P(6) [of a] al P(4) at(2) [of a] a by (simp add: hi_of_def)
      obtain l ls where R: "cs0 ! a = Leaf l ls" "unat (lph_key_count (get_leaf_hdr (?pg l))) = length ls"
        using leaf_sibling [OF b] by (metis pid_of.simps(1))
      have lp: "internal_child (?pg q) (i - 1) = l" using child [of a] al len R(1) a by simp
      have "1 < length ls" using left(3) mlt gt [OF R(2)] lp by simp
      then have "ls \<noteq> []" "length (butlast ls) \<noteq> 0" by auto
      then have "ls = butlast ls @ [last ls]" "butlast ls \<noteq> []" by (simp, metis list.size(3))
      then obtain es' e where es': "ls = es' @ [e]" "es' \<noteq> []" by blast
      have "fix_leaf_underflow s p stack = borrow_left_leaf s p l q a" using left(1,3) lp a unfolding unf by auto
      then show ?thesis
        using borrowed [OF leaf_borrow_left [OF fr R(1) [unfolded es'(1)] es'(2) b at(1) [unfolded a] p(1) _ _ lk]] p(2) P(1,2) a short mlt
        by (simp add: lo_of_def)
    next
      case merge
      then obtain a where a: "i = Suc a" by (cases i) auto
      then have al: "a < length qks" using P(3) by simp
      note fr = P(5) [OF al]
      have b: "bt_ok ?ps ?pg 0 (lo_of plo qks a) (unat (qks ! a)) (cs0 ! a)"
        using P(6) [of a] al P(4) at(2) [of a] a by (simp add: hi_of_def)
      obtain l ls nl where R: "cs0 ! a = Leaf l ls" "unat (lph_key_count (get_leaf_hdr (?pg l))) = length ls"
        "node_at ?ps (?pg l) (LeafN nl ls)" "keys_between (lo_of plo qks a) (unat (qks ! a)) (map le_key ls)"
        using leaf_sibling [OF b] by (metis pid_of.simps(1))
      have lp: "internal_child (?pg q) (i - 1) = l" using child [of a] al len R(1) a by simp
      have "length ls + length es \<le> leaf_cap ?ps" using merge(3) lp gt [OF R(2)] short by simp
      moreover have "fix_leaf_underflow s p stack = propagate_delete (merge_leaf s l p q a) stack (length c1')"
        using merge(1,3) lp a unfolding unf by auto
      ultimately show ?thesis
        using merged [OF leaf_merge [OF fr R(1,3,4) at(1) [unfolded a] p(1) _ _ lk]] p(2) P(1,2) a by (simp add: lo_of_def)
    next
      case first
      note fr = P(5) [OF nq]
      have b: "bt_ok ?ps ?pg 0 (unat (qks ! 0)) (hi_of phi qks (Suc 0)) (cs0 ! Suc 0)"
        using P(6) [of "Suc 0"] nq P(4) at(2) [of "Suc 0"] first(2) by (simp add: lo_of_def)
      obtain r rs nr where R: "cs0 ! Suc 0 = Leaf r rs" "unat (lph_key_count (get_leaf_hdr (?pg r))) = length rs"
        "node_at ?ps (?pg r) (LeafN nr rs)" "keys_between (unat (qks ! 0)) (hi_of phi qks (Suc 0)) (map le_key rs)"
        using leaf_sibling [OF b] by (metis pid_of.simps(1))
      have rp: "internal_child (?pg q) 1 = r" using child [of "Suc 0"] nq len R(1) by simp
      have "length es + length rs \<le> leaf_cap ?ps" using first nq rp gt [OF R(2)] short by simp
      moreover have "fix_leaf_underflow s p stack = propagate_delete (merge_leaf s p r q 0) stack (length c1')"
        using first rp unfolding unf by auto
      ultimately show ?thesis
        using merged [OF leaf_merge [OF fr at(1) [unfolded first(2)] p(1) _ R(1,3,4) _ lk]] p(2) P(1,2) first(2) nq
        by (simp add: hi_of_def)
    qed
  qed
  then show ?thesis unfolding U E .
qed

section \<open>Deletion\<close>

lemma index_map_remove:
  assumes "entries t = A @ e # B" "entries t' = A @ B" "distinct (map le_key (entries t))"
  shows "index_map t' = (index_map t)(le_key e := None)"
proof -
  let ?kv = "\<lambda>e. (le_key e, le_row_ref e)"
  have "map_of (map ?kv A) (le_key e) = None" "map_of (map ?kv B) (le_key e) = None"
    using assms(1,3) by (auto simp: map_of_eq_None_iff)
  then show ?thesis by (auto simp: index_map_def assms(1,2) map_add_def fun_eq_iff split: option.splits)
qed

lemma index_left_index:
  assumes il: "index_left s fl (set (pids t)) E s'" and u: "\<forall>x \<in> set (pids t). in_use s fl x"
  obtains fl' h' t' where "index_tree s' fl' h' t'" "index_step s fl t s' fl' t'" "entries t' = E"
    "hd_next_page_id (st_hdr s') \<le> hd_next_page_id (st_hdr s)"
proof -
  from il obtain fl' F H t' where T: "shrinks s fl s' fl' F (set (pids t)) (set (pids t))" "F \<subseteq> set (pids t)"
    "bt_ok (unat (st_page_size s)) (st_pages s') H 0 (2 ^ 64) t'" "pid_of t' = root_id s'" "entries t' = E"
    "distinct (pids t')" "set (pids t') = set (pids t) - F" "leaf_links (unat (st_page_size s)) (st_pages s') (leaves t') 0"
    unfolding index_left_def by blast
  note D = shrinksD [OF T(1)]
  have u': "\<forall>x \<in> set (pids t'). in_use s' fl' x" using T(7) D(6) u by blast
  then have "0 \<notin> set (pids t')" by (auto simp: in_use_def)
  then have "H < 32" using height_bound T(3,6) by blast
  then have "index_tree s' fl' H t'" using T u' D(2) by (simp add: index_tree_def)
  moreover have "index_step s fl t s' fl' t'"
    unfolding index_step_def using D T(2,7) by (auto simp: room_def)
  moreover have "hd_next_page_id (st_hdr s') \<le> hd_next_page_id (st_hdr s)"
    using T(1) by (simp add: shrinks_def word_le_nat_alt)
  ultimately show thesis using T(5) that by blast
qed

lemma stack_holds_short:
  assumes ok: "store_ok s fl" and st: "stack_ok (st_page_size s) False (st_pages s) d p st"
    and c: "ctx_ok (unat (st_page_size s)) (st_pages s) H d h lo hi"
    and p: "node_at (unat (st_page_size s)) (st_pages s p) (LeafN nx es)" "length es \<le> leaf_cap (unat (st_page_size s)) div 2"
  obtains c1 where "stack_holds (inner_cap (unat (st_page_size s)) div 2) d p 0 c1 st" "length st = Suc (length c1)"
proof -
  from st obtain c1 c2 where d: "d = c1 @ c2" "st = rev (map fst c1) @ [p]"
    "c2 \<noteq> [] \<longrightarrow> safe_node (st_page_size s) False (st_pages s (hd st))" by (auto simp: stack_ok_def)
  have safe: "c1 \<noteq> [] \<and> inner_cap (unat (st_page_size s)) div 2 < length (fst (snd (last c1)))" if "c2 \<noteq> []"
  proof -
    from d(3) that have sf: "safe_node (st_page_size s) False (st_pages s (hd st))" by simp
    have ne: "c1 \<noteq> []"
    proof
      assume "c1 = []"
      then have "hd st = p" using d(2) by simp
      then show False using sf node_at_leafD(3,7) [OF p(1)] p(2) min_caps(1) [OF ok]
        by (simp add: safe_node_def word_less_nat_alt)
    qed
    obtain q ks cs i where l: "last c1 = (q, ks, cs, i)" by (cases "last c1")
    have "hd (rev c1) = last c1" using ne by (simp add: hd_rev)
    then have "hd st = q" using d(2) ne l by (simp add: hd_append rev_map hd_map)
    moreover have "(q, ks, cs, i) \<in> set d" using d(1) ne l by (metis UnCI last_in_set set_append)
    then have "node_at (unat (st_page_size s)) (st_pages s q) (InnerN ks (map pid_of cs))" by (rule ctx_ok_node [OF c])
    ultimately show ?thesis using sf ne l node_at_innerD(2,7) min_caps(2) [OF ok]
      by (fastforce simp: safe_node_def word_less_nat_alt)
  qed
  have "stack_holds (inner_cap (unat (st_page_size s)) div 2) d p 0 c1 st"
    unfolding stack_holds_def
    by (intro conjI exI [of _ c2]) (use d safe in \<open>auto simp: nth_append rev_map\<close>)
  with that d(2) show thesis by simp
qed

theorem bptree_delete_correct:
  assumes ok: "store_ok s fl" and it: "index_tree s fl h t"
  shows "index_map t key = None \<Longrightarrow> bptree_delete s key = Some (-1, s)"
    and "index_map t key \<noteq> None \<Longrightarrow> \<exists>s' fl' h' t'. bptree_delete s key = Some (0, s')
      \<and> index_tree s' fl' h' t' \<and> index_map t' = (index_map t)(key := None) \<and> index_step s fl t s' fl' t'
      \<and> hd_next_page_id (st_hdr s') \<le> hd_next_page_id (st_hdr s)"
proof -
  let ?ps = "unat (st_page_size s)"
  from index_descend [OF it, of key False] obtain d p nx es clo chi st where D: "t = plug d (Leaf p es)"
    "ctx_ok ?ps (st_pages s) h d 0 clo chi" "hole_pid d p" "bt_ok ?ps (st_pages s) 0 clo chi (Leaf p es)"
    "node_at ?ps (st_pages s p) (LeafN nx es)" "clo \<le> unat key" "unat key < chi"
    "find_leaf_wlatch s False key = Some (p, st)" "stack_ok (st_page_size s) False (st_pages s) d p st"
    by blast
  note L = node_at_leafD [OF D(5)] and idx = ctx_ok_indices [OF D(2)] and M = min_caps [OF ok]
  have kb: "keys_between clo chi (map le_key es)" using D(4) by (simp add: bt_ok_Leaf)
  then have srt: "sorted_wrt (<) (map le_key es)" by (simp add: keys_between_def)
  note K = leaf_lookup [OF srt, of key]
  have m: "index_map t key = map_of (map (\<lambda>e. (le_key e, le_row_ref e)) es) key"
    unfolding D(1) by (rule index_map_leaf [OF D(2,6,7)])
  have none: "index_map t key = None \<longleftrightarrow> key \<notin> set (map le_key es)"
    unfolding m by (auto simp: map_of_eq_None_iff image_image)
  let ?i = "leaf_find es key"
  show "bptree_delete s key = Some (-1, s)" if "index_map t key = None"
    using that none K(1) D(8) L(3,4) by (auto simp: bptree_delete_def Let_def)
  assume "index_map t key \<noteq> None"
  then have i: "?i < length es" "le_key (es ! ?i) = key" using none K(1) by auto
  define es1 where "es1 = list_remove ?i es"
  define s1 where "s1 = st_put s p (delete_entry_from_leaf (st_pages s p) (get_leaf_hdr (st_pages s p)) ?i)"
  have len1: "length es1 = length es - 1" using length_list_remove [OF i(1)] by (simp add: es1_def)
  have it': "distinct (pids t)" "\<forall>q \<in> set (pids t). in_use s fl q" "leaf_links ?ps (st_pages s) (leaves t) 0"
    "pid_of t = root_id s" using it by (simp_all add: index_tree_def)
  note pm = pids_plug [OF idx, of "Leaf p es", unfolded mset_append [symmetric], folded D(1)]
  have pids: "set (pids t) = set (p # ctx_pids d)" "distinct (p # ctx_pids d)"
    using mset_eq_setD [OF pm] mset_eq_imp_distinct_iff [OF pm] it'(1) by simp_all
  have up: "in_use s fl p" using it'(2) pids(1) by simp
  have N: "node_at ?ps (delete_entry_from_leaf (st_pages s p) (get_leaf_hdr (st_pages s p)) ?i) (LeafN nx es1)"
    unfolding es1_def by (rule node_at_delete_leaf [OF D(5) i(1)])
  have S1: "shrinks s fl s1 fl {} {p} {p}" unfolding s1_def by (rule shrinks_put_node [OF ok up N])
  note D1 = shrinksD [OF S1]
  have p1: "node_at ?ps (st_pages s1 p) (LeafN nx es1)" using N by (simp add: s1_def)
  have ctx1: "ctx_ok ?ps (st_pages s1) h d 0 clo chi"
    by (rule ctx_ok_shrinks [OF S1 D(2)]) (use it'(2) pids in auto)
  have es: "es = take ?i es @ es ! ?i # drop (Suc ?i) es" using i(1) by (simp add: id_take_nth_drop)
  then have "keys_between clo chi (map le_key (take ?i es @ es ! ?i # drop (Suc ?i) es))" using kb by simp
  then have kb1: "keys_between clo chi (map le_key es1)"
    by (auto simp: es1_def list_remove_def keys_between_def sorted_wrt_append)
  define E where "E = ctx_before entries d @ es1 @ ctx_after entries d"
  have e1: "entries (plug d (Leaf p es1)) = E" by (simp add: entries_plug [OF idx] E_def)
  have lv: "leaves (plug d (Leaf p es1)) = leaves t" by (simp add: D(1) leaves_plug [OF idx])
  have links1: "leaf_links ?ps (st_pages s1) (leaves t) 0"
  proof (rule leaf_links_keep [OF it'(3)])
    fix q n ex assume q: "q \<in> set (leaves t)" "node_at ?ps (st_pages s q) (LeafN n ex)"
    then have "in_use s1 fl q" using it'(2) leaves_subset D1(6) by blast
    then show "\<exists>es'. node_at ?ps (st_pages s1 q) (LeafN n es')"
      using D1(9) [of q] q(2) p1 D(5) by (cases "q = p") (auto simp: node_at_def)
  qed
  have rt: "pid_of (plug d (Leaf p es1)) = root_id s1"
    using pid_of_plug_cong [of "Leaf p es1" "Leaf p es" d] it'(4) by (simp add: D(1) s1_def)
  have ms: "mset (pids (plug d (Leaf p es1))) = mset (p # ctx_pids d)" by (simp add: pids_plug [OF idx])
  define s' where "s' = (if p = root_id s \<or> lph_key_count (get_leaf_hdr (st_pages s p)) - 1 \<ge> min_leaf_keys (st_page_size s)
    then s1 else fix_leaf_underflow s1 p st)"
  have "index_left s1 fl (set (p # ctx_pids d)) E s'"
  proof (cases "p = root_id s \<or> lph_key_count (get_leaf_hdr (st_pages s p)) - 1 \<ge> min_leaf_keys (st_page_size s)")
    case True
    have "bt_ok ?ps (st_pages s1) 0 clo chi (Leaf p es1)" using p1 kb1 by (blast intro: bt_ok.leaf)
    then have "bt_ok ?ps (st_pages s1) h 0 (2 ^ 64) (plug d (Leaf p es1))" using plug_ok [OF ctx1] D(3) by fastforce
    moreover have "shrinks s1 fl s1 fl {} (set (p # ctx_pids d)) (set (p # ctx_pids d))"
      by (rule shrinks_mono [OF shrinks_refl [OF D1(1)]]) auto
    moreover have "distinct (pids (plug d (Leaf p es1)))" using mset_eq_imp_distinct_iff [OF ms] pids(2) by blast
    moreover have "set (pids (plug d (Leaf p es1))) = set (p # ctx_pids d) - {}" using mset_eq_setD [OF ms] by blast
    ultimately have "index_left s1 fl (set (p # ctx_pids d)) E s1"
      unfolding index_left_def D1(2) using e1 rt links1 lv by (metis empty_subsetI)
    then show ?thesis using True by (simp add: s'_def)
  next
    case False
    have c: "unat (lph_key_count (get_leaf_hdr (st_pages s p)) - 1) = length es - 1"
      using u32_minus_one [OF L(3)] i(1) by (cases es) auto
    then have short: "length es1 < leaf_cap ?ps div 2"
      using False len1 M(1) by (simp add: word_le_nat_alt)
    then have "length es \<le> leaf_cap ?ps div 2" using len1 by simp
    from stack_holds_short [OF ok D(9,2,5) this]
    obtain c1 where c1: "stack_holds (inner_cap ?ps div 2) d p 0 c1 st" "length st = Suc (length c1)" .
    have "\<forall>x \<in> set (p # ctx_pids d). in_use s1 fl x" using it'(2) D1(6) unfolding pids(1) by blast
    from fix_leaf_ok [of s1 fl h d clo chi p nx es1, unfolded D1(2), OF D1(1) ctx1 D(3) p1 kb1 pids(2) this rt _ c1 short]
    have "index_left s1 fl (set (p # ctx_pids d)) E (fix_leaf_underflow s1 p st)" using links1 by (simp add: lv e1)
    then show ?thesis using False by (simp add: s'_def)
  qed
  moreover have "shrinks s fl s1 fl {} (set (p # ctx_pids d)) (set (p # ctx_pids d))"
    by (rule shrinks_mono [OF S1]) auto
  ultimately have "index_left s fl (set (pids t)) E s'" unfolding pids(1) by (rule index_left_after [rotated])
  from index_left_index [OF this it'(2)] obtain fl' h' t' where T: "index_tree s' fl' h' t'" "index_step s fl t s' fl' t'"
    "entries t' = E" "hd_next_page_id (st_hdr s') \<le> hd_next_page_id (st_hdr s)" .
  have et: "entries t = (ctx_before entries d @ take ?i es) @ es ! ?i # drop (Suc ?i) es @ ctx_after entries d"
    unfolding D(1) entries_plug [OF idx] using es by simp
  have "sorted_wrt (<) (map le_key (entries t))"
    using it entries_between unfolding index_tree_def keys_between_def by (metis zero_le)
  then have "distinct (map le_key (entries t))" by (rule sorted_wrt_less_distinct)
  from index_map_remove [OF et _ this, of t'] have "index_map t' = (index_map t)(key := None)"
    using T(3) i(2) by (simp add: E_def es1_def list_remove_def)
  moreover have "bptree_delete s key = Some (0, s')"
    using D(8) L(3,4) i by (simp add: bptree_delete_def Let_def s'_def s1_def)
  ultimately show "\<exists>s' fl' h' t'. bptree_delete s key = Some (0, s')
      \<and> index_tree s' fl' h' t' \<and> index_map t' = (index_map t)(key := None) \<and> index_step s fl t s' fl' t'
      \<and> hd_next_page_id (st_hdr s') \<le> hd_next_page_id (st_hdr s)"
    using T(1,2,4) by blast
qed

end
