(* ===== verification/Index_Edits.thy ===== *)
theory Index_Edits
  imports BPlus_Contract BPlus_Leaves
begin

text \<open>
  The contract of \<open>key_index\<close> with deletion: \<open>edited_index\<close> follows a map through any sequence of
  insertions and deletions. The interpretation \<open>ie\<close> shows that the B+ tree provides it.
\<close>

datatype 'r index_op = Add u64 'r | Remove u64

fun run_ops :: "('s \<Rightarrow> u64 \<Rightarrow> 'r \<Rightarrow> (int \<times> 's) option) \<Rightarrow> ('s \<Rightarrow> u64 \<Rightarrow> (int \<times> 's) option) \<Rightarrow> 's \<Rightarrow> 'r index_op list
    \<Rightarrow> (int list \<times> 's) option" where
  "run_ops ins del s [] = Some ([], s)"
| "run_ops ins del s (op # ops) =
     (case (case op of Add k r \<Rightarrow> ins s k r | Remove k \<Rightarrow> del s k) of
        None \<Rightarrow> None
      | Some (rc, s) \<Rightarrow> map_option (\<lambda>(rcs, s). (rc # rcs, s)) (run_ops ins del s ops))"

text \<open>The same on a map: the return codes and the map.\<close>

fun map_ops :: "(u64 \<Rightarrow> 'r option) \<Rightarrow> 'r index_op list \<Rightarrow> int list \<times> (u64 \<Rightarrow> 'r option)" where
  "map_ops m [] = ([], m)"
| "map_ops m (Add k r # ops) =
     (if m k = None then (case map_ops (m(k \<mapsto> r)) ops of (rcs, m) \<Rightarrow> (0 # rcs, m))
      else (case map_ops m ops of (rcs, m) \<Rightarrow> (-1 # rcs, m)))"
| "map_ops m (Remove k # ops) =
     (case map_ops (m(k := None)) ops of (rcs, m') \<Rightarrow> ((if m k = None then -1 else 0) # rcs, m'))"

locale edited_index = key_index models ins find listing
  for models :: "'s \<Rightarrow> nat \<Rightarrow> (u64 \<Rightarrow> 'r option) \<Rightarrow> bool" and ins find listing +
  fixes del :: "'s \<Rightarrow> u64 \<Rightarrow> (int \<times> 's) option"
  assumes del_there: "models s (Suc n) m \<Longrightarrow> m k \<noteq> None \<Longrightarrow> \<exists>s'. del s k = Some (0, s') \<and> models s' n (m(k := None))"
    and del_absent: "models s (Suc n) m \<Longrightarrow> m k = None \<Longrightarrow> del s k = Some (-1, s)"
begin

lemma run_ops_ok:
  assumes "models s (length ops + n) m"
  shows "\<exists>s'. run_ops ins del s ops = Some (fst (map_ops m ops), s') \<and> models s' n (snd (map_ops m ops))"
  using assms
proof (induction ops arbitrary: s m)
  case (Cons op ops)
  have g: "models s (Suc (length ops + n)) m" using Cons.prems by simp
  note less = Cons.IH [OF models_less [OF g]]
  show ?case
  proof (cases op)
    case (Add k r)
    show ?thesis
    proof (cases "m k")
      case None
      from ins_new [OF g None] obtain s1 where s1: "ins s k r = Some (0, s1)" "models s1 (length ops + n) (m(k \<mapsto> r))" by blast
      obtain rcs m2 where mo: "map_ops (m(k \<mapsto> r)) ops = (rcs, m2)" by (cases "map_ops (m(k \<mapsto> r)) ops")
      from Cons.IH [OF s1(2)] s1(1) None show ?thesis by (auto simp: Add mo simp del: fun_upd_apply)
    next
      case (Some v)
      then have "ins s k r = Some (-1, s)" using ins_dup [OF g] by simp
      with less Some show ?thesis by (auto simp: Add split: prod.splits)
    qed
  next
    case (Remove k)
    show ?thesis
    proof (cases "m k")
      case None
      then have "m(k := None) = m" by auto
      with del_absent [OF g None] less None show ?thesis by (auto simp: Remove split: prod.splits)
    next
      case (Some v)
      then obtain s1 where s1: "del s k = Some (0, s1)" "models s1 (length ops + n) (m(k := None))" using del_there [OF g] by blast
      obtain rcs m2 where mo: "map_ops (m(k := None)) ops = (rcs, m2)" by (cases "map_ops (m(k := None)) ops")
      from Cons.IH [OF s1(2)] s1(1) Some show ?thesis by (auto simp: Remove mo simp del: fun_upd_apply)
    qed
  qed
qed simp

lemma run_ops_find:
  assumes "models s (length ops + n) m"
  shows "\<exists>s' l. run_ops ins del s ops = Some (fst (map_ops m ops), s') \<and> (\<forall>k. find s' k = Some (snd (map_ops m ops) k))
    \<and> listing s' = Some l \<and> sorted_wrt (<) (map fst l) \<and> map_of l = snd (map_ops m ops)"
proof -
  from run_ops_ok [OF assms] obtain s' where s': "run_ops ins del s ops = Some (fst (map_ops m ops), s')"
    "models s' n (snd (map_ops m ops))" by blast
  from listing_ok [OF s'(2)] s'(1) find_ok [OF s'(2)] show ?thesis by blast
qed

end

interpretation ie: edited_index index_models bptree_insert bptree_search index_collect bptree_delete
proof
  fix s n m k assume im: "index_models s (Suc n) m"
  then obtain fl h t where I: "room s (33 * n + 33)" "store_ok s fl" "index_tree s fl h t" "m = index_map t"
    by (auto simp: index_models_def add.commute)
  note C = bptree_delete_correct [OF I(2,3), of k]
  show "bptree_delete s k = Some (-1, s)" if "m k = None" using C(1) I(4) that by simp
  assume "m k \<noteq> None"
  then have "index_map t k \<noteq> None" using I(4) by simp
  from C(2) [OF this] I(4) obtain s' fl' h' t' where "bptree_delete s k = Some (0, s')" "index_tree s' fl' h' t'"
    "index_map t' = m(k := None)" "index_step s fl t s' fl' t'" by blast
  with I(1) show "\<exists>s'. bptree_delete s k = Some (0, s') \<and> index_models s' n (m(k := None))"
    unfolding index_models_def index_step_def by metis
qed

text \<open>
  Splits and merges write the \<open>prev\<close> link of the next leaf without its latch, by reading its header,
  changing the link and writing the whole header back (\<open>set_prev_leaf\<close>, in one piece). When another
  thread, which does have the latch, changes the page in between, the key count goes back to what it
  was before.
\<close>

lemma stale_header_undoes:
  assumes "20 \<le> length page'"
  shows "lph_key_count (get_leaf_hdr (mwrite page' 0 (put_leaf_hdr ((get_leaf_hdr page)\<lparr>lph_prev_leaf := pid\<rparr>))))
    = lph_key_count (get_leaf_hdr page)"
  using leaf_hdr.load_store [where off = 0 and b = page'] assms by simp

end
