(* ===== verification/Index_Props.thy ===== *)
theory Index_Props
  imports Index_Edits
begin

text \<open>
  The properties of the B+ tree index, each with a concrete case: the demonstration index has
  64-byte pages, so that a leaf holds three keys and splits happen after four insertions.
\<close>

text \<open>
  Inserting any list of key/reference pairs into an empty index succeeds, whatever splits it
  takes; afterwards a search for any key returns the first reference inserted under it or reports
  its absence, and a full scan lists the keys in increasing order.
\<close>

theorem index_holds_inserted_keys:
  assumes "index_models s (length kr + n) (\<lambda>_. None)"
  shows "\<exists>s' l. insert_keys bptree_insert s kr = Some s' \<and> (\<forall>k. bptree_search s' k = Some (map_of kr k))
    \<and> index_collect s' = Some l \<and> sorted_wrt (<) (map fst l) \<and> map_of l = map_of kr"
  by (rule ix.ins_list_find [OF assms])

theorem index_holds_inserted_keys_witness:
  "\<exists>s' l. insert_keys bptree_insert demo_index
      (map (\<lambda>k. (k, \<lparr>rr_page_id = 1, rr_slot_id = 5\<rparr>)) [9, 3, 7, 3, 1, 8, 2, 20, 15, 11]) = Some s'
    \<and> bptree_search s' 7 = Some (Some \<lparr>rr_page_id = 1, rr_slot_id = 5\<rparr>) \<and> bptree_search s' 4 = Some None
    \<and> index_collect s' = Some l \<and> sorted_wrt (<) (map fst l)"
proof -
  let ?kr = "map (\<lambda>k. (k, \<lparr>rr_page_id = 1, rr_slot_id = 5\<rparr>)) [9, 3, 7, 3, 1, 8, 2, 20, 15, 11 :: u64]"
  have "index_models demo_index (length ?kr + 5) (\<lambda>_. None)" by (rule demo_index_models) simp
  from index_holds_inserted_keys [OF this] obtain s' l where R: "insert_keys bptree_insert demo_index ?kr = Some s'"
    "\<forall>k. bptree_search s' k = Some (map_of ?kr k)" "index_collect s' = Some l" "sorted_wrt (<) (map fst l)" by blast
  have "map_of ?kr 7 = Some \<lparr>rr_page_id = 1, rr_slot_id = 5\<rparr>" "map_of ?kr 4 = None" by simp_all
  with R show ?thesis by metis
qed

text \<open>
  C6: \<open>bptree_insert\<close> on a well formed index: a key that is there is refused with -1 and
  nothing changes; any other key is added to the map and no other entry changes, the tree stays
  well formed (keys in order, all leaves at one depth, leaves linked, no node overfull), and no
  page outside the tree is touched.
\<close>

theorem index_insert_keeps_tree:
  assumes "store_ok s fl" "room s (h + 2)" "index_tree s fl h t"
  shows "case index_map t key of
      Some r \<Rightarrow> bptree_insert s key ref = Some (-1, s)
    | None \<Rightarrow> \<exists>s' fl' h' t'. bptree_insert s key ref = Some (0, s') \<and> index_tree s' fl' h' t'
        \<and> index_map t' = (index_map t)(key \<mapsto> ref) \<and> index_step s fl t s' fl' t'"
  using bptree_insert_correct [OF assms] by (cases "index_map t key") simp_all

theorem index_insert_keeps_tree_witness:
  "\<exists>s' fl' h' t'. bptree_insert demo_index 42 \<lparr>rr_page_id = 1, rr_slot_id = 0\<rparr> = Some (0, s') \<and> index_tree s' fl' h' t'
    \<and> index_map t' 42 = Some \<lparr>rr_page_id = 1, rr_slot_id = 0\<rparr>"
proof -
  have "room demo_index (0 + 2)" "index_map (Leaf 2 []) 42 = None" by (simp_all add: demo_index_simps index_map_def)
  with index_insert_keeps_tree [OF demo_index_ok this(1) demo_index_tree, of 42 "\<lparr>rr_page_id = 1, rr_slot_id = 0\<rparr>"]
  obtain s' fl' h' t' where "bptree_insert demo_index 42 \<lparr>rr_page_id = 1, rr_slot_id = 0\<rparr> = Some (0, s')"
    "index_tree s' fl' h' t'" "index_map t' = (index_map (Leaf 2 []))(42 \<mapsto> \<lparr>rr_page_id = 1, rr_slot_id = 0\<rparr>)" by auto
  then show ?thesis by (metis fun_upd_same)
qed

text \<open>
  \<open>bptree_range_scan\<close> calls back on exactly the entries whose keys lie between the
  bounds, in increasing key order, until the callback stops it; bounds are unsigned.
\<close>

theorem range_scan_visits_interval:
  assumes "index_tree s fl h t"
  shows "bptree_range_scan s has_lo lo lo_inc has_hi hi hi_inc cb ctx
    = Some (visit_entries cb ctx
        (filter (\<lambda>e. above_lo has_lo lo lo_inc (le_key e) \<and> below_hi has_hi hi hi_inc (le_key e)) (entries t)))
    \<and> sorted_wrt (<) (map le_key (entries t))"
  by (rule conjI, rule bptree_range_scan_correct [OF assms], rule index_tree_sorted [OF assms])

theorem range_scan_visits_interval_witness:
  "bptree_range_scan demo_index True 5 False True 9 True (\<lambda>k r n. (True, Suc n)) 0 = Some 0"
  using range_scan_visits_interval [OF demo_index_tree, of True 5 False True 9 True "\<lambda>k r n. (True, Suc n)" 0] by simp

text \<open>
  C37: A search ends on every well formed index and returns what the index maps the key to; the
  height reported is the number of levels of the tree.
\<close>

theorem index_search_returns:
  assumes "index_tree s fl h t"
  shows "bptree_search s key = Some (index_map t key) \<and> bptree_height s = Some (h + 1)"
  using bptree_search_correct [OF assms] bptree_height_correct [OF assms] by simp

theorem index_search_returns_witness: "bptree_search demo_index 7 = Some None \<and> bptree_height demo_index = Some 1"
  using index_search_returns [OF demo_index_tree, of 7] by (simp add: index_map_def)

text \<open>
  On a sorted node the binary searches agree with a linear count: \<open>leaf_find\<close> with the
  number of smaller keys, \<open>internal_find\<close> with the number of keys not greater.
\<close>

theorem node_search_counts:
  assumes "sorted_wrt (<) (map le_key es)" "sorted_wrt (<) (map ie_key is)"
  shows "leaf_find es key = length (filter (\<lambda>e. le_key e < key) es)
    \<and> internal_find is key = length (filter (\<lambda>e. ie_key e \<le> key) is)"
proof -
  have tw: "takeWhile P ks = filter P ks" if "sorted_wrt (<) ks" "\<And>x y. x < y \<Longrightarrow> P y \<Longrightarrow> P x" for P and ks :: "u64 list"
    using that(1)
  proof (induction ks)
    case (Cons k ks)
    then have "\<not> P k \<Longrightarrow> filter P ks = []" using that(2) by (auto simp: filter_empty_conv)
    with Cons show ?case by simp
  qed simp
  have "takeWhile (\<lambda>k. k < key) (map le_key es) = filter (\<lambda>k. k < key) (map le_key es)"
    "takeWhile (\<lambda>k. k \<le> key) (map ie_key is) = filter (\<lambda>k. k \<le> key) (map ie_key is)"
    by (rule tw [OF assms(1)], erule (1) less_trans) (rule tw [OF assms(2)], simp)
  then show ?thesis
    using leaf_find_sorted [OF assms(1)] internal_find_sorted [OF assms(2)]
    by (simp add: filter_map comp_def)
qed

theorem node_search_counts_witness:
  "leaf_find (map (\<lambda>k. \<lparr>le_key = k, le_row_ref = \<lparr>rr_page_id = 1, rr_slot_id = 0\<rparr>\<rparr>) [2, 4, 6, 8]) 6 = 2"
  using node_search_counts [of "map (\<lambda>k. \<lparr>le_key = k, le_row_ref = \<lparr>rr_page_id = 1, rr_slot_id = 0\<rparr>\<rparr>) [2, 4, 6, 8]" "[]" 6] by simp



text \<open>
  C11: Any sequence of insertions and deletions on an index does what it does on a map, return codes
  included; afterwards searches read the map and a full scan lists it in increasing key order.
\<close>

theorem index_tracks_operations:
  assumes "index_models s (length ops + n) m"
  shows "\<exists>s' l. run_ops bptree_insert bptree_delete s ops = Some (fst (map_ops m ops), s')
    \<and> (\<forall>k. bptree_search s' k = Some (snd (map_ops m ops) k))
    \<and> index_collect s' = Some l \<and> sorted_wrt (<) (map fst l) \<and> map_of l = snd (map_ops m ops)"
  by (rule ie.run_ops_find [OF assms])

definition demo_ops :: "row_ref index_op list" where
  "demo_ops = map (\<lambda>k. Add k \<lparr>rr_page_id = 1, rr_slot_id = 5\<rparr>) [9, 3, 7, 1, 8, 2, 20, 15, 11]
     @ map Remove [3, 1, 20, 4, 15, 9, 8] @ [Add 3 \<lparr>rr_page_id = 1, rr_slot_id = 6\<rparr>]"

lemma demo_ops_results:
  "fst (map_ops (\<lambda>_. None) demo_ops) = replicate 12 0 @ [-1, 0, 0, 0, 0]"
  "snd (map_ops (\<lambda>_. None) demo_ops) 3 = Some \<lparr>rr_page_id = 1, rr_slot_id = 6\<rparr>"
  "snd (map_ops (\<lambda>_. None) demo_ops) 9 = None"
  by code_simp+

theorem index_tracks_operations_witness:
  "\<exists>s'. run_ops bptree_insert bptree_delete demo_index demo_ops = Some (replicate 12 0 @ [-1, 0, 0, 0, 0], s')
    \<and> bptree_search s' 3 = Some (Some \<lparr>rr_page_id = 1, rr_slot_id = 6\<rparr>) \<and> bptree_search s' 9 = Some None"
proof -
  have "index_models demo_index (length demo_ops + 5) (\<lambda>_. None)" by (rule demo_index_models) (simp add: demo_ops_def)
  from index_tracks_operations [OF this] obtain s' where
    "run_ops bptree_insert bptree_delete demo_index demo_ops = Some (fst (map_ops (\<lambda>_. None) demo_ops), s')"
    "\<forall>k. bptree_search s' k = Some (snd (map_ops (\<lambda>_. None) demo_ops) k)" by blast
  then show ?thesis using demo_ops_results by metis
qed

end
