(* ===== verification/Lock_Table.thy ===== *)
theory Lock_Table
  imports Prelude
begin

text \<open>
  The lock table of \<open>src/server/lock_table.c\<close>: point locks in hash buckets, range locks in a list
  of their own, writers preferred over readers. The doubly linked lists are lists of entry
  addresses; the thread-local list of held locks is a field indexed by thread. What a function
  does between taking and giving up the mutex is one operation; a wait on the condition variable
  splits \<open>lock_acquire\<close> into the iterations of its loop. \<open>calloc\<close>'s result is an argument.
\<close>

section \<open>State\<close>

datatype lock_mode = LOCK_S | LOCK_X

type_synonym thread = nat
type_synonym addr = nat

record lock_entry =
  lk_row_id :: u64
  lk_range_high :: u64
  lk_mode :: lock_mode
  lk_owner :: thread
  lk_is_range :: bool

record lock_table =
  lt_buckets :: "nat \<Rightarrow> addr list"
  lt_range_locks :: "addr list"
  lt_waiting_writers :: int
  lt_mem :: "addr \<Rightarrow> lock_entry"
  lt_held :: "thread \<Rightarrow> addr list"
  lt_held_table :: "thread \<Rightarrow> bool"

definition LOCK_TABLE_BUCKETS :: nat where "LOCK_TABLE_BUCKETS = 256"

definition hash_row_id :: "u64 \<Rightarrow> nat" where
  "hash_row_id row_id = unat row_id mod LOCK_TABLE_BUCKETS"

definition lock_table_init :: lock_table where
  "lock_table_init = \<lparr>lt_buckets = (\<lambda>_. []), lt_range_locks = [], lt_waiting_writers = 0,
     lt_mem = (\<lambda>_. \<lparr>lk_row_id = 0, lk_range_high = 0, lk_mode = LOCK_S, lk_owner = 0, lk_is_range = False\<rparr>),
     lt_held = (\<lambda>_. []), lt_held_table = (\<lambda>_. False)\<rparr>"

section \<open>Lists\<close>

definition reader_should_wait :: "lock_table \<Rightarrow> lock_mode \<Rightarrow> bool" where
  "reader_should_wait lt mode \<longleftrightarrow> mode = LOCK_S \<and> lt_waiting_writers lt > 0"

definition waiting_writer_register :: "lock_table \<Rightarrow> bool \<Rightarrow> lock_table" where
  "waiting_writer_register lt registered =
     (if \<not> registered then lt\<lparr>lt_waiting_writers := lt_waiting_writers lt + 1\<rparr> else lt)"

definition waiting_writer_unregister :: "lock_table \<Rightarrow> bool \<Rightarrow> lock_table" where
  "waiting_writer_unregister lt registered =
     (if registered \<and> lt_waiting_writers lt > 0 then lt\<lparr>lt_waiting_writers := lt_waiting_writers lt - 1\<rparr> else lt)"

definition owner_list_push :: "thread \<Rightarrow> lock_table \<Rightarrow> addr \<Rightarrow> lock_table" where
  "owner_list_push self lt a =
     lt\<lparr>lt_held := (lt_held lt)(self := a # lt_held lt self), lt_held_table := (lt_held_table lt)(self := True)\<rparr>"

definition global_list_insert_point :: "lock_table \<Rightarrow> nat \<Rightarrow> addr \<Rightarrow> lock_entry \<Rightarrow> lock_table" where
  "global_list_insert_point lt bucket a e =
     lt\<lparr>lt_mem := (lt_mem lt)(a := e\<lparr>lk_is_range := False\<rparr>),
        lt_buckets := (lt_buckets lt)(bucket := a # lt_buckets lt bucket)\<rparr>"

definition global_list_insert_range :: "lock_table \<Rightarrow> addr \<Rightarrow> lock_entry \<Rightarrow> lock_table" where
  "global_list_insert_range lt a e =
     lt\<lparr>lt_mem := (lt_mem lt)(a := e\<lparr>lk_is_range := True\<rparr>), lt_range_locks := a # lt_range_locks lt\<rparr>"

definition global_list_remove :: "lock_table \<Rightarrow> addr \<Rightarrow> lock_table" where
  "global_list_remove lt a =
     (let e = lt_mem lt a in
      if lk_is_range e then lt\<lparr>lt_range_locks := remove1 a (lt_range_locks lt)\<rparr>
      else let b = hash_row_id (lk_row_id e)
        in lt\<lparr>lt_buckets := (lt_buckets lt)(b := remove1 a (lt_buckets lt b))\<rparr>)"

section \<open>Conflicts\<close>

definition incompatible :: "lock_entry \<Rightarrow> lock_mode \<Rightarrow> bool" where
  "incompatible e mode \<longleftrightarrow> lk_mode e = LOCK_X \<or> mode = LOCK_X"

definition point_vs_point :: "lock_table \<Rightarrow> u64 \<Rightarrow> lock_mode \<Rightarrow> thread \<Rightarrow> bool" where
  "point_vs_point lt row_id mode self =
     list_ex (\<lambda>a. let e = lt_mem lt a in lk_row_id e = row_id \<and> lk_owner e \<noteq> self \<and> incompatible e mode)
       (lt_buckets lt (hash_row_id row_id))"

definition point_vs_range :: "lock_table \<Rightarrow> u64 \<Rightarrow> lock_mode \<Rightarrow> thread \<Rightarrow> bool" where
  "point_vs_range lt key mode self =
     list_ex (\<lambda>a. let e = lt_mem lt a in
         lk_owner e \<noteq> self \<and> key \<ge> lk_row_id e \<and> key \<le> lk_range_high e \<and> incompatible e mode)
       (lt_range_locks lt)"

definition range_vs_range :: "lock_table \<Rightarrow> u64 \<Rightarrow> u64 \<Rightarrow> lock_mode \<Rightarrow> thread \<Rightarrow> bool" where
  "range_vs_range lt low high mode self =
     list_ex (\<lambda>a. let e = lt_mem lt a in
         lk_owner e \<noteq> self \<and> low \<le> lk_range_high e \<and> lk_row_id e \<le> high \<and> incompatible e mode)
       (lt_range_locks lt)"

definition range_vs_point :: "lock_table \<Rightarrow> u64 \<Rightarrow> u64 \<Rightarrow> lock_mode \<Rightarrow> thread \<Rightarrow> bool" where
  "range_vs_point lt low high mode self =
     list_ex (\<lambda>i. list_ex (\<lambda>a. let e = lt_mem lt a in
         lk_owner e \<noteq> self \<and> lk_row_id e \<ge> low \<and> lk_row_id e \<le> high \<and> incompatible e mode)
       (lt_buckets lt i)) [0..<LOCK_TABLE_BUCKETS]"

definition conflict_exists :: "lock_table \<Rightarrow> u64 \<Rightarrow> lock_mode \<Rightarrow> thread \<Rightarrow> bool" where
  "conflict_exists lt row_id mode self \<longleftrightarrow> point_vs_point lt row_id mode self \<or> point_vs_range lt row_id mode self"

definition range_conflict_exists :: "lock_table \<Rightarrow> u64 \<Rightarrow> u64 \<Rightarrow> lock_mode \<Rightarrow> thread \<Rightarrow> bool" where
  "range_conflict_exists lt low high mode self \<longleftrightarrow>
     range_vs_range lt low high mode self \<or> range_vs_point lt low high mode self"

section \<open>Acquiring\<close>

text \<open>
  An acquisition returns 0 or -1, or waits: with the request, the entry to upgrade and whether the
  thread counts as a waiting writer.
\<close>

datatype request = Point u64 lock_mode | Range u64 u64 lock_mode

record waiting =
  wt_request :: request
  wt_entry :: "addr option"
  wt_registered :: bool

datatype acquisition = Returned int | Waits waiting

definition own_point_lock :: "lock_table \<Rightarrow> u64 \<Rightarrow> thread \<Rightarrow> addr option" where
  "own_point_lock lt row_id self =
     find (\<lambda>a. lk_row_id (lt_mem lt a) = row_id \<and> lk_owner (lt_mem lt a) = self) (lt_buckets lt (hash_row_id row_id))"

definition own_range_covers :: "lock_table \<Rightarrow> u64 \<Rightarrow> u64 \<Rightarrow> lock_mode \<Rightarrow> thread \<Rightarrow> bool" where
  "own_range_covers lt low high mode self =
     list_ex (\<lambda>a. let e = lt_mem lt a in
         lk_owner e = self \<and> lk_row_id e \<le> low \<and> lk_range_high e \<ge> high \<and> (lk_mode e = LOCK_X \<or> mode = LOCK_S))
       (lt_range_locks lt)"

definition upgradable :: "lock_table \<Rightarrow> thread \<Rightarrow> u64 \<Rightarrow> addr option \<Rightarrow> bool" where
  "upgradable lt self row_id e =
     (case e of None \<Rightarrow> False | Some a \<Rightarrow> lk_row_id (lt_mem lt a) = row_id \<and> lk_owner (lt_mem lt a) = self)"

text \<open>One test of the wait loop and what follows it.\<close>

definition acquire_point_try ::
  "lock_table \<Rightarrow> thread \<Rightarrow> u64 \<Rightarrow> lock_mode \<Rightarrow> addr option \<Rightarrow> bool \<Rightarrow> addr option \<Rightarrow> acquisition \<times> lock_table" where
  "acquire_point_try lt self row_id mode e registered calloc =
     (if conflict_exists lt row_id mode self \<or> reader_should_wait lt mode then
        if mode = LOCK_X then
          (Waits \<lparr>wt_request = Point row_id mode, wt_entry = e, wt_registered = True\<rparr>, waiting_writer_register lt registered)
        else (Waits \<lparr>wt_request = Point row_id mode, wt_entry = e, wt_registered = registered\<rparr>, lt)
      else if upgradable lt self row_id e then
        (Returned 0, waiting_writer_unregister
           (lt\<lparr>lt_mem := (lt_mem lt)(the e := (lt_mem lt (the e))\<lparr>lk_mode := mode\<rparr>)\<rparr>) registered)
      else case calloc of
        None \<Rightarrow> (Returned (-1), lt)
      | Some ne \<Rightarrow>
          let lt = global_list_insert_point lt (hash_row_id row_id) ne
                \<lparr>lk_row_id = row_id, lk_range_high = 0, lk_mode = mode, lk_owner = self, lk_is_range = False\<rparr>
          in (Returned 0, waiting_writer_unregister (owner_list_push self lt ne) registered))"

definition lock_acquire :: "lock_table \<Rightarrow> thread \<Rightarrow> u64 \<Rightarrow> lock_mode \<Rightarrow> addr option \<Rightarrow> acquisition \<times> lock_table" where
  "lock_acquire lt self row_id mode calloc =
     (case own_point_lock lt row_id self of
        Some a \<Rightarrow> if lk_mode (lt_mem lt a) = LOCK_X \<or> mode = LOCK_S then (Returned 0, lt)
                  else acquire_point_try lt self row_id mode (Some a) False calloc
      | None \<Rightarrow> acquire_point_try lt self row_id mode None False calloc)"

definition acquire_range_try ::
  "lock_table \<Rightarrow> thread \<Rightarrow> u64 \<Rightarrow> u64 \<Rightarrow> lock_mode \<Rightarrow> bool \<Rightarrow> addr option \<Rightarrow> acquisition \<times> lock_table" where
  "acquire_range_try lt self low high mode registered calloc =
     (if range_conflict_exists lt low high mode self \<or> reader_should_wait lt mode then
        if mode = LOCK_X then
          (Waits \<lparr>wt_request = Range low high mode, wt_entry = None, wt_registered = True\<rparr>, waiting_writer_register lt registered)
        else (Waits \<lparr>wt_request = Range low high mode, wt_entry = None, wt_registered = registered\<rparr>, lt)
      else case calloc of
        None \<Rightarrow> (Returned (-1), lt)
      | Some ne \<Rightarrow>
          let lt = global_list_insert_range lt ne
                \<lparr>lk_row_id = low, lk_range_high = high, lk_mode = mode, lk_owner = self, lk_is_range = True\<rparr>
          in (Returned 0, waiting_writer_unregister (owner_list_push self lt ne) registered))"

definition lock_acquire_range ::
  "lock_table \<Rightarrow> thread \<Rightarrow> u64 \<Rightarrow> u64 \<Rightarrow> lock_mode \<Rightarrow> addr option \<Rightarrow> acquisition \<times> lock_table" where
  "lock_acquire_range lt self low high mode calloc =
     (if own_range_covers lt low high mode self then (Returned 0, lt)
      else acquire_range_try lt self low high mode False calloc)"

fun acquire_start :: "lock_table \<Rightarrow> thread \<Rightarrow> request \<Rightarrow> addr option \<Rightarrow> acquisition \<times> lock_table" where
  "acquire_start lt self (Point row_id mode) calloc = lock_acquire lt self row_id mode calloc"
| "acquire_start lt self (Range low high mode) calloc = lock_acquire_range lt self low high mode calloc"

text \<open>The condition variable was signalled (or woke up for no reason): the loop tests again.\<close>

definition acquire_woken :: "lock_table \<Rightarrow> thread \<Rightarrow> waiting \<Rightarrow> addr option \<Rightarrow> acquisition \<times> lock_table" where
  "acquire_woken lt self w calloc =
     (case wt_request w of
        Point row_id mode \<Rightarrow> acquire_point_try lt self row_id mode (wt_entry w) (wt_registered w) calloc
      | Range low high mode \<Rightarrow> acquire_range_try lt self low high mode (wt_registered w) calloc)"

text \<open>The deadline of three seconds passed.\<close>

definition acquire_timeout :: "lock_table \<Rightarrow> waiting \<Rightarrow> acquisition \<times> lock_table" where
  "acquire_timeout lt w = (Returned (-1), waiting_writer_unregister lt (wt_registered w))"

section \<open>Releasing and statistics\<close>

definition lock_release_all :: "lock_table \<Rightarrow> thread \<Rightarrow> lock_table" where
  "lock_release_all lt self =
     (if lt_held_table lt self then
        foldl global_list_remove
          (lt\<lparr>lt_held := (lt_held lt)(self := []), lt_held_table := (lt_held_table lt)(self := False)\<rparr>)
          (lt_held lt self)
      else lt)"

definition all_entries :: "lock_table \<Rightarrow> addr list" where
  "all_entries lt = concat (map (lt_buckets lt) [0..<LOCK_TABLE_BUCKETS]) @ lt_range_locks lt"

record lock_stats =
  total :: nat
  shared :: nat
  exclusive :: nat

definition lock_table_stats :: "lock_table \<Rightarrow> lock_stats" where
  "lock_table_stats lt =
     (let es = map (lt_mem lt) (all_entries lt)
      in \<lparr>total = length es, shared = length (filter (\<lambda>e. lk_mode e = LOCK_S) es),
          exclusive = length (filter (\<lambda>e. lk_mode e \<noteq> LOCK_S) es)\<rparr>)"

text \<open>\<open>lock_table_destroy\<close> empties the lists and forgets the calling thread's list only.\<close>

definition lock_table_destroy :: "lock_table \<Rightarrow> thread \<Rightarrow> lock_table" where
  "lock_table_destroy lt self =
     (let lt = lt\<lparr>lt_buckets := (\<lambda>i. if i < LOCK_TABLE_BUCKETS then [] else lt_buckets lt i), lt_range_locks := []\<rparr>
      in if lt_held_table lt self
         then lt\<lparr>lt_held := (lt_held lt)(self := []), lt_held_table := (lt_held_table lt)(self := False)\<rparr> else lt)"

section \<open>Threads\<close>

record lock_sys =
  sy_table :: lock_table
  sy_waits :: "thread \<Rightarrow> waiting option"

fun after :: "thread \<Rightarrow> acquisition \<times> lock_table \<Rightarrow> lock_sys \<Rightarrow> lock_sys" where
  "after th (Returned rc, lt) s = \<lparr>sy_table = lt, sy_waits = (sy_waits s)(th := None)\<rparr>"
| "after th (Waits w, lt) s = \<lparr>sy_table = lt, sy_waits = (sy_waits s)(th := Some w)\<rparr>"

definition fresh :: "lock_table \<Rightarrow> addr option \<Rightarrow> bool" where
  "fresh lt calloc \<longleftrightarrow> (\<forall>a. calloc = Some a \<longrightarrow> a \<notin> set (all_entries lt))"

inductive lock_step :: "lock_sys \<Rightarrow> lock_sys \<Rightarrow> bool" where
  start: "sy_waits s th = None \<Longrightarrow> fresh (sy_table s) calloc
    \<Longrightarrow> lock_step s (after th (acquire_start (sy_table s) th req calloc) s)"
| woken: "sy_waits s th = Some w \<Longrightarrow> fresh (sy_table s) calloc
    \<Longrightarrow> lock_step s (after th (acquire_woken (sy_table s) th w calloc) s)"
| timeout: "sy_waits s th = Some w \<Longrightarrow> lock_step s (after th (acquire_timeout (sy_table s) w) s)"
| release: "sy_waits s th = None \<Longrightarrow> lock_step s (s\<lparr>sy_table := lock_release_all (sy_table s) th\<rparr>)"

inductive reachable :: "lock_sys \<Rightarrow> bool" where
  init: "reachable \<lparr>sy_table = lock_table_init, sy_waits = (\<lambda>_. None)\<rparr>"
| step: "reachable s \<Longrightarrow> lock_step s s' \<Longrightarrow> reachable s'"

inductive_cases lock_stepE: "lock_step s s'"

end
