(* ===== verification/Lock_Inv.thy ===== *)
theory Lock_Inv
  imports Lock_Table
begin

text \<open>
  The lock table's invariant: the lists are well formed, each thread's list holds exactly its own
  entries, and entries of different threads that overlap are both shared. Every step of every
  thread keeps it; the conflict tests agree with the declarative reading.
\<close>

section \<open>What the tests mean\<close>

definition live :: "lock_table \<Rightarrow> addr set" where "live lt = set (all_entries lt)"

definition span_low :: "lock_entry \<Rightarrow> u64" where "span_low e = lk_row_id e"
definition span_high :: "lock_entry \<Rightarrow> u64" where
  "span_high e = (if lk_is_range e then lk_range_high e else lk_row_id e)"

definition overlaps :: "lock_entry \<Rightarrow> u64 \<Rightarrow> u64 \<Rightarrow> bool" where
  "overlaps e low high \<longleftrightarrow> low \<le> span_high e \<and> span_low e \<le> high"

definition blocks :: "lock_entry \<Rightarrow> thread \<Rightarrow> u64 \<Rightarrow> u64 \<Rightarrow> lock_mode \<Rightarrow> bool" where
  "blocks e self low high mode \<longleftrightarrow> lk_owner e \<noteq> self \<and> overlaps e low high \<and> incompatible e mode"

definition lists_ok :: "lock_table \<Rightarrow> bool" where
  "lists_ok lt \<longleftrightarrow>
     (\<forall>i < LOCK_TABLE_BUCKETS. distinct (lt_buckets lt i)
        \<and> (\<forall>a \<in> set (lt_buckets lt i). \<not> lk_is_range (lt_mem lt a) \<and> hash_row_id (lk_row_id (lt_mem lt a)) = i))
     \<and> distinct (lt_range_locks lt) \<and> (\<forall>a \<in> set (lt_range_locks lt). lk_is_range (lt_mem lt a))"

lemma live_iff: "a \<in> live lt \<longleftrightarrow> (\<exists>i < LOCK_TABLE_BUCKETS. a \<in> set (lt_buckets lt i)) \<or> a \<in> set (lt_range_locks lt)"
  by (auto simp: live_def all_entries_def)

lemma hash_less [simp]: "hash_row_id r < LOCK_TABLE_BUCKETS"
  by (simp add: hash_row_id_def LOCK_TABLE_BUCKETS_def)

lemma live_place:
  assumes "lists_ok lt" "a \<in> live lt"
  shows "lk_is_range (lt_mem lt a) \<longleftrightarrow> a \<in> set (lt_range_locks lt)"
    and "\<not> lk_is_range (lt_mem lt a) \<Longrightarrow> a \<in> set (lt_buckets lt (hash_row_id (lk_row_id (lt_mem lt a))))"
  using assms by (auto simp: lists_ok_def live_iff)

lemma conflict_exists_iff:
  assumes "lists_ok lt"
  shows "conflict_exists lt row_id mode self \<longleftrightarrow> (\<exists>a \<in> live lt. blocks (lt_mem lt a) self row_id row_id mode)"
proof -
  have "point_vs_point lt row_id mode self
      \<longleftrightarrow> (\<exists>a \<in> live lt. \<not> lk_is_range (lt_mem lt a) \<and> blocks (lt_mem lt a) self row_id row_id mode)"
    (is "?l \<longleftrightarrow> ?r")
  proof
    assume ?l
    then obtain a where a: "a \<in> set (lt_buckets lt (hash_row_id row_id))" "lk_row_id (lt_mem lt a) = row_id"
      "lk_owner (lt_mem lt a) \<noteq> self" "incompatible (lt_mem lt a) mode"
      by (auto simp: point_vs_point_def list_ex_iff Let_def)
    moreover have "a \<in> live lt" using a(1) hash_less [of row_id] unfolding live_iff by blast
    moreover have "\<not> lk_is_range (lt_mem lt a)" using assms a(1) hash_less [of row_id] unfolding lists_ok_def by blast
    ultimately show ?r by (auto simp: blocks_def overlaps_def span_low_def span_high_def)
  next
    assume ?r
    then obtain a where a: "a \<in> live lt" "\<not> lk_is_range (lt_mem lt a)" "blocks (lt_mem lt a) self row_id row_id mode" by blast
    then have "lk_row_id (lt_mem lt a) = row_id" by (auto simp: blocks_def overlaps_def span_low_def span_high_def)
    with a live_place(2) [OF assms a(1,2)] show ?l
      by (auto simp: point_vs_point_def list_ex_iff Let_def blocks_def)
  qed
  moreover have "point_vs_range lt row_id mode self
      \<longleftrightarrow> (\<exists>a \<in> live lt. lk_is_range (lt_mem lt a) \<and> blocks (lt_mem lt a) self row_id row_id mode)"
    using live_place(1) [OF assms] live_iff [of _ lt]
    by (auto simp: point_vs_range_def list_ex_iff Let_def blocks_def overlaps_def span_low_def span_high_def)
  ultimately show ?thesis by (auto simp: conflict_exists_def)
qed

lemma range_conflict_exists_iff:
  assumes "lists_ok lt"
  shows "range_conflict_exists lt low high mode self \<longleftrightarrow> (\<exists>a \<in> live lt. blocks (lt_mem lt a) self low high mode)"
proof -
  have "range_vs_point lt low high mode self
      \<longleftrightarrow> (\<exists>a \<in> live lt. \<not> lk_is_range (lt_mem lt a) \<and> blocks (lt_mem lt a) self low high mode)"
    using assms live_iff [of _ lt]
    by (fastforce simp: range_vs_point_def list_ex_iff Let_def blocks_def overlaps_def span_low_def span_high_def lists_ok_def)
  moreover have "range_vs_range lt low high mode self
      \<longleftrightarrow> (\<exists>a \<in> live lt. lk_is_range (lt_mem lt a) \<and> blocks (lt_mem lt a) self low high mode)"
    using live_place(1) [OF assms] live_iff [of _ lt]
    by (auto simp: range_vs_range_def list_ex_iff Let_def blocks_def overlaps_def span_low_def span_high_def)
  ultimately show ?thesis by (auto simp: range_conflict_exists_def)
qed

section \<open>The invariant\<close>

definition held_ok :: "lock_table \<Rightarrow> bool" where
  "held_ok lt \<longleftrightarrow> (\<forall>th. distinct (lt_held lt th) \<and> set (lt_held lt th) = {a \<in> live lt. lk_owner (lt_mem lt a) = th}
     \<and> (lt_held_table lt th \<longleftrightarrow> lt_held lt th \<noteq> []))"

definition compatible :: "lock_table \<Rightarrow> bool" where
  "compatible lt \<longleftrightarrow> (\<forall>a \<in> live lt. \<forall>b \<in> live lt. lk_owner (lt_mem lt a) \<noteq> lk_owner (lt_mem lt b)
     \<longrightarrow> overlaps (lt_mem lt a) (span_low (lt_mem lt b)) (span_high (lt_mem lt b))
     \<longrightarrow> lk_mode (lt_mem lt a) = LOCK_S \<and> lk_mode (lt_mem lt b) = LOCK_S)"

definition lt_ok :: "lock_table \<Rightarrow> bool" where
  "lt_ok lt \<longleftrightarrow> lists_ok lt \<and> held_ok lt \<and> compatible lt"

lemma lt_okD: "lt_ok lt \<Longrightarrow> lists_ok lt" "lt_ok lt \<Longrightarrow> held_ok lt" "lt_ok lt \<Longrightarrow> compatible lt"
  by (simp_all add: lt_ok_def)

lemma lt_ok_init: "lt_ok lock_table_init"
  by (auto simp: lt_ok_def lists_ok_def held_ok_def compatible_def lock_table_init_def live_def all_entries_def)

text \<open>The writers' counter is not part of it.\<close>

lemma lt_ok_waiting_writers [simp]: "lt_ok (lt\<lparr>lt_waiting_writers := n\<rparr>) = lt_ok lt"
  by (simp add: lt_ok_def lists_ok_def held_ok_def compatible_def live_def all_entries_def)

lemma register_ok [simp]: "lt_ok (waiting_writer_register lt r) = lt_ok lt" "lt_ok (waiting_writer_unregister lt r) = lt_ok lt"
  by (simp_all add: waiting_writer_register_def waiting_writer_unregister_def)

lemma live_waiting_writers [simp]: "live (lt\<lparr>lt_waiting_writers := n\<rparr>) = live lt"
  by (simp add: live_def all_entries_def)

lemma register_simps [simp]:
  "live (waiting_writer_register lt r) = live lt" "live (waiting_writer_unregister lt r) = live lt"
  "lt_mem (waiting_writer_register lt r) = lt_mem lt" "lt_mem (waiting_writer_unregister lt r) = lt_mem lt"
  "lt_buckets (waiting_writer_register lt r) = lt_buckets lt" "lt_buckets (waiting_writer_unregister lt r) = lt_buckets lt"
  "lt_held (waiting_writer_register lt r) = lt_held lt" "lt_held (waiting_writer_unregister lt r) = lt_held lt"
  "lt_range_locks (waiting_writer_unregister lt r) = lt_range_locks lt"
  by (simp_all add: waiting_writer_register_def waiting_writer_unregister_def)

text \<open>A new entry that nothing of another thread blocks.\<close>

lemma compatible_insert:
  assumes c: "compatible lt" and m: "\<And>b. b \<in> live lt \<Longrightarrow> lt_mem lt' b = lt_mem lt b"
    and lv: "live lt' = insert a (live lt)" and e: "lt_mem lt' a = e"
    and nb: "\<And>b. b \<in> live lt \<Longrightarrow> \<not> blocks (lt_mem lt b) (lk_owner e) (span_low e) (span_high e) (lk_mode e)"
  shows "compatible lt'"
proof -
  have sym: "overlaps x (span_low y) (span_high y) \<longleftrightarrow> overlaps y (span_low x) (span_high x)" for x y
    by (auto simp: overlaps_def)
  have new: "lk_mode e = LOCK_S \<and> lk_mode (lt_mem lt b) = LOCK_S"
    if "b \<in> live lt" "lk_owner (lt_mem lt b) \<noteq> lk_owner e" "overlaps (lt_mem lt b) (span_low e) (span_high e)" for b
    using nb [OF that(1)] that(2,3) by (cases "lk_mode e"; cases "lk_mode (lt_mem lt b)") (auto simp: blocks_def incompatible_def)
  show ?thesis
    unfolding compatible_def lv
  proof (intro ballI impI)
    fix x y
    assume x: "x \<in> insert a (live lt)" "y \<in> insert a (live lt)" and o: "lk_owner (lt_mem lt' x) \<noteq> lk_owner (lt_mem lt' y)"
      "overlaps (lt_mem lt' x) (span_low (lt_mem lt' y)) (span_high (lt_mem lt' y))"
    show "lk_mode (lt_mem lt' x) = LOCK_S \<and> lk_mode (lt_mem lt' y) = LOCK_S"
    proof (cases "x \<in> live lt \<and> y \<in> live lt")
      case True
      then have "lt_mem lt' x = lt_mem lt x" "lt_mem lt' y = lt_mem lt y" using m by blast+
      then show ?thesis using c True o unfolding compatible_def by metis
    next
      case False
      then consider "x = a" "y = a" | "x = a" "y \<in> live lt" | "y = a" "x \<in> live lt" using x by blast
      then show ?thesis
      proof cases
        case 1
        then show ?thesis using o by simp
      next
        case 2
        then show ?thesis using new [of y] m [of y] o e sym [of e] by simp
      next
        case 3
        then show ?thesis using new [of x] m [of x] o e by auto
      qed
    qed
  qed
qed

lemma insert_point_ok:
  assumes ok: "lt_ok lt" and a: "a \<notin> live lt" and e: "lk_owner e = self" "\<not> lk_is_range e"
    and nb: "\<And>b. b \<in> live lt \<Longrightarrow> \<not> blocks (lt_mem lt b) self (lk_row_id e) (lk_row_id e) (lk_mode e)"
  defines "lt' \<equiv> owner_list_push self (global_list_insert_point lt (hash_row_id (lk_row_id e)) a e) a"
  shows "lt_ok lt'" "live lt' = insert a (live lt)" "b \<noteq> a \<Longrightarrow> lt_mem lt' b = lt_mem lt b" "lt_mem lt' a = e"
proof -
  note L = lt_okD(1) [OF ok] and H = lt_okD(2) [OF ok]
  have e': "e\<lparr>lk_is_range := False\<rparr> = e" using e(2) by (cases e) simp
  have simps: "lt_buckets lt' = (lt_buckets lt)(hash_row_id (lk_row_id e) := a # lt_buckets lt (hash_row_id (lk_row_id e)))"
    "lt_range_locks lt' = lt_range_locks lt" "lt_mem lt' = (lt_mem lt)(a := e)"
    "lt_held lt' = (lt_held lt)(self := a # lt_held lt self)" "lt_held_table lt' = (lt_held_table lt)(self := True)"
    by (simp_all add: lt'_def owner_list_push_def global_list_insert_point_def e')
  show lv: "live lt' = insert a (live lt)"
  proof (rule set_eqI)
    fix x
    have "(\<exists>i < LOCK_TABLE_BUCKETS. x \<in> set (lt_buckets lt' i)) \<longleftrightarrow> x = a \<or> (\<exists>i < LOCK_TABLE_BUCKETS. x \<in> set (lt_buckets lt i))"
      (is "?l \<longleftrightarrow> ?r")
    proof
      assume ?l
      then show ?r by (auto simp: simps split: if_splits)
    next
      assume ?r
      then consider "x = a" | i where "i < LOCK_TABLE_BUCKETS" "x \<in> set (lt_buckets lt i)" by blast
      then show ?l
      proof cases
        case 1
        then have "x \<in> set (lt_buckets lt' (hash_row_id (lk_row_id e)))" by (simp add: simps)
        then show ?thesis using hash_less by blast
      next
        case 2
        then have "x \<in> set (lt_buckets lt' i)" by (auto simp: simps)
        then show ?thesis using 2(1) by blast
      qed
    qed
    then show "x \<in> live lt' \<longleftrightarrow> x \<in> insert a (live lt)" unfolding live_iff insert_iff simps(2) by blast
  qed
  have m: "lt_mem lt' c = lt_mem lt c" if "c \<noteq> a" for c using that simps by simp
  show "b \<noteq> a \<Longrightarrow> lt_mem lt' b = lt_mem lt b" by (rule m)
  show me: "lt_mem lt' a = e" by (simp add: simps)
  have na: "a \<notin> set (lt_buckets lt i)" if "i < LOCK_TABLE_BUCKETS" for i using a that by (auto simp: live_iff)
  have nr: "a \<notin> set (lt_range_locks lt)" using a by (auto simp: live_iff)
  have "distinct (lt_buckets lt' i) \<and> (\<forall>x \<in> set (lt_buckets lt' i).
      \<not> lk_is_range (lt_mem lt' x) \<and> hash_row_id (lk_row_id (lt_mem lt' x)) = i)" if "i < LOCK_TABLE_BUCKETS" for i
    using L na [OF that] e(2) that by (auto simp: lists_ok_def simps)
  then have "lists_ok lt'" using L nr by (auto simp: lists_ok_def simps(2,3))
  moreover have "held_ok lt'"
    unfolding held_ok_def lv using H a e(1) by (auto simp: held_ok_def simps)
  moreover have "compatible lt'"
  proof (rule compatible_insert [OF lt_okD(3) [OF ok] _ lv me])
    fix b assume b: "b \<in> live lt"
    then show "lt_mem lt' b = lt_mem lt b" using a m by metis
    show "\<not> blocks (lt_mem lt b) (lk_owner e) (span_low e) (span_high e) (lk_mode e)"
      using nb [OF b] e by (simp add: span_low_def span_high_def)
  qed
  ultimately show "lt_ok lt'" by (simp add: lt_ok_def)
qed

lemma insert_range_ok:
  assumes ok: "lt_ok lt" and a: "a \<notin> live lt" and e: "lk_owner e = self" "lk_is_range e"
    and nb: "\<And>b. b \<in> live lt \<Longrightarrow> \<not> blocks (lt_mem lt b) self (lk_row_id e) (lk_range_high e) (lk_mode e)"
  defines "lt' \<equiv> owner_list_push self (global_list_insert_range lt a e) a"
  shows "lt_ok lt'" "live lt' = insert a (live lt)" "b \<noteq> a \<Longrightarrow> lt_mem lt' b = lt_mem lt b" "lt_mem lt' a = e"
proof -
  note L = lt_okD(1) [OF ok] and H = lt_okD(2) [OF ok]
  have e': "e\<lparr>lk_is_range := True\<rparr> = e" using e(2) by (cases e) simp
  have simps: "lt_buckets lt' = lt_buckets lt" "lt_range_locks lt' = a # lt_range_locks lt" "lt_mem lt' = (lt_mem lt)(a := e)"
    "lt_held lt' = (lt_held lt)(self := a # lt_held lt self)" "lt_held_table lt' = (lt_held_table lt)(self := True)"
    by (simp_all add: lt'_def owner_list_push_def global_list_insert_range_def e')
  show lv: "live lt' = insert a (live lt)" by (auto simp: live_iff simps)
  have m: "lt_mem lt' c = lt_mem lt c" if "c \<noteq> a" for c using that simps by simp
  show "b \<noteq> a \<Longrightarrow> lt_mem lt' b = lt_mem lt b" by (rule m)
  show me: "lt_mem lt' a = e" by (simp add: simps)
  have na: "a \<notin> set (lt_buckets lt i)" if "i < LOCK_TABLE_BUCKETS" for i using a that by (auto simp: live_iff)
  have nr: "a \<notin> set (lt_range_locks lt)" using a by (auto simp: live_iff)
  have "lists_ok lt'" using L na nr e(2) by (fastforce simp: lists_ok_def simps)
  moreover have "held_ok lt'"
    unfolding held_ok_def lv using H a e(1) by (auto simp: held_ok_def simps)
  moreover have "compatible lt'"
  proof (rule compatible_insert [OF lt_okD(3) [OF ok] _ lv me])
    fix b assume b: "b \<in> live lt"
    then show "lt_mem lt' b = lt_mem lt b" using a m by metis
    show "\<not> blocks (lt_mem lt b) (lk_owner e) (span_low e) (span_high e) (lk_mode e)"
      using nb [OF b] e by (simp add: span_low_def span_high_def)
  qed
  ultimately show "lt_ok lt'" by (simp add: lt_ok_def)
qed

text \<open>An upgrade of an own entry.\<close>

lemma upgrade_ok:
  assumes ok: "lt_ok lt" and a: "a \<in> live lt" "lk_owner (lt_mem lt a) = self" "\<not> lk_is_range (lt_mem lt a)"
    and nb: "\<And>b. b \<in> live lt \<Longrightarrow> \<not> blocks (lt_mem lt b) self (lk_row_id (lt_mem lt a)) (lk_row_id (lt_mem lt a)) mode"
  defines "lt' \<equiv> lt\<lparr>lt_mem := (lt_mem lt)(a := (lt_mem lt a)\<lparr>lk_mode := mode\<rparr>)\<rparr>"
  shows "lt_ok lt'" "live lt' = live lt"
proof -
  show lv: "live lt' = live lt" by (simp add: lt'_def live_def all_entries_def)
  have "lists_ok lt'" using lt_okD(1) [OF ok] by (auto simp: lists_ok_def lt'_def)
  moreover have "held_ok lt'" using lt_okD(2) [OF ok] unfolding held_ok_def lv by (auto simp: lt'_def)
  moreover have "compatible lt'"
  proof -
    have me: "lt_mem lt' a = (lt_mem lt a)\<lparr>lk_mode := mode\<rparr>" "\<And>b. b \<noteq> a \<Longrightarrow> lt_mem lt' b = lt_mem lt b"
      by (simp_all add: lt'_def)
    have other: "lk_mode (lt_mem lt b) = LOCK_S \<and> mode = LOCK_S"
      if "b \<in> live lt" "lk_owner (lt_mem lt b) \<noteq> self"
        "overlaps (lt_mem lt b) (lk_row_id (lt_mem lt a)) (lk_row_id (lt_mem lt a))" for b
      using nb [OF that(1)] that(2,3) by (cases mode; cases "lk_mode (lt_mem lt b)") (auto simp: blocks_def incompatible_def)
    have sp: "span_low (lt_mem lt' a) = lk_row_id (lt_mem lt a)" "span_high (lt_mem lt' a) = lk_row_id (lt_mem lt a)"
      "lk_owner (lt_mem lt' a) = self" "lk_mode (lt_mem lt' a) = mode"
      using a by (simp_all add: me(1) span_low_def span_high_def)
    show ?thesis
      unfolding compatible_def lv
    proof (intro ballI impI)
      fix x y
      assume x: "x \<in> live lt" "y \<in> live lt" and o: "lk_owner (lt_mem lt' x) \<noteq> lk_owner (lt_mem lt' y)"
        "overlaps (lt_mem lt' x) (span_low (lt_mem lt' y)) (span_high (lt_mem lt' y))"
      consider "x \<noteq> a" "y \<noteq> a" | "x = a" "y \<noteq> a" | "y = a" "x \<noteq> a" using o(1) by auto
      then show "lk_mode (lt_mem lt' x) = LOCK_S \<and> lk_mode (lt_mem lt' y) = LOCK_S"
      proof cases
        case 1
        then show ?thesis using lt_okD(3) [OF ok] x o by (simp add: compatible_def me(2))
      next
        case 2
        then show ?thesis using other [OF x(2)] o sp me(2) [of y] by (auto simp: overlaps_def)
      next
        case 3
        then show ?thesis using other [OF x(1)] o sp me(2) [of x] by (auto simp: overlaps_def)
      qed
    qed
  qed
  ultimately show "lt_ok lt'" by (simp add: lt_ok_def)
qed

section \<open>Releasing\<close>

lemma remove_ok:
  assumes L: "lists_ok lt" and a: "a \<in> live lt"
  defines "lt' \<equiv> global_list_remove lt a"
  shows "lists_ok lt'" "live lt' = live lt - {a}" "lt_mem lt' = lt_mem lt" "lt_held lt' = lt_held lt"
    "lt_held_table lt' = lt_held_table lt" "lt_waiting_writers lt' = lt_waiting_writers lt"
proof -
  show m: "lt_mem lt' = lt_mem lt" and "lt_held lt' = lt_held lt" "lt_held_table lt' = lt_held_table lt"
    "lt_waiting_writers lt' = lt_waiting_writers lt"
    by (simp_all add: lt'_def global_list_remove_def Let_def)
  have d: "distinct (lt_range_locks lt)" "\<And>i. i < LOCK_TABLE_BUCKETS \<Longrightarrow> distinct (lt_buckets lt i)"
    and r: "\<And>b. b \<in> set (lt_range_locks lt) \<Longrightarrow> lk_is_range (lt_mem lt b)"
    and p: "\<And>i b. i < LOCK_TABLE_BUCKETS \<Longrightarrow> b \<in> set (lt_buckets lt i) \<Longrightarrow> \<not> lk_is_range (lt_mem lt b) \<and> hash_row_id (lk_row_id (lt_mem lt b)) = i"
    using L unfolding lists_ok_def by blast+
  have "lists_ok lt' \<and> live lt' = live lt - {a}"
  proof (cases "lk_is_range (lt_mem lt a)")
    case True
    then have e: "lt_range_locks lt' = remove1 a (lt_range_locks lt)" "lt_buckets lt' = lt_buckets lt"
      by (simp_all add: lt'_def global_list_remove_def Let_def)
    have na: "a \<notin> set (lt_buckets lt i)" if "i < LOCK_TABLE_BUCKETS" for i using p [OF that] True by blast
    have "live lt' = live lt - {a}"
      using na by (auto simp: live_iff e set_remove1_eq [OF d(1)])
    moreover have "lists_ok lt'" using L d(1) by (simp add: lists_ok_def e m set_remove1_eq)
    ultimately show ?thesis by blast
  next
    case False
    let ?b = "hash_row_id (lk_row_id (lt_mem lt a))"
    have e: "lt_range_locks lt' = lt_range_locks lt" "lt_buckets lt' = (lt_buckets lt)(?b := remove1 a (lt_buckets lt ?b))"
      using False by (simp_all add: lt'_def global_list_remove_def Let_def)
    have na: "a \<notin> set (lt_buckets lt i)" if "i < LOCK_TABLE_BUCKETS" "i \<noteq> ?b" for i using p [OF that(1)] that(2) by blast
    have nr: "a \<notin> set (lt_range_locks lt)" using r False by blast
    have sb: "set (lt_buckets lt' i) = set (lt_buckets lt i) - {a}" if "i < LOCK_TABLE_BUCKETS" for i
      using na [OF that] that d(2) [OF hash_less] by (simp add: e set_remove1_eq)
    have mem: "x \<in> set (lt_buckets lt' i) \<longleftrightarrow> x \<in> set (lt_buckets lt i) \<and> x \<noteq> a" if "i < LOCK_TABLE_BUCKETS" for x i
      using sb [OF that] by auto
    have "live lt' = live lt - {a}"
    proof (rule set_eqI)
      fix x
      show "x \<in> live lt' \<longleftrightarrow> x \<in> live lt - {a}"
        unfolding live_iff e(1) Diff_iff singleton_iff using mem nr by blast
    qed
    moreover have "lists_ok lt'"
      unfolding lists_ok_def using sb p r d by (auto simp: e m)
    ultimately show ?thesis by blast
  qed
  then show "lists_ok lt'" "live lt' = live lt - {a}" by blast+
qed

lemma remove_all_ok:
  assumes "lists_ok lt" "set as \<subseteq> live lt" "distinct as"
  shows "lists_ok (foldl global_list_remove lt as)" "live (foldl global_list_remove lt as) = live lt - set as"
    "lt_mem (foldl global_list_remove lt as) = lt_mem lt" "lt_held (foldl global_list_remove lt as) = lt_held lt"
    "lt_held_table (foldl global_list_remove lt as) = lt_held_table lt"
    "lt_waiting_writers (foldl global_list_remove lt as) = lt_waiting_writers lt"
proof -
  have "lists_ok (foldl global_list_remove lt as) \<and> live (foldl global_list_remove lt as) = live lt - set as
    \<and> lt_mem (foldl global_list_remove lt as) = lt_mem lt \<and> lt_held (foldl global_list_remove lt as) = lt_held lt
    \<and> lt_held_table (foldl global_list_remove lt as) = lt_held_table lt
    \<and> lt_waiting_writers (foldl global_list_remove lt as) = lt_waiting_writers lt"
    using assms
  proof (induction as arbitrary: lt)
    case (Cons a as)
    have "a \<in> live lt" using Cons.prems by simp
    note R = remove_ok [OF Cons.prems(1) this]
    have "set as \<subseteq> live (global_list_remove lt a)" using Cons.prems R(2) by auto
    from Cons.IH [OF R(1) this] Cons.prems(3) R show ?case by auto
  qed simp
  then show "lists_ok (foldl global_list_remove lt as)" "live (foldl global_list_remove lt as) = live lt - set as"
    "lt_mem (foldl global_list_remove lt as) = lt_mem lt" "lt_held (foldl global_list_remove lt as) = lt_held lt"
    "lt_held_table (foldl global_list_remove lt as) = lt_held_table lt"
    "lt_waiting_writers (foldl global_list_remove lt as) = lt_waiting_writers lt" by blast+
qed

lemma release_all_ok:
  fixes self :: thread
  assumes ok: "lt_ok lt"
  defines "lt' \<equiv> lock_release_all lt self"
  shows "lt_ok lt'" "live lt' = {a \<in> live lt. lk_owner (lt_mem lt a) \<noteq> self}" "lt_mem lt' = lt_mem lt"
    "lt_waiting_writers lt' = lt_waiting_writers lt"
proof -
  have H: "distinct (lt_held lt self)" "set (lt_held lt self) = {a \<in> live lt. lk_owner (lt_mem lt a) = self}"
    "lt_held_table lt self \<longleftrightarrow> lt_held lt self \<noteq> []" using lt_okD(2) [OF ok] by (simp_all add: held_ok_def)
  have all: "lt_ok lt' \<and> live lt' = {a \<in> live lt. lk_owner (lt_mem lt a) \<noteq> self} \<and> lt_mem lt' = lt_mem lt
    \<and> lt_waiting_writers lt' = lt_waiting_writers lt"
  proof (cases "lt_held_table lt self")
    case False
    then have "lt_held lt self = []" using H(3) by simp
    then have "{a \<in> live lt. lk_owner (lt_mem lt a) = self} = {}" using H(2) by simp
    then have "live lt = {a \<in> live lt. lk_owner (lt_mem lt a) \<noteq> self}" by blast
    with False ok show ?thesis by (simp add: lt'_def lock_release_all_def)
  next
    case True
    define lt0 where "lt0 = lt\<lparr>lt_held := (lt_held lt)(self := []), lt_held_table := (lt_held_table lt)(self := False)\<rparr>"
    have l0: "live lt0 = live lt" "lists_ok lt0" "lt_mem lt0 = lt_mem lt"
      using lt_okD(1) [OF ok] by (simp_all add: lt0_def live_def all_entries_def lists_ok_def)
    have sub: "set (lt_held lt self) \<subseteq> live lt0" using H(2) l0(1) by auto
    have eq: "lt' = foldl global_list_remove lt0 (lt_held lt self)"
      using True by (simp add: lt'_def lock_release_all_def lt0_def)
    note R = remove_all_ok [OF l0(2) sub H(1), folded eq]
    have lv: "live lt' = {a \<in> live lt. lk_owner (lt_mem lt a) \<noteq> self}" using R(2) H(2) l0(1) by auto
    have "held_ok lt'"
      unfolding held_ok_def lv R(3,4,5) using lt_okD(2) [OF ok] by (auto simp: held_ok_def lt0_def)
    moreover have "compatible lt'"
      using lt_okD(3) [OF ok] unfolding compatible_def lv R(3) l0(3) by blast
    ultimately show ?thesis using R(1,3,6) l0(3) lv by (simp add: lt_ok_def lt0_def)
  qed
  then show "lt_ok lt'" "live lt' = {a \<in> live lt. lk_owner (lt_mem lt a) \<noteq> self}" "lt_mem lt' = lt_mem lt"
    "lt_waiting_writers lt' = lt_waiting_writers lt" by blast+
qed

section \<open>Every step keeps the invariant\<close>

definition own_entry :: "lock_table \<Rightarrow> thread \<Rightarrow> u64 \<Rightarrow> addr \<Rightarrow> bool" where
  "own_entry lt self row_id a \<longleftrightarrow>
     a \<in> live lt \<and> lk_row_id (lt_mem lt a) = row_id \<and> lk_owner (lt_mem lt a) = self \<and> \<not> lk_is_range (lt_mem lt a)"

definition waiting_ok :: "lock_table \<Rightarrow> thread \<Rightarrow> waiting \<Rightarrow> bool" where
  "waiting_ok lt self w \<longleftrightarrow>
     (\<forall>a. wt_entry w = Some a \<longrightarrow> (\<exists>row_id mode. wt_request w = Point row_id mode \<and> own_entry lt self row_id a))"

definition others_kept :: "thread \<Rightarrow> lock_table \<Rightarrow> lock_table \<Rightarrow> bool" where
  "others_kept self lt lt' \<longleftrightarrow>
     (\<forall>a. lk_owner (lt_mem lt a) \<noteq> self \<and> a \<in> live lt \<longrightarrow> a \<in> live lt' \<and> lt_mem lt' a = lt_mem lt a)"

definition acquired :: "thread \<Rightarrow> lock_table \<Rightarrow> acquisition \<times> lock_table \<Rightarrow> bool" where
  "acquired self lt r \<longleftrightarrow> lt_ok (snd r) \<and> others_kept self lt (snd r) \<and> (\<forall>w. fst r = Waits w \<longrightarrow> waiting_ok (snd r) self w)"

lemma acquiredI_same:
  assumes "lt_ok lt" "lt' = waiting_writer_register lt b \<or> lt' = waiting_writer_unregister lt b \<or> lt' = lt"
    and "\<And>w. r = Waits w \<Longrightarrow> waiting_ok lt self w"
  shows "acquired self lt (r, lt')"
  using assms by (auto simp: acquired_def others_kept_def waiting_ok_def own_entry_def)

lemma acquire_point_try_ok:
  assumes ok: "lt_ok lt" and f: "fresh lt calloc" and e: "\<And>a. e = Some a \<Longrightarrow> own_entry lt self row_id a"
  shows "acquired self lt (acquire_point_try lt self row_id mode e registered calloc)"
proof (cases "conflict_exists lt row_id mode self \<or> reader_should_wait lt mode")
  case True
  have "waiting_ok lt self \<lparr>wt_request = Point row_id mode, wt_entry = e, wt_registered = b\<rparr>" for b
    using e by (simp add: waiting_ok_def)
  with True ok show ?thesis
    by (cases "mode = LOCK_X") (auto simp: acquire_point_try_def intro!: acquiredI_same)
next
  case False
  have nb: "\<not> blocks (lt_mem lt b) self row_id row_id mode" if "b \<in> live lt" for b
    using False conflict_exists_iff [OF lt_okD(1) [OF ok]] that by blast
  show ?thesis
  proof (cases "upgradable lt self row_id e")
    case True
    then obtain a where ea: "e = Some a" by (cases e) (simp_all add: upgradable_def)
    note E = e [OF ea, unfolded own_entry_def]
    have "\<And>b. b \<in> live lt \<Longrightarrow> \<not> blocks (lt_mem lt b) self (lk_row_id (lt_mem lt a)) (lk_row_id (lt_mem lt a)) mode"
      using nb E by simp
    with upgrade_ok [OF ok _ _ _ this] E True False ea show ?thesis
      by (auto simp: acquire_point_try_def acquired_def others_kept_def)
  next
    case up: False
    show ?thesis
    proof (cases calloc)
      case None
      with False up ok show ?thesis by (auto simp: acquire_point_try_def intro!: acquiredI_same)
    next
      case (Some ne)
      let ?e = "\<lparr>lk_row_id = row_id, lk_range_high = 0, lk_mode = mode, lk_owner = self, lk_is_range = False\<rparr>"
      have ne: "ne \<notin> live lt" using f Some by (simp add: fresh_def live_def)
      have nb': "\<And>b. b \<in> live lt \<Longrightarrow> \<not> blocks (lt_mem lt b) self (lk_row_id ?e) (lk_row_id ?e) (lk_mode ?e)" using nb by simp
      have "lk_owner ?e = self" "\<not> lk_is_range ?e" by simp_all
      note I = insert_point_ok [OF ok ne this nb']
      have "\<And>b. b \<in> live lt \<Longrightarrow> b \<noteq> ne" using ne by blast
      with False up Some I show ?thesis
        by (auto simp: acquire_point_try_def acquired_def others_kept_def Let_def)
    qed
  qed
qed

lemma acquire_range_try_ok:
  assumes ok: "lt_ok lt" and f: "fresh lt calloc"
  shows "acquired self lt (acquire_range_try lt self low high mode registered calloc)"
proof (cases "range_conflict_exists lt low high mode self \<or> reader_should_wait lt mode")
  case True
  have "waiting_ok lt self \<lparr>wt_request = Range low high mode, wt_entry = None, wt_registered = b\<rparr>" for b
    by (simp add: waiting_ok_def)
  with True ok show ?thesis
    by (cases "mode = LOCK_X") (auto simp: acquire_range_try_def intro!: acquiredI_same)
next
  case False
  have nb: "\<not> blocks (lt_mem lt b) self low high mode" if "b \<in> live lt" for b
    using False range_conflict_exists_iff [OF lt_okD(1) [OF ok]] that by blast
  show ?thesis
  proof (cases calloc)
    case None
    with False ok show ?thesis by (auto simp: acquire_range_try_def intro!: acquiredI_same)
  next
    case (Some ne)
    let ?e = "\<lparr>lk_row_id = low, lk_range_high = high, lk_mode = mode, lk_owner = self, lk_is_range = True\<rparr>"
    have ne: "ne \<notin> live lt" using f Some by (simp add: fresh_def live_def)
    have nb': "\<And>b. b \<in> live lt \<Longrightarrow> \<not> blocks (lt_mem lt b) self (lk_row_id ?e) (lk_range_high ?e) (lk_mode ?e)" using nb by simp
    have "lk_owner ?e = self" "lk_is_range ?e" by simp_all
    note I = insert_range_ok [OF ok ne this nb']
    have "\<And>b. b \<in> live lt \<Longrightarrow> b \<noteq> ne" using ne by blast
    with False Some I show ?thesis
      by (auto simp: acquire_range_try_def acquired_def others_kept_def Let_def)
  qed
qed

lemma acquire_start_ok:
  assumes ok: "lt_ok lt" and f: "fresh lt calloc"
  shows "acquired self lt (acquire_start lt self req calloc)"
proof (cases req)
  case (Point row_id mode)
  show ?thesis
  proof (cases "own_point_lock lt row_id self")
    case None
    then show ?thesis using acquire_point_try_ok [OF ok f, of None] Point by (simp add: lock_acquire_def)
  next
    case (Some a)
    then have "a \<in> set (lt_buckets lt (hash_row_id row_id))" "lk_row_id (lt_mem lt a) = row_id" "lk_owner (lt_mem lt a) = self"
      by (auto simp: own_point_lock_def find_Some_iff)
    then have "own_entry lt self row_id a"
      using lt_okD(1) [OF ok] hash_less [of row_id] unfolding own_entry_def live_iff lists_ok_def by blast
    then have "acquired self lt (acquire_point_try lt self row_id mode (Some a) False calloc)"
      by (intro acquire_point_try_ok [OF ok f]) simp
    moreover have "acquired self lt (Returned 0, lt)" using ok by (auto intro!: acquiredI_same)
    ultimately show ?thesis using Some Point by (simp add: lock_acquire_def)
  qed
next
  case (Range low high mode)
  have "acquired self lt (Returned 0, lt)" using ok by (auto intro!: acquiredI_same)
  with Range acquire_range_try_ok [OF ok f] show ?thesis by (simp add: lock_acquire_range_def)
qed

lemma acquire_woken_ok:
  assumes "lt_ok lt" "fresh lt calloc" "waiting_ok lt self w"
  shows "acquired self lt (acquire_woken lt self w calloc)"
  using assms acquire_point_try_ok [OF assms(1,2)] acquire_range_try_ok [OF assms(1,2)]
  by (auto simp: acquire_woken_def waiting_ok_def split: request.split)

definition sys_ok :: "lock_sys \<Rightarrow> bool" where
  "sys_ok s \<longleftrightarrow> lt_ok (sy_table s) \<and> (\<forall>th w. sy_waits s th = Some w \<longrightarrow> waiting_ok (sy_table s) th w)"

lemma waiting_ok_others:
  assumes "waiting_ok lt th w" "others_kept self lt lt'" "th \<noteq> self"
  shows "waiting_ok lt' th w"
  using assms unfolding waiting_ok_def others_kept_def own_entry_def by metis

lemma after_ok:
  assumes "sys_ok s" "acquired th (sy_table s) r"
  shows "sys_ok (after th r s)"
proof -
  obtain q lt' where r: "r = (q, lt')" by (cases r)
  have "waiting_ok lt' th' w" if "sy_waits s th' = Some w" "th' \<noteq> th" for th' w
    by (rule waiting_ok_others [of "sy_table s" th' w th]) (use that assms in \<open>auto simp: sys_ok_def acquired_def r\<close>)
  then show ?thesis
    using assms(2) by (cases q) (auto simp: sys_ok_def acquired_def r)
qed

lemma lock_step_ok:
  assumes "lock_step s s'" "sys_ok s"
  shows "sys_ok s'"
  using assms(1)
proof cases
  case (start th calloc req)
  have "acquired th (sy_table s) (acquire_start (sy_table s) th req calloc)"
    using start assms(2) by (intro acquire_start_ok) (simp_all add: sys_ok_def)
  then show ?thesis unfolding start(1) by (rule after_ok [OF assms(2)])
next
  case (woken th w calloc)
  have "acquired th (sy_table s) (acquire_woken (sy_table s) th w calloc)"
    using woken assms(2) by (intro acquire_woken_ok) (simp_all add: sys_ok_def)
  then show ?thesis unfolding woken(1) by (rule after_ok [OF assms(2)])
next
  case (timeout th w)
  have "acquired th (sy_table s) (acquire_timeout (sy_table s) w)"
    using assms(2) by (auto intro!: acquiredI_same simp: sys_ok_def acquire_timeout_def)
  then show ?thesis unfolding timeout(1) by (rule after_ok [OF assms(2)])
next
  case (release th)
  have ok: "lt_ok (sy_table s)" using assms(2) by (simp add: sys_ok_def)
  note R = release_all_ok [OF ok, of th]
  have "others_kept th (sy_table s) (lock_release_all (sy_table s) th)" using R(2,3) by (simp add: others_kept_def)
  then have "waiting_ok (lock_release_all (sy_table s) th) th' w" if "sy_waits s th' = Some w" for th' w
    using that release(2) assms(2) waiting_ok_others [of "sy_table s" th' w th] by (cases "th' = th") (auto simp: sys_ok_def)
  then show ?thesis using R(1) release(1) by (simp add: sys_ok_def)
qed

lemma reachable_ok: "reachable s \<Longrightarrow> sys_ok s"
  by (induction rule: reachable.induct) (auto simp: sys_ok_def lt_ok_init lock_step_ok [unfolded sys_ok_def])

end
