(* ===== verification/Lock_Writers.thy ===== *)
theory Lock_Writers
  imports Lock_Inv
begin

text \<open>
  What an acquisition gives its thread, and the count of waiting writers: it never falls below the
  number of threads that wait for an exclusive lock, and what a failed allocation leaves over in
  it stays there for good.
\<close>

section \<open>Holding a lock\<close>

fun req_low :: "request \<Rightarrow> u64" where "req_low (Point r m) = r" | "req_low (Range l h m) = l"
fun req_high :: "request \<Rightarrow> u64" where "req_high (Point r m) = r" | "req_high (Range l h m) = h"
fun req_mode :: "request \<Rightarrow> lock_mode" where "req_mode (Point r m) = m" | "req_mode (Range l h m) = m"

definition holds :: "lock_table \<Rightarrow> thread \<Rightarrow> request \<Rightarrow> bool" where
  "holds lt th req \<longleftrightarrow> (\<exists>a \<in> live lt. let e = lt_mem lt a in
     lk_owner e = th \<and> span_low e \<le> req_low req \<and> req_high req \<le> span_high e \<and> (lk_mode e = LOCK_X \<or> req_mode req = LOCK_S))"

lemma holdsI:
  "a \<in> live lt \<Longrightarrow> lk_owner (lt_mem lt a) = th \<Longrightarrow> span_low (lt_mem lt a) \<le> req_low req
   \<Longrightarrow> req_high req \<le> span_high (lt_mem lt a) \<Longrightarrow> lk_mode (lt_mem lt a) = LOCK_X \<or> req_mode req = LOCK_S
   \<Longrightarrow> holds lt th req"
  by (auto simp: holds_def Let_def)

lemma holds_others:
  assumes "holds lt th r" "others_kept self lt lt'" "th \<noteq> self"
  shows "holds lt' th r"
proof -
  from assms(1) obtain a where a: "a \<in> live lt" "lk_owner (lt_mem lt a) = th" "span_low (lt_mem lt a) \<le> req_low r"
    "req_high r \<le> span_high (lt_mem lt a)" "lk_mode (lt_mem lt a) = LOCK_X \<or> req_mode r = LOCK_S"
    by (auto simp: holds_def Let_def)
  with assms(2,3) have "a \<in> live lt'" "lt_mem lt' a = lt_mem lt a" by (auto simp: others_kept_def)
  with a show ?thesis by (intro holdsI [of a]) simp_all
qed

lemma lock_mode_X: "m = LOCK_X \<or> m = LOCK_S"
  by (cases m) auto

lemma acquire_point_try_grants:
  assumes ok: "lt_ok lt" and f: "fresh lt calloc" and e: "\<And>a. e = Some a \<Longrightarrow> own_entry lt self row_id a"
    and r: "acquire_point_try lt self row_id mode e registered calloc = (Returned 0, lt')"
  shows "holds lt' self (Point row_id mode)"
proof -
  from r have nc: "\<not> (conflict_exists lt row_id mode self \<or> reader_should_wait lt mode)"
    by (auto simp: acquire_point_try_def split: if_splits)
  show ?thesis
  proof (cases "upgradable lt self row_id e")
    case True
    then obtain a where ea: "e = Some a" by (cases e) (simp_all add: upgradable_def)
    note E = e [OF ea, unfolded own_entry_def]
    let ?lt = "lt\<lparr>lt_mem := (lt_mem lt)(a := (lt_mem lt a)\<lparr>lk_mode := mode\<rparr>)\<rparr>"
    have l: "lt' = waiting_writer_unregister ?lt registered"
      using r nc True ea by (simp add: acquire_point_try_def)
    have "live ?lt = live lt" by (simp add: live_def all_entries_def)
    then have "a \<in> live lt'" using E l by simp
    then show ?thesis
      by (rule holdsI) (use E lock_mode_X [of mode] in \<open>auto simp: l span_low_def span_high_def\<close>)
  next
    case False
    then obtain ne where ne: "calloc = Some ne" using r nc by (auto simp: acquire_point_try_def split: option.splits)
    let ?e = "\<lparr>lk_row_id = row_id, lk_range_high = 0, lk_mode = mode, lk_owner = self, lk_is_range = False\<rparr>"
    have nb: "\<And>b. b \<in> live lt \<Longrightarrow> \<not> blocks (lt_mem lt b) self (lk_row_id ?e) (lk_row_id ?e) (lk_mode ?e)"
      using nc conflict_exists_iff [OF lt_okD(1) [OF ok], of row_id mode self] by auto
    have nl: "ne \<notin> live lt" using f ne by (simp add: fresh_def live_def)
    have o: "lk_owner ?e = self" "\<not> lk_is_range ?e" by simp_all
    note I = insert_point_ok [OF ok nl o nb]
    have l: "lt' = waiting_writer_unregister
        (owner_list_push self (global_list_insert_point lt (hash_row_id (lk_row_id ?e)) ne ?e) ne) registered"
      using r nc False ne by (simp add: acquire_point_try_def)
    have "ne \<in> live lt'" using I(2) l by simp
    then show ?thesis
      by (rule holdsI) (use I(4) lock_mode_X [of mode] in \<open>auto simp: l span_low_def span_high_def\<close>)
  qed
qed

lemma acquire_range_try_grants:
  assumes ok: "lt_ok lt" and f: "fresh lt calloc"
    and r: "acquire_range_try lt self low high mode registered calloc = (Returned 0, lt')"
  shows "holds lt' self (Range low high mode)"
proof -
  from r have nc: "\<not> (range_conflict_exists lt low high mode self \<or> reader_should_wait lt mode)"
    by (auto simp: acquire_range_try_def split: if_splits)
  then obtain ne where ne: "calloc = Some ne" using r by (auto simp: acquire_range_try_def split: option.splits)
  let ?e = "\<lparr>lk_row_id = low, lk_range_high = high, lk_mode = mode, lk_owner = self, lk_is_range = True\<rparr>"
  have nb: "\<And>b. b \<in> live lt \<Longrightarrow> \<not> blocks (lt_mem lt b) self (lk_row_id ?e) (lk_range_high ?e) (lk_mode ?e)"
    using nc range_conflict_exists_iff [OF lt_okD(1) [OF ok], of low high mode self] by auto
  have nl: "ne \<notin> live lt" using f ne by (simp add: fresh_def live_def)
  have o: "lk_owner ?e = self" "lk_is_range ?e" by simp_all
  note I = insert_range_ok [OF ok nl o nb]
  have l: "lt' = waiting_writer_unregister (owner_list_push self (global_list_insert_range lt ne ?e) ne) registered"
    using r nc ne by (simp add: acquire_range_try_def)
  have "ne \<in> live lt'" using I(2) l by simp
  then show ?thesis
    by (rule holdsI) (use I(4) lock_mode_X [of mode] in \<open>auto simp: l span_low_def span_high_def\<close>)
qed

lemma own_point_lock_entry:
  assumes "lt_ok lt" "own_point_lock lt row_id self = Some a"
  shows "own_entry lt self row_id a"
proof -
  have "a \<in> set (lt_buckets lt (hash_row_id row_id))" "lk_row_id (lt_mem lt a) = row_id" "lk_owner (lt_mem lt a) = self"
    using assms(2) by (auto simp: own_point_lock_def find_Some_iff)
  then show ?thesis
    using lt_okD(1) [OF assms(1)] hash_less [of row_id] unfolding own_entry_def live_iff lists_ok_def by blast
qed

lemma acquire_start_grants:
  assumes ok: "lt_ok lt" and f: "fresh lt calloc" and r: "acquire_start lt self req calloc = (Returned 0, lt')"
  shows "holds lt' self req"
proof (cases req)
  case (Point row_id mode)
  show ?thesis
  proof (cases "own_point_lock lt row_id self")
    case None
    then have "acquire_point_try lt self row_id mode None False calloc = (Returned 0, lt')"
      using r Point by (simp add: lock_acquire_def)
    from acquire_point_try_grants [OF ok f _ this] show ?thesis by (simp add: Point)
  next
    case (Some a)
    note own = own_point_lock_entry [OF ok Some]
    show ?thesis
    proof (cases "lk_mode (lt_mem lt a) = LOCK_X \<or> mode = LOCK_S")
      case True
      then have "lt' = lt" using r Point Some by (simp add: lock_acquire_def)
      then show ?thesis using own True
        by (intro holdsI [of a]) (auto simp: own_entry_def Point span_low_def span_high_def)
    next
      case False
      then have "acquire_point_try lt self row_id mode (Some a) False calloc = (Returned 0, lt')"
        using r Point Some by (simp add: lock_acquire_def)
      from acquire_point_try_grants [OF ok f _ this] own show ?thesis by (simp add: Point)
    qed
  qed
next
  case (Range low high mode)
  show ?thesis
  proof (cases "own_range_covers lt low high mode self")
    case True
    then obtain a where a: "a \<in> set (lt_range_locks lt)" "lk_owner (lt_mem lt a) = self" "lk_row_id (lt_mem lt a) \<le> low"
      "high \<le> lk_range_high (lt_mem lt a)" "lk_mode (lt_mem lt a) = LOCK_X \<or> mode = LOCK_S"
      by (auto simp: own_range_covers_def list_ex_iff Let_def)
    have "a \<in> live lt" "lk_is_range (lt_mem lt a)"
      using a(1) lt_okD(1) [OF ok] by (auto simp: live_iff lists_ok_def)
    moreover have "lt' = lt" using r Range True by (simp add: lock_acquire_range_def)
    ultimately show ?thesis using a by (intro holdsI [of a]) (auto simp: Range span_low_def span_high_def)
  next
    case False
    then have "acquire_range_try lt self low high mode False calloc = (Returned 0, lt')"
      using r Range by (simp add: lock_acquire_range_def)
    from acquire_range_try_grants [OF ok f this] show ?thesis by (simp add: Range)
  qed
qed

lemma acquire_woken_grants:
  assumes ok: "lt_ok lt" and f: "fresh lt calloc" and w: "waiting_ok lt self w"
    and r: "acquire_woken lt self w calloc = (Returned 0, lt')"
  shows "holds lt' self (wt_request w)"
proof (cases "wt_request w")
  case (Point row_id mode)
  then have "acquire_point_try lt self row_id mode (wt_entry w) (wt_registered w) calloc = (Returned 0, lt')"
    using r by (simp add: acquire_woken_def)
  from acquire_point_try_grants [OF ok f _ this] w show ?thesis by (auto simp: Point waiting_ok_def)
next
  case (Range low high mode)
  then have "acquire_range_try lt self low high mode (wt_registered w) calloc = (Returned 0, lt')"
    using r by (simp add: acquire_woken_def)
  from acquire_range_try_grants [OF ok f this] show ?thesis by (simp add: Range)
qed

text \<open>Two threads hold overlapping intervals only if both hold them shared.\<close>

lemma holds_exclusion:
  assumes ok: "lt_ok lt" and h: "holds lt th1 r1" "holds lt th2 r2" and ne: "th1 \<noteq> th2"
    and o: "req_low r1 \<le> req_high r2" "req_low r2 \<le> req_high r1"
  shows "req_mode r1 = LOCK_S \<and> req_mode r2 = LOCK_S"
proof -
  from h obtain a b where a: "a \<in> live lt" "lk_owner (lt_mem lt a) = th1" "span_low (lt_mem lt a) \<le> req_low r1"
      "req_high r1 \<le> span_high (lt_mem lt a)" "lk_mode (lt_mem lt a) = LOCK_X \<or> req_mode r1 = LOCK_S"
    and b: "b \<in> live lt" "lk_owner (lt_mem lt b) = th2" "span_low (lt_mem lt b) \<le> req_low r2"
      "req_high r2 \<le> span_high (lt_mem lt b)" "lk_mode (lt_mem lt b) = LOCK_X \<or> req_mode r2 = LOCK_S"
    by (auto simp: holds_def Let_def)
  have "overlaps (lt_mem lt a) (span_low (lt_mem lt b)) (span_high (lt_mem lt b))"
    unfolding overlaps_def using a(3,4) b(3,4) o by (meson order_trans)
  then have "lk_mode (lt_mem lt a) = LOCK_S \<and> lk_mode (lt_mem lt b) = LOCK_S"
    using lt_okD(3) [OF ok] a(1,2) b(1,2) ne unfolding compatible_def by metis
  with a(5) b(5) show ?thesis by auto
qed

section \<open>Waiting writers\<close>

definition registered :: "lock_sys \<Rightarrow> thread set" where
  "registered s = {th. \<exists>w. sy_waits s th = Some w \<and> wt_registered w}"

definition leak :: "lock_sys \<Rightarrow> int" where
  "leak s = lt_waiting_writers (sy_table s) - int (card (registered s))"

text \<open>How one test of the loop changes the count; \<open>b\<close> says whether the thread was registered.\<close>

definition counts :: "bool \<Rightarrow> lock_table \<Rightarrow> acquisition \<times> lock_table \<Rightarrow> bool" where
  "counts b lt r \<longleftrightarrow>
     (case fst r of
        Waits w \<Rightarrow> (b \<longrightarrow> wt_registered w)
          \<and> lt_waiting_writers (snd r) = lt_waiting_writers lt + (if wt_registered w \<and> \<not> b then 1 else 0)
      | Returned rc \<Rightarrow> lt_waiting_writers (snd r) = lt_waiting_writers lt
          \<or> b \<and> lt_waiting_writers (snd r) = lt_waiting_writers lt - 1)"

lemma unregister_count:
  "lt_waiting_writers (waiting_writer_unregister lt b) = lt_waiting_writers lt
   \<or> b \<and> lt_waiting_writers (waiting_writer_unregister lt b) = lt_waiting_writers lt - 1"
  by (simp add: waiting_writer_unregister_def)

lemma push_count [simp]:
  "lt_waiting_writers (owner_list_push self lt a) = lt_waiting_writers lt"
  "lt_waiting_writers (global_list_insert_point lt i a e) = lt_waiting_writers lt"
  "lt_waiting_writers (global_list_insert_range lt a e) = lt_waiting_writers lt"
  by (simp_all add: owner_list_push_def global_list_insert_point_def global_list_insert_range_def)

lemma returned_counts:
  "lt_waiting_writers lt' = lt_waiting_writers lt \<Longrightarrow> counts b lt (Returned rc, waiting_writer_unregister lt' b)"
  using unregister_count [of lt' b] by (simp add: counts_def)

lemma acquire_point_try_counts: "counts b lt (acquire_point_try lt self row_id mode e b calloc)"
proof (cases "conflict_exists lt row_id mode self \<or> reader_should_wait lt mode")
  case True
  then show ?thesis by (simp add: acquire_point_try_def counts_def waiting_writer_register_def)
next
  case False
  show ?thesis
  proof (cases "upgradable lt self row_id e")
    case True
    show ?thesis unfolding acquire_point_try_def if_not_P [OF False] if_P [OF True] by (rule returned_counts) simp
  next
    case up: False
    show ?thesis
    proof (cases calloc)
      case None
      then show ?thesis using False up by (simp add: acquire_point_try_def counts_def)
    next
      case (Some ne)
      show ?thesis
        unfolding acquire_point_try_def if_not_P [OF False] if_not_P [OF up] Some option.case Let_def by (rule returned_counts) simp
    qed
  qed
qed

lemma acquire_range_try_counts: "counts b lt (acquire_range_try lt self low high mode b calloc)"
  by (auto simp: acquire_range_try_def counts_def Let_def waiting_writer_register_def waiting_writer_unregister_def split: option.split)

lemma acquire_start_counts: "counts False lt (acquire_start lt self req calloc)"
proof -
  have "counts False lt (Returned 0, lt)" by (simp add: counts_def)
  then show ?thesis
    using acquire_point_try_counts acquire_range_try_counts
    by (cases req) (auto simp: lock_acquire_def lock_acquire_range_def split: option.split)
qed

lemma acquire_woken_counts: "counts (wt_registered w) lt (acquire_woken lt self w calloc)"
  using acquire_point_try_counts acquire_range_try_counts by (auto simp: acquire_woken_def split: request.split)

lemma after_counts:
  assumes fin: "finite (registered s)" and c: "counts b (sy_table s) r" and b: "b \<longleftrightarrow> th \<in> registered s"
  shows "finite (registered (after th r s))" "leak s \<le> leak (after th r s)"
proof -
  obtain q lt' where r: "r = (q, lt')" by (cases r)
  have "finite (registered (after th r s)) \<and> leak s \<le> leak (after th r s)"
  proof (cases q)
    case (Returned rc)
    then have "registered (after th r s) = registered s - {th}" by (auto simp: r registered_def)
    moreover have "int (card (registered s - {th})) = int (card (registered s)) - (if b then 1 else 0)"
    proof (cases b)
      case True
      then have "Suc (card (registered s - {th})) = card (registered s)" using b by (intro card_Suc_Diff1 [OF fin]) simp
      then show ?thesis using True by simp
    next
      case False
      then have "registered s - {th} = registered s" using b by blast
      then show ?thesis using False by simp
    qed
    moreover have "lt_waiting_writers lt' \<ge> lt_waiting_writers (sy_table s) - (if b then 1 else 0)"
      using c by (auto simp: counts_def r Returned)
    ultimately show ?thesis using fin by (simp add: leak_def r Returned)
  next
    case (Waits w)
    then have "registered (after th r s) = (if wt_registered w then insert th (registered s) else registered s - {th})"
      by (auto simp: r registered_def)
    moreover have "b \<Longrightarrow> wt_registered w"
      "lt_waiting_writers lt' = lt_waiting_writers (sy_table s) + (if wt_registered w \<and> \<not> b then 1 else 0)"
      using c by (auto simp: counts_def r Waits)
    moreover have "\<not> b \<Longrightarrow> card (insert th (registered s)) = Suc (card (registered s))"
      "\<not> b \<Longrightarrow> registered s - {th} = registered s" "b \<Longrightarrow> insert th (registered s) = registered s"
      using b fin by (auto simp: insert_absorb)
    ultimately show ?thesis using fin by (cases b; cases "wt_registered w") (simp_all add: leak_def r Waits)
  qed
  then show "finite (registered (after th r s))" "leak s \<le> leak (after th r s)" by blast+
qed

lemma lock_step_leak:
  assumes "lock_step s s'" "sys_ok s" "finite (registered s)"
  shows "finite (registered s') \<and> leak s \<le> leak s'"
  using assms(1)
proof cases
  case (start th calloc req)
  have "False \<longleftrightarrow> th \<in> registered s" using start(2) by (simp add: registered_def)
  from after_counts [OF assms(3) acquire_start_counts this] start(1) show ?thesis by blast
next
  case (woken th w calloc)
  have "wt_registered w \<longleftrightarrow> th \<in> registered s" using woken(2) by (simp add: registered_def)
  from after_counts [OF assms(3) acquire_woken_counts this] woken(1) show ?thesis by blast
next
  case (timeout th w)
  have "counts (wt_registered w) (sy_table s) (acquire_timeout (sy_table s) w)"
    using unregister_count [of "sy_table s" "wt_registered w"] by (auto simp: acquire_timeout_def counts_def)
  moreover have "wt_registered w \<longleftrightarrow> th \<in> registered s" using timeout(2) by (simp add: registered_def)
  ultimately show ?thesis using after_counts [OF assms(3)] timeout(1) by blast
next
  case (release th)
  then show ?thesis
    using release_all_ok(4) assms(2,3) by (simp add: sys_ok_def leak_def registered_def)
qed

lemma reachable_leak: "reachable s \<Longrightarrow> finite (registered s) \<and> 0 \<le> leak s"
proof (induction rule: reachable.induct)
  case init
  then show ?case by (simp add: registered_def leak_def lock_table_init_def)
next
  case (step s s')
  then show ?case using lock_step_leak [OF step(2) reachable_ok [OF step(1)]] by linarith
qed

end
