(* ===== verification/Sql_Parser.thy ===== *)
theory Sql_Parser
  imports Page_Format
begin

text \<open>
  The recursive descent parser of \<open>src/sql/parser.c\<close>. A C string is the list of its characters
  before the terminator, so \<open>*p\<close> is the head of the list, or NUL at its end, and \<open>p + n\<close> is
  \<open>drop n p\<close>. The result is an error or the filled \<open>statement_t\<close>: \<open>Syntax\<close> is the return value -1,
  \<open>Undefined\<close> a write past the sixteen elements of \<open>insert_values\<close> or \<open>col_defs\<close>, after which C
  promises nothing. What a failing call leaves in the statement is not modelled: no caller reads it.
  Characters are classified as in the C locale, numbers read as \<open>strtoll\<close> does, which saturates.
\<close>

section \<open>Characters and numbers\<close>

definition NUL :: char where "NUL = CHR 0x00"

definition char_at :: "string \<Rightarrow> char" where
  "char_at p = (case p of [] \<Rightarrow> NUL | c # _ \<Rightarrow> c)"

definition c_isspace :: "char \<Rightarrow> bool" where
  "c_isspace c \<longleftrightarrow> c = CHR 0x20 \<or> c = CHR 0x09 \<or> c = CHR 0x0A \<or> c = CHR 0x0B \<or> c = CHR 0x0C \<or> c = CHR 0x0D"

definition char_val :: "char \<Rightarrow> int" where "char_val c = of_char c"

definition c_tolower :: "char \<Rightarrow> int" where
  "c_tolower c = (if 65 \<le> char_val c \<and> char_val c \<le> 90 then char_val c + 32 else char_val c)"

fun strcasecmp_n :: "string \<Rightarrow> string \<Rightarrow> nat \<Rightarrow> int" where
  "strcasecmp_n a b 0 = 0"
| "strcasecmp_n a b (Suc n) =
     (let d = c_tolower (char_at a) - c_tolower (char_at b)
      in if d \<noteq> 0 then d else if char_at a = NUL then 0 else strcasecmp_n (tl a) (tl b) n)"

definition skip_ws :: "string \<Rightarrow> string" where "skip_ws p = dropWhile c_isspace p"

definition trim :: "string \<Rightarrow> string" where
  "trim s = rev (dropWhile (\<lambda>c. c_isspace c \<or> c = CHR '';'') (rev s))"

definition c_isdigit :: "char \<Rightarrow> bool" where "c_isdigit c \<longleftrightarrow> 48 \<le> char_val c \<and> char_val c \<le> 57"

definition digits_value :: "string \<Rightarrow> int" where
  "digits_value ds = foldl (\<lambda>a c. 10 * a + (char_val c - 48)) 0 ds"

definition strtoll :: "string \<Rightarrow> int" where
  "strtoll s =
     (let p = skip_ws s;
          negative = (char_at p = CHR ''-'');
          p = (if char_at p = CHR ''-'' \<or> char_at p = CHR ''+'' then tl p else p);
          n = digits_value (takeWhile c_isdigit p)
      in if negative then max (- (2 ^ 63)) (- n) else min (2 ^ 63 - 1) n)"

definition atoll :: "string \<Rightarrow> u64" where "atoll s = word_of_int (strtoll s)"
definition atoi :: "string \<Rightarrow> u32" where "atoi s = word_of_int (strtoll s)"

text \<open>Copying characters into a buffer until a stop character, the end of the text or a full buffer.\<close>

definition scan :: "(char \<Rightarrow> bool) \<Rightarrow> nat \<Rightarrow> string \<Rightarrow> string \<times> string" where
  "scan stop n p = (let w = takeWhile (\<lambda>c. \<not> stop c) (take n p) in (w, drop (length w) p))"

section \<open>Statements\<close>

datatype statement_type = STMT_CREATE_TABLE | STMT_INSERT | STMT_SELECT | STMT_DELETE | STMT_UPDATE
  | STMT_DROP_TABLE | STMT_EXPLAIN

datatype predicate_kind = PREDICATE_NONE | PREDICATE_ID_EQ | PREDICATE_FIELD_EQ | PREDICATE_FIELD_CMP
  | PREDICATE_ID_RANGE

datatype compare_op = OP_EQ | OP_NE | OP_LT | OP_GT | OP_LE | OP_GE

record column_def =
  cd_name :: string
  cd_type :: u8
  cd_size :: u16

text \<open>\<open>insert_values\<close> and \<open>col_defs\<close> hold the elements below their counts.\<close>

record statement =
  stmt_type :: statement_type
  predicate_kind :: predicate_kind
  pred_op :: compare_op
  table_name :: string
  insert_values :: "string list"
  update_field :: string
  update_value :: string
  pred_field :: string
  pred_value :: string
  pred_id :: u64
  range_lo :: u64
  range_hi :: u64
  has_lo :: bool
  has_hi :: bool
  lo_inclusive :: bool
  hi_inclusive :: bool
  col_defs :: "column_def list"
  select_all :: bool
  select_count :: bool
  order_by_field :: string
  order_desc :: bool
  has_order_by :: bool
  limit_count :: u32
  has_limit :: bool
  inner_type :: statement_type
  inner_predicate :: predicate_kind

definition zero_statement :: statement where
  "zero_statement = \<lparr>stmt_type = STMT_CREATE_TABLE, predicate_kind = PREDICATE_NONE, pred_op = OP_EQ,
     table_name = [], insert_values = [], update_field = [], update_value = [], pred_field = [],
     pred_value = [], pred_id = 0, range_lo = 0, range_hi = 0, has_lo = False, has_hi = False,
     lo_inclusive = False, hi_inclusive = False, col_defs = [], select_all = False,
     select_count = False, order_by_field = [], order_desc = False, has_order_by = False,
     limit_count = 0, has_limit = False, inner_type = STMT_CREATE_TABLE, inner_predicate = PREDICATE_NONE\<rparr>"

datatype parse_error = Syntax | Undefined

type_synonym parsed = "parse_error + statement"

section \<open>WHERE\<close>

definition is_id_field :: "string \<Rightarrow> bool" where
  "is_id_field f \<longleftrightarrow> strcasecmp_n f ''id'' 2 = 0 \<and> length f = 2"

definition parse_between :: "string \<Rightarrow> statement \<Rightarrow> parsed" where
  "parse_between p stmt =
     (if \<not> is_id_field (pred_field stmt) then Inl Syntax
      else
        let (lo_buf, p) = scan c_isspace 63 (skip_ws (drop 7 p));
            p = skip_ws p
        in if strcasecmp_n p ''AND'' 3 \<noteq> 0 then Inl Syntax
           else
             let (hi_buf, p) = scan (\<lambda>c. c_isspace c \<or> c = CHR '';'') 63 (skip_ws (drop 3 p))
             in Inr (stmt\<lparr>predicate_kind := PREDICATE_ID_RANGE, range_lo := atoll lo_buf, range_hi := atoll hi_buf,
                  has_lo := True, has_hi := True, lo_inclusive := True, hi_inclusive := True, pred_field := ''id''\<rparr>))"

definition parse_op :: "string \<Rightarrow> (compare_op \<times> string) option" where
  "parse_op p =
     (if char_at p = CHR ''!'' \<and> char_at (tl p) = CHR ''='' then Some (OP_NE, drop 2 p)
      else if char_at p = CHR ''<'' \<and> char_at (tl p) = CHR ''='' then Some (OP_LE, drop 2 p)
      else if char_at p = CHR ''>'' \<and> char_at (tl p) = CHR ''='' then Some (OP_GE, drop 2 p)
      else if char_at p = CHR ''<'' then Some (OP_LT, drop 1 p)
      else if char_at p = CHR ''>'' then Some (OP_GT, drop 1 p)
      else if char_at p = CHR ''='' then Some (OP_EQ, drop 1 p)
      else None)"

text \<open>A value: quoted up to the next quote, otherwise up to a stop character; 255 characters at most.\<close>

definition parse_value :: "(char \<Rightarrow> bool) \<Rightarrow> string \<Rightarrow> string \<times> string" where
  "parse_value stop p =
     (if char_at p = CHR 0x27 then
        let (v, p) = scan (\<lambda>c. c = CHR 0x27) 255 (tl p)
        in (v, if char_at p = CHR 0x27 then tl p else p)
      else scan stop 255 p)"

definition classify :: "statement \<Rightarrow> statement" where
  "classify stmt =
     (let is_id = is_id_field (pred_field stmt); v = atoll (pred_value stmt) in
      if is_id \<and> pred_op stmt = OP_EQ then stmt\<lparr>predicate_kind := PREDICATE_ID_EQ, pred_id := v\<rparr>
      else if is_id \<and> pred_op stmt = OP_GE then
        stmt\<lparr>predicate_kind := PREDICATE_ID_RANGE, range_lo := v, has_lo := True, lo_inclusive := True\<rparr>
      else if is_id \<and> pred_op stmt = OP_GT then
        stmt\<lparr>predicate_kind := PREDICATE_ID_RANGE, range_lo := v, has_lo := True, lo_inclusive := False\<rparr>
      else if is_id \<and> pred_op stmt = OP_LE then
        stmt\<lparr>predicate_kind := PREDICATE_ID_RANGE, range_hi := v, has_hi := True, hi_inclusive := True\<rparr>
      else if is_id \<and> pred_op stmt = OP_LT then
        stmt\<lparr>predicate_kind := PREDICATE_ID_RANGE, range_hi := v, has_hi := True, hi_inclusive := False\<rparr>
      else if pred_op stmt = OP_EQ then stmt\<lparr>predicate_kind := PREDICATE_FIELD_EQ\<rparr>
      else stmt\<lparr>predicate_kind := PREDICATE_FIELD_CMP\<rparr>)"

definition field_stop :: "char \<Rightarrow> bool" where
  "field_stop c \<longleftrightarrow> c = CHR ''='' \<or> c = CHR ''!'' \<or> c = CHR ''<'' \<or> c = CHR ''>'' \<or> c_isspace c"

definition word_stop :: "char \<Rightarrow> bool" where
  "word_stop c \<longleftrightarrow> c_isspace c \<or> c = CHR '';''"

definition parse_where :: "string \<Rightarrow> statement \<Rightarrow> parsed" where
  "parse_where p stmt =
     (let p = skip_ws p in
      if p = [] \<or> char_at p = CHR '';'' \<or> strcasecmp_n p ''WHERE'' 5 \<noteq> 0
      then Inr (stmt\<lparr>predicate_kind := PREDICATE_NONE\<rparr>)
      else
        let (f, p) = scan field_stop 31 (skip_ws (drop 5 p));
            stmt = stmt\<lparr>pred_field := f\<rparr>;
            p = skip_ws p
        in if strcasecmp_n p ''BETWEEN'' 7 = 0 \<and> c_isspace (char_at (drop 7 p)) then parse_between p stmt
           else case parse_op p of
             None \<Rightarrow> Inl Syntax
           | Some (op, p) \<Rightarrow>
               let (v, p) = parse_value word_stop (skip_ws p)
               in Inr (classify (stmt\<lparr>pred_op := op, pred_value := v\<rparr>)))"

section \<open>ORDER BY and LIMIT\<close>

fun find_order_limit :: "string \<Rightarrow> string" where
  "find_order_limit [] = []"
| "find_order_limit (c # p) =
     (let q = skip_ws (c # p) in
      if strcasecmp_n q ''ORDER'' 5 = 0 \<or> strcasecmp_n q ''LIMIT'' 5 = 0 then q else find_order_limit p)"

definition find_after_where :: "string \<Rightarrow> string" where
  "find_after_where p =
     (let p = skip_ws p in if strcasecmp_n p ''WHERE'' 5 \<noteq> 0 then p else find_order_limit (drop 5 p))"

definition parse_limit :: "string \<Rightarrow> statement \<Rightarrow> statement" where
  "parse_limit p stmt =
     (let p = skip_ws p in
      if p \<noteq> [] \<and> strcasecmp_n p ''LIMIT'' 5 = 0
      then stmt\<lparr>limit_count := atoi (skip_ws (drop 5 p)), has_limit := True\<rparr> else stmt)"

definition parse_order_limit :: "string \<Rightarrow> statement \<Rightarrow> parsed" where
  "parse_order_limit p stmt =
     (let p = skip_ws p in
      if p \<noteq> [] \<and> strcasecmp_n p ''ORDER'' 5 = 0 then
        let p = skip_ws (drop 5 p) in
        if strcasecmp_n p ''BY'' 2 \<noteq> 0 then Inl Syntax
        else
          let (f, p) = scan word_stop 31 (skip_ws (drop 2 p));
              p = skip_ws p;
              desc = (p \<noteq> [] \<and> strcasecmp_n p ''DESC'' 4 = 0);
              asc = (p \<noteq> [] \<and> strcasecmp_n p ''ASC'' 3 = 0);
              p = (if desc then skip_ws (drop 4 p) else if asc then skip_ws (drop 3 p) else p)
          in Inr (parse_limit p (stmt\<lparr>order_by_field := f, has_order_by := True, order_desc := desc\<rparr>))
      else Inr (parse_limit p stmt))"

section \<open>CREATE TABLE and INSERT\<close>

text \<open>Type and size of a column, and the rest of the text; an unknown type is an error.\<close>

definition parse_type :: "string \<Rightarrow> string \<Rightarrow> (u8 \<times> u16 \<times> string) option" where
  "parse_type type_str p =
     (if strcasecmp_n type_str ''INT'' 3 = 0 \<and> length type_str = 3 then Some (COL_TYPE_INT, 4, p)
      else if strcasecmp_n type_str ''BIGINT'' 6 = 0 then Some (COL_TYPE_BIGINT, 8, p)
      else if strcasecmp_n type_str ''VARCHAR'' 7 = 0 then
        let p = skip_ws p in
        if char_at p = CHR ''('' then
          let q = dropWhile (\<lambda>c. c \<noteq> CHR '')'') (tl p)
          in Some (COL_TYPE_VARCHAR, ucast (atoi (tl p)), if char_at q = CHR '')'' then tl q else q)
        else Some (COL_TYPE_VARCHAR, 32, p)
      else None)"

definition skip_comma :: "string \<Rightarrow> string" where
  "skip_comma p = (let p = skip_ws p in if char_at p = CHR '','' then tl p else p)"

definition name_stop :: "char \<Rightarrow> bool" where
  "name_stop c \<longleftrightarrow> c_isspace c \<or> c = CHR '','' \<or> c = CHR '')''"

definition type_stop :: "char \<Rightarrow> bool" where
  "type_stop c \<longleftrightarrow> c = CHR '','' \<or> c = CHR '')'' \<or> c = CHR ''('' \<or> c_isspace c"

lemma length_skip_ws: "length (skip_ws p) \<le> length p"
  by (simp add: skip_ws_def length_dropWhile_le)

lemma scan_append: "scan stop n p = (w, q) \<Longrightarrow> p = w @ q"
  by (auto simp: scan_def Let_def) (metis append_take_drop_id append_assoc takeWhile_dropWhile_id append_eq_conv_conj)

lemma scan_length: "scan stop n p = (w, q) \<Longrightarrow> length q \<le> length p"
  using scan_append by fastforce

lemma length_skip_comma: "length (skip_comma p) \<le> length p"
  using length_skip_ws [of p] by (auto simp: skip_comma_def Let_def)

lemma parse_type_length: "parse_type ty p = Some (t, n, q) \<Longrightarrow> length q \<le> length p"
  using length_skip_ws [of p] length_dropWhile_le [of "\<lambda>c. c \<noteq> CHR '')''" "tl (skip_ws p)"]
  by (auto simp: parse_type_def Let_def split: if_splits)

lemma parse_type_nonempty: "parse_type [] p = None"
  by code_simp

lemma parse_columns_step:
  assumes "scan name_stop 31 p1 = (name, p2)" "scan type_stop 31 (skip_ws p2) = (type_str, p3)"
    and "parse_type type_str p3 = Some (ty, sz, p4)" "p1 = skip_ws p"
  shows "length (skip_comma p4) < length p"
proof -
  have "type_str \<noteq> []" using assms(3) parse_type_nonempty by auto
  then have "length p3 < length (skip_ws p2)" using scan_append [OF assms(2)] by auto
  with parse_type_length [OF assms(3)] length_skip_ws [of p2] scan_length [OF assms(1)] length_skip_ws [of p]
    length_skip_comma [of p4]
  show ?thesis unfolding assms(4) by linarith
qed

function parse_columns :: "string \<Rightarrow> column_def list \<Rightarrow> parse_error + column_def list" where
  "parse_columns p cds =
     (if p = [] \<or> char_at p = CHR '')'' then Inr cds
      else
        let p = skip_ws p in
        if char_at p = CHR '')'' then Inr cds
        else if length cds = MAX_COLUMNS then Inl Undefined
        else
          let (name, p) = scan name_stop 31 p;
              (type_str, p) = scan type_stop 31 (skip_ws p)
          in case parse_type type_str p of
               None \<Rightarrow> Inl Syntax
             | Some (ty, sz, p) \<Rightarrow>
                 parse_columns (skip_comma p) (cds @ [\<lparr>cd_name = name, cd_type = ty, cd_size = sz\<rparr>]))"
  by pat_completeness auto
termination
  by (relation "measure (\<lambda>(p, _). length p)") (auto, metis parse_columns_step)

declare parse_columns.simps [simp del]

definition parse_create_table :: "string \<Rightarrow> statement \<Rightarrow> parsed" where
  "parse_create_table input stmt =
     (let (tname, p) = scan (\<lambda>c. c_isspace c \<or> c = CHR ''('') 31 (skip_ws input);
          p = skip_ws p
      in if char_at p \<noteq> CHR ''('' then Inl Syntax
         else case parse_columns (tl p) [] of
           Inl e \<Rightarrow> Inl e
         | Inr cds \<Rightarrow> Inr (stmt\<lparr>table_name := tname, col_defs := cds\<rparr>))"

text \<open>The values of an \<open>INSERT\<close>: each round consumes a quote, a comma or a character of the value.\<close>

lemma parse_value_step:
  assumes "parse_value name_stop (skip_ws p) = (v, q)" "p \<noteq> []" "char_at (skip_ws p) \<noteq> CHR '')''"
  shows "length (skip_comma q) < length p"
proof (cases "skip_ws p")
  case Nil
  then have "q = []" using assms(1) by (simp add: parse_value_def char_at_def NUL_def scan_def)
  then show ?thesis using assms(2) by (simp add: skip_comma_def skip_ws_def char_at_def NUL_def)
next
  case (Cons c r)
  have c: "\<not> c_isspace c" "c \<noteq> CHR '')''"
    using Cons assms(3) hd_dropWhile [of c_isspace p] by (auto simp: skip_ws_def char_at_def)
  have le: "Suc (length r) \<le> length p" using Cons length_skip_ws [of p] by simp
  show ?thesis
  proof (cases "c = CHR 0x27")
    case True
    then have "length q \<le> length r"
      using assms(1) Cons scan_length by (fastforce simp: parse_value_def char_at_def split: prod.splits if_splits)
    then show ?thesis using le length_skip_comma [of q] by linarith
  next
    case False
    then have s: "scan name_stop 255 (c # r) = (v, q)" using assms(1) Cons by (simp add: parse_value_def char_at_def)
    show ?thesis
    proof (cases "c = CHR '',''")
      case True
      then have "q = c # r" using s by (auto simp: scan_def name_stop_def Let_def)
      then have "skip_comma q = r" using True c(1) by (simp add: skip_comma_def skip_ws_def char_at_def)
      then show ?thesis using le by simp
    next
      case False
      then have "\<not> name_stop c" using c by (simp add: name_stop_def)
      then have "length q \<le> length r" using s by (auto simp: scan_def Let_def)
      then show ?thesis using le length_skip_comma [of q] by linarith
    qed
  qed
qed

function parse_values :: "string \<Rightarrow> string list \<Rightarrow> parse_error + string list" where
  "parse_values p vals =
     (if p = [] \<or> char_at p = CHR '')'' then Inr vals
      else
        let p = skip_ws p in
        if char_at p = CHR '')'' then Inr vals
        else if length vals = MAX_COLUMNS then Inl Undefined
        else
          let (v, p) = parse_value name_stop p
          in parse_values (skip_comma p) (vals @ [v]))"
  by pat_completeness auto
termination
  by (relation "measure (\<lambda>(p, _). length p)") (auto, metis parse_value_step)

declare parse_values.simps [simp del]

definition parse_insert :: "string \<Rightarrow> statement \<Rightarrow> parsed" where
  "parse_insert input stmt =
     (let p = skip_ws input in
      if strcasecmp_n p ''INTO'' 4 \<noteq> 0 then Inl Syntax
      else
        let (t, p) = scan c_isspace 31 (skip_ws (drop 4 p));
            p = skip_ws p
        in if strcasecmp_n p ''VALUES'' 6 \<noteq> 0 then Inl Syntax
           else
             let p = skip_ws (drop 6 p) in
             if char_at p \<noteq> CHR ''('' then Inl Syntax
             else case parse_values (tl p) [] of
               Inl e \<Rightarrow> Inl e
             | Inr vals \<Rightarrow> Inr (stmt\<lparr>table_name := t, insert_values := vals\<rparr>))"

section \<open>The other statements\<close>

definition parse_tail :: "string \<Rightarrow> statement \<Rightarrow> parsed" where
  "parse_tail p stmt =
     (if strcasecmp_n p ''FROM'' 4 \<noteq> 0 then Inl Syntax
      else
        let (t, p) = scan word_stop 31 (skip_ws (drop 4 p));
            rest = skip_ws p
        in case parse_where rest (stmt\<lparr>table_name := t\<rparr>) of
             Inl e \<Rightarrow> Inl e
           | Inr stmt \<Rightarrow> parse_order_limit (find_after_where rest) stmt)"

definition skip_char :: "char \<Rightarrow> string \<Rightarrow> string" where
  "skip_char c p = (if char_at p = c then tl p else p)"

definition parse_select :: "string \<Rightarrow> statement \<Rightarrow> parsed" where
  "parse_select input stmt =
     (let p = skip_ws input in
      if strcasecmp_n p ''COUNT'' 5 = 0 then
        let p = skip_ws (drop 5 p);
            p = (if char_at p = CHR ''('' then skip_char CHR '')'' (skip_ws (skip_char CHR ''*'' (skip_ws (tl p)))) else p)
        in parse_tail (skip_ws p) (stmt\<lparr>select_count := True\<rparr>)
      else if char_at p = CHR ''*'' then parse_tail (skip_ws (drop 1 p)) (stmt\<lparr>select_all := True\<rparr>)
      else parse_tail p stmt)"

definition parse_delete :: "string \<Rightarrow> statement \<Rightarrow> parsed" where
  "parse_delete input stmt =
     (let p = skip_ws input in
      if strcasecmp_n p ''FROM'' 4 \<noteq> 0 then Inl Syntax
      else let (t, p) = scan word_stop 31 (skip_ws (drop 4 p))
           in parse_where (skip_ws p) (stmt\<lparr>table_name := t\<rparr>))"

definition parse_update :: "string \<Rightarrow> statement \<Rightarrow> parsed" where
  "parse_update input stmt =
     (let (t, p) = scan c_isspace 31 (skip_ws input);
          p = skip_ws p
      in if strcasecmp_n p ''SET'' 3 \<noteq> 0 then Inl Syntax
         else
           let (f, p) = scan (\<lambda>c. c = CHR ''='' \<or> c_isspace c) 31 (skip_ws (drop 3 p));
               p = skip_ws p
           in if char_at p \<noteq> CHR ''='' then Inl Syntax
              else
                let (v, p) = parse_value word_stop (skip_ws (drop 1 p))
                in parse_where (skip_ws p) (stmt\<lparr>table_name := t, update_field := f, update_value := v\<rparr>))"

definition parse_drop_table :: "string \<Rightarrow> statement \<Rightarrow> parsed" where
  "parse_drop_table input stmt =
     (let (t, p) = scan word_stop 31 (skip_ws input) in Inr (stmt\<lparr>table_name := t\<rparr>))"

text \<open>What \<open>EXPLAIN\<close> copies from the statement it explains.\<close>

definition explain_statement :: "statement \<Rightarrow> statement" where
  "explain_statement inner = zero_statement\<lparr>stmt_type := STMT_EXPLAIN,
     inner_type := stmt_type inner, inner_predicate := predicate_kind inner,
     table_name := table_name inner, pred_field := pred_field inner, pred_value := pred_value inner,
     pred_id := pred_id inner, predicate_kind := predicate_kind inner,
     range_lo := range_lo inner, range_hi := range_hi inner, has_lo := has_lo inner, has_hi := has_hi inner,
     lo_inclusive := lo_inclusive inner, hi_inclusive := hi_inclusive inner, has_limit := has_limit inner\<rparr>"

lemma length_trim: "length (trim s) \<le> length s"
  using length_dropWhile_le [of "\<lambda>c. c_isspace c \<or> c = CHR '';''" "rev s"] by (simp add: trim_def)

lemma parse_explain_shorter:
  assumes "skip_ws (trim (take 4095 input)) \<noteq> []"
  shows "length (skip_ws (drop 7 (skip_ws (trim (take 4095 input))))) < length input"
proof -
  let ?p = "skip_ws (trim (take 4095 input))"
  have "length ?p \<le> length input"
    using length_skip_ws [of "trim (take 4095 input)"] length_trim [of "take 4095 input"] by simp
  moreover have "length (skip_ws (drop 7 ?p)) < length ?p"
    using assms length_skip_ws [of "drop 7 ?p"] by (cases ?p) auto
  ultimately show ?thesis by linarith
qed

function parse :: "string \<Rightarrow> parsed" where
  "parse input =
     (let p = skip_ws (trim (take 4095 input)) in
      if p = [] then Inl Syntax
      else if strcasecmp_n p ''CREATE'' 6 = 0 then
        let p = skip_ws (drop 6 p) in
        if strcasecmp_n p ''TABLE'' 5 \<noteq> 0 then Inl Syntax
        else parse_create_table (skip_ws (drop 5 p)) (zero_statement\<lparr>stmt_type := STMT_CREATE_TABLE\<rparr>)
      else if strcasecmp_n p ''INSERT'' 6 = 0 then
        parse_insert (skip_ws (drop 6 p)) (zero_statement\<lparr>stmt_type := STMT_INSERT\<rparr>)
      else if strcasecmp_n p ''SELECT'' 6 = 0 then
        parse_select (skip_ws (drop 6 p)) (zero_statement\<lparr>stmt_type := STMT_SELECT\<rparr>)
      else if strcasecmp_n p ''DELETE'' 6 = 0 then
        parse_delete (skip_ws (drop 6 p)) (zero_statement\<lparr>stmt_type := STMT_DELETE\<rparr>)
      else if strcasecmp_n p ''UPDATE'' 6 = 0 then
        parse_update (skip_ws (drop 6 p)) (zero_statement\<lparr>stmt_type := STMT_UPDATE\<rparr>)
      else if strcasecmp_n p ''DROP'' 4 = 0 then
        let p = skip_ws (drop 4 p) in
        if strcasecmp_n p ''TABLE'' 5 \<noteq> 0 then Inl Syntax
        else parse_drop_table (skip_ws (drop 5 p)) (zero_statement\<lparr>stmt_type := STMT_DROP_TABLE\<rparr>)
      else if strcasecmp_n p ''EXPLAIN'' 7 = 0 then
        (case parse (skip_ws (drop 7 p)) of
           Inl e \<Rightarrow> Inl e
         | Inr inner \<Rightarrow> Inr (explain_statement inner))
      else Inl Syntax)"
  by pat_completeness auto
termination
  by (relation "measure length") (use parse_explain_shorter in auto)

declare parse.simps [simp del]

end
