(* ===== verification/Exec_Values.thy ===== *)
theory Exec_Values
  imports Schema Sql_Parser
begin

text \<open>
  Values and rows as the executor handles them (\<open>src/sql/executor.c\<close>): comparing, matching a
  predicate, setting a field from the text of a statement, and the rendered result text. A row is
  the list of the values of its columns.
\<close>

section \<open>Comparing values\<close>

definition cmp_op :: "compare_op \<Rightarrow> int \<Rightarrow> int \<Rightarrow> bool" where
  "cmp_op op a b =
     (case op of OP_EQ \<Rightarrow> a = b | OP_NE \<Rightarrow> a \<noteq> b | OP_LT \<Rightarrow> a < b | OP_GT \<Rightarrow> a > b
      | OP_LE \<Rightarrow> a \<le> b | OP_GE \<Rightarrow> a \<ge> b)"

definition apply_cmp_int :: "u32 \<Rightarrow> u32 \<Rightarrow> compare_op \<Rightarrow> bool" where
  "apply_cmp_int a b op = cmp_op op (sint a) (sint b)"

definition apply_cmp_bigint :: "u64 \<Rightarrow> u64 \<Rightarrow> compare_op \<Rightarrow> bool" where
  "apply_cmp_bigint a b op = cmp_op op (sint a) (sint b)"

text \<open>Only the sign of \<open>strcmp\<close>'s result is ever looked at.\<close>

fun strcmp :: "string \<Rightarrow> string \<Rightarrow> int" where
  "strcmp [] [] = 0"
| "strcmp [] (d # b) = -1"
| "strcmp (c # a) [] = 1"
| "strcmp (c # a) (d # b) = (if c = d then strcmp a b else if char_val c < char_val d then -1 else 1)"

definition apply_cmp_str :: "string \<Rightarrow> string \<Rightarrow> compare_op \<Rightarrow> bool" where
  "apply_cmp_str a b op = cmp_op op (strcmp a b) 0"

section \<open>Predicates\<close>

definition same_name :: "string \<Rightarrow> string \<Rightarrow> bool" where
  "same_name a b \<longleftrightarrow> take 32 a = take 32 b"

text \<open>The loop over the columns: the first column of that name and of a known type decides.\<close>

fun match_field :: "(column_meta \<times> row_value) list \<Rightarrow> string \<Rightarrow> string \<Rightarrow> compare_op \<Rightarrow> bool" where
  "match_field [] field v op = False"
| "match_field ((col, x) # rest) field v op =
     (if \<not> same_name (cm_name col) field then match_field rest field v op
      else if cm_type col = COL_TYPE_INT then apply_cmp_int (int_val x) (atoi v) op
      else if cm_type col = COL_TYPE_BIGINT then apply_cmp_bigint (bigint_val x) (atoll v) op
      else if cm_type col = COL_TYPE_VARCHAR then apply_cmp_str (str_val x) v op
      else match_field rest field v op)"

definition row_columns :: "db_header \<Rightarrow> row_value list \<Rightarrow> (column_meta \<times> row_value) list" where
  "row_columns hdr values = zip (take (unat (hd_column_count hdr)) (hd_columns hdr)) values"

definition match_predicate :: "db_header \<Rightarrow> row_value list \<Rightarrow> statement \<Rightarrow> bool" where
  "match_predicate hdr values stmt =
     (case predicate_kind stmt of
        PREDICATE_NONE \<Rightarrow> True
      | PREDICATE_ID_EQ \<Rightarrow> sint (bigint_val (values ! 0)) = sint (pred_id stmt)
      | PREDICATE_ID_RANGE \<Rightarrow>
          let i = sint (bigint_val (values ! 0)) in
          if has_lo stmt \<and> (if lo_inclusive stmt then i < sint (range_lo stmt) else i \<le> sint (range_lo stmt)) then False
          else if has_hi stmt \<and> (if hi_inclusive stmt then i > sint (range_hi stmt) else i \<ge> sint (range_hi stmt)) then False
          else True
      | PREDICATE_FIELD_EQ \<Rightarrow> match_field (row_columns hdr values) (pred_field stmt) (pred_value stmt) OP_EQ
      | PREDICATE_FIELD_CMP \<Rightarrow> match_field (row_columns hdr values) (pred_field stmt) (pred_value stmt) (pred_op stmt))"

definition find_column_index :: "db_header \<Rightarrow> string \<Rightarrow> nat option" where
  "find_column_index hdr name =
     find (\<lambda>i. same_name (cm_name (hd_columns hdr ! i)) name) [0..<unat (hd_column_count hdr)]"

section \<open>Setting a value from text\<close>

text \<open>The members of the union: \<open>strncpy(str_val, s, 255)\<close> pads with zeros and leaves the last byte.\<close>

definition set_int :: "row_value \<Rightarrow> u32 \<Rightarrow> row_value" where "set_int v x = mwrite v 0 (wr32 x)"
definition set_bigint :: "row_value \<Rightarrow> u64 \<Rightarrow> row_value" where "set_bigint v x = mwrite v 0 (wr64 x)"
definition set_str :: "row_value \<Rightarrow> string \<Rightarrow> row_value" where "set_str v s = mwrite v 0 (cstr_field 255 s)"

definition zero_value :: row_value where "zero_value = replicate ROW_VALUE_SIZE 0"

definition assign_value :: "column_meta \<Rightarrow> row_value \<Rightarrow> string \<Rightarrow> row_value" where
  "assign_value col v s =
     (if cm_type col = COL_TYPE_INT then set_int v (atoi s)
      else if cm_type col = COL_TYPE_BIGINT then set_bigint v (atoll s)
      else if cm_type col = COL_TYPE_VARCHAR then set_str v s
      else v)"

text \<open>The user's values go to the columns after the first, in order, as far as both reach.\<close>

fun assign_values :: "column_meta list \<Rightarrow> string list \<Rightarrow> row_value list" where
  "assign_values [] vals = []"
| "assign_values (col # cols) [] = zero_value # assign_values cols []"
| "assign_values (col # cols) (s # vals) = assign_value col zero_value s # assign_values cols vals"

definition insert_row_values :: "db_header \<Rightarrow> u64 \<Rightarrow> string list \<Rightarrow> row_value list" where
  "insert_row_values hdr my_id vals =
     set_bigint zero_value my_id
     # assign_values (take (unat (hd_column_count hdr) - 1) (drop 1 (hd_columns hdr))) vals"

definition apply_update_to_row :: "db_header \<Rightarrow> row_value list \<Rightarrow> statement \<Rightarrow> nat \<Rightarrow> row_value list" where
  "apply_update_to_row hdr values stmt col_idx =
     (let col = hd_columns hdr ! col_idx; v = values ! col_idx in
      values[col_idx :=
        (if cm_type col = COL_TYPE_VARCHAR then set_str zero_value (update_value stmt)
         else assign_value col v (update_value stmt))])"

section \<open>Result text\<close>

fun show_nat :: "nat \<Rightarrow> string" where
  "show_nat n = (if n < 10 then [char_of (48 + n)] else show_nat (n div 10) @ [char_of (48 + n mod 10)])"

declare show_nat.simps [simp del]

definition show_int :: "int \<Rightarrow> string" where
  "show_int i = (if i < 0 then CHR ''-'' # show_nat (nat (- i)) else show_nat (nat i))"

definition newline :: string where "newline = [CHR 0x0A]"

definition value_pieces :: "column_meta \<Rightarrow> row_value \<Rightarrow> string list" where
  "value_pieces col v =
     (if cm_type col = COL_TYPE_INT then [show_int (sint (int_val v))]
      else if cm_type col = COL_TYPE_BIGINT then [show_int (sint (bigint_val v))]
      else if cm_type col = COL_TYPE_VARCHAR then [str_val v]
      else [])"

fun separated :: "string \<Rightarrow> string list list \<Rightarrow> string list" where
  "separated sep [] = []"
| "separated sep [p] = p"
| "separated sep (p # q # ps) = p @ [sep] @ separated sep (q # ps)"

definition row_pieces :: "db_header \<Rightarrow> row_value list \<Rightarrow> string list" where
  "row_pieces hdr values =
     separated '' | '' (map (\<lambda>(col, v). value_pieces col v) (row_columns hdr values)) @ [newline]"

definition header_pieces :: "db_header \<Rightarrow> string list" where
  "header_pieces hdr =
     (let cols = take (unat (hd_column_count hdr)) (hd_columns hdr) in
      separated '' | '' (map (\<lambda>c. [cm_name c]) cols) @ [newline]
      @ separated ''-+-'' (map (\<lambda>c. replicate 10 ''-'') cols) @ [newline])"

text \<open>
  The output buffer. \<open>ob_room\<close> is what was really allocated: \<open>buf_append\<close> doubles \<open>cap\<close> before it
  knows whether \<open>realloc\<close> succeeds, so after a failure \<open>cap\<close> is larger than the memory, and a
  later write beyond it is undefined (\<open>ob_overrun\<close>). \<open>fits n\<close> says whether an allocation of \<open>n\<close>
  bytes succeeds.
\<close>

record out_buf =
  ob_data :: "string option"
  ob_cap :: nat
  ob_room :: nat
  ob_overrun :: bool

definition buf_init :: "(nat \<Rightarrow> bool) \<Rightarrow> out_buf" where
  "buf_init fits = (if fits 4096 then \<lparr>ob_data = Some [], ob_cap = 4096, ob_room = 4096, ob_overrun = False\<rparr>
     else \<lparr>ob_data = None, ob_cap = 0, ob_room = 0, ob_overrun = False\<rparr>)"

function grow :: "(nat \<Rightarrow> bool) \<Rightarrow> nat \<Rightarrow> nat \<Rightarrow> nat \<Rightarrow> bool \<times> nat \<times> nat" where
  "grow fits need cap room =
     (if need > cap \<and> cap > 0 then
        if fits (cap * 2) then grow fits need (cap * 2) (cap * 2) else (False, cap * 2, room)
      else (True, cap, room))"
  by pat_completeness auto
termination by (relation "measure (\<lambda>(fits, need, cap, room). need - cap)") auto

declare grow.simps [simp del]

definition buf_append :: "(nat \<Rightarrow> bool) \<Rightarrow> out_buf \<Rightarrow> string \<Rightarrow> out_buf" where
  "buf_append fits b s =
     (case ob_data b of
        None \<Rightarrow> b
      | Some d \<Rightarrow>
          if ob_cap b = 0 then b
          else case grow fits (length d + length s + 1) (ob_cap b) (ob_room b) of
            (ok, cap, room) \<Rightarrow>
              if ok then \<lparr>ob_data = Some (d @ s), ob_cap = cap, ob_room = room,
                  ob_overrun = (ob_overrun b \<or> room < length d + length s + 1)\<rparr>
              else b\<lparr>ob_cap := cap, ob_room := room\<rparr>)"

definition append_row :: "(nat \<Rightarrow> bool) \<Rightarrow> out_buf \<Rightarrow> db_header \<Rightarrow> row_value list \<Rightarrow> out_buf" where
  "append_row fits b hdr values = foldl (buf_append fits) b (row_pieces hdr values)"

definition append_header :: "(nat \<Rightarrow> bool) \<Rightarrow> out_buf \<Rightarrow> db_header \<Rightarrow> out_buf" where
  "append_header fits b hdr = foldl (buf_append fits) b (header_pieces hdr)"

text \<open>\<open>buf_transfer\<close> hands the text over; after an overrun nothing can be said.\<close>

definition buf_transfer :: "out_buf \<Rightarrow> string option option" where
  "buf_transfer b = (if ob_overrun b then None else Some (ob_data b))"

end
