(* ===== verification/Exec_Sort.thy ===== *)
theory Exec_Sort
  imports Exec_Values
begin

text \<open>
  ORDER BY in \<open>src/sql/executor.c\<close>: the row collector, the in-place quicksort and the bounded heap
  that keeps the first \<open>LIMIT\<close> rows. A row block is one element of a list; the comparison is an
  argument of the algorithms, \<open>compare_row_values\<close> with its column and direction in the code.
  Reading an array out of bounds is \<open>None\<close>.
\<close>

definition compare_int :: "int \<Rightarrow> int \<Rightarrow> int" where
  "compare_int a b = (if a > b then 1 else 0) - (if a < b then 1 else 0)"

definition compare_row_values :: "db_header \<Rightarrow> nat \<Rightarrow> bool \<Rightarrow> row_value list \<Rightarrow> row_value list \<Rightarrow> int" where
  "compare_row_values hdr col_idx desc lhs rhs =
     (let ra = lhs ! col_idx; rb = rhs ! col_idx; ty = cm_type (hd_columns hdr ! col_idx);
          c = (if ty = COL_TYPE_INT then compare_int (sint (int_val ra)) (sint (int_val rb))
               else if ty = COL_TYPE_BIGINT then compare_int (sint (bigint_val ra)) (sint (bigint_val rb))
               else if ty = COL_TYPE_VARCHAR then strcmp (str_val ra) (str_val rb)
               else 0)
      in if desc then - c else c)"

definition swap_row_blocks :: "'r list \<Rightarrow> nat \<Rightarrow> nat \<Rightarrow> 'r list" where
  "swap_row_blocks rows a b = (if a = b then rows else rows[a := rows ! b, b := rows ! a])"

section \<open>Quicksort\<close>

text \<open>The two inner loops: \<open>i\<close> runs up while below the pivot, \<open>j\<close> down while above it.\<close>

definition scan_up :: "('r \<Rightarrow> 'r \<Rightarrow> int) \<Rightarrow> 'r \<Rightarrow> 'r list \<Rightarrow> int \<Rightarrow> int option" where
  "scan_up cmp pivot rows i =
     (let k = i + int (length (takeWhile (\<lambda>r. cmp r pivot < 0) (drop (nat i) rows)))
      in if i < 0 \<or> k \<ge> int (length rows) then None else Some k)"

definition scan_down :: "('r \<Rightarrow> 'r \<Rightarrow> int) \<Rightarrow> 'r \<Rightarrow> 'r list \<Rightarrow> int \<Rightarrow> int option" where
  "scan_down cmp pivot rows j =
     (let k = j - int (length (takeWhile (\<lambda>r. cmp r pivot > 0) (rev (take (nat (j + 1)) rows))))
      in if k < 0 \<or> j \<ge> int (length rows) then None else Some k)"

function partition_blocks :: "('r \<Rightarrow> 'r \<Rightarrow> int) \<Rightarrow> 'r \<Rightarrow> 'r list \<Rightarrow> int \<Rightarrow> int \<Rightarrow> ('r list \<times> int \<times> int) option" where
  "partition_blocks cmp pivot rows i j =
     (if i \<le> j then
        (case (scan_up cmp pivot rows i, scan_down cmp pivot rows j) of
           (Some i', Some j') \<Rightarrow>
             if i' \<le> j' then partition_blocks cmp pivot (swap_row_blocks rows (nat i') (nat j')) (i' + 1) (j' - 1)
             else Some (rows, i', j')
         | _ \<Rightarrow> None)
      else Some (rows, i, j))"
  by pat_completeness auto
termination
  by (relation "measure (\<lambda>(cmp, pivot, rows, i, j). nat (j - i + 1))")
     (auto simp: scan_up_def scan_down_def Let_def split: if_splits)

declare partition_blocks.simps [simp del]

partial_function (option) quicksort_row_blocks ::
  "('r \<Rightarrow> 'r \<Rightarrow> int) \<Rightarrow> 'r list \<Rightarrow> int \<Rightarrow> int \<Rightarrow> 'r list option" where
  "quicksort_row_blocks cmp rows left right =
     (case partition_blocks cmp (rows ! nat ((left + right) div 2)) rows left right of
        None \<Rightarrow> None
      | Some (rows, i, j) \<Rightarrow>
          Option.bind (if left < j then quicksort_row_blocks cmp rows left j else Some rows)
            (\<lambda>rows. if i < right then quicksort_row_blocks cmp rows i right else Some rows))"

section \<open>The collector\<close>

text \<open>
  \<open>rc_room\<close> counts the blocks really allocated: the size \<open>initial_cap * MAX_COLUMNS\<close> is computed
  in 32 bits and wraps, so that it may be less than \<open>cap\<close> blocks.
\<close>

record row_collect =
  rc_rows :: "row_value list list"
  rc_cap :: u32
  rc_room :: nat
  rc_alloc_failed :: bool
  rc_overrun :: bool

definition blocks_bytes :: "u32 \<Rightarrow> nat" where
  "blocks_bytes cap = unat (cap * 16) * ROW_VALUE_SIZE"

definition blocks_room :: "u32 \<Rightarrow> nat" where
  "blocks_room cap = unat (cap * 16) div MAX_COLUMNS"

definition row_collect_init_with_cap :: "(nat \<Rightarrow> bool) \<Rightarrow> u32 \<Rightarrow> row_collect" where
  "row_collect_init_with_cap fits initial_cap =
     (if initial_cap = 0 then \<lparr>rc_rows = [], rc_cap = 0, rc_room = 0, rc_alloc_failed = False, rc_overrun = False\<rparr>
      else if fits (blocks_bytes initial_cap) then
        \<lparr>rc_rows = [], rc_cap = initial_cap, rc_room = blocks_room initial_cap, rc_alloc_failed = False, rc_overrun = False\<rparr>
      else \<lparr>rc_rows = [], rc_cap = 0, rc_room = 0, rc_alloc_failed = True, rc_overrun = False\<rparr>)"

definition row_collect_init :: "(nat \<Rightarrow> bool) \<Rightarrow> row_collect" where
  "row_collect_init fits = row_collect_init_with_cap fits 256"

definition row_collect_store :: "row_collect \<Rightarrow> row_value list \<Rightarrow> row_collect" where
  "row_collect_store rc vals =
     rc\<lparr>rc_rows := rc_rows rc @ [vals], rc_overrun := (rc_overrun rc \<or> length (rc_rows rc) \<ge> rc_room rc)\<rparr>"

definition row_collect_push :: "(nat \<Rightarrow> bool) \<Rightarrow> row_collect \<Rightarrow> row_value list \<Rightarrow> bool \<times> row_collect" where
  "row_collect_push fits rc vals =
     (if rc_cap rc = 0 then (False, rc\<lparr>rc_alloc_failed := True\<rparr>)
      else if length (rc_rows rc) \<ge> unat (rc_cap rc) then
        let new_cap = rc_cap rc * 2 in
        if \<not> fits (blocks_bytes new_cap) then (False, rc\<lparr>rc_alloc_failed := True\<rparr>)
        else (True, row_collect_store (rc\<lparr>rc_cap := new_cap, rc_room := blocks_room new_cap\<rparr>) vals)
      else (True, row_collect_store rc vals))"

section \<open>The bounded heap\<close>

text \<open>The largest of the kept rows is at the root.\<close>

fun topk_sift_up :: "('r \<Rightarrow> 'r \<Rightarrow> int) \<Rightarrow> 'r list \<Rightarrow> nat \<Rightarrow> 'r list" where
  "topk_sift_up cmp rows idx =
     (if idx > 0 then
        let parent = (idx - 1) div 2 in
        if cmp (rows ! idx) (rows ! parent) \<le> 0 then rows
        else topk_sift_up cmp (swap_row_blocks rows idx parent) parent
      else rows)"

declare topk_sift_up.simps [simp del]

definition worst_of :: "('r \<Rightarrow> 'r \<Rightarrow> int) \<Rightarrow> 'r list \<Rightarrow> nat \<Rightarrow> nat" where
  "worst_of cmp rows idx =
     (let left = idx * 2 + 1; right = left + 1;
          worst = (if left < length rows \<and> cmp (rows ! left) (rows ! idx) > 0 then left else idx)
      in if right < length rows \<and> cmp (rows ! right) (rows ! worst) > 0 then right else worst)"

lemma worst_of_cases: "worst_of cmp rows idx \<noteq> idx \<Longrightarrow> idx < worst_of cmp rows idx \<and> worst_of cmp rows idx < length rows"
  by (auto simp: worst_of_def Let_def split: if_splits)

lemma length_swap [simp]: "length (swap_row_blocks rows a b) = length rows"
  by (simp add: swap_row_blocks_def)

function topk_sift_down :: "('r \<Rightarrow> 'r \<Rightarrow> int) \<Rightarrow> 'r list \<Rightarrow> nat \<Rightarrow> 'r list" where
  "topk_sift_down cmp rows idx =
     (let worst = worst_of cmp rows idx in
      if worst = idx then rows else topk_sift_down cmp (swap_row_blocks rows idx worst) worst)"
  by pat_completeness auto
termination
  by (relation "measure (\<lambda>(cmp, rows, idx). length rows - idx)") (auto dest: worst_of_cases)

declare topk_sift_down.simps [simp del]

text \<open>One matching row of a \<open>SELECT ... ORDER BY ... LIMIT\<close>.\<close>

definition topk_step :: "(nat \<Rightarrow> bool) \<Rightarrow> (row_value list \<Rightarrow> row_value list \<Rightarrow> int) \<Rightarrow> u32 \<Rightarrow> row_value list \<Rightarrow> row_collect
    \<Rightarrow> bool \<times> row_collect" where
  "topk_step fits cmp limit values rc =
     (if length (rc_rows rc) < unat limit then
        case row_collect_push fits rc values of
          (ok, rc) \<Rightarrow>
            if \<not> ok then (False, rc)
            else (True, rc\<lparr>rc_rows := topk_sift_up cmp (rc_rows rc) (length (rc_rows rc) - 1)\<rparr>)
      else if cmp values (rc_rows rc ! 0) < 0 then
        (True, rc\<lparr>rc_rows := topk_sift_down cmp ((rc_rows rc)[0 := values]) 0\<rparr>)
      else (True, rc))"

end
