(* ===== verification/Planner.thy ===== *)
theory Planner
  imports Sql_Parser
begin

text \<open>
  The rule based planner of \<open>src/sql/planner.c\<close>, built with index range scans enabled (the
  default), and the shape of the plan \<open>EXPLAIN\<close> reports.
\<close>

datatype access_path = ACCESS_PATH_TABLE_SCAN | ACCESS_PATH_INDEX_LOOKUP | ACCESS_PATH_INDEX_RANGE
  | ACCESS_PATH_INDEX_DELETE | ACCESS_PATH_INSERT | ACCESS_PATH_INDEX_UPDATE | ACCESS_PATH_CREATE_TABLE
  | ACCESS_PATH_DROP_TABLE

definition index_range_enabled :: bool where "index_range_enabled = True"

text \<open>
  The \<open>switch\<close> over the statement types. For \<open>EXPLAIN\<close> the code recurses on a zeroed statement with
  the inner type and predicate kind; the inner type of an explained \<open>EXPLAIN\<close> is then 0, which is
  \<open>STMT_CREATE_TABLE\<close>, so the recursion ends after at most two calls.
\<close>

function planner_create_plan :: "statement \<Rightarrow> access_path" where
  "planner_create_plan stmt =
     (case stmt_type stmt of
        STMT_CREATE_TABLE \<Rightarrow> ACCESS_PATH_CREATE_TABLE
      | STMT_INSERT \<Rightarrow> ACCESS_PATH_INSERT
      | STMT_SELECT \<Rightarrow>
          if predicate_kind stmt = PREDICATE_ID_EQ \<and> \<not> select_count stmt \<and> \<not> has_order_by stmt \<and> \<not> has_limit stmt
          then ACCESS_PATH_INDEX_LOOKUP
          else if predicate_kind stmt = PREDICATE_ID_RANGE \<and> \<not> select_count stmt \<and> \<not> has_order_by stmt
            \<and> index_range_enabled
          then ACCESS_PATH_INDEX_RANGE
          else ACCESS_PATH_TABLE_SCAN
      | STMT_DELETE \<Rightarrow>
          if predicate_kind stmt = PREDICATE_ID_EQ then ACCESS_PATH_INDEX_DELETE else ACCESS_PATH_TABLE_SCAN
      | STMT_UPDATE \<Rightarrow>
          if predicate_kind stmt = PREDICATE_ID_EQ then ACCESS_PATH_INDEX_UPDATE else ACCESS_PATH_TABLE_SCAN
      | STMT_DROP_TABLE \<Rightarrow> ACCESS_PATH_DROP_TABLE
      | STMT_EXPLAIN \<Rightarrow> planner_create_plan
          (zero_statement\<lparr>stmt_type := inner_type stmt, predicate_kind := inner_predicate stmt\<rparr>))"
  by pat_completeness auto
termination
  by (relation "measure (\<lambda>stmt. if stmt_type stmt \<noteq> STMT_EXPLAIN then 0
    else if inner_type stmt \<noteq> STMT_EXPLAIN then 1 else 2 :: nat)") (simp_all add: zero_statement_def)

declare planner_create_plan.simps [simp del]

definition access_path_name :: "access_path \<Rightarrow> string" where
  "access_path_name ap =
     (case ap of
        ACCESS_PATH_TABLE_SCAN \<Rightarrow> ''TABLE_SCAN'' | ACCESS_PATH_INDEX_LOOKUP \<Rightarrow> ''INDEX_LOOKUP''
      | ACCESS_PATH_INDEX_RANGE \<Rightarrow> ''INDEX_RANGE'' | ACCESS_PATH_INDEX_DELETE \<Rightarrow> ''INDEX_DELETE''
      | ACCESS_PATH_INDEX_UPDATE \<Rightarrow> ''INDEX_UPDATE'' | ACCESS_PATH_INSERT \<Rightarrow> ''INSERT''
      | ACCESS_PATH_CREATE_TABLE \<Rightarrow> ''CREATE_TABLE'' | ACCESS_PATH_DROP_TABLE \<Rightarrow> ''DROP_TABLE'')"

end
