(* ===== verification/Executor.thy ===== *)
theory Executor
  imports Exec_Sort Planner Heap_Table BPlus_Tree Lock_Table
begin

text \<open>
  The executor of \<open>src/sql/executor.c\<close> on the page store: one function per access path and the
  dispatch. A statement runs without other statements' page operations in between, as the page
  latches and the engine lock arrange for conflicting ones; what other threads do shows only in the
  lock manager, which is an argument: \<open>acquire l id mode\<close> is \<open>lock_acquire\<close>'s result and the lock
  state when it returns. \<open>fits n\<close> says whether an allocation of \<open>n\<close> bytes succeeds. The result
  \<open>None\<close> is undefined behaviour or not returning. Messages are a datatype with one constructor per
  format string.
\<close>

section \<open>Results\<close>

datatype exec_message =
    Table_exists string | Table_created string u16 u16 | No_table | Insert_lock_timeout u64 | Duplicate_key
  | Row_inserted u64 | Id_not_found u64 | Row_unreadable | Row_found | Rows_found_range u32 | Range_no_memory
  | Rows_found u32 | Count_is u64 | Order_column_unknown string | Order_limit_no_memory | Order_buffer_no_memory
  | Order_no_memory | Delete_no_memory
  | Row_lock_timeout u64 | Row_deleted u64 | Rows_deleted u32 | Column_unknown string | Column_system string
  | No_row_updated u64 | Row_updated u64 | Update_no_memory | Rows_updated u32 | Table_missing string
  | Table_dropped string | Plan_shown | Parse_failed | Range_lock_timeout u64 u64 | Point_lock_timeout u64

record exec_result =
  res_status :: int
  res_message :: exec_message
  res_out :: "string option"

definition done_with :: "exec_message \<Rightarrow> exec_result" where
  "done_with m = \<lparr>res_status = 0, res_message = m, res_out = None\<rparr>"

definition failed_with :: "exec_message \<Rightarrow> exec_result" where
  "failed_with m = \<lparr>res_status = -1, res_message = m, res_out = None\<rparr>"

definition result_with :: "out_buf \<Rightarrow> exec_message \<Rightarrow> exec_result option" where
  "result_with b m = map_option (\<lambda>out. \<lparr>res_status = 0, res_message = m, res_out = out\<rparr>) (buf_transfer b)"

type_synonym 'l acquirer = "'l \<Rightarrow> u64 \<Rightarrow> lock_mode \<Rightarrow> int \<times> 'l"

definition set_hdr :: "store \<Rightarrow> db_header \<Rightarrow> store" where "set_hdr s h = s\<lparr>st_hdr := h\<rparr>"

section \<open>CREATE TABLE and DROP TABLE\<close>

definition id_column :: column_meta where
  "id_column = \<lparr>cm_name = ''id'', cm_type = COL_TYPE_BIGINT, cm_size = 8, cm_offset = 0, cm_is_system = 1\<rparr>"

definition user_column :: "column_def \<Rightarrow> column_meta" where
  "user_column cd = \<lparr>cm_name = take 31 (cd_name cd), cm_type = cd_type cd, cm_size = cd_size cd, cm_offset = 0,
     cm_is_system = 0\<rparr>"

text \<open>\<open>hdr->columns[hdr->column_count++] = c\<close>, undefined beyond the array.\<close>

definition add_column :: "db_header \<Rightarrow> column_meta \<Rightarrow> db_header option" where
  "add_column hdr c =
     (if unat (hd_column_count hdr) < length (hd_columns hdr) then
        Some (hdr\<lparr>hd_columns := (hd_columns hdr)[unat (hd_column_count hdr) := c],
          hd_column_count := hd_column_count hdr + 1\<rparr>)
      else None)"

fun add_columns :: "db_header \<Rightarrow> column_def list \<Rightarrow> db_header option" where
  "add_columns hdr [] = Some hdr"
| "add_columns hdr (cd # cds) =
     (if same_name (cd_name cd) ''id'' then add_columns hdr cds
      else case add_column hdr (user_column cd) of None \<Rightarrow> None | Some hdr \<Rightarrow> add_columns hdr cds)"

definition exec_create_table :: "store \<Rightarrow> statement \<Rightarrow> (exec_result \<times> store) option" where
  "exec_create_table s stmt =
     (let hdr = st_hdr s in
      if hd_column_count hdr > 0 then Some (failed_with (Table_exists (table_name stmt)), s)
      else case add_column (hdr\<lparr>hd_column_count := 0\<rparr>) id_column of
        None \<Rightarrow> None
      | Some hdr \<Rightarrow>
          (case add_columns hdr (col_defs stmt) of
             None \<Rightarrow> None
           | Some hdr \<Rightarrow>
               (case schema_compute_layout hdr of
                  None \<Rightarrow> None
                | Some (_, hdr) \<Rightarrow>
                    Some (done_with (Table_created (table_name stmt) (hd_row_size hdr) (hd_column_count hdr)), set_hdr s hdr))))"

definition free_unless_free :: "store \<Rightarrow> page_id \<Rightarrow> store" where
  "free_unless_free s i = (if page_type (st_pages s i) \<noteq> PAGE_TYPE_FREE then st_free s i else s)"

definition free_all_pages :: "store \<Rightarrow> store" where
  "free_all_pages s = foldl (\<lambda>s i. free_unless_free s (word_of_nat i)) s [1..<unat (hd_next_page_id (st_hdr s))]"

definition empty_leaf_hdr :: leaf_page_header where
  "empty_leaf_hdr = \<lparr>lph_page_type = PAGE_TYPE_LEAF, lph_parent_page_id = 0, lph_key_count = 0, lph_next_leaf = 0, lph_prev_leaf = 0\<rparr>"

definition zero_column :: column_meta where
  "zero_column = \<lparr>cm_name = [], cm_type = 0, cm_size = 0, cm_offset = 0, cm_is_system = 0\<rparr>"

definition exec_drop_table :: "store \<Rightarrow> statement \<Rightarrow> exec_result \<times> store" where
  "exec_drop_table s stmt =
     (if hd_column_count (st_hdr s) = 0 then (failed_with (Table_missing (table_name stmt)), s)
      else
        let s = free_all_pages s;
            (new_heap, s) = st_alloc s;
            s = st_put s new_heap (mwrite (st_pages s new_heap) 0 (put_heap_hdr fresh_heap_hdr));
            (new_root, s) = st_alloc s;
            s = st_put s new_root (mwrite (st_pages s new_root) 0 (put_leaf_hdr empty_leaf_hdr));
            hdr = (st_hdr s)\<lparr>hd_column_count := 0, hd_row_size := 0, hd_row_count := 0, hd_next_id := 1,
              hd_first_heap_page_id := new_heap, hd_root_index_page_id := new_root,
              hd_columns := map (\<lambda>_. zero_column) (hd_columns (st_hdr s))\<rparr>
        in (done_with (Table_dropped (table_name stmt)),
            s\<lparr>st_hdr := hdr, st_last_heap := new_heap, st_free_hint := False\<rparr>))"

section \<open>INSERT\<close>

definition exec_insert ::
  "(nat \<Rightarrow> bool) \<Rightarrow> 'l acquirer \<Rightarrow> store \<Rightarrow> 'l \<Rightarrow> statement \<Rightarrow> (exec_result \<times> store \<times> 'l) option" where
  "exec_insert fits acquire s l stmt =
     (if hd_column_count (st_hdr s) = 0 then Some (failed_with No_table, s, l)
      else
        let my_id = hd_next_id (st_hdr s);
            s = set_hdr s ((st_hdr s)\<lparr>hd_next_id := my_id + 1\<rparr>);
            (rc, l) = acquire l my_id LOCK_X
        in if rc \<noteq> 0 then Some (failed_with (Insert_lock_timeout my_id), s, l)
           else
             let hdr = st_hdr s; row_size = hd_row_size hdr in
             if \<not> fits (unat row_size) then None
             else case row_serialize hdr (insert_row_values hdr my_id (insert_values stmt)) of
               None \<Rightarrow> None
             | Some row_buf \<Rightarrow>
                 (case heap_insert s row_buf row_size of
                    None \<Rightarrow> None
                  | Some (ref, s) \<Rightarrow>
                      (case bptree_insert s my_id ref of
                         None \<Rightarrow> None
                       | Some (rc, s) \<Rightarrow>
                           if rc \<noteq> 0 then Some (failed_with Duplicate_key, s, l)
                           else Some (done_with (Row_inserted my_id),
                             set_hdr s ((st_hdr s)\<lparr>hd_row_count := hd_row_count (st_hdr s) + 1\<rparr>), l))))"

section \<open>SELECT\<close>

text \<open>A scan callback that reads the row first; a row that cannot be read makes the scan undefined.\<close>

definition on_row :: "db_header \<Rightarrow> (row_value list \<Rightarrow> 'c \<Rightarrow> bool \<times> 'c) \<Rightarrow> bytes \<Rightarrow> row_ref \<Rightarrow> 'c option \<Rightarrow> bool \<times> 'c option" where
  "on_row hdr f row_data ref ctx =
     (case ctx of
        None \<Rightarrow> (False, None)
      | Some c \<Rightarrow>
          (case row_deserialize hdr row_data of
             None \<Rightarrow> (False, None)
           | Some values \<Rightarrow> (case f values c of (go, c') \<Rightarrow> (go, Some c'))))"

definition scan_with :: "store \<Rightarrow> (row_value list \<Rightarrow> 'c \<Rightarrow> bool \<times> 'c) \<Rightarrow> 'c \<Rightarrow> 'c option" where
  "scan_with s f ctx =
     Option.bind (heap_scan s (hd_row_size (st_hdr s)) (on_row (st_hdr s) f) (Some ctx)) id"

text \<open>The scan context: the number of rows put out and the buffer.\<close>

type_synonym scan_ctx = "u32 \<times> out_buf"

definition emit_row :: "(nat \<Rightarrow> bool) \<Rightarrow> db_header \<Rightarrow> row_value list \<Rightarrow> scan_ctx \<Rightarrow> scan_ctx" where
  "emit_row fits hdr values ctx =
     (case ctx of (count, b) \<Rightarrow>
        (count + 1, append_row fits (if count = 0 then append_header fits b hdr else b) hdr values))"

definition select_scan_cb :: "(nat \<Rightarrow> bool) \<Rightarrow> db_header \<Rightarrow> statement \<Rightarrow> row_value list \<Rightarrow> scan_ctx \<Rightarrow> bool \<times> scan_ctx" where
  "select_scan_cb fits hdr stmt values ctx =
     (if \<not> match_predicate hdr values stmt then (True, ctx)
      else let ctx = emit_row fits hdr values ctx
           in (\<not> (has_limit stmt \<and> fst ctx \<ge> limit_count stmt), ctx))"

definition count_scan_cb :: "db_header \<Rightarrow> statement \<Rightarrow> row_value list \<Rightarrow> u64 \<Rightarrow> bool \<times> u64" where
  "count_scan_cb hdr stmt values count =
     (True, if match_predicate hdr values stmt then count + 1 else count)"

definition collect_scan_cb ::
  "(nat \<Rightarrow> bool) \<Rightarrow> db_header \<Rightarrow> statement \<Rightarrow> row_value list \<Rightarrow> row_collect \<Rightarrow> bool \<times> row_collect" where
  "collect_scan_cb fits hdr stmt values rc =
     (if \<not> match_predicate hdr values stmt then (True, rc) else row_collect_push fits rc values)"

definition topk_scan_cb ::
  "(nat \<Rightarrow> bool) \<Rightarrow> db_header \<Rightarrow> statement \<Rightarrow> nat \<Rightarrow> row_value list \<Rightarrow> row_collect \<Rightarrow> bool \<times> row_collect" where
  "topk_scan_cb fits hdr stmt col_idx values rc =
     (if \<not> match_predicate hdr values stmt then (True, rc)
      else topk_step fits (compare_row_values hdr col_idx (order_desc stmt)) (limit_count stmt) values rc)"

definition exec_count :: "(nat \<Rightarrow> bool) \<Rightarrow> store \<Rightarrow> statement \<Rightarrow> exec_result option" where
  "exec_count fits s stmt =
     (case (if predicate_kind stmt = PREDICATE_NONE then Some (hd_row_count (st_hdr s))
            else scan_with s (count_scan_cb (st_hdr s) stmt) 0) of
        None \<Rightarrow> None
      | Some count \<Rightarrow>
          result_with (buf_append fits (buf_init fits)
              (''COUNT(*)'' @ newline @ ''----------'' @ newline @ show_nat (unat count) @ newline)) (Count_is count))"

definition emit_rows :: "(nat \<Rightarrow> bool) \<Rightarrow> db_header \<Rightarrow> row_value list list \<Rightarrow> out_buf" where
  "emit_rows fits hdr rows =
     foldl (\<lambda>b values. append_row fits b hdr values) (append_header fits (buf_init fits) hdr) rows"

text \<open>\<open>SELECT ... ORDER BY\<close>: collect, sort, put out.\<close>

definition exec_order_by :: "(nat \<Rightarrow> bool) \<Rightarrow> store \<Rightarrow> statement \<Rightarrow> exec_result option" where
  "exec_order_by fits s stmt =
     (let hdr = st_hdr s in
      case find_column_index hdr (order_by_field stmt) of
        None \<Rightarrow> Some (failed_with (Order_column_unknown (order_by_field stmt)))
      | Some col_idx \<Rightarrow>
          let rc = (if has_limit stmt then row_collect_init_with_cap fits (limit_count stmt) else row_collect_init fits);
              cmp = compare_row_values hdr col_idx (order_desc stmt)
          in if rc_alloc_failed rc then
               Some (failed_with (if has_limit stmt then Order_limit_no_memory else Order_buffer_no_memory))
             else case scan_with s (if has_limit stmt then topk_scan_cb fits hdr stmt col_idx
                                    else collect_scan_cb fits hdr stmt) rc of
               None \<Rightarrow> None
             | Some rc \<Rightarrow>
                 if rc_overrun rc then None
                 else if rc_alloc_failed rc then Some (failed_with Order_no_memory)
                 else case (if length (rc_rows rc) > 1
                            then quicksort_row_blocks cmp (rc_rows rc) 0 (int (length (rc_rows rc)) - 1)
                            else Some (rc_rows rc)) of
                   None \<Rightarrow> None
                 | Some rows \<Rightarrow>
                     let rows = (if has_limit stmt then take (unat (limit_count stmt)) rows else rows);
                         n = word_of_nat (length rows)
                     in if rows \<noteq> [] then result_with (emit_rows fits hdr rows) (Rows_found n)
                        else Some (done_with (Rows_found n)))"

definition exec_plain_scan :: "(nat \<Rightarrow> bool) \<Rightarrow> store \<Rightarrow> statement \<Rightarrow> exec_result option" where
  "exec_plain_scan fits s stmt =
     (case scan_with s (select_scan_cb fits (st_hdr s) stmt) (0, buf_init fits) of
        None \<Rightarrow> None
      | Some (count, b) \<Rightarrow>
          if count > 0 then result_with b (Rows_found count)
          else if ob_overrun b then None else Some (done_with (Rows_found count)))"

definition exec_table_scan :: "(nat \<Rightarrow> bool) \<Rightarrow> store \<Rightarrow> statement \<Rightarrow> exec_result option" where
  "exec_table_scan fits s stmt =
     (if select_count stmt then exec_count fits s stmt
      else if has_limit stmt \<and> limit_count stmt = 0 then Some (done_with (Rows_found 0))
      else if has_order_by stmt then exec_order_by fits s stmt
      else exec_plain_scan fits s stmt)"

definition exec_index_lookup :: "(nat \<Rightarrow> bool) \<Rightarrow> store \<Rightarrow> statement \<Rightarrow> exec_result option" where
  "exec_index_lookup fits s stmt =
     (case bptree_search s (pred_id stmt) of
        None \<Rightarrow> None
      | Some None \<Rightarrow> Some (done_with (Id_not_found (pred_id stmt)))
      | Some (Some ref) \<Rightarrow>
          (case heap_fetch s ref of
             None \<Rightarrow> Some (failed_with Row_unreadable)
           | Some row_data \<Rightarrow>
               (case row_deserialize (st_hdr s) row_data of
                  None \<Rightarrow> None
                | Some values \<Rightarrow> result_with (emit_rows fits (st_hdr s) [values]) Row_found)))"

text \<open>The first phase of a range scan collects references in an array that doubles.\<close>

record range_collect =
  rg_refs :: "row_ref list"
  rg_cap :: u32
  rg_alloc_failed :: bool
  rg_overrun :: bool

definition range_collect_cb :: "(nat \<Rightarrow> bool) \<Rightarrow> u32 \<Rightarrow> u64 \<Rightarrow> row_ref \<Rightarrow> range_collect \<Rightarrow> bool \<times> range_collect" where
  "range_collect_cb fits limit key ref rc =
     (let full = (length (rg_refs rc) \<ge> unat (rg_cap rc));
          ncap = (if rg_cap rc \<noteq> 0 then rg_cap rc * 2 else 256)
      in if full \<and> \<not> fits (unat ncap * 6) then (False, rc\<lparr>rg_alloc_failed := True\<rparr>)
         else
           let cap = (if full then ncap else rg_cap rc);
               rc = rc\<lparr>rg_refs := rg_refs rc @ [ref], rg_cap := cap,
                 rg_overrun := (rg_overrun rc \<or> length (rg_refs rc) \<ge> unat cap)\<rparr>
           in (\<not> (limit \<noteq> 0 \<and> length (rg_refs rc) \<ge> unat limit), rc))"

text \<open>The second phase reads the rows; a slot that is no longer alive is skipped.\<close>

fun emit_refs :: "(nat \<Rightarrow> bool) \<Rightarrow> store \<Rightarrow> row_ref list \<Rightarrow> scan_ctx \<Rightarrow> scan_ctx option" where
  "emit_refs fits s [] ctx = Some ctx"
| "emit_refs fits s (ref # refs) ctx =
     (let cur_page = st_pages s (rr_page_id ref); slot = slot_at cur_page (rr_slot_id ref) in
      if sl_status slot \<noteq> SLOT_ALIVE then emit_refs fits s refs ctx
      else case row_deserialize (st_hdr s) (drop (unat (sl_offset slot)) cur_page) of
        None \<Rightarrow> None
      | Some values \<Rightarrow> emit_refs fits s refs (emit_row fits (st_hdr s) values ctx))"

definition exec_index_range_scan :: "(nat \<Rightarrow> bool) \<Rightarrow> store \<Rightarrow> statement \<Rightarrow> exec_result option" where
  "exec_index_range_scan fits s stmt =
     (if has_limit stmt \<and> limit_count stmt = 0 then Some (done_with (Rows_found_range 0))
      else
        case bptree_range_scan s (has_lo stmt) (range_lo stmt) (lo_inclusive stmt)
            (has_hi stmt) (range_hi stmt) (hi_inclusive stmt)
            (range_collect_cb fits (if has_limit stmt then limit_count stmt else 0))
            \<lparr>rg_refs = [], rg_cap = 0, rg_alloc_failed = False, rg_overrun = False\<rparr> of
          None \<Rightarrow> None
        | Some rc \<Rightarrow>
            if rg_overrun rc then None
            else if rg_alloc_failed rc then Some (failed_with Range_no_memory)
            else case emit_refs fits s (rg_refs rc) (0, buf_init fits) of
              None \<Rightarrow> None
            | Some (out, b) \<Rightarrow>
                if out > 0 then result_with b (Rows_found_range out)
                else if ob_overrun b then None else Some (done_with (Rows_found_range out)))"

section \<open>DELETE and UPDATE\<close>

text \<open>The ids of the matching rows, in an array that doubles.\<close>

record id_collect =
  ic_ids :: "u64 list"
  ic_cap :: u32
  ic_alloc_failed :: bool
  ic_overrun :: bool

definition no_ids :: id_collect where
  "no_ids = \<lparr>ic_ids = [], ic_cap = 0, ic_alloc_failed = False, ic_overrun = False\<rparr>"

definition collect_id_cb ::
  "(nat \<Rightarrow> bool) \<Rightarrow> db_header \<Rightarrow> statement \<Rightarrow> row_value list \<Rightarrow> id_collect \<Rightarrow> bool \<times> id_collect" where
  "collect_id_cb fits hdr stmt values dc =
     (if \<not> match_predicate hdr values stmt then (True, dc)
      else
        let full = (length (ic_ids dc) \<ge> unat (ic_cap dc));
            cap = (if full then (if ic_cap dc \<noteq> 0 then ic_cap dc * 2 else 64) else ic_cap dc)
        in if full \<and> \<not> fits (unat cap * 8) then (False, dc\<lparr>ic_cap := cap, ic_alloc_failed := True\<rparr>)
           else (True, dc\<lparr>ic_ids := ic_ids dc @ [bigint_val (values ! 0)], ic_cap := cap,
                  ic_overrun := (ic_overrun dc \<or> length (ic_ids dc) \<ge> unat cap)\<rparr>))"

definition dedup_sorted :: "u64 list \<Rightarrow> u64 list" where
  "dedup_sorted ids = foldl (\<lambda>w x. if w = [] \<or> x \<noteq> last w then w @ [x] else w) [] ids"

fun lock_ids :: "'l acquirer \<Rightarrow> 'l \<Rightarrow> u64 list \<Rightarrow> lock_mode \<Rightarrow> u64 option \<times> 'l" where
  "lock_ids acquire l [] mode = (None, l)"
| "lock_ids acquire l (i # ids) mode =
     (case acquire l i mode of (rc, l) \<Rightarrow> if rc \<noteq> 0 then (Some i, l) else lock_ids acquire l ids mode)"

text \<open>The ids in increasing order without repetitions, and the id whose lock could not be had.\<close>

definition lock_collected_ids :: "'l acquirer \<Rightarrow> 'l \<Rightarrow> u64 list \<Rightarrow> lock_mode \<Rightarrow> u64 option \<times> u64 list \<times> 'l" where
  "lock_collected_ids acquire l ids mode =
     (if ids = [] then (None, [], l)
      else let ids = dedup_sorted (sort ids)
           in case lock_ids acquire l ids mode of (failed, l) \<Rightarrow> (failed, ids, l))"

text \<open>The row of an id, if it is there and still matches; the outer option is undefined behaviour.\<close>

definition fetch_matching_row_by_id :: "store \<Rightarrow> u64 \<Rightarrow> statement \<Rightarrow> (row_ref \<times> row_value list) option option" where
  "fetch_matching_row_by_id s i stmt =
     (case bptree_search s i of
        None \<Rightarrow> None
      | Some None \<Rightarrow> Some None
      | Some (Some ref) \<Rightarrow>
          (case heap_fetch s ref of
             None \<Rightarrow> Some None
           | Some row_data \<Rightarrow>
               (case row_deserialize (st_hdr s) row_data of
                  None \<Rightarrow> None
                | Some values \<Rightarrow>
                    Some (if match_predicate (st_hdr s) values stmt then Some (ref, values) else None))))"

definition count_down :: "store \<Rightarrow> store" where
  "count_down s = set_hdr s ((st_hdr s)\<lparr>hd_row_count := hd_row_count (st_hdr s) - 1\<rparr>)"

definition exec_index_delete :: "store \<Rightarrow> statement \<Rightarrow> (exec_result \<times> store) option" where
  "exec_index_delete s stmt =
     (case bptree_search s (pred_id stmt) of
        None \<Rightarrow> None
      | Some None \<Rightarrow> Some (done_with (Id_not_found (pred_id stmt)), s)
      | Some (Some ref) \<Rightarrow>
          (case bptree_delete (snd (heap_delete s ref)) (pred_id stmt) of
             None \<Rightarrow> None
           | Some (_, s) \<Rightarrow> Some (done_with (Row_deleted (pred_id stmt)), count_down s)))"

fun delete_ids :: "store \<Rightarrow> statement \<Rightarrow> u64 list \<Rightarrow> u32 \<Rightarrow> (u32 \<times> store) option" where
  "delete_ids s stmt [] count = Some (count, s)"
| "delete_ids s stmt (i # ids) count =
     (case fetch_matching_row_by_id s i stmt of
        None \<Rightarrow> None
      | Some None \<Rightarrow> delete_ids s stmt ids count
      | Some (Some (ref, _)) \<Rightarrow>
          (case heap_delete s ref of
             (False, s) \<Rightarrow> delete_ids s stmt ids count
           | (True, s) \<Rightarrow>
               (case bptree_delete s i of
                  None \<Rightarrow> None
                | Some (rc, s) \<Rightarrow>
                    if rc = 0 then delete_ids (count_down s) stmt ids (count + 1) else delete_ids s stmt ids count)))"

definition exec_delete_scan ::
  "(nat \<Rightarrow> bool) \<Rightarrow> 'l acquirer \<Rightarrow> store \<Rightarrow> 'l \<Rightarrow> statement \<Rightarrow> (exec_result \<times> store \<times> 'l) option" where
  "exec_delete_scan fits acquire s l stmt =
     (case scan_with s (collect_id_cb fits (st_hdr s) stmt) no_ids of
        None \<Rightarrow> None
      | Some dc \<Rightarrow>
          if ic_overrun dc then None
          else if ic_alloc_failed dc then Some (failed_with Delete_no_memory, s, l)
          else case lock_collected_ids acquire l (ic_ids dc) LOCK_X of
            (Some failed_id, _, l) \<Rightarrow> Some (failed_with (Row_lock_timeout failed_id), s, l)
          | (None, ids, l) \<Rightarrow>
              map_option (\<lambda>(count, s). (done_with (Rows_deleted count), s, l)) (delete_ids s stmt ids 0))"

text \<open>The column to change, or the error.\<close>

definition validate_update_target :: "db_header \<Rightarrow> statement \<Rightarrow> exec_result + nat" where
  "validate_update_target hdr stmt =
     (case find_column_index hdr (update_field stmt) of
        None \<Rightarrow> Inl (failed_with (Column_unknown (update_field stmt)))
      | Some col_idx \<Rightarrow>
          if cm_is_system (hd_columns hdr ! col_idx) \<noteq> 0 then Inl (failed_with (Column_system (update_field stmt)))
          else Inr col_idx)"

text \<open>Serialising the changed row over the old one, in its slot.\<close>

definition overwrite_row :: "(nat \<Rightarrow> bool) \<Rightarrow> store \<Rightarrow> row_ref \<Rightarrow> row_value list \<Rightarrow> store option" where
  "overwrite_row fits s ref values =
     (if \<not> fits (unat (hd_row_size (st_hdr s))) then None
      else case row_serialize (st_hdr s) values of
        None \<Rightarrow> None
      | Some new_buf \<Rightarrow>
          let page = st_pages s (rr_page_id ref); off = unat (sl_offset (slot_at page (rr_slot_id ref)))
          in if off + length new_buf \<le> length page
             then Some (st_put s (rr_page_id ref) (mwrite page off new_buf)) else None)"

definition exec_index_update :: "(nat \<Rightarrow> bool) \<Rightarrow> store \<Rightarrow> statement \<Rightarrow> (exec_result \<times> store) option" where
  "exec_index_update fits s stmt =
     (case validate_update_target (st_hdr s) stmt of
        Inl err \<Rightarrow> Some (err, s)
      | Inr col_idx \<Rightarrow>
          (case bptree_search s (pred_id stmt) of
             None \<Rightarrow> None
           | Some None \<Rightarrow> Some (done_with (No_row_updated (pred_id stmt)), s)
           | Some (Some ref) \<Rightarrow>
               (case heap_fetch s ref of
                  None \<Rightarrow> Some (failed_with Row_unreadable, s)
                | Some row_data \<Rightarrow>
                    (case row_deserialize (st_hdr s) row_data of
                       None \<Rightarrow> None
                     | Some values \<Rightarrow>
                         map_option (\<lambda>s. (done_with (Row_updated (pred_id stmt)), s))
                           (overwrite_row fits s ref (apply_update_to_row (st_hdr s) values stmt col_idx))))))"

fun update_ids :: "(nat \<Rightarrow> bool) \<Rightarrow> store \<Rightarrow> statement \<Rightarrow> nat \<Rightarrow> u64 list \<Rightarrow> u32 \<Rightarrow> (u32 \<times> store) option" where
  "update_ids fits s stmt col_idx [] count = Some (count, s)"
| "update_ids fits s stmt col_idx (i # ids) count =
     (case fetch_matching_row_by_id s i stmt of
        None \<Rightarrow> None
      | Some None \<Rightarrow> update_ids fits s stmt col_idx ids count
      | Some (Some (ref, values)) \<Rightarrow>
          (case overwrite_row fits s ref (apply_update_to_row (st_hdr s) values stmt col_idx) of
             None \<Rightarrow> None
           | Some s \<Rightarrow> update_ids fits s stmt col_idx ids (count + 1)))"

definition exec_update_scan ::
  "(nat \<Rightarrow> bool) \<Rightarrow> 'l acquirer \<Rightarrow> store \<Rightarrow> 'l \<Rightarrow> statement \<Rightarrow> (exec_result \<times> store \<times> 'l) option" where
  "exec_update_scan fits acquire s l stmt =
     (case validate_update_target (st_hdr s) stmt of
        Inl err \<Rightarrow> Some (err, s, l)
      | Inr col_idx \<Rightarrow>
          (case scan_with s (collect_id_cb fits (st_hdr s) stmt) no_ids of
             None \<Rightarrow> None
           | Some uc \<Rightarrow>
               if ic_overrun uc then None
               else if ic_alloc_failed uc then Some (failed_with Update_no_memory, s, l)
               else case lock_collected_ids acquire l (ic_ids uc) LOCK_X of
                 (Some failed_id, _, l) \<Rightarrow> Some (failed_with (Row_lock_timeout failed_id), s, l)
               | (None, ids, l) \<Rightarrow>
                   map_option (\<lambda>(count, s). (done_with (Rows_updated count), s, l)) (update_ids fits s stmt col_idx ids 0)))"

section \<open>EXPLAIN and the dispatch\<close>

definition show_u64 :: "u64 \<Rightarrow> string" where "show_u64 x = show_nat (unat x)"

definition explain_pieces :: "statement \<Rightarrow> string list" where
  "explain_pieces stmt =
     (let path = planner_create_plan stmt; index = ''  Index: B+ Tree (id)'' @ newline in
      [''Access Path: '' @ access_path_name path @ newline] @
      (case path of
         ACCESS_PATH_INDEX_LOOKUP \<Rightarrow> [index, ''  Target: id = '' @ show_u64 (pred_id stmt) @ newline]
       | ACCESS_PATH_INDEX_RANGE \<Rightarrow>
           [index, ''  Range: '']
           @ (if has_lo stmt then [''id '' @ (if lo_inclusive stmt then ''>='' else ''>'') @ '' '' @ show_u64 (range_lo stmt)] else [])
           @ (if has_lo stmt \<and> has_hi stmt then ['' AND ''] else [])
           @ (if has_hi stmt then [''id '' @ (if hi_inclusive stmt then ''<='' else ''<'') @ '' '' @ show_u64 (range_hi stmt)] else [])
           @ [newline @ ''  Scan: B+tree leaf traversal (O(log N + rows))'' @ newline]
       | ACCESS_PATH_INDEX_DELETE \<Rightarrow> [index, ''  Delete: id = '' @ show_u64 (pred_id stmt) @ newline]
       | ACCESS_PATH_INDEX_UPDATE \<Rightarrow> [index, ''  Update: id = '' @ show_u64 (pred_id stmt) @ newline]
       | ACCESS_PATH_DROP_TABLE \<Rightarrow> [''  Drop: table '' @ [CHR 0x27] @ table_name stmt @ [CHR 0x27] @ newline]
       | ACCESS_PATH_TABLE_SCAN \<Rightarrow>
           (if predicate_kind stmt = PREDICATE_FIELD_EQ
            then [''  Filter: '' @ pred_field stmt @ '' = '' @ [CHR 0x27] @ pred_value stmt @ [CHR 0x27] @ newline]
            else if predicate_kind stmt = PREDICATE_FIELD_CMP
            then [''  Filter: '' @ pred_field stmt @ '' (comparison)'' @ newline] else [])
           @ [''  Scan: all heap pages'' @ newline]
       | _ \<Rightarrow> []))"

definition exec_explain :: "(nat \<Rightarrow> bool) \<Rightarrow> statement \<Rightarrow> exec_result option" where
  "exec_explain fits stmt = result_with (foldl (buf_append fits) (buf_init fits) (explain_pieces stmt)) Plan_shown"

definition execute ::
  "(nat \<Rightarrow> bool) \<Rightarrow> 'l acquirer \<Rightarrow> store \<Rightarrow> 'l \<Rightarrow> statement \<Rightarrow> (exec_result \<times> store \<times> 'l) option" where
  "execute fits acquire s l stmt =
     (if stmt_type stmt = STMT_EXPLAIN then map_option (\<lambda>r. (r, s, l)) (exec_explain fits stmt)
      else case planner_create_plan stmt of
        ACCESS_PATH_CREATE_TABLE \<Rightarrow> map_option (\<lambda>(r, s). (r, s, l)) (exec_create_table s stmt)
      | ACCESS_PATH_INSERT \<Rightarrow> exec_insert fits acquire s l stmt
      | ACCESS_PATH_INDEX_LOOKUP \<Rightarrow> map_option (\<lambda>r. (r, s, l)) (exec_index_lookup fits s stmt)
      | ACCESS_PATH_INDEX_RANGE \<Rightarrow> map_option (\<lambda>r. (r, s, l)) (exec_index_range_scan fits s stmt)
      | ACCESS_PATH_TABLE_SCAN \<Rightarrow>
          if stmt_type stmt = STMT_DELETE then exec_delete_scan fits acquire s l stmt
          else if stmt_type stmt = STMT_UPDATE then exec_update_scan fits acquire s l stmt
          else map_option (\<lambda>r. (r, s, l)) (exec_table_scan fits s stmt)
      | ACCESS_PATH_INDEX_DELETE \<Rightarrow> map_option (\<lambda>(r, s). (r, s, l)) (exec_index_delete s stmt)
      | ACCESS_PATH_INDEX_UPDATE \<Rightarrow> map_option (\<lambda>(r, s). (r, s, l)) (exec_index_update fits s stmt)
      | ACCESS_PATH_DROP_TABLE \<Rightarrow> Some (case exec_drop_table s stmt of (r, s) \<Rightarrow> (r, s, l)))"

end
