(* ===== verification/Db_Execute.thy ===== *)
theory Db_Execute
  imports Executor
begin

text \<open>
  \<open>db_execute\<close> of \<open>src/db.c\<close>: parse, take the statement's lock, run it under the engine lock,
  release every lock. The lock manager is an argument, as in the executor; the engine lock, which
  leaves no trace in one thread's run, is in \<open>Engine_Lock\<close>.
\<close>

record lock_request =
  need_lock :: bool
  is_range :: bool
  lr_mode :: lock_mode
  point_id :: u64
  range_low :: u64
  range_high :: u64

definition no_request :: lock_request where
  "no_request = \<lparr>need_lock = False, is_range = False, lr_mode = LOCK_S, point_id = 0, range_low = 0, range_high = 0\<rparr>"

definition is_ddl :: "statement_type \<Rightarrow> bool" where
  "is_ddl ty \<longleftrightarrow> ty = STMT_CREATE_TABLE \<or> ty = STMT_DROP_TABLE"

definition statement_mode :: "statement_type \<Rightarrow> lock_mode option" where
  "statement_mode ty =
     (case ty of STMT_SELECT \<Rightarrow> Some LOCK_S | STMT_UPDATE \<Rightarrow> Some LOCK_X | STMT_DELETE \<Rightarrow> Some LOCK_X | _ \<Rightarrow> None)"

definition range_request :: "lock_mode \<Rightarrow> u64 \<Rightarrow> u64 \<Rightarrow> lock_request" where
  "range_request mode low high =
     (if low > 0 \<and> high \<ge> low
      then no_request\<lparr>need_lock := True, is_range := True, lr_mode := mode, range_low := low, range_high := high\<rparr>
      else no_request)"

definition determine_lock :: "statement \<Rightarrow> lock_request" where
  "determine_lock stmt =
     (case statement_mode (stmt_type stmt) of
        None \<Rightarrow> no_request
      | Some mode \<Rightarrow>
          if predicate_kind stmt = PREDICATE_ID_EQ then
            no_request\<lparr>need_lock := True, lr_mode := mode, point_id := pred_id stmt\<rparr>
          else if predicate_kind stmt = PREDICATE_FIELD_CMP \<and> same_name (pred_field stmt) ''id'' then
            let val = atoll (pred_value stmt) in
            case pred_op stmt of
              OP_GT \<Rightarrow> range_request mode (val + 1) (-1)
            | OP_GE \<Rightarrow> range_request mode val (-1)
            | OP_LT \<Rightarrow> range_request mode 1 (if val > 1 then val - 1 else 0)
            | OP_LE \<Rightarrow> range_request mode 1 val
            | OP_NE \<Rightarrow> no_request
            | OP_EQ \<Rightarrow> no_request
          else no_request)"

text \<open>The lock manager's three calls, each with the lock state it leaves.\<close>

record 'l lock_calls =
  lc_acquire :: "'l \<Rightarrow> u64 \<Rightarrow> lock_mode \<Rightarrow> int \<times> 'l"
  lc_acquire_range :: "'l \<Rightarrow> u64 \<Rightarrow> u64 \<Rightarrow> lock_mode \<Rightarrow> int \<times> 'l"
  lc_release_all :: "'l \<Rightarrow> 'l"

definition statement_lock :: "'l lock_calls \<Rightarrow> 'l \<Rightarrow> lock_request \<Rightarrow> int \<times> 'l" where
  "statement_lock lc l req =
     (if \<not> need_lock req then (0, l)
      else if is_range req then lc_acquire_range lc l (range_low req) (range_high req) (lr_mode req)
      else lc_acquire lc l (point_id req) (lr_mode req))"

definition lock_timeout_message :: "lock_request \<Rightarrow> exec_message" where
  "lock_timeout_message req =
     (if is_range req then Range_lock_timeout (range_low req) (range_high req) else Point_lock_timeout (point_id req))"

definition db_execute ::
  "(nat \<Rightarrow> bool) \<Rightarrow> 'l lock_calls \<Rightarrow> store \<Rightarrow> 'l \<Rightarrow> string \<Rightarrow> (exec_result \<times> store \<times> 'l) option" where
  "db_execute fits lc s l sql =
     (case parse sql of
        Inl Undefined \<Rightarrow> None
      | Inl Syntax \<Rightarrow> Some (failed_with Parse_failed, s, l)
      | Inr stmt \<Rightarrow>
          let req = determine_lock stmt in
          (case statement_lock lc l req of
             (rc, l) \<Rightarrow>
               if rc \<noteq> 0 then Some (failed_with (lock_timeout_message req), s, l)
               else map_option (\<lambda>(r, s, l). (r, s, lc_release_all lc l)) (execute fits (lc_acquire lc) s l stmt)))"

end
