(* ===== verification/Engine_Lock.thy ===== *)
theory Engine_Lock
  imports RW_Lock Db_Execute
begin

text \<open>
  The engine lock of \<open>src/db.c\<close>: \<open>db_execute\<close> runs a statement that changes the schema under the
  write lock and every other one under the read lock, so the threads of the server run statements
  on tables side by side and CREATE TABLE and DROP TABLE alone. The state is the lock and the
  statements now between its acquisition and its release.
\<close>

record engine =
  en_lock :: rwlock
  en_running :: "(thread \<times> statement_type) list"

definition engine_init :: engine where
  "engine_init = \<lparr>en_lock = rwlock_init, en_running = []\<rparr>"

text \<open>\<open>None\<close>: the thread waits, or is running a statement already.\<close>

definition engine_enter :: "engine \<Rightarrow> thread \<Rightarrow> statement_type \<Rightarrow> engine option" where
  "engine_enter e t ty =
     (if t \<in> fst ` set (en_running e) then None
      else map_option (\<lambda>l. e\<lparr>en_lock := l, en_running := (t, ty) # en_running e\<rparr>)
        (if is_ddl ty then rwlock_wrlock (en_lock e) else rwlock_rdlock (en_lock e)))"

definition engine_leave :: "engine \<Rightarrow> thread \<Rightarrow> engine option" where
  "engine_leave e t =
     (case List.extract (\<lambda>x. fst x = t) (en_running e) of
        None \<Rightarrow> None
      | Some (xs, x, ys) \<Rightarrow>
          map_option (\<lambda>l. e\<lparr>en_lock := l, en_running := xs @ ys\<rparr>) (rwlock_unlock (en_lock e)))"

datatype engine_event = Enter thread statement_type | Leave thread

fun engine_step :: "engine \<Rightarrow> engine_event \<Rightarrow> engine option" where
  "engine_step e (Enter t ty) = engine_enter e t ty"
| "engine_step e (Leave t) = engine_leave e t"

fun engine_run :: "engine \<Rightarrow> engine_event list \<Rightarrow> engine option" where
  "engine_run e [] = Some e"
| "engine_run e (x # xs) = (case engine_step e x of None \<Rightarrow> None | Some e' \<Rightarrow> engine_run e' xs)"

section \<open>The invariant\<close>

text \<open>The lock says what runs: one statement on the schema, or so many others.\<close>

definition engine_inv :: "engine \<Rightarrow> bool" where
  "engine_inv e \<longleftrightarrow> rw_readers (en_lock e) = length (filter (\<lambda>x. \<not> is_ddl (snd x)) (en_running e))
     \<and> of_bool (rw_writer (en_lock e)) = length (filter (\<lambda>x. is_ddl (snd x)) (en_running e))
     \<and> (rw_writer (en_lock e) \<longrightarrow> rw_readers (en_lock e) = 0)"

lemma engine_inv_init: "engine_inv engine_init"
  by (simp add: engine_inv_def engine_init_def rwlock_init_def)

lemma engine_enter_inv: "engine_inv e \<Longrightarrow> engine_enter e t ty = Some e' \<Longrightarrow> engine_inv e'"
  by (cases "is_ddl ty")
    (auto simp: engine_enter_def engine_inv_def rwlock_wrlock_def rwlock_rdlock_def split: if_splits)

lemma engine_leave_inv:
  assumes inv: "engine_inv e" and step: "engine_leave e t = Some e'"
  shows "engine_inv e'"
proof -
  from step obtain xs x ys l where rs: "en_running e = xs @ x # ys" and l: "rwlock_unlock (en_lock e) = Some l"
    and e': "e' = e\<lparr>en_lock := l, en_running := xs @ ys\<rparr>"
    by (auto simp: engine_leave_def extract_Some_iff split: option.splits)
  show ?thesis
    using inv l by (cases "is_ddl (snd x)"; cases "rw_writer (en_lock e)")
      (auto simp: engine_inv_def rs e' rwlock_unlock_def split: if_splits)
qed

lemma engine_run_inv: "engine_inv e \<Longrightarrow> engine_run e es = Some e' \<Longrightarrow> engine_inv e'"
proof (induction es arbitrary: e)
  case (Cons x xs)
  then show ?case by (cases x) (auto split: option.splits dest: engine_enter_inv engine_leave_inv)
qed simp

lemma engine_inv_alone:
  assumes "engine_inv e" "(t, ty) \<in> set (en_running e)" "is_ddl ty"
  shows "en_running e = [(t, ty)]"
proof -
  let ?rs = "en_running e"
  have "filter (\<lambda>x. is_ddl (snd x)) ?rs \<noteq> []" using assms(2,3) by (force simp: filter_empty_conv)
  with assms(1) have w: "rw_writer (en_lock e)" by (auto simp: engine_inv_def of_bool_def split: if_splits)
  with assms(1) have "length (filter (\<lambda>x. is_ddl (snd x)) ?rs) = 1"
    "length (filter (\<lambda>x. \<not> is_ddl (snd x)) ?rs) = 0"
    unfolding engine_inv_def by (simp, metis)
  then have "length ?rs = 1" using sum_length_filter_compl [of "\<lambda>x. is_ddl (snd x)" ?rs] by simp
  with assms(2) show ?thesis by (auto simp: length_Suc_conv)
qed

text \<open>A running statement can always give the lock back.\<close>

lemma engine_leave_possible:
  assumes inv: "engine_inv e" and t: "(t, ty) \<in> set (en_running e)"
  shows "\<exists>e'. engine_leave e t = Some e'"
proof -
  have "List.extract (\<lambda>x. fst x = t) (en_running e) \<noteq> None"
    unfolding extract_None_iff using t by (metis fst_conv)
  moreover have "rwlock_unlock (en_lock e) \<noteq> None"
  proof (cases "rw_writer (en_lock e)")
    case False
    with inv have "\<forall>x \<in> set (en_running e). \<not> is_ddl (snd x)" by (simp add: engine_inv_def filter_empty_conv)
    with t inv have "0 < rw_readers (en_lock e)" by (force simp: engine_inv_def filter_empty_conv)
    with False show ?thesis by (simp add: rwlock_unlock_def)
  qed (simp add: rwlock_unlock_def)
  ultimately show ?thesis by (auto simp: engine_leave_def split: option.splits)
qed

text \<open>An idle thread waits exactly while a conflicting statement runs.\<close>

lemma engine_enter_waits:
  assumes inv: "engine_inv e" and t: "t \<notin> fst ` set (en_running e)"
  shows "engine_enter e t ty = None \<longleftrightarrow> (if is_ddl ty then en_running e \<noteq> [] else \<exists>x \<in> set (en_running e). is_ddl (snd x))"
proof -
  have "rw_writer (en_lock e) \<longleftrightarrow> filter (\<lambda>x. is_ddl (snd x)) (en_running e) \<noteq> []"
    using inv by (cases "rw_writer (en_lock e)") (auto simp: engine_inv_def)
  then have w: "rw_writer (en_lock e) \<longleftrightarrow> (\<exists>x \<in> set (en_running e). is_ddl (snd x))"
    by (simp add: filter_empty_conv)
  have r: "0 < rw_readers (en_lock e) \<longleftrightarrow> (\<exists>x \<in> set (en_running e). \<not> is_ddl (snd x))"
    using inv by (auto simp: engine_inv_def filter_empty_conv)
  show ?thesis
  proof (cases "is_ddl ty")
    case True
    then show ?thesis using t w r by (cases "en_running e") (auto simp: engine_enter_def rwlock_wrlock_def)
  next
    case False
    then show ?thesis using t w by (simp add: engine_enter_def rwlock_rdlock_def)
  qed
qed

end
