(* ===== verification/Lock_Props.thy ===== *)
theory Lock_Props
  imports Lock_Writers Engine_Lock
begin

text \<open>
  The properties of the lock table over every interleaving of its threads' operations.
\<close>

section \<open>A concrete run\<close>

text \<open>Thread 3 reads row 5; thread 4 wants to write it and waits; thread 3 ends.\<close>

definition run0 :: lock_sys where "run0 = \<lparr>sy_table = lock_table_init, sy_waits = (\<lambda>_. None)\<rparr>"
definition run1 :: lock_sys where "run1 = after 3 (acquire_start (sy_table run0) 3 (Point 5 LOCK_S) (Some 10)) run0"
definition run2 :: lock_sys where "run2 = after 4 (acquire_start (sy_table run1) 4 (Point 5 LOCK_X) (Some 11)) run1"
definition run3 :: lock_sys where "run3 = run2\<lparr>sy_table := lock_release_all (sy_table run2) 3\<rparr>"

definition table1 :: lock_table where
  "table1 = lock_table_init\<lparr>lt_buckets := (\<lambda>_. [])(5 := [10]),
     lt_mem := (lt_mem lock_table_init)(10 := \<lparr>lk_row_id = 5, lk_range_high = 0, lk_mode = LOCK_S, lk_owner = 3, lk_is_range = False\<rparr>),
     lt_held := (\<lambda>_. [])(3 := [10]), lt_held_table := (\<lambda>_. False)(3 := True)\<rparr>"

lemma hash5 [simp]: "hash_row_id 5 = 5"
  by (simp add: hash_row_id_def LOCK_TABLE_BUCKETS_def)

lemma start1: "acquire_start lock_table_init 3 (Point 5 LOCK_S) (Some 10) = (Returned 0, table1)"
  by (simp add: lock_acquire_def own_point_lock_def acquire_point_try_def conflict_exists_def point_vs_point_def
      point_vs_range_def reader_should_wait_def upgradable_def global_list_insert_point_def owner_list_push_def
      waiting_writer_unregister_def table1_def lock_table_init_def)

lemma table1_writers: "lt_waiting_writers table1 = 0"
  by (simp add: table1_def lock_table_init_def)

lemma run1_simp: "run1 = \<lparr>sy_table = table1, sy_waits = (\<lambda>_. None)\<rparr>"
  using start1 by (simp add: run1_def run0_def fun_upd_idem)

lemma conflict1: "conflict_exists table1 5 LOCK_X 4" "\<not> conflict_exists table1 5 LOCK_S 4"
  by (simp_all add: conflict_exists_def point_vs_point_def point_vs_range_def table1_def lock_table_init_def incompatible_def)

lemma own1: "own_point_lock table1 5 4 = None" "own_point_lock table1 5 3 = Some 10"
  by (simp_all add: own_point_lock_def table1_def)

definition writer_waits :: waiting where
  "writer_waits = \<lparr>wt_request = Point 5 LOCK_X, wt_entry = None, wt_registered = True\<rparr>"

lemma run2_simp: "run2 = \<lparr>sy_table = table1\<lparr>lt_waiting_writers := 1\<rparr>, sy_waits = [4 \<mapsto> writer_waits]\<rparr>"
  by (simp add: run2_def run1_simp lock_acquire_def own1 acquire_point_try_def conflict1 waiting_writer_register_def
      writer_waits_def table1_writers)

lemma fresh_any: "live lt \<subseteq> {10} \<Longrightarrow> fresh lt (Some 11)"
  by (auto simp: fresh_def live_def)

lemma live1: "live table1 = {10}"
  by (auto simp: live_iff table1_def lock_table_init_def LOCK_TABLE_BUCKETS_def)

lemma runs_reachable: "reachable run0" "reachable run1" "reachable run2" "reachable run3"
proof -
  show r0: "reachable run0" unfolding run0_def by (rule reachable.init)
  have "fresh (sy_table run0) (Some 10)" by (simp add: fresh_def run0_def all_entries_def lock_table_init_def)
  then have "lock_step run0 run1" unfolding run1_def by (intro lock_step.start) (simp_all add: run0_def)
  then show r1: "reachable run1" by (rule reachable.step [OF r0])
  have "fresh (sy_table run1) (Some 11)" by (rule fresh_any) (simp add: run1_simp live1)
  then have "lock_step run1 run2" unfolding run2_def by (intro lock_step.start) (simp_all add: run1_simp)
  then show r2: "reachable run2" by (rule reachable.step [OF r1])
  have "lock_step run2 run3" unfolding run3_def by (rule lock_step.release) (simp add: run2_simp)
  then show "reachable run3" by (rule reachable.step [OF r2])
qed

lemma holds1: "holds table1 3 (Point 5 LOCK_S)"
  by (rule holdsI [of 10]) (simp_all add: live1, simp_all add: table1_def span_low_def span_high_def)

section \<open>Exclusion\<close>

text \<open>
  C8: However the threads' operations interleave, two threads hold locks on overlapping rows or
  ranges only when both locks are shared.
\<close>

theorem lock_exclusion:
  assumes "reachable s" "holds (sy_table s) th1 r1" "holds (sy_table s) th2 r2" "th1 \<noteq> th2"
    and "req_low r1 \<le> req_high r2" "req_low r2 \<le> req_high r1"
  shows "req_mode r1 = LOCK_S \<and> req_mode r2 = LOCK_S"
  using holds_exclusion [OF _ assms(2-)] reachable_ok [OF assms(1)] by (simp add: sys_ok_def)

theorem lock_exclusion_witness: "\<not> holds (sy_table run1) 4 (Point 5 LOCK_X)"
  using lock_exclusion [OF runs_reachable(2), of 3 "Point 5 LOCK_S" 4 "Point 5 LOCK_X"] holds1 by (auto simp: run1_simp)

text \<open>
  C28: Every step of every thread keeps the lock table well formed: hash chains and range list hold
  each lock once and in its place, every thread's own list holds exactly its locks, and
  overlapping locks of different threads are shared.
\<close>

theorem lock_step_invariant:
  assumes "reachable s" "lock_step s s'"
  shows "lt_ok (sy_table s')"
  using lock_step_ok [OF assms(2) reachable_ok [OF assms(1)]] by (simp add: sys_ok_def)

theorem lock_step_invariant_witness: "lt_ok (sy_table run3)"
proof -
  have "lock_step run2 run3" unfolding run3_def by (rule lock_step.release) (simp add: run2_simp)
  then show ?thesis by (rule lock_step_invariant [OF runs_reachable(3)])
qed

text \<open>
  The conflict tests of the code, with their hash chains and their separate range list, find
  a conflict exactly when some other thread's lock overlaps the request and one of the two is
  exclusive.
\<close>

theorem conflict_tests_exact:
  assumes "reachable s"
  shows "(conflict_exists (sy_table s) row_id mode self
      \<longleftrightarrow> (\<exists>a \<in> live (sy_table s). blocks (lt_mem (sy_table s) a) self row_id row_id mode))
    \<and> (range_conflict_exists (sy_table s) low high mode self
      \<longleftrightarrow> (\<exists>a \<in> live (sy_table s). blocks (lt_mem (sy_table s) a) self low high mode))"
  using reachable_ok [OF assms] conflict_exists_iff range_conflict_exists_iff by (auto simp: sys_ok_def lt_ok_def)

theorem conflict_tests_exact_witness:
  "range_conflict_exists (sy_table run1) 3 8 LOCK_X 4"
  using conflict_tests_exact [OF runs_reachable(2), of 5 LOCK_X 4 3 8]
  by (simp add: run1_simp live1) (simp add: table1_def blocks_def overlaps_def span_low_def span_high_def incompatible_def)

section \<open>Acquiring and releasing\<close>



text \<open>
  \<open>lock_release_all\<close> gives up every lock of the calling thread, point and range, and no lock of
  another thread.
\<close>

theorem release_all_exact:
  assumes "reachable s"
  shows "live (lock_release_all (sy_table s) th) = {a \<in> live (sy_table s). lk_owner (lt_mem (sy_table s) a) \<noteq> th}
    \<and> lt_held (lock_release_all (sy_table s) th) th = [] \<and> lt_mem (lock_release_all (sy_table s) th) = lt_mem (sy_table s)"
proof -
  have ok: "lt_ok (sy_table s)" using reachable_ok [OF assms] by (simp add: sys_ok_def)
  note R = release_all_ok [OF ok, of th]
  have "set (lt_held (lock_release_all (sy_table s) th) th) = {}"
    using lt_okD(2) [OF R(1)] R(2,3) by (simp add: held_ok_def)
  with R(2,3) show ?thesis by simp
qed

theorem release_all_exact_witness: "live (sy_table run3) = {}"
  using release_all_exact [OF runs_reachable(3), of 3]
  by (simp add: run3_def run2_simp live1) (simp add: table1_def)

text \<open>
  Two threads that both hold a shared lock on a row and both ask for an exclusive one wait
  for each other: each request waits, and each repeated test waits again while the other holds on.
\<close>

theorem upgrade_deadlock:
  assumes "reachable s" "holds (sy_table s) th1 (Point row_id LOCK_S)" "holds (sy_table s) th2 (Point row_id LOCK_S)" "th1 \<noteq> th2"
  shows "(\<exists>w lt'. acquire_point_try (sy_table s) th1 row_id LOCK_X e1 b1 c1 = (Waits w, lt'))
    \<and> (\<exists>w lt'. acquire_point_try (sy_table s) th2 row_id LOCK_X e2 b2 c2 = (Waits w, lt'))"
proof -
  have L: "lists_ok (sy_table s)" using reachable_ok [OF assms(1)] by (simp add: sys_ok_def lt_ok_def)
  have "conflict_exists (sy_table s) row_id LOCK_X self"
    if "holds (sy_table s) other (Point row_id LOCK_S)" "self \<noteq> other" for self other
    unfolding conflict_exists_iff [OF L] using that
    by (auto simp: holds_def Let_def blocks_def overlaps_def incompatible_def)
  then show ?thesis
    using assms(2-4) by (auto simp: acquire_point_try_def)
qed

definition run1b :: lock_sys where "run1b = after 4 (acquire_start (sy_table run1) 4 (Point 5 LOCK_S) (Some 11)) run1"

theorem upgrade_deadlock_witness:
  "\<exists>w lt'. acquire_point_try (sy_table run1b) 3 5 LOCK_X (Some 10) False None = (Waits w, lt')"
proof -
  have f: "fresh (sy_table run1) (Some 11)" by (rule fresh_any) (simp add: run1_simp live1)
  have "lock_step run1 run1b" unfolding run1b_def by (rule lock_step.start [OF _ f]) (simp add: run1_simp)
  then have r: "reachable run1b" by (rule reachable.step [OF runs_reachable(2)])
  have ok1: "lt_ok table1" using reachable_ok [OF runs_reachable(2)] by (simp add: sys_ok_def run1_simp)
  obtain lt' where a: "acquire_start table1 4 (Point 5 LOCK_S) (Some 11) = (Returned 0, lt')"
    by (simp add: lock_acquire_def own1 acquire_point_try_def conflict1 reader_should_wait_def upgradable_def Let_def table1_writers)
  have f1: "fresh table1 (Some 11)" using f by (simp add: run1_simp)
  have t: "sy_table run1b = lt'" using a by (simp add: run1b_def run1_simp)
  have h2: "holds lt' 4 (Point 5 LOCK_S)" by (rule acquire_start_grants [OF ok1 f1 a])
  have "others_kept 4 table1 lt'" using acquire_start_ok [OF ok1 f1, of 4 "Point 5 LOCK_S"] a by (simp add: acquired_def)
  then have h1: "holds lt' 3 (Point 5 LOCK_S)" by (rule holds_others [OF holds1]) simp
  from upgrade_deadlock [OF r, of 3 5 4] h1 h2 t show ?thesis by simp
qed

section \<open>Writers before readers\<close>



text \<open>
  C39: When the allocation of a lock entry fails for a writer that had to wait, the writer stays
  counted: in every later state, whatever the threads do, a reader has to wait.
\<close>

theorem failed_allocation_blocks_readers:
  assumes "reachable s" "sy_waits s th = Some w" "wt_registered w"
    and "acquire_woken (sy_table s) th w None = (Returned (-1), lt')"
    and "lock_step\<^sup>*\<^sup>* (after th (Returned (-1), lt') s) s'"
  shows "reader_should_wait (sy_table s') LOCK_S"
proof -
  let ?s = "after th (Returned (-1), lt') s"
  have "lock_step s ?s" using lock_step.woken [of s th w None] assms(2,4) by (simp add: fresh_def)
  then have r: "reachable ?s" by (rule reachable.step [OF assms(1)])
  have "lt_waiting_writers lt' = lt_waiting_writers (sy_table s)"
    using assms(4) by (auto simp: acquire_woken_def acquire_point_try_def acquire_range_try_def
        split: request.splits if_splits option.splits)
  moreover have "registered ?s = registered s - {th}" by (auto simp: registered_def)
  moreover have "th \<in> registered s" using assms(2,3) by (auto simp: registered_def)
  moreover have "finite (registered s)" "0 \<le> leak s" using reachable_leak [OF assms(1)] by blast+
  ultimately have one: "1 \<le> leak ?s"
    using card_Suc_Diff1 [of "registered s" th] by (simp add: leak_def)
  from assms(5) r one have "1 \<le> leak s' \<and> reachable s'"
  proof (induction rule: rtranclp_induct)
    case (step y z)
    then show ?case using lock_step_leak [OF step(2)] reachable_ok reachable_leak reachable.step by fastforce
  qed simp
  then show ?thesis using reachable_leak [of s'] by (auto simp: leak_def reader_should_wait_def)
qed

theorem failed_allocation_blocks_readers_witness:
  "reader_should_wait (sy_table (after 4 (acquire_woken (sy_table run3) 4 writer_waits None) run3)) LOCK_S"
proof -
  have L: "lists_ok (sy_table run3)" using reachable_ok [OF runs_reachable(4)] by (simp add: sys_ok_def lt_ok_def)
  have "live (sy_table run3) = {}"
    using release_all_ok(2) reachable_ok [OF runs_reachable(3)]
    by (simp add: sys_ok_def run3_def run2_simp live1) (simp add: table1_def)
  then have "\<not> conflict_exists (sy_table run3) 5 LOCK_X 4" using conflict_exists_iff [OF L] by simp
  then have w: "acquire_woken (sy_table run3) 4 writer_waits None = (Returned (-1), sy_table run3)"
    by (simp add: acquire_woken_def writer_waits_def acquire_point_try_def reader_should_wait_def upgradable_def)
  have "sy_waits run3 4 = Some writer_waits" by (simp add: run3_def run2_simp)
  from failed_allocation_blocks_readers [OF runs_reachable(4) this _ w rtranclp.rtrancl_refl] w show ?thesis
    by (simp add: writer_waits_def)
qed

section \<open>The engine lock\<close>

text \<open>
  C38: However the threads' statements come and go, CREATE TABLE and DROP TABLE run alone: a
  statement waits for the engine lock exactly while a conflicting one runs, and every running
  statement can give the lock back.
\<close>

theorem schema_statements_run_alone:
  assumes "engine_run engine_init es = Some e"
  shows "(\<forall>(t, ty) \<in> set (en_running e). (is_ddl ty \<longrightarrow> en_running e = [(t, ty)]) \<and> (\<exists>e'. engine_leave e t = Some e'))
    \<and> (\<forall>t ty. t \<notin> fst ` set (en_running e) \<longrightarrow> engine_enter e t ty = None
         \<longleftrightarrow> (if is_ddl ty then en_running e \<noteq> [] else \<exists>x \<in> set (en_running e). is_ddl (snd x)))"
proof -
  have inv: "engine_inv e" by (rule engine_run_inv [OF engine_inv_init assms])
  show ?thesis
    using engine_inv_alone [OF inv] engine_leave_possible [OF inv] engine_enter_waits [OF inv] by fast
qed

theorem schema_statements_run_alone_witness:
  "\<exists>e. engine_run engine_init [Enter 1 STMT_SELECT, Enter 2 STMT_INSERT, Leave 1, Leave 2, Enter 3 STMT_DROP_TABLE] = Some e
    \<and> engine_enter e 1 STMT_SELECT = None \<and> en_running e = [(3, STMT_DROP_TABLE)]"
proof -
  obtain e where e: "engine_run engine_init [Enter 1 STMT_SELECT, Enter 2 STMT_INSERT, Leave 1, Leave 2, Enter 3 STMT_DROP_TABLE] = Some e"
    "en_running e = [(3, STMT_DROP_TABLE)]"
    by (simp add: engine_init_def engine_enter_def engine_leave_def extract_Cons_code extract_Nil_code is_ddl_def
      rwlock_init_def rwlock_rdlock_def rwlock_wrlock_def rwlock_unlock_def)
  from schema_statements_run_alone [OF e(1)] e show ?thesis by (auto simp: is_ddl_def)
qed

end
