(* ===== verification/Parser_Correct.thy ===== *)
theory Parser_Correct
  imports Db_Execute
begin

text \<open>
  What the parser gives: fields that fit the statement's buffers, INSERT statements that read back
  as they were written, and predicates from which no range lock is ever requested.
\<close>

section \<open>The fields fit\<close>

definition column_fits :: "column_def \<Rightarrow> bool" where
  "column_fits cd \<longleftrightarrow> length (cd_name cd) \<le> 31 \<and> cd_type cd \<in> {COL_TYPE_INT, COL_TYPE_BIGINT, COL_TYPE_VARCHAR}"

definition fields_fit :: "statement \<Rightarrow> bool" where
  "fields_fit stmt \<longleftrightarrow>
     length (table_name stmt) \<le> 31 \<and> length (pred_field stmt) \<le> 31 \<and> length (pred_value stmt) \<le> 255
     \<and> length (update_field stmt) \<le> 31 \<and> length (update_value stmt) \<le> 255 \<and> length (order_by_field stmt) \<le> 31
     \<and> length (insert_values stmt) \<le> MAX_COLUMNS \<and> (\<forall>v \<in> set (insert_values stmt). length v \<le> 255)
     \<and> length (col_defs stmt) \<le> MAX_COLUMNS \<and> (\<forall>cd \<in> set (col_defs stmt). column_fits cd)"

lemma scan_fits: "scan stop n p = (w, q) \<Longrightarrow> length w \<le> n"
proof -
  assume "scan stop n p = (w, q)"
  then have "w = takeWhile (\<lambda>c. \<not> stop c) (take n p)" by (auto simp: scan_def Let_def)
  then have "length w \<le> length (take n p)" by (simp only: length_takeWhile_le)
  then show ?thesis by simp
qed

lemma parse_value_fits: "parse_value stop p = (v, q) \<Longrightarrow> length v \<le> 255"
  by (auto simp: parse_value_def dest: scan_fits split: if_splits prod.splits)

lemma fields_fit_zero: "fields_fit (zero_statement\<lparr>stmt_type := ty\<rparr>)"
  by (simp add: fields_fit_def zero_statement_def)

lemma classify_fits: "fields_fit (classify stmt) = fields_fit stmt"
  by (simp add: classify_def Let_def fields_fit_def)

lemma parse_between_fits: "parse_between p stmt = Inr stmt' \<Longrightarrow> fields_fit stmt \<Longrightarrow> fields_fit stmt'"
  by (auto simp: parse_between_def Let_def fields_fit_def split: if_splits prod.splits)

lemma parse_where_fits:
  assumes "parse_where p stmt = Inr stmt'" "fields_fit stmt"
  shows "fields_fit stmt'"
proof -
  obtain f q where s: "scan field_stop 31 (skip_ws (drop 5 (skip_ws p))) = (f, q)" by (cases "scan field_stop 31 (skip_ws (drop 5 (skip_ws p)))")
  have f: "fields_fit (stmt\<lparr>pred_field := f\<rparr>)" "fields_fit (stmt\<lparr>predicate_kind := k\<rparr>)" for k
    using assms(2) scan_fits [OF s] by (simp_all add: fields_fit_def)
  have v: "fields_fit (classify (stmt\<lparr>pred_field := f, pred_op := op, pred_value := v\<rparr>))" if "length v \<le> 255" for op v
    using f(1) that by (simp add: classify_fits) (simp add: fields_fit_def)
  show ?thesis
    using assms(1) f parse_between_fits [OF _ f(1)]
    by (auto simp: parse_where_def Let_def s dest!: parse_value_fits intro: v split: if_splits option.splits prod.splits)
qed

lemma parse_limit_fits: "fields_fit (parse_limit p stmt) = fields_fit stmt"
  by (simp add: parse_limit_def Let_def fields_fit_def)

lemma parse_order_limit_fits: "parse_order_limit p stmt = Inr stmt' \<Longrightarrow> fields_fit stmt \<Longrightarrow> fields_fit stmt'"
  unfolding parse_order_limit_def Let_def
  by (auto simp: parse_limit_fits dest!: scan_fits split: if_splits prod.splits) (simp_all add: fields_fit_def)

lemma parse_type_kind:
  "parse_type ty p = Some (t, n, q) \<Longrightarrow> t \<in> {COL_TYPE_INT, COL_TYPE_BIGINT, COL_TYPE_VARCHAR}"
  by (auto simp: parse_type_def Let_def split: if_splits)

lemma parse_columns_fits:
  "parse_columns p cds = Inr cds' \<Longrightarrow> length cds \<le> MAX_COLUMNS \<Longrightarrow> \<forall>cd \<in> set cds. column_fits cd
   \<Longrightarrow> length cds' \<le> MAX_COLUMNS \<and> (\<forall>cd \<in> set cds'. column_fits cd)"
proof (induction p cds rule: parse_columns.induct)
  case (1 p cds)
  show ?case
  proof (cases "p = [] \<or> char_at p = CHR '')'' \<or> char_at (skip_ws p) = CHR '')''")
    case True
    then have "cds' = cds" using "1.prems"(1) by (auto simp: parse_columns.simps [of p cds] Let_def split: if_splits)
    then show ?thesis using "1.prems"(2,3) by simp
  next
    case False
    obtain name p2 where n: "scan name_stop 31 (skip_ws p) = (name, p2)" by (cases "scan name_stop 31 (skip_ws p)")
    obtain ty_str p3 where t: "scan type_stop 31 (skip_ws p2) = (ty_str, p3)" by (cases "scan type_stop 31 (skip_ws p2)")
    from "1.prems"(1) False n t obtain ty sz p4 where
      r: "length cds \<noteq> MAX_COLUMNS" "parse_type ty_str p3 = Some (ty, sz, p4)"
        "parse_columns (skip_comma p4) (cds @ [\<lparr>cd_name = name, cd_type = ty, cd_size = sz\<rparr>]) = Inr cds'"
      by (auto simp: parse_columns.simps [of p cds] Let_def split: if_splits option.splits)
    have "column_fits \<lparr>cd_name = name, cd_type = ty, cd_size = sz\<rparr>"
      using scan_fits [OF n] parse_type_kind [OF r(2)] by (simp add: column_fits_def)
    then show ?thesis
      using "1.IH" [OF _ refl _ _ n [symmetric] refl t [symmetric] refl r(2) refl refl r(3)] False r(1) "1.prems"(2,3) by auto
  qed
qed

lemma parse_values_fits:
  "parse_values p vals = Inr vals' \<Longrightarrow> length vals \<le> MAX_COLUMNS \<Longrightarrow> \<forall>v \<in> set vals. length v \<le> 255
   \<Longrightarrow> length vals' \<le> MAX_COLUMNS \<and> (\<forall>v \<in> set vals'. length v \<le> 255)"
proof (induction p vals rule: parse_values.induct)
  case (1 p vals)
  show ?case
  proof (cases "p = [] \<or> char_at p = CHR '')'' \<or> char_at (skip_ws p) = CHR '')''")
    case True
    then have "vals' = vals" using "1.prems"(1) by (auto simp: parse_values.simps [of p vals] Let_def split: if_splits)
    then show ?thesis using "1.prems"(2,3) by simp
  next
    case False
    obtain v q where v: "parse_value name_stop (skip_ws p) = (v, q)" by (cases "parse_value name_stop (skip_ws p)")
    from "1.prems"(1) False v have r: "length vals \<noteq> MAX_COLUMNS" "parse_values (skip_comma q) (vals @ [v]) = Inr vals'"
      by (auto simp: parse_values.simps [of p vals] Let_def split: if_splits)
    then show ?thesis
      using "1.IH" [OF _ refl _ _ v [symmetric] refl r(2)] False "1.prems"(2,3) parse_value_fits [OF v] by auto
  qed
qed

lemma parse_create_table_fits: "parse_create_table p stmt = Inr stmt' \<Longrightarrow> fields_fit stmt \<Longrightarrow> fields_fit stmt'"
  by (auto simp: parse_create_table_def Let_def fields_fit_def dest!: scan_fits parse_columns_fits split: if_splits prod.splits sum.splits)

lemma parse_insert_fits: "parse_insert p stmt = Inr stmt' \<Longrightarrow> fields_fit stmt \<Longrightarrow> fields_fit stmt'"
  by (auto simp: parse_insert_def Let_def fields_fit_def dest!: scan_fits parse_values_fits split: if_splits prod.splits sum.splits)

lemma fields_fit_update:
  "fields_fit stmt \<Longrightarrow> length t \<le> 31 \<Longrightarrow> fields_fit (stmt\<lparr>table_name := t\<rparr>)"
  "fields_fit stmt \<Longrightarrow> length t \<le> 31 \<Longrightarrow> length f \<le> 31 \<Longrightarrow> length v \<le> 255
   \<Longrightarrow> fields_fit (stmt\<lparr>table_name := t, update_field := f, update_value := v\<rparr>)"
  "fields_fit (stmt\<lparr>select_count := b\<rparr>) = fields_fit stmt" "fields_fit (stmt\<lparr>select_all := b\<rparr>) = fields_fit stmt"
  by (simp_all add: fields_fit_def)

lemma parse_tail_fits: "parse_tail p stmt = Inr stmt' \<Longrightarrow> fields_fit stmt \<Longrightarrow> fields_fit stmt'"
  unfolding parse_tail_def Let_def
  by (auto dest!: scan_fits split: if_splits prod.splits sum.splits)
    (rule parse_order_limit_fits, assumption, rule parse_where_fits, assumption, rule fields_fit_update(1))

lemma parse_select_fits: "parse_select p stmt = Inr stmt' \<Longrightarrow> fields_fit stmt \<Longrightarrow> fields_fit stmt'"
  unfolding parse_select_def Let_def
  by (auto dest!: parse_tail_fits simp: fields_fit_update(3,4) split: if_splits)

lemma parse_delete_fits: "parse_delete p stmt = Inr stmt' \<Longrightarrow> fields_fit stmt \<Longrightarrow> fields_fit stmt'"
  unfolding parse_delete_def Let_def
  by (auto dest!: scan_fits intro: parse_where_fits fields_fit_update(1) split: if_splits prod.splits)

lemma parse_update_fits: "parse_update p stmt = Inr stmt' \<Longrightarrow> fields_fit stmt \<Longrightarrow> fields_fit stmt'"
  unfolding parse_update_def Let_def
  by (auto dest!: scan_fits parse_value_fits intro: parse_where_fits fields_fit_update(2) split: if_splits prod.splits)

lemma parse_drop_table_fits: "parse_drop_table p stmt = Inr stmt' \<Longrightarrow> fields_fit stmt \<Longrightarrow> fields_fit stmt'"
  unfolding parse_drop_table_def
  by (auto dest!: scan_fits intro: fields_fit_update(1) split: prod.splits)

lemma explain_fits: "fields_fit stmt \<Longrightarrow> fields_fit (explain_statement stmt)"
  by (simp add: explain_statement_def fields_fit_def zero_statement_def)

lemmas parse_kind_fits = parse_create_table_fits parse_insert_fits parse_select_fits parse_delete_fits parse_update_fits
  parse_drop_table_fits

lemma parse_fits: "parse input = Inr stmt \<Longrightarrow> fields_fit stmt"
proof (induction input arbitrary: stmt rule: parse.induct)
  case (1 input)
  show ?case
    using "1.prems" unfolding parse.simps [of input] Let_def
    by (auto dest: parse_kind_fits [OF _ fields_fit_zero] "1.IH" [OF refl] simp: explain_fits split: if_splits sum.splits)
qed

section \<open>No range lock\<close>

text \<open>A comparison of \<open>id\<close> is a range or point predicate by then, so what is left compares another column.\<close>

definition no_id_compare :: "statement \<Rightarrow> bool" where
  "no_id_compare stmt \<longleftrightarrow> predicate_kind stmt = PREDICATE_FIELD_CMP \<and> pred_op stmt \<notin> {OP_NE, OP_EQ} \<longrightarrow> \<not> is_id_field (pred_field stmt)"

lemma classify_no_id_compare: "no_id_compare (classify stmt)"
  by (cases "pred_op stmt") (auto simp: classify_def Let_def no_id_compare_def)

lemma no_id_compare_other: "predicate_kind stmt \<noteq> PREDICATE_FIELD_CMP \<Longrightarrow> no_id_compare stmt"
  by (simp add: no_id_compare_def)

lemma parse_where_no_id_compare: "parse_where p stmt = Inr stmt' \<Longrightarrow> no_id_compare stmt'"
  unfolding parse_where_def Let_def parse_between_def
  by (auto simp: classify_no_id_compare no_id_compare_other split: if_splits prod.splits option.splits)

lemma no_id_compare_cong:
  "predicate_kind stmt' = predicate_kind stmt \<Longrightarrow> pred_op stmt' = pred_op stmt \<Longrightarrow> pred_field stmt' = pred_field stmt
   \<Longrightarrow> no_id_compare stmt' = no_id_compare stmt"
  by (simp add: no_id_compare_def)

lemma parse_order_limit_no_id_compare: "parse_order_limit p stmt = Inr stmt' \<Longrightarrow> no_id_compare stmt' = no_id_compare stmt"
  unfolding parse_order_limit_def Let_def parse_limit_def
  by (auto simp: no_id_compare_def split: if_splits prod.splits)

lemma parse_tail_no_id_compare: "parse_tail p stmt = Inr stmt' \<Longrightarrow> no_id_compare stmt'"
  unfolding parse_tail_def Let_def
  by (auto dest: parse_where_no_id_compare parse_order_limit_no_id_compare split: if_splits prod.splits sum.splits)

lemma parse_no_id_compare:
  assumes "parse input = Inr stmt" "statement_mode (stmt_type stmt) \<noteq> None"
  shows "no_id_compare stmt"
proof -
  have other: "no_id_compare stmt" if "predicate_kind stmt = PREDICATE_NONE" using that by (simp add: no_id_compare_def)
  have "parse_create_table p (zero_statement\<lparr>stmt_type := STMT_CREATE_TABLE\<rparr>) = Inr stmt \<Longrightarrow> predicate_kind stmt = PREDICATE_NONE"
    "parse_insert p (zero_statement\<lparr>stmt_type := STMT_INSERT\<rparr>) = Inr stmt \<Longrightarrow> predicate_kind stmt = PREDICATE_NONE"
    "parse_drop_table p (zero_statement\<lparr>stmt_type := STMT_DROP_TABLE\<rparr>) = Inr stmt \<Longrightarrow> predicate_kind stmt = PREDICATE_NONE" for p
    by (auto simp: parse_create_table_def parse_insert_def parse_drop_table_def Let_def zero_statement_def split: if_splits prod.splits sum.splits)
  note none = this [THEN other]
  have "parse_select p st = Inr stmt \<Longrightarrow> no_id_compare stmt" "parse_delete p st = Inr stmt \<Longrightarrow> no_id_compare stmt"
    "parse_update p st = Inr stmt \<Longrightarrow> no_id_compare stmt" for p st
    by (auto simp: parse_select_def parse_delete_def parse_update_def Let_def
        dest: parse_tail_no_id_compare parse_where_no_id_compare split: if_splits prod.splits)
  note some = this
  show ?thesis
    using assms(1) unfolding parse.simps [of input] Let_def
    by (auto intro: none some simp: explain_statement_def split: if_splits sum.splits)
      (use assms(2) in \<open>auto simp: explain_statement_def statement_mode_def\<close>)
qed

lemma same_name_id: "same_name f ''id'' \<Longrightarrow> is_id_field f"
proof -
  assume "same_name f ''id''"
  then have "take 32 f = ''id''" by (simp add: same_name_def)
  moreover from this have "length (take 32 f) = 2" by simp
  then have "length f = 2" by (auto simp: min_def split: if_splits)
  ultimately have "f = ''id''" by simp
  then show ?thesis by (simp add: is_id_field_def) code_simp
qed

lemma parse_no_range_lock: "parse input = Inr stmt \<Longrightarrow> \<not> is_range (determine_lock stmt)"
  using parse_no_id_compare [of input stmt] same_name_id [of "pred_field stmt"]
  by (cases "pred_op stmt")
    (auto simp: determine_lock_def no_request_def no_id_compare_def Let_def split: option.splits)

section \<open>INSERT reads back\<close>

definition quote :: "string \<Rightarrow> string" where "quote v = CHR 0x27 # v @ [CHR 0x27]"

fun render_values :: "string list \<Rightarrow> string" where
  "render_values [] = '')''"
| "render_values [v] = quote v @ '')''"
| "render_values (v # vs) = quote v @ '', '' @ render_values vs"

definition render_insert :: "string \<Rightarrow> string list \<Rightarrow> string" where
  "render_insert t vs = ''INSERT INTO '' @ t @ '' VALUES ('' @ render_values vs"

definition plain_value :: "string \<Rightarrow> bool" where
  "plain_value v \<longleftrightarrow> CHR 0x27 \<notin> set v \<and> length v \<le> 255"

definition plain_name :: "string \<Rightarrow> bool" where
  "plain_name t \<longleftrightarrow> t \<noteq> [] \<and> length t \<le> 31 \<and> (\<forall>c \<in> set t. \<not> c_isspace c)"

lemma scan_word:
  assumes "\<forall>c \<in> set w. \<not> stop c" "length w \<le> n" "stop c"
  shows "scan stop n (w @ c # p) = (w, c # p)"
proof -
  have "takeWhile (\<lambda>c. \<not> stop c) (take n (w @ c # p)) = w"
    using assms by (cases "n - length w") (simp_all add: takeWhile_append)
  then show ?thesis by (simp add: scan_def)
qed

lemma parse_quoted: "plain_value v \<Longrightarrow> parse_value stop (quote v @ p) = (v, p)"
proof -
  assume "plain_value v"
  then have "\<forall>c \<in> set v. c \<noteq> CHR 0x27" "length v \<le> 255" by (auto simp: plain_value_def)
  from scan_word [OF this, of "CHR 0x27" p] show ?thesis by (simp add: parse_value_def quote_def char_at_def)
qed

lemma skip_ws_simps [simp]:
  "skip_ws (CHR 0x20 # p) = skip_ws p" "\<not> c_isspace c \<Longrightarrow> skip_ws (c # p) = c # p"
  by (simp_all add: skip_ws_def c_isspace_def)

lemma skip_ws_quote [simp]: "skip_ws (quote v @ p) = quote v @ p" "skip_ws (quote v) = quote v"
  by (simp_all add: quote_def skip_ws_def c_isspace_def)

lemma char_at_quote [simp]: "char_at (quote v @ p) = CHR 0x27" "quote v \<noteq> []"
  by (simp_all add: quote_def char_at_def)

lemma parse_values_quoted:
  assumes "plain_value v" "q = quote v @ p \<or> q = CHR 0x20 # quote v @ p"
  shows "parse_values q vals = (if length vals = MAX_COLUMNS then Inl Undefined else parse_values (skip_comma p) (vals @ [v]))"
  using assms(2) parse_quoted [OF assms(1), of name_stop p]
  by (auto simp: parse_values.simps [of q] Let_def) (simp_all add: char_at_def)

lemma render_values_cases: "vs \<noteq> [] \<Longrightarrow> \<exists>v p. vs = v # tl vs \<and> render_values vs = quote v @ p
    \<and> skip_comma p = (if tl vs = [] then '')'' else CHR 0x20 # render_values (tl vs))"
  by (cases vs rule: render_values.cases) (simp_all add: skip_comma_def char_at_def c_isspace_def)

lemma parse_rendered_values:
  assumes "\<forall>v \<in> set vs. plain_value v" "length vals \<le> MAX_COLUMNS" "q = render_values vs \<or> q = CHR 0x20 # render_values vs"
  shows "parse_values q vals = (if length vals + length vs \<le> MAX_COLUMNS then Inr (vals @ vs) else Inl Undefined)"
  using assms
proof (induction vs arbitrary: vals q)
  case Nil
  have "parse_values '')'' vals = Inr vals" "parse_values '' )'' vals = Inr vals"
    by (simp_all add: parse_values.simps [of "'')''"] parse_values.simps [of "'' )''"] char_at_def Let_def c_isspace_def)
  then show ?case using Nil by auto
next
  case (Cons v vs)
  from render_values_cases [of "v # vs"] obtain p where r: "render_values (v # vs) = quote v @ p"
    "skip_comma p = (if vs = [] then '')'' else CHR 0x20 # render_values vs)" by auto
  have step: "parse_values q vals = (if length vals = MAX_COLUMNS then Inl Undefined else parse_values (skip_comma p) (vals @ [v]))"
    by (rule parse_values_quoted) (use Cons.prems r(1) in auto)
  show ?case
  proof (cases "length vals = MAX_COLUMNS")
    case True
    then show ?thesis using step by simp
  next
    case False
    have "parse_values (skip_comma p) (vals @ [v])
        = (if length (vals @ [v]) + length vs \<le> MAX_COLUMNS then Inr ((vals @ [v]) @ vs) else Inl Undefined)"
      by (rule Cons.IH) (use Cons.prems False r(2) in auto)
    then show ?thesis using step False by simp
  qed
qed

lemma strcasecmp_n_Cons: "strcasecmp_n (a # p) (b # q) (Suc n) =
    (if c_tolower a \<noteq> c_tolower b then c_tolower a - c_tolower b else if a = NUL then 0 else strcasecmp_n p q n)"
  by (simp add: char_at_def)

lemma skip_ws_name: "plain_name t \<Longrightarrow> skip_ws (t @ p) = t @ p"
  by (cases t) (simp_all add: plain_name_def)

lemma trim_id: "\<not> word_stop c \<Longrightarrow> trim (p @ [c]) = p @ [c]"
  by (simp add: trim_def word_stop_def)

lemma render_values_end: "\<exists>p. render_values vs = p @ '')''"
proof (induction vs rule: render_values.induct)
  case (3 v w vs)
  then obtain p where "render_values (w # vs) = p @ '')''" by blast
  then have "render_values (v # w # vs) = (quote v @ '', '' @ p) @ '')''" by simp
  then show ?case by blast
qed auto

lemma parse_insert_rendered:
  assumes t: "plain_name t" and vs: "\<forall>v \<in> set vs. plain_value v"
  shows "parse_insert (''INTO '' @ t @ '' VALUES ('' @ render_values vs) stmt =
    (if length vs \<le> MAX_COLUMNS then Inr (stmt\<lparr>table_name := t, insert_values := vs\<rparr>) else Inl Undefined)"
proof -
  let ?rest = "'' VALUES ('' @ render_values vs"
  have into: "strcasecmp_n (''INTO '' @ p) ''INTO'' 4 = 0" "strcasecmp_n (''VALUES ('' @ p) ''VALUES'' 6 = 0" for p
    by (simp_all add: numeral_eq_Suc strcasecmp_n_Cons NUL_def del: strcasecmp_n.simps(2))
  have name: "scan c_isspace 31 (t @ ?rest) = (t, ?rest)"
    using scan_word [of t c_isspace 31 "CHR 0x20" "''VALUES ('' @ render_values vs"] t
    by (simp add: plain_name_def c_isspace_def)
  have "parse_values (render_values vs) [] = (if length vs \<le> MAX_COLUMNS then Inr vs else Inl Undefined)"
    using parse_rendered_values [OF vs, of "[]" "render_values vs"] by simp
  then show ?thesis
    using into [of "t @ ?rest"] into [of "render_values vs"] name skip_ws_name [OF t, of ?rest]
    by (simp add: parse_insert_def c_isspace_def char_at_def)
qed

theorem parse_render_insert:
  assumes t: "plain_name t" and vs: "\<forall>v \<in> set vs. plain_value v" and len: "length (render_insert t vs) \<le> 4095"
  shows "parse (render_insert t vs) = (if length vs \<le> MAX_COLUMNS
    then Inr (zero_statement\<lparr>stmt_type := STMT_INSERT, table_name := t, insert_values := vs\<rparr>) else Inl Undefined)"
proof -
  let ?p = "''INTO '' @ t @ '' VALUES ('' @ render_values vs"
  have p: "render_insert t vs = ''INSERT '' @ ?p" by (simp add: render_insert_def)
  obtain q where "render_insert t vs = q @ '')''"
    using render_values_end [of vs] by (auto simp: render_insert_def)
  then have "trim (render_insert t vs) = render_insert t vs" using trim_id [of "CHR '')''" q] by (simp add: word_stop_def c_isspace_def)
  then have "skip_ws (trim (take 4095 (render_insert t vs))) = ''INSERT '' @ ?p"
    using len by (simp add: p c_isspace_def)
  moreover have "strcasecmp_n (''INSERT '' @ ?p) ''CREATE'' 6 \<noteq> 0" "strcasecmp_n (''INSERT '' @ ?p) ''INSERT'' 6 = 0"
    by (simp_all add: numeral_eq_Suc strcasecmp_n_Cons NUL_def c_tolower_def char_val_def del: strcasecmp_n.simps(2))
  moreover have "skip_ws (drop 6 (''INSERT '' @ ?p)) = ?p" by (simp add: c_isspace_def)
  ultimately show ?thesis
    using parse_insert_rendered [OF t vs] by (simp only: parse.simps [of "render_insert t vs"] Let_def) simp
qed

section \<open>Keywords inside values\<close>

text \<open>
  The search for what follows the condition looks for its keywords everywhere, inside quoted values
  too: a value can set a limit of zero rows, or make the statement an error.
\<close>

theorem quoted_keywords_misread:
  "(case parse (''SELECT * FROM t WHERE n = '' @ quote ''a LIMIT'') of
      Inr stmt \<Rightarrow> has_limit stmt \<and> limit_count stmt = 0 \<and> pred_value stmt = ''a LIMIT'' | Inl e \<Rightarrow> False)
   \<and> parse (''SELECT * FROM t WHERE n = '' @ quote ''ORDERS'') = Inl Syntax"
  by code_simp

end
