(* ===== verification/Lock_Manager.thy ===== *)
theory Lock_Manager
  imports Lock_Writers Db_Execute
begin

text \<open>
  What the executor may rely on in the lock manager, as an interface, and the lock table as its
  provider: a call of one thread with any events of the other threads, wake-ups and refused
  allocations in between.
\<close>

section \<open>The order of the locks\<close>

lemma dedup_sorted_snoc:
  "dedup_sorted (xs @ [x]) = (if dedup_sorted xs = [] \<or> x \<noteq> last (dedup_sorted xs) then dedup_sorted xs @ [x] else dedup_sorted xs)"
  by (simp add: dedup_sorted_def)

lemma dedup_sorted_strict:
  "sorted xs \<Longrightarrow> sorted_wrt (<) (dedup_sorted xs) \<and> set (dedup_sorted xs) = set xs
     \<and> (xs \<noteq> [] \<longrightarrow> dedup_sorted xs \<noteq> [] \<and> last (dedup_sorted xs) = last xs)"
proof (induction xs rule: rev_induct)
  case Nil
  then show ?case by (simp add: dedup_sorted_def)
next
  case (snoc x xs)
  then have IH: "sorted_wrt (<) (dedup_sorted xs)" "set (dedup_sorted xs) = set xs"
    "xs \<noteq> [] \<Longrightarrow> dedup_sorted xs \<noteq> [] \<and> last (dedup_sorted xs) = last xs" by (simp_all add: sorted_append)
  have le: "y \<le> last xs" if "y \<in> set xs" for y
  proof -
    from that obtain ys z where "xs = ys @ [z]" by (cases xs rule: rev_cases) auto
    then show ?thesis using that snoc.prems by (auto simp: sorted_append)
  qed
  show ?case
  proof (cases "xs \<noteq> [] \<and> x = last xs")
    case True
    then have "dedup_sorted (xs @ [x]) = dedup_sorted xs" using IH(3) by (simp add: dedup_sorted_snoc)
    moreover have "x \<in> set xs" using True last_in_set [of xs] by simp
    then have "set (xs @ [x]) = set xs" by (simp add: insert_absorb)
    moreover have "last (xs @ [x]) = last xs" using True by simp
    ultimately show ?thesis using IH True by (simp only: simp_thms)
  next
    case False
    then have e: "dedup_sorted (xs @ [x]) = dedup_sorted xs @ [x]"
      using IH(2,3) unfolding dedup_sorted_snoc by (cases "xs = []") auto
    have "y < x" if y: "y \<in> set xs" for y
    proof -
      have ne: "xs \<noteq> []" using y by auto
      then have "last xs \<le> x" "last xs \<noteq> x" using snoc.prems False by (auto simp: sorted_append)
      with le [OF y] show ?thesis by (meson le_less_trans order.not_eq_order_implies_strict)
    qed
    then show ?thesis unfolding e using IH(1,2) by (auto simp: sorted_wrt_append)
  qed
qed

lemma lock_collected_ids_order:
  assumes "lock_collected_ids acquire l ids mode = (None, ids', l')"
  shows "ids' = sorted_list_of_set (set ids)"
proof -
  have "sorted_wrt (<) ids' \<and> set ids' = set ids"
    using assms dedup_sorted_strict [of "sort ids"]
    by (cases "ids = []") (auto simp: lock_collected_ids_def Let_def split: prod.splits)
  then show ?thesis by (metis sorted_list_of_set.idem_if_sorted_distinct strict_sorted_iff)
qed

section \<open>The interface\<close>

locale lock_manager =
  fixes ok :: "'l \<Rightarrow> bool" and locks :: "'l \<Rightarrow> request set" and lc :: "'l lock_calls"
  assumes acquire: "ok l \<Longrightarrow> lc_acquire lc l i mode = (rc, l') \<Longrightarrow>
      ok l' \<and> (if rc = 0 then locks l \<subseteq> locks l' \<and> Point i mode \<in> locks l' else locks l' = locks l)"
    and acquire_range: "ok l \<Longrightarrow> lc_acquire_range lc l low high mode = (rc, l') \<Longrightarrow>
      ok l' \<and> (if rc = 0 then locks l \<subseteq> locks l' \<and> Range low high mode \<in> locks l' else locks l' = locks l)"
    and release: "ok l \<Longrightarrow> ok (lc_release_all lc l) \<and> locks (lc_release_all lc l) = {}"
begin

lemma lock_ids_holds:
  "ok l \<Longrightarrow> lock_ids (lc_acquire lc) l ids mode = (failed, l') \<Longrightarrow>
   ok l' \<and> locks l \<subseteq> locks l' \<and> (failed = None \<longrightarrow> (\<forall>i \<in> set ids. Point i mode \<in> locks l'))"
proof (induction ids arbitrary: l)
  case (Cons i ids)
  obtain rc l1 where a: "lc_acquire lc l i mode = (rc, l1)" by (cases "lc_acquire lc l i mode")
  note A = acquire [OF Cons.prems(1) a]
  show ?case
  proof (cases "rc = 0")
    case True
    then have "lock_ids (lc_acquire lc) l1 ids mode = (failed, l')" using Cons.prems(2) a by simp
    with Cons.IH [of l1] A True show ?thesis by auto
  next
    case False
    then show ?thesis using Cons.prems(2) a A by auto
  qed
qed simp

lemma lock_collected_ids_holds:
  assumes "ok l" "lock_collected_ids (lc_acquire lc) l ids mode = (failed, ids', l')"
  shows "ok l' \<and> locks l \<subseteq> locks l' \<and> (failed = None \<longrightarrow> (\<forall>i \<in> set ids'. Point i mode \<in> locks l'))"
  using lock_ids_holds [OF assms(1), of "dedup_sorted (sort ids)" mode] assms
  by (auto simp: lock_collected_ids_def Let_def split: if_splits prod.splits)

lemma exec_insert_locks:
  assumes "ok l" "exec_insert fits (lc_acquire lc) s l stmt = Some (r, s', l')"
  shows "ok l' \<and> locks l \<subseteq> locks l'"
  using assms(2,1)
  by (auto simp: exec_insert_def Let_def dest!: acquire [OF assms(1)] split: if_splits prod.splits option.splits)

lemma exec_delete_scan_locks:
  assumes "ok l" "exec_delete_scan fits (lc_acquire lc) s l stmt = Some (r, s', l')"
  shows "ok l' \<and> locks l \<subseteq> locks l'"
  using assms(2,1)
  by (auto simp: exec_delete_scan_def dest!: lock_collected_ids_holds [OF assms(1)] split: if_splits prod.splits option.splits)

lemma exec_update_scan_locks:
  assumes "ok l" "exec_update_scan fits (lc_acquire lc) s l stmt = Some (r, s', l')"
  shows "ok l' \<and> locks l \<subseteq> locks l'"
  using assms(2,1)
  by (auto simp: exec_update_scan_def dest!: lock_collected_ids_holds [OF assms(1)] split: if_splits prod.splits option.splits sum.splits)

text \<open>DELETE and UPDATE by a scan change only rows locked exclusively, taken in increasing order of id.\<close>

lemma exec_delete_scan_two_phase:
  assumes "ok l" "exec_delete_scan fits (lc_acquire lc) s l stmt = Some (r, s', l')" "res_status r = 0"
  shows "\<exists>ids n. sorted_wrt (<) ids \<and> (\<forall>i \<in> set ids. Point i LOCK_X \<in> locks l')
    \<and> delete_ids s stmt ids 0 = Some (n, s') \<and> r = done_with (Rows_deleted n)"
proof -
  obtain dc where dc: "scan_with s (collect_id_cb fits (st_hdr s) stmt) no_ids = Some dc"
      "\<not> ic_overrun dc" "\<not> ic_alloc_failed dc"
    using assms(2,3) by (auto simp: exec_delete_scan_def failed_with_def split: option.splits if_splits)
  obtain failed ids l1 where k: "lock_collected_ids (lc_acquire lc) l (ic_ids dc) LOCK_X = (failed, ids, l1)"
    by (cases "lock_collected_ids (lc_acquire lc) l (ic_ids dc) LOCK_X")
  with assms(2,3) dc obtain n where n: "failed = None" "delete_ids s stmt ids 0 = Some (n, s')" "r = done_with (Rows_deleted n)" "l' = l1"
    by (auto simp: exec_delete_scan_def failed_with_def split: option.splits)
  have "sorted_wrt (<) ids"
    using lock_collected_ids_order [of "lc_acquire lc" l "ic_ids dc" LOCK_X ids l1] k n(1) by (simp add: strict_sorted_iff)
  then show ?thesis using lock_collected_ids_holds [OF assms(1) k] n by auto
qed

lemma exec_update_scan_two_phase:
  assumes "ok l" "exec_update_scan fits (lc_acquire lc) s l stmt = Some (r, s', l')" "res_status r = 0"
  shows "\<exists>ids n col_idx. sorted_wrt (<) ids \<and> (\<forall>i \<in> set ids. Point i LOCK_X \<in> locks l')
    \<and> update_ids fits s stmt col_idx ids 0 = Some (n, s') \<and> r = done_with (Rows_updated n)"
proof -
  obtain col_idx uc where uc: "validate_update_target (st_hdr s) stmt = Inr col_idx"
      "scan_with s (collect_id_cb fits (st_hdr s) stmt) no_ids = Some uc" "\<not> ic_overrun uc" "\<not> ic_alloc_failed uc"
    using assms(2,3) by (auto simp: exec_update_scan_def validate_update_target_def failed_with_def split: option.splits if_splits)
  obtain failed ids l1 where k: "lock_collected_ids (lc_acquire lc) l (ic_ids uc) LOCK_X = (failed, ids, l1)"
    by (cases "lock_collected_ids (lc_acquire lc) l (ic_ids uc) LOCK_X")
  with assms(2,3) uc obtain n where n: "failed = None" "update_ids fits s stmt col_idx ids 0 = Some (n, s')" "r = done_with (Rows_updated n)" "l' = l1"
    by (auto simp: exec_update_scan_def failed_with_def split: option.splits)
  have "sorted_wrt (<) ids"
    using lock_collected_ids_order [of "lc_acquire lc" l "ic_ids uc" LOCK_X ids l1] k n(1) by (simp add: strict_sorted_iff)
  then show ?thesis using lock_collected_ids_holds [OF assms(1) k] n by auto
qed

lemma execute_locks:
  assumes "ok l" "execute fits (lc_acquire lc) s l stmt = Some (r, s', l')"
  shows "ok l' \<and> locks l \<subseteq> locks l'"
  using assms(2,1)
  by (auto simp: execute_def dest!: exec_insert_locks [OF assms(1)] exec_delete_scan_locks [OF assms(1)]
      exec_update_scan_locks [OF assms(1)] split: if_splits prod.splits access_path.splits)

lemma statement_lock_holds:
  assumes "ok l" "statement_lock lc l req = (rc, l')"
  shows "ok l'" "rc \<noteq> 0 \<Longrightarrow> locks l' = locks l" "locks l \<subseteq> locks l'"
    "rc = 0 \<Longrightarrow> need_lock req \<Longrightarrow> \<not> is_range req \<Longrightarrow> Point (point_id req) (lr_mode req) \<in> locks l'"
  using assms(2,1)
  by (auto simp: statement_lock_def dest!: acquire [OF assms(1)] acquire_range [OF assms(1)] split: if_splits)

text \<open>A statement leaves no lock behind.\<close>

lemma db_execute_no_locks:
  assumes "ok l" "locks l = {}" "db_execute fits lc s l sql = Some (r, s', l')"
  shows "ok l' \<and> locks l' = {}"
proof (cases "parse sql")
  case (Inl e)
  then show ?thesis using assms by (cases e) (auto simp: db_execute_def)
next
  case (Inr stmt)
  obtain rc l1 where a: "statement_lock lc l (determine_lock stmt) = (rc, l1)" by (cases "statement_lock lc l (determine_lock stmt)")
  note A = statement_lock_holds [OF assms(1) a]
  show ?thesis
  proof (cases "rc = 0")
    case True
    then obtain l2 where "execute fits (lc_acquire lc) s l1 stmt = Some (r, s', l2)" "l' = lc_release_all lc l2"
      using assms(3) Inr a by (auto simp: db_execute_def)
    with execute_locks [OF A(1)] release show ?thesis by blast
  next
    case False
    then show ?thesis using assms Inr a A by (auto simp: db_execute_def)
  qed
qed

end

end
