(* ===== verification/Lock_Calls.thy ===== *)
theory Lock_Calls
  imports Lock_Manager
begin

text \<open>
  The lock table as a lock manager. A call of thread \<open>self\<close> runs with a list of events of the other
  threads, and of its own wake-ups, that happen from its start on; the deadline ends the list. The
  schedule has one entry per call; it and the results of \<open>calloc\<close> are arbitrary.
\<close>

section \<open>Events\<close>

datatype lock_event = Starts thread request bool | Wakes thread bool | Gives_up thread | Releases thread

fun event_thread :: "lock_event \<Rightarrow> thread" where
  "event_thread (Starts th req got) = th"
| "event_thread (Wakes th got) = th"
| "event_thread (Gives_up th) = th"
| "event_thread (Releases th) = th"

definition fresh_addr :: "lock_table \<Rightarrow> addr" where
  "fresh_addr lt = Suc (foldr max (all_entries lt) 0)"

definition calloc_result :: "lock_table \<Rightarrow> bool \<Rightarrow> addr option" where
  "calloc_result lt got = (if got then Some (fresh_addr lt) else None)"

lemma fresh_calloc: "fresh lt (calloc_result lt got)"
proof -
  have "a \<in> set as \<Longrightarrow> a \<le> foldr max as 0" for a :: addr and as
    by (induction as) auto
  then show ?thesis by (fastforce simp: fresh_def calloc_result_def fresh_addr_def)
qed

definition start_call :: "thread \<Rightarrow> request \<Rightarrow> bool \<Rightarrow> lock_sys \<Rightarrow> acquisition \<times> lock_table" where
  "start_call th req got s = acquire_start (sy_table s) th req (calloc_result (sy_table s) got)"

definition wake_call :: "thread \<Rightarrow> waiting \<Rightarrow> bool \<Rightarrow> lock_sys \<Rightarrow> acquisition \<times> lock_table" where
  "wake_call th w got s = acquire_woken (sy_table s) th w (calloc_result (sy_table s) got)"

text \<open>An event that its thread cannot make is no event.\<close>

fun run_event :: "lock_event \<Rightarrow> lock_sys \<Rightarrow> lock_sys" where
  "run_event (Starts th req got) s = (if sy_waits s th = None then after th (start_call th req got s) s else s)"
| "run_event (Wakes th got) s = (case sy_waits s th of None \<Rightarrow> s | Some w \<Rightarrow> after th (wake_call th w got s) s)"
| "run_event (Gives_up th) s = (case sy_waits s th of None \<Rightarrow> s | Some w \<Rightarrow> after th (acquire_timeout (sy_table s) w) s)"
| "run_event (Releases th) s =
     (if sy_waits s th = None then s\<lparr>sy_table := lock_release_all (sy_table s) th\<rparr> else s)"

lemma run_event_step: "run_event ev s = s \<or> lock_step s (run_event ev s)"
  by (cases ev) (auto simp: start_call_def wake_call_def fresh_calloc intro: lock_step.intros split: option.split)

lemma run_event_reachable: "reachable s \<Longrightarrow> reachable (run_event ev s)"
  using run_event_step [of ev s] reachable.step by metis

text \<open>A call: its own part is the start, the tests after wake-ups, and the deadline.\<close>

fun lock_wait :: "thread \<Rightarrow> lock_event list \<Rightarrow> acquisition \<Rightarrow> lock_sys \<Rightarrow> int \<times> lock_sys" where
  "lock_wait self [] (Returned rc) s = (rc, s)"
| "lock_wait self [] (Waits w) s = (-1, after self (acquire_timeout (sy_table s) w) s)"
| "lock_wait self (ev # evs) r s =
     (if event_thread ev \<noteq> self then lock_wait self evs r (run_event ev s)
      else case (ev, r) of
        (Wakes th got, Waits w) \<Rightarrow>
          (let (r', lt) = wake_call self w got s in lock_wait self evs r' (after self (r', lt) s))
      | _ \<Rightarrow> lock_wait self evs r s)"

type_synonym scheduled = "lock_sys \<times> (bool \<times> lock_event list) list"

definition lock_call :: "thread \<Rightarrow> scheduled \<Rightarrow> request \<Rightarrow> int \<times> scheduled" where
  "lock_call self l req =
     (let (s, sched) = l;
          (got, evs) = (case sched of [] \<Rightarrow> (True, []) | x # _ \<Rightarrow> x);
          (r, lt) = start_call self req got s;
          (rc, s') = lock_wait self evs r (after self (r, lt) s)
      in (rc, (s', tl sched)))"

definition table_calls :: "thread \<Rightarrow> scheduled lock_calls" where
  "table_calls self = \<lparr>lc_acquire = (\<lambda>l i mode. lock_call self l (Point i mode)),
     lc_acquire_range = (\<lambda>l low high mode. lock_call self l (Range low high mode)),
     lc_release_all = (\<lambda>(s, sched). (s\<lparr>sy_table := lock_release_all (sy_table s) self\<rparr>, sched))\<rparr>"

section \<open>What a thread holds\<close>

text \<open>An upgrade always asks for the exclusive mode.\<close>

definition upgrade_mode :: "waiting \<Rightarrow> bool" where
  "upgrade_mode w \<longleftrightarrow> wt_entry w = None \<or> (\<exists>i. wt_request w = Point i LOCK_X)"

text \<open>The thread's own locks only grow; the entries of others stay what they were.\<close>

definition own_grow :: "thread \<Rightarrow> lock_table \<Rightarrow> lock_table \<Rightarrow> bool" where
  "own_grow self lt lt' \<longleftrightarrow>
     (\<forall>a \<in> live lt. lk_owner (lt_mem lt a) = self \<longrightarrow>
        a \<in> live lt' \<and> (lt_mem lt' a = lt_mem lt a \<or> lt_mem lt' a = (lt_mem lt a)\<lparr>lk_mode := LOCK_X\<rparr>))"

definition others_same :: "thread \<Rightarrow> lock_table \<Rightarrow> lock_table \<Rightarrow> bool" where
  "others_same self lt lt' \<longleftrightarrow>
     (\<forall>a \<in> live lt'. lk_owner (lt_mem lt' a) \<noteq> self \<longrightarrow> a \<in> live lt \<and> lt_mem lt' a = lt_mem lt a)"

lemma holds_grow:
  assumes "own_grow self lt lt'" "holds lt self q"
  shows "holds lt' self q"
proof -
  from assms(2) obtain a where a: "a \<in> live lt" "lk_owner (lt_mem lt a) = self" "span_low (lt_mem lt a) \<le> req_low q"
    "req_high q \<le> span_high (lt_mem lt a)" "lk_mode (lt_mem lt a) = LOCK_X \<or> req_mode q = LOCK_S"
    by (auto simp: holds_def Let_def)
  with assms(1) have "a \<in> live lt'" "lt_mem lt' a = lt_mem lt a \<or> lt_mem lt' a = (lt_mem lt a)\<lparr>lk_mode := LOCK_X\<rparr>"
    by (auto simp: own_grow_def)
  then show ?thesis by (intro holdsI [of a]) (use a in \<open>auto simp: span_low_def span_high_def\<close>)
qed

lemma holds_others_same:
  assumes "others_same th lt lt'" "self \<noteq> th" "holds lt' self q"
  shows "holds lt self q"
proof -
  from assms(3) obtain a where a: "a \<in> live lt'" "lk_owner (lt_mem lt' a) = self" "span_low (lt_mem lt' a) \<le> req_low q"
    "req_high q \<le> span_high (lt_mem lt' a)" "lk_mode (lt_mem lt' a) = LOCK_X \<or> req_mode q = LOCK_S"
    by (auto simp: holds_def Let_def)
  with assms(1,2) have "a \<in> live lt" "lt_mem lt' a = lt_mem lt a" by (auto simp: others_same_def)
  with a show ?thesis by (intro holdsI [of a]) simp_all
qed

lemma live_insert_point: "live (owner_list_push self (global_list_insert_point lt (hash_row_id r) a e) b) = insert a (live lt)"
proof (rule set_eqI)
  fix x
  let ?lt = "owner_list_push self (global_list_insert_point lt (hash_row_id r) a e) b"
  have b: "lt_buckets ?lt = (lt_buckets lt)(hash_row_id r := a # lt_buckets lt (hash_row_id r))"
    "lt_range_locks ?lt = lt_range_locks lt"
    by (simp_all add: owner_list_push_def global_list_insert_point_def)
  have "x \<in> set (((lt_buckets lt)(hash_row_id r := a # lt_buckets lt (hash_row_id r))) i)
      \<longleftrightarrow> (i = hash_row_id r \<and> x = a) \<or> x \<in> set (lt_buckets lt i)" for i by simp
  then show "x \<in> live ?lt \<longleftrightarrow> x \<in> insert a (live lt)"
    unfolding live_iff b insert_iff using hash_less [of r] by blast
qed

lemma live_insert_range: "live (owner_list_push self (global_list_insert_range lt a e) b) = insert a (live lt)"
  by (auto simp: live_iff owner_list_push_def global_list_insert_range_def)

lemma live_upgrade: "live (lt\<lparr>lt_mem := m\<rparr>) = live lt"
  by (simp add: live_def all_entries_def)

definition call_effect :: "thread \<Rightarrow> request \<Rightarrow> lock_table \<Rightarrow> acquisition \<times> lock_table \<Rightarrow> bool" where
  "call_effect self req lt r \<longleftrightarrow> own_grow self lt (snd r) \<and> others_same self lt (snd r)
     \<and> (case fst r of
          Returned rc \<Rightarrow> rc \<noteq> 0 \<longrightarrow> snd r = lt
        | Waits w \<Rightarrow> wt_request w = req \<and> upgrade_mode w \<and> live (snd r) = live lt \<and> lt_mem (snd r) = lt_mem lt)"

lemma call_effect_same:
  assumes "live lt' = live lt" "lt_mem lt' = lt_mem lt"
    and "case r of Returned rc \<Rightarrow> rc \<noteq> 0 \<longrightarrow> lt' = lt | Waits w \<Rightarrow> wt_request w = req \<and> upgrade_mode w"
  shows "call_effect self req lt (r, lt')"
  using assms by (auto simp: call_effect_def own_grow_def others_same_def split: acquisition.splits)

lemma call_effect_insert:
  assumes "fresh lt (Some ne)" "live lt' = insert ne (live lt)" "\<And>b. b \<noteq> ne \<Longrightarrow> lt_mem lt' b = lt_mem lt b"
    and "lk_owner (lt_mem lt' ne) = self"
  shows "call_effect self req lt (Returned 0, waiting_writer_unregister lt' b)"
proof -
  have "ne \<notin> live lt" using assms(1) by (simp add: fresh_def live_def)
  then have m: "a \<in> live lt \<Longrightarrow> lt_mem lt' a = lt_mem lt a" for a using assms(3) by metis
  have "own_grow self lt lt'" using assms(2) m by (auto simp: own_grow_def)
  moreover have "others_same self lt lt'" using assms(2,4) m by (auto simp: others_same_def)
  ultimately show ?thesis by (simp add: call_effect_def own_grow_def others_same_def)
qed

lemma point_try_effect:
  assumes "fresh lt calloc" "e \<noteq> None \<Longrightarrow> mode = LOCK_X"
  shows "call_effect self (Point i mode) lt (acquire_point_try lt self i mode e reg calloc)"
proof -
  consider (wait) "conflict_exists lt i mode self \<or> reader_should_wait lt mode"
    | (upgrade) a where "\<not> (conflict_exists lt i mode self \<or> reader_should_wait lt mode)" "upgradable lt self i e" "e = Some a"
    | (new) "\<not> (conflict_exists lt i mode self \<or> reader_should_wait lt mode)" "\<not> upgradable lt self i e"
    by (cases e) (auto simp: upgradable_def)
  then show ?thesis
  proof cases
    case wait
    have "e = None \<or> mode = LOCK_X" using assms(2) by blast
    with wait show ?thesis
      by (auto simp: acquire_point_try_def upgrade_mode_def intro!: call_effect_same)
  next
    case upgrade
    let ?lt = "lt\<lparr>lt_mem := (lt_mem lt)(a := (lt_mem lt a)\<lparr>lk_mode := mode\<rparr>)\<rparr>"
    have "own_grow self lt ?lt" "others_same self lt ?lt"
      using upgrade(2,3) assms(2) by (auto simp: own_grow_def others_same_def live_upgrade upgradable_def)
    then show ?thesis using upgrade by (simp add: acquire_point_try_def call_effect_def own_grow_def others_same_def)
  next
    case new
    show ?thesis
    proof (cases calloc)
      case None
      then show ?thesis using new by (simp add: acquire_point_try_def call_effect_same)
    next
      case (Some ne)
      let ?lt = "owner_list_push self (global_list_insert_point lt (hash_row_id i) ne
        \<lparr>lk_row_id = i, lk_range_high = 0, lk_mode = mode, lk_owner = self, lk_is_range = False\<rparr>) ne"
      have "call_effect self (Point i mode) lt (Returned 0, waiting_writer_unregister ?lt reg)"
        by (rule call_effect_insert [of _ ne])
          (use assms(1) Some in \<open>simp_all only: live_insert_point, simp_all add: owner_list_push_def global_list_insert_point_def\<close>)
      then show ?thesis using new Some by (simp add: acquire_point_try_def)
    qed
  qed
qed

lemma range_try_effect:
  assumes "fresh lt calloc"
  shows "call_effect self (Range low high mode) lt (acquire_range_try lt self low high mode reg calloc)"
proof (cases "range_conflict_exists lt low high mode self \<or> reader_should_wait lt mode")
  case True
  then show ?thesis by (auto simp: acquire_range_try_def upgrade_mode_def intro!: call_effect_same)
next
  case new: False
  show ?thesis
  proof (cases calloc)
    case None
    then show ?thesis using new by (simp add: acquire_range_try_def call_effect_same)
  next
    case (Some ne)
    let ?lt = "owner_list_push self (global_list_insert_range lt ne
      \<lparr>lk_row_id = low, lk_range_high = high, lk_mode = mode, lk_owner = self, lk_is_range = True\<rparr>) ne"
    have "call_effect self (Range low high mode) lt (Returned 0, waiting_writer_unregister ?lt reg)"
      by (rule call_effect_insert [of _ ne])
        (use assms Some in \<open>simp_all only: live_insert_range, simp_all add: owner_list_push_def global_list_insert_range_def\<close>)
    then show ?thesis using new Some by (simp add: acquire_range_try_def)
  qed
qed

lemma start_effect: "call_effect self req (sy_table s) (start_call self req got s)"
proof (cases req)
  case (Point i mode)
  have "mode \<noteq> LOCK_S \<Longrightarrow> mode = LOCK_X" by (cases mode) simp_all
  with Point show ?thesis
    by (auto simp: start_call_def lock_acquire_def call_effect_same intro!: point_try_effect [OF fresh_calloc] split: option.split)
next
  case (Range low high mode)
  then show ?thesis
    using range_try_effect [OF fresh_calloc] by (auto simp: start_call_def lock_acquire_range_def call_effect_same)
qed

lemma wake_effect:
  assumes "upgrade_mode w"
  shows "call_effect self (wt_request w) (sy_table s) (wake_call self w got s)"
proof (cases "wt_request w")
  case (Point i mode)
  then have "wt_entry w \<noteq> None \<Longrightarrow> mode = LOCK_X" using assms by (auto simp: upgrade_mode_def)
  from point_try_effect [OF fresh_calloc this] Point show ?thesis by (simp add: wake_call_def acquire_woken_def)
next
  case (Range low high mode)
  then show ?thesis using range_try_effect [OF fresh_calloc] by (simp add: wake_call_def acquire_woken_def)
qed

section \<open>A whole call\<close>

definition waits_ok :: "lock_sys \<Rightarrow> bool" where
  "waits_ok s \<longleftrightarrow> reachable s \<and> (\<forall>th w. sy_waits s th = Some w \<longrightarrow> upgrade_mode w)"

lemma waits_ok_table: "waits_ok s \<Longrightarrow> lt_ok (sy_table s)"
  using reachable_ok by (auto simp: waits_ok_def sys_ok_def)

lemma sy_waits_after [simp]:
  "sy_waits (after th (Returned rc, lt) s) = (sy_waits s)(th := None)"
  "sy_waits (after th (Waits w, lt) s) = (sy_waits s)(th := Some w)"
  by simp_all

lemma sy_table_after [simp]: "sy_table (after th r s) = snd r"
  by (cases r; cases "fst r") auto

lemma waits_ok_after:
  assumes "waits_ok s" "lock_step s (after th r s)" "call_effect th req (sy_table s) r"
  shows "waits_ok (after th r s)"
proof -
  have "reachable (after th r s)" using assms(1,2) reachable.step by (auto simp: waits_ok_def)
  then show ?thesis using assms(1,3)
    by (cases r; cases "fst r") (auto simp: waits_ok_def call_effect_def split: if_splits)
qed

lemma start_call_step: "sy_waits s th = None \<Longrightarrow> lock_step s (after th (start_call th req got s) s)"
  unfolding start_call_def by (rule lock_step.start [OF _ fresh_calloc])

lemma wake_call_step: "sy_waits s th = Some w \<Longrightarrow> lock_step s (after th (wake_call th w got s) s)"
  unfolding wake_call_def by (rule lock_step.woken [OF _ fresh_calloc])

text \<open>An event of another thread changes nothing that this thread holds or waits for.\<close>

definition same_holds :: "thread \<Rightarrow> lock_sys \<Rightarrow> lock_sys \<Rightarrow> bool" where
  "same_holds self s s' \<longleftrightarrow> sy_waits s' self = sy_waits s self
     \<and> (\<forall>q. holds (sy_table s') self q = holds (sy_table s) self q)"

lemma same_holds_after:
  assumes "self \<noteq> th" "others_kept th (sy_table s) (snd r)" "others_same th (sy_table s) (snd r)"
  shows "same_holds self s (after th r s)"
proof -
  have "sy_waits (after th r s) self = sy_waits s self" using assms(1) by (cases r; cases "fst r") auto
  then show ?thesis
    using holds_others [OF _ assms(2,1)] holds_others_same [OF assms(3,1)] by (auto simp: same_holds_def)
qed

lemma run_event_others:
  assumes ok: "waits_ok s" and th: "event_thread ev \<noteq> self"
  shows "waits_ok (run_event ev s) \<and> same_holds self s (run_event ev s)"
proof -
  let ?th = "event_thread ev" and ?lt = "sy_table s"
  have refl: "same_holds self s s" by (simp add: same_holds_def)
  have waiting: "waiting_ok ?lt ?th w \<and> upgrade_mode w" if "sy_waits s ?th = Some w" for w
    using ok that reachable_ok [of s] by (auto simp: waits_ok_def sys_ok_def)
  have call: "waits_ok (after ?th r s) \<and> same_holds self s (after ?th r s)"
    if "lock_step s (after ?th r s)" "acquired ?th ?lt r" "call_effect ?th req ?lt r" for r req
    using waits_ok_after [OF ok that(1,3)] same_holds_after [of self ?th s r] that(2,3) th
    by (auto simp: acquired_def call_effect_def)
  show ?thesis
  proof (cases ev)
    case (Starts th' req got)
    show ?thesis
    proof (cases "sy_waits s th'")
      case None
      have "acquired th' ?lt (start_call th' req got s)"
        unfolding start_call_def by (rule acquire_start_ok [OF waits_ok_table [OF ok] fresh_calloc])
      from call [of "start_call th' req got s" req] this start_call_step [OF None] start_effect None Starts show ?thesis by simp
    next
      case (Some w)
      then show ?thesis using ok refl Starts by simp
    qed
  next
    case (Wakes th' got)
    show ?thesis
    proof (cases "sy_waits s th'")
      case None
      then show ?thesis using ok refl Wakes by simp
    next
      case (Some w)
      have "acquired th' ?lt (wake_call th' w got s)"
        unfolding wake_call_def using waiting Some Wakes by (intro acquire_woken_ok [OF waits_ok_table [OF ok] fresh_calloc]) simp
      from call [of "wake_call th' w got s" "wt_request w"] this wake_call_step [OF Some] wake_effect waiting Some Wakes show ?thesis by simp
    qed
  next
    case (Gives_up th')
    show ?thesis
    proof (cases "sy_waits s th'")
      case None
      then show ?thesis using ok refl Gives_up by simp
    next
      case (Some w)
      let ?r = "acquire_timeout ?lt w"
      have kept: "others_kept th' ?lt (snd ?r)" "others_same th' ?lt (snd ?r)"
        by (simp_all add: acquire_timeout_def others_kept_def others_same_def)
      have "reachable (run_event ev s)" using run_event_reachable ok by (simp add: waits_ok_def)
      then have "waits_ok (after th' ?r s)"
        using ok Some Gives_up by (auto simp: waits_ok_def acquire_timeout_def split: if_splits)
      then show ?thesis using same_holds_after [OF _ kept] th Gives_up Some by simp
    qed
  next
    case (Releases th')
    let ?s = "s\<lparr>sy_table := lock_release_all ?lt th'\<rparr>"
    note R = release_all_ok [OF waits_ok_table [OF ok], of th']
    have "reachable (run_event ev s)" using run_event_reachable ok by (simp add: waits_ok_def)
    then have w: "waits_ok (run_event ev s)" using ok Releases by (auto simp: waits_ok_def)
    have k: "others_kept th' ?lt (lock_release_all ?lt th')" "others_same th' ?lt (lock_release_all ?lt th')"
      using R by (auto simp: others_kept_def others_same_def)
    have ne: "self \<noteq> th'" using th Releases by simp
    have "holds (lock_release_all ?lt th') self q = holds ?lt self q" for q
      using holds_others [OF _ k(1) ne] holds_others_same [OF k(2) ne] by blast
    then have "same_holds self s ?s" by (simp add: same_holds_def)
    then show ?thesis using w refl Releases by simp
  qed
qed

text \<open>The state of this thread's own call: its answer so far, or what it waits for.\<close>

definition own_call :: "thread \<Rightarrow> request \<Rightarrow> (request \<Rightarrow> bool) \<Rightarrow> acquisition \<Rightarrow> lock_sys \<Rightarrow> bool" where
  "own_call self req held r s \<longleftrightarrow> waits_ok s \<and> (\<forall>q. held q \<longrightarrow> holds (sy_table s) self q)
     \<and> (case r of
          Returned rc \<Rightarrow> sy_waits s self = None
            \<and> (if rc = 0 then holds (sy_table s) self req else \<forall>q. holds (sy_table s) self q \<longrightarrow> held q)
        | Waits w \<Rightarrow> sy_waits s self = Some w \<and> wt_request w = req \<and> (\<forall>q. holds (sy_table s) self q \<longrightarrow> held q))"

lemma own_call_others:
  assumes "own_call self req held r s" "event_thread ev \<noteq> self"
  shows "own_call self req held r (run_event ev s)"
  using run_event_others [of s ev self] assms by (simp add: own_call_def same_holds_def split: acquisition.splits)

lemma own_call_answer:
  assumes ok: "waits_ok (after self (r, lt) s)" and eff: "call_effect self req (sy_table s) (r, lt)"
    and grant: "r = Returned 0 \<Longrightarrow> holds lt self req" and held: "\<And>q. holds (sy_table s) self q = held q"
  shows "own_call self req held r (after self (r, lt) s)"
proof -
  have grow: "held q \<Longrightarrow> holds lt self q" for q
    using holds_grow [of self "sy_table s" lt q] eff held by (simp add: call_effect_def)
  show ?thesis
  proof (cases r)
    case (Returned rc)
    have "rc \<noteq> 0 \<Longrightarrow> lt = sy_table s" using eff Returned by (simp add: call_effect_def)
    then show ?thesis using ok grant grow held Returned by (auto simp: own_call_def)
  next
    case (Waits w)
    have "holds lt self q = holds (sy_table s) self q" for q using eff Waits by (simp add: call_effect_def holds_def)
    then show ?thesis using ok eff held Waits by (auto simp: own_call_def call_effect_def)
  qed
qed

lemma lock_wait_call:
  assumes "own_call self req held r s" "lock_wait self evs r s = (rc, s')"
  shows "own_call self req held (Returned rc) s'"
  using assms
proof (induction evs arbitrary: r s)
  case Nil
  show ?case
  proof (cases r)
    case (Returned rc0)
    then show ?thesis using Nil by simp
  next
    case (Waits w)
    have t: "lock_step s (after self (acquire_timeout (sy_table s) w) s)"
      using Nil Waits by (auto simp: own_call_def intro: lock_step.timeout)
    then have "waits_ok (after self (acquire_timeout (sy_table s) w) s)"
      using Nil Waits reachable.step by (auto simp: own_call_def waits_ok_def acquire_timeout_def split: if_splits)
    moreover have "holds (snd (acquire_timeout (sy_table s) w)) self q = holds (sy_table s) self q" for q
      by (simp add: acquire_timeout_def holds_def)
    ultimately show ?thesis using Nil Waits by (auto simp: own_call_def acquire_timeout_def)
  qed
next
  case (Cons ev evs)
  show ?case
  proof (cases "event_thread ev \<noteq> self")
    case True
    then show ?thesis using Cons.IH [OF own_call_others [OF Cons.prems(1) True]] Cons.prems(2) by simp
  next
    case False
    show ?thesis
    proof (cases "\<exists>th got w. ev = Wakes th got \<and> r = Waits w")
      case True
      then obtain th got w where ev: "ev = Wakes th got" "r = Waits w" by blast
      obtain r' lt where c: "wake_call self w got s = (r', lt)" by (cases "wake_call self w got s")
      have W: "waits_ok s" "sy_waits s self = Some w" "wt_request w = req" "\<And>q. holds (sy_table s) self q = held q"
        using Cons.prems(1) ev by (auto simp: own_call_def)
      have up: "upgrade_mode w" using W(1,2) by (simp add: waits_ok_def)
      have wk: "waiting_ok (sy_table s) self w" using W(1,2) reachable_ok [of s] by (auto simp: waits_ok_def sys_ok_def)
      have eff: "call_effect self req (sy_table s) (r', lt)" using wake_effect [OF up, of self s got] c W(3) by simp
      have "waits_ok (after self (r', lt) s)"
        using waits_ok_after [OF W(1) _ eff] wake_call_step [OF W(2), of got] c by simp
      moreover have "r' = Returned 0 \<Longrightarrow> holds lt self req"
        using acquire_woken_grants [OF waits_ok_table [OF W(1)] fresh_calloc wk, of got] c W(3) by (simp add: wake_call_def)
      ultimately have "own_call self req held r' (after self (r', lt) s)" using own_call_answer [OF _ eff _ W(4)] by blast
      then show ?thesis using Cons.IH Cons.prems(2) False ev c by auto
    next
      case no: False
      then have "lock_wait self (ev # evs) r s = lock_wait self evs r s"
        using False by (cases ev; cases r) auto
      then show ?thesis using Cons.IH Cons.prems by simp
    qed
  qed
qed

definition call_ok :: "thread \<Rightarrow> scheduled \<Rightarrow> bool" where
  "call_ok self l \<longleftrightarrow> waits_ok (fst l) \<and> sy_waits (fst l) self = None"

definition held_locks :: "thread \<Rightarrow> scheduled \<Rightarrow> request set" where
  "held_locks self l = {q. holds (sy_table (fst l)) self q}"

lemma lock_call_holds:
  assumes "call_ok self l" "lock_call self l req = (rc, l')"
  shows "call_ok self l' \<and> (if rc = 0 then held_locks self l \<subseteq> held_locks self l' \<and> req \<in> held_locks self l'
    else held_locks self l' = held_locks self l)"
proof -
  obtain s sched where l: "l = (s, sched)" by (cases l)
  obtain got evs where g: "(case sched of [] \<Rightarrow> (True, []) | x # _ \<Rightarrow> x) = (got, evs)"
    by (cases "case sched of [] \<Rightarrow> (True, []) | x # _ \<Rightarrow> x")
  obtain r lt where c: "start_call self req got s = (r, lt)" by (cases "start_call self req got s")
  obtain s' where w: "lock_wait self evs r (after self (r, lt) s) = (rc, s')" "l' = (s', tl sched)"
    using assms(2) by (auto simp: lock_call_def l g c split: prod.splits)
  have S: "waits_ok s" "sy_waits s self = None" using assms(1) by (simp_all add: call_ok_def l)
  have eff: "call_effect self req (sy_table s) (r, lt)" using start_effect [of self req s got] c by simp
  have "waits_ok (after self (r, lt) s)"
    using waits_ok_after [OF S(1) _ eff] start_call_step [OF S(2), of req got] c by simp
  moreover have "r = Returned 0 \<Longrightarrow> holds lt self req"
    using acquire_start_grants [OF waits_ok_table [OF S(1)] fresh_calloc, of self req got] c by (simp add: start_call_def)
  ultimately have "own_call self req (holds (sy_table s) self) r (after self (r, lt) s)"
    using own_call_answer [OF _ eff] by blast
  from lock_wait_call [OF this w(1)] show ?thesis
    by (auto simp: own_call_def call_ok_def held_locks_def l w(2) split: if_splits)
qed

interpretation tl: lock_manager "call_ok self" "held_locks self" "table_calls self" for self
proof
  fix l :: scheduled
  assume ok: "call_ok self l"
  obtain s sched where l: "l = (s, sched)" by (cases l)
  have S: "waits_ok s" "sy_waits s self = None" using ok by (simp_all add: call_ok_def l)
  let ?s = "s\<lparr>sy_table := lock_release_all (sy_table s) self\<rparr>"
  have "reachable ?s" using lock_step.release [OF S(2)] S(1) reachable.step by (auto simp: waits_ok_def)
  then have "waits_ok ?s" using S(1) by (simp add: waits_ok_def)
  moreover have "\<not> holds (lock_release_all (sy_table s) self) self q" for q
    using release_all_ok(2,3) [OF waits_ok_table [OF S(1)], of self] by (auto simp: holds_def Let_def)
  ultimately show "call_ok self (lc_release_all (table_calls self) l) \<and> held_locks self (lc_release_all (table_calls self) l) = {}"
    using S(2) by (simp add: table_calls_def call_ok_def held_locks_def l)
next
  fix l i mode rc l'
  assume ok: "call_ok self l" and c: "lc_acquire (table_calls self) l i mode = (rc, l')"
  have "lock_call self l (Point i mode) = (rc, l')" using c by (simp add: table_calls_def)
  from lock_call_holds [OF ok this] show "call_ok self l' \<and> (if rc = 0
    then held_locks self l \<subseteq> held_locks self l' \<and> Point i mode \<in> held_locks self l' else held_locks self l' = held_locks self l)" .
next
  fix l low high mode rc l'
  assume ok: "call_ok self l" and c: "lc_acquire_range (table_calls self) l low high mode = (rc, l')"
  have "lock_call self l (Range low high mode) = (rc, l')" using c by (simp add: table_calls_def)
  from lock_call_holds [OF ok this] show "call_ok self l' \<and> (if rc = 0
    then held_locks self l \<subseteq> held_locks self l' \<and> Range low high mode \<in> held_locks self l' else held_locks self l' = held_locks self l)" .
qed

end
