(* ===== verification/Exec_Render.thy ===== *)
theory Exec_Render
  imports Executor Heap_Contract
begin

text \<open>
  What the executor puts out. With allocations succeeding the output buffer holds the
  concatenation of the pieces appended; a scan visits the values of the heap's rows in order, and
  the plain scan renders those that match, up to the limit.
\<close>

section \<open>The buffer\<close>

definition buf_holds :: "out_buf \<Rightarrow> string \<Rightarrow> bool" where
  "buf_holds b d \<longleftrightarrow> ob_data b = Some d \<and> 0 < ob_cap b \<and> ob_room b = ob_cap b \<and> length d < ob_cap b \<and> \<not> ob_overrun b"

lemma grow_suffices:
  assumes "\<forall>n. fits n" "0 < cap"
  shows "\<exists>c. grow fits need cap cap = (True, c, c) \<and> need \<le> c \<and> 0 < c"
  using assms(2)
proof (induction "need - cap" arbitrary: cap rule: less_induct)
  case less
  show ?case
  proof (cases "cap < need")
    case True
    then have "need - cap * 2 < need - cap" "0 < cap * 2" using less.prems by simp_all
    from less.hyps [OF this] True less.prems assms(1) show ?thesis by (simp add: grow.simps [of fits need cap])
  next
    case False
    then show ?thesis using less.prems by (simp add: grow.simps)
  qed
qed

lemma buf_init_holds: "(\<forall>n. fits n) \<Longrightarrow> buf_holds (buf_init fits) []"
  by (simp add: buf_holds_def buf_init_def)

lemma buf_append_holds:
  assumes "\<forall>n. fits n" "buf_holds b d"
  shows "buf_holds (buf_append fits b s) (d @ s)"
proof -
  obtain c where "grow fits (length d + length s + 1) (ob_cap b) (ob_cap b) = (True, c, c)" "length d + length s + 1 \<le> c" "0 < c"
    using grow_suffices [OF assms(1), where cap = "ob_cap b" and need = "length d + length s + 1"] assms(2) by (auto simp: buf_holds_def)
  then show ?thesis using assms(2) by (simp add: buf_holds_def buf_append_def)
qed

lemma buf_append_all_holds:
  assumes "\<forall>n. fits n" "buf_holds b d"
  shows "buf_holds (foldl (buf_append fits) b ps) (d @ concat ps)"
  using assms(2)
proof (induction ps arbitrary: b d)
  case (Cons p ps)
  from Cons.IH [OF buf_append_holds [OF assms(1) Cons.prems]] show ?case by simp
qed simp

lemma result_with_holds: "buf_holds b d \<Longrightarrow> result_with b m = Some \<lparr>res_status = 0, res_message = m, res_out = Some d\<rparr>"
  by (simp add: buf_holds_def result_with_def buf_transfer_def)

definition render_row :: "db_header \<Rightarrow> row_value list \<Rightarrow> string" where
  "render_row hdr values = concat (row_pieces hdr values)"

definition render_table :: "db_header \<Rightarrow> row_value list list \<Rightarrow> string" where
  "render_table hdr rows = concat (header_pieces hdr) @ concat (map (render_row hdr) rows)"

lemma append_row_holds:
  "(\<forall>n. fits n) \<Longrightarrow> buf_holds b d \<Longrightarrow> buf_holds (append_row fits b hdr values) (d @ render_row hdr values)"
  unfolding append_row_def render_row_def by (rule buf_append_all_holds)

lemma append_header_holds:
  assumes "\<forall>n. fits n"
  shows "buf_holds (append_header fits (buf_init fits) hdr) (render_table hdr [])"
  using buf_append_all_holds [OF assms buf_init_holds [OF assms]] by (simp add: append_header_def render_table_def)

lemma emit_rows_holds:
  assumes "\<forall>n. fits n"
  shows "buf_holds (emit_rows fits hdr rows) (render_table hdr rows)"
proof -
  have "buf_holds (foldl (\<lambda>b values. append_row fits b hdr values) b rows) (d @ concat (map (render_row hdr) rows))"
    if "buf_holds b d" for b d
    using that
  proof (induction rows arbitrary: b d)
    case (Cons v rows)
    from Cons.IH [OF append_row_holds [OF assms Cons.prems]] show ?case by simp
  qed simp
  from this [OF append_header_holds [OF assms]] show ?thesis by (simp add: emit_rows_def render_table_def)
qed

text \<open>The scan context after some rows have been put out.\<close>

definition emitted :: "db_header \<Rightarrow> row_value list list \<Rightarrow> scan_ctx \<Rightarrow> bool" where
  "emitted hdr rows ctx \<longleftrightarrow> fst ctx = word_of_nat (length rows)
     \<and> buf_holds (snd ctx) (if rows = [] then [] else render_table hdr rows)"

lemma word_of_nat_zero_iff: "n < 2 ^ 32 \<Longrightarrow> (word_of_nat n :: u32) = 0 \<longleftrightarrow> n = 0"
  using unat_of_nat_small(2) [of n] by (auto simp: unat_eq_0)

lemma emit_row_emitted:
  assumes "\<forall>n. fits n" "emitted hdr rows ctx" "length rows < 2 ^ 32"
  shows "emitted hdr (rows @ [values]) (emit_row fits hdr values ctx)"
proof -
  obtain count b where ctx: "ctx = (count, b)" by (cases ctx)
  have c: "count = word_of_nat (length rows)" and b: "buf_holds b (if rows = [] then [] else render_table hdr rows)"
    using assms(2) by (simp_all add: emitted_def ctx)
  have "count = 0 \<longleftrightarrow> rows = []" using c word_of_nat_zero_iff [OF assms(3)] by simp
  moreover have "buf_holds (append_header fits b hdr) (render_table hdr [])" if "rows = []"
    using buf_append_all_holds [OF assms(1), where b = b and d = "[]" and ps = "header_pieces hdr"] b that
    by (simp add: append_header_def render_table_def)
  ultimately have "buf_holds (if count = 0 then append_header fits b hdr else b) (render_table hdr rows)"
    using b by (cases "rows = []") simp_all
  from append_row_holds [OF assms(1) this, of hdr "values"] show ?thesis
    by (simp add: emitted_def emit_row_def ctx c render_table_def add.commute)
qed

section \<open>Scans\<close>

fun visit_values :: "(row_value list \<Rightarrow> 'c \<Rightarrow> bool \<times> 'c) \<Rightarrow> 'c \<Rightarrow> row_value list list \<Rightarrow> 'c" where
  "visit_values f ctx [] = ctx"
| "visit_values f ctx (v # vs) = (case f v ctx of (go, ctx') \<Rightarrow> if go then visit_values f ctx' vs else ctx')"

lemma visit_on_row:
  assumes "those (map (\<lambda>x. row_deserialize hdr (snd x)) l) = Some vs"
  shows "snd (visit_rows (on_row hdr f) (Some ctx) l) = Some (visit_values f ctx vs)"
  using assms
proof (induction l arbitrary: ctx vs)
  case (Cons x l)
  obtain ref row where x: "x = (ref, row)" by (cases x)
  from Cons.prems obtain v vs' where v: "row_deserialize hdr row = Some v" "vs = v # vs'"
    "those (map (\<lambda>x. row_deserialize hdr (snd x)) l) = Some vs'"
    by (auto simp: x split: option.splits)
  show ?case
  proof (cases "f v ctx")
    case (Pair go ctx')
    then show ?thesis using Cons.IH [OF v(3)] v by (simp add: x on_row_def)
  qed
qed simp

definition heap_values :: "store \<Rightarrow> page_id list \<Rightarrow> row_value list list option" where
  "heap_values s chain =
     those (map (\<lambda>x. row_deserialize (st_hdr s) (snd x)) (heap_list s (hd_row_size (st_hdr s)) chain))"

lemma scan_with_visits:
  assumes "heap_ok s fl rs chain" "heap_values s chain = Some vs"
  shows "scan_with s f ctx = Some (visit_values f ctx vs)"
  by (simp add: scan_with_def heap_scan_visits [OF assms(1)] visit_on_row [OF assms(2) [unfolded heap_values_def]])

definition limited :: "statement \<Rightarrow> 'a list \<Rightarrow> 'a list" where
  "limited stmt xs = (if has_limit stmt then take (unat (limit_count stmt)) xs else xs)"

lemma visit_select:
  assumes f: "\<forall>n. fits n" and "emitted hdr rows ctx" "length rows + length vs < 2 ^ 32"
    and "has_limit stmt \<Longrightarrow> length rows < unat (limit_count stmt)"
  shows "emitted hdr (limited stmt (rows @ filter (\<lambda>v. match_predicate hdr v stmt) vs))
    (visit_values (select_scan_cb fits hdr stmt) ctx vs)"
  using assms(2-)
proof (induction vs arbitrary: rows ctx)
  case Nil
  then show ?case by (auto simp: limited_def)
next
  case (Cons v vs)
  show ?case
  proof (cases "match_predicate hdr v stmt")
    case False
    then show ?thesis using Cons by (simp add: select_scan_cb_def)
  next
    case True
    let ?ctx = "emit_row fits hdr v ctx"
    have e: "emitted hdr (rows @ [v]) ?ctx" using emit_row_emitted [OF f Cons.prems(1)] Cons.prems(2) by simp
    have n: "unat (fst ?ctx) = Suc (length rows)"
      using e Cons.prems(2) unat_of_nat_small(2) [of "Suc (length rows)"] by (simp add: emitted_def)
    show ?thesis
    proof (cases "has_limit stmt \<and> fst ?ctx \<ge> limit_count stmt")
      case stop: True
      then have "unat (limit_count stmt) = Suc (length rows)" using n Cons.prems(3) by (simp add: word_le_nat_alt)
      then show ?thesis using e True stop by (simp add: select_scan_cb_def limited_def)
    next
      case go: False
      have "has_limit stmt \<Longrightarrow> length (rows @ [v]) < unat (limit_count stmt)" using go n by (auto simp: word_le_nat_alt)
      with Cons.IH [OF e] Cons.prems(2) have "emitted hdr (limited stmt ((rows @ [v]) @ filter (\<lambda>v. match_predicate hdr v stmt) vs))
          (visit_values (select_scan_cb fits hdr stmt) ?ctx vs)" by simp
      moreover have "select_scan_cb fits hdr stmt v ctx = (True, ?ctx)" using True go by (auto simp: select_scan_cb_def Let_def)
      ultimately show ?thesis using True by simp
    qed
  qed
qed

definition rows_result :: "db_header \<Rightarrow> (u32 \<Rightarrow> exec_message) \<Rightarrow> row_value list list \<Rightarrow> exec_result" where
  "rows_result hdr msg rows = \<lparr>res_status = 0, res_message = msg (word_of_nat (length rows)),
     res_out = (if rows = [] then None else Some (render_table hdr rows))\<rparr>"

lemma emitted_result:
  assumes "emitted hdr rows ctx" "length rows < 2 ^ 32"
  shows "(case ctx of (n, b) \<Rightarrow> if n > 0 then result_with b (msg n)
          else if ob_overrun b then None else Some (done_with (msg n))) = Some (rows_result hdr msg rows)"
proof (cases "rows = []")
  case True
  then show ?thesis using assms(1) by (cases ctx) (simp add: emitted_def rows_result_def done_with_def buf_holds_def)
next
  case False
  then have "fst ctx > 0" using assms word_of_nat_zero_iff [of "length rows"] by (simp add: emitted_def word_gt_0)
  then show ?thesis using assms(1) False result_with_holds by (cases ctx) (simp add: emitted_def rows_result_def)
qed

theorem exec_plain_scan_correct:
  assumes f: "\<forall>n. fits n" and h: "heap_ok s fl rs chain" "heap_values s chain = Some vs" "length vs < 2 ^ 32"
    and lim: "has_limit stmt \<Longrightarrow> 0 < limit_count stmt"
  shows "exec_plain_scan fits s stmt =
    Some (rows_result (st_hdr s) Rows_found (limited stmt (filter (\<lambda>v. match_predicate (st_hdr s) v stmt) vs)))"
proof -
  have "emitted (st_hdr s) [] (0, buf_init fits)" using buf_init_holds [OF f] by (simp add: emitted_def)
  from visit_select [OF f this, of vs stmt] h(3) lim
  have e: "emitted (st_hdr s) (limited stmt (filter (\<lambda>v. match_predicate (st_hdr s) v stmt) vs))
      (visit_values (select_scan_cb fits (st_hdr s) stmt) (0, buf_init fits) vs)" by (simp add: word_less_nat_alt)
  have "length (limited stmt (filter (\<lambda>v. match_predicate (st_hdr s) v stmt) vs)) < 2 ^ 32"
    using h(3) le_less_trans [OF length_filter_le] by (auto simp: limited_def min_def)
  from emitted_result [OF e this, of Rows_found] show ?thesis
    unfolding exec_plain_scan_def scan_with_visits [OF h(1,2)] by simp
qed

end
