(* ===== verification/Table_Db.thy ===== *)
theory Table_Db
  imports Exec_Render BPlus_Contract
begin

text \<open>
  The table as its users see it: a map from ids to rows, kept in two structures at once, the heap
  with the rows and the index with the references. \<open>db_ok\<close> says that both are well formed, share
  no page, and agree: an id is indexed exactly when some live row carries it,
  the header counts the rows, and every stored value is in the form its column stores.
\<close>

section \<open>Rows and their ids\<close>

lemma col_load_take: "col_load (take n p) c = Some v \<Longrightarrow> col_load p c = Some v"
  by (auto simp: col_load_def Let_def mread_def drop_take min_def split: if_splits)

lemma row_deserialize_take: "row_deserialize hdr (take n p) = Some vs \<Longrightarrow> row_deserialize hdr p = Some vs"
proof -
  have "those (map (col_load (take n p)) cs) = Some vs \<Longrightarrow> those (map (col_load p) cs) = Some vs" for cs vs
    by (induction cs arbitrary: vs) (auto split: option.splits dest: col_load_take)
  then show "row_deserialize hdr (take n p) = Some vs \<Longrightarrow> row_deserialize hdr p = Some vs"
    by (auto simp: row_deserialize_def split: option.splits)
qed

definition values_id :: "row_value list \<Rightarrow> u64" where "values_id vs = bigint_val (vs ! 0)"

definition row_id :: "db_header \<Rightarrow> bytes \<Rightarrow> u64 option" where
  "row_id hdr row = map_option values_id (row_deserialize hdr row)"

section \<open>The database\<close>

definition table_schema :: "store \<Rightarrow> bool" where
  "table_schema s \<longleftrightarrow> schema_ok (st_hdr s) \<and> 0 < hd_column_count (st_hdr s) \<and> hd_columns (st_hdr s) ! 0 = id_column
     \<and> 0 < hd_row_size (st_hdr s) \<and> 24 + unat (hd_row_size (st_hdr s)) \<le> unat (st_page_size s)"

abbreviation row_len :: "store \<Rightarrow> nat" where "row_len s \<equiv> unat (hd_row_size (st_hdr s))"

definition db_ok :: "store \<Rightarrow> page_id list \<Rightarrow> page_id list \<Rightarrow> nat \<Rightarrow> bt \<Rightarrow> bool" where
  "db_ok s fl chain h t \<longleftrightarrow>
     store_ok s fl \<and> heap_ok s fl (row_len s) chain \<and> index_tree s fl h t
     \<and> set chain \<inter> set (pids t) = {} \<and> table_schema s
     \<and> (\<forall>ref row. heap_rows s (row_len s) chain ref = Some row
          \<longrightarrow> (\<exists>k. row_id (st_hdr s) row = Some k \<and> index_map t k = Some ref))
     \<and> (\<forall>k ref. index_map t k = Some ref
          \<longrightarrow> (\<exists>row. heap_rows s (row_len s) chain ref = Some row \<and> row_id (st_hdr s) row = Some k))
     \<and> (\<forall>k. index_map t k \<noteq> None \<longrightarrow> k < hd_next_id (st_hdr s))
     \<and> hd_row_count (st_hdr s) = word_of_nat (card (dom (index_map t)))
     \<and> (\<forall>ref row vs. heap_rows s (row_len s) chain ref = Some row \<and> row_deserialize (st_hdr s) row = Some vs
          \<longrightarrow> canonical_row (st_hdr s) vs)"

text \<open>The table a database stands for.\<close>

definition table_of :: "store \<Rightarrow> page_id list \<Rightarrow> bt \<Rightarrow> u64 \<Rightarrow> row_value list option" where
  "table_of s chain t k =
     (case index_map t k of
        None \<Rightarrow> None
      | Some ref \<Rightarrow> (case heap_rows s (row_len s) chain ref of None \<Rightarrow> None | Some row \<Rightarrow> row_deserialize (st_hdr s) row))"

lemma db_okD:
  assumes "db_ok s fl chain h t"
  shows "store_ok s fl" "heap_ok s fl (row_len s) chain" "index_tree s fl h t" "set chain \<inter> set (pids t) = {}"
    "table_schema s"
    "heap_rows s (row_len s) chain ref = Some row \<Longrightarrow> \<exists>k. row_id (st_hdr s) row = Some k \<and> index_map t k = Some ref"
    "index_map t k = Some ref \<Longrightarrow> \<exists>row. heap_rows s (row_len s) chain ref = Some row \<and> row_id (st_hdr s) row = Some k"
    "index_map t k \<noteq> None \<Longrightarrow> k < hd_next_id (st_hdr s)"
    "hd_row_count (st_hdr s) = word_of_nat (card (dom (index_map t)))"
    "heap_rows s (row_len s) chain ref = Some row \<Longrightarrow> row_deserialize (st_hdr s) row = Some vs \<Longrightarrow> canonical_row (st_hdr s) vs"
  using assms unfolding db_ok_def by blast+

lemma table_of_index:
  assumes "db_ok s fl chain h t"
  shows "table_of s chain t k = None \<longleftrightarrow> index_map t k = None"
    and "index_map t k = Some ref \<Longrightarrow> \<exists>row vs. heap_rows s (row_len s) chain ref = Some row
      \<and> row_deserialize (st_hdr s) row = Some vs \<and> table_of s chain t k = Some vs \<and> values_id vs = k"
  using db_okD(7) [OF assms, of k] by (auto simp: table_of_def row_id_def split: option.splits)

section \<open>Lookup\<close>

theorem exec_index_lookup_correct:
  assumes ok: "db_ok s fl chain h t" and f: "\<forall>n. fits n"
  shows "exec_index_lookup fits s stmt =
    (case table_of s chain t (pred_id stmt) of
       None \<Rightarrow> Some (done_with (Id_not_found (pred_id stmt)))
     | Some vs \<Rightarrow> Some \<lparr>res_status = 0, res_message = Row_found, res_out = Some (render_table (st_hdr s) [vs])\<rparr>)"
proof (cases "index_map t (pred_id stmt)")
  case None
  moreover have "table_of s chain t (pred_id stmt) = None" using table_of_index(1) [OF ok] None by simp
  ultimately show ?thesis
    by (simp add: exec_index_lookup_def bptree_search_correct [OF db_okD(3) [OF ok]])
next
  case (Some ref)
  from table_of_index(2) [OF ok this] obtain row vs where r: "heap_rows s (row_len s) chain ref = Some row"
    "row_deserialize (st_hdr s) row = Some vs" "table_of s chain t (pred_id stmt) = Some vs" by blast
  from heap_fetch_alive [OF r(1)] obtain p where p: "heap_fetch s ref = Some p" "take (row_len s) p = row" by blast
  have "row_deserialize (st_hdr s) p = Some vs" using r(2) unfolding p(2) [symmetric] by (rule row_deserialize_take)
  then show ?thesis using Some p(1) r(3) result_with_holds [OF emit_rows_holds [OF f]]
    by (simp add: exec_index_lookup_def bptree_search_correct [OF db_okD(3) [OF ok]])
qed

section \<open>Scanning lists the table\<close>

lemma those_map_some:
  assumes "\<And>x. x \<in> set l \<Longrightarrow> g x \<noteq> None"
  shows "those (map g l) = Some (map (\<lambda>x. the (g x)) l)"
  using assms
proof (induction l)
  case (Cons x l)
  then obtain y where "g x = Some y" by fastforce
  with Cons show ?case by simp
qed simp

lemma index_map_inj:
  assumes "db_ok s fl chain h t" "index_map t k = Some ref" "index_map t k' = Some ref"
  shows "k = k'"
  using db_okD(7) [OF assms(1,2)] db_okD(7) [OF assms(1,3)] by auto

theorem heap_values_table:
  assumes ok: "db_ok s fl chain h t"
  shows "\<exists>vs. heap_values s chain = Some vs \<and> distinct (map values_id vs)
    \<and> table_of s chain t = map_of (map (\<lambda>v. (values_id v, v)) vs)"
proof -
  let ?hdr = "st_hdr s" and ?l = "heap_list s (hd_row_size (st_hdr s)) chain"
  let ?g = "\<lambda>x. row_deserialize ?hdr (snd x)"
  note H = heap_okD [OF db_okD(2) [OF ok]] and L = heap_list_rows [OF H(3) refl, where s = s and row_size = "hd_row_size ?hdr"]
  have idx: "\<exists>v k. ?g (ref, row) = Some v \<and> values_id v = k \<and> index_map t k = Some ref" if "(ref, row) \<in> set ?l" for ref row
    using db_okD(6) [OF ok, of ref row] L(2) that by (auto simp: row_id_def)
  have some: "?g x \<noteq> None" if "x \<in> set ?l" for x using idx [of "fst x" "snd x"] that by auto
  let ?vs = "map (\<lambda>x. the (?g x)) ?l"
  have vs: "heap_values s chain = Some ?vs" unfolding heap_values_def by (rule those_map_some [OF some])
  have inj: "inj_on (\<lambda>x. values_id (the (?g x))) (set ?l)"
  proof (rule inj_onI)
    fix x y assume xy: "x \<in> set ?l" "y \<in> set ?l" "values_id (the (?g x)) = values_id (the (?g y))"
    have "fst x = fst y" using idx [of "fst x" "snd x"] idx [of "fst y" "snd y"] xy by auto
    then show "x = y" using L(1) xy(1,2) by (metis eq_key_imp_eq_value prod.collapse)
  qed
  have "distinct ?l" using L(1) by (simp add: distinct_map)
  then have dist: "distinct (map values_id ?vs)" using inj by (simp add: distinct_map o_def)
  have "table_of s chain t k = map_of (map (\<lambda>v. (values_id v, v)) ?vs) k" for k
  proof (cases "index_map t k")
    case None
    have "k \<notin> set (map values_id ?vs)" using idx None by fastforce
    then have "map_of (map (\<lambda>v. (values_id v, v)) ?vs) k = None" by (simp only: map_of_eq_None_iff set_map image_image fst_conv not_False_eq_True)
    then show ?thesis using table_of_index(1) [OF ok, of k] None by simp
  next
    case (Some ref)
    from table_of_index(2) [OF ok this] obtain row v where r: "heap_rows s (row_len s) chain ref = Some row"
      "row_deserialize ?hdr row = Some v" "table_of s chain t k = Some v" "values_id v = k" by blast
    have "(ref, row) \<in> set ?l" using L(2) r(1) by simp
    then have "(k, v) \<in> set (map (\<lambda>v. (values_id v, v)) ?vs)" using r(2,4) by force
    moreover have "distinct (map fst (map (\<lambda>v. (values_id v, v)) ?vs))" using dist by (simp add: o_def)
    ultimately have "map_of (map (\<lambda>v. (values_id v, v)) ?vs) k = Some v" by (rule map_of_is_SomeI [rotated])
    then show ?thesis using r(3) by simp
  qed
  then show ?thesis using vs dist by blast
qed

end
