(* ===== verification/Table_Insert.thy ===== *)
theory Table_Insert
  imports Table_Db
begin

text \<open>
  INSERT on a well formed database: the row goes to the heap, its reference to the index, neither
  disturbs the other, and the table gains exactly the new id with the values as stored.
\<close>

section \<open>Steps that keep one half\<close>

lemma set_hdr_simps [simp]:
  "st_hdr (set_hdr s h) = h" "st_pages (set_hdr s h) = st_pages s" "st_page_size (set_hdr s h) = st_page_size s"
  "st_last_heap (set_hdr s h) = st_last_heap s" "st_free_hint (set_hdr s h) = st_free_hint s"
  by (simp_all add: set_hdr_def)

definition same_links :: "db_header \<Rightarrow> db_header \<Rightarrow> bool" where
  "same_links h h' \<longleftrightarrow> hd_free_page_head h' = hd_free_page_head h \<and> hd_next_page_id h' = hd_next_page_id h
     \<and> hd_first_heap_page_id h' = hd_first_heap_page_id h \<and> hd_root_index_page_id h' = hd_root_index_page_id h"

lemma set_hdr_keeps:
  assumes "same_links (st_hdr s) h"
  shows "store_ok (set_hdr s h) fl = store_ok s fl" "in_use (set_hdr s h) fl = in_use s fl"
    "heap_ok (set_hdr s h) fl rs chain = heap_ok s fl rs chain" "index_tree (set_hdr s h) fl ht t = index_tree s fl ht t"
    "heap_rows (set_hdr s h) rs chain = heap_rows s rs chain" "room (set_hdr s h) n = room s n"
proof -
  show "store_ok (set_hdr s h) fl = store_ok s fl" "room (set_hdr s h) n = room s n"
    "heap_rows (set_hdr s h) rs chain = heap_rows s rs chain"
    using assms by (simp_all add: same_links_def store_ok_def room_def heap_rows_def fun_eq_iff)
  show u: "in_use (set_hdr s h) fl = in_use s fl" using assms by (simp add: same_links_def in_use_def fun_eq_iff)
  show "heap_ok (set_hdr s h) fl rs chain = heap_ok s fl rs chain" "index_tree (set_hdr s h) fl ht t = index_tree s fl ht t"
    using assms by (simp_all add: same_links_def heap_ok_def index_tree_def root_id_def u)
qed

lemma index_tree_keep:
  assumes "index_tree s fl h t" "st_page_size s' = st_page_size s" "root_id s' = root_id s"
    and "\<And>p. p \<in> set (pids t) \<Longrightarrow> st_pages s' p = st_pages s p \<and> in_use s' fl' p"
  shows "index_tree s' fl' h t"
  unfolding index_tree_def
proof (intro conjI)
  note I = assms(1) [unfolded index_tree_def]
  show "bt_ok (unat (st_page_size s')) (st_pages s') h 0 (2 ^ 64) t"
    unfolding assms(2) by (rule bt_ok_cong [of _ "st_pages s"]) (use I assms(4) in auto)
  show "leaf_links (unat (st_page_size s')) (st_pages s') (leaves t) 0"
    unfolding assms(2) by (rule leaf_links_cong [of _ "st_pages s"]) (use I assms(4) leaves_subset [of t] in auto)
qed (use assms in \<open>auto simp: index_tree_def\<close>)

lemma heap_rows_keep:
  assumes "\<And>p. p \<in> set chain \<Longrightarrow> st_pages s' p = st_pages s p"
  shows "heap_rows s' rs chain = heap_rows s rs chain"
  using assms by (auto simp: heap_rows_def fun_eq_iff)

lemma heap_ok_keep:
  assumes "heap_ok s fl rs chain" "st_page_size s' = st_page_size s" "st_last_heap s' = st_last_heap s"
    "st_free_hint s' = st_free_hint s" "hd_first_heap_page_id (st_hdr s') = hd_first_heap_page_id (st_hdr s)"
    and "\<And>p. p \<in> set chain \<Longrightarrow> st_pages s' p = st_pages s p \<and> in_use s' fl' p"
  shows "heap_ok s' fl' rs chain"
proof -
  have "heap_chain (st_pages s') h chain = heap_chain (st_pages s) h chain" for h
    using assms(6) by (intro heap_chain_cong) simp
  then show ?thesis using assms by (simp add: heap_ok_def)
qed

lemma idx_frame_fields:
  assumes "idx_frame h h'"
  shows "hd_first_heap_page_id h' = hd_first_heap_page_id h" "hd_next_id h' = hd_next_id h"
    "hd_row_count h' = hd_row_count h" "hd_columns h' = hd_columns h" "hd_column_count h' = hd_column_count h"
    "hd_row_size h' = hd_row_size h"
  using hdr_frame_fields [OF assms [unfolded idx_frame_def]] by simp_all

section \<open>The schema\<close>

definition same_schema :: "db_header \<Rightarrow> db_header \<Rightarrow> bool" where
  "same_schema h h' \<longleftrightarrow> hd_columns h' = hd_columns h \<and> hd_column_count h' = hd_column_count h \<and> hd_row_size h' = hd_row_size h"

lemma same_schema_keeps:
  assumes "same_schema h h'"
  shows "schema_ok h' = schema_ok h" "row_deserialize h' = row_deserialize h" "row_serialize h' = row_serialize h"
    "row_id h' = row_id h" "canonical_row h' = canonical_row h"
proof -
  show "schema_ok h' = schema_ok h" using assms by (simp add: same_schema_def schema_ok_def)
  show d: "row_deserialize h' = row_deserialize h" "row_serialize h' = row_serialize h"
    using assms by (simp_all add: same_schema_def row_deserialize_def row_serialize_def active_columns_def fun_eq_iff)
  show "row_id h' = row_id h" by (simp add: row_id_def d fun_eq_iff)
  show "canonical_row h' = canonical_row h" using assms by (simp add: same_schema_def canonical_row_def fun_eq_iff)
qed

lemma table_schema_keep:
  "table_schema s \<Longrightarrow> same_schema (st_hdr s) (st_hdr s') \<Longrightarrow> st_page_size s' = st_page_size s \<Longrightarrow> table_schema s'"
  using same_schema_keeps(1) [of "st_hdr s" "st_hdr s'"] by (simp add: table_schema_def same_schema_def)

section \<open>The values of a new row\<close>

lemma value_ok_write: "length d < 256 \<Longrightarrow> value_ok (mwrite zero_value 0 d)"
  by (simp add: value_ok_def zero_value_def mwrite_def ROW_VALUE_SIZE_def)

lemma value_ok_zero: "value_ok zero_value"
  by (simp add: value_ok_def zero_value_def ROW_VALUE_SIZE_def)

lemma value_ok_assign: "value_ok (assign_value col zero_value s)"
  by (simp add: assign_value_def set_int_def set_bigint_def set_str_def value_ok_write value_ok_zero)

lemma assign_values_ok: "\<forall>v \<in> set (assign_values cols vals). value_ok v" "length (assign_values cols vals) = length cols"
  by (induction cols vals rule: assign_values.induct) (simp_all add: value_ok_assign value_ok_zero)

lemma insert_row_values_ok:
  assumes "schema_ok hdr" "0 < hd_column_count hdr"
  shows "\<forall>v \<in> set (insert_row_values hdr k vals). value_ok v"
    "length (insert_row_values hdr k vals) = unat (hd_column_count hdr)"
proof -
  show "\<forall>v \<in> set (insert_row_values hdr k vals). value_ok v"
    using assign_values_ok(1) by (simp add: insert_row_values_def set_bigint_def value_ok_write)
  have "0 < unat (hd_column_count hdr)" using assms(2) by (simp add: word_less_nat_alt)
  then show "length (insert_row_values hdr k vals) = unat (hd_column_count hdr)"
    using assms(1) by (auto simp: insert_row_values_def assign_values_ok schema_ok_def min_def)
qed

text \<open>What the new row reads back as.\<close>

definition stored_row :: "db_header \<Rightarrow> u64 \<Rightarrow> string list \<Rightarrow> row_value list" where
  "stored_row hdr k vals = map2 canonical (hd_columns hdr) (insert_row_values hdr k vals)"

lemma stored_row_id:
  assumes "schema_ok hdr" "0 < hd_column_count hdr" "hd_columns hdr ! 0 = id_column"
  shows "values_id (stored_row hdr k vals) = k"
proof -
  have "0 < unat (hd_column_count hdr)" using assms(2) by (simp add: word_less_nat_alt)
  then obtain cs where "hd_columns hdr = id_column # cs"
    using assms(1,3) by (cases "hd_columns hdr") (auto simp: schema_ok_def)
  moreover have "bigint_val (set_bigint zero_value k) = k"
    by (simp add: bigint_val_def set_bigint_def mwrite_def)
  ultimately show ?thesis
    by (simp add: stored_row_def values_id_def insert_row_values_def canonical_bigint id_column_def)
qed

lemma serialize_insert:
  assumes "table_schema s"
  shows "\<exists>buf. row_serialize (st_hdr s) (insert_row_values (st_hdr s) k vals) = Some buf \<and> length buf = row_len s
    \<and> row_deserialize (st_hdr s) buf = Some (stored_row (st_hdr s) k vals)"
  using row_roundtrip [OF _ insert_row_values_ok(2,1)] assms by (simp add: table_schema_def stored_row_def)

lemma stored_row_canonical: "table_schema s \<Longrightarrow> canonical_row (st_hdr s) (stored_row (st_hdr s) k vals)"
  unfolding stored_row_def table_schema_def using canonical_row_map2 insert_row_values_ok by blast

section \<open>The insertion\<close>

lemma heap_insert_db:
  assumes ok: "store_ok s fl" "heap_ok s fl (row_len s) chain" "index_tree s fl h t" "set chain \<inter> set (pids t) = {}" "table_schema s"
    and rm: "room s (n + 1)" and buf: "length buf = row_len s"
  shows "\<exists>ref s' fl' chain'. heap_insert s buf (hd_row_size (st_hdr s)) = Some (ref, s')
    \<and> store_ok s' fl' \<and> heap_ok s' fl' (row_len s) chain' \<and> index_tree s' fl' h t \<and> set chain' \<inter> set (pids t) = {}
    \<and> heap_rows s (row_len s) chain ref = None \<and> heap_rows s' (row_len s) chain' = (heap_rows s (row_len s) chain)(ref \<mapsto> buf)
    \<and> hdr_frame (st_hdr s) (st_hdr s') \<and> st_page_size s' = st_page_size s \<and> room s' n"
proof -
  have "room s 1" "0 < row_len s" "24 + row_len s \<le> unat (st_page_size s)"
    using rm ok(5) by (auto simp: room_def table_schema_def word_less_nat_alt)
  from heap_insert_correct [OF ok(1,2) this(1) buf refl this(2,3)] obtain ref s' fl' chain' where
    i: "heap_insert s buf (hd_row_size (st_hdr s)) = Some (ref, s')" "inserted s fl (row_len s) chain buf ref s' fl' chain'" by blast
  note I = i(2) [unfolded inserted_def]
  have used: "\<forall>p \<in> set (pids t). in_use s fl p" using ok(3) by (simp add: index_tree_def)
  have disj: "set chain' \<inter> set (pids t) = {}" using I used ok(4) by auto
  have "index_tree s' fl' h t"
  proof (rule index_tree_keep [OF ok(3)])
    show "root_id s' = root_id s" using I hdr_frame_fields(1) by (simp add: root_id_def)
    fix p assume "p \<in> set (pids t)"
    then show "st_pages s' p = st_pages s p \<and> in_use s' fl' p" using I used disj by blast
  qed (use I in simp)
  moreover have "room s' n" using I rm by simp
  ultimately show ?thesis using i(1) I disj by blast
qed

lemma bptree_insert_db:
  assumes ok: "store_ok s fl" "heap_ok s fl rs chain" "index_tree s fl h t" "set chain \<inter> set (pids t) = {}"
    and rm: "room s (n + 34)" and new: "index_map t k = None"
  shows "\<exists>s' fl' h' t'. bptree_insert s k ref = Some (0, s')
    \<and> store_ok s' fl' \<and> heap_ok s' fl' rs chain \<and> index_tree s' fl' h' t' \<and> set chain \<inter> set (pids t') = {}
    \<and> index_map t' = (index_map t)(k \<mapsto> ref) \<and> heap_rows s' rs chain = heap_rows s rs chain
    \<and> idx_frame (st_hdr s) (st_hdr s') \<and> st_page_size s' = st_page_size s \<and> room s' (n + 1)"
proof -
  have h: "h < 32" using ok(3) by (simp add: index_tree_def)
  have "room s (h + 2)" using rm h by (simp add: room_def)
  from bptree_insert_correct(2) [OF ok(1) this ok(3) new, of ref] obtain s' fl' h' t' where
    b: "bptree_insert s k ref = Some (0, s')" "index_tree s' fl' h' t'" "index_map t' = (index_map t)(k \<mapsto> ref)"
      "index_step s fl t s' fl' t'" by blast
  note S = b(4) [unfolded index_step_def]
  have chain: "st_pages s' p = st_pages s p \<and> in_use s' fl' p \<and> p \<notin> set (pids t')" if "p \<in> set chain" for p
  proof -
    have "in_use s fl p" using heap_okD(5) [OF ok(2)] that by blast
    moreover have "p \<notin> set (pids t)" using ok(4) that by blast
    ultimately show ?thesis using S by blast
  qed
  have "heap_ok s' fl' rs chain"
    by (rule heap_ok_keep [OF ok(2)]) (use S chain idx_frame_fields(1) in auto)
  moreover have "heap_rows s' rs chain = heap_rows s rs chain" by (rule heap_rows_keep) (use chain in blast)
  moreover have "room s' (n + 1)" using S rm by (simp add: add.commute)
  ultimately show ?thesis using b S chain by blast
qed

lemma insert_hdr:
  assumes "hdr_frame (h\<lparr>hd_next_id := k\<rparr>) h2" "idx_frame h2 h3"
  shows "h3\<lparr>hd_row_count := hd_row_count h3 + 1\<rparr> = h\<lparr>hd_next_id := k, hd_row_count := hd_row_count h + 1,
     hd_free_page_head := hd_free_page_head (h3\<lparr>hd_row_count := hd_row_count h3 + 1\<rparr>),
     hd_next_page_id := hd_next_page_id (h3\<lparr>hd_row_count := hd_row_count h3 + 1\<rparr>),
     hd_root_index_page_id := hd_root_index_page_id (h3\<lparr>hd_row_count := hd_row_count h3 + 1\<rparr>)\<rparr>"
  using assms by (cases h; cases h2; cases h3) (simp add: idx_frame_def hdr_frame_def)

lemma u64_less_Suc: "(k :: u64) + 1 \<noteq> 0 \<Longrightarrow> k < k + 1"
proof -
  assume nz: "k + 1 \<noteq> 0"
  have "unat (k + 1) = (unat k + 1) mod 18446744073709551616" by (simp add: unat_word_ariths)
  moreover have "unat (k + 1) \<noteq> 0" using nz by (simp add: unat_eq_0)
  moreover have "unat k + 1 \<le> 18446744073709551616" using unat_lt_u64 [of k] by linarith
  ultimately have "unat (k + 1) = unat k + 1" by (metis le_neq_implies_less mod_less mod_self)
  then show "k < k + 1" by (simp add: word_less_nat_alt)
qed

theorem exec_insert_correct:
  assumes ok: "db_ok s fl chain h t" and f: "\<forall>n. fits n" and rm: "room s (n + 35)"
    and id: "k = hd_next_id (st_hdr s)" "k + 1 \<noteq> 0" and lock: "acquire l k LOCK_X = (0, l')"
  shows "\<exists>s' fl' chain' h' t'. exec_insert fits acquire s l stmt = Some (done_with (Row_inserted k), s', l')
    \<and> db_ok s' fl' chain' h' t' \<and> table_of s chain t k = None
    \<and> table_of s' chain' t' = (table_of s chain t)(k \<mapsto> stored_row (st_hdr s) k (insert_values stmt))
    \<and> st_hdr s' = (st_hdr s)\<lparr>hd_next_id := k + 1, hd_row_count := hd_row_count (st_hdr s) + 1,
         hd_free_page_head := hd_free_page_head (st_hdr s'), hd_next_page_id := hd_next_page_id (st_hdr s'),
         hd_root_index_page_id := hd_root_index_page_id (st_hdr s')\<rparr>
    \<and> room s' n"
proof -
  note D = db_okD [OF ok]
  let ?hdr = "st_hdr s"
  let ?s1 = "set_hdr s (?hdr\<lparr>hd_next_id := k + 1\<rparr>)" and ?new = "stored_row ?hdr k (insert_values stmt)"
  have l1: "same_links ?hdr (?hdr\<lparr>hd_next_id := k + 1\<rparr>)" by (simp add: same_links_def)
  have sc1: "same_schema ?hdr (st_hdr ?s1)" by (simp add: same_schema_def)
  note K1 = set_hdr_keeps [OF l1] and Q1 = same_schema_keeps [OF sc1]
  have ts1: "table_schema ?s1" by (rule table_schema_keep [OF D(5) sc1]) simp
  have none: "index_map t k = None" using D(8) [of k] id(1) by (metis order.irrefl)
  obtain buf where buf: "row_serialize (st_hdr ?s1) (insert_row_values (st_hdr ?s1) k (insert_values stmt)) = Some buf"
    "length buf = row_len s" "row_deserialize ?hdr buf = Some ?new"
    using serialize_insert [OF ts1, of k "insert_values stmt"] Q1(2)
    by (auto simp: stored_row_def insert_row_values_def)
  have idbuf: "row_id ?hdr buf = Some k"
    using buf(3) stored_row_id D(5) by (simp add: row_id_def table_schema_def)
  have "heap_ok ?s1 fl (row_len ?s1) chain" "length buf = row_len ?s1" "room ?s1 ((n + 34) + 1)" "store_ok ?s1 fl" "index_tree ?s1 fl h t"
    using D(1,2,3) buf(2) rm K1 by (simp_all add: add.commute)
  from heap_insert_db [OF this(4,1,5) D(4) ts1 this(3,2)] obtain ref s2 fl2 chain2 where
    A: "heap_insert ?s1 buf (hd_row_size ?hdr) = Some (ref, s2)" "store_ok s2 fl2" "heap_ok s2 fl2 (row_len s) chain2"
      "index_tree s2 fl2 h t" "set chain2 \<inter> set (pids t) = {}" "heap_rows s (row_len s) chain ref = None"
      "heap_rows s2 (row_len s) chain2 = (heap_rows s (row_len s) chain)(ref \<mapsto> buf)"
      "hdr_frame (st_hdr ?s1) (st_hdr s2)" "st_page_size s2 = st_page_size s" "room s2 (n + 34)"
    using K1(5) by auto
  from bptree_insert_db [OF A(2,3,4,5,10) none, of ref] obtain s3 fl3 h3 t3 where
    B: "bptree_insert s2 k ref = Some (0, s3)" "store_ok s3 fl3" "heap_ok s3 fl3 (row_len s) chain2" "index_tree s3 fl3 h3 t3"
      "set chain2 \<inter> set (pids t3) = {}" "index_map t3 = (index_map t)(k \<mapsto> ref)"
      "heap_rows s3 (row_len s) chain2 = heap_rows s2 (row_len s) chain2" "idx_frame (st_hdr s2) (st_hdr s3)"
      "st_page_size s3 = st_page_size s2" "room s3 (n + 1)" by blast
  let ?h4 = "(st_hdr s3)\<lparr>hd_row_count := hd_row_count (st_hdr s3) + 1\<rparr>"
  let ?s4 = "set_hdr s3 ?h4"
  have l4: "same_links (st_hdr s3) ?h4" by (simp add: same_links_def)
  note K4 = set_hdr_keeps [OF l4]
  have hdr: "st_hdr ?s4 = ?hdr\<lparr>hd_next_id := k + 1, hd_row_count := hd_row_count ?hdr + 1,
         hd_free_page_head := hd_free_page_head (st_hdr ?s4), hd_next_page_id := hd_next_page_id (st_hdr ?s4),
         hd_root_index_page_id := hd_root_index_page_id (st_hdr ?s4)\<rparr>"
    unfolding set_hdr_simps by (rule insert_hdr) (use A(8) B(8) in simp_all)
  have sc4: "same_schema ?hdr (st_hdr ?s4)"
    using idx_frame_fields(4,5,6) [OF B(8)] hdr_frame_fields(5,6,7) [OF A(8)] by (simp add: same_schema_def)
  note Q4 = same_schema_keeps [OF sc4]
  have rl4: "row_len ?s4 = row_len s" using sc4 by (simp add: same_schema_def)
  have rows4: "heap_rows ?s4 (row_len s) chain2 = (heap_rows s (row_len s) chain)(ref \<mapsto> buf)" using K4(5) B(7) A(7) by simp
  have ts4: "table_schema ?s4" by (rule table_schema_keep [OF D(5) sc4]) (simp add: A(9) B(9))
  have next4: "hd_next_id (st_hdr ?s4) = k + 1" using arg_cong [OF hdr, of hd_next_id] by simp
  have "db_ok ?s4 fl3 chain2 h3 t3"
    unfolding db_ok_def rl4 Q4(2,4,5)
  proof (intro conjI allI impI)
    show "store_ok ?s4 fl3" "heap_ok ?s4 fl3 (row_len s) chain2" "index_tree ?s4 fl3 h3 t3" "set chain2 \<inter> set (pids t3) = {}"
      "table_schema ?s4" using K4 B ts4 by simp_all
  next
    fix r row assume "heap_rows ?s4 (row_len s) chain2 r = Some row"
    then show "\<exists>k. row_id ?hdr row = Some k \<and> index_map t3 k = Some r"
      using rows4 idbuf B(6) D(6) [of r row] none by (cases "r = ref") (auto, metis option.distinct(1))
  next
    fix k' r assume "index_map t3 k' = Some r"
    then show "\<exists>row. heap_rows ?s4 (row_len s) chain2 r = Some row \<and> row_id ?hdr row = Some k'"
      using rows4 idbuf B(6) D(7) [of k' r] A(6) by (cases "k' = k") auto
  next
    fix k' assume "index_map t3 k' \<noteq> None"
    then have "k' = k \<or> k' < k" using B(6) D(8) [of k'] id(1) by (auto split: if_splits)
    moreover have "k < k + 1" by (rule u64_less_Suc [OF id(2)])
    ultimately show "k' < hd_next_id (st_hdr ?s4)" unfolding next4 by auto
  next
    have "hd_row_count (st_hdr ?s4) = hd_row_count ?hdr + 1" using arg_cong [OF hdr, of hd_row_count] by simp
    moreover have "card (dom (index_map t3)) = Suc (card (dom (index_map t)))"
      using B(6) none finite_dom_map_of by (simp add: domIff index_map_def)
    ultimately show "hd_row_count (st_hdr ?s4) = word_of_nat (card (dom (index_map t3)))"
      using D(9) by simp
  next
    fix r row vs assume "heap_rows ?s4 (row_len s) chain2 r = Some row \<and> row_deserialize ?hdr row = Some vs"
    then show "canonical_row ?hdr vs" using rows4 buf(3) D(10) [of r row vs] stored_row_canonical [OF D(5)]
      by (cases "r = ref") auto
  qed
  moreover have "table_of ?s4 chain2 t3 = (table_of s chain t)(k \<mapsto> ?new)"
  proof
    fix k'
    show "table_of ?s4 chain2 t3 k' = ((table_of s chain t)(k \<mapsto> ?new)) k'"
      unfolding table_of_def rl4 Q4(2) rows4 using B(6) buf(3) A(6) D(7) [of k'] by (auto split: option.splits)
  qed
  moreover have "exec_insert fits acquire s l stmt = Some (done_with (Row_inserted k), ?s4, l')"
  proof -
    have "hd_column_count ?hdr \<noteq> 0" using D(5) by (auto simp: table_schema_def)
    moreover have "hd_row_size (st_hdr ?s1) = hd_row_size ?hdr" by simp
    ultimately show ?thesis
      unfolding exec_insert_def using lock buf(1) A(1) B(1) f id(1) by (simp add: Let_def)
  qed
  moreover have "room ?s4 n" using K4(6) B(10) by (simp add: room_def)
  moreover have "table_of s chain t k = None" using none by (simp add: table_of_def)
  ultimately show ?thesis using hdr by blast
qed

end
