(* ===== verification/Table_Create.thy ===== *)
theory Table_Create
  imports Table_Insert
begin

text \<open>
  CREATE TABLE on a database without a table gives a well formed, empty one.
\<close>

definition no_table :: "store \<Rightarrow> page_id list \<Rightarrow> page_id list \<Rightarrow> bt \<Rightarrow> bool" where
  "no_table s fl chain t \<longleftrightarrow>
     store_ok s fl \<and> (\<forall>rs. heap_ok s fl rs chain \<and> (\<forall>ref. heap_rows s rs chain ref = None))
     \<and> index_tree s fl 0 t \<and> (\<forall>k. index_map t k = None) \<and> set chain \<inter> set (pids t) = {}
     \<and> hd_column_count (st_hdr s) = 0 \<and> hd_row_count (st_hdr s) = 0 \<and> length (hd_columns (st_hdr s)) = MAX_COLUMNS"

section \<open>The columns\<close>

definition user_columns :: "column_def list \<Rightarrow> column_meta list" where
  "user_columns cds = map user_column (filter (\<lambda>cd. \<not> same_name (cd_name cd) ''id'') cds)"

lemma user_columns_simps [simp]:
  "user_columns [] = []"
  "user_columns (cd # cds) = (if same_name (cd_name cd) ''id'' then user_columns cds else user_column cd # user_columns cds)"
  by (simp_all add: user_columns_def)

definition with_columns :: "db_header \<Rightarrow> column_meta list \<Rightarrow> db_header" where
  "with_columns hdr cs = hdr\<lparr>hd_column_count := word_of_nat (length cs), hd_columns := cs @ drop (length cs) (hd_columns hdr)\<rparr>"

lemma add_column_with:
  assumes "length cs < length (hd_columns hdr)" "length (hd_columns hdr) < 65536"
  shows "add_column (with_columns hdr cs) c = Some (with_columns hdr (cs @ [c]))"
proof -
  have "unat (word_of_nat (length cs) :: u16) = length cs" using assms by (simp add: unat_of_nat)
  moreover have "drop (length cs) (hd_columns hdr) = hd_columns hdr ! length cs # drop (Suc (length cs)) (hd_columns hdr)"
    using assms(1) by (rule Cons_nth_drop_Suc [symmetric])
  ultimately show ?thesis using assms(1)
    by (simp add: add_column_def with_columns_def list_update_append add.commute)
qed

lemma add_columns_with:
  assumes "length cs + length (user_columns cds) \<le> length (hd_columns hdr)" "length (hd_columns hdr) < 65536"
  shows "add_columns (with_columns hdr cs) cds = Some (with_columns hdr (cs @ user_columns cds))"
  using assms(1)
proof (induction cds arbitrary: cs)
  case (Cons cd cds)
  show ?case
  proof (cases "same_name (cd_name cd) ''id''")
    case True
    then show ?thesis using Cons by simp
  next
    case False
    then have "length cs < length (hd_columns hdr)" using Cons.prems by simp
    then show ?thesis using Cons.IH [of "cs @ [user_column cd]"] Cons.prems False add_column_with [OF _ assms(2)] by simp
  qed
qed simp

lemma add_column_id:
  assumes "hd_columns hdr \<noteq> []"
  shows "add_column (hdr\<lparr>hd_column_count := 0\<rparr>) id_column = Some (with_columns hdr [id_column])"
  using assms by (cases "hd_columns hdr") (simp_all add: add_column_def with_columns_def)

definition columns_size :: "column_meta list \<Rightarrow> nat" where
  "columns_size cs = sum_list (map (unat \<circ> cm_size) cs)"

definition created_header :: "db_header \<Rightarrow> column_meta list \<Rightarrow> db_header" where
  "created_header hdr cs = (with_columns hdr cs)\<lparr>hd_columns := snd (layout_cols 0 cs) @ drop (length cs) (hd_columns hdr),
     hd_row_size := word_of_nat (columns_size cs)\<rparr>"

lemma compute_layout_with:
  assumes "length cs \<le> length (hd_columns hdr)" "length (hd_columns hdr) < 65536"
    and "\<forall>c \<in> set cs. col_sized c" "columns_size cs < 65536"
  shows "schema_compute_layout (with_columns hdr cs) = Some (word_of_nat (columns_size cs), created_header hdr cs)"
    "schema_ok (created_header hdr cs)"
proof -
  have n: "unat (word_of_nat (length cs) :: u16) = length cs" using assms(1,2) by (simp add: unat_of_nat)
  have z: "unat (0 :: u16) + sum_list (map (unat \<circ> cm_size) cs) < 65536" using assms(4) by (simp add: columns_size_def)
  note L = layout_cols_laid_out [OF assms(3) z]
  have off: "fst (layout_cols 0 cs) = word_of_nat (columns_size cs)" using L assms(4) by (simp add: columns_size_def word_unat_eq_iff unat_of_nat)
  show "schema_compute_layout (with_columns hdr cs) = Some (word_of_nat (columns_size cs), created_header hdr cs)"
    using assms(1) n off by (simp add: schema_compute_layout_def with_columns_def created_header_def Let_def split_beta)
  have "unat (word_of_nat (columns_size cs) :: u16) = columns_size cs" using assms(4) by (simp add: unat_of_nat)
  then show "schema_ok (created_header hdr cs)"
    using L n assms(1) layout_cols_keeps(1) [of 0 cs]
    by (auto simp: schema_ok_def created_header_def with_columns_def columns_size_def)
qed

section \<open>The table\<close>

theorem exec_create_table_correct:
  assumes nt: "no_table s fl chain t"
    and few: "length (user_columns (col_defs stmt)) < MAX_COLUMNS" and sized: "\<forall>c \<in> set (user_columns (col_defs stmt)). col_sized c"
    and size: "8 + columns_size (user_columns (col_defs stmt)) < 65536"
      "32 + columns_size (user_columns (col_defs stmt)) \<le> unat (st_page_size s)"
  defines "cs \<equiv> id_column # user_columns (col_defs stmt)"
  shows "\<exists>s'. exec_create_table s stmt =
      Some (done_with (Table_created (table_name stmt) (word_of_nat (columns_size cs)) (word_of_nat (length cs))), s')
    \<and> st_hdr s' = created_header (st_hdr s) cs \<and> db_ok s' fl chain 0 t \<and> table_of s' chain t = Map.empty
    \<and> (\<forall>n. room s' n = room s n)"
proof -
  let ?hdr = "st_hdr s" and ?h = "created_header (st_hdr s) cs"
  let ?s = "set_hdr s ?h"
  note N = nt [unfolded no_table_def]
  have cols: "length (hd_columns ?hdr) = MAX_COLUMNS" "length (hd_columns ?hdr) < 65536" "hd_columns ?hdr \<noteq> []"
    using N by (auto simp: MAX_COLUMNS_def)
  have len: "length cs \<le> length (hd_columns ?hdr)" using few cols by (simp add: cs_def)
  have csize: "columns_size cs = 8 + columns_size (user_columns (col_defs stmt))" by (simp add: cs_def columns_size_def id_column_def)
  have csized: "\<forall>c \<in> set cs. col_sized c" using sized by (auto simp: cs_def col_sized_def id_column_def)
  have small: "columns_size cs < 65536" using csize size(1) by simp
  note L = compute_layout_with [OF len cols(2) csized small]
  have "length [id_column] + length (user_columns (col_defs stmt)) \<le> length (hd_columns ?hdr)" using len by (simp add: cs_def)
  from add_columns_with [OF this cols(2)] have add: "add_columns (with_columns ?hdr [id_column]) (col_defs stmt) = Some (with_columns ?hdr cs)"
    by (simp add: cs_def)
  have exec: "exec_create_table s stmt =
      Some (done_with (Table_created (table_name stmt) (word_of_nat (columns_size cs)) (word_of_nat (length cs))), ?s)"
    using N add_column_id [OF cols(3)] add L(1)
    by (simp add: exec_create_table_def Let_def) (simp add: created_header_def with_columns_def)
  have links: "same_links ?hdr ?h" by (simp add: same_links_def created_header_def with_columns_def)
  note K = set_hdr_keeps [OF links]
  have n: "unat (word_of_nat (length cs) :: u16) = length cs" using len cols by (simp add: unat_of_nat MAX_COLUMNS_def)
  have "unat (hd_row_size ?h) = columns_size cs" using small by (simp add: created_header_def unat_of_nat)
  moreover have "hd_columns ?h ! 0 = id_column" by (simp add: created_header_def cs_def layout_cols.simps Let_def split_beta id_column_def)
  moreover have "0 < hd_column_count ?h" using n by (simp add: created_header_def with_columns_def cs_def word_less_nat_alt del: of_nat_Suc)
  ultimately have ts: "table_schema ?s" using L(2) csize size(2) by (simp add: table_schema_def word_less_nat_alt)
  have "hd_row_count ?h = 0" using N by (simp add: created_header_def with_columns_def)
  moreover have "index_map t = Map.empty" using N by (simp add: fun_eq_iff)
  ultimately have "db_ok ?s fl chain 0 t" unfolding db_ok_def using N K ts by simp
  moreover have "table_of ?s chain t = Map.empty" using N by (simp add: table_of_def fun_eq_iff)
  ultimately show ?thesis using exec K(6) by (intro exI [of _ ?s]) simp
qed

end
