(* ===== verification/Range_Db.thy ===== *)
theory Range_Db
  imports Table_Db
begin

text \<open>
  \<open>WHERE id BETWEEN\<close> through the index: the references of the interval are collected in an array
  that doubles, then each row is read. For ids and bounds below \<open>2 ^ 63\<close> the result lists exactly the
  rows the predicate accepts, in increasing order of id.
\<close>

section \<open>Collecting references\<close>

definition gathered :: "row_ref list \<Rightarrow> range_collect \<Rightarrow> bool" where
  "gathered refs rc \<longleftrightarrow> rg_refs rc = refs \<and> \<not> rg_alloc_failed rc \<and> \<not> rg_overrun rc
     \<and> length refs \<le> unat (rg_cap rc) \<and> unat (rg_cap rc) \<le> 2 ^ 31"

lemma gathered_push:
  assumes "\<forall>n. fits n" "gathered refs rc" "length refs < 2 ^ 30"
  shows "\<exists>rc'. range_collect_cb fits limit key ref rc
      = (\<not> (limit \<noteq> 0 \<and> Suc (length refs) \<ge> unat limit), rc') \<and> gathered (refs @ [ref]) rc'"
proof -
  let ?full = "length refs \<ge> unat (rg_cap rc)" and ?ncap = "if rg_cap rc \<noteq> 0 then rg_cap rc * 2 else 256"
  let ?cap = "if ?full then ?ncap else rg_cap rc"
  have "unat (rg_cap rc * 2) = 2 * unat (rg_cap rc)" if ?full
    using that assms(3) by (simp add: unat_word_ariths)
  then have "Suc (length refs) \<le> unat ?cap \<and> unat ?cap \<le> 2 ^ 31"
    using assms(2,3) by (auto simp: gathered_def not_le unat_eq_0 unat_gt_0 Suc_le_eq)
  then show ?thesis using assms(1,2) by (auto simp: range_collect_cb_def Let_def gathered_def)
qed

lemma visit_gather:
  assumes f: "\<forall>n. fits n" and "gathered refs rc" "length refs + length es < 2 ^ 30" "limit \<noteq> 0 \<Longrightarrow> length refs < unat limit"
  defines "all \<equiv> refs @ map le_row_ref es"
  shows "gathered (if limit = 0 then all else take (unat limit) all) (visit_entries (range_collect_cb fits limit) rc es)"
  unfolding all_def
  using assms(2-4)
proof (induction es arbitrary: refs rc)
  case Nil
  then show ?case by auto
next
  case (Cons e es)
  have "length refs < 2 ^ 30" using Cons.prems(2) by simp
  from gathered_push [OF f Cons.prems(1) this, of limit "le_key e" "le_row_ref e"] obtain rc' where
    p: "range_collect_cb fits limit (le_key e) (le_row_ref e) rc = (\<not> (limit \<noteq> 0 \<and> Suc (length refs) \<ge> unat limit), rc')"
      "gathered (refs @ [le_row_ref e]) rc'" by blast
  show ?case
  proof (cases "limit \<noteq> 0 \<and> Suc (length refs) \<ge> unat limit")
    case True
    then have "unat limit = Suc (length refs)" using Cons.prems(3) by simp
    then show ?thesis using p True by simp
  next
    case False
    then show ?thesis using Cons.IH [OF p(2)] Cons.prems(2) p(1) by auto
  qed
qed

section \<open>Reading the rows\<close>

lemma emit_refs_reads:
  assumes f: "\<forall>n. fits n" and "emitted (st_hdr s) rows ctx" "length rows + length refs < 2 ^ 32"
    and "list_all2 (\<lambda>ref v. \<exists>row. heap_rows s rs chain ref = Some row \<and> row_deserialize (st_hdr s) row = Some v) refs vs"
  shows "\<exists>ctx'. emit_refs fits s refs ctx = Some ctx' \<and> emitted (st_hdr s) (rows @ vs) ctx'"
  using assms(2-4)
proof (induction refs arbitrary: rows ctx vs)
  case (Cons ref refs)
  from Cons.prems(3) obtain v vs' row where v: "vs = v # vs'" "heap_rows s rs chain ref = Some row"
    "row_deserialize (st_hdr s) row = Some v"
    and rest: "list_all2 (\<lambda>ref v. \<exists>row. heap_rows s rs chain ref = Some row \<and> row_deserialize (st_hdr s) row = Some v) refs vs'"
    by (auto simp: list_all2_Cons1)
  from heap_fetch_alive [OF v(2)] obtain p where p: "heap_fetch s ref = Some p" "take rs p = row" by blast
  have "row_deserialize (st_hdr s) p = Some v" using v(3) unfolding p(2) [symmetric] by (rule row_deserialize_take)
  then have "emit_refs fits s (ref # refs) ctx = emit_refs fits s refs (emit_row fits (st_hdr s) v ctx)"
    using p(1) by (auto simp: heap_fetch_def Let_def split: if_splits)
  moreover have "emitted (st_hdr s) (rows @ [v]) (emit_row fits (st_hdr s) v ctx)"
    using emit_row_emitted [OF f Cons.prems(1)] Cons.prems(2) by simp
  ultimately show ?case using Cons.IH [OF _ _ rest] Cons.prems(2) v(1) by fastforce
qed simp

section \<open>The interval\<close>

lemma sint_small: "y < 2 ^ 63 \<Longrightarrow> sint (y :: u64) = uint y"
proof -
  assume "y < 2 ^ 63"
  then have "uint y < 2 ^ 63" by (simp add: word_less_def)
  moreover have "- (2 ^ 63) \<le> uint y" by (rule order.trans [OF _ uint_ge_0]) simp
  ultimately show ?thesis unfolding sint_uint by (simp add: signed_take_bit_int_eq_self)
qed

text \<open>Below \<open>2 ^ 63\<close> the tree's unsigned comparison and the predicate's signed one agree.\<close>

lemma interval_predicate:
  assumes "predicate_kind stmt = PREDICATE_ID_RANGE" "values_id v < 2 ^ 63"
    and "has_lo stmt \<Longrightarrow> range_lo stmt < 2 ^ 63" "has_hi stmt \<Longrightarrow> range_hi stmt < 2 ^ 63"
  shows "match_predicate hdr v stmt \<longleftrightarrow> above_lo (has_lo stmt) (range_lo stmt) (lo_inclusive stmt) (values_id v)
     \<and> below_hi (has_hi stmt) (range_hi stmt) (hi_inclusive stmt) (values_id v)"
  using assms by (auto simp: match_predicate_def values_id_def [symmetric] Let_def above_lo_def below_hi_def
    sint_small word_less_def word_le_def)

definition lists_sorted :: "row_value list list \<Rightarrow> (u64 \<Rightarrow> row_value list option) \<Rightarrow> (row_value list \<Rightarrow> bool) \<Rightarrow> bool" where
  "lists_sorted rows tab P \<longleftrightarrow> sorted_wrt (<) (map values_id rows) \<and> set rows = {v \<in> ran tab. P v}"

lemma index_entries:
  assumes "index_tree s fl h t"
  shows "e \<in> set (entries t) \<longleftrightarrow> index_map t (le_key e) = Some (le_row_ref e)"
proof -
  have "distinct (map fst (map (\<lambda>e. (le_key e, le_row_ref e)) (entries t)))"
    using index_tree_sorted [OF assms] by (simp add: comp_def strict_sorted_iff)
  from map_of_eq_Some_iff [OF this, of "le_key e" "le_row_ref e"] show ?thesis
    by (auto simp: index_map_def) (metis leaf_entry.surjective old.unit.exhaust)
qed

lemma few_entries:
  assumes ok: "db_ok s fl chain h t"
  shows "length (entries t) \<le> unat (hd_next_id (st_hdr s))"
proof -
  let ?ks = "map le_key (entries t)"
  have d: "distinct ?ks" using index_tree_sorted [OF db_okD(3) [OF ok]] strict_sorted_iff by blast
  have "unat ` set ?ks \<subseteq> {..<unat (hd_next_id (st_hdr s))}"
  proof clarsimp
    fix e assume "e \<in> set (entries t)"
    then have "index_map t (le_key e) \<noteq> None" using index_entries [OF db_okD(3) [OF ok]] by simp
    from db_okD(8) [OF ok this] show "unat (le_key e) < unat (hd_next_id (st_hdr s))" by (simp add: word_less_nat_alt)
  qed
  from card_mono [OF _ this] have "card (unat ` set ?ks) \<le> unat (hd_next_id (st_hdr s))" by simp
  moreover have "card (unat ` set ?ks) = length ?ks"
    unfolding distinct_card [OF d, symmetric] by (rule card_image) (simp add: inj_on_def word_unat_eq_iff)
  ultimately show ?thesis by simp
qed

lemma entry_row:
  assumes ok: "db_ok s fl chain h t" and e: "e \<in> set (entries t)"
  shows "\<exists>v. table_of s chain t (le_key e) = Some v \<and> values_id v = le_key e
    \<and> (\<exists>row. heap_rows s (row_len s) chain (le_row_ref e) = Some row \<and> row_deserialize (st_hdr s) row = Some v)"
  using table_of_index(2) [OF ok, of "le_key e" "le_row_ref e"] e index_entries [OF db_okD(3) [OF ok]] by blast

lemma entry_rows_sorted:
  fixes P :: "u64 \<Rightarrow> bool"
  assumes ok: "db_ok s fl chain h t"
  defines "rows \<equiv> map (\<lambda>e. the (table_of s chain t (le_key e))) (filter (\<lambda>e. P (le_key e)) (entries t))"
  shows "lists_sorted rows (table_of s chain t) (\<lambda>v. P (values_id v))"
proof -
  let ?es = "filter (\<lambda>e. P (le_key e)) (entries t)"
  have v: "\<exists>v. table_of s chain t (le_key e) = Some v \<and> values_id v = le_key e" if "e \<in> set (entries t)" for e
    using entry_row [OF ok that] by blast
  have "map values_id rows = map le_key ?es" unfolding rows_def using v by fastforce
  moreover have "sorted_wrt (<) (map le_key ?es)"
    using index_tree_sorted [OF db_okD(3) [OF ok]] by (simp add: sorted_wrt_map sorted_wrt_filter)
  moreover have "set rows = {v \<in> ran (table_of s chain t). P (values_id v)}"
  proof (intro set_eqI iffI)
    fix x assume "x \<in> set rows"
    then show "x \<in> {v \<in> ran (table_of s chain t). P (values_id v)}" unfolding rows_def using v by (fastforce simp: ran_def)
  next
    fix x assume "x \<in> {v \<in> ran (table_of s chain t). P (values_id v)}"
    then obtain k where k: "table_of s chain t k = Some x" "P (values_id x)" by (auto simp: ran_def)
    then obtain ref where i: "index_map t k = Some ref" using table_of_index(1) [OF ok, of k] by auto
    then have "values_id x = k" using table_of_index(2) [OF ok i] k by auto
    moreover have "\<lparr>le_key = k, le_row_ref = ref\<rparr> \<in> set (entries t)" using index_entries [OF db_okD(3) [OF ok]] i by simp
    ultimately show "x \<in> set rows" unfolding rows_def using k by (force intro: rev_image_eqI)
  qed
  ultimately show ?thesis by (simp add: lists_sorted_def)
qed

lemma lists_sorted_cong:
  "(\<And>v. v \<in> ran tab \<Longrightarrow> P v = Q v) \<Longrightarrow> lists_sorted rows tab P = lists_sorted rows tab Q"
  by (auto simp: lists_sorted_def)

lemma range_scan_rows:
  assumes ok: "db_ok s fl chain h t" and f: "\<forall>n. fits n" and small: "hd_next_id (st_hdr s) < 2 ^ 30"
    and nz: "\<not> (has_limit stmt \<and> limit_count stmt = 0)"
  defines "inside \<equiv> \<lambda>k. above_lo (has_lo stmt) (range_lo stmt) (lo_inclusive stmt) k
     \<and> below_hi (has_hi stmt) (range_hi stmt) (hi_inclusive stmt) k"
  defines "rows \<equiv> map (\<lambda>e. the (table_of s chain t (le_key e))) (filter (\<lambda>e. inside (le_key e)) (entries t))"
  shows "exec_index_range_scan fits s stmt = Some (rows_result (st_hdr s) Rows_found_range (limited stmt rows))"
proof -
  let ?es = "filter (\<lambda>e. inside (le_key e)) (entries t)" and ?limit = "if has_limit stmt then limit_count stmt else 0"
  let ?rc0 = "\<lparr>rg_refs = [], rg_cap = 0, rg_alloc_failed = False, rg_overrun = False\<rparr>"
  have len: "length ?es < 2 ^ 30"
  proof -
    have "unat (hd_next_id (st_hdr s)) < 2 ^ 30" using small by (simp add: word_less_nat_alt)
    then show ?thesis using few_entries [OF ok] le_trans [OF length_filter_le] le_less_trans by blast
  qed
  have "gathered [] ?rc0" by (simp add: gathered_def)
  note G = visit_gather [OF f this, of ?es ?limit]
  define rc where "rc = visit_entries (range_collect_cb fits ?limit) ?rc0 ?es"
  have "has_limit stmt \<Longrightarrow> 0 < unat (limit_count stmt)" using nz by (simp add: unat_gt_0)
  then have g: "gathered (limited stmt (map le_row_ref ?es)) rc"
    using G len nz unfolding rc_def limited_def by (cases "has_limit stmt") simp_all
  have scan: "bptree_range_scan s (has_lo stmt) (range_lo stmt) (lo_inclusive stmt) (has_hi stmt) (range_hi stmt)
      (hi_inclusive stmt) (range_collect_cb fits ?limit) ?rc0 = Some rc"
    unfolding bptree_range_scan_correct [OF db_okD(3) [OF ok]] rc_def inside_def ..
  let ?Q = "\<lambda>ref v. \<exists>row. heap_rows s (row_len s) chain ref = Some row \<and> row_deserialize (st_hdr s) row = Some v"
  have "list_all2 ?Q (map le_row_ref ?es) rows"
    unfolding rows_def list_all2_map1 list_all2_map2
  proof (rule list.rel_refl_strong)
    fix e assume "e \<in> set ?es"
    then have "e \<in> set (entries t)" by simp
    from entry_row [OF ok this] show "?Q (le_row_ref e) (the (table_of s chain t (le_key e)))" by auto
  qed
  then have q: "list_all2 ?Q (limited stmt (map le_row_ref ?es)) (limited stmt rows)"
    by (auto simp: limited_def intro: list_all2_takeI)
  have ll: "length (limited stmt (map le_row_ref ?es)) < 2 ^ 32" "length (limited stmt rows) < 2 ^ 32"
    using len by (auto simp: limited_def rows_def min_def)
  have "emitted (st_hdr s) [] (0, buf_init fits)" using buf_init_holds [OF f] by (simp add: emitted_def)
  from emit_refs_reads [OF f this _ q] ll(1) obtain ctx where
    c: "emit_refs fits s (limited stmt (map le_row_ref ?es)) (0, buf_init fits) = Some ctx" "emitted (st_hdr s) (limited stmt rows) ctx"
    by auto
  have "\<not> rg_overrun rc" "\<not> rg_alloc_failed rc" "rg_refs rc = limited stmt (map le_row_ref ?es)" using g by (simp_all add: gathered_def)
  then show ?thesis
    unfolding exec_index_range_scan_def scan if_not_P [OF nz] using c(1) emitted_result [OF c(2) ll(2), of Rows_found_range] by simp
qed

theorem exec_index_range_scan_correct:
  assumes ok: "db_ok s fl chain h t" and f: "\<forall>n. fits n" and small: "hd_next_id (st_hdr s) < 2 ^ 30"
    and st: "predicate_kind stmt = PREDICATE_ID_RANGE"
      "has_lo stmt \<Longrightarrow> range_lo stmt < 2 ^ 63" "has_hi stmt \<Longrightarrow> range_hi stmt < 2 ^ 63"
  shows "\<exists>rows. exec_index_range_scan fits s stmt = Some (rows_result (st_hdr s) Rows_found_range (limited stmt rows))
    \<and> lists_sorted rows (table_of s chain t) (\<lambda>v. match_predicate (st_hdr s) v stmt)"
proof -
  let ?inside = "\<lambda>k. above_lo (has_lo stmt) (range_lo stmt) (lo_inclusive stmt) k
     \<and> below_hi (has_hi stmt) (range_hi stmt) (hi_inclusive stmt) k"
  let ?rows = "map (\<lambda>e. the (table_of s chain t (le_key e))) (filter (\<lambda>e. ?inside (le_key e)) (entries t))"
  have "?inside (values_id v) = match_predicate (st_hdr s) v stmt" if "v \<in> ran (table_of s chain t)" for v
  proof -
    from that obtain k where k: "table_of s chain t k = Some v" by (auto simp: ran_def)
    then obtain ref where "index_map t k = Some ref" using table_of_index(1) [OF ok, of k] by auto
    with k have "values_id v = k" "k < hd_next_id (st_hdr s)"
      using table_of_index(2) [OF ok, of k ref] db_okD(8) [OF ok, of k] by auto
    then have "values_id v < 2 ^ 63" using small by (simp add: word_less_nat_alt)
    from interval_predicate [OF st(1) this st(2,3)] show ?thesis by simp
  qed
  then have "lists_sorted ?rows (table_of s chain t) (\<lambda>v. ?inside (values_id v))
      = lists_sorted ?rows (table_of s chain t) (\<lambda>v. match_predicate (st_hdr s) v stmt)" by (rule lists_sorted_cong)
  with entry_rows_sorted [OF ok, of ?inside]
  have sorted: "lists_sorted ?rows (table_of s chain t) (\<lambda>v. match_predicate (st_hdr s) v stmt)" by (rule rev_iffD1)
  show ?thesis
  proof (cases "has_limit stmt \<and> limit_count stmt = 0")
    case True
    then have "exec_index_range_scan fits s stmt = Some (rows_result (st_hdr s) Rows_found_range (limited stmt ?rows))"
      by (simp add: exec_index_range_scan_def limited_def rows_result_def done_with_def)
    then show ?thesis using sorted by blast
  next
    case False
    from range_scan_rows [OF ok f small this] sorted show ?thesis by blast
  qed
qed

text \<open>
  A negative lower bound accepts every row, and the index scan, which compares unsigned, finds none.
\<close>

theorem negative_bound_hides_rows:
  assumes ok: "db_ok s fl chain h t" and f: "\<forall>n. fits n" and small: "hd_next_id (st_hdr s) < 2 ^ 30"
    and st: "predicate_kind stmt = PREDICATE_ID_RANGE" "has_lo stmt" "\<not> has_hi stmt" "\<not> has_limit stmt"
      "sint (range_lo stmt) < 0"
  shows "exec_index_range_scan fits s stmt = Some (done_with (Rows_found_range 0))
    \<and> (\<forall>v \<in> ran (table_of s chain t). match_predicate (st_hdr s) v stmt)"
proof
  have big: "\<not> range_lo stmt < 2 ^ 63" using st(5) sint_small [of "range_lo stmt"] by (metis not_le uint_ge_0)
  have id: "k < 2 ^ 30" if "index_map t k \<noteq> None" for k using db_okD(8) [OF ok that] small by (rule less_trans)
  have "\<not> above_lo (has_lo stmt) (range_lo stmt) (lo_inclusive stmt) (le_key e)" if "e \<in> set (entries t)" for e
  proof -
    have "le_key e < 2 ^ 30" using that index_entries [OF db_okD(3) [OF ok]] id by simp
    then have "le_key e < range_lo stmt" using big by (simp add: word_less_nat_alt)
    then show ?thesis using st(2) by (auto simp: above_lo_def not_le dest: less_asym)
  qed
  then show "exec_index_range_scan fits s stmt = Some (done_with (Rows_found_range 0))"
    using range_scan_rows [OF ok f small] st(4) by (simp add: rows_result_def done_with_def limited_def cong: filter_cong)
  show "\<forall>v \<in> ran (table_of s chain t). match_predicate (st_hdr s) v stmt"
  proof
    fix v assume "v \<in> ran (table_of s chain t)"
    then obtain k where k: "table_of s chain t k = Some v" by (auto simp: ran_def)
    then obtain ref where "index_map t k = Some ref" using table_of_index(1) [OF ok, of k] by auto
    with k have "values_id v = k" "k < 2 ^ 30" using table_of_index(2) [OF ok, of k ref] id [of k] by auto
    then have "0 \<le> sint (values_id v)" using sint_small [of k] by (simp add: word_less_nat_alt)
    then show "match_predicate (st_hdr s) v stmt"
      using st by (auto simp: match_predicate_def values_id_def [symmetric])
  qed
qed

end
