(* ===== verification/Sort_Correct.thy ===== *)
theory Sort_Correct
  imports Exec_Sort "HOL-Library.Multiset"
begin

text \<open>
  Quicksort and the bounded heap are correct for every comparison that is a total preorder
  (\<open>row_order\<close>); \<open>compare_row_values\<close> is one for every column and direction.
\<close>

section \<open>Lists cut into segments\<close>

definition same_outside :: "int \<Rightarrow> int \<Rightarrow> 'r list \<Rightarrow> 'r list \<Rightarrow> bool" where
  "same_outside l r xs ys \<longleftrightarrow> length ys = length xs \<and> mset ys = mset xs
     \<and> (\<forall>k. 0 \<le> k \<and> k < int (length xs) \<and> (k < l \<or> r < k) \<longrightarrow> ys ! nat k = xs ! nat k)"

lemma same_outside_refl: "same_outside l r xs xs"
  by (simp add: same_outside_def)

lemma same_outside_trans:
  "same_outside l r xs ys \<Longrightarrow> same_outside l r ys zs \<Longrightarrow> same_outside l r xs zs"
  by (simp add: same_outside_def)

lemma same_outside_mono:
  "same_outside l r xs ys \<Longrightarrow> l' \<le> l \<Longrightarrow> r \<le> r' \<Longrightarrow> same_outside l' r' xs ys"
  by (auto simp: same_outside_def)

lemma segment_mset:
  assumes "l \<le> r" "r \<le> length xs" "length ys = length xs" "mset ys = mset xs"
    and "\<And>k. k < length xs \<Longrightarrow> k < l \<or> r \<le> k \<Longrightarrow> ys ! k = xs ! k"
  shows "mset (take (r - l) (drop l ys)) = mset (take (r - l) (drop l xs))"
proof -
  have split: "mset zs = mset (take l zs) + mset (take (r - l) (drop l zs)) + mset (drop r zs)"
    if "r \<le> length zs" for zs :: "'a list"
  proof -
    have "zs = take l zs @ take (r - l) (drop l zs) @ drop (r - l) (drop l zs)"
      by (metis append_take_drop_id)
    moreover have "drop (r - l) (drop l zs) = drop r zs" using assms(1) by simp
    ultimately show ?thesis by (metis mset_append add.assoc)
  qed
  have "take l ys = take l xs" using assms by (intro nth_equalityI) auto
  moreover have "drop r ys = drop r xs" using assms by (intro nth_equalityI) auto
  ultimately show ?thesis using split [of ys] split [of xs] assms(2,3,4) by simp
qed

text \<open>Elements of a rearranged segment come from that segment.\<close>

lemma same_outside_source:
  assumes "same_outside l r xs ys" "0 \<le> l" "r < int (length xs)" "l \<le> k" "k \<le> r"
  obtains m where "l \<le> m" "m \<le> r" "ys ! nat k = xs ! nat m"
proof -
  let ?l = "nat l" and ?r = "nat (r + 1)"
  have "mset (take (?r - ?l) (drop ?l ys)) = mset (take (?r - ?l) (drop ?l xs))"
  proof (rule segment_mset)
    show "?l \<le> ?r" "?r \<le> length xs" "length ys = length xs" "mset ys = mset xs"
      using assms by (auto simp: same_outside_def)
    fix k assume "k < length xs" "k < ?l \<or> ?r \<le> k"
    then have "0 \<le> int k \<and> int k < int (length xs) \<and> (int k < l \<or> r < int k)" using assms(2) by auto
    then have "ys ! nat (int k) = xs ! nat (int k)" using assms(1) unfolding same_outside_def by blast
    then show "ys ! k = xs ! k" by simp
  qed
  then have s: "set (take (?r - ?l) (drop ?l ys)) = set (take (?r - ?l) (drop ?l xs))" by (metis set_mset_mset)
  have len: "length ys = length xs" using assms(1) by (simp add: same_outside_def)
  have "ys ! nat k = take (?r - ?l) (drop ?l ys) ! (nat k - ?l)" using assms len by simp
  moreover have "nat k - ?l < length (take (?r - ?l) (drop ?l ys))" using assms len by simp
  ultimately have "ys ! nat k \<in> set (take (?r - ?l) (drop ?l xs))" using s by (metis nth_mem)
  then obtain i where i: "i < length (take (?r - ?l) (drop ?l xs))" "take (?r - ?l) (drop ?l xs) ! i = ys ! nat k"
    by (metis in_set_conv_nth)
  show thesis
    by (rule that [of "int (?l + i)"]) (use i assms in \<open>auto simp: nat_add_distrib\<close>)
qed

lemma swap_same_outside:
  assumes "l \<le> a" "b \<le> r" "0 \<le> l" "r < int (length xs)" "a \<le> b"
  shows "same_outside l r xs (swap_row_blocks xs (nat a) (nat b))"
  using assms unfolding same_outside_def swap_row_blocks_def
  by (auto simp: nth_list_update mset_swap)

lemma swap_nth:
  assumes "0 \<le> k" "k < int (length xs)" "0 \<le> a" "a < int (length xs)" "0 \<le> b" "b < int (length xs)"
  shows "swap_row_blocks xs (nat a) (nat b) ! nat k =
    (if k = a then xs ! nat b else if k = b then xs ! nat a else xs ! nat k)"
  using assms by (auto simp: swap_row_blocks_def nth_list_update)

section \<open>Comparisons\<close>

locale row_order =
  fixes cmp :: "'r \<Rightarrow> 'r \<Rightarrow> int"
  assumes swap_sign: "cmp x y < 0 \<longleftrightarrow> 0 < cmp y x"
    and le_trans: "cmp x y \<le> 0 \<Longrightarrow> cmp y z \<le> 0 \<Longrightarrow> cmp x z \<le> 0"
begin

lemma ge_iff_le: "0 \<le> cmp x y \<longleftrightarrow> cmp y x \<le> 0"
  using swap_sign [of x y] by linarith

lemma cmp_refl: "cmp x x \<le> 0"
  using swap_sign [of x x] by linarith

lemma not_less_le: "\<not> cmp x y < 0 \<Longrightarrow> cmp y x \<le> 0" "\<not> 0 < cmp x y \<Longrightarrow> cmp x y \<le> 0"
  using ge_iff_le [of x y] by linarith+

lemma scan_up_stops:
  assumes "0 \<le> i" "i \<le> m" "m < int (length rows)" "\<not> cmp (rows ! nat m) p < 0"
  obtains i' where "scan_up cmp p rows i = Some i'" "i \<le> i'" "i' \<le> m" "\<not> cmp (rows ! nat i') p < 0"
    "\<And>k. i \<le> k \<Longrightarrow> k < i' \<Longrightarrow> cmp (rows ! nat k) p < 0"
proof -
  let ?P = "\<lambda>r. cmp r p < 0" and ?xs = "drop (nat i) rows"
  let ?n = "length (takeWhile ?P ?xs)"
  have at: "?xs ! k = rows ! nat (i + int k)" if "k \<le> nat (m - i)" for k
    using that assms by (simp add: nat_add_distrib)
  have len: "nat (m - i) < length ?xs" using assms by simp
  have n: "?n \<le> nat (m - i)"
  proof (rule ccontr)
    assume "\<not> ?n \<le> nat (m - i)"
    then have "nat (m - i) < ?n" by simp
    then have "?P (?xs ! nat (m - i))" by (metis nth_mem set_takeWhileD takeWhile_nth)
    then show False using at [of "nat (m - i)"] assms by simp
  qed
  then have "\<not> ?P (?xs ! ?n)" using len by (intro nth_length_takeWhile) linarith
  moreover have "?P (rows ! nat k)" if "i \<le> k" "k < i + int ?n" for k
  proof -
    have "nat (k - i) < ?n" using that by linarith
    then have "?P (?xs ! nat (k - i))" by (metis nth_mem set_takeWhileD takeWhile_nth)
    moreover have "?xs ! nat (k - i) = rows ! nat k" using at [of "nat (k - i)"] that n by simp
    ultimately show ?thesis by simp
  qed
  moreover have "i + int ?n \<le> m" using n assms(2) by linarith
  moreover have "?xs ! ?n = rows ! nat (i + int ?n)" by (rule at [OF n])
  ultimately show thesis
    using assms by (intro that [of "i + int ?n"]) (auto simp: scan_up_def)
qed

lemma scan_down_stops:
  assumes "0 \<le> m" "m \<le> j" "j < int (length rows)" "\<not> 0 < cmp (rows ! nat m) p"
  obtains j' where "scan_down cmp p rows j = Some j'" "m \<le> j'" "j' \<le> j" "\<not> 0 < cmp (rows ! nat j') p"
    "\<And>k. j' < k \<Longrightarrow> k \<le> j \<Longrightarrow> 0 < cmp (rows ! nat k) p"
proof -
  let ?P = "\<lambda>r. 0 < cmp r p" and ?xs = "rev (take (nat (j + 1)) rows)"
  let ?n = "length (takeWhile ?P ?xs)"
  have at: "?xs ! k = rows ! nat (j - int k)" if "k \<le> nat (j - m)" for k
  proof -
    have l: "length (take (nat (j + 1)) rows) = nat (j + 1)" using assms by simp
    have "k < length (take (nat (j + 1)) rows)" using l that assms by linarith
    from rev_nth [OF this] have "?xs ! k = take (nat (j + 1)) rows ! (nat (j + 1) - Suc k)" unfolding l .
    moreover have "nat (j + 1) - Suc k = nat (j - int k)" using that assms by linarith
    ultimately show ?thesis using assms by simp
  qed
  have len: "nat (j - m) < length ?xs" using assms by simp
  have n: "?n \<le> nat (j - m)"
  proof (rule ccontr)
    assume "\<not> ?n \<le> nat (j - m)"
    then have "nat (j - m) < ?n" by simp
    then have "?P (?xs ! nat (j - m))" by (metis nth_mem set_takeWhileD takeWhile_nth)
    then show False using at [of "nat (j - m)"] assms by simp
  qed
  then have "\<not> ?P (?xs ! ?n)" using len by (intro nth_length_takeWhile) linarith
  moreover have "?P (rows ! nat k)" if "j - int ?n < k" "k \<le> j" for k
  proof -
    have "nat (j - k) < ?n" using that by linarith
    then have "?P (?xs ! nat (j - k))" by (metis nth_mem set_takeWhileD takeWhile_nth)
    moreover have "?xs ! nat (j - k) = rows ! nat k" using at [of "nat (j - k)"] that n by simp
    ultimately show ?thesis by simp
  qed
  moreover have "m \<le> j - int ?n" using n assms(2) by linarith
  moreover have "?xs ! ?n = rows ! nat (j - int ?n)" by (rule at [OF n])
  ultimately show thesis
    using assms by (intro that [of "j - int ?n"]) (auto simp: scan_down_def)
qed

text \<open>
  What the partition loop keeps: below \<open>i\<close> nothing exceeds the pivot, above \<open>j\<close> nothing is below
  it, and while the loop goes on both inner loops have an element to stop at.
\<close>

definition part_inv :: "'r \<Rightarrow> int \<Rightarrow> int \<Rightarrow> 'r list \<Rightarrow> int \<Rightarrow> int \<Rightarrow> bool" where
  "part_inv p l r rows i j \<longleftrightarrow> l \<le> i \<and> j \<le> r \<and> i \<le> r + 1 \<and> l \<le> j + 1
     \<and> (\<forall>k. l \<le> k \<and> k < i \<longrightarrow> cmp (rows ! nat k) p \<le> 0)
     \<and> (\<forall>k. j < k \<and> k \<le> r \<longrightarrow> 0 \<le> cmp (rows ! nat k) p)"

definition sentinels :: "'r \<Rightarrow> int \<Rightarrow> int \<Rightarrow> 'r list \<Rightarrow> int \<Rightarrow> int \<Rightarrow> bool" where
  "sentinels p l r rows i j \<longleftrightarrow> (\<exists>m. i \<le> m \<and> m \<le> r \<and> \<not> cmp (rows ! nat m) p < 0)
     \<and> (\<exists>m. l \<le> m \<and> m \<le> j \<and> \<not> 0 < cmp (rows ! nat m) p)"

lemma partition_round:
  assumes "part_inv p l r rows i j" "sentinels p l r rows i j" "0 \<le> l" "r < int (length rows)" "i \<le> j"
  obtains i' j' where "scan_up cmp p rows i = Some i'" "scan_down cmp p rows j = Some j'"
    "part_inv p l r rows i' j'" "i \<le> i'" "j' \<le> j" "l \<le> j'" "i' \<le> r"
    "\<not> cmp (rows ! nat i') p < 0" "\<not> 0 < cmp (rows ! nat j') p"
    "\<And>m. i \<le> m \<Longrightarrow> m \<le> j \<Longrightarrow> cmp (rows ! nat m) p = 0 \<Longrightarrow> i' \<le> m \<and> m \<le> j'"
proof -
  from assms(2) obtain u v where u: "i \<le> u" "u \<le> r" "\<not> cmp (rows ! nat u) p < 0"
    and v: "l \<le> v" "v \<le> j" "\<not> 0 < cmp (rows ! nat v) p" by (auto simp: sentinels_def)
  have inv: "l \<le> i" "j \<le> r" using assms(1) by (simp_all add: part_inv_def)
  obtain i' where i': "scan_up cmp p rows i = Some i'" "i \<le> i'" "i' \<le> u" "\<not> cmp (rows ! nat i') p < 0"
    "\<And>k. i \<le> k \<Longrightarrow> k < i' \<Longrightarrow> cmp (rows ! nat k) p < 0"
    by (rule scan_up_stops [of i u rows p]) (use u assms(3,4) inv in auto)
  obtain j' where j': "scan_down cmp p rows j = Some j'" "v \<le> j'" "j' \<le> j" "\<not> 0 < cmp (rows ! nat j') p"
    "\<And>k. j' < k \<Longrightarrow> k \<le> j \<Longrightarrow> 0 < cmp (rows ! nat k) p"
    by (rule scan_down_stops [of v j rows p]) (use v assms(3,4) inv in auto)
  show thesis
  proof (rule that [OF i'(1) j'(1)])
    show "part_inv p l r rows i' j'"
      unfolding part_inv_def
    proof (intro conjI allI impI)
      fix k assume "l \<le> k \<and> k < i'"
      then show "cmp (rows ! nat k) p \<le> 0"
        using assms(1) i'(5) [of k] unfolding part_inv_def by (cases "k < i") auto
    next
      fix k assume "j' < k \<and> k \<le> r"
      then show "0 \<le> cmp (rows ! nat k) p"
        using assms(1) j'(5) [of k] unfolding part_inv_def by (cases "j < k") auto
    qed (use inv i' j' u v in linarith)+
    fix m assume m: "i \<le> m" "m \<le> j" "cmp (rows ! nat m) p = 0"
    show "i' \<le> m \<and> m \<le> j'" using i'(5) [OF m(1)] j'(5) [OF _ m(2)] m(3) by linarith
  qed (use i' j' u v in linarith)+
qed

lemma partition_swap:
  assumes "part_inv p l r rows i j" "0 \<le> l" "r < int (length rows)" "i \<le> j" "l \<le> j" "i \<le> r"
    "\<not> cmp (rows ! nat i) p < 0" "\<not> 0 < cmp (rows ! nat j) p"
  defines "rows' \<equiv> swap_row_blocks rows (nat i) (nat j)"
  shows "part_inv p l r rows' (i + 1) (j - 1)" "i + 1 \<le> j - 1 \<Longrightarrow> sentinels p l r rows' (i + 1) (j - 1)"
    "same_outside l r rows rows'"
proof -
  have inv: "l \<le> i" "j \<le> r" using assms(1) by (simp_all add: part_inv_def)
  have at: "rows' ! nat k = (if k = i then rows ! nat j else if k = j then rows ! nat i else rows ! nat k)"
    if "0 \<le> k" "k \<le> r" for k
    unfolding rows'_def by (rule swap_nth) (use that assms inv in auto)
  show "same_outside l r rows rows'"
    unfolding rows'_def by (rule swap_same_outside) (use assms inv in auto)
  show "part_inv p l r rows' (i + 1) (j - 1)"
    unfolding part_inv_def
  proof (intro conjI allI impI)
    fix k assume k: "l \<le> k \<and> k < i + 1"
    then have "0 \<le> k" "k \<le> r" using assms(2,6) by auto
    then show "cmp (rows' ! nat k) p \<le> 0"
      using at [of k] k assms(1,4,8) unfolding part_inv_def by (cases "k = i") auto
  next
    fix k assume k: "j - 1 < k \<and> k \<le> r"
    then have "0 \<le> k" "k \<le> r" using assms(2,5) by auto
    then show "0 \<le> cmp (rows' ! nat k) p"
      using at [of k] k assms(1,4,7,8) unfolding part_inv_def by (cases "k = j") auto
  qed (use inv assms in linarith)+
  show "sentinels p l r rows' (i + 1) (j - 1)" if "i + 1 \<le> j - 1"
    unfolding sentinels_def
  proof (intro conjI exI)
    show "\<not> cmp (rows' ! nat j) p < 0" "\<not> 0 < cmp (rows' ! nat i) p"
      using at [of j] at [of i] assms inv that by auto
  qed (use inv assms that in linarith)+
qed

lemma partition_ok:
  assumes "part_inv p l r rows i j" "i \<le> j \<longrightarrow> sentinels p l r rows i j" "0 \<le> l" "r < int (length rows)"
  shows "\<exists>rows' i' j'. partition_blocks cmp p rows i j = Some (rows', i', j') \<and> j' < i' \<and> i \<le> i' \<and> j' \<le> j
    \<and> part_inv p l r rows' i' j' \<and> same_outside l r rows rows'"
  using assms
proof (induction "nat (j - i + 1)" arbitrary: rows i j rule: less_induct)
  case less
  show ?case
  proof (cases "i \<le> j")
    case False
    then show ?thesis using less.prems by (simp add: partition_blocks.simps [of cmp p rows i j] same_outside_refl)
  next
    case True
    with less.prems obtain i' j' where r: "scan_up cmp p rows i = Some i'" "scan_down cmp p rows j = Some j'"
      "part_inv p l r rows i' j'" "i \<le> i'" "j' \<le> j" "l \<le> j'" "i' \<le> r"
      "\<not> cmp (rows ! nat i') p < 0" "\<not> 0 < cmp (rows ! nat j') p"
      using partition_round by metis
    show ?thesis
    proof (cases "i' \<le> j'")
      case False
      then show ?thesis using r True by (simp add: partition_blocks.simps [of cmp p rows i j] same_outside_refl)
    next
      case le: True
      let ?rows = "swap_row_blocks rows (nat i') (nat j')"
      note s = partition_swap [OF r(3) less.prems(3,4) le r(6,7,8,9)]
      have "nat ((j' - 1) - (i' + 1) + 1) < nat (j - i + 1)" using r(4,5) le True by linarith
      from less.hyps [OF this s(1)] s(2) less.prems(3,4) obtain rows' i'' j'' where
        q: "partition_blocks cmp p ?rows (i' + 1) (j' - 1) = Some (rows', i'', j'')" "j'' < i''" "i' + 1 \<le> i''"
          "j'' \<le> j' - 1" "part_inv p l r rows' i'' j''" "same_outside l r ?rows rows'" by auto
      have "same_outside l r rows rows'" by (rule same_outside_trans [OF s(3) q(6)])
      then show ?thesis using q r True le by (simp add: partition_blocks.simps [of cmp p rows i j])
    qed
  qed
qed

text \<open>The first round always swaps, so both parts are smaller than the segment.\<close>

lemma partition_first:
  assumes "0 \<le> l" "l \<le> r" "r < int (length rows)" "p = rows ! nat ((l + r) div 2)"
  shows "\<exists>rows' i j. partition_blocks cmp p rows l r = Some (rows', i, j) \<and> j < i \<and> l < i \<and> j < r
    \<and> part_inv p l r rows' i j \<and> same_outside l r rows rows'"
proof -
  let ?m = "(l + r) div 2"
  have m: "l \<le> ?m" "?m \<le> r" using assms(2) by linarith+
  have z: "cmp (rows ! nat ?m) p = 0" using cmp_refl [of p] swap_sign [of p p] unfolding assms(4) by linarith
  have inv: "part_inv p l r rows l r" using assms(2) by (simp add: part_inv_def)
  have sent: "sentinels p l r rows l r" using m z unfolding sentinels_def by (metis order.irrefl)
  from partition_round [OF inv sent assms(1,3,2)] obtain i' j' where
    r: "scan_up cmp p rows l = Some i'" "scan_down cmp p rows r = Some j'"
      "part_inv p l r rows i' j'" "l \<le> i'" "j' \<le> r" "l \<le> j'" "i' \<le> r"
      "\<not> cmp (rows ! nat i') p < 0" "\<not> 0 < cmp (rows ! nat j') p"
    and mid: "\<And>m. l \<le> m \<Longrightarrow> m \<le> r \<Longrightarrow> cmp (rows ! nat m) p = 0 \<Longrightarrow> i' \<le> m \<and> m \<le> j'" by metis
  have le: "i' \<le> j'" using mid [OF m z] by linarith
  let ?rows = "swap_row_blocks rows (nat i') (nat j')"
  note s = partition_swap [OF r(3) assms(1,3) le r(6,7,8,9)]
  have "r < int (length ?rows)" using assms(3) by simp
  from partition_ok [OF s(1) _ assms(1) this] s(2) obtain rows' i'' j'' where
    q: "partition_blocks cmp p ?rows (i' + 1) (j' - 1) = Some (rows', i'', j'')" "j'' < i''" "i' + 1 \<le> i''"
      "j'' \<le> j' - 1" "part_inv p l r rows' i'' j''" "same_outside l r ?rows rows'" by auto
  have "same_outside l r rows rows'" by (rule same_outside_trans [OF s(3) q(6)])
  then show ?thesis using q r le assms(2) by (simp add: partition_blocks.simps [of cmp p rows l r])
qed

definition sorted_seg :: "int \<Rightarrow> int \<Rightarrow> 'r list \<Rightarrow> bool" where
  "sorted_seg l r rows \<longleftrightarrow> (\<forall>a b. l \<le> a \<and> a \<le> b \<and> b \<le> r \<longrightarrow> cmp (rows ! nat a) (rows ! nat b) \<le> 0)"

lemma sorted_seg_keep:
  assumes "sorted_seg l r rows" "same_outside l' r' rows rows'" "r < l'" "0 \<le> l" "r < int (length rows)"
  shows "sorted_seg l r rows'"
  using assms unfolding sorted_seg_def same_outside_def by fastforce

lemma sorted_seg_join:
  assumes "sorted_seg l j rows" "sorted_seg i r rows" "j < i"
    and "\<And>k. l \<le> k \<Longrightarrow> k < i \<Longrightarrow> cmp (rows ! nat k) p \<le> 0"
    and "\<And>k. j < k \<Longrightarrow> k \<le> r \<Longrightarrow> cmp p (rows ! nat k) \<le> 0"
  shows "sorted_seg l r rows"
  unfolding sorted_seg_def
proof (intro allI impI)
  fix a b assume ab: "l \<le> a \<and> a \<le> b \<and> b \<le> r"
  consider "b \<le> j" | "i \<le> a" | "j < b" "a < i" by linarith
  then show "cmp (rows ! nat a) (rows ! nat b) \<le> 0"
  proof cases
    case 1 then show ?thesis using assms(1) ab by (simp add: sorted_seg_def)
  next
    case 2 then show ?thesis using assms(2) ab by (simp add: sorted_seg_def)
  next
    case 3 then show ?thesis using le_trans assms(4) [of a] assms(5) [of b] ab by blast
  qed
qed

text \<open>A bound on a whole segment survives rearranging it or another one.\<close>

lemma segment_bound:
  assumes "same_outside l' r' rows rows'" "0 \<le> l'" "r' < int (length rows)" "0 \<le> l" "r < int (length rows)"
    and "\<And>k. l \<le> k \<Longrightarrow> k \<le> r \<Longrightarrow> P (rows ! nat k)" "l \<le> l'" "r' \<le> r" "l \<le> k" "k \<le> r"
  shows "P (rows' ! nat k)"
proof (cases "l' \<le> k \<and> k \<le> r'")
  case True
  then obtain m where "l' \<le> m" "m \<le> r'" "rows' ! nat k = rows ! nat m"
    using same_outside_source [OF assms(1,2,3)] by metis
  then show ?thesis using assms(6) [of m] assms(7,8) by simp
next
  case False
  then have "rows' ! nat k = rows ! nat k" using assms unfolding same_outside_def by auto
  then show ?thesis using assms(6,9,10) by simp
qed

lemma segment_bound_keep:
  assumes "same_outside l' r' rows rows'" "0 \<le> l" "r < int (length rows)"
    and "\<And>k. l \<le> k \<Longrightarrow> k \<le> r \<Longrightarrow> P (rows ! nat k)" "r < l' \<or> r' < l" "l \<le> k" "k \<le> r"
  shows "P (rows' ! nat k)"
proof -
  have "rows' ! nat k = rows ! nat k" using assms unfolding same_outside_def by auto
  then show ?thesis using assms(4,6,7) by simp
qed

lemma quicksort_ok:
  assumes "0 \<le> l" "l \<le> r" "r < int (length rows)"
  shows "\<exists>rows'. quicksort_row_blocks cmp rows l r = Some rows' \<and> same_outside l r rows rows' \<and> sorted_seg l r rows'"
  using assms
proof (induction "nat (r - l)" arbitrary: l r rows rule: less_induct)
  case less
  let ?p = "rows ! nat ((l + r) div 2)"
  from partition_first [OF less.prems refl] obtain rows1 i j where
    p: "partition_blocks cmp ?p rows l r = Some (rows1, i, j)" "j < i" "l < i" "j < r"
      "part_inv ?p l r rows1 i j" "same_outside l r rows rows1" by blast
  have len1: "length rows1 = length rows" using p(6) by (simp add: same_outside_def)
  have lo1: "cmp (rows1 ! nat k) ?p \<le> 0" if "l \<le> k" "k \<le> i - 1" for k
    using p(5) that by (simp add: part_inv_def)
  have hi1: "cmp ?p (rows1 ! nat k) \<le> 0" if "j + 1 \<le> k" "k \<le> r" for k
    using p(5) that ge_iff_le by (simp add: part_inv_def)
  have bnd: "i \<le> r + 1" "l \<le> j + 1" using p(5) by (simp_all add: part_inv_def)
  obtain rows2 where q2: "(if l < j then quicksort_row_blocks cmp rows1 l j else Some rows1) = Some rows2"
      "same_outside l j rows1 rows2" "sorted_seg l j rows2"
  proof (cases "l < j")
    case True
    with less.hyps [of j l rows1] less.prems p(4) len1 that show thesis by auto
  next
    case False
    then have "sorted_seg l j rows1" using cmp_refl unfolding sorted_seg_def by (metis order.trans order_antisym linorder_not_less)
    then show thesis by (intro that [of rows1]) (simp_all add: False same_outside_refl)
  qed
  have len2: "length rows2 = length rows" using q2(2) len1 by (simp add: same_outside_def)
  obtain rows3 where q3: "(if i < r then quicksort_row_blocks cmp rows2 i r else Some rows2) = Some rows3"
      "same_outside i r rows2 rows3" "sorted_seg i r rows3"
  proof (cases "i < r")
    case True
    with less.hyps [of r i rows2] less.prems p(3) len2 that show thesis by auto
  next
    case False
    then have "sorted_seg i r rows2" using cmp_refl unfolding sorted_seg_def by (metis order.trans order_antisym linorder_not_less)
    then show thesis by (intro that [of rows2]) (simp_all add: False same_outside_refl)
  qed
  have lo2: "cmp (rows2 ! nat k) ?p \<le> 0" if "l \<le> k" "k \<le> i - 1" for k
    by (rule segment_bound [OF q2(2), of l "i - 1"]) (use less.prems p bnd len1 lo1 that in auto)
  have hi2: "cmp ?p (rows2 ! nat k) \<le> 0" if "j + 1 \<le> k" "k \<le> r" for k
    by (rule segment_bound_keep [OF q2(2), of "j + 1" r]) (use less.prems p bnd len1 hi1 that in auto)
  have lo3: "cmp (rows3 ! nat k) ?p \<le> 0" if "l \<le> k" "k < i" for k
    by (rule segment_bound_keep [OF q3(2), of l "i - 1"]) (use less.prems p bnd len2 lo2 that in auto)
  have hi3: "cmp ?p (rows3 ! nat k) \<le> 0" if "j < k" "k \<le> r" for k
    by (rule segment_bound [OF q3(2), of "j + 1" r]) (use less.prems p bnd len2 hi2 that in auto)
  have "sorted_seg l j rows3"
    by (rule sorted_seg_keep [OF q2(3) q3(2) p(2)]) (use less.prems p len2 in auto)
  then have "sorted_seg l r rows3" using sorted_seg_join [OF _ q3(3) p(2)] lo3 hi3 by blast
  moreover have "same_outside l r rows rows3"
    using same_outside_trans [OF p(6)] same_outside_trans same_outside_mono [OF q2(2)] same_outside_mono [OF q3(2)] p(3,4)
    by (metis order.refl order.strict_implies_order)
  ultimately show ?case using p(1) q2(1) q3(1) by (subst quicksort_row_blocks.simps) auto
qed

text \<open>Sorting a whole array.\<close>

theorem quicksort_sorts:
  assumes "rows \<noteq> []"
  shows "\<exists>rows'. quicksort_row_blocks cmp rows 0 (int (length rows) - 1) = Some rows'
    \<and> mset rows' = mset rows \<and> sorted_wrt (\<lambda>x y. cmp x y \<le> 0) rows'"
proof -
  from quicksort_ok [of 0 "int (length rows) - 1" rows] assms obtain rows' where
    q: "quicksort_row_blocks cmp rows 0 (int (length rows) - 1) = Some rows'"
      "same_outside 0 (int (length rows) - 1) rows rows'" "sorted_seg 0 (int (length rows) - 1) rows'"
    by (auto simp: Suc_le_eq)
  have len: "length rows' = length rows" using q(2) by (simp add: same_outside_def)
  have "cmp (rows' ! a) (rows' ! b) \<le> 0" if "a < b" "b < length rows'" for a b
    using q(3) [unfolded sorted_seg_def, rule_format, of "int a" "int b"] that len by simp
  then have "sorted_wrt (\<lambda>x y. cmp x y \<le> 0) rows'" by (simp add: sorted_wrt_iff_nth_less)
  with q show ?thesis by (auto simp: same_outside_def)
qed

end

end
