(* ===== verification/Topk_Correct.thy ===== *)
theory Topk_Correct
  imports Sort_Correct
begin

text \<open>
  The bounded heap of \<open>SELECT ... ORDER BY ... LIMIT k\<close> holds the \<open>k\<close> first of the rows seen so
  far; and the comparison of rows is a total preorder, so that this and quicksort hold of the code.
\<close>

section \<open>The heap\<close>

definition parent :: "nat \<Rightarrow> nat" where "parent i = (i - 1) div 2"

lemma parent_less: "0 < i \<Longrightarrow> parent i < i"
  by (simp add: parent_def)

lemma child_cases: "0 < i \<Longrightarrow> parent i = p \<longleftrightarrow> i = 2 * p + 1 \<or> i = 2 * p + 2"
  by (auto simp: parent_def)

context row_order
begin

definition le_at :: "'r list \<Rightarrow> nat \<Rightarrow> nat \<Rightarrow> bool" where
  "le_at rows i j \<longleftrightarrow> cmp (rows ! i) (rows ! j) \<le> 0"

definition is_heap :: "'r list \<Rightarrow> bool" where
  "is_heap rows \<longleftrightarrow> (\<forall>i. 0 < i \<and> i < length rows \<longrightarrow> le_at rows i (parent i))"

text \<open>A heap but for one element that may be too large, or too small, for its place.\<close>

definition heap_up :: "'r list \<Rightarrow> nat \<Rightarrow> bool" where
  "heap_up rows idx \<longleftrightarrow> (\<forall>i. 0 < i \<and> i < length rows \<and> i \<noteq> idx \<longrightarrow> le_at rows i (parent i))
     \<and> (0 < idx \<longrightarrow> (\<forall>i. 0 < i \<and> i < length rows \<and> parent i = idx \<longrightarrow> le_at rows i (parent idx)))"

definition heap_down :: "'r list \<Rightarrow> nat \<Rightarrow> bool" where
  "heap_down rows idx \<longleftrightarrow> (\<forall>i. 0 < i \<and> i < length rows \<and> parent i \<noteq> idx \<longrightarrow> le_at rows i (parent i))
     \<and> (0 < idx \<longrightarrow> (\<forall>i. 0 < i \<and> i < length rows \<and> parent i = idx \<longrightarrow> le_at rows i (parent idx)))"

lemma heap_root: "is_heap rows \<Longrightarrow> i < length rows \<Longrightarrow> le_at rows i 0"
proof (induction i rule: less_induct)
  case (less i)
  show ?case
  proof (cases "i = 0")
    case True then show ?thesis using cmp_refl by (simp add: le_at_def)
  next
    case False
    then have "parent i < i" by (simp add: parent_less)
    then have "le_at rows (parent i) 0" "le_at rows i (parent i)" using less False by (auto simp: is_heap_def)
    then show ?thesis using le_trans by (auto simp: le_at_def)
  qed
qed

lemma swap_at:
  assumes "a < length rows" "b < length rows"
  shows "swap_row_blocks rows a b ! k = (if k = a then rows ! b else if k = b then rows ! a else rows ! k)"
  using assms by (auto simp: swap_row_blocks_def nth_update_any)

lemma swap_mset: "a < length rows \<Longrightarrow> b < length rows \<Longrightarrow> mset (swap_row_blocks rows a b) = mset rows"
  by (simp add: swap_row_blocks_def mset_swap)

lemma heap_up_step:
  assumes "heap_up rows idx" "0 < idx" "idx < length rows" "\<not> le_at rows idx (parent idx)"
  shows "heap_up (swap_row_blocks rows idx (parent idx)) (parent idx)"
proof -
  let ?q = "parent idx"
  have q: "?q < idx" "?q < length rows" using parent_less [OF assms(2)] assms(3) by simp_all
  note at = swap_at [OF assms(3) q(2)]
  have qi: "cmp (rows ! ?q) (rows ! idx) \<le> 0" using assms(4) not_less_le(1) [of "rows ! idx" "rows ! ?q"] by (simp add: le_at_def)
  have up: "\<And>i. 0 < i \<Longrightarrow> i < length rows \<Longrightarrow> i \<noteq> idx \<Longrightarrow> cmp (rows ! i) (rows ! parent i) \<le> 0"
    and kids: "\<And>i. 0 < i \<Longrightarrow> i < length rows \<Longrightarrow> parent i = idx \<Longrightarrow> cmp (rows ! i) (rows ! ?q) \<le> 0"
    using assms(1,2) by (auto simp: heap_up_def le_at_def)
  show ?thesis
    unfolding heap_up_def le_at_def
  proof (intro conjI allI impI)
    fix i assume i: "0 < i \<and> i < length (swap_row_blocks rows idx ?q) \<and> i \<noteq> ?q"
    then have li: "0 < i" "i < length rows" "i \<noteq> ?q" by simp_all
    show "cmp (swap_row_blocks rows idx ?q ! i) (swap_row_blocks rows idx ?q ! parent i) \<le> 0"
    proof (cases "i = idx")
      case True then show ?thesis using qi q by (simp add: at)
    next
      case False
      consider "parent i = idx" | "parent i = ?q" | "parent i \<noteq> idx" "parent i \<noteq> ?q" by blast
      then show ?thesis
      proof cases
        case 1 then show ?thesis using False li kids [OF li(1,2)] by (simp add: at)
      next
        case 2 then show ?thesis using False li up [OF li(1,2) False] le_trans qi by (auto simp: at)
      next
        case 3 then show ?thesis using False li up [OF li(1,2) False] by (simp add: at)
      qed
    qed
  next
    fix i assume q0: "0 < ?q" and i: "0 < i \<and> i < length (swap_row_blocks rows idx ?q) \<and> parent i = ?q"
    then have li: "0 < i" "i < length rows" "i \<noteq> ?q" "parent ?q < ?q" using parent_less [of ?q] parent_less [of i] by auto
    have pq: "cmp (rows ! ?q) (rows ! parent ?q) \<le> 0" using up [OF q0 q(2)] q(1) by simp
    have "swap_row_blocks rows idx ?q ! parent ?q = rows ! parent ?q" using li(4) q(1) by (simp add: at)
    moreover have "cmp (swap_row_blocks rows idx ?q ! i) (rows ! parent ?q) \<le> 0"
    proof (cases "i = idx")
      case True then show ?thesis using pq by (simp add: at)
    next
      case False
      then have "cmp (rows ! i) (rows ! ?q) \<le> 0" using up [OF li(1,2) False] i by simp
      then show ?thesis using False li(3) le_trans pq by (auto simp: at)
    qed
    ultimately show "cmp (swap_row_blocks rows idx ?q ! i) (swap_row_blocks rows idx ?q ! parent ?q) \<le> 0" by simp
  qed
qed

lemma sift_up_ok:
  assumes "heap_up rows idx" "idx < length rows"
  shows "is_heap (topk_sift_up cmp rows idx) \<and> mset (topk_sift_up cmp rows idx) = mset rows"
  using assms
proof (induction idx arbitrary: rows rule: less_induct)
  case (less idx)
  show ?case
  proof (cases "0 < idx \<and> \<not> le_at rows idx (parent idx)")
    case False
    then have "topk_sift_up cmp rows idx = rows"
      by (subst topk_sift_up.simps) (auto simp: le_at_def parent_def Let_def)
    moreover have "is_heap rows" using less.prems(1) False by (auto simp: is_heap_def heap_up_def)
    ultimately show ?thesis by simp
  next
    case True
    then have step: "topk_sift_up cmp rows idx = topk_sift_up cmp (swap_row_blocks rows idx (parent idx)) (parent idx)"
      by (subst topk_sift_up.simps) (auto simp: le_at_def parent_def Let_def)
    have p: "parent idx < length rows" using True less.prems(2) parent_less [of idx] by simp
    have "heap_up (swap_row_blocks rows idx (parent idx)) (parent idx)" using heap_up_step less.prems True by blast
    then show ?thesis unfolding step using less.IH [of "parent idx"] True p parent_less swap_mset [OF less.prems(2) p] by simp
  qed
qed

lemma worst_of_spec:
  assumes "idx < length rows" "w = worst_of cmp rows idx"
  shows "w = idx \<or> (0 < w \<and> w < length rows \<and> parent w = idx)"
    and "0 < i \<Longrightarrow> i < length rows \<Longrightarrow> parent i = idx \<Longrightarrow> cmp (rows ! i) (rows ! w) \<le> 0"
    and "w \<noteq> idx \<Longrightarrow> cmp (rows ! idx) (rows ! w) \<le> 0"
proof -
  show "w = idx \<or> (0 < w \<and> w < length rows \<and> parent w = idx)"
    using assms(2) by (auto simp: worst_of_def Let_def parent_def)
  let ?L = "idx * 2 + 1" and ?R = "idx * 2 + 2"
  define v where "v = (if ?L < length rows \<and> cmp (rows ! ?L) (rows ! idx) > 0 then ?L else idx)"
  have w: "w = (if ?R < length rows \<and> cmp (rows ! ?R) (rows ! v) > 0 then ?R else v)"
    using assms(2) by (simp add: worst_of_def Let_def v_def)
  have t: "cmp y x \<le> 0" if "0 < cmp x y" for x y using swap_sign [of y x] that by linarith
  have iv: "cmp (rows ! idx) (rows ! v) \<le> 0" using t cmp_refl by (simp add: v_def)
  have Lv: "cmp (rows ! ?L) (rows ! v) \<le> 0" if "?L < length rows" using that cmp_refl by (auto simp: v_def)
  have vw: "cmp (rows ! v) (rows ! w) \<le> 0" using t cmp_refl by (simp add: w)
  have Rw: "cmp (rows ! ?R) (rows ! w) \<le> 0" if "?R < length rows" using that cmp_refl by (auto simp: w)
  show "cmp (rows ! i) (rows ! w) \<le> 0" if "0 < i" "i < length rows" "parent i = idx" for i
  proof -
    have "i = ?L \<or> i = ?R" using that child_cases by (metis mult.commute)
    then show ?thesis using Lv Rw le_trans [OF _ vw] that(2) by auto
  qed
  show "cmp (rows ! idx) (rows ! w) \<le> 0" by (rule le_trans [OF iv vw])
qed

lemma heap_down_step:
  assumes "heap_down rows idx" "idx < length rows" "w = worst_of cmp rows idx" "w \<noteq> idx"
  shows "heap_down (swap_row_blocks rows idx w) w"
proof -
  note W = worst_of_spec [OF assms(2,3)]
  have w: "0 < w" "w < length rows" "parent w = idx" using W(1) assms(4) by auto
  note at = swap_at [OF assms(2) w(2)]
  have iw: "idx < w" using parent_less [OF w(1)] w(3) by simp
  have down: "\<And>i. 0 < i \<Longrightarrow> i < length rows \<Longrightarrow> parent i \<noteq> idx \<Longrightarrow> cmp (rows ! i) (rows ! parent i) \<le> 0"
    and kids: "\<And>i. 0 < idx \<Longrightarrow> 0 < i \<Longrightarrow> i < length rows \<Longrightarrow> parent i = idx \<Longrightarrow> cmp (rows ! i) (rows ! parent idx) \<le> 0"
    using assms(1) by (auto simp: heap_down_def le_at_def)
  show ?thesis
    unfolding heap_down_def le_at_def
  proof (intro conjI allI impI)
    fix i assume i: "0 < i \<and> i < length (swap_row_blocks rows idx w) \<and> parent i \<noteq> w"
    then have li: "0 < i" "i < length rows" "parent i \<noteq> w" "parent i < i" using parent_less by simp_all
    show "cmp (swap_row_blocks rows idx w ! i) (swap_row_blocks rows idx w ! parent i) \<le> 0"
    proof (cases "parent i = idx")
      case True
      then have "swap_row_blocks rows idx w ! parent i = rows ! w" by (simp add: at)
      moreover have "cmp (swap_row_blocks rows idx w ! i) (rows ! w) \<le> 0"
        using True li(4) W(2) [OF li(1,2) True] W(3) [OF assms(4)] by (simp add: at)
      ultimately show ?thesis by simp
    next
      case False
      then have p: "swap_row_blocks rows idx w ! parent i = rows ! parent i" using li(3) by (simp add: at)
      show ?thesis
      proof (cases "i = idx")
        case True
        then show ?thesis using kids [OF _ w] li(1) p by (simp add: at)
      next
        case ni: False
        then have "i \<noteq> w" using False w(3) by auto
        then show ?thesis using ni down [OF li(1,2) False] p by (simp add: at)
      qed
    qed
  next
    fix i assume "0 < w" and i: "0 < i \<and> i < length (swap_row_blocks rows idx w) \<and> parent i = w"
    then have li: "0 < i" "i < length rows" "i \<noteq> w" "i \<noteq> idx" "parent i \<noteq> idx" using parent_less [of i] iw by auto
    have "cmp (rows ! i) (rows ! w) \<le> 0" using down [OF li(1,2,5)] i by simp
    then show "cmp (swap_row_blocks rows idx w ! i) (swap_row_blocks rows idx w ! parent w) \<le> 0"
      using li w(3) by (simp add: at)
  qed
qed

lemma sift_down_ok:
  assumes "heap_down rows idx" "idx < length rows"
  shows "is_heap (topk_sift_down cmp rows idx) \<and> mset (topk_sift_down cmp rows idx) = mset rows"
  using assms
proof (induction "length rows - idx" arbitrary: rows idx rule: less_induct)
  case less
  let ?w = "worst_of cmp rows idx"
  note W = worst_of_spec [OF less.prems(2) refl]
  show ?case
  proof (cases "?w = idx")
    case True
    then have "topk_sift_down cmp rows idx = rows" by (subst topk_sift_down.simps) (simp add: Let_def)
    moreover have "is_heap rows" unfolding is_heap_def
    proof (intro allI impI)
      fix i assume i: "0 < i \<and> i < length rows"
      show "le_at rows i (parent i)"
      proof (cases "parent i = idx")
        case p: True
        then show ?thesis using W(2) [of i] True i by (simp add: le_at_def)
      next
        case False
        then show ?thesis using less.prems(1) i by (simp add: heap_down_def)
      qed
    qed
    ultimately show ?thesis by simp
  next
    case False
    then have w: "?w < length rows" "idx < ?w" using worst_of_cases by blast+
    let ?rows = "swap_row_blocks rows idx ?w"
    have step: "topk_sift_down cmp rows idx = topk_sift_down cmp ?rows ?w"
      using False by (subst topk_sift_down.simps) (simp add: Let_def)
    have "length ?rows - ?w < length rows - idx" using w less.prems(2) by simp
    from less.hyps [OF this heap_down_step [OF less.prems refl False]] w(1)
    show ?thesis unfolding step using swap_mset [OF less.prems(2) w(1)] by simp
  qed
qed

lemma sift_up_length: "length (topk_sift_up cmp rows idx) = length rows"
proof (induction idx arbitrary: rows rule: less_induct)
  case (less idx)
  then show ?case by (subst topk_sift_up.simps) (auto simp: Let_def parent_less [unfolded parent_def])
qed

lemma sift_down_length: "length (topk_sift_down cmp rows idx) = length rows"
proof (induction "length rows - idx" arbitrary: rows idx rule: less_induct)
  case less
  show ?case
  proof (cases "worst_of cmp rows idx = idx")
    case True
    then show ?thesis by (subst topk_sift_down.simps) (simp add: Let_def)
  next
    case False
    let ?w = "worst_of cmp rows idx"
    have "length (swap_row_blocks rows idx ?w) - ?w < length rows - idx" using worst_of_cases [OF False] by auto
    from less.hyps [OF this] False show ?thesis by (subst topk_sift_down.simps) (simp add: Let_def)
  qed
qed

section \<open>Keeping the first k\<close>

definition topk_insert :: "nat \<Rightarrow> 'r list \<Rightarrow> 'r \<Rightarrow> 'r list" where
  "topk_insert k rows v =
     (if length rows < k then topk_sift_up cmp (rows @ [v]) (length rows)
      else if cmp v (rows ! 0) < 0 then topk_sift_down cmp (rows[0 := v]) 0 else rows)"

text \<open>\<open>rows\<close> are the \<open>k\<close> first of \<open>all\<close>: no row left out comes before a row kept.\<close>

definition firsts :: "nat \<Rightarrow> 'r multiset \<Rightarrow> 'r multiset \<Rightarrow> bool" where
  "firsts k rows all \<longleftrightarrow> size rows = min k (size all)
     \<and> (\<exists>out. all = rows + out \<and> (\<forall>x \<in># rows. \<forall>y \<in># out. cmp x y \<le> 0))"

lemma heap_up_snoc: "is_heap rows \<Longrightarrow> heap_up (rows @ [v]) (length rows)"
proof -
  assume h: "is_heap rows"
  have "le_at (rows @ [v]) i (parent i)" if "0 < i" "i < length rows" for i
    using h that parent_less [OF that(1)] by (simp add: is_heap_def le_at_def nth_append)
  moreover have "parent i \<noteq> length rows" if "0 < i" "i < length (rows @ [v])" for i
    using parent_less [OF that(1)] that(2) by simp
  ultimately show ?thesis unfolding heap_up_def by (metis length_append_singleton less_Suc_eq)
qed

lemma heap_down_root: "is_heap rows \<Longrightarrow> heap_down (rows[0 := v]) 0"
  unfolding is_heap_def heap_down_def le_at_def by (auto simp: nth_update_any)

lemma topk_insert_ok:
  assumes "is_heap rows" "firsts k (mset rows) all" "0 < k"
  shows "is_heap (topk_insert k rows v) \<and> firsts k (mset (topk_insert k rows v)) (add_mset v all)"
proof -
  obtain out where out: "all = mset rows + out" "\<forall>x \<in># mset rows. \<forall>y \<in># out. cmp x y \<le> 0"
    using assms(2) unfolding firsts_def by blast
  have len: "length rows = min k (size all)" using assms(2) unfolding firsts_def by simp
  consider "length rows < k" | "k \<le> length rows" "cmp v (rows ! 0) < 0" | "k \<le> length rows" "\<not> cmp v (rows ! 0) < 0"
    by linarith
  then show ?thesis
  proof cases
    case 1
    have "length rows = size all" using len 1 by (auto simp: min_def split: if_splits)
    moreover have "size all = length rows + size out" unfolding out(1) by simp
    ultimately have "out = {#}" by simp
    then have a: "all = mset rows" using out(1) by simp
    have "heap_up (rows @ [v]) (length rows)" by (rule heap_up_snoc [OF assms(1)])
    from sift_up_ok [OF this] have "is_heap (topk_insert k rows v)" "mset (topk_insert k rows v) = add_mset v (mset rows)"
      using 1 by (simp_all add: topk_insert_def)
    then show ?thesis using a 1 by (simp add: firsts_def)
  next
    case 2
    then have ne: "rows \<noteq> []" using assms(3) by auto
    then obtain r0 rest where rows: "rows = r0 # rest" by (cases rows) auto
    have "heap_down (rows[0 := v]) 0" by (rule heap_down_root [OF assms(1)])
    from sift_down_ok [OF this] ne have "is_heap (topk_insert k rows v)" and m: "mset (topk_insert k rows v) = add_mset v (mset rest)"
      using 2 rows by (simp_all add: topk_insert_def)
    moreover have "firsts k (add_mset v (mset rest)) (add_mset v all)"
      unfolding firsts_def
    proof (intro conjI exI [where x = "add_mset r0 out"])
      show "size (add_mset v (mset rest)) = min k (size (add_mset v all))" using len 2(1) rows by (simp add: min_def split: if_splits)
      show "add_mset v all = add_mset v (mset rest) + add_mset r0 out" using out(1) rows by simp
      have top: "cmp x r0 \<le> 0" if x: "x \<in> set rest" for x
      proof -
        from x obtain i where "i < length rest" "rest ! i = x" by (metis in_set_conv_nth)
        then show ?thesis using heap_root [OF assms(1), of "Suc i"] rows by (simp add: le_at_def)
      qed
      have vr: "cmp v r0 \<le> 0" using 2(2) rows by simp
      show "\<forall>x \<in># add_mset v (mset rest). \<forall>y \<in># add_mset r0 out. cmp x y \<le> 0"
        using top vr out(2) rows le_trans [OF vr] by auto
    qed
    ultimately show ?thesis by simp
  next
    case 3
    have b: "cmp x v \<le> 0" if "x \<in># mset rows" for x
    proof -
      from that obtain i where i: "i < length rows" "rows ! i = x" by (metis in_set_conv_nth set_mset_mset)
      have "cmp (rows ! 0) v \<le> 0" by (rule not_less_le(1) [OF 3(2)])
      then show ?thesis using heap_root [OF assms(1) i(1)] i(2) le_trans by (auto simp: le_at_def)
    qed
    have "firsts k (mset rows) (add_mset v all)"
      unfolding firsts_def
    proof (intro conjI exI [where x = "add_mset v out"])
      show "size (mset rows) = min k (size (add_mset v all))" using len 3(1) by (simp add: min_def split: if_splits)
      show "add_mset v all = mset rows + add_mset v out" using out(1) by simp
      show "\<forall>x \<in># mset rows. \<forall>y \<in># add_mset v out. cmp x y \<le> 0" using b out(2) by auto
    qed
    then show ?thesis using 3 assms(1) by (simp add: topk_insert_def)
  qed
qed

theorem topk_keeps_firsts:
  assumes "0 < k"
  shows "is_heap (foldl (topk_insert k) [] vs) \<and> firsts k (mset (foldl (topk_insert k) [] vs)) (mset vs)"
proof (induction vs rule: rev_induct)
  case Nil
  show ?case by (simp add: is_heap_def firsts_def)
next
  case (snoc v vs)
  then show ?case using topk_insert_ok [OF _ _ assms, of "foldl (topk_insert k) [] vs" "mset vs" v] by simp
qed

end

end
