(* ===== verification/Order_By.thy ===== *)
theory Order_By
  imports Exec_Render Topk_Correct
begin

text \<open>
  \<open>SELECT ... ORDER BY ... LIMIT\<close> end to end: the comparison of rows is a total preorder, the
  collector grows as needed, and the result is the sorted list of the first matching rows.
\<close>

section \<open>Comparing rows\<close>

lemma compare_int_order:
  "compare_int a b < 0 \<longleftrightarrow> a < b" "0 < compare_int a b \<longleftrightarrow> b < a" "compare_int a b \<le> 0 \<longleftrightarrow> a \<le> b"
  by (auto simp: compare_int_def)

lemma strcmp_swap: "strcmp b a = - strcmp a b"
proof (induction a b rule: strcmp.induct)
  case (4 c a d b)
  have "char_val c \<noteq> char_val d" if "c \<noteq> d" using that by (simp add: char_val_def)
  then consider "c = d" | "c \<noteq> d" "char_val c < char_val d" | "c \<noteq> d" "char_val d < char_val c" by fastforce
  then show ?case using 4 by cases simp_all
qed auto

lemma strcmp_trans: "strcmp a b \<le> 0 \<Longrightarrow> strcmp b c \<le> 0 \<Longrightarrow> strcmp a c \<le> 0"
proof (induction a b arbitrary: c rule: strcmp.induct)
  case (1 c)
  then show ?case by simp
next
  case (2 d b c)
  then show ?case by (cases c) auto
next
  case (3 x a c)
  then show ?case by simp
next
  case (4 x a y b c)
  show ?case
  proof (cases c)
    case Nil
    then show ?thesis using 4 by simp
  next
    case (Cons z c')
    have "char_val p \<noteq> char_val q" if "p \<noteq> q" for p q using that by (simp add: char_val_def)
    then show ?thesis using 4 Cons by (auto split: if_splits)
  qed
qed

lemma compare_int_swap: "compare_int b a = - compare_int a b"
  by (simp add: compare_int_def)

lemma compare_row_values_swap: "compare_row_values hdr i False y x = - compare_row_values hdr i False x y"
  unfolding compare_row_values_def Let_def
  by (simp split: if_split) (intro conjI impI; rule compare_int_swap strcmp_swap)

lemma compare_row_values_trans:
  assumes "compare_row_values hdr i False x y \<le> 0" "compare_row_values hdr i False y z \<le> 0"
  shows "compare_row_values hdr i False x z \<le> 0"
  using assms strcmp_trans [of "str_val (x ! i)" "str_val (y ! i)" "str_val (z ! i)"]
  by (auto simp: compare_row_values_def Let_def compare_int_order split: if_splits)

lemma compare_row_values_desc: "compare_row_values hdr i True x y = compare_row_values hdr i False y x"
  unfolding compare_row_values_swap [of hdr i y x] by (simp add: compare_row_values_def Let_def)

lemma compare_row_values_order: "row_order (compare_row_values hdr i desc)"
proof
  fix x y z
  show "compare_row_values hdr i desc x y < 0 \<longleftrightarrow> 0 < compare_row_values hdr i desc y x"
    using compare_row_values_swap [of hdr i x y] by (cases desc) (auto simp: compare_row_values_desc)
  assume "compare_row_values hdr i desc x y \<le> 0" "compare_row_values hdr i desc y z \<le> 0"
  then show "compare_row_values hdr i desc x z \<le> 0"
    using compare_row_values_trans by (cases desc) (auto simp: compare_row_values_desc)
qed

interpretation rv: row_order "compare_row_values hdr col_idx desc" for hdr col_idx desc
  by (rule compare_row_values_order)

section \<open>The collector\<close>

lemma blocks_room_exact:
  assumes "unat cap < 2 ^ 28"
  shows "blocks_room cap = unat cap"
  using assms by (simp add: blocks_room_def MAX_COLUMNS_def unat_word_ariths)

definition collected :: "row_value list list \<Rightarrow> row_collect \<Rightarrow> bool" where
  "collected rows rc \<longleftrightarrow> rc_rows rc = rows \<and> \<not> rc_alloc_failed rc \<and> \<not> rc_overrun rc
     \<and> rc_room rc = unat (rc_cap rc) \<and> 0 < unat (rc_cap rc) \<and> unat (rc_cap rc) < 2 ^ 28 \<and> length rows \<le> unat (rc_cap rc)"

lemma collected_init:
  assumes "\<forall>n. fits n" "0 < cap" "unat cap < 2 ^ 28"
  shows "collected [] (row_collect_init_with_cap fits cap)"
  using assms blocks_room_exact [OF assms(3)]
  by (auto simp: collected_def row_collect_init_with_cap_def word_less_nat_alt)

lemma collected_store:
  assumes "collected rows rc" "length rows < unat (rc_cap rc)"
  shows "collected (rows @ [v]) (row_collect_store rc v)"
  using assms by (simp add: collected_def row_collect_store_def)

lemma collected_push:
  assumes "\<forall>n. fits n" "collected rows rc" "length rows < 2 ^ 27"
  shows "\<exists>rc'. row_collect_push fits rc v = (True, rc') \<and> collected (rows @ [v]) rc'"
proof (cases "length rows < unat (rc_cap rc)")
  case True
  then show ?thesis using collected_store [OF assms(2) True, of v] assms(2)
    by (auto simp: row_collect_push_def collected_def unat_eq_0)
next
  case False
  let ?cap = "rc_cap rc * 2"
  have full: "length rows = unat (rc_cap rc)" "0 < unat (rc_cap rc)" using assms(2) False by (auto simp: collected_def)
  have d: "unat ?cap = 2 * unat (rc_cap rc)" using full assms(3) by (simp add: unat_word_ariths)
  let ?rc = "rc\<lparr>rc_cap := ?cap, rc_room := blocks_room ?cap\<rparr>"
  have "collected rows ?rc"
    using assms(2) full d assms(3) blocks_room_exact [of ?cap] by (simp add: collected_def)
  from collected_store [OF this, of v] have "collected (rows @ [v]) (row_collect_store ?rc v)" using full d by simp
  moreover have "row_collect_push fits rc v = (True, row_collect_store ?rc v)"
    using assms(1,2) full False by (auto simp: row_collect_push_def collected_def Let_def unat_eq_0)
  ultimately show ?thesis by blast
qed

lemma visit_collect:
  assumes "\<forall>n. fits n" "collected rows rc" "length rows + length vs < 2 ^ 27"
  shows "collected (rows @ filter (\<lambda>v. match_predicate hdr v stmt) vs) (visit_values (collect_scan_cb fits hdr stmt) rc vs)"
  using assms(2,3)
proof (induction vs arbitrary: rows rc)
  case (Cons v vs)
  show ?case
  proof (cases "match_predicate hdr v stmt")
    case False
    then show ?thesis using Cons by (simp add: collect_scan_cb_def)
  next
    case True
    obtain rc' where p: "row_collect_push fits rc v = (True, rc')" "collected (rows @ [v]) rc'"
      using collected_push [OF assms(1) Cons.prems(1)] Cons.prems(2) by fastforce
    then have cb: "collect_scan_cb fits hdr stmt v rc = (True, rc')" using True by (simp add: collect_scan_cb_def)
    from Cons.IH [OF p(2)] Cons.prems(2) True show ?thesis by (simp add: cb)
  qed
qed simp

lemma collected_topk:
  assumes "\<forall>n. fits n" "collected rows rc" "rc_cap rc = limit"
  shows "\<exists>rc'. topk_step fits (compare_row_values hdr col_idx desc) limit v rc = (True, rc') \<and> rc_cap rc' = limit
    \<and> collected (rv.topk_insert hdr col_idx desc (unat limit) rows v) rc'"
proof -
  let ?cmp = "compare_row_values hdr col_idx desc"
  note C = assms(2) [unfolded collected_def]
  consider "length rows < unat limit" | "\<not> length rows < unat limit" "?cmp v (rows ! 0) < 0"
    | "\<not> length rows < unat limit" "\<not> ?cmp v (rows ! 0) < 0" by blast
  then show ?thesis
  proof cases
    case 1
    let ?rc = "row_collect_store rc v"
    have "row_collect_push fits rc v = (True, ?rc)" using 1 C assms(3) by (auto simp: row_collect_push_def)
    moreover have "length (topk_sift_up ?cmp (rows @ [v]) (length rows)) = Suc (length rows)"
      using rv.sift_up_length [of hdr col_idx desc "rows @ [v]" "length rows"] by simp
    ultimately show ?thesis using 1 C assms(3)
      by (auto simp: topk_step_def collected_def row_collect_store_def rv.topk_insert_def)
  next
    case 2
    have "length (topk_sift_down ?cmp (rows[0 := v]) 0) = length rows"
      using rv.sift_down_length [of hdr col_idx desc "rows[0 := v]" 0] by simp
    then show ?thesis using 2 C assms(3) by (auto simp: topk_step_def collected_def rv.topk_insert_def)
  next
    case 3
    then show ?thesis using C assms(2,3) by (auto simp: topk_step_def rv.topk_insert_def)
  qed
qed

lemma visit_topk:
  assumes "\<forall>n. fits n" "collected rows rc" "rc_cap rc = limit_count stmt"
  shows "collected (foldl (rv.topk_insert hdr col_idx (order_desc stmt) (unat (limit_count stmt))) rows
      (filter (\<lambda>v. match_predicate hdr v stmt) vs)) (visit_values (topk_scan_cb fits hdr stmt col_idx) rc vs)"
  using assms(2,3)
proof (induction vs arbitrary: rows rc)
  case (Cons v vs)
  show ?case
  proof (cases "match_predicate hdr v stmt")
    case False
    then show ?thesis using Cons by (simp add: topk_scan_cb_def)
  next
    case True
    from collected_topk [OF assms(1) Cons.prems] obtain rc' where
      p: "topk_step fits (compare_row_values hdr col_idx (order_desc stmt)) (limit_count stmt) v rc = (True, rc')"
        "rc_cap rc' = limit_count stmt"
        "collected (rv.topk_insert hdr col_idx (order_desc stmt) (unat (limit_count stmt)) rows v) rc'" by blast
    then have cb: "topk_scan_cb fits hdr stmt col_idx v rc = (True, rc')" using True by (simp add: topk_scan_cb_def)
    from Cons.IH [OF p(3,2)] True show ?thesis by (simp add: cb)
  qed
qed simp

section \<open>The result\<close>

text \<open>Sorted, and the first \<open>k\<close> of \<open>all\<close>: no row left out comes before a row kept.\<close>

definition sorted_firsts ::
  "(row_value list \<Rightarrow> row_value list \<Rightarrow> int) \<Rightarrow> nat \<Rightarrow> row_value list list \<Rightarrow> row_value list list \<Rightarrow> bool" where
  "sorted_firsts cmp k rows all \<longleftrightarrow> sorted_wrt (\<lambda>x y. cmp x y \<le> 0) rows \<and> length rows = min k (length all)
     \<and> (\<exists>out. mset all = mset rows + mset out \<and> (\<forall>x \<in> set rows. \<forall>y \<in> set out. cmp x y \<le> 0))"

lemma sorted_firstsI:
  assumes "rv.firsts hdr col_idx desc k (mset rows) (mset all)" "mset rows' = mset rows"
    and "sorted_wrt (\<lambda>x y. compare_row_values hdr col_idx desc x y \<le> 0) rows'"
  shows "sorted_firsts (compare_row_values hdr col_idx desc) k rows' all"
proof -
  from assms(1) obtain M where M: "mset all = mset rows + M"
    "\<forall>x \<in># mset rows. \<forall>y \<in># M. compare_row_values hdr col_idx desc x y \<le> 0"
    unfolding rv.firsts_def by blast
  obtain out where "M = mset out" by (metis ex_mset)
  moreover have "length rows' = min k (length all)" using assms(1,2) unfolding rv.firsts_def by (metis size_mset)
  ultimately show ?thesis using M assms(2,3) unfolding sorted_firsts_def by (metis set_mset_mset)
qed

lemma sort_rows:
  "\<exists>rows'. (if length rows > 1 then quicksort_row_blocks (compare_row_values hdr col_idx desc) rows 0 (int (length rows) - 1)
      else Some rows) = Some rows' \<and> mset rows' = mset rows
    \<and> sorted_wrt (\<lambda>x y. compare_row_values hdr col_idx desc x y \<le> 0) rows'"
proof (cases "length rows > 1")
  case True
  then have "rows \<noteq> []" by auto
  from rv.quicksort_sorts [OF this] True show ?thesis by simp
next
  case False
  then have "rows = [] \<or> (\<exists>r. rows = [r])" by (cases rows) auto
  then show ?thesis by auto
qed

definition order_limit :: "statement \<Rightarrow> nat \<Rightarrow> nat" where
  "order_limit stmt n = (if has_limit stmt then unat (limit_count stmt) else n)"

lemma exec_order_by_eq:
  assumes "find_column_index (st_hdr s) (order_by_field stmt) = Some col_idx"
    and rc0: "(if has_limit stmt then row_collect_init_with_cap fits (limit_count stmt) else row_collect_init fits) = rc0"
    and cb: "(if has_limit stmt then topk_scan_cb fits (st_hdr s) stmt col_idx else collect_scan_cb fits (st_hdr s) stmt) = cb"
    and "scan_with s cb rc0 = Some rc" "collected rows0 rc0" "collected rows rc"
    and q: "(if length rows > 1 then quicksort_row_blocks (compare_row_values (st_hdr s) col_idx (order_desc stmt)) rows 0 (int (length rows) - 1)
      else Some rows) = Some rows'"
    and cut: "(if has_limit stmt then take (unat (limit_count stmt)) rows' else rows') = rows'"
  shows "exec_order_by fits s stmt =
      (if rows' \<noteq> [] then result_with (emit_rows fits (st_hdr s) rows') (Rows_found (word_of_nat (length rows')))
       else Some (done_with (Rows_found (word_of_nat (length rows')))))"
proof -
  have "rc_rows rc = rows" "\<not> rc_alloc_failed rc0" "\<not> rc_alloc_failed rc" "\<not> rc_overrun rc"
    using assms(5,6) by (simp_all add: collected_def)
  then show ?thesis
    unfolding exec_order_by_def Let_def assms(1) option.case rc0 cb assms(4) if_not_P if_P q cut by (simp only: q cut if_False option.case simp_thms)
qed

theorem exec_order_by_correct:
  assumes f: "\<forall>n. fits n" and h: "heap_ok s fl rs chain" "heap_values s chain = Some vs" "length vs < 2 ^ 27"
    and lim: "has_limit stmt \<Longrightarrow> 0 < limit_count stmt \<and> unat (limit_count stmt) < 2 ^ 28"
    and col: "find_column_index (st_hdr s) (order_by_field stmt) = Some col_idx"
  defines "matching \<equiv> filter (\<lambda>v. match_predicate (st_hdr s) v stmt) vs"
  shows "\<exists>rows. exec_order_by fits s stmt = Some (rows_result (st_hdr s) Rows_found rows)
    \<and> sorted_firsts (compare_row_values (st_hdr s) col_idx (order_desc stmt)) (order_limit stmt (length matching)) rows matching"
proof -
  let ?hdr = "st_hdr s" and ?k = "order_limit stmt (length matching)"
  let ?cmp = "compare_row_values ?hdr col_idx (order_desc stmt)"
  let ?rc0 = "if has_limit stmt then row_collect_init_with_cap fits (limit_count stmt) else row_collect_init fits"
  let ?cb = "if has_limit stmt then topk_scan_cb fits ?hdr stmt col_idx else collect_scan_cb fits ?hdr stmt"
  have mlen: "length matching \<le> length vs" unfolding matching_def by (rule length_filter_le)
  have init: "collected [] ?rc0" "has_limit stmt \<Longrightarrow> rc_cap ?rc0 = limit_count stmt"
    using collected_init [OF f, of "limit_count stmt"] collected_init [OF f, of 256] lim f
    by (auto simp: row_collect_init_def row_collect_init_with_cap_def)
  obtain rows where rows: "collected rows (visit_values ?cb ?rc0 vs)" "rv.firsts ?hdr col_idx (order_desc stmt) ?k (mset rows) (mset matching)"
  proof (cases "has_limit stmt")
    case True
    have k: "0 < ?k" "?k = unat (limit_count stmt)" using lim True by (auto simp: order_limit_def word_less_nat_alt)
    let ?rows = "foldl (rv.topk_insert ?hdr col_idx (order_desc stmt) ?k) [] matching"
    have "collected ?rows (visit_values ?cb ?rc0 vs)"
      using visit_topk [OF f init(1) init(2), of ?hdr col_idx vs] True k(2) by (simp add: matching_def)
    moreover have "rv.firsts ?hdr col_idx (order_desc stmt) ?k (mset ?rows) (mset matching)"
      using rv.topk_keeps_firsts [OF k(1)] by blast
    ultimately show thesis by (rule that)
  next
    case False
    have "rv.firsts ?hdr col_idx (order_desc stmt) ?k (mset matching) (mset matching)"
      using False by (simp add: rv.firsts_def order_limit_def)
    moreover have "collected matching (visit_values ?cb ?rc0 vs)"
      using visit_collect [OF f init(1), of vs ?hdr stmt] h(3) False by (simp add: matching_def)
    ultimately show thesis by (rule that [rotated])
  qed
  have lr: "length rows = min ?k (length matching)" using rows(2) unfolding rv.firsts_def by simp
  obtain rows' where q: "(if length rows > 1 then quicksort_row_blocks ?cmp rows 0 (int (length rows) - 1) else Some rows) = Some rows'"
      "mset rows' = mset rows" "sorted_wrt (\<lambda>x y. ?cmp x y \<le> 0) rows'" using sort_rows by blast
  have l': "length rows' = length rows" using q(2) by (metis size_mset)
  have cut: "(if has_limit stmt then take (unat (limit_count stmt)) rows' else rows') = rows'"
    using l' lr by (auto simp: order_limit_def)
  have "exec_order_by fits s stmt =
      (if rows' \<noteq> [] then result_with (emit_rows fits ?hdr rows') (Rows_found (word_of_nat (length rows')))
       else Some (done_with (Rows_found (word_of_nat (length rows')))))"
    by (rule exec_order_by_eq [OF col refl refl scan_with_visits [OF h(1,2)] init(1) rows(1) q(1) cut])
  also have "\<dots> = Some (rows_result ?hdr Rows_found rows')"
    using result_with_holds [OF emit_rows_holds [OF f]] by (simp add: rows_result_def done_with_def)
  finally show ?thesis using sorted_firstsI [OF rows(2) q(2,3)] by blast
qed

end
