(* ===== verification/Table_Select.thy ===== *)
theory Table_Select
  imports Range_Db Order_By
begin

text \<open>
  SELECT on a well formed database, stated over the table it stands for: the plain scan, COUNT with
  its fast path, and ORDER BY.
\<close>

definition lists_table :: "row_value list list \<Rightarrow> (u64 \<Rightarrow> row_value list option) \<Rightarrow> bool" where
  "lists_table vs tab \<longleftrightarrow> distinct (map values_id vs) \<and> tab = map_of (map (\<lambda>v. (values_id v, v)) vs)"

lemma lists_table_iff: "lists_table vs tab \<Longrightarrow> tab k = Some v \<longleftrightarrow> v \<in> set vs \<and> values_id v = k"
proof -
  assume l: "lists_table vs tab"
  then have "distinct (map fst (map (\<lambda>v. (values_id v, v)) vs))" by (simp add: lists_table_def comp_def)
  from map_of_eq_Some_iff [OF this] l show ?thesis by (auto simp: lists_table_def)
qed

lemma lists_table_card:
  assumes "lists_table vs tab"
  shows "card {k. \<exists>v. tab k = Some v \<and> P v} = length (filter P vs)"
proof -
  have "{k. \<exists>v. tab k = Some v \<and> P v} = set (map values_id (filter P vs))"
    using lists_table_iff [OF assms] by auto
  moreover have "distinct (map values_id (filter P vs))"
    using assms by (auto simp: lists_table_def distinct_map intro: inj_on_subset)
  ultimately show ?thesis using distinct_card by fastforce
qed

lemma heap_lists_table:
  assumes ok: "db_ok s fl chain h t"
  shows "\<exists>vs. heap_values s chain = Some vs \<and> lists_table vs (table_of s chain t) \<and> length vs \<le> unat (hd_next_id (st_hdr s))"
proof -
  from heap_values_table [OF ok] obtain vs where vs: "heap_values s chain = Some vs" "lists_table vs (table_of s chain t)"
    by (auto simp: lists_table_def)
  have dom: "{k. \<exists>v. table_of s chain t k = Some v} = set (map le_key (entries t))"
    using table_of_index(1) [OF ok] by (auto simp: index_map_def map_of_eq_None_iff comp_def image_image) (metis map_of_eq_None_iff not_None_eq)+
  have "length vs = card (set (map le_key (entries t)))"
    using lists_table_card [OF vs(2), of "\<lambda>_. True"] dom by simp
  also have "\<dots> \<le> length (entries t)" by (metis card_length length_map)
  finally show ?thesis using vs few_entries [OF ok] by (meson le_trans)
qed

theorem plain_scan_table:
  assumes ok: "db_ok s fl chain h t" and f: "\<forall>n. fits n" and small: "hd_next_id (st_hdr s) < 2 ^ 30"
    and lim: "has_limit stmt \<Longrightarrow> 0 < limit_count stmt"
  shows "\<exists>vs. lists_table vs (table_of s chain t)
    \<and> exec_plain_scan fits s stmt = Some (rows_result (st_hdr s) Rows_found (limited stmt (filter (\<lambda>v. match_predicate (st_hdr s) v stmt) vs)))"
proof -
  from heap_lists_table [OF ok] obtain vs where vs: "heap_values s chain = Some vs" "lists_table vs (table_of s chain t)"
    "length vs \<le> unat (hd_next_id (st_hdr s))" by blast
  then have "length vs < 2 ^ 32" using small by (simp add: word_less_nat_alt)
  from exec_plain_scan_correct [OF f db_okD(2) [OF ok] vs(1) this lim] vs(2) show ?thesis by blast
qed

section \<open>COUNT\<close>

lemma visit_count:
  "visit_values (count_scan_cb hdr stmt) c vs = c + word_of_nat (length (filter (\<lambda>v. match_predicate hdr v stmt) vs))"
  by (induction vs arbitrary: c) (simp_all add: count_scan_cb_def add.assoc)

definition count_text :: "u64 \<Rightarrow> string" where
  "count_text n = ''COUNT(*)'' @ newline @ ''----------'' @ newline @ show_nat (unat n) @ newline"

theorem count_table:
  fixes stmt :: statement
  assumes ok: "db_ok s fl chain h t" and f: "\<forall>n. fits n"
  defines "n \<equiv> word_of_nat (card {k. \<exists>v. table_of s chain t k = Some v \<and> match_predicate (st_hdr s) v stmt})"
  shows "exec_count fits s stmt = Some \<lparr>res_status = 0, res_message = Count_is n, res_out = Some (count_text n)\<rparr>"
proof -
  have "(if predicate_kind stmt = PREDICATE_NONE then Some (hd_row_count (st_hdr s))
      else scan_with s (count_scan_cb (st_hdr s) stmt) 0) = Some n"
  proof (cases "predicate_kind stmt = PREDICATE_NONE")
    case True
    have "{k. \<exists>v. table_of s chain t k = Some v} = dom (index_map t)"
      using table_of_index(1) [OF ok] by (simp add: dom_def flip: not_None_eq)
    then have "n = word_of_nat (card (dom (index_map t)))" using True by (simp add: n_def match_predicate_def)
    then show ?thesis using True db_okD(9) [OF ok] by simp
  next
    case False
    from heap_lists_table [OF ok] obtain vs where vs: "heap_values s chain = Some vs" "lists_table vs (table_of s chain t)" by blast
    show ?thesis
      using False scan_with_visits [OF db_okD(2) [OF ok] vs(1), of "count_scan_cb (st_hdr s) stmt" 0]
      by (simp add: visit_count n_def lists_table_card [OF vs(2)])
  qed
  then show ?thesis
    using result_with_holds [OF buf_append_holds [OF f buf_init_holds [OF f], of "count_text n"], of "Count_is n"]
    by (simp add: exec_count_def count_text_def)
qed

section \<open>ORDER BY\<close>

theorem order_by_table:
  assumes ok: "db_ok s fl chain h t" and f: "\<forall>n. fits n" and small: "hd_next_id (st_hdr s) < 2 ^ 26"
    and lim: "has_limit stmt \<Longrightarrow> 0 < limit_count stmt \<and> unat (limit_count stmt) < 2 ^ 28"
    and col: "find_column_index (st_hdr s) (order_by_field stmt) = Some col_idx"
  shows "\<exists>vs rows. lists_table vs (table_of s chain t)
    \<and> exec_order_by fits s stmt = Some (rows_result (st_hdr s) Rows_found rows)
    \<and> sorted_firsts (compare_row_values (st_hdr s) col_idx (order_desc stmt))
        (order_limit stmt (length (filter (\<lambda>v. match_predicate (st_hdr s) v stmt) vs))) rows
        (filter (\<lambda>v. match_predicate (st_hdr s) v stmt) vs)"
proof -
  from heap_lists_table [OF ok] obtain vs where vs: "heap_values s chain = Some vs" "lists_table vs (table_of s chain t)"
    "length vs \<le> unat (hd_next_id (st_hdr s))" by blast
  then have "length vs < 2 ^ 27" using small by (simp add: word_less_nat_alt)
  from exec_order_by_correct [OF f db_okD(2) [OF ok] vs(1) this lim col] vs(2) show ?thesis by blast
qed

end
