(* ===== verification/Sql_Props.thy ===== *)
theory Sql_Props
  imports Parser_Correct Lock_Calls Table_Create Table_Select
begin

text \<open>
  The properties of the SQL layer: the parser, the plans, and whole statements on a well formed
  database, with the locks they take.
\<close>

section \<open>A small database\<close>

definition demo_blank :: store where
  "demo_blank = set_hdr demo_index ((st_hdr demo_index)\<lparr>hd_columns := replicate MAX_COLUMNS zero_column, hd_row_size := 0\<rparr>)"

definition demo_create :: statement where
  "demo_create = zero_statement\<lparr>stmt_type := STMT_CREATE_TABLE, table_name := ''t'',
     col_defs := [\<lparr>cd_name = ''age'', cd_type = COL_TYPE_INT, cd_size = 4\<rparr>]\<rparr>"

definition demo_table :: store where
  "demo_table = (case exec_create_table demo_blank demo_create of Some (r, s) \<Rightarrow> s | None \<Rightarrow> demo_blank)"

lemma demo_index_heap: "heap_ok demo_index [] rs [1] \<and> heap_rows demo_index rs [1] = (\<lambda>_. None)"
proof -
  have same: "st_pages demo_index 1 = st_pages demo_store 1" by (simp add: demo_index_def)
  have "heap_ok demo_index [] rs [1]"
    by (rule heap_ok_keep [OF demo_heap_ok]) (simp_all add: demo_index_def demo_store_def in_use_def)
  moreover have "heap_rows demo_index rs [1] = heap_rows demo_store rs [1]" by (rule heap_rows_keep) (simp add: same)
  ultimately show ?thesis by (simp add: demo_rows)
qed

lemma demo_blank_no_table: "no_table demo_blank [] [1] (Leaf 2 [])"
proof -
  let ?h = "(st_hdr demo_index)\<lparr>hd_columns := replicate MAX_COLUMNS zero_column, hd_row_size := 0\<rparr>"
  have "same_links (st_hdr demo_index) ?h" by (simp add: same_links_def)
  note K = set_hdr_keeps [OF this]
  show ?thesis unfolding no_table_def demo_blank_def K
    using demo_index_ok demo_index_heap demo_index_tree
    by (simp add: index_map_def) (simp add: demo_index_def demo_store_def)
qed

lemma demo_columns: "user_columns (col_defs demo_create)
    = [\<lparr>cm_name = ''age'', cm_type = COL_TYPE_INT, cm_size = 4, cm_offset = 0, cm_is_system = 0\<rparr>]"
  by (simp add: demo_create_def user_column_def same_name_def)

lemma demo_page_size: "unat (st_page_size demo_blank) = 64"
  by (simp add: demo_blank_def demo_index_simps)

lemma demo_room: "room demo_blank n = (n + 3 < 2 ^ 32)"
proof -
  let ?h = "(st_hdr demo_index)\<lparr>hd_columns := replicate MAX_COLUMNS zero_column, hd_row_size := 0\<rparr>"
  have "same_links (st_hdr demo_index) ?h" by (simp add: same_links_def)
  then show ?thesis unfolding demo_blank_def by (simp add: set_hdr_keeps(6) demo_index_simps)
qed

lemma demo_create_fits:
  "length (user_columns (col_defs demo_create)) < MAX_COLUMNS" "\<forall>c \<in> set (user_columns (col_defs demo_create)). col_sized c"
  "8 + columns_size (user_columns (col_defs demo_create)) < 65536"
  "32 + columns_size (user_columns (col_defs demo_create)) \<le> unat (st_page_size demo_blank)"
  by (simp_all add: demo_columns col_sized_def columns_size_def demo_page_size MAX_COLUMNS_def)

lemma demo_table_ok: "db_ok demo_table [] [1] 0 (Leaf 2 [])" "table_of demo_table [1] (Leaf 2 []) = Map.empty"
  "st_hdr demo_table = created_header (st_hdr demo_blank) (id_column # user_columns (col_defs demo_create))"
  "room demo_table n = (n + 3 < 2 ^ 32)"
proof -
  from exec_create_table_correct [OF demo_blank_no_table demo_create_fits] obtain r s where
    e: "exec_create_table demo_blank demo_create = Some (r, s)" "db_ok s [] [1] 0 (Leaf 2 [])"
      "table_of s [1] (Leaf 2 []) = Map.empty" "\<And>n. room s n = room demo_blank n"
      "st_hdr s = created_header (st_hdr demo_blank) (id_column # user_columns (col_defs demo_create))" by blast
  have "demo_table = s" unfolding demo_table_def e(1) by simp
  with e demo_room [of n] show "db_ok demo_table [] [1] 0 (Leaf 2 [])" "table_of demo_table [1] (Leaf 2 []) = Map.empty"
    "st_hdr demo_table = created_header (st_hdr demo_blank) (id_column # user_columns (col_defs demo_create))"
    "room demo_table n = (n + 3 < 2 ^ 32)" by (simp_all only:)
qed

lemma demo_next_id: "hd_next_id (st_hdr demo_table) = 1"
  by (simp add: demo_table_ok(3) created_header_def with_columns_def demo_blank_def) (simp add: demo_index_def demo_store_def)

section \<open>The parser\<close>

text \<open>
  C21: An INSERT written with quoted values reads back as exactly these values and this table name,
  for up to sixteen values; with a seventeenth the parser writes past its array.
\<close>

theorem insert_reads_back:
  assumes "plain_name t" "\<forall>v \<in> set vs. plain_value v" "length (render_insert t vs) \<le> 4095"
  shows "parse (render_insert t vs) = (if length vs \<le> MAX_COLUMNS
    then Inr (zero_statement\<lparr>stmt_type := STMT_INSERT, table_name := t, insert_values := vs\<rparr>) else Inl Undefined)"
  by (rule parse_render_insert [OF assms])

theorem insert_reads_back_witness:
  "parse (render_insert ''users'' [''O Neil, (jr)'', ''-7'']) =
   Inr (zero_statement\<lparr>stmt_type := STMT_INSERT, table_name := ''users'', insert_values := [''O Neil, (jr)'', ''-7'']\<rparr>)"
  using insert_reads_back [of "''users''" "[''O Neil, (jr)'', ''-7'']"]
  by (simp add: plain_name_def c_isspace_def plain_value_def render_insert_def quote_def MAX_COLUMNS_def)

text \<open>
  C34: Whatever the text, the strings of a parsed statement fit their buffers of 32 and 256 bytes,
  there are at most sixteen values and columns, and every column has one of the three types.
\<close>

theorem parsed_fields_fit:
  assumes "parse input = Inr stmt"
  shows "fields_fit stmt"
  by (rule parse_fits [OF assms])

theorem parsed_fields_fit_witness:
  "fields_fit (zero_statement\<lparr>stmt_type := STMT_DROP_TABLE, table_name := ''users''\<rparr>)"
proof -
  have "parse ''drop table users;'' = Inr (zero_statement\<lparr>stmt_type := STMT_DROP_TABLE, table_name := ''users''\<rparr>)"
    by code_simp
  from parsed_fields_fit [OF this] show ?thesis .
qed

text \<open>
  C35: No text makes the database ask for a range lock: a comparison of the id has become a point or
  index range predicate before the lock is chosen, so the code for range requests is never reached.
\<close>

theorem parsed_never_range_locks:
  assumes "parse input = Inr stmt"
  shows "\<not> is_range (determine_lock stmt)"
  by (rule parse_no_range_lock [OF assms])

theorem parsed_never_range_locks_witness:
  "\<not> is_range (determine_lock (case parse ''delete from t where id >= 5'' of Inr stmt \<Rightarrow> stmt | Inl e \<Rightarrow> zero_statement))"
proof -
  have "case parse ''delete from t where id >= 5'' of Inr stmt \<Rightarrow> True | Inl e \<Rightarrow> False"
    by code_simp
  then obtain stmt where "parse ''delete from t where id >= 5'' = Inr stmt" by (auto split: sum.splits)
  from parsed_never_range_locks [OF this] this show ?thesis by simp
qed

section \<open>Plans\<close>

text \<open>
  C36: \<open>EXPLAIN\<close> reports the plan that would run, except for a SELECT by id or id range that counts,
  orders or, by id, limits: there it reports an index plan and the statement scans the table.
\<close>

theorem explain_plan_agrees:
  assumes "stmt_type stmt \<noteq> STMT_EXPLAIN"
  shows "planner_create_plan (explain_statement stmt) = planner_create_plan stmt \<longleftrightarrow>
    \<not> (stmt_type stmt = STMT_SELECT \<and>
       (predicate_kind stmt = PREDICATE_ID_EQ \<and> (select_count stmt \<or> has_order_by stmt \<or> has_limit stmt)
        \<or> predicate_kind stmt = PREDICATE_ID_RANGE \<and> (select_count stmt \<or> has_order_by stmt)))"
  using assms
  by (cases "stmt_type stmt")
    (auto simp: planner_create_plan.simps explain_statement_def zero_statement_def index_range_enabled_def)

theorem explain_plan_agrees_witness:
  "planner_create_plan (explain_statement (zero_statement\<lparr>stmt_type := STMT_SELECT, predicate_kind := PREDICATE_ID_EQ, select_count := True\<rparr>))
   \<noteq> planner_create_plan (zero_statement\<lparr>stmt_type := STMT_SELECT, predicate_kind := PREDICATE_ID_EQ, select_count := True\<rparr>)"
  using explain_plan_agrees [of "zero_statement\<lparr>stmt_type := STMT_SELECT, predicate_kind := PREDICATE_ID_EQ, select_count := True\<rparr>"]
  by simp

section \<open>CREATE TABLE and INSERT\<close>

text \<open>
  C27: CREATE TABLE with at most fifteen columns of storable types, whose rows fit into a page, turns
  a database without a table into a well formed database with an empty table.
\<close>

theorem create_table_gives_empty_table:
  assumes "no_table s fl chain t"
    and "length (user_columns (col_defs stmt)) < MAX_COLUMNS" "\<forall>c \<in> set (user_columns (col_defs stmt)). col_sized c"
    and "8 + columns_size (user_columns (col_defs stmt)) < 65536"
      "32 + columns_size (user_columns (col_defs stmt)) \<le> unat (st_page_size s)"
  shows "\<exists>s' n m. exec_create_table s stmt = Some (done_with (Table_created (table_name stmt) n m), s')
    \<and> st_hdr s' = created_header (st_hdr s) (id_column # user_columns (col_defs stmt))
    \<and> db_ok s' fl chain 0 t \<and> table_of s' chain t = Map.empty"
  using exec_create_table_correct [OF assms] by blast

theorem create_table_gives_empty_table_witness:
  "\<exists>s' n m. exec_create_table demo_blank demo_create = Some (done_with (Table_created ''t'' n m), s') \<and> db_ok s' [] [1] 0 (Leaf 2 [])"
  using create_table_gives_empty_table [OF demo_blank_no_table demo_create_fits] by (auto simp: demo_create_def)

lemma db_execute_insert:
  assumes "db_ok s fl chain h t" "\<forall>n. fits n" "room s (n + 35)" "hd_next_id (st_hdr s) + 1 \<noteq> 0"
    and "plain_name tn" "\<forall>v \<in> set vs. plain_value v" "length (render_insert tn vs) \<le> 4095" "length vs \<le> MAX_COLUMNS"
    and "lc_acquire lc l (hd_next_id (st_hdr s)) LOCK_X = (0, l')"
  shows "\<exists>s' fl' chain' h' t'.
      db_execute fits lc s l (render_insert tn vs) = Some (done_with (Row_inserted (hd_next_id (st_hdr s))), s', lc_release_all lc l')
    \<and> db_ok s' fl' chain' h' t' \<and> table_of s chain t (hd_next_id (st_hdr s)) = None
    \<and> table_of s' chain' t' = (table_of s chain t)(hd_next_id (st_hdr s) \<mapsto> stored_row (st_hdr s) (hd_next_id (st_hdr s)) vs)
    \<and> hd_next_id (st_hdr s') = hd_next_id (st_hdr s) + 1 \<and> room s' n"
proof -
  let ?stmt = "zero_statement\<lparr>stmt_type := STMT_INSERT, table_name := tn, insert_values := vs\<rparr>"
  have p: "parse (render_insert tn vs) = Inr ?stmt" using parse_render_insert [OF assms(5-7)] assms(8) by simp
  from exec_insert_correct [where k = "hd_next_id (st_hdr s)" and stmt = ?stmt and acquire = "lc_acquire lc" and l = l and l' = l', OF assms(1-3) refl assms(4,9)] obtain s' fl' chain' h' t' where
    e: "exec_insert fits (lc_acquire lc) s l ?stmt = Some (done_with (Row_inserted (hd_next_id (st_hdr s))), s', l')"
      "db_ok s' fl' chain' h' t'" "table_of s chain t (hd_next_id (st_hdr s)) = None"
      "table_of s' chain' t' = (table_of s chain t)(hd_next_id (st_hdr s) \<mapsto> stored_row (st_hdr s) (hd_next_id (st_hdr s)) vs)"
      "hd_next_id (st_hdr s') = hd_next_id (st_hdr s) + 1" "room s' n"
    by (auto dest: arg_cong [of _ _ hd_next_id])
  have "statement_lock lc l (determine_lock ?stmt) = (0, l)"
    by (simp add: statement_lock_def determine_lock_def statement_mode_def no_request_def)
  moreover have "execute fits (lc_acquire lc) s l ?stmt = exec_insert fits (lc_acquire lc) s l ?stmt"
    by (simp add: execute_def planner_create_plan.simps)
  ultimately have "db_execute fits lc s l (render_insert tn vs)
      = Some (done_with (Row_inserted (hd_next_id (st_hdr s))), s', lc_release_all lc l')"
    using p e(1) by (simp add: db_execute_def)
  with e show ?thesis by blast
qed

definition lone_thread :: scheduled where
  "lone_thread = (\<lparr>sy_table = lock_table_init, sy_waits = (\<lambda>_. None)\<rparr>, [])"

lemma lone_thread_ok: "call_ok 3 lone_thread" "held_locks 3 lone_thread = {}"
  by (auto simp: call_ok_def lone_thread_def waits_ok_def held_locks_def holds_def live_iff lock_table_init_def
    intro: reachable.init [unfolded lock_table_init_def])

lemma lone_thread_acquires: "\<exists>l'. lc_acquire (table_calls 3) lone_thread i LOCK_X = (0, l')"
  by (simp add: table_calls_def lock_call_def lone_thread_def start_call_def lock_acquire_def own_point_lock_def
    acquire_point_try_def conflict_exists_def point_vs_point_def point_vs_range_def reader_should_wait_def upgradable_def
    lock_table_init_def calloc_result_def Let_def)

lemma demo_insert:
  "\<exists>s' l'. db_execute (\<lambda>n. True) (table_calls 3) demo_table lone_thread (render_insert ''t'' [''41''])
    = Some (done_with (Row_inserted 1), s', l')"
proof -
  obtain l' where "lc_acquire (table_calls 3) lone_thread (hd_next_id (st_hdr demo_table)) LOCK_X = (0, l')"
    using lone_thread_acquires by blast
  from db_execute_insert [OF demo_table_ok(1) _ _ _ _ _ _ _ this, of "\<lambda>n. True" 0 "''t''" "[''41'']"] show ?thesis
    by (auto simp: demo_table_ok(4) demo_next_id plain_name_def c_isspace_def plain_value_def render_insert_def quote_def MAX_COLUMNS_def)
qed

text \<open>
  C2: An INSERT statement, from its text to the release of its lock: the next id is locked
  exclusively, the table gains exactly that id with the values as their columns store them, the
  database stays well formed and the id counter moves on.
\<close>

theorem insert_statement_adds_row:
  assumes "db_ok s fl chain h t" "\<forall>n. fits n" "room s (n + 35)" "hd_next_id (st_hdr s) + 1 \<noteq> 0"
    and "plain_name tn" "\<forall>v \<in> set vs. plain_value v" "length (render_insert tn vs) \<le> 4095" "length vs \<le> MAX_COLUMNS"
    and "lc_acquire lc l (hd_next_id (st_hdr s)) LOCK_X = (0, l')"
  shows "\<exists>s' fl' chain' h' t'.
      db_execute fits lc s l (render_insert tn vs) = Some (done_with (Row_inserted (hd_next_id (st_hdr s))), s', lc_release_all lc l')
    \<and> db_ok s' fl' chain' h' t' \<and> table_of s chain t (hd_next_id (st_hdr s)) = None
    \<and> table_of s' chain' t' = (table_of s chain t)(hd_next_id (st_hdr s) \<mapsto> stored_row (st_hdr s) (hd_next_id (st_hdr s)) vs)
    \<and> hd_next_id (st_hdr s') = hd_next_id (st_hdr s) + 1 \<and> room s' n"
  by (rule db_execute_insert [OF assms])

theorem insert_statement_adds_row_witness:
  "\<exists>s' l'. db_execute (\<lambda>n. True) (table_calls 3) demo_table lone_thread (render_insert ''t'' [''41''])
    = Some (done_with (Row_inserted 1), s', l')"
proof -
  obtain l' where "lc_acquire (table_calls 3) lone_thread (hd_next_id (st_hdr demo_table)) LOCK_X = (0, l')"
    using lone_thread_acquires by blast
  from insert_statement_adds_row [OF demo_table_ok(1) _ _ _ _ _ _ _ this, of "\<lambda>n. True" 0 "''t''" "[''41'']"] show ?thesis
    by (auto simp: demo_table_ok(4) demo_next_id plain_name_def c_isspace_def plain_value_def render_insert_def quote_def MAX_COLUMNS_def)
qed

section \<open>SELECT\<close>

text \<open>
  C3: What SELECT shows is the table: by id the row of that id or that there is none, by a scan the
  rows the predicate accepts, each once and cut to the limit, and COUNT their number, with the row
  counter of the header as its fast path.
\<close>

theorem select_reads_table:
  assumes "db_ok s fl chain h t" "\<forall>n. fits n" "hd_next_id (st_hdr s) < 2 ^ 30" "has_limit stmt \<Longrightarrow> 0 < limit_count stmt"
  shows "exec_index_lookup fits s stmt =
      (case table_of s chain t (pred_id stmt) of
         None \<Rightarrow> Some (done_with (Id_not_found (pred_id stmt)))
       | Some vs \<Rightarrow> Some \<lparr>res_status = 0, res_message = Row_found, res_out = Some (render_table (st_hdr s) [vs])\<rparr>)
    \<and> (\<exists>vs. lists_table vs (table_of s chain t) \<and> exec_plain_scan fits s stmt =
        Some (rows_result (st_hdr s) Rows_found (limited stmt (filter (\<lambda>v. match_predicate (st_hdr s) v stmt) vs))))
    \<and> (\<exists>n. n = word_of_nat (card {k. \<exists>v. table_of s chain t k = Some v \<and> match_predicate (st_hdr s) v stmt})
        \<and> exec_count fits s stmt = Some \<lparr>res_status = 0, res_message = Count_is n, res_out = Some (count_text n)\<rparr>)"
proof -
  have "\<exists>vs. lists_table vs (table_of s chain t) \<and> exec_plain_scan fits s stmt =
        Some (rows_result (st_hdr s) Rows_found (limited stmt (filter (\<lambda>v. match_predicate (st_hdr s) v stmt) vs)))"
    by (rule plain_scan_table [OF assms(1-3)]) (rule assms(4))
  then show ?thesis
    using exec_index_lookup_correct [OF assms(1,2), of stmt] count_table [OF assms(1,2), of stmt] by blast
qed

theorem select_reads_table_witness:
  "exec_index_lookup (\<lambda>n. True) demo_table (zero_statement\<lparr>pred_id := 7\<rparr>) = Some (done_with (Id_not_found 7))
   \<and> (\<exists>out. exec_count (\<lambda>n. True) demo_table (zero_statement\<lparr>pred_id := 7\<rparr>) = Some \<lparr>res_status = 0, res_message = Count_is 0, res_out = Some out\<rparr>)"
  using select_reads_table [OF demo_table_ok(1), of "\<lambda>n. True" "zero_statement\<lparr>pred_id := 7\<rparr>"]
  by (simp add: demo_table_ok(2) demo_next_id zero_statement_def)

text \<open>
  C10: ORDER BY shows the matching rows in order of the column, and with LIMIT k the first k of
  them: sorted, and no row left out comes before a row shown. The quicksort and the top-k heap
  always return.
\<close>

theorem order_by_sorted_firsts:
  assumes "db_ok s fl chain h t" "\<forall>n. fits n" "hd_next_id (st_hdr s) < 2 ^ 26"
    and "has_limit stmt \<Longrightarrow> 0 < limit_count stmt \<and> unat (limit_count stmt) < 2 ^ 28"
    and "find_column_index (st_hdr s) (order_by_field stmt) = Some col_idx"
  shows "\<exists>vs rows. lists_table vs (table_of s chain t)
    \<and> exec_order_by fits s stmt = Some (rows_result (st_hdr s) Rows_found rows)
    \<and> sorted_firsts (compare_row_values (st_hdr s) col_idx (order_desc stmt))
        (order_limit stmt (length (filter (\<lambda>v. match_predicate (st_hdr s) v stmt) vs))) rows
        (filter (\<lambda>v. match_predicate (st_hdr s) v stmt) vs)"
  by (rule order_by_table [OF assms])

lemma demo_find_id: "find_column_index (st_hdr demo_table) ''id'' = Some 0"
  by (simp add: demo_table_ok(3) demo_columns created_header_def with_columns_def find_column_index_def
    id_column_def layout_cols.simps Let_def split_beta same_name_def upt_rec)

theorem order_by_sorted_firsts_witness:
  "\<exists>rows. exec_order_by (\<lambda>n. True) demo_table (zero_statement\<lparr>order_by_field := ''id'', has_limit := True, limit_count := 2\<rparr>)
    = Some (rows_result (st_hdr demo_table) Rows_found rows)"
  using order_by_sorted_firsts [OF demo_table_ok(1), of "\<lambda>n. True" "zero_statement\<lparr>order_by_field := ''id'', has_limit := True, limit_count := 2\<rparr>" 0]
  by (auto simp: demo_next_id demo_find_id)

text \<open>
  C23: For bounds that are not negative as signed numbers, the index range scan shows exactly the rows
  the predicate accepts, in increasing order of id: the tree's unsigned comparison and the
  predicate's signed one agree.
\<close>

theorem index_range_matches_predicate:
  assumes "db_ok s fl chain h t" "\<forall>n. fits n" "hd_next_id (st_hdr s) < 2 ^ 30"
    and "predicate_kind stmt = PREDICATE_ID_RANGE" "has_lo stmt \<Longrightarrow> range_lo stmt < 2 ^ 63" "has_hi stmt \<Longrightarrow> range_hi stmt < 2 ^ 63"
  shows "\<exists>rows. exec_index_range_scan fits s stmt = Some (rows_result (st_hdr s) Rows_found_range (limited stmt rows))
    \<and> lists_sorted rows (table_of s chain t) (\<lambda>v. match_predicate (st_hdr s) v stmt)"
  by (rule exec_index_range_scan_correct [OF assms])

theorem index_range_matches_predicate_witness:
  "exec_index_range_scan (\<lambda>n. True) demo_table (zero_statement\<lparr>predicate_kind := PREDICATE_ID_RANGE, has_lo := True, range_lo := 5\<rparr>)
    = Some (done_with (Rows_found_range 0))"
  using index_range_matches_predicate [OF demo_table_ok(1), of "\<lambda>n. True" "zero_statement\<lparr>predicate_kind := PREDICATE_ID_RANGE, has_lo := True, range_lo := 5\<rparr>"]
  by (auto simp: demo_next_id demo_table_ok(2) lists_sorted_def zero_statement_def limited_def rows_result_def done_with_def)

section \<open>Locks of a statement\<close>




text \<open>
  C9: A statement that returns leaves its thread without locks and the lock table reachable and
  well formed, on success, on a parse error and on a lock timeout, with the other threads doing
  anything in between.
\<close>

theorem statement_releases_locks:
  assumes "call_ok self l" "held_locks self l = {}"
    and "db_execute fits (table_calls self) s l sql = Some (r, s', l')"
  shows "call_ok self l' \<and> held_locks self l' = {} \<and> lt_ok (sy_table (fst l'))"
  using tl.db_execute_no_locks [OF assms] waits_ok_table by (auto simp: call_ok_def)

theorem statement_releases_locks_witness:
  "\<exists>s' l'. db_execute (\<lambda>n. True) (table_calls 3) demo_table lone_thread (render_insert ''t'' [''41''])
    = Some (done_with (Row_inserted 1), s', l') \<and> held_locks 3 l' = {}"
proof -
  obtain s' l' where r: "db_execute (\<lambda>n. True) (table_calls 3) demo_table lone_thread (render_insert ''t'' [''41''])
    = Some (done_with (Row_inserted 1), s', l')" using demo_insert by blast
  from statement_releases_locks [OF lone_thread_ok r] r show ?thesis by blast
qed

end
