(* ===== verification/Messages.thy ===== *)
theory Messages
  imports Executor
begin

text \<open>
  The texts of the executor's and \<open>db_execute\<close>'s messages, one equation per format string of
  \<open>src/sql/executor.c\<close> and \<open>src/db.c\<close>. They are Korean; \<open>utf8\<close> gives the bytes the source file has
  for a list of code points.
\<close>

definition utf8_char :: "nat \<Rightarrow> string" where
  "utf8_char n =
     (if n < 0x80 then [char_of n]
      else if n < 0x800 then [char_of (0xC0 + n div 64), char_of (0x80 + n mod 64)]
      else [char_of (0xE0 + n div 4096), char_of (0x80 + n div 64 mod 64), char_of (0x80 + n mod 64)])"

definition utf8 :: "nat list \<Rightarrow> string" where "utf8 ns = concat (map utf8_char ns)"

definition quote :: string where "quote = [CHR 0x27]"

primrec message_format :: "exec_message \<Rightarrow> string" where
  "message_format (Table_exists n) = utf8 [0xC624, 0xB958] @ '': '' @ quote @ n @ quote @ '' '' @ utf8 [0xD14C,
     0xC774, 0xBE14, 0xC774, 0x0020, 0xC774, 0xBBF8, 0x0020, 0xC874, 0xC7AC, 0xD569, 0xB2C8, 0xB2E4]"
| "message_format (Table_created n bytes cols) = quote @ n @ quote @ '' '' @ utf8 [0xD14C, 0xC774, 0xBE14, 0x0020,
     0xC0DD, 0xC131, 0x0020, 0xC644, 0xB8CC] @ '' (row_size='' @ show_nat (unat bytes) @ '', columns='' @
     show_nat (unat cols) @ '')''"
| "message_format No_table = utf8 [0xC624, 0xB958] @ '': '' @ utf8 [0xC0DD, 0xC131, 0xB41C, 0x0020, 0xD14C, 0xC774,
     0xBE14, 0xC774, 0x0020, 0xC5C6, 0xC2B5, 0xB2C8, 0xB2E4]"
| "message_format (Insert_lock_timeout i) = utf8 [0xC624, 0xB958] @ '': INSERT gap check timeout (id='' @
     show_nat (unat i) @ '', range lock '' @ utf8 [0xCDA9, 0xB3CC] @ '')''"
| "message_format Duplicate_key = utf8 [0xC624, 0xB958] @ '': '' @ utf8 [0xC911, 0xBCF5, 0xB41C, 0x0020, 0xD0A4,
     0xC785, 0xB2C8, 0xB2E4]"
| "message_format (Row_inserted i) = ''1'' @ utf8 [0xD589, 0x0020, 0xC0BD, 0xC785, 0x0020, 0xC644, 0xB8CC] @
     '' (id='' @ show_nat (unat i) @ '')''"
| "message_format (Id_not_found i) = utf8 [0xC624, 0xB958] @ '': id='' @ show_nat (unat i) @ utf8 [0xC778, 0x0020,
     0xD589, 0xC744, 0x0020, 0xCC3E, 0xC744, 0x0020, 0xC218, 0x0020, 0xC5C6, 0xC2B5, 0xB2C8, 0xB2E4]"
| "message_format Row_unreadable = utf8 [0xC624, 0xB958] @ '': '' @ utf8 [0xD589, 0x0020, 0xB370, 0xC774, 0xD130,
     0xB97C, 0x0020, 0xC77D, 0xC9C0, 0x0020, 0xBABB, 0xD588, 0xC2B5, 0xB2C8, 0xB2E4]"
| "message_format Row_found = ''1'' @ utf8 [0xD589, 0x0020, 0xC870, 0xD68C] @ '' (INDEX_LOOKUP)''"
| "message_format (Rows_found_range c) = show_nat (unat c) @ utf8 [0xD589, 0x0020, 0xC870, 0xD68C] @
     '' (INDEX_RANGE)''"
| "message_format Range_no_memory = utf8 [0xC624, 0xB958] @ '': INDEX_RANGE '' @ utf8 [0xB300, 0xC0C1, 0x0020,
     0xC218, 0xC9D1, 0x0020, 0xC911, 0x0020, 0xBA54, 0xBAA8, 0xB9AC, 0x0020, 0xD560, 0xB2F9, 0xC5D0, 0x0020, 0xC2E4,
     0xD328, 0xD588, 0xC2B5, 0xB2C8, 0xB2E4]"
| "message_format (Rows_found c) = show_nat (unat c) @ utf8 [0xD589, 0x0020, 0xC870, 0xD68C] @ '' (TABLE_SCAN)''"
| "message_format (Count_is c) = ''count = '' @ show_nat (unat c)"
| "message_format (Order_column_unknown n) = utf8 [0xC624, 0xB958] @ '': ORDER BY '' @ utf8 [0xB300, 0xC0C1, 0x0020,
     0xCEEC, 0xB7FC] @ '' '' @ quote @ n @ quote @ utf8 [0xB97C, 0x0020, 0xCC3E, 0xC744, 0x0020, 0xC218, 0x0020,
     0xC5C6, 0xC2B5, 0xB2C8, 0xB2E4]"
| "message_format Order_limit_no_memory = utf8 [0xC624, 0xB958] @ '': ORDER BY LIMIT '' @ utf8 [0xBC84, 0xD37C,
     0x0020, 0xD560, 0xB2F9, 0xC5D0, 0x0020, 0xC2E4, 0xD328, 0xD588, 0xC2B5, 0xB2C8, 0xB2E4]"
| "message_format Order_buffer_no_memory = utf8 [0xC624, 0xB958] @ '': ORDER BY '' @ utf8 [0xBC84, 0xD37C, 0x0020,
     0xD560, 0xB2F9, 0xC5D0, 0x0020, 0xC2E4, 0xD328, 0xD588, 0xC2B5, 0xB2C8, 0xB2E4]"
| "message_format Order_no_memory = utf8 [0xC624, 0xB958] @ '': ORDER BY '' @ utf8 [0xB300, 0xC0C1, 0x0020, 0xC218,
     0xC9D1, 0x0020, 0xC911, 0x0020, 0xBA54, 0xBAA8, 0xB9AC, 0x0020, 0xD560, 0xB2F9, 0xC5D0, 0x0020, 0xC2E4, 0xD328,
     0xD588, 0xC2B5, 0xB2C8, 0xB2E4]"
| "message_format Delete_no_memory = utf8 [0xC624, 0xB958] @ '': DELETE '' @ utf8 [0xB300, 0xC0C1, 0x0020, 0xC218,
     0xC9D1, 0x0020, 0xC911, 0x0020, 0xBA54, 0xBAA8, 0xB9AC, 0x0020, 0xD560, 0xB2F9, 0xC5D0, 0x0020, 0xC2E4, 0xD328,
     0xD588, 0xC2B5, 0xB2C8, 0xB2E4]"
| "message_format (Row_lock_timeout i) = utf8 [0xC624, 0xB958] @ '': row lock '' @ utf8 [0xD68D, 0xB4DD] @
     '' timeout (id='' @ show_nat (unat i) @ '', scan target)''"
| "message_format (Row_deleted i) = ''1'' @ utf8 [0xD589, 0x0020, 0xC0AD, 0xC81C, 0x0020, 0xC644, 0xB8CC] @
     '' (id='' @ show_nat (unat i) @ '')''"
| "message_format (Rows_deleted c) = show_nat (unat c) @ utf8 [0xD589, 0x0020, 0xC0AD, 0xC81C, 0x0020, 0xC644,
     0xB8CC] @ '' (TABLE_SCAN)''"
| "message_format (Column_unknown n) = utf8 [0xC624, 0xB958] @ '': '' @ utf8 [0xCEEC, 0xB7FC] @ '' '' @ quote @ n @
     quote @ utf8 [0xC744] @ ''('' @ utf8 [0xB97C] @ '') '' @ utf8 [0xCC3E, 0xC744, 0x0020, 0xC218, 0x0020, 0xC5C6,
     0xC2B5, 0xB2C8, 0xB2E4]"
| "message_format (Column_system n) = utf8 [0xC624, 0xB958] @ '': '' @ utf8 [0xC2DC, 0xC2A4, 0xD15C, 0x0020, 0xCEEC,
     0xB7FC] @ '' '' @ quote @ n @ quote @ utf8 [0xC740] @ ''('' @ utf8 [0xB294] @ '') '' @ utf8 [0xC218, 0xC815,
     0xD560, 0x0020, 0xC218, 0x0020, 0xC5C6, 0xC2B5, 0xB2C8, 0xB2E4]"
| "message_format (No_row_updated i) = ''0'' @ utf8 [0xD589, 0x0020, 0xC218, 0xC815] @ '' (id='' @
     show_nat (unat i) @ '' '' @ utf8 [0xC5C6, 0xC74C] @ '')''"
| "message_format (Row_updated i) = ''1'' @ utf8 [0xD589, 0x0020, 0xC218, 0xC815, 0x0020, 0xC644, 0xB8CC] @
     '' (id='' @ show_nat (unat i) @ '')''"
| "message_format Update_no_memory = utf8 [0xC624, 0xB958] @ '': UPDATE '' @ utf8 [0xB300, 0xC0C1, 0x0020, 0xC218,
     0xC9D1, 0x0020, 0xC911, 0x0020, 0xBA54, 0xBAA8, 0xB9AC, 0x0020, 0xD560, 0xB2F9, 0xC5D0, 0x0020, 0xC2E4, 0xD328,
     0xD588, 0xC2B5, 0xB2C8, 0xB2E4]"
| "message_format (Rows_updated c) = show_nat (unat c) @ utf8 [0xD589, 0x0020, 0xC218, 0xC815, 0x0020, 0xC644,
     0xB8CC] @ '' (TABLE_SCAN)''"
| "message_format (Table_missing n) = utf8 [0xC624, 0xB958] @ '': '' @ quote @ n @ quote @ '' '' @ utf8 [0xD14C,
     0xC774, 0xBE14, 0xC774, 0x0020, 0xC874, 0xC7AC, 0xD558, 0xC9C0, 0x0020, 0xC54A, 0xC2B5, 0xB2C8, 0xB2E4]"
| "message_format (Table_dropped n) = quote @ n @ quote @ '' '' @ utf8 [0xD14C, 0xC774, 0xBE14, 0x0020, 0xC0AD,
     0xC81C, 0x0020, 0xC644, 0xB8CC]"
| "message_format Plan_shown = utf8 [0xC2E4, 0xD589, 0x0020, 0xACC4, 0xD68D, 0x0020, 0xCD9C, 0xB825, 0x0020, 0xC644,
     0xB8CC]"
| "message_format Parse_failed = utf8 [0xC624, 0xB958] @ '': SQL '' @ utf8 [0xAD6C, 0xBB38, 0xC744, 0x0020, 0xD574,
     0xC11D, 0xD560, 0x0020, 0xC218, 0x0020, 0xC5C6, 0xC2B5, 0xB2C8, 0xB2E4]"
| "message_format (Range_lock_timeout low high) = utf8 [0xC624, 0xB958] @ '': range lock '' @ utf8 [0xD68D, 0xB4DD] @
     '' timeout (['' @ show_nat (unat low) @ '', '' @ show_nat (unat high) @ ''], 3'' @ utf8 [0xCD08, 0x0020, 0xCD08,
     0xACFC] @ '')''"
| "message_format (Point_lock_timeout i) = utf8 [0xC624, 0xB958] @ '': row lock '' @ utf8 [0xD68D, 0xB4DD] @
     '' timeout (id='' @ show_nat (unat i) @ '', 3'' @ utf8 [0xCD08, 0x0020, 0xCD08, 0xACFC] @ '')''"

text \<open>\<open>snprintf\<close> into \<open>message[512]\<close>.\<close>

definition message_text :: "exec_message \<Rightarrow> string" where
  "message_text m = take 511 (message_format m)"

lemma utf8_char_nonempty: "utf8_char n \<noteq> []" by (simp add: utf8_char_def)

lemma show_nat_nonempty: "show_nat n \<noteq> []" by (subst show_nat.simps) simp

lemma message_text_nonempty: "message_text m \<noteq> []"
  by (cases m) (simp_all add: message_text_def utf8_def utf8_char_nonempty show_nat_nonempty quote_def)

end
