(* ===== verification/Http.thy ===== *)
theory Http
  imports Exec_Values
begin

text \<open>
  The HTTP subset of \<open>src/server/http.c\<close>: reading one request from a connection and writing one
  response. A connection is the list of what the next \<open>recv\<close> calls find: a nonempty chunk of bytes,
  of which a call takes at most what fits its buffer, or an empty one, which is a timeout or an error;
  the empty list is a closed connection. Bytes are characters. \<open>recv\<close> appends to the 8192-byte
  buffer and ends it with a NUL, so the searches see the bytes before the first NUL.
\<close>

section \<open>Searching a C string\<close>

definition c_str :: "string \<Rightarrow> string" where "c_str s = takeWhile (\<lambda>c. c \<noteq> NUL) s"

text \<open>The result of a search is the rest of the text from the match on, as the pointer is in C.\<close>

fun find_text :: "('a list \<Rightarrow> bool) \<Rightarrow> 'a list \<Rightarrow> 'a list option" where
  "find_text matches s = (if matches s then Some s else case s of [] \<Rightarrow> None | _ # r \<Rightarrow> find_text matches r)"

declare find_text.simps [simp del]

definition starts_with :: "string \<Rightarrow> string \<Rightarrow> bool" where
  "starts_with needle s \<longleftrightarrow> take (length needle) s = needle"

definition starts_with_nocase :: "string \<Rightarrow> string \<Rightarrow> bool" where
  "starts_with_nocase needle s \<longleftrightarrow> map c_tolower (take (length needle) s) = map c_tolower needle"

definition strstr :: "string \<Rightarrow> string \<Rightarrow> string option" where
  "strstr hay needle = find_text (starts_with needle) hay"

definition strcasestr :: "string \<Rightarrow> string \<Rightarrow> string option" where
  "strcasestr hay needle = find_text (starts_with_nocase needle) hay"

section \<open>Reading a request\<close>

definition REQUEST_BUF :: nat where "REQUEST_BUF = 8192"
definition BODY_SIZE :: nat where "BODY_SIZE = 4096"

definition crlf :: string where "crlf = [CHR 0x0D, CHR 0x0A]"

datatype http_route = ROUTE_UNKNOWN | ROUTE_QUERY | ROUTE_STATS

record http_request =
  rq_valid :: bool
  rq_route :: http_route
  rq_keep_alive :: bool
  rq_body :: string

definition zero_request :: http_request where
  "zero_request = \<lparr>rq_valid = False, rq_route = ROUTE_UNKNOWN, rq_keep_alive = False, rq_body = []\<rparr>"

text \<open>The first \<open>\r\n\r\n\<close>: how many bytes the head has, the blank line included.\<close>

definition head_length :: "string \<Rightarrow> nat option" where
  "head_length buf = map_option (\<lambda>r. length (c_str buf) - length r + 4) (strstr (c_str buf) (crlf @ crlf))"

text \<open>\<open>atoi\<close> of what follows the first \<open>Content-Length:\<close>, 0 without one. The cast to \<open>size_t\<close> extends the sign.\<close>

definition content_length :: "string \<Rightarrow> u64" where
  "content_length buf =
     (case strcasestr (c_str buf) ''Content-Length:'' of None \<Rightarrow> 0 | Some r \<Rightarrow> scast (atoi (drop 15 r)))"

definition request_complete :: "string \<Rightarrow> bool" where
  "request_complete buf =
     (case head_length buf of None \<Rightarrow> False | Some n \<Rightarrow> word_of_nat (length buf) \<ge> word_of_nat n + content_length buf)"

text \<open>One \<open>recv\<close> of at most \<open>room\<close> bytes.\<close>

fun recv :: "nat \<Rightarrow> string list \<Rightarrow> string \<times> string list" where
  "recv room [] = ([], [])"
| "recv room (c # cs) = (if length c \<le> room then (c, cs) else (take room c, drop room c # cs))"

lemma recv_length: "length (fst (recv room conn)) \<le> room"
  by (cases conn) auto

function read_loop :: "string \<Rightarrow> string list \<Rightarrow> string \<times> string list" where
  "read_loop buf conn =
     (if length buf < REQUEST_BUF - 1 then
        let (got, conn) = recv (REQUEST_BUF - 1 - length buf) conn in
        if got = [] then (buf, conn)
        else if request_complete (buf @ got) then (buf @ got, conn)
        else read_loop (buf @ got) conn
      else (buf, conn))"
  by pat_completeness auto
termination
  by (relation "measure (\<lambda>(buf, conn). REQUEST_BUF - 1 - length buf)") (auto simp: neq_Nil_conv REQUEST_BUF_def)

declare read_loop.simps [simp del]

definition keep_alive_wanted :: "string \<Rightarrow> bool" where
  "keep_alive_wanted buf =
     (case strcasestr (c_str buf) ''Connection:'' of
        None \<Rightarrow> False | Some r \<Rightarrow> strcasestr r ''keep-alive'' \<noteq> None)"

text \<open>How many bytes of the body are copied: what was announced, what arrived and what fits.\<close>

definition body_copy :: "string \<Rightarrow> nat \<Rightarrow> nat" where
  "body_copy buf hdr_len = min (min (unat (content_length buf)) (length buf - hdr_len)) (BODY_SIZE - 1)"

definition parse_request :: "string \<Rightarrow> http_request" where
  "parse_request buf =
     (let req = zero_request\<lparr>rq_keep_alive := keep_alive_wanted buf\<rparr> in
      if starts_with ''GET /stats'' (c_str buf) then req\<lparr>rq_valid := True, rq_route := ROUTE_STATS\<rparr>
      else if \<not> starts_with ''POST /query'' (c_str buf) then req
      else case head_length buf of
        None \<Rightarrow> req\<lparr>rq_route := ROUTE_QUERY\<rparr>
      | Some hdr_len \<Rightarrow>
          req\<lparr>rq_valid := True, rq_route := ROUTE_QUERY, rq_body := trim (take (body_copy buf hdr_len) (drop hdr_len buf))\<rparr>)"

text \<open>\<open>None\<close> is the return value -1: nothing was read.\<close>

definition http_read_request :: "string list \<Rightarrow> http_request option \<times> string list" where
  "http_read_request conn =
     (case read_loop [] conn of (buf, conn) \<Rightarrow> (if buf = [] then None else Some (parse_request buf), conn))"

section \<open>Writing a response\<close>

definition response_head :: "nat \<Rightarrow> string \<Rightarrow> nat \<Rightarrow> bool \<Rightarrow> string" where
  "response_head status status_text body_len keep_alive =
     ''HTTP/1.1 '' @ show_nat status @ '' '' @ status_text @ crlf
     @ ''Content-Type: text/plain; charset=utf-8'' @ crlf
     @ ''Content-Length: '' @ show_nat body_len @ crlf
     @ ''Connection: '' @ (if keep_alive then ''keep-alive'' else ''close'') @ crlf
     @ crlf"

definition send_response :: "nat \<Rightarrow> string \<Rightarrow> string \<Rightarrow> bool \<Rightarrow> string" where
  "send_response status status_text body keep_alive =
     response_head status status_text (length body) keep_alive @ body"

definition http_send_ok :: "string \<Rightarrow> string" where
  "http_send_ok body = send_response 200 ''OK'' body False"

definition http_send_ok_keepalive :: "string \<Rightarrow> string" where
  "http_send_ok_keepalive body = send_response 200 ''OK'' body True"

definition http_send_error :: "string \<Rightarrow> string" where
  "http_send_error body = send_response 400 ''Bad Request'' body False"

definition http_send_error_keepalive :: "string \<Rightarrow> string" where
  "http_send_error_keepalive body = send_response 400 ''Bad Request'' body True"

end
