(* ===== verification/Server.thy ===== *)
theory Server
  imports Messages Http Db_Execute Frame_Index
begin

text \<open>
  The server of \<open>src/server/server.c\<close>: the answer to one request, a connection's loop, the table of
  connections, and a step relation over the accepting thread and the threads of the connections.
  A thread runs a statement in one step; what the statements of different threads do to each other's
  locks is in the lock manager, an argument as in \<open>db_execute\<close>.
\<close>

definition MAX_CONNECTIONS :: nat where "MAX_CONNECTIONS = 128"

section \<open>The counters and the table of connections\<close>

record server =
  sv_running :: bool
  sv_active :: int
  sv_total :: u64
  sv_processed :: u64
  sv_fds :: "int list"

definition server_init :: server where
  "server_init = \<lparr>sv_running = True, sv_active = 0, sv_total = 0, sv_processed = 0, sv_fds = replicate MAX_CONNECTIONS (-1)\<rparr>"

fun first_free :: "int list \<Rightarrow> nat option" where
  "first_free [] = None"
| "first_free (fd # fds) = (if fd = -1 then Some 0 else map_option Suc (first_free fds))"

definition register_connection_fd :: "server \<Rightarrow> int \<Rightarrow> int \<times> server" where
  "register_connection_fd sv fd =
     (if sv_active sv \<ge> int MAX_CONNECTIONS then (-1, sv)
      else case first_free (sv_fds sv) of
        None \<Rightarrow> (-1, sv)
      | Some i \<Rightarrow> (int i, sv\<lparr>sv_fds := (sv_fds sv)[i := fd], sv_active := sv_active sv + 1\<rparr>))"

definition unregister_connection_slot :: "server \<Rightarrow> int \<Rightarrow> server" where
  "unregister_connection_slot sv slot =
     (let sv = (if 0 \<le> slot \<and> slot < int MAX_CONNECTIONS then sv\<lparr>sv_fds := (sv_fds sv)[nat slot := -1]\<rparr> else sv)
      in sv\<lparr>sv_active := sv_active sv - 1\<rparr>)"

section \<open>Statistics\<close>

definition count_frames :: "(frame \<Rightarrow> bool) \<Rightarrow> frame list \<Rightarrow> string" where
  "count_frames p frames = show_nat (length (filter (\<lambda>f. fr_valid f \<and> p f) frames))"

definition dquote :: string where "dquote = [CHR 0x22]"

definition json_field :: "string \<Rightarrow> string \<Rightarrow> string" where
  "json_field name val = ''    '' @ dquote @ name @ dquote @ '': '' @ val"

definition json_group :: "string \<Rightarrow> string list \<Rightarrow> string" where
  "json_group name fs =
     ''  '' @ dquote @ name @ dquote @ '': {'' @ newline
     @ concat (separated ('','' @ newline) (map (\<lambda>f. [f]) fs)) @ newline @ ''  }''"

definition stats_body :: "server \<Rightarrow> lock_stats \<Rightarrow> frame list \<Rightarrow> store \<Rightarrow> string" where
  "stats_body sv ls frames s =
     (let hdr = st_hdr s in
     ''{'' @ newline
     @ concat (separated ('','' @ newline) (map (\<lambda>g. [g])
        [json_group ''server''
          [json_field ''model'' (dquote @ ''thread-per-connection'' @ dquote),
           json_field ''max_connections'' (show_nat MAX_CONNECTIONS),
           json_field ''active_connections'' (show_int (sv_active sv)),
           json_field ''total_connections'' (show_nat (unat (sv_total sv))),
           json_field ''total_processed'' (show_nat (unat (sv_processed sv)))],
         json_group ''locks''
          [json_field ''total'' (show_nat (total ls)),
           json_field ''shared'' (show_nat (shared ls)),
           json_field ''exclusive'' (show_nat (exclusive ls))],
         json_group ''pager''
          [json_field ''page_size'' (show_nat (unat (st_page_size s))),
           json_field ''max_frames'' (show_nat MAX_FRAMES),
           json_field ''frames_used'' (count_frames (\<lambda>f. True) frames),
           json_field ''frames_dirty'' (count_frames fr_dirty frames),
           json_field ''frames_pinned'' (count_frames (\<lambda>f. fr_pin f > 0) frames),
           json_field ''total_pages'' (show_nat (unat (hd_next_page_id hdr))),
           json_field ''free_pages'' (show_nat (unat (hd_free_page_head hdr)))],
         json_group ''db''
          [json_field ''row_count'' (show_nat (unat (hd_row_count hdr))),
           json_field ''next_id'' (show_nat (unat (hd_next_id hdr)))]]))
     @ newline @ ''}'' @ newline)"

definition handle_stats :: "server \<Rightarrow> lock_stats \<Rightarrow> frame list \<Rightarrow> store \<Rightarrow> bool \<Rightarrow> string" where
  "handle_stats sv ls frames s keep_alive =
     (if keep_alive then http_send_ok_keepalive (stats_body sv ls frames s)
      else http_send_ok (stats_body sv ls frames s))"

section \<open>One request\<close>

definition RESPONSE_BUF :: nat where "RESPONSE_BUF = 8192"

text \<open>The body of an answer: the rows, then the message and a line feed, as far as the buffer goes.\<close>

definition response_body :: "exec_result \<Rightarrow> string" where
  "response_body res =
     (let out = (case res_out res of None \<Rightarrow> [] | Some out \<Rightarrow> take (RESPONSE_BUF - 1) out);
          msg = message_text (res_message res)
      in if msg \<noteq> [] \<and> length out < RESPONSE_BUF - 2 then out @ take (RESPONSE_BUF - length out - 1) (msg @ newline)
         else out)"

definition respond :: "exec_result \<Rightarrow> bool \<Rightarrow> string" where
  "respond res ka =
     (if res_status res = 0 then
        if ka then http_send_ok_keepalive (response_body res) else http_send_ok (response_body res)
      else if ka then http_send_error_keepalive (response_body res) else http_send_error (response_body res))"

definition bad_request_text :: string where
  "bad_request_text = utf8 [0xC624, 0xB958] @ '': '' @ utf8 [0xC798, 0xBABB, 0xB41C, 0x0020, 0xC694, 0xCCAD, 0xC785, 0xB2C8, 0xB2E4]"

text \<open>
  \<open>handle_one_request\<close>: the return value, what was sent, what the connection still holds, and the
  state. \<open>frames\<close> are the frames of the page cache at that time, which the page store leaves open;
  only the statistics show them.
\<close>

type_synonym 'l served = "int \<times> string \<times> string list \<times> server \<times> store \<times> 'l"

definition handle_one_request ::
  "(nat \<Rightarrow> bool) \<Rightarrow> 'l lock_calls \<Rightarrow> ('l \<Rightarrow> lock_stats) \<Rightarrow> frame list \<Rightarrow> server \<Rightarrow> store \<Rightarrow> 'l \<Rightarrow> string list
    \<Rightarrow> 'l served option" where
  "handle_one_request fits lc lstats frames sv s l conn =
     (case http_read_request conn of
        (None, conn) \<Rightarrow> Some (-1, [], conn, sv, s, l)
      | (Some req, conn) \<Rightarrow>
          let ka = rq_keep_alive req; rc = (if ka then 1 else 0) in
          if \<not> rq_valid req then Some (0, http_send_error bad_request_text, conn, sv, s, l)
          else if rq_route req = ROUTE_STATS then
            Some (rc, handle_stats sv (lstats l) frames s ka, conn, sv, s, l)
          else map_option
            (\<lambda>(res, s, l). (rc, respond res ka, conn, sv\<lparr>sv_processed := sv_processed sv + 1\<rparr>, s, l))
            (db_execute fits lc s l (c_str (rq_body req))))"

section \<open>Accepting and serving connections\<close>

definition too_many_text :: string where
  "too_many_text = utf8 [0xC624, 0xB958] @ '': '' @ utf8 [0xCD5C, 0xB300, 0x0020, 0xC5F0, 0xACB0, 0x0020, 0xC218, 0x0020, 0xCD08, 0xACFC]"

text \<open>
  The body of the accept loop for a connection \<open>fd\<close>: whether the socket option could be set and the
  thread be created are arguments. The result is the slot of the new thread, and what was sent.
\<close>

definition accept_connection :: "server \<Rightarrow> int \<Rightarrow> bool \<Rightarrow> bool \<Rightarrow> nat option \<times> string \<times> server" where
  "accept_connection sv fd option_set thread_created =
     (if \<not> option_set then (None, [], sv)
      else
        let sv = sv\<lparr>sv_total := sv_total sv + 1\<rparr>;
            (slot, sv) = register_connection_fd sv fd
        in if slot < 0 then (None, http_send_error too_many_text, sv)
           else if \<not> thread_created then (None, [], unregister_connection_slot sv slot)
           else (Some (nat slot), [], sv))"

text \<open>
  A connection's thread serves requests, then closes its socket, then gives its slot back. The
  accepting thread leaves its loop when it sees \<open>g_running\<close> cleared, shuts the sockets down, waits
  until no connection is left and closes the database.
\<close>

datatype worker = Serving int "string list" | Closed

datatype main_thread = Accepting | Draining | Stopped

record 'l world =
  w_server :: server
  w_store :: store
  w_locks :: 'l
  w_workers :: "nat \<Rightarrow> worker option"
  w_main :: main_thread

inductive server_step :: "(nat \<Rightarrow> 'l lock_calls) \<Rightarrow> ('l \<Rightarrow> lock_stats) \<Rightarrow> ('l \<Rightarrow> 'l) \<Rightarrow> 'l world \<Rightarrow> 'l world \<Rightarrow> bool"
  for lc lstats destroy where
  interrupt: "server_step lc lstats destroy w (w\<lparr>w_server := (w_server w)\<lparr>sv_running := False\<rparr>\<rparr>)"
| accept: "w_main w = Accepting \<Longrightarrow> 0 \<le> fd \<Longrightarrow>
    accept_connection (w_server w) fd option_set thread_created = (slot, sent, sv) \<Longrightarrow>
    server_step lc lstats destroy w
      (w\<lparr>w_server := sv, w_workers := (case slot of None \<Rightarrow> w_workers w | Some i \<Rightarrow> (w_workers w)(i \<mapsto> Serving fd conn))\<rparr>)"
| serve: "w_workers w i = Some (Serving fd conn) \<Longrightarrow>
    handle_one_request fits (lc i) lstats frames (w_server w) (w_store w) (w_locks w) conn
      = Some (rc, sent, conn', sv, s, l) \<Longrightarrow>
    server_step lc lstats destroy w
      (w\<lparr>w_server := sv, w_store := s, w_locks := l,
         w_workers := (w_workers w)(i \<mapsto> (if rc \<le> 0 then Closed else Serving fd conn'))\<rparr>)"
| unregister: "w_workers w i = Some Closed \<Longrightarrow>
    server_step lc lstats destroy w
      (w\<lparr>w_server := unregister_connection_slot (w_server w) (int i), w_workers := (w_workers w)(i := None)\<rparr>)"
| shutdown: "w_main w = Accepting \<Longrightarrow> \<not> sv_running (w_server w) \<Longrightarrow>
    server_step lc lstats destroy w (w\<lparr>w_main := Draining\<rparr>)"
| stop: "w_main w = Draining \<Longrightarrow> sv_active (w_server w) \<le> 0 \<Longrightarrow>
    server_step lc lstats destroy w (w\<lparr>w_main := Stopped, w_locks := destroy (w_locks w)\<rparr>)"

definition server_start :: "store \<Rightarrow> 'l \<Rightarrow> 'l world" where
  "server_start s l = \<lparr>w_server = server_init, w_store = s, w_locks = l, w_workers = (\<lambda>_. None), w_main = Accepting\<rparr>"

inductive served :: "(nat \<Rightarrow> 'l lock_calls) \<Rightarrow> ('l \<Rightarrow> lock_stats) \<Rightarrow> ('l \<Rightarrow> 'l) \<Rightarrow> store \<Rightarrow> 'l \<Rightarrow> 'l world \<Rightarrow> bool"
  for lc lstats destroy s l where
  start: "served lc lstats destroy s l (server_start s l)"
| step: "served lc lstats destroy s l w \<Longrightarrow> server_step lc lstats destroy w w' \<Longrightarrow> served lc lstats destroy s l w'"

inductive_cases server_stepE: "server_step lc lstats destroy w w'"

end
