(* ===== verification/Http_Correct.thy ===== *)
theory Http_Correct
  imports Http
begin

text \<open>
  Reading a request: for a POST with a head, an announced length and a body, the request that
  \<open>http_read_request\<close> returns does not depend on how the network cut it into chunks, and what comes
  after it stays on the connection.
\<close>

section \<open>Searches\<close>

lemma find_text_some: "find_text P s = Some r \<Longrightarrow> P r \<and> (\<exists>p. s = p @ r)"
proof (induction s)
  case (Cons c s)
  show ?case
  proof (cases "P (c # s)")
    case False
    then have "find_text P s = Some r" using Cons.prems by (simp add: find_text.simps [of P "c # s"])
    from Cons.IH [OF this] obtain p where "P r" "s = p @ r" by auto
    then have "c # s = (c # p) @ r" by simp
    then show ?thesis using \<open>P r\<close> by blast
  qed (use Cons.prems in \<open>simp add: find_text.simps [of P "c # s"]\<close>)
qed (auto simp: find_text.simps [of P "[]"] split: if_splits)

lemma find_text_suffix_length: "find_text P s = Some r \<Longrightarrow> length r \<le> length s"
  using find_text_some [of P s r] by auto

lemma find_text_append:
  assumes "find_text P s = Some r"
    and "\<And>x. length r \<le> length x \<Longrightarrow> P (x @ t) \<longleftrightarrow> P x"
  shows "find_text P (s @ t) = Some (r @ t)"
  using assms
proof (induction s)
  case Nil
  then have "P []" "r = []" by (simp_all add: find_text.simps [of P "[]"] split: if_splits)
  then have "P t" using Nil(2) [of "[]"] by simp
  then show ?case using \<open>r = []\<close> by (subst find_text.simps) simp
next
  case (Cons c s)
  show ?case
  proof (cases "P (c # s)")
    case True
    then have r: "r = c # s" using Cons.prems(1) by (simp add: find_text.simps [of P "c # s"])
    then have "P (c # s @ t)" using True Cons.prems(2) [of "c # s"] by simp
    then show ?thesis by (simp add: r find_text.simps [of P "c # (s @ t)"])
  next
    case False
    then have r: "find_text P s = Some r" using Cons.prems(1) by (simp add: find_text.simps [of P "c # s"])
    have "length r \<le> length s" using find_text_suffix_length [OF r] .
    then have "\<not> P (c # s @ t)" using False Cons.prems(2) [of "c # s"] by simp
    then show ?thesis using Cons.IH [OF r Cons.prems(2)] by (simp add: find_text.simps [of P "c # (s @ t)"])
  qed
qed

lemma starts_with_length: "starts_with needle s \<Longrightarrow> length needle \<le> length s"
  by (metis length_take min.absorb_iff2 min.commute starts_with_def)

lemma starts_with_nocase_length: "starts_with_nocase needle s \<Longrightarrow> length needle \<le> length s"
  unfolding starts_with_nocase_def by (drule arg_cong [of _ _ length]) auto

lemma strstr_append:
  assumes "strstr s needle = Some r"
  shows "strstr (s @ t) needle = Some (r @ t)"
proof -
  have "length needle \<le> length r"
    using find_text_some [OF assms [unfolded strstr_def]] by (auto dest: starts_with_length)
  then show ?thesis using assms unfolding strstr_def by (intro find_text_append) (auto simp: starts_with_def)
qed

lemma strcasestr_append:
  assumes "strcasestr s needle = Some r"
  shows "strcasestr (s @ t) needle = Some (r @ t)"
proof -
  have "length needle \<le> length r"
    using find_text_some [OF assms [unfolded strcasestr_def]] by (auto dest: starts_with_nocase_length)
  then show ?thesis using assms unfolding strcasestr_def
    by (intro find_text_append) (auto simp: starts_with_nocase_def)
qed

lemma strstr_prefix_none:
  assumes "strstr (s @ t) needle = Some needle" "t \<noteq> []"
  shows "strstr s needle = None"
proof (rule ccontr)
  assume "strstr s needle \<noteq> None"
  then obtain r where r: "strstr s needle = Some r" by auto
  have "r @ t = needle" using strstr_append [OF r, of t] assms(1) by simp
  moreover have "length needle \<le> length r"
    using find_text_some [OF r [unfolded strstr_def]] by (auto dest: starts_with_length)
  ultimately show False using assms(2) by auto
qed

lemma c_str_id: "NUL \<notin> set s \<Longrightarrow> c_str s = s"
  by (auto simp: c_str_def takeWhile_eq_all_conv)

section \<open>A framed request\<close>

text \<open>
  A head without a blank line in it, the announced length of the body, and room for all of it in
  the buffer.
\<close>

definition head_block :: "string \<Rightarrow> string" where "head_block head = head @ crlf @ crlf"

definition request_text :: "string \<Rightarrow> string \<Rightarrow> string" where "request_text head body = head_block head @ body"

definition framed_request :: "string \<Rightarrow> string \<Rightarrow> bool" where
  "framed_request head body \<longleftrightarrow>
     NUL \<notin> set (head @ body) \<and> starts_with ''POST /query'' head
     \<and> strstr (head_block head) (crlf @ crlf) = Some (crlf @ crlf)
     \<and> (case strcasestr head ''Content-Length:'' of
          None \<Rightarrow> False
        | Some r \<Rightarrow> skip_ws (drop 15 r) \<noteq> [] \<and> strtoll (drop 15 r) = int (length body))
     \<and> length head + 4 + length body < REQUEST_BUF"

lemma length_head_block: "length (head_block head) = length head + 4" by (simp add: head_block_def crlf_def)

lemma framed_request_text:
  assumes "framed_request head body"
  shows "NUL \<notin> set (request_text head body)" "length (request_text head body) = length head + 4 + length body"
    "length (request_text head body) < REQUEST_BUF" "NUL \<notin> set body"
  using assms by (simp_all add: framed_request_def request_text_def head_block_def crlf_def NUL_def)

lemma c_str_head_block:
  assumes "framed_request head body" "NUL \<notin> set b"
  shows "c_str (head_block head @ b) = head_block head @ b"
  using framed_request_text(1) [OF assms(1)] assms(2) by (intro c_str_id) (auto simp: request_text_def)

lemma strtoll_crlf:
  assumes "skip_ws x \<noteq> []"
  shows "strtoll (x @ crlf @ y) = strtoll x"
proof -
  have sp: "skip_ws (x @ z) = skip_ws x @ z" for z
    using assms by (auto simp: skip_ws_def dropWhile_append dropWhile_eq_Nil_conv)
  have dig: "takeWhile c_isdigit (z @ crlf @ y) = takeWhile c_isdigit z" for z
  proof -
    have "\<not> c_isdigit (CHR 0x0D)" by (simp add: c_isdigit_def char_val_def)
    then show ?thesis by (induction z) (simp_all add: crlf_def)
  qed
  obtain c w where cw: "skip_ws x = c # w" using assms by (cases "skip_ws x") auto
  show ?thesis using dig [of w] dig [of "c # w"] by (simp add: strtoll_def sp cw Let_def char_at_def)
qed

text \<open>What the loop sees in a buffer \<open>p\<close> after which \<open>q\<close> is still to come.\<close>

lemma head_incomplete:
  assumes framed: "framed_request head body" and p: "request_text head body = p @ q" and short: "length p < length head + 4"
  shows "head_length p = None"
proof -
  define t where "t = drop (length p) (head_block head)"
  have "length p \<le> length (head_block head)" using short by (simp add: length_head_block)
  then have "take (length p) (head_block head) = take (length p) (request_text head body)"
    by (simp add: request_text_def)
  also have "\<dots> = p" by (simp add: p)
  finally have e: "p @ t = head_block head" unfolding t_def by (metis append_take_drop_id)
  have "t \<noteq> []" using short by (simp add: t_def length_head_block)
  then have "strstr p (crlf @ crlf) = None"
    using framed e by (intro strstr_prefix_none [of p t]) (auto simp: framed_request_def)
  moreover have "c_str p = p" using framed_request_text(1) [OF framed] p by (intro c_str_id) auto
  ultimately show ?thesis by (simp add: head_length_def)
qed

lemma head_found:
  assumes framed: "framed_request head body" and b: "NUL \<notin> set b"
  shows "head_length (head_block head @ b) = Some (length head + 4)"
proof -
  have "strstr (head_block head @ b) (crlf @ crlf) = Some ((crlf @ crlf) @ b)"
    using framed by (intro strstr_append) (auto simp: framed_request_def)
  then show ?thesis by (simp add: head_length_def c_str_head_block [OF assms] length_head_block crlf_def)
qed

lemma scast_small:
  assumes n: "n < 2 ^ 31"
  shows "(scast (word_of_nat n :: u32) :: u64) = word_of_nat n"
proof -
  have "sint (word_of_nat n :: u32) = int n"
    using n by (simp add: sint_uint unsigned_of_nat take_bit_nat_eq_self signed_take_bit_int_eq_self take_bit_int_eq_self)
  then show ?thesis by (simp add: scast_eq)
qed

lemma announced:
  assumes framed: "framed_request head body" and b: "NUL \<notin> set b"
  shows "content_length (head_block head @ b) = word_of_nat (length body)"
proof -
  obtain r where r: "strcasestr head ''Content-Length:'' = Some r"
    and v: "skip_ws (drop 15 r) \<noteq> []" "strtoll (drop 15 r) = int (length body)"
    using framed by (auto simp: framed_request_def split: option.splits)
  have "15 \<le> length r" using find_text_some [OF r [unfolded strcasestr_def]] by (auto dest: starts_with_nocase_length)
  then have "drop 15 (r @ crlf @ crlf @ b) = drop 15 r @ crlf @ crlf @ b" by simp
  then have "strtoll (drop 15 (r @ crlf @ crlf @ b)) = int (length body)"
    using v(2) strtoll_crlf [OF v(1), of "crlf @ b"] by simp
  moreover have "strcasestr (head_block head @ b) ''Content-Length:'' = Some (r @ crlf @ crlf @ b)"
    using strcasestr_append [OF r, of "crlf @ crlf @ b"] by (simp add: head_block_def)
  moreover have "length body < 2 ^ 31" using framed_request_text(2,3) [OF framed] by (simp add: REQUEST_BUF_def)
  ultimately show ?thesis
    using c_str_head_block [OF assms] scast_small [of "length body"] by (simp add: content_length_def atoi_def)
qed

lemma u64_le_sum:
  "a < 8192 \<Longrightarrow> b < 8192 \<Longrightarrow> c < 8192 \<Longrightarrow> (word_of_nat a + word_of_nat b :: u64) \<le> word_of_nat c \<longleftrightarrow> a + b \<le> c"
  by (simp add: word_le_nat_alt unat_of_nat_small flip: of_nat_add)

lemma complete_iff:
  assumes framed: "framed_request head body" and p: "request_text head body = p @ q"
  shows "request_complete p \<longleftrightarrow> q = []"
proof (cases "length p < length head + 4")
  case True
  then show ?thesis
    using head_incomplete [OF assms True] p framed_request_text(2) [OF framed] by (auto simp: request_complete_def)
next
  case False
  define b where "b = drop (length head + 4) p"
  have "take (length head + 4) p = take (length (head_block head)) (request_text head body)"
    using False by (simp add: p length_head_block)
  then have "take (length head + 4) p = head_block head" by (simp add: request_text_def)
  then have pb: "p = head_block head @ b" unfolding b_def by (metis append_take_drop_id)
  then have q: "body = b @ q" using p by (simp add: request_text_def)
  have n: "NUL \<notin> set b" using framed_request_text(1) [OF framed] by (auto simp: p pb)
  have l: "length p = length head + 4 + length b" "length body = length b + length q"
    by (simp_all add: pb q length_head_block)
  have "length head + 4 + length body < 8192" using framed_request_text(2,3) [OF framed] by (simp add: REQUEST_BUF_def)
  then show ?thesis
    using head_found [OF framed n] announced [OF framed n] u64_le_sum [of "length head + 4" "length body" "length p"] l
    by (simp add: request_complete_def flip: pb)
qed

lemma read_loop_framed:
  assumes framed: "framed_request head body"
  shows "request_text head body = buf @ concat cs \<Longrightarrow> [] \<notin> set cs \<Longrightarrow> cs \<noteq> [] \<Longrightarrow>
    read_loop buf (cs @ later) = (request_text head body, later)"
proof (induction cs arbitrary: buf)
  case (Cons c cs)
  have "length buf + length c < REQUEST_BUF" "c \<noteq> []"
    using Cons.prems framed_request_text(3) [OF framed] by auto
  then have r: "recv (REQUEST_BUF - 1 - length buf) (c # cs @ later) = (c, cs @ later)"
    and b: "length buf < REQUEST_BUF - 1" and c: "c \<noteq> []" by (auto simp: neq_Nil_conv)
  have e: "request_text head body = (buf @ c) @ concat cs" using Cons.prems(1) by simp
  have l: "read_loop buf (c # cs @ later) =
      (if request_complete (buf @ c) then (buf @ c, cs @ later) else read_loop (buf @ c) (cs @ later))"
    using r b c by (subst read_loop.simps) (simp del: recv.simps)
  show ?case
  proof (cases "cs = []")
    case True
    then show ?thesis using complete_iff [OF framed e] e l by simp
  next
    case False
    then have "concat cs \<noteq> []" using Cons.prems(2) by (cases cs) auto
    then show ?thesis using complete_iff [OF framed e] Cons.IH [OF e] Cons.prems(2) False l by simp
  qed
qed simp

lemma parse_framed:
  assumes framed: "framed_request head body"
  shows "parse_request (request_text head body) =
     \<lparr>rq_valid = True, rq_route = ROUTE_QUERY, rq_keep_alive = keep_alive_wanted (request_text head body),
      rq_body = trim (take (BODY_SIZE - 1) body)\<rparr>"
proof -
  note fr = framed_request_text [OF framed]
  have "take (length ''POST /query'') head = ''POST /query''"
    using framed unfolding framed_request_def starts_with_def by blast
  then obtain z where z: "head = ''POST /query'' @ z"
    using append_take_drop_id [of "length ''POST /query''" head] by (metis (no_types))
  have h: "head_length (request_text head body) = Some (length head + 4)"
    using head_found [OF framed fr(4)] by (simp add: request_text_def)
  have c: "content_length (request_text head body) = word_of_nat (length body)"
    using announced [OF framed fr(4)] by (simp add: request_text_def)
  have "length body < 8192" using fr(2,3) by (simp add: REQUEST_BUF_def)
  then have "body_copy (request_text head body) (length head + 4) = min (length body) (BODY_SIZE - 1)"
    using c fr(2) by (simp add: body_copy_def unat_of_nat_small)
  moreover have "drop (length head + 4) (request_text head body) = body"
    by (simp add: request_text_def flip: length_head_block)
  moreover have "take (min (length body) k) body = take k body" for k by (simp add: min_def)
  moreover have "starts_with ''POST /query'' (request_text head body)" "\<not> starts_with ''GET /stats'' (request_text head body)"
    by (simp_all add: starts_with_def request_text_def head_block_def z)
  ultimately show ?thesis
    using h c_str_id [OF fr(1)] by (simp add: parse_request_def zero_request_def)
qed

lemma http_read_framed:
  assumes framed: "framed_request head body" and cs: "concat cs = request_text head body" "[] \<notin> set cs"
  shows "http_read_request (cs @ later) =
    (Some \<lparr>rq_valid = True, rq_route = ROUTE_QUERY, rq_keep_alive = keep_alive_wanted (request_text head body),
       rq_body = trim (take (BODY_SIZE - 1) body)\<rparr>, later)"
proof -
  have ne: "request_text head body \<noteq> []" by (simp add: request_text_def head_block_def crlf_def)
  then have "cs \<noteq> []" using cs(1) by auto
  then have "read_loop [] (cs @ later) = (request_text head body, later)"
    using read_loop_framed [OF framed, of "[]" cs later] cs by simp
  then show ?thesis using ne by (simp add: http_read_request_def parse_framed [OF framed])
qed

end
