(* ===== verification/Server_Correct.thy ===== *)
theory Server_Correct
  imports Server Http_Correct
begin

text \<open>
  The server: the table of connections and its counter agree with the threads that run, at most 128
  of them, and none when the database is closed; a request is answered with what \<open>db_execute\<close> gives.
\<close>

section \<open>The table of connections\<close>

definition used_slots :: "server \<Rightarrow> nat set" where
  "used_slots sv = {i. i < length (sv_fds sv) \<and> sv_fds sv ! i \<noteq> -1}"

definition table_ok :: "server \<Rightarrow> bool" where
  "table_ok sv \<longleftrightarrow> length (sv_fds sv) = MAX_CONNECTIONS \<and> sv_active sv = int (card (used_slots sv))"

lemma used_slots_bound: "used_slots sv \<subseteq> {..<length (sv_fds sv)}" "finite (used_slots sv)"
  by (auto simp: used_slots_def)

lemma used_slots_card: "table_ok sv \<Longrightarrow> card (used_slots sv) \<le> MAX_CONNECTIONS"
  using card_mono [OF _ used_slots_bound(1) [of sv]] by (simp add: table_ok_def)

lemma first_free_spec:
  "case first_free fds of None \<Rightarrow> -1 \<notin> set fds | Some i \<Rightarrow> i < length fds \<and> fds ! i = -1"
  by (induction fds) (auto split: option.splits)

lemma slot_register_ok:
  assumes ok: "table_ok sv" and fd: "0 \<le> fd"
  shows "if card (used_slots sv) = MAX_CONNECTIONS then register_connection_fd sv fd = (-1, sv)
    else \<exists>i. i \<notin> used_slots sv \<and> i < MAX_CONNECTIONS \<and>
      register_connection_fd sv fd = (int i, sv\<lparr>sv_fds := (sv_fds sv)[i := fd], sv_active := sv_active sv + 1\<rparr>)"
proof (cases "card (used_slots sv) = MAX_CONNECTIONS")
  case False
  have "first_free (sv_fds sv) \<noteq> None"
  proof
    assume "first_free (sv_fds sv) = None"
    then have "-1 \<notin> set (sv_fds sv)" using first_free_spec [of "sv_fds sv"] by simp
    then have "used_slots sv = {..<MAX_CONNECTIONS}"
      using ok by (auto simp: used_slots_def table_ok_def in_set_conv_nth)
    then show False using False by simp
  qed
  then obtain i where i: "first_free (sv_fds sv) = Some i" by auto
  moreover have "i \<notin> used_slots sv" "i < MAX_CONNECTIONS"
    using first_free_spec [of "sv_fds sv"] i ok by (auto simp: used_slots_def table_ok_def)
  moreover have "\<not> sv_active sv \<ge> int MAX_CONNECTIONS" using ok False used_slots_card [OF ok] by (simp add: table_ok_def)
  ultimately show ?thesis using False by (auto simp: register_connection_fd_def)
qed (use ok in \<open>simp add: table_ok_def register_connection_fd_def\<close>)

lemma used_slots_register:
  assumes "table_ok sv" "i < MAX_CONNECTIONS" "i \<notin> used_slots sv" "0 \<le> fd"
    and sv': "sv_fds sv' = (sv_fds sv)[i := fd]" "sv_active sv' = sv_active sv + 1"
  shows "used_slots sv' = insert i (used_slots sv)" "table_ok sv'"
proof -
  show u: "used_slots sv' = insert i (used_slots sv)"
    using assms by (auto simp: used_slots_def table_ok_def nth_list_update)
  show "table_ok sv'" using assms used_slots_bound(2) [of sv] by (simp add: table_ok_def u)
qed

lemma slot_unregister_ok:
  assumes "table_ok sv" "i \<in> used_slots sv"
  shows "used_slots (unregister_connection_slot sv (int i)) = used_slots sv - {i}"
    "table_ok (unregister_connection_slot sv (int i))"
proof -
  have i: "i < MAX_CONNECTIONS" using assms by (auto simp: used_slots_def table_ok_def)
  show u: "used_slots (unregister_connection_slot sv (int i)) = used_slots sv - {i}"
    using assms i by (auto simp: used_slots_def unregister_connection_slot_def table_ok_def nth_list_update)
  have "card (used_slots sv) \<ge> 1" using assms(2) used_slots_bound(2) [of sv] by (metis One_nat_def Suc_leI card_gt_0_iff empty_iff)
  then show "table_ok (unregister_connection_slot sv (int i))"
    using assms i used_slots_bound(2) [of sv]
    by (simp add: table_ok_def u) (simp add: unregister_connection_slot_def Let_def of_nat_diff)
qed

lemma table_ok_cong:
  "sv_fds sv' = sv_fds sv \<Longrightarrow> sv_active sv' = sv_active sv \<Longrightarrow> table_ok sv' = table_ok sv \<and> used_slots sv' = used_slots sv"
  by (simp add: table_ok_def used_slots_def)

lemma accept_connection_ok:
  assumes ok: "table_ok sv" and fd: "0 \<le> fd"
    and a: "accept_connection sv fd option_set thread_created = (slot, sent, sv')"
  shows "table_ok sv' \<and> (case slot of
      None \<Rightarrow> used_slots sv' = used_slots sv
    | Some i \<Rightarrow> i \<notin> used_slots sv \<and> used_slots sv' = insert i (used_slots sv))"
proof (cases option_set)
  case True
  define sv1 where "sv1 = sv\<lparr>sv_total := sv_total sv + 1\<rparr>"
  have ok1: "table_ok sv1" and u1: "used_slots sv1 = used_slots sv"
    using ok table_ok_cong [of sv1 sv] by (simp_all add: sv1_def)
  show ?thesis
  proof (cases "card (used_slots sv1) = MAX_CONNECTIONS")
    case True
    then have "register_connection_fd sv1 fd = (-1, sv1)" using slot_register_ok [OF ok1 fd] by simp
    then show ?thesis using a \<open>option_set\<close> ok1 u1 by (auto simp: accept_connection_def Let_def simp flip: sv1_def)
  next
    case False
    then obtain i where i: "i \<notin> used_slots sv1" "i < MAX_CONNECTIONS"
      and r: "register_connection_fd sv1 fd = (int i, sv1\<lparr>sv_fds := (sv_fds sv1)[i := fd], sv_active := sv_active sv1 + 1\<rparr>)"
      using slot_register_ok [OF ok1 fd] by auto
    define sv2 where "sv2 = sv1\<lparr>sv_fds := (sv_fds sv1)[i := fd], sv_active := sv_active sv1 + 1\<rparr>"
    have ok2: "used_slots sv2 = insert i (used_slots sv1)" "table_ok sv2"
      using used_slots_register [OF ok1 i(2,1) fd, of sv2] by (simp_all add: sv2_def)
    have "(slot, sent, sv') = (if thread_created then (Some i, [], sv2) else (None, [], unregister_connection_slot sv2 (int i)))"
      using a \<open>option_set\<close> r by (auto simp: accept_connection_def Let_def simp flip: sv1_def sv2_def)
    then show ?thesis
      using ok2 slot_unregister_ok [OF ok2(2), of i] i(1) u1 by (auto split: if_splits)
  qed
qed (use a ok in \<open>auto simp: accept_connection_def\<close>)

lemma accept_refuses_iff:
  assumes ok: "table_ok sv" and fd: "0 \<le> fd"
  shows "fst (accept_connection sv fd True True) = None \<longleftrightarrow> card (used_slots sv) = MAX_CONNECTIONS"
proof -
  define sv1 where "sv1 = sv\<lparr>sv_total := sv_total sv + 1\<rparr>"
  have "table_ok sv1" "used_slots sv1 = used_slots sv" using ok table_ok_cong [of sv1 sv] by (simp_all add: sv1_def)
  then show ?thesis using slot_register_ok [of sv1 fd] fd
    by (auto simp: accept_connection_def Let_def simp flip: sv1_def split: if_splits)
qed

section \<open>All threads\<close>

definition world_ok :: "'l world \<Rightarrow> bool" where
  "world_ok w \<longleftrightarrow> table_ok (w_server w) \<and> dom (w_workers w) = used_slots (w_server w)
     \<and> (w_main w = Stopped \<longrightarrow> dom (w_workers w) = {})"

lemma handle_one_request_table:
  "handle_one_request fits lc lstats frames sv s l conn = Some (rc, sent, conn', sv', s', l') \<Longrightarrow>
   sv_fds sv' = sv_fds sv \<and> sv_active sv' = sv_active sv"
  by (auto simp: handle_one_request_def Let_def split: prod.splits option.splits if_splits)

lemma world_ok_start: "world_ok (server_start s l)"
  by (simp add: world_ok_def server_start_def server_init_def table_ok_def used_slots_def)

lemma server_step_ok: "server_step lc lstats destroy w w' \<Longrightarrow> world_ok w \<Longrightarrow> world_ok w'"
proof (induction rule: server_step.induct)
  case (interrupt w)
  then show ?case using table_ok_cong [of "(w_server w)\<lparr>sv_running := False\<rparr>" "w_server w"] by (simp add: world_ok_def)
next
  case (accept w fd option_set thread_created slot sent sv conn)
  then show ?case
    using accept_connection_ok [OF _ accept(2,3)] by (auto simp: world_ok_def split: option.splits)
next
  case (serve w i fd conn fits frames rc sent conn' sv s l)
  then have "dom (w_workers w) \<noteq> {}" "i \<in> dom (w_workers w)" by auto
  then show ?case using serve handle_one_request_table [OF serve(2)] table_ok_cong [of sv "w_server w"]
    by (auto simp: world_ok_def insert_absorb simp del: dom_eq_empty_conv)
next
  case (unregister w i)
  then have "i \<in> dom (w_workers w)" by auto
  then have "i \<in> used_slots (w_server w)" using unregister(2) by (simp add: world_ok_def)
  then show ?case using unregister slot_unregister_ok [of "w_server w" i] by (auto simp: world_ok_def)
next
  case (stop w)
  then have "used_slots (w_server w) = {}" using used_slots_bound(2) [of "w_server w"] by (simp add: world_ok_def table_ok_def)
  then show ?case using stop by (simp add: world_ok_def)
qed (simp add: world_ok_def)

lemma served_ok: "served lc lstats destroy s l w \<Longrightarrow> world_ok w"
  by (induction rule: served.induct) (auto intro: world_ok_start server_step_ok)

section \<open>Answers\<close>

lemma c_str_trim: "NUL \<notin> set body \<Longrightarrow> c_str (trim (take n body)) = trim (take n body)"
  by (intro c_str_id) (auto simp: trim_def dest!: set_dropWhileD in_set_takeD)

lemma answer_framed:
  assumes "framed_request head body" "concat cs = request_text head body" "[] \<notin> set cs"
  shows "handle_one_request fits lc lstats frames sv s l (cs @ later) =
    (let ka = keep_alive_wanted (request_text head body) in
     map_option (\<lambda>(res, s, l). (if ka then 1 else 0, respond res ka, later, sv\<lparr>sv_processed := sv_processed sv + 1\<rparr>, s, l))
       (db_execute fits lc s l (trim (take (BODY_SIZE - 1) body))))"
  using http_read_framed [OF assms, of later] framed_request_text(4) [OF assms(1)]
  by (simp add: handle_one_request_def c_str_trim Let_def)

text \<open>An answer fits the buffers it is put together in.\<close>

lemma response_body_fits: "length (response_body res) < RESPONSE_BUF"
  by (auto simp: response_body_def Let_def RESPONSE_BUF_def min_def split: option.splits)

lemma response_body_short:
  assumes "length out + length (message_text m) + 1 < RESPONSE_BUF"
  shows "response_body \<lparr>res_status = st, res_message = m, res_out = Some out\<rparr> = out @ message_text m @ newline"
    "response_body \<lparr>res_status = st, res_message = m, res_out = None\<rparr> = message_text m @ newline"
proof -
  obtain c w where "message_text m = c # w" using message_text_nonempty [of m] by (cases "message_text m") auto
  then have "length out < RESPONSE_BUF - 2" "length (message_text m @ newline) \<le> RESPONSE_BUF - length out - 1"
    "length (message_text m @ newline) \<le> RESPONSE_BUF - 1"
    using assms by (simp_all add: RESPONSE_BUF_def newline_def)
  then show "response_body \<lparr>res_status = st, res_message = m, res_out = Some out\<rparr> = out @ message_text m @ newline"
    "response_body \<lparr>res_status = st, res_message = m, res_out = None\<rparr> = message_text m @ newline"
    using message_text_nonempty [of m] by (simp_all add: response_body_def Let_def RESPONSE_BUF_def)
qed

lemma length_show_nat: "n < 10 ^ k \<Longrightarrow> 0 < k \<Longrightarrow> length (show_nat n) \<le> k"
proof (induction n arbitrary: k rule: show_nat.induct)
  case (1 n)
  show ?case
  proof (cases "n < 10")
    case True
    then show ?thesis using 1(3) by (subst show_nat.simps) simp
  next
    case False
    then obtain k' where k: "k = Suc k'" "0 < k'" using 1(2,3) by (cases k; cases "k - 1") auto
    then have "n div 10 < 10 ^ k'" using 1(2) by auto
    then show ?thesis using 1(1) [OF False, of k'] False k by (subst show_nat.simps) simp
  qed
qed

lemma response_head_fits:
  assumes "body_len < 2 ^ 64" "status < 1000" "length status_text \<le> 20"
  shows "length (response_head status status_text body_len ka) < 512"
proof -
  have "length (show_nat body_len) \<le> 20" using assms(1) by (intro length_show_nat) simp_all
  moreover have "length (show_nat status) \<le> 3" using assms(2) by (intro length_show_nat) simp_all
  ultimately show ?thesis using assms(3) by (simp add: response_head_def crlf_def)
qed

end
