(* ===== verification/Repl.thy ===== *)
theory Repl
  imports Messages Db_Execute Http
begin

text \<open>
  The program's entry \<open>src/main.c\<close>: the command line, the reading of a line, the meta commands and
  the loop of the terminal. Standard input is a text, standard output the text printed. The state is
  the page store with the two switches of \<open>pager_t\<close> the terminal sets. Writing dirty pages back
  changes nothing a later command reads, so \<open>.flush\<close> keeps the store. The timing line of the debug
  mode depends on the clock and the page cache and is an argument.
\<close>

section \<open>The command line\<close>

record options =
  opt_server :: bool
  opt_port :: u32
  opt_db_path :: string

definition default_options :: options where
  "default_options = \<lparr>opt_server = False, opt_port = 8080, opt_db_path = ''test.db''\<rparr>"

definition starts_with_digit :: "string \<Rightarrow> bool" where
  "starts_with_digit s \<longleftrightarrow> c_isdigit (char_at s)"

fun path_argument :: "string list \<Rightarrow> options \<Rightarrow> options" where
  "path_argument [] opts = opts"
| "path_argument (a # _) opts = opts\<lparr>opt_db_path := a\<rparr>"

fun port_argument :: "string list \<Rightarrow> options \<Rightarrow> options" where
  "port_argument [] opts = opts"
| "port_argument (a # rest) opts =
     (if starts_with_digit a then path_argument rest (opts\<lparr>opt_port := atoi a\<rparr>) else path_argument (a # rest) opts)"

text \<open>The arguments after the program's name.\<close>

definition parse_arguments :: "string list \<Rightarrow> options" where
  "parse_arguments args =
     (case args of
        [] \<Rightarrow> default_options
      | a # rest \<Rightarrow>
          if a = ''--server'' then port_argument rest (default_options\<lparr>opt_server := True\<rparr>)
          else path_argument args default_options)"

section \<open>Reading a line\<close>

definition MAX_INPUT_LEN :: nat where "MAX_INPUT_LEN = 4096"

definition fgets :: "string \<Rightarrow> (string \<times> string) option" where
  "fgets input =
     (if input = [] then None
      else
        let n = MAX_INPUT_LEN - 1;
            w = takeWhile (\<lambda>c. c \<noteq> CHR 0x0A) (take n input);
            len = (if length w < n \<and> length w < length input then length w + 1 else length w)
        in Some (take len input, drop len input))"

definition blank :: "char \<Rightarrow> bool" where "blank c \<longleftrightarrow> c = CHR '' '' \<or> c = CHR 0x09"

definition trim_line :: "string \<Rightarrow> string" where
  "trim_line line =
     dropWhile blank (rev (dropWhile (\<lambda>c. c = CHR 0x0A \<or> c = CHR 0x0D \<or> blank c) (rev (c_str line))))"

section \<open>Meta commands\<close>

definition spaces :: "nat \<Rightarrow> string" where "spaces depth = concat (replicate depth ''  '')"

definition print_keys :: "string \<Rightarrow> page_id \<Rightarrow> u32 \<Rightarrow> u64 list \<Rightarrow> string" where
  "print_keys name pid n keys =
     ''['' @ name @ '' page='' @ show_nat (unat pid) @ ''] keys='' @ show_nat (unat n) @ '':''
     @ concat (map (\<lambda>k. '' '' @ show_nat (unat k)) (take 5 keys))
     @ (if n > 5 then '' ...'' else []) @ newline"

definition node_line :: "bytes \<Rightarrow> page_id \<Rightarrow> string" where
  "node_line page pid =
     (if page_type page = PAGE_TYPE_LEAF then
        let n = lph_key_count (get_leaf_hdr page)
        in print_keys ''LEAF'' pid n (map le_key (leaf_entries page (unat n)))
      else if page_type page = PAGE_TYPE_INTERNAL then
        let n = iph_key_count (get_internal_hdr page)
        in print_keys ''INTERNAL'' pid n (map ie_key (internal_entries page (unat n)))
      else [])"

definition node_children :: "bytes \<Rightarrow> page_id list" where
  "node_children page =
     (if page_type page = PAGE_TYPE_INTERNAL then
        let iph = get_internal_hdr page
        in iph_leftmost_child iph # map ie_right_child (internal_entries page (unat (iph_key_count iph)))
      else [])"

text \<open>\<open>print_node\<close>: a node, then its subtrees from left to right, with the nodes still to print on a list.\<close>

partial_function (option) print_nodes :: "(page_id \<Rightarrow> bytes) \<Rightarrow> (page_id \<times> nat) list \<Rightarrow> string option" where
  "print_nodes pages todo =
     (case todo of
        [] \<Rightarrow> Some []
      | (pid, depth) # rest \<Rightarrow>
          Option.bind (print_nodes pages (map (\<lambda>c. (c, depth + 1)) (node_children (pages pid)) @ rest))
            (\<lambda>out. Some (spaces depth @ node_line (pages pid) pid @ out)))"

definition bptree_print :: "store \<Rightarrow> string option" where
  "bptree_print s =
     map_option (\<lambda>out. ''B+ Tree (root: page '' @ show_nat (unat (root_id s)) @ '')'' @ newline @ out)
       (print_nodes (st_pages s) [(root_id s, 1)])"

definition cmd_btree :: "store \<Rightarrow> string option" where "cmd_btree s = bptree_print s"

definition count_pages :: "store \<Rightarrow> u32 \<Rightarrow> nat" where
  "count_pages s ty =
     length (filter (\<lambda>i. page_type (st_pages s (word_of_nat i)) = ty) [1..<unat (hd_next_page_id (st_hdr s))])"

fun print_free :: "(page_id \<Rightarrow> bytes) \<Rightarrow> nat \<Rightarrow> page_id \<Rightarrow> string" where
  "print_free pages 0 fp = (if fp \<noteq> 0 then '' ...'' else [])"
| "print_free pages (Suc n) fp =
     (if fp = 0 then []
      else
        let nxt = fph_next_free_page (get_free_hdr (pages fp))
        in '' '' @ show_nat (unat fp) @ (if nxt \<noteq> 0 then '' ->'' else []) @ print_free pages n nxt)"

definition label_line :: "string \<Rightarrow> nat \<Rightarrow> string" where
  "label_line label n = label @ show_nat n @ newline"

definition all_pages_label :: string where
  "all_pages_label = utf8 [0xC804, 0xCCB4, 0x0020, 0xD398, 0xC774, 0xC9C0] @ '': ''"

definition cmd_pages :: "store \<Rightarrow> string" where
  "cmd_pages s =
     label_line all_pages_label (unat (hd_next_page_id (st_hdr s)))
     @ ''  HEADER:   1'' @ newline
     @ label_line ''  HEAP:     '' (count_pages s PAGE_TYPE_HEAP)
     @ label_line ''  LEAF:     '' (count_pages s PAGE_TYPE_LEAF)
     @ label_line ''  INTERNAL: '' (count_pages s PAGE_TYPE_INTERNAL)
     @ label_line ''  FREE:     '' (count_pages s PAGE_TYPE_FREE)
     @ (if hd_free_page_head (st_hdr s) \<noteq> 0 then
          utf8 [0xBE48, 0x0020, 0xD398, 0xC774, 0xC9C0, 0x0020, 0xBAA9, 0xB85D] @ '':''
          @ print_free (st_pages s) 20 (hd_free_page_head (st_hdr s)) @ newline
        else [])"

text \<open>The division is in \<open>size_t\<close>, and its result is cut to 32 bits.\<close>

definition rows_per_page :: "store \<Rightarrow> u32" where
  "rows_per_page s = ucast (((ucast (st_page_size s) :: u64) - 16) div (ucast (hd_row_size (st_hdr s)) + 8))"

definition cmd_stats :: "store \<Rightarrow> string option" where
  "cmd_stats s =
     (let hdr = st_hdr s in
      map_option (\<lambda>h.
        utf8 [0xD589, 0x0020, 0xC218] @ '': '' @ show_nat (unat (hd_row_count hdr)) @ '' (live)'' @ newline
        @ label_line (utf8 [0xB2E4, 0xC74C] @ '' ID: '') (unat (hd_next_id hdr))
        @ label_line (utf8 [0xD398, 0xC774, 0xC9C0, 0x0020, 0xD06C, 0xAE30] @ '': '') (unat (st_page_size s))
        @ label_line (utf8 [0xD589, 0x0020, 0xD06C, 0xAE30] @ '': '') (unat (hd_row_size hdr))
        @ (if hd_row_size hdr > 0 then
             label_line (utf8 [0xD398, 0xC774, 0xC9C0, 0xB2F9, 0x0020, 0xD589, 0x0020, 0xC218] @ '': ~'') (unat (rows_per_page s))
           else [])
        @ label_line all_pages_label (unat (hd_next_page_id hdr))
        @ label_line (''B+ Tree '' @ utf8 [0xB192, 0xC774] @ '': '') h
        @ label_line (utf8 [0xBE48, 0x0020, 0xD398, 0xC774, 0xC9C0, 0x0020, 0xD5E4, 0xB4DC] @ '': '')
            (unat (hd_free_page_head hdr)))
        (bptree_height s))"

section \<open>The loop\<close>

record 'l terminal =
  rp_store :: store
  rp_locks :: 'l
  rp_log_flushes :: bool
  rp_debug_mode :: bool

definition on_off :: "bool \<Rightarrow> string" where "on_off b = (if b then ''ON'' else ''OFF'')"

datatype 'l line_result = Exits | Prints string "'l terminal"

definition printed :: "'l terminal \<Rightarrow> string \<Rightarrow> 'l line_result option" where
  "printed r out = Some (Prints out r)"

definition meta_command :: "'l terminal \<Rightarrow> string \<Rightarrow> 'l line_result option" where
  "meta_command r line =
     (if line = ''.exit'' \<or> line = ''.quit'' then Some Exits
      else if line = ''.btree'' then Option.bind (cmd_btree (rp_store r)) (printed r)
      else if line = ''.pages'' then printed r (cmd_pages (rp_store r))
      else if line = ''.stats'' then Option.bind (cmd_stats (rp_store r)) (printed r)
      else if line = ''.log'' then
        printed (r\<lparr>rp_log_flushes := \<not> rp_log_flushes r\<rparr>)
          (''pager '' @ utf8 [0xB85C, 0xADF8] @ '': '' @ on_off (\<not> rp_log_flushes r) @ newline)
      else if line = ''.flush'' then
        printed r (utf8 [0xBAA8, 0xB4E0] @ '' dirty '' @ utf8 [0xD398, 0xC774, 0xC9C0, 0xB97C, 0x0020, 0xB514, 0xC2A4,
          0xD06C, 0xC5D0, 0x0020, 0xAE30, 0xB85D, 0xD588, 0xC2B5, 0xB2C8, 0xB2E4] @ ''.'' @ newline)
      else if line = ''.debug'' then
        printed (r\<lparr>rp_debug_mode := \<not> rp_debug_mode r\<rparr>)
          (utf8 [0xB514, 0xBC84, 0xADF8, 0x0020, 0xBAA8, 0xB4DC] @ '': '' @ on_off (\<not> rp_debug_mode r) @ newline)
      else printed r (utf8 [0xC54C, 0x0020, 0xC218, 0x0020, 0xC5C6, 0xB294, 0x0020, 0xBA85, 0xB839, 0xC5B4] @ '': ''
        @ line @ newline))"

definition result_text :: "exec_result \<Rightarrow> string" where
  "result_text res =
     (case res_out res of None \<Rightarrow> [] | Some out \<Rightarrow> out)
     @ (if message_text (res_message res) \<noteq> [] then message_text (res_message res) @ newline else [])"

text \<open>A statement runs without its row lock, and every lock it took is released after it.\<close>

definition sql_line :: "(nat \<Rightarrow> bool) \<Rightarrow> 'l lock_calls \<Rightarrow> string \<Rightarrow> 'l terminal \<Rightarrow> string \<Rightarrow> 'l line_result option" where
  "sql_line fits lc timing r line =
     (case parse line of
        Inl Undefined \<Rightarrow> None
      | Inl Syntax \<Rightarrow> printed r (message_text Parse_failed @ newline)
      | Inr stmt \<Rightarrow>
          Option.bind (execute fits (lc_acquire lc) (rp_store r) (rp_locks r) stmt)
            (\<lambda>(res, s, l). printed (r\<lparr>rp_store := s, rp_locks := lc_release_all lc l\<rparr>)
              (result_text res @ (if rp_debug_mode r then timing else []))))"

definition repl_line :: "(nat \<Rightarrow> bool) \<Rightarrow> 'l lock_calls \<Rightarrow> string \<Rightarrow> 'l terminal \<Rightarrow> string \<Rightarrow> 'l line_result option" where
  "repl_line fits lc timing r raw =
     (let line = trim_line raw in
      if line = [] then printed r []
      else if char_at line = CHR ''.'' then meta_command r line
      else sql_line fits lc timing r line)"

definition prompt :: string where "prompt = ''minidb> ''"

definition farewell :: string where
  "farewell = utf8 [0xC885, 0xB8CC, 0xD569, 0xB2C8, 0xB2E4] @ ''.'' @ newline"

lemma fgets_shorter: "fgets input = Some (line, rest) \<Longrightarrow> length rest < length input"
  by (auto simp: fgets_def Let_def MAX_INPUT_LEN_def neq_Nil_conv split: if_splits)

text \<open>
  The loop until \<open>.exit\<close> or the end of the input; \<open>timing n\<close> is the debug line of the statement
  after which \<open>n\<close> characters are left to read.
\<close>

function repl :: "(nat \<Rightarrow> bool) \<Rightarrow> 'l lock_calls \<Rightarrow> (nat \<Rightarrow> string) \<Rightarrow> 'l terminal \<Rightarrow> string \<Rightarrow> (string \<times> 'l terminal) option" where
  "repl fits lc timing r input =
     (case fgets input of
        None \<Rightarrow> Some (prompt @ farewell, r)
      | Some (line, rest) \<Rightarrow>
          (case repl_line fits lc (timing (length rest)) r line of
             None \<Rightarrow> None
           | Some Exits \<Rightarrow> Some (prompt @ farewell, r)
           | Some (Prints out r) \<Rightarrow> map_option (\<lambda>(more, r). (prompt @ out @ more, r)) (repl fits lc timing r rest)))"
  by pat_completeness auto
termination
  by (relation "measure (\<lambda>(fits, lc, timing, r, input). length input)") (auto dest: fgets_shorter)

declare repl.simps [simp del]

text \<open>
  \<open>main\<close> without \<open>--server\<close>: \<open>opened\<close> is what \<open>pager_open\<close> made of the file, the result the exit status
  and the text on standard output.
\<close>

definition banner :: "string \<Rightarrow> u32 \<Rightarrow> string" where
  "banner path page_size = prompt @ quote @ path @ quote @ '' '' @ utf8 [0xC5F0, 0xACB0, 0xB428]
     @ '' (page_size='' @ show_nat (unat page_size) @ '')'' @ newline"

definition main_terminal ::
  "(nat \<Rightarrow> bool) \<Rightarrow> 'l lock_calls \<Rightarrow> (nat \<Rightarrow> string) \<Rightarrow> 'l \<Rightarrow> store option \<Rightarrow> string list \<Rightarrow> string \<Rightarrow> (int \<times> string) option" where
  "main_terminal fits lc timing l opened args input =
     (case opened of
        None \<Rightarrow> Some (1, [])
      | Some s \<Rightarrow>
          map_option (\<lambda>(out, r). (0, banner (opt_db_path (parse_arguments args)) (st_page_size s) @ out))
            (repl fits lc timing \<lparr>rp_store = s, rp_locks = l, rp_log_flushes = False, rp_debug_mode = False\<rparr> input))"

end
