(* ===== verification/Terminal_Correct.thy ===== *)
theory Terminal_Correct
  imports Repl Lock_Calls
begin

text \<open>
  The terminal reads its input line by line, and a statement typed there does what the same text
  does through \<open>db_execute\<close>, although it takes no row lock of its own: with every lock granted
  neither the result nor the pages depend on the lock state.
\<close>

section \<open>Lines\<close>

lemma fgets_line:
  assumes "CHR 0x0A \<notin> set line" "length line < MAX_INPUT_LEN - 1"
  shows "fgets (line @ newline @ rest) = Some (line @ newline, rest)"
proof -
  have "takeWhile (\<lambda>c. c \<noteq> CHR 0x0A) (take (MAX_INPUT_LEN - 1) (line @ newline @ rest)) = line"
  proof -
    have "take (MAX_INPUT_LEN - 1) (line @ newline @ rest)
      = line @ CHR 0x0A # take (MAX_INPUT_LEN - 1 - length line - 1) rest"
      using assms(2) by (simp add: newline_def take_Cons')
    then show ?thesis using assms(1) by (subst \<open>take _ _ = _\<close>) (auto simp: takeWhile_append)
  qed
  then show ?thesis using assms(2) by (simp add: fgets_def Let_def newline_def)
qed

text \<open>A line that does not fit the buffer is cut, and its rest is the next line.\<close>

lemma fgets_cut:
  assumes "CHR 0x0A \<notin> set line" "MAX_INPUT_LEN - 1 \<le> length line"
  shows "fgets (line @ rest) = Some (take (MAX_INPUT_LEN - 1) line, drop (MAX_INPUT_LEN - 1) line @ rest)"
proof -
  define n where "n = MAX_INPUT_LEN - 1"
  have n: "n \<le> length line" using assms(2) by (simp add: n_def)
  have "takeWhile (\<lambda>c. c \<noteq> CHR 0x0A) (take n (line @ rest)) = take n (line @ rest)"
    using assms(1) n by (auto simp: takeWhile_eq_all_conv dest: in_set_takeD)
  moreover have "length (take n (line @ rest)) = n" using n by simp
  moreover have "line @ rest \<noteq> []" using assms(2) by (auto simp: MAX_INPUT_LEN_def)
  ultimately have "fgets (line @ rest) = Some (take n (line @ rest), drop n (line @ rest))"
    unfolding fgets_def Let_def n_def [symmetric] by presburger
  then show ?thesis using n by (simp add: n_def)
qed

lemma repl_reads_line:
  assumes "CHR 0x0A \<notin> set line" "length line < MAX_INPUT_LEN - 1"
  shows "repl fits lc timing r (line @ newline @ rest) =
    (case repl_line fits lc (timing (length rest)) r (line @ newline) of
       None \<Rightarrow> None
     | Some Exits \<Rightarrow> Some (prompt @ farewell, r)
     | Some (Prints out r) \<Rightarrow> map_option (\<lambda>(more, r). (prompt @ out @ more, r)) (repl fits lc timing r rest))"
  by (subst repl.simps) (simp add: fgets_line [OF assms])

section \<open>Without waiting\<close>

text \<open>A lock manager that grants every request from the states \<open>ok\<close>.\<close>

definition grants :: "('l \<Rightarrow> bool) \<Rightarrow> 'l lock_calls \<Rightarrow> bool" where
  "grants ok lc \<longleftrightarrow>
     (\<forall>l i mode. ok l \<longrightarrow> fst (lc_acquire lc l i mode) = 0 \<and> ok (snd (lc_acquire lc l i mode)))
     \<and> (\<forall>l low high mode. ok l \<longrightarrow> fst (lc_acquire_range lc l low high mode) = 0 \<and> ok (snd (lc_acquire_range lc l low high mode)))"

lemma grants_acquire: "grants ok lc \<Longrightarrow> ok l \<Longrightarrow> \<exists>l'. lc_acquire lc l i mode = (0, l') \<and> ok l'"
  by (metis grants_def prod.collapse)

lemma grants_lock_ids:
  "grants ok lc \<Longrightarrow> ok l \<Longrightarrow> \<exists>l'. lock_ids (lc_acquire lc) l ids mode = (None, l') \<and> ok l'"
proof (induction ids arbitrary: l)
  case (Cons i ids)
  obtain l1 where l1: "lc_acquire lc l i mode = (0, l1)" "ok l1" using grants_acquire [OF Cons.prems] by blast
  with Cons.IH [OF Cons.prems(1) l1(2)] show ?case by simp
qed simp

lemma grants_collected:
  assumes "grants ok lc" "ok l"
  shows "\<exists>l'. lock_collected_ids (lc_acquire lc) l ids mode = (None, if ids = [] then [] else dedup_sorted (sort ids), l')"
  using grants_lock_ids [OF assms] by (auto simp: lock_collected_ids_def Let_def split: prod.splits) (metis prod.inject)

text \<open>The result and the pages, without the lock state.\<close>

definition unlocked :: "('r \<times> store \<times> 'l) option \<Rightarrow> ('r \<times> store) option" where
  "unlocked = map_option (\<lambda>(r, s, l). (r, s))"

lemma unlocked_simps [simp]:
  "unlocked None = None" "unlocked (Some (r, s, l)) = Some (r, s)"
  "unlocked (map_option (\<lambda>r. (f r, s, l)) x) = map_option (\<lambda>r. (f r, s)) x"
  "unlocked (map_option (\<lambda>(c, s). (g c, s, l)) y) = map_option (\<lambda>(c, s). (g c, s)) y"
  by (simp_all add: unlocked_def option.map_comp comp_def case_prod_unfold)

lemma insert_unlocked:
  assumes "grants ok lc" "ok l1" "ok l2"
  shows "unlocked (exec_insert fits (lc_acquire lc) s l1 stmt) = unlocked (exec_insert fits (lc_acquire lc) s l2 stmt)"
proof -
  obtain k1 k2 where "lc_acquire lc l1 (hd_next_id (st_hdr s)) LOCK_X = (0, k1)" "lc_acquire lc l2 (hd_next_id (st_hdr s)) LOCK_X = (0, k2)"
    using grants_acquire [OF assms(1,2)] grants_acquire [OF assms(1,3)] by metis
  then show ?thesis by (simp add: exec_insert_def Let_def split: option.splits prod.splits)
qed

lemma delete_scan_unlocked:
  assumes "grants ok lc" "ok l1" "ok l2"
  shows "unlocked (exec_delete_scan fits (lc_acquire lc) s l1 stmt) = unlocked (exec_delete_scan fits (lc_acquire lc) s l2 stmt)"
proof (cases "scan_with s (collect_id_cb fits (st_hdr s) stmt) no_ids")
  case (Some dc)
  obtain k1 k2 where
    "lock_collected_ids (lc_acquire lc) l1 (ic_ids dc) LOCK_X = (None, if ic_ids dc = [] then [] else dedup_sorted (sort (ic_ids dc)), k1)"
    "lock_collected_ids (lc_acquire lc) l2 (ic_ids dc) LOCK_X = (None, if ic_ids dc = [] then [] else dedup_sorted (sort (ic_ids dc)), k2)"
    using grants_collected [OF assms(1,2)] grants_collected [OF assms(1,3)] by metis
  with Some show ?thesis by (simp add: exec_delete_scan_def)
qed (simp add: exec_delete_scan_def)

lemma update_scan_unlocked:
  assumes "grants ok lc" "ok l1" "ok l2"
  shows "unlocked (exec_update_scan fits (lc_acquire lc) s l1 stmt) = unlocked (exec_update_scan fits (lc_acquire lc) s l2 stmt)"
proof (cases "scan_with s (collect_id_cb fits (st_hdr s) stmt) no_ids")
  case (Some dc)
  obtain k1 k2 where
    "lock_collected_ids (lc_acquire lc) l1 (ic_ids dc) LOCK_X = (None, if ic_ids dc = [] then [] else dedup_sorted (sort (ic_ids dc)), k1)"
    "lock_collected_ids (lc_acquire lc) l2 (ic_ids dc) LOCK_X = (None, if ic_ids dc = [] then [] else dedup_sorted (sort (ic_ids dc)), k2)"
    using grants_collected [OF assms(1,2)] grants_collected [OF assms(1,3)] by metis
  with Some show ?thesis by (simp add: exec_update_scan_def split: sum.splits)
qed (simp add: exec_update_scan_def split: sum.splits)

lemma execute_unlocked:
  assumes "grants ok lc" "ok l1" "ok l2"
  shows "unlocked (execute fits (lc_acquire lc) s l1 stmt) = unlocked (execute fits (lc_acquire lc) s l2 stmt)"
  using insert_unlocked [OF assms] delete_scan_unlocked [OF assms] update_scan_unlocked [OF assms]
  by (simp add: execute_def split: access_path.splits prod.splits)

lemma db_execute_unlocked:
  assumes g: "grants ok lc" and l1: "ok l1" and l2: "ok l2" and p: "parse sql = Inr stmt"
  shows "unlocked (db_execute fits lc s l1 sql) = unlocked (execute fits (lc_acquire lc) s l2 stmt)"
proof -
  obtain k where k: "statement_lock lc l1 (determine_lock stmt) = (0, k)" "ok k"
    using g l1 unfolding statement_lock_def grants_def by (metis prod.collapse)
  have "unlocked (db_execute fits lc s l1 sql) = unlocked (execute fits (lc_acquire lc) s k stmt)"
    by (cases "execute fits (lc_acquire lc) s k stmt") (auto simp: db_execute_def p k)
  then show ?thesis using execute_unlocked [OF g k(2) l2] by simp
qed

text \<open>What a line prints and leaves in the pages.\<close>

definition line_effect :: "'l line_result option \<Rightarrow> (string \<times> store) option" where
  "line_effect res = (case res of Some (Prints out r) \<Rightarrow> Some (out, rp_store r) | _ \<Rightarrow> None)"

lemma line_effect_bind:
  "line_effect (Option.bind x (\<lambda>(res, s, l). printed (r\<lparr>rp_store := s, rp_locks := f l\<rparr>) (g res)))
   = map_option (\<lambda>(res, s). (g res, s)) (unlocked x)"
  by (cases x) (auto simp: line_effect_def printed_def unlocked_def)

lemma sql_line_db_execute:
  assumes g: "grants ok lc" and l: "ok l" "ok (rp_locks r)" and d: "\<not> rp_debug_mode r"
  shows "line_effect (sql_line fits lc timing r line)
    = map_option (\<lambda>(res, s). (result_text res, s)) (unlocked (db_execute fits lc (rp_store r) l line))"
proof (cases "parse line")
  case (Inl e)
  then show ?thesis
    by (cases e) (simp_all add: sql_line_def db_execute_def line_effect_def printed_def result_text_def failed_with_def message_text_nonempty)
next
  case (Inr stmt)
  then show ?thesis
    by (simp add: sql_line_def d line_effect_bind db_execute_unlocked [OF g l Inr])
qed

section \<open>The terminal's thread is alone\<close>

definition alone :: "thread \<Rightarrow> lock_table \<Rightarrow> bool" where
  "alone self lt \<longleftrightarrow>
     (\<forall>i. \<forall>a \<in> set (lt_buckets lt i). lk_owner (lt_mem lt a) = self)
     \<and> (\<forall>a \<in> set (lt_range_locks lt). lk_owner (lt_mem lt a) = self) \<and> lt_waiting_writers lt = 0"

lemma alone_no_conflict:
  assumes "alone self lt"
  shows "\<not> conflict_exists lt i mode self" "\<not> range_conflict_exists lt low high mode self" "\<not> reader_should_wait lt mode"
  using assms
  by (auto simp: alone_def conflict_exists_def point_vs_point_def point_vs_range_def range_conflict_exists_def
      range_vs_range_def range_vs_point_def reader_should_wait_def list_ex_iff Let_def)

lemma alone_point_try:
  assumes "alone self lt"
  shows "\<exists>lt'. acquire_point_try lt self i mode e False (Some a) = (Returned 0, lt') \<and> alone self lt'"
proof (cases "upgradable lt self i e")
  case True
  then show ?thesis using assms alone_no_conflict [OF assms]
    by (auto simp: acquire_point_try_def waiting_writer_unregister_def alone_def upgradable_def split: option.splits)
next
  case False
  then show ?thesis using assms alone_no_conflict [OF assms]
    by (auto simp: acquire_point_try_def waiting_writer_unregister_def alone_def owner_list_push_def
        global_list_insert_point_def Let_def)
qed

lemma alone_range_try:
  assumes "alone self lt"
  shows "\<exists>lt'. acquire_range_try lt self low high mode False (Some a) = (Returned 0, lt') \<and> alone self lt'"
  using assms alone_no_conflict [OF assms]
  by (auto simp: acquire_range_try_def waiting_writer_unregister_def alone_def owner_list_push_def
      global_list_insert_range_def Let_def)

lemma alone_start:
  assumes "alone self lt"
  shows "\<exists>lt'. acquire_start lt self req (Some a) = (Returned 0, lt') \<and> alone self lt'"
  using alone_point_try [OF assms] alone_range_try [OF assms] assms
  by (cases req) (auto simp: lock_acquire_def lock_acquire_range_def split: option.splits)

text \<open>No other thread has an event, and allocations succeed.\<close>

definition alone_ok :: "thread \<Rightarrow> scheduled \<Rightarrow> bool" where
  "alone_ok self l \<longleftrightarrow> alone self (sy_table (fst l)) \<and> snd l = []"

lemma alone_call:
  assumes "alone_ok self l"
  shows "fst (lock_call self l req) = 0 \<and> alone_ok self (snd (lock_call self l req))"
proof -
  obtain s where l: "l = (s, [])" "alone self (sy_table s)" using assms by (cases l) (auto simp: alone_ok_def)
  obtain lt' where "start_call self req True s = (Returned 0, lt')" "alone self lt'"
    using alone_start [OF l(2)] by (auto simp: start_call_def calloc_result_def)
  then show ?thesis by (simp add: lock_call_def l(1) alone_ok_def)
qed

lemma alone_grants: "grants (alone_ok self) (table_calls self)"
  by (simp add: grants_def table_calls_def alone_call)

end
