(* ===== verification/Server_Props.thy ===== *)
theory Server_Props
  imports Server_Correct Terminal_Correct Storage_Props
begin

text \<open>The properties of the two fronts of the program: the server and the terminal.\<close>

section \<open>Examples\<close>


definition demo_lock :: scheduled where
  "demo_lock = (\<lparr>sy_table = lock_table_init, sy_waits = (\<lambda>_. None)\<rparr>, [])"




section \<open>One request\<close>








text \<open>
  Every answer fits the buffers of the server: the body never reaches the end of its 8192 bytes
  nor the head that of its 512, so no answer is cut after its length has been announced.
\<close>

theorem answers_fit_buffers:
  "length (response_body res) < RESPONSE_BUF
   \<and> length (response_head 200 ''OK'' (length (response_body res)) ka) < 512
   \<and> length (response_head 400 ''Bad Request'' (length (response_body res)) ka) < 512"
proof -
  have "length (response_body res) < 2 ^ 64"
    by (rule less_trans [OF response_body_fits]) (simp add: RESPONSE_BUF_def)
  then show ?thesis using response_body_fits [of res] response_head_fits by simp
qed

section \<open>All connections\<close>

text \<open>
  C32: Whatever the threads of the server do, the table of connections and its counter agree with the
  threads that serve one, there are at most 128 of them, and once the server has stopped none is
  left and the database is not touched any more.
\<close>

theorem server_within_limits:
  assumes "served lc lstats destroy s l w"
  shows "card (dom (w_workers w)) \<le> MAX_CONNECTIONS
    \<and> sv_active (w_server w) = int (card (dom (w_workers w)))
    \<and> (\<forall>i. i \<in> dom (w_workers w) \<longleftrightarrow> i < MAX_CONNECTIONS \<and> sv_fds (w_server w) ! i \<noteq> -1)
    \<and> (w_main w = Stopped \<longrightarrow> w_workers w = (\<lambda>_. None))
    \<and> (\<forall>w'. w_main w = Stopped \<and> server_step lc lstats destroy w w' \<longrightarrow> w_store w' = w_store w \<and> w_main w' = Stopped)"
proof -
  note ok = served_ok [OF assms, unfolded world_ok_def]
  then have t: "table_ok (w_server w)" and d: "dom (w_workers w) = used_slots (w_server w)"
    and n: "w_main w = Stopped \<Longrightarrow> w_workers w = (\<lambda>_. None)" by auto
  have "w_store w' = w_store w \<and> w_main w' = Stopped" if "w_main w = Stopped" "server_step lc lstats destroy w w'" for w'
    using that(2) by (cases rule: server_stepE) (use that(1) n in auto)
  then show ?thesis
    using t n used_slots_card [OF t] unfolding d by (auto simp: used_slots_def table_ok_def)
qed

definition demo_world :: "scheduled world" where
  "demo_world = (server_start demo_store demo_lock)\<lparr>
     w_server := server_init\<lparr>sv_active := 1, sv_total := 1, sv_fds := 5 # replicate (MAX_CONNECTIONS - 1) (-1)\<rparr>,
     w_workers := [0 \<mapsto> Serving 5 [''GET /'']]\<rparr>"

lemma demo_served: "served (\<lambda>i. table_calls i) (\<lambda>_. lock_table_stats lock_table_init) id demo_store demo_lock demo_world"
proof -
  have "replicate MAX_CONNECTIONS (-1 :: int) = -1 # replicate (MAX_CONNECTIONS - 1) (-1)"
    by (simp add: MAX_CONNECTIONS_def numeral_eq_Suc)
  then have a: "accept_connection server_init 5 True True
    = (Some 0, [], server_init\<lparr>sv_active := 1, sv_total := 1, sv_fds := 5 # replicate (MAX_CONNECTIONS - 1) (-1)\<rparr>)"
    by (simp add: accept_connection_def register_connection_fd_def server_init_def MAX_CONNECTIONS_def)
  let ?w = "server_start demo_store demo_lock" and ?lstats = "\<lambda>_ :: scheduled. lock_table_stats lock_table_init"
  have "server_step table_calls ?lstats id ?w (?w\<lparr>
      w_server := server_init\<lparr>sv_active := 1, sv_total := 1, sv_fds := 5 # replicate (MAX_CONNECTIONS - 1) (-1)\<rparr>,
      w_workers := (case Some 0 of None \<Rightarrow> w_workers ?w | Some i \<Rightarrow> (w_workers ?w)(i \<mapsto> Serving 5 [''GET /'']))\<rparr>)"
    by (rule server_step.accept) (use a in \<open>simp_all add: server_start_def\<close>)
  then have "server_step table_calls ?lstats id ?w demo_world" by (simp add: demo_world_def server_start_def)
  then show ?thesis by (rule served.step [OF served.start])
qed

theorem server_within_limits_witness:
  "card (dom (w_workers demo_world)) \<le> MAX_CONNECTIONS \<and> sv_active (w_server demo_world) = int (card (dom (w_workers demo_world)))"
  using server_within_limits [OF demo_served] by blast

section \<open>The terminal\<close>



end
