(* ===== verification/Heap_Overwrite.thy ===== *)
theory Heap_Overwrite
  imports Heap_Rows
begin

text \<open>
  Writing a row over another of the same size in its slot, as UPDATE does
  (\<open>exec_index_update\<close>, \<open>exec_update_scan\<close>): only the bytes of that row change, so the slot directory,
  the chain of free slots and every other row stay as they are.
\<close>

section \<open>One page\<close>

definition page_overwrite :: "bytes \<Rightarrow> u16 \<Rightarrow> bytes \<Rightarrow> bytes" where
  "page_overwrite b sid row = mwrite b (unat (sl_offset (slot_at b sid))) row"

lemma page_overwrite_ok:
  assumes ok: "heap_page_ok ps rs b" and alive: "page_row rs b sid \<noteq> None" and row: "length row = rs"
  shows "unat (sl_offset (slot_at b sid)) + rs \<le> length b"
    and "heap_page_ok ps rs (page_overwrite b sid row)"
    and "page_row rs (page_overwrite b sid row) i = (if i = sid then Some row else page_row rs b i)"
    and "get_heap_hdr (page_overwrite b sid row) = get_heap_hdr b"
proof -
  note D = heap_page_okD [OF ok] and B = row_pos_bounds [OF heap_page_okD(5) [OF ok]]
  let ?n = "hph_slot_count (get_heap_hdr b)" and ?b = "page_overwrite b sid row"
  have sid: "sid < ?n" using alive by (auto simp: page_row_def split: if_splits)
  then have p: "unat (sl_offset (slot_at b sid)) = row_pos ps rs sid" "unat sid < unat ?n"
    using D(6) by (simp_all add: word_less_nat_alt)
  then have b: "?b = mwrite b (row_pos ps rs sid) row" by (simp add: page_overwrite_def)
  show "unat (sl_offset (slot_at b sid)) + rs \<le> length b" using p B(3) D(1) by simp
  have len: "length ?b = ps" using p(2) B(3) [of sid] D(1) row by (simp add: b length_mwrite)
  show hdr: "get_heap_hdr ?b = get_heap_hdr b"
    unfolding b using B(2,3) [OF p(2)] D(1) row by (intro hdr_other) simp_all
  have slot: "slot_at ?b i = slot_at b i" if "i < ?n" for i
  proof -
    have "unat i < unat ?n" using that by (simp add: word_less_nat_alt)
    from B(1) [OF this] B(2,3) [OF p(2)] D(1) row show ?thesis unfolding b by (intro slot_at_put_row) simp_all
  qed
  obtain fs where fs: "slot_chain (slot_at b) (hph_free_slot_head (get_heap_hdr b)) fs" "distinct fs"
    "set fs = {i. i < ?n \<and> sl_status (slot_at b i) = SLOT_FREE}"
    using ok by (auto simp: heap_page_ok_def Let_def)
  then have "slot_chain (slot_at ?b) (hph_free_slot_head (get_heap_hdr ?b)) fs"
    using slot_chain_cong [of fs "slot_at b" "slot_at ?b"] slot hdr by auto
  with D hdr len slot fs show "heap_page_ok ps rs ?b"
    by (auto simp: heap_page_ok_def Let_def intro!: exI [of _ fs])
  show "page_row rs ?b i = (if i = sid then Some row else page_row rs b i)"
  proof (cases "i < ?n")
    case True
    then have i: "unat i < unat ?n" by (simp add: word_less_nat_alt)
    have "mread ?b (row_pos ps rs i) rs = (if i = sid then row else mread b (row_pos ps rs i) rs)"
    proof (cases "i = sid")
      case True
      then show ?thesis using B(3) [OF p(2)] D(1) row by (simp add: b mem_simps)
    next
      case False
      then show ?thesis using row_pos_disjoint [OF D(5) False i p(2)] B(3) [OF i] B(3) [OF p(2)] D(1) row
        by (auto simp: b intro!: mread_mwrite_disjoint)
    qed
    then show ?thesis using True slot [OF True] D(6) [OF True] hdr alive by (auto simp: page_row_def split: if_splits)
  next
    case False
    then show ?thesis using hdr sid by (auto simp: page_row_def)
  qed
qed

section \<open>The heap\<close>

theorem heap_overwrite_correct:
  assumes ok: "store_ok s fl" and hok: "heap_ok s fl rs chain" and alive: "heap_rows s rs chain ref \<noteq> None"
    and row: "length row = rs"
    and s': "s' = st_put s (rr_page_id ref) (page_overwrite (st_pages s (rr_page_id ref)) (rr_slot_id ref) row)"
  shows "unat (sl_offset (slot_at (st_pages s (rr_page_id ref)) (rr_slot_id ref))) + rs \<le> length (st_pages s (rr_page_id ref))"
    and "store_ok s' fl" "heap_ok s' fl rs chain" "heap_rows s' rs chain = (heap_rows s rs chain)(ref \<mapsto> row)"
    and "p \<notin> set chain \<Longrightarrow> st_pages s' p = st_pages s p"
    and "st_hdr s' = st_hdr s" "st_page_size s' = st_page_size s"
proof -
  let ?p = "rr_page_id ref" and ?i = "rr_slot_id ref"
  have p: "?p \<in> set chain" and al: "page_row rs (st_pages s ?p) ?i \<noteq> None"
    using alive by (auto simp: heap_rows_def split: if_splits)
  note O = page_overwrite_ok [OF heap_okD(6) [OF hok p] al row]
  have eq: "s' = (st_put s ?p (page_overwrite (st_pages s ?p) ?i row))\<lparr>st_free_hint := st_free_hint s\<rparr>"
    by (simp add: s' st_put_def)
  have hint: "st_free_hint s \<or> \<not> st_free_hint s \<and> hph_free_slot_head (get_heap_hdr (page_overwrite (st_pages s ?p) ?i row)) = SLOT_NONE"
    using hok p O(4) by (auto simp: heap_ok_def)
  have nxt: "hph_next_heap_page_id (get_heap_hdr (page_overwrite (st_pages s ?p) ?i row))
      = hph_next_heap_page_id (get_heap_hdr (st_pages s ?p))" by (simp only: O(4))
  note P = heap_put_page [OF ok hok p O(2) nxt hint eq]
  show "unat (sl_offset (slot_at (st_pages s ?p) ?i)) + rs \<le> length (st_pages s ?p)" by (rule O(1))
  show "store_ok s' fl" "heap_ok s' fl rs chain" "p \<notin> set chain \<Longrightarrow> st_pages s' p = st_pages s p" by (fact P(1), fact P(2), fact P(4))
  show "st_hdr s' = st_hdr s" "st_page_size s' = st_page_size s" by (simp_all add: s')
  show "heap_rows s' rs chain = (heap_rows s rs chain)(ref \<mapsto> row)"
  proof
    fix r :: row_ref
    show "heap_rows s' rs chain r = ((heap_rows s rs chain)(ref \<mapsto> row)) r"
      using P(5) [of r] O(3) p by (cases r; cases ref) (auto simp: heap_rows_def)
  qed
qed

end
