(* ===== verification/Table_Edit.thy ===== *)
theory Table_Edit
  imports Table_Insert BPlus_Leaves Heap_Overwrite
begin

text \<open>
  Removing a row and changing a row of a well formed database: heap and index change together, the
  table loses exactly the id or gets exactly the new values, and everything else stays. The
  statements DELETE and UPDATE with an id are one such step.
\<close>

section \<open>Removing a row\<close>

lemma heap_delete_db:
  assumes ok: "store_ok s fl" "heap_ok s fl rs chain" "index_tree s fl h t" "set chain \<inter> set (pids t) = {}"
    and alive: "heap_rows s rs chain ref \<noteq> None"
  shows "\<exists>s'. heap_delete s ref = (True, s') \<and> store_ok s' fl \<and> heap_ok s' fl rs chain \<and> index_tree s' fl h t
    \<and> heap_rows s' rs chain = (heap_rows s rs chain)(ref := None)
    \<and> st_hdr s' = st_hdr s \<and> st_page_size s' = st_page_size s"
proof -
  from heap_delete_correct [OF ok(1,2) alive] obtain s' where d: "heap_delete s ref = (True, s')" "store_ok s' fl"
    "heap_ok s' fl rs chain" "heap_rows s' rs chain = (heap_rows s rs chain)(ref := None)"
    "\<forall>p. p \<notin> set chain \<longrightarrow> st_pages s' p = st_pages s p" "st_hdr s' = st_hdr s" "st_page_size s' = st_page_size s" by blast
  have "index_tree s' fl h t"
  proof (rule index_tree_keep [OF ok(3) d(7)])
    show "root_id s' = root_id s" using d(6) by (simp add: root_id_def)
    fix p assume p: "p \<in> set (pids t)"
    then have "in_use s fl p" using ok(3) by (simp add: index_tree_def)
    moreover have "p \<notin> set chain" using p ok(4) by blast
    ultimately show "st_pages s' p = st_pages s p \<and> in_use s' fl p" using d(5,6) by (simp add: in_use_def)
  qed
  with d show ?thesis by blast
qed

lemma index_step_db:
  assumes S: "index_step s fl t s' fl' t'"
    and ok: "heap_ok s fl rs chain" "set chain \<inter> set (pids t) = {}"
  shows "heap_ok s' fl' rs chain" "set chain \<inter> set (pids t') = {}" "heap_rows s' rs chain = heap_rows s rs chain"
    "idx_frame (st_hdr s) (st_hdr s')" "st_page_size s' = st_page_size s" "store_ok s' fl'"
proof -
  note S = S [unfolded index_step_def]
  have chain: "st_pages s' p = st_pages s p \<and> in_use s' fl' p \<and> p \<notin> set (pids t')" if "p \<in> set chain" for p
  proof -
    have "in_use s fl p" using heap_okD(5) [OF ok(1)] that by blast
    moreover have "p \<notin> set (pids t)" using ok(2) that by blast
    ultimately show ?thesis using S by blast
  qed
  show "heap_ok s' fl' rs chain"
    by (rule heap_ok_keep [OF ok(1)]) (use S chain idx_frame_fields(1) in auto)
  show "heap_rows s' rs chain = heap_rows s rs chain" by (rule heap_rows_keep) (use chain in blast)
  show "set chain \<inter> set (pids t') = {}" using chain by blast
  show "idx_frame (st_hdr s) (st_hdr s')" "st_page_size s' = st_page_size s" "store_ok s' fl'" using S by blast+
qed

lemma card_dom_del:
  assumes "finite (dom m)" "m k \<noteq> None"
  shows "word_of_nat (card (dom (m(k := None)))) = (word_of_nat (card (dom m)) - 1 :: u64)"
proof -
  have k: "k \<in> dom m" using assms(2) by blast
  then have "card (dom m) = Suc (card (dom m - {k}))" by (metis card.remove assms(1))
  moreover have "dom (m(k := None)) = dom m - {k}" by simp
  ultimately show ?thesis by simp
qed

lemma finite_index_map: "finite (dom (index_map t))"
  by (simp add: index_map_def finite_dom_map_of)

text \<open>What a statement leaves alone; it takes no new page.\<close>

definition same_counter :: "db_header \<Rightarrow> db_header \<Rightarrow> bool" where
  "same_counter h h' \<longleftrightarrow> same_schema h h' \<and> hd_next_id h' = hd_next_id h \<and> hd_next_page_id h' \<le> hd_next_page_id h"

lemma same_counter_refl [simp]: "same_counter h h" by (simp add: same_counter_def same_schema_def)

lemma same_counter_trans: "same_counter h h' \<Longrightarrow> same_counter h' h'' \<Longrightarrow> same_counter h h''"
  by (auto simp: same_counter_def same_schema_def)

lemma same_counter_room: "same_counter (st_hdr s) (st_hdr s') \<Longrightarrow> room s n \<Longrightarrow> room s' n"
  by (simp add: same_counter_def room_def word_le_nat_alt)

theorem remove_row_correct:
  assumes ok: "db_ok s fl chain h t" and k: "index_map t k = Some ref"
  shows "\<exists>s1 s2 fl' h' t'. heap_delete s ref = (True, s1) \<and> bptree_delete s1 k = Some (0, s2)
    \<and> db_ok (count_down s2) fl' chain h' t'
    \<and> table_of (count_down s2) chain t' = (table_of s chain t)(k := None)
    \<and> same_counter (st_hdr s) (st_hdr (count_down s2))"
proof -
  note D = db_okD [OF ok]
  from D(7) [OF k] have al: "heap_rows s (row_len s) chain ref \<noteq> None" by auto
  from heap_delete_db [OF D(1,2,3,4) al] obtain s1 where A: "heap_delete s ref = (True, s1)" "store_ok s1 fl"
    "heap_ok s1 fl (row_len s) chain" "index_tree s1 fl h t"
    "heap_rows s1 (row_len s) chain = (heap_rows s (row_len s) chain)(ref := None)"
    "st_hdr s1 = st_hdr s" "st_page_size s1 = st_page_size s" by blast
  have "index_map t k \<noteq> None" using k by simp
  from bptree_delete_correct(2) [OF A(2,4) this] obtain s2 fl' h' t' where B: "bptree_delete s1 k = Some (0, s2)"
    "index_tree s2 fl' h' t'" "index_map t' = (index_map t)(k := None)" "index_step s1 fl t s2 fl' t'"
    "hd_next_page_id (st_hdr s2) \<le> hd_next_page_id (st_hdr s1)" by blast
  note C = index_step_db [OF B(4) A(3) D(4)]
  let ?s = "count_down s2"
  have links: "same_links (st_hdr s2) ((st_hdr s2)\<lparr>hd_row_count := hd_row_count (st_hdr s2) - 1\<rparr>)" by (simp add: same_links_def)
  note K = set_hdr_keeps [OF links, folded count_down_def]
  note F = idx_frame_fields [OF C(4), unfolded A(6)]
  have hdr: "st_hdr ?s = (st_hdr s2)\<lparr>hd_row_count := hd_row_count (st_hdr s2) - 1\<rparr>" by (simp add: count_down_def)
  have sc: "same_schema (st_hdr s) (st_hdr ?s)" using F(4,5,6) by (simp add: hdr same_schema_def)
  note Q = same_schema_keeps [OF sc]
  have rl: "row_len ?s = row_len s" using sc by (simp add: same_schema_def)
  have rows: "heap_rows ?s (row_len s) chain = (heap_rows s (row_len s) chain)(ref := None)" using K(5) C(3) A(5) by simp
  have ts: "table_schema ?s" by (rule table_schema_keep [OF D(5) sc]) (simp add: count_down_def C(5) A(7))
  have other: "k' = k" if "index_map t k' = Some ref" for k' using index_map_inj [OF ok that k] .
  have "db_ok ?s fl' chain h' t'"
    unfolding db_ok_def rl Q(2,4,5)
  proof (intro conjI allI impI)
    show "store_ok ?s fl'" "heap_ok ?s fl' (row_len s) chain" "index_tree ?s fl' h' t'" "set chain \<inter> set (pids t') = {}"
      "table_schema ?s" using K B C ts by simp_all
  next
    fix r row assume "heap_rows ?s (row_len s) chain r = Some row"
    then have r: "r \<noteq> ref" "heap_rows s (row_len s) chain r = Some row" unfolding rows by (auto split: if_splits)
    from D(6) [OF r(2)] obtain k' where k': "row_id (st_hdr s) row = Some k'" "index_map t k' = Some r" by blast
    with r(1) k have "k' \<noteq> k" by auto
    then show "\<exists>k. row_id (st_hdr s) row = Some k \<and> index_map t' k = Some r" using k' B(3) by auto
  next
    fix k' r assume "index_map t' k' = Some r"
    then have k': "k' \<noteq> k" "index_map t k' = Some r" using B(3) by (auto split: if_splits)
    then have "r \<noteq> ref" using other by blast
    then show "\<exists>row. heap_rows ?s (row_len s) chain r = Some row \<and> row_id (st_hdr s) row = Some k'"
      using D(7) [OF k'(2)] by (simp add: rows)
  next
    fix k' assume "index_map t' k' \<noteq> None"
    then have "index_map t k' \<noteq> None" using B(3) by (auto split: if_splits)
    then show "k' < hd_next_id (st_hdr ?s)" using D(8) F(2) by (simp add: hdr)
  next
    show "hd_row_count (st_hdr ?s) = word_of_nat (card (dom (index_map t')))"
      unfolding B(3) using card_dom_del [OF finite_index_map, of t k] k D(9) F(3) by (simp add: hdr)
  next
    fix r row vs assume "heap_rows ?s (row_len s) chain r = Some row \<and> row_deserialize (st_hdr s) row = Some vs"
    then show "canonical_row (st_hdr s) vs" using D(10) [of r row vs] by (auto simp: rows split: if_splits)
  qed
  moreover have "table_of ?s chain t' = (table_of s chain t)(k := None)"
  proof
    fix k'
    show "table_of ?s chain t' k' = ((table_of s chain t)(k := None)) k'"
      unfolding table_of_def rl Q(2) rows using B(3) other [of k'] by (auto split: option.splits)
  qed
  moreover have "same_counter (st_hdr s) (st_hdr ?s)" using sc F(2) B(5) A(6) by (simp add: same_counter_def hdr)
  ultimately show ?thesis using A(1) B(1) by blast
qed

section \<open>Changing a row\<close>

lemma canonical_row_nth:
  assumes "canonical_row hdr vs" "i < length vs"
  shows "canonical (hd_columns hdr ! i) (vs ! i) = vs ! i"
proof -
  have "length (map2 canonical (hd_columns hdr) vs) = length vs" using assms(1) by (simp only: canonical_row_def)
  then have "i < length (hd_columns hdr)" using assms(2) by simp
  then have "map2 canonical (hd_columns hdr) vs ! i = canonical (hd_columns hdr ! i) (vs ! i)" using assms(2) by simp
  then show ?thesis using assms(1) by (simp add: canonical_row_def)
qed

lemma canonical_row_value_ok:
  assumes "schema_ok hdr" "canonical_row hdr vs" "length vs = unat (hd_column_count hdr)"
  shows "\<forall>v \<in> set vs. value_ok v"
proof
  fix v assume "v \<in> set vs"
  then obtain i where i: "i < length vs" "v = vs ! i" by (metis in_set_conv_nth)
  have "col_sized (hd_columns hdr ! i)" by (rule schema_ok_sized [OF assms(1) refl]) (use i assms(3) in simp)
  then have "value_ok (canonical (hd_columns hdr ! i) (vs ! i))" by (rule value_ok_canonical)
  then show "value_ok v" using canonical_row_nth [OF assms(2) i(1)] i(2) by simp
qed

text \<open>The value UPDATE puts into a column, as the column stores it.\<close>

definition stored_value :: "column_meta \<Rightarrow> string \<Rightarrow> row_value" where
  "stored_value c txt = canonical c (assign_value c zero_value txt)"

definition updated_value :: "column_meta \<Rightarrow> row_value \<Rightarrow> string \<Rightarrow> row_value" where
  "updated_value c v txt = (if cm_type c = COL_TYPE_VARCHAR then set_str zero_value txt else assign_value c v txt)"

lemma apply_update_eq: "apply_update_to_row hdr vs stmt i =
    vs[i := updated_value (hd_columns hdr ! i) (vs ! i) (update_value stmt)]"
  by (simp add: apply_update_to_row_def updated_value_def Let_def)

lemma set_int_over: "v = wr32 y @ r \<Longrightarrow> set_int v x = wr32 x @ r"
  by (simp add: set_int_def mwrite_def)

lemma set_bigint_over: "v = wr64 y @ r \<Longrightarrow> set_bigint v x = wr64 x @ r"
  by (simp add: set_bigint_def mwrite_def)

lemma updated_value_ok:
  assumes sz: "col_sized c" and v: "canonical c v = v"
  shows "value_ok (updated_value c v txt)" "canonical c (updated_value c v txt) = stored_value c txt"
proof -
  have "value_ok (updated_value c v txt) \<and> canonical c (updated_value c v txt) = stored_value c txt"
  proof (cases "cm_type c = COL_TYPE_VARCHAR")
    case True
    have "updated_value c v txt = assign_value c zero_value txt"
      using True by (simp add: updated_value_def assign_value_def)
    then show ?thesis using value_ok_assign by (simp add: stored_value_def)
  next
    case False
    have can: "v = pad_value (case col_src c v of None \<Rightarrow> [] | Some d \<Rightarrow> d)" using v by (simp add: canonical_def)
    have up: "updated_value c v txt = assign_value c v txt" using False by (simp add: updated_value_def)
    from sz False consider (int) "cm_type c = COL_TYPE_INT" | (big) "cm_type c = COL_TYPE_BIGINT" "cm_type c \<noteq> COL_TYPE_INT"
      by (auto simp: col_sized_def)
    then show ?thesis
    proof cases
      case int
      then have "v = wr32 (int_val v) @ replicate 252 0" using can by (simp add: col_src_def pad_value_def ROW_VALUE_SIZE_def)
      then have "set_int v x = wr32 x @ replicate 252 0" for x by (rule set_int_over)
      then show ?thesis using int up
        by (simp add: assign_value_def stored_value_def value_ok_def ROW_VALUE_SIZE_def canonical_def col_src_def int_val_def)
          (simp add: set_int_def mwrite_def)
    next
      case big
      then have "v = wr64 (bigint_val v) @ replicate 248 0" using can by (simp add: col_src_def pad_value_def ROW_VALUE_SIZE_def)
      then have "set_bigint v x = wr64 x @ replicate 248 0" for x by (rule set_bigint_over)
      then show ?thesis using big up
        by (simp add: assign_value_def stored_value_def value_ok_def ROW_VALUE_SIZE_def canonical_def col_src_def bigint_val_def)
          (simp add: set_bigint_def mwrite_def)
    qed
  qed
  then show "value_ok (updated_value c v txt)" "canonical c (updated_value c v txt) = stored_value c txt" by simp_all
qed

theorem overwrite_row_correct:
  assumes ok: "db_ok s fl chain h t" and f: "\<forall>n. fits n" and k: "index_map t k = Some ref"
    and vs: "length vs = unat (hd_column_count (st_hdr s))" "\<forall>v \<in> set vs. value_ok v" "values_id vs = k"
  shows "\<exists>s'. overwrite_row fits s ref vs = Some s' \<and> db_ok s' fl chain h t
    \<and> table_of s' chain t = (table_of s chain t)(k \<mapsto> map2 canonical (hd_columns (st_hdr s)) vs) \<and> st_hdr s' = st_hdr s"
proof -
  note D = db_okD [OF ok]
  let ?hdr = "st_hdr s" and ?new = "map2 canonical (hd_columns (st_hdr s)) vs"
  have sch: "schema_ok ?hdr" "0 < hd_column_count ?hdr" "hd_columns ?hdr ! 0 = id_column" using D(5) by (simp_all add: table_schema_def)
  from row_roundtrip [OF sch(1) vs(1,2)] obtain buf where buf: "row_serialize ?hdr vs = Some buf" "length buf = row_len s"
    "row_deserialize ?hdr buf = Some ?new" by blast
  have new: "canonical_row ?hdr ?new" by (rule canonical_row_map2 [OF sch(1) vs(1,2)])
  have "values_id ?new = k"
  proof -
    have "0 < unat (hd_column_count ?hdr)" using sch(2) by (simp add: word_less_nat_alt)
    moreover have "unat (hd_column_count ?hdr) \<le> length (hd_columns ?hdr)" using sch(1) by (simp add: schema_ok_def)
    ultimately have "0 < length (hd_columns ?hdr)" "0 < length vs" using vs(1) by linarith+
    then show ?thesis using sch(3) vs(3) by (simp add: values_id_def canonical_bigint id_column_def)
  qed
  then have idbuf: "row_id ?hdr buf = Some k" by (simp add: row_id_def buf(3))
  from D(7) [OF k] have al: "heap_rows s (row_len s) chain ref \<noteq> None" by auto
  let ?p = "rr_page_id ref"
  let ?s = "st_put s ?p (page_overwrite (st_pages s ?p) (rr_slot_id ref) buf)"
  note O = heap_overwrite_correct [OF D(1,2) al buf(2) refl]
  have rows: "heap_rows ?s (row_len s) chain = (heap_rows s (row_len s) chain)(ref \<mapsto> buf)" by (rule O(4))
  have "overwrite_row fits s ref vs = Some ?s"
    using f buf(1,2) O(1) by (simp add: overwrite_row_def page_overwrite_def Let_def)
  moreover have "db_ok ?s fl chain h t"
    unfolding db_ok_def O(6)
  proof (intro conjI allI impI)
    show "store_ok ?s fl" "heap_ok ?s fl (row_len s) chain" by (rule O(2), rule O(3))
    show "set chain \<inter> set (pids t) = {}" by (rule D(4))
    show "table_schema ?s" by (rule table_schema_keep [OF D(5)]) (simp_all add: same_schema_def)
    show "index_tree ?s fl h t"
    proof (rule index_tree_keep [OF D(3)])
      fix p assume p: "p \<in> set (pids t)"
      then have "in_use s fl p" using D(3) by (simp add: index_tree_def)
      moreover have "p \<notin> set chain" using p D(4) by blast
      ultimately show "st_pages ?s p = st_pages s p \<and> in_use ?s fl p" using O(5) by (simp add: in_use_def)
    qed (simp_all add: root_id_def)
  next
    fix r row assume "heap_rows ?s (row_len s) chain r = Some row"
    then show "\<exists>k. row_id ?hdr row = Some k \<and> index_map t k = Some r"
      unfolding rows using D(6) [of r row] idbuf k by (auto split: if_splits)
  next
    fix k' r assume k': "index_map t k' = Some r"
    show "\<exists>row. heap_rows ?s (row_len s) chain r = Some row \<and> row_id ?hdr row = Some k'"
    proof (cases "r = ref")
      case True
      then have "k' = k" using index_map_inj [OF ok _ k] k' by blast
      then show ?thesis using True idbuf by (simp add: rows)
    next
      case False
      then show ?thesis using D(7) [OF k'] by (simp add: rows)
    qed
  next
    fix k' assume "index_map t k' \<noteq> None"
    then show "k' < hd_next_id ?hdr" by (rule D(8))
  next
    show "hd_row_count ?hdr = word_of_nat (card (dom (index_map t)))" by (rule D(9))
  next
    fix r row vs assume "heap_rows ?s (row_len s) chain r = Some row \<and> row_deserialize ?hdr row = Some vs"
    then show "canonical_row ?hdr vs" using D(10) [of r row vs] new buf(3) by (cases "r = ref") (auto simp: rows)
  qed
  moreover have "table_of ?s chain t = (table_of s chain t)(k \<mapsto> ?new)"
  proof
    fix k'
    show "table_of ?s chain t k' = ((table_of s chain t)(k \<mapsto> ?new)) k'"
    proof (cases "k' = k")
      case True
      then show ?thesis using buf(3) k by (simp add: table_of_def rows)
    next
      case False
      then have "index_map t k' \<noteq> Some ref" using index_map_inj [OF ok _ k] by blast
      then show ?thesis using False by (auto simp: table_of_def rows split: option.splits)
    qed
  qed
  ultimately show ?thesis by (metis O(6))
qed

section \<open>One row, read and written back\<close>

lemma table_row:
  assumes ok: "db_ok s fl chain h t" and k: "index_map t k = Some ref"
  shows "\<exists>p vs. heap_fetch s ref = Some p \<and> row_deserialize (st_hdr s) p = Some vs \<and> table_of s chain t k = Some vs"
proof -
  from table_of_index(2) [OF ok k] obtain row vs where r: "heap_rows s (row_len s) chain ref = Some row"
    "row_deserialize (st_hdr s) row = Some vs" "table_of s chain t k = Some vs" by blast
  from heap_fetch_alive [OF r(1)] obtain p where p: "heap_fetch s ref = Some p" "take (row_len s) p = row" by blast
  have "row_deserialize (st_hdr s) p = Some vs" using r(2) unfolding p(2) [symmetric] by (rule row_deserialize_take)
  with p(1) r(3) show ?thesis by blast
qed

lemma table_row_values:
  assumes ok: "db_ok s fl chain h t" and v: "table_of s chain t k = Some vs"
  shows "canonical_row (st_hdr s) vs" "length vs = unat (hd_column_count (st_hdr s))" "values_id vs = k"
    "\<forall>v \<in> set vs. value_ok v"
proof -
  obtain ref where k: "index_map t k = Some ref" using v table_of_index(1) [OF ok, of k] by auto
  from table_of_index(2) [OF ok k] v obtain row where r: "heap_rows s (row_len s) chain ref = Some row"
    "row_deserialize (st_hdr s) row = Some vs" "values_id vs = k" by auto
  show c: "canonical_row (st_hdr s) vs" "length vs = unat (hd_column_count (st_hdr s))" "values_id vs = k"
    using db_okD(10) [OF ok r(1,2)] row_deserialize_length [OF r(2)] r(3) by blast+
  show "\<forall>v \<in> set vs. value_ok v"
    using canonical_row_value_ok [OF _ c(1,2)] db_okD(5) [OF ok] by (simp add: table_schema_def)
qed

text \<open>The column UPDATE names: one of the table's, and not the id.\<close>

lemma validate_update_target_ok:
  assumes "table_schema s" "validate_update_target (st_hdr s) stmt = Inr i"
  shows "find_column_index (st_hdr s) (update_field stmt) = Some i" "i < unat (hd_column_count (st_hdr s))" "i \<noteq> 0"
    "col_sized (hd_columns (st_hdr s) ! i)"
proof -
  have f: "find_column_index (st_hdr s) (update_field stmt) = Some i" "cm_is_system (hd_columns (st_hdr s) ! i) = 0"
    using assms(2) by (auto simp: validate_update_target_def split: option.splits if_splits)
  then show "find_column_index (st_hdr s) (update_field stmt) = Some i" by simp
  show i: "i < unat (hd_column_count (st_hdr s))"
    using f(1) by (auto simp: find_column_index_def find_Some_iff)
  have "i = 0 \<Longrightarrow> False" using f(2) assms(1) by (simp add: table_schema_def id_column_def)
  then show "i \<noteq> 0" by blast
  show "col_sized (hd_columns (st_hdr s) ! i)"
    using assms(1) schema_ok_sized [OF _ refl i] by (simp add: table_schema_def)
qed

definition update_row :: "db_header \<Rightarrow> statement \<Rightarrow> nat \<Rightarrow> row_value list \<Rightarrow> row_value list" where
  "update_row hdr stmt i vs = vs[i := stored_value (hd_columns hdr ! i) (update_value stmt)]"

lemma update_one:
  assumes ok: "db_ok s fl chain h t" and f: "\<forall>n. fits n" and k: "index_map t k = Some ref"
    and v: "table_of s chain t k = Some vs" and i: "validate_update_target (st_hdr s) stmt = Inr i"
  shows "\<exists>s'. overwrite_row fits s ref (apply_update_to_row (st_hdr s) vs stmt i) = Some s' \<and> db_ok s' fl chain h t
    \<and> table_of s' chain t = (table_of s chain t)(k \<mapsto> update_row (st_hdr s) stmt i vs) \<and> st_hdr s' = st_hdr s"
proof -
  let ?hdr = "st_hdr s" and ?c = "hd_columns (st_hdr s) ! i"
  note V = table_row_values [OF ok v] and I = validate_update_target_ok [OF db_okD(5) [OF ok] i]
  have li: "i < length vs" using I(2) V(2) by simp
  have lc: "length vs \<le> length (hd_columns ?hdr)" using V(2) db_okD(5) [OF ok] by (simp add: table_schema_def schema_ok_def)
  note U = updated_value_ok [OF I(4) canonical_row_nth [OF V(1) li], of "update_value stmt"]
  let ?vs = "apply_update_to_row ?hdr vs stmt i"
  have new: "map2 canonical (hd_columns ?hdr) ?vs = update_row ?hdr stmt i vs"
  proof (rule nth_equalityI)
    show "length (map2 canonical (hd_columns ?hdr) ?vs) = length (update_row ?hdr stmt i vs)"
      using lc by (simp add: apply_update_eq update_row_def)
    fix j assume "j < length (map2 canonical (hd_columns ?hdr) ?vs)"
    then have "j < length vs" "j < length (hd_columns ?hdr)" by (simp_all add: apply_update_eq)
    then show "map2 canonical (hd_columns ?hdr) ?vs ! j = update_row ?hdr stmt i vs ! j"
      using U(2) canonical_row_nth [OF V(1), of j] by (cases "j = i") (simp_all add: apply_update_eq update_row_def)
  qed
  have "\<forall>v \<in> set ?vs. value_ok v"
    using V(4) U(1) set_update_subset_insert [of vs i] by (fastforce simp: apply_update_eq)
  moreover have "values_id ?vs = k" using V(3) I(3) by (simp add: values_id_def apply_update_eq)
  ultimately show ?thesis
    using overwrite_row_correct [OF ok f k, of ?vs] V(2) new by (simp add: apply_update_eq)
qed

section \<open>DELETE and UPDATE with an id\<close>

theorem exec_index_delete_correct:
  assumes ok: "db_ok s fl chain h t"
  shows "\<exists>s' fl' h' t'. exec_index_delete s stmt = Some (done_with
        (if table_of s chain t (pred_id stmt) = None then Id_not_found (pred_id stmt) else Row_deleted (pred_id stmt)), s')
    \<and> db_ok s' fl' chain h' t' \<and> table_of s' chain t' = (table_of s chain t)(pred_id stmt := None)
    \<and> same_counter (st_hdr s) (st_hdr s')"
proof (cases "index_map t (pred_id stmt)")
  case None
  then have "table_of s chain t (pred_id stmt) = None" using table_of_index(1) [OF ok] by simp
  moreover from this have "(table_of s chain t)(pred_id stmt := None) = table_of s chain t" by (simp add: fun_upd_idem)
  ultimately show ?thesis
    using None ok by (auto simp: exec_index_delete_def bptree_search_correct [OF db_okD(3) [OF ok]] simp del: fun_upd_apply)
next
  case (Some ref)
  then have "table_of s chain t (pred_id stmt) \<noteq> None" using table_of_index(1) [OF ok] by simp
  moreover from remove_row_correct [OF ok Some] obtain s1 s2 fl' h' t' where
    "heap_delete s ref = (True, s1)" "bptree_delete s1 (pred_id stmt) = Some (0, s2)" "db_ok (count_down s2) fl' chain h' t'"
    "table_of (count_down s2) chain t' = (table_of s chain t)(pred_id stmt := None)"
    "same_counter (st_hdr s) (st_hdr (count_down s2))" by blast
  ultimately show ?thesis
    using Some by (auto simp: exec_index_delete_def bptree_search_correct [OF db_okD(3) [OF ok]] simp del: fun_upd_apply)
qed

theorem exec_index_update_correct:
  assumes ok: "db_ok s fl chain h t" and f: "\<forall>n. fits n" and i: "validate_update_target (st_hdr s) stmt = Inr i"
  shows "\<exists>s'. exec_index_update fits s stmt = Some (done_with
        (if table_of s chain t (pred_id stmt) = None then No_row_updated (pred_id stmt) else Row_updated (pred_id stmt)), s')
    \<and> db_ok s' fl chain h t \<and> st_hdr s' = st_hdr s
    \<and> table_of s' chain t = (table_of s chain t)
         (pred_id stmt := map_option (update_row (st_hdr s) stmt i) (table_of s chain t (pred_id stmt)))"
proof (cases "index_map t (pred_id stmt)")
  case None
  then have "table_of s chain t (pred_id stmt) = None" using table_of_index(1) [OF ok] by simp
  moreover from this have "(table_of s chain t)(pred_id stmt := None) = table_of s chain t" by (simp add: fun_upd_idem)
  ultimately show ?thesis
    using None ok i by (simp add: exec_index_update_def bptree_search_correct [OF db_okD(3) [OF ok]] del: fun_upd_apply)
next
  case (Some ref)
  from table_row [OF ok Some] obtain p vs where r: "heap_fetch s ref = Some p" "row_deserialize (st_hdr s) p = Some vs"
    "table_of s chain t (pred_id stmt) = Some vs" by blast
  from update_one [OF ok f Some r(3) i] obtain s' where
    "overwrite_row fits s ref (apply_update_to_row (st_hdr s) vs stmt i) = Some s'" "db_ok s' fl chain h t"
    "table_of s' chain t = (table_of s chain t)(pred_id stmt \<mapsto> update_row (st_hdr s) stmt i vs)" "st_hdr s' = st_hdr s" by blast
  then show ?thesis
    using Some r i by (simp add: exec_index_update_def bptree_search_correct [OF db_okD(3) [OF ok]] del: fun_upd_apply)
qed

end
