(* ===== verification/Table_Sweep.thy ===== *)
theory Table_Sweep
  imports Table_Edit Table_Select Lock_Manager
begin

text \<open>
  DELETE and UPDATE with any condition: the scan collects the ids of the matching rows, their locks
  are taken in increasing order, then each row is read again and removed or changed. The table keeps
  exactly the rows that do not match, or has exactly the matching ones changed; when a lock cannot be
  had, nothing has changed.
\<close>

section \<open>Collecting ids\<close>

definition collecting :: "id_collect \<Rightarrow> bool" where
  "collecting dc \<longleftrightarrow> \<not> ic_alloc_failed dc \<and> \<not> ic_overrun dc \<and> length (ic_ids dc) \<le> unat (ic_cap dc)
     \<and> unat (ic_cap dc) \<le> max 64 (2 * length (ic_ids dc))"

lemma collecting_step:
  assumes f: "\<forall>n. fits n" and c: "collecting dc" and small: "length (ic_ids dc) < 2 ^ 30"
  shows "\<exists>dc'. collect_id_cb fits hdr stmt v dc = (True, dc') \<and> collecting dc'
    \<and> ic_ids dc' = ic_ids dc @ (if match_predicate hdr v stmt then [values_id v] else [])"
proof (cases "match_predicate hdr v stmt")
  case False
  then show ?thesis using c by (simp add: collect_id_cb_def)
next
  case True
  let ?n = "length (ic_ids dc)" and ?full = "length (ic_ids dc) \<ge> unat (ic_cap dc)"
  define cap where "cap = (if ?full then (if ic_cap dc \<noteq> 0 then ic_cap dc * 2 else 64) else ic_cap dc)"
  have "?n < unat cap \<and> unat cap \<le> max 64 (2 * Suc ?n)"
  proof (cases "?full \<and> ic_cap dc \<noteq> 0")
    case full: True
    then have n: "unat (ic_cap dc) = ?n" using c by (simp add: collecting_def)
    moreover have "unat (ic_cap dc) \<noteq> 0" using full by (simp add: unat_eq_0)
    moreover have "unat (ic_cap dc * 2) = 2 * ?n" using n small by (simp add: unat_word_ariths)
    ultimately show ?thesis using full by (simp add: cap_def)
  next
    case False
    then consider "\<not> ?full" | "?full" "ic_cap dc = 0" by blast
    then show ?thesis
    proof cases
      case 1
      then have "cap = ic_cap dc" by (simp add: cap_def)
      moreover have "max 64 (2 * ?n) \<le> max 64 (2 * Suc ?n)" by (intro max.mono) simp_all
      then have "unat (ic_cap dc) \<le> max 64 (2 * Suc ?n)" using c unfolding collecting_def by (meson le_trans)
      ultimately show ?thesis using 1 by simp
    next
      case 2
      then have "?n = 0" using c by (simp add: collecting_def)
      then show ?thesis using 2 by (simp add: cap_def)
    qed
  qed
  moreover have "collect_id_cb fits hdr stmt v dc = (True, dc\<lparr>ic_ids := ic_ids dc @ [bigint_val (v ! 0)], ic_cap := cap,
      ic_overrun := (ic_overrun dc \<or> ?n \<ge> unat cap)\<rparr>)"
    using True f unfolding cap_def by (simp add: collect_id_cb_def Let_def)
  ultimately show ?thesis using True c by (simp add: collecting_def values_id_def)
qed

lemma collect_ids:
  assumes "\<forall>n. fits n" "collecting dc" "length (ic_ids dc) + length vs < 2 ^ 30"
  shows "collecting (visit_values (collect_id_cb fits hdr stmt) dc vs)
    \<and> ic_ids (visit_values (collect_id_cb fits hdr stmt) dc vs)
      = ic_ids dc @ map values_id (filter (\<lambda>v. match_predicate hdr v stmt) vs)"
  using assms(2,3)
proof (induction vs arbitrary: dc)
  case (Cons v vs)
  then have "length (ic_ids dc) < 2 ^ 30" by simp
  from collecting_step [OF assms(1) Cons.prems(1) this] obtain dc' where d: "collect_id_cb fits hdr stmt v dc = (True, dc')"
    "collecting dc'" "ic_ids dc' = ic_ids dc @ (if match_predicate hdr v stmt then [values_id v] else [])" by blast
  from Cons.IH [OF d(2)] d Cons.prems(2) show ?case by simp
qed simp

text \<open>The rows a condition selects.\<close>

definition selects :: "db_header \<Rightarrow> statement \<Rightarrow> (u64 \<Rightarrow> row_value list option) \<Rightarrow> u64 \<Rightarrow> bool" where
  "selects hdr stmt tab k \<longleftrightarrow> (case tab k of None \<Rightarrow> False | Some v \<Rightarrow> match_predicate hdr v stmt)"

lemma scan_collects:
  assumes ok: "db_ok s fl chain h t" and f: "\<forall>n. fits n" and small: "hd_next_id (st_hdr s) < 2 ^ 30"
  shows "\<exists>dc. scan_with s (collect_id_cb fits (st_hdr s) stmt) no_ids = Some dc \<and> \<not> ic_overrun dc \<and> \<not> ic_alloc_failed dc
    \<and> set (ic_ids dc) = {k. selects (st_hdr s) stmt (table_of s chain t) k}"
proof -
  from heap_lists_table [OF ok] obtain vs where vs: "heap_values s chain = Some vs" "lists_table vs (table_of s chain t)"
    "length vs \<le> unat (hd_next_id (st_hdr s))" by blast
  then have "length (ic_ids no_ids) + length vs < 2 ^ 30" using small by (simp add: word_less_nat_alt no_ids_def)
  moreover have "collecting no_ids" by (simp add: collecting_def no_ids_def)
  ultimately have "collecting (visit_values (collect_id_cb fits (st_hdr s) stmt) no_ids vs)
    \<and> ic_ids (visit_values (collect_id_cb fits (st_hdr s) stmt) no_ids vs)
      = map values_id (filter (\<lambda>v. match_predicate (st_hdr s) v stmt) vs)"
    using collect_ids [OF f, of no_ids vs "st_hdr s" stmt] by (simp add: no_ids_def)
  moreover have "set (map values_id (filter (\<lambda>v. match_predicate (st_hdr s) v stmt) vs))
      = {k. selects (st_hdr s) stmt (table_of s chain t) k}"
  proof (intro set_eqI iffI)
    fix k assume "k \<in> set (map values_id (filter (\<lambda>v. match_predicate (st_hdr s) v stmt) vs))"
    then obtain v where "v \<in> set vs" "match_predicate (st_hdr s) v stmt" "values_id v = k" by auto
    moreover from this have "table_of s chain t k = Some v" using lists_table_iff [OF vs(2)] by blast
    ultimately show "k \<in> {k. selects (st_hdr s) stmt (table_of s chain t) k}" by (simp add: selects_def)
  next
    fix k assume "k \<in> {k. selects (st_hdr s) stmt (table_of s chain t) k}"
    then obtain v where v: "table_of s chain t k = Some v" "match_predicate (st_hdr s) v stmt"
      by (auto simp: selects_def split: option.splits)
    then have "v \<in> set vs" "values_id v = k" using lists_table_iff [OF vs(2)] by blast+
    with v(2) show "k \<in> set (map values_id (filter (\<lambda>v. match_predicate (st_hdr s) v stmt) vs))" by force
  qed
  ultimately show ?thesis
    using scan_with_visits [OF db_okD(2) [OF ok] vs(1), of "collect_id_cb fits (st_hdr s) stmt" no_ids]
    by (auto simp: collecting_def)
qed

lemma fetch_matching:
  assumes ok: "db_ok s fl chain h t"
  shows "\<not> selects (st_hdr s) stmt (table_of s chain t) k \<Longrightarrow> fetch_matching_row_by_id s k stmt = Some None"
    and "selects (st_hdr s) stmt (table_of s chain t) k \<Longrightarrow> \<exists>ref vs. fetch_matching_row_by_id s k stmt = Some (Some (ref, vs))
      \<and> index_map t k = Some ref \<and> table_of s chain t k = Some vs"
proof -
  note S = bptree_search_correct [OF db_okD(3) [OF ok]]
  have none: "fetch_matching_row_by_id s k stmt = Some None \<and> \<not> selects (st_hdr s) stmt (table_of s chain t) k"
    if "index_map t k = None"
    using that table_of_index(1) [OF ok, of k] by (simp add: fetch_matching_row_by_id_def S selects_def)
  have some: "\<exists>vs. table_of s chain t k = Some vs \<and> fetch_matching_row_by_id s k stmt
      = Some (if match_predicate (st_hdr s) vs stmt then Some (ref, vs) else None)" if "index_map t k = Some ref" for ref
    using that table_row [OF ok that] by (auto simp: fetch_matching_row_by_id_def S)
  show "\<not> selects (st_hdr s) stmt (table_of s chain t) k \<Longrightarrow> fetch_matching_row_by_id s k stmt = Some None"
    using none some by (cases "index_map t k") (fastforce simp: selects_def)+
  show "selects (st_hdr s) stmt (table_of s chain t) k \<Longrightarrow> \<exists>ref vs. fetch_matching_row_by_id s k stmt = Some (Some (ref, vs))
      \<and> index_map t k = Some ref \<and> table_of s chain t k = Some vs"
    using none some by (cases "index_map t k") (fastforce simp: selects_def)+
qed

section \<open>DELETE\<close>

lemma match_predicate_schema: "same_schema h h' \<Longrightarrow> match_predicate h' v stmt = match_predicate h v stmt"
proof -
  assume "same_schema h h'"
  then have "row_columns h' v = row_columns h v" by (simp add: row_columns_def same_schema_def)
  then show ?thesis by (simp only: match_predicate_def)
qed

lemma selects_schema: "same_schema h h' \<Longrightarrow> selects h' stmt tab k = selects h stmt tab k"
  by (simp add: selects_def match_predicate_schema split: option.splits)

definition without :: "(u64 \<Rightarrow> bool) \<Rightarrow> (u64 \<Rightarrow> row_value list option) \<Rightarrow> u64 \<Rightarrow> row_value list option" where
  "without P tab = (\<lambda>k. if P k then None else tab k)"

lemma delete_ids_correct:
  assumes "db_ok s fl chain h t" "distinct ids"
  shows "\<exists>s' fl' h' t'. delete_ids s stmt ids c
      = Some (c + word_of_nat (length (filter (selects (st_hdr s) stmt (table_of s chain t)) ids)), s')
    \<and> db_ok s' fl' chain h' t' \<and> same_counter (st_hdr s) (st_hdr s')
    \<and> table_of s' chain t' = without (\<lambda>k. k \<in> set ids \<and> selects (st_hdr s) stmt (table_of s chain t) k) (table_of s chain t)"
  using assms
proof (induction ids arbitrary: s fl h t c)
  case Nil
  then show ?case by (auto simp: without_def)
next
  case (Cons i ids)
  let ?tab = "table_of s chain t" and ?sel = "selects (st_hdr s) stmt (table_of s chain t)"
  note F = fetch_matching [OF Cons.prems(1), of stmt i]
  have i: "i \<notin> set ids" "distinct ids" using Cons.prems(2) by simp_all
  show ?case
  proof (cases "?sel i")
    case False
    then have "delete_ids s stmt (i # ids) c = delete_ids s stmt ids c" using F(1) by simp
    moreover have "(k \<in> set (i # ids) \<and> ?sel k) = (k \<in> set ids \<and> ?sel k)" for k using False by auto
    moreover have "filter ?sel (i # ids) = filter ?sel ids" using False by simp
    ultimately show ?thesis using Cons.IH [OF Cons.prems(1) i(2), of c] by (simp only:)
  next
    case True
    from F(2) [OF this] obtain ref vs where r: "fetch_matching_row_by_id s i stmt = Some (Some (ref, vs))"
      "index_map t i = Some ref" by blast
    from remove_row_correct [OF Cons.prems(1) r(2)] obtain s1 s2 fl' h' t' where R: "heap_delete s ref = (True, s1)"
      "bptree_delete s1 i = Some (0, s2)" "db_ok (count_down s2) fl' chain h' t'"
      "table_of (count_down s2) chain t' = ?tab(i := None)" "same_counter (st_hdr s) (st_hdr (count_down s2))" by blast
    have sel: "selects (st_hdr (count_down s2)) stmt (table_of (count_down s2) chain t') = (\<lambda>k. k \<noteq> i \<and> ?sel k)"
      using R(5) selects_schema [of "st_hdr s" "st_hdr (count_down s2)"] by (auto simp: same_counter_def R(4) selects_def fun_eq_iff)
    from Cons.IH [OF R(3) i(2), of "c + 1"] obtain s' fl'' h'' t'' where I:
      "delete_ids (count_down s2) stmt ids (c + 1)
        = Some (c + 1 + word_of_nat (length (filter (\<lambda>k. k \<noteq> i \<and> ?sel k) ids)), s')"
      "db_ok s' fl'' chain h'' t''" "same_counter (st_hdr (count_down s2)) (st_hdr s')"
      "table_of s' chain t'' = without (\<lambda>k. k \<in> set ids \<and> k \<noteq> i \<and> ?sel k) (?tab(i := None))"
      unfolding sel unfolding R(4) by blast
    have "filter (\<lambda>k. k \<noteq> i \<and> ?sel k) ids = filter ?sel ids" using i(1) by (intro filter_cong) auto
    then have "delete_ids s stmt (i # ids) c = Some (c + word_of_nat (length (filter ?sel (i # ids))), s')"
      using r(1) R(1,2) I(1) True by (simp add: add.assoc)
    moreover have "table_of s' chain t'' = without (\<lambda>k. k \<in> set (i # ids) \<and> ?sel k) ?tab"
      unfolding I(4) using i(1) True by (auto simp: without_def fun_eq_iff)
    ultimately show ?thesis using I(2) same_counter_trans [OF R(5) I(3)] by blast
  qed
qed

lemma filter_all_length: "\<forall>x \<in> set xs. P x \<Longrightarrow> distinct xs \<Longrightarrow> length (filter P xs) = card (set xs)"
  by (simp add: distinct_card filter_id_conv)

lemma finite_selects: "db_ok s fl chain h t \<Longrightarrow> finite {k. selects hdr stmt (table_of s chain t) k}"
proof -
  assume ok: "db_ok s fl chain h t"
  have "{k. selects hdr stmt (table_of s chain t) k} \<subseteq> dom (index_map t)"
    using table_of_index(1) [OF ok] by (auto simp: selects_def domIff split: option.splits)
  then show ?thesis by (rule finite_subset) (rule finite_index_map)
qed

text \<open>What the locking of the collected ids leaves to the sweep.\<close>

lemma lock_sweep_ids:
  assumes ok: "db_ok s fl chain h t" and ids: "set ids0 = {k. selects (st_hdr s) stmt (table_of s chain t) k}"
    and l: "lock_collected_ids acquire l ids0 mode = (None, ids, l')"
  shows "distinct ids" "set ids = {k. selects (st_hdr s) stmt (table_of s chain t) k}"
    "length (filter (selects (st_hdr s) stmt (table_of s chain t)) ids) = card {k. selects (st_hdr s) stmt (table_of s chain t) k}"
proof -
  have e: "ids = sorted_list_of_set (set ids0)" by (rule lock_collected_ids_order [OF l])
  then show d: "distinct ids" by simp
  show s: "set ids = {k. selects (st_hdr s) stmt (table_of s chain t) k}" using e ids by simp
  show "length (filter (selects (st_hdr s) stmt (table_of s chain t)) ids) = card {k. selects (st_hdr s) stmt (table_of s chain t) k}"
    using filter_all_length [OF _ d, of "selects (st_hdr s) stmt (table_of s chain t)"] s by simp
qed

theorem exec_delete_scan_correct:
  fixes stmt :: statement
  assumes ok: "db_ok s fl chain h t" and f: "\<forall>n. fits n" and small: "hd_next_id (st_hdr s) < 2 ^ 30"
  defines "sel \<equiv> selects (st_hdr s) stmt (table_of s chain t)"
  shows "(\<exists>k l'. exec_delete_scan fits acquire s l stmt = Some (failed_with (Row_lock_timeout k), s, l'))
    \<or> (\<exists>s' l' fl' h' t'. exec_delete_scan fits acquire s l stmt
          = Some (done_with (Rows_deleted (word_of_nat (card {k. sel k}))), s', l')
        \<and> db_ok s' fl' chain h' t' \<and> same_counter (st_hdr s) (st_hdr s')
        \<and> table_of s' chain t' = without sel (table_of s chain t))"
proof -
  from scan_collects [OF ok f small, of stmt] obtain dc where dc:
    "scan_with s (collect_id_cb fits (st_hdr s) stmt) no_ids = Some dc" "\<not> ic_overrun dc" "\<not> ic_alloc_failed dc"
    "set (ic_ids dc) = {k. selects (st_hdr s) stmt (table_of s chain t) k}" by blast
  obtain failed ids l1 where l: "lock_collected_ids acquire l (ic_ids dc) LOCK_X = (failed, ids, l1)"
    by (cases "lock_collected_ids acquire l (ic_ids dc) LOCK_X")
  show ?thesis
  proof (cases failed)
    case (Some k)
    then have "exec_delete_scan fits acquire s l stmt = Some (failed_with (Row_lock_timeout k), s, l1)"
      using dc l by (simp add: exec_delete_scan_def)
    then show ?thesis by blast
  next
    case None
    note L = lock_sweep_ids [OF ok dc(4) l [unfolded None]]
    from delete_ids_correct [OF ok L(1), of stmt 0] obtain s' fl' h' t' where D:
      "delete_ids s stmt ids 0 = Some (word_of_nat (card {k. sel k}), s')" "db_ok s' fl' chain h' t'"
      "same_counter (st_hdr s) (st_hdr s')" "table_of s' chain t' = without (\<lambda>k. k \<in> set ids \<and> sel k) (table_of s chain t)"
      unfolding L(3) sel_def by auto
    have "(\<lambda>k. k \<in> set ids \<and> sel k) = sel" using L(2) by (auto simp: sel_def)
    then show ?thesis using D dc l None by (simp add: exec_delete_scan_def) blast
  qed
qed

section \<open>UPDATE\<close>

definition changed :: "(row_value list \<Rightarrow> row_value list) \<Rightarrow> (u64 \<Rightarrow> bool) \<Rightarrow> (u64 \<Rightarrow> row_value list option) \<Rightarrow> u64 \<Rightarrow> row_value list option" where
  "changed g P tab = (\<lambda>k. if P k then map_option g (tab k) else tab k)"

lemma update_ids_correct:
  assumes f: "\<forall>n. fits n" and "db_ok s fl chain h t" "distinct ids" "validate_update_target (st_hdr s) stmt = Inr i"
  shows "\<exists>s'. update_ids fits s stmt i ids c
      = Some (c + word_of_nat (length (filter (selects (st_hdr s) stmt (table_of s chain t)) ids)), s')
    \<and> db_ok s' fl chain h t \<and> st_hdr s' = st_hdr s
    \<and> table_of s' chain t = changed (update_row (st_hdr s) stmt i)
        (\<lambda>k. k \<in> set ids \<and> selects (st_hdr s) stmt (table_of s chain t) k) (table_of s chain t)"
  using assms(2-)
proof (induction ids arbitrary: s c)
  case Nil
  then show ?case by (simp add: changed_def)
next
  case (Cons k ids)
  let ?tab = "table_of s chain t" and ?sel = "selects (st_hdr s) stmt (table_of s chain t)" and ?g = "update_row (st_hdr s) stmt i"
  note F = fetch_matching [OF Cons.prems(1), of stmt k]
  have k: "k \<notin> set ids" "distinct ids" using Cons.prems(2) by simp_all
  show ?case
  proof (cases "?sel k")
    case False
    then have "update_ids fits s stmt i (k # ids) c = update_ids fits s stmt i ids c" using F(1) by simp
    moreover have "(j \<in> set (k # ids) \<and> ?sel j) = (j \<in> set ids \<and> ?sel j)" for j using False by auto
    moreover have "filter ?sel (k # ids) = filter ?sel ids" using False by simp
    ultimately show ?thesis using Cons.IH [OF Cons.prems(1) k(2) Cons.prems(3), of c] by (simp only:)
  next
    case True
    from F(2) [OF this] obtain ref vs where r: "fetch_matching_row_by_id s k stmt = Some (Some (ref, vs))"
      "index_map t k = Some ref" "?tab k = Some vs" by blast
    from update_one [OF Cons.prems(1) f r(2,3) Cons.prems(3)] obtain s1 where U:
      "overwrite_row fits s ref (apply_update_to_row (st_hdr s) vs stmt i) = Some s1" "db_ok s1 fl chain h t"
      "table_of s1 chain t = ?tab(k \<mapsto> ?g vs)" "st_hdr s1 = st_hdr s" by blast
    have v1: "validate_update_target (st_hdr s1) stmt = Inr i" using Cons.prems(3) U(4) by simp
    have sel: "selects (st_hdr s1) stmt (table_of s1 chain t) = (\<lambda>j. if j = k then match_predicate (st_hdr s) (?g vs) stmt else ?sel j)"
      by (simp add: U(3,4) selects_def fun_eq_iff)
    have flt: "filter (\<lambda>j. if j = k then match_predicate (st_hdr s) (?g vs) stmt else ?sel j) ids = filter ?sel ids"
      using k(1) by (intro filter_cong) auto
    have ine: "(\<lambda>j. j \<in> set ids \<and> (if j = k then match_predicate (st_hdr s) (?g vs) stmt else ?sel j)) = (\<lambda>j. j \<in> set ids \<and> ?sel j)"
      using k(1) by auto
    from Cons.IH [OF U(2) k(2) v1, of "c + 1"] obtain s' where I:
      "update_ids fits s1 stmt i ids (c + 1) = Some (c + 1 + word_of_nat (length (filter ?sel ids)), s')"
      "db_ok s' fl chain h t" "st_hdr s' = st_hdr s1"
      "table_of s' chain t = changed ?g (\<lambda>j. j \<in> set ids \<and> ?sel j) (?tab(k \<mapsto> ?g vs))"
      unfolding sel flt ine unfolding U(3,4) by blast
    have "update_ids fits s stmt i (k # ids) c = Some (c + word_of_nat (length (filter ?sel (k # ids))), s')"
      using r(1) U(1) I(1) True by (simp add: add.assoc)
    moreover have "table_of s' chain t = changed ?g (\<lambda>j. j \<in> set (k # ids) \<and> ?sel j) ?tab"
      unfolding I(4) using k(1) True r(3) by (auto simp: changed_def fun_eq_iff)
    ultimately show ?thesis using I(2,3) U(4) by auto
  qed
qed

theorem exec_update_scan_correct:
  fixes stmt :: statement
  assumes ok: "db_ok s fl chain h t" and f: "\<forall>n. fits n" and small: "hd_next_id (st_hdr s) < 2 ^ 30"
    and i: "validate_update_target (st_hdr s) stmt = Inr i"
  defines "sel \<equiv> selects (st_hdr s) stmt (table_of s chain t)"
  shows "(\<exists>k l'. exec_update_scan fits acquire s l stmt = Some (failed_with (Row_lock_timeout k), s, l'))
    \<or> (\<exists>s' l'. exec_update_scan fits acquire s l stmt
          = Some (done_with (Rows_updated (word_of_nat (card {k. sel k}))), s', l')
        \<and> db_ok s' fl chain h t \<and> st_hdr s' = st_hdr s
        \<and> table_of s' chain t = changed (update_row (st_hdr s) stmt i) sel (table_of s chain t))"
proof -
  from scan_collects [OF ok f small, of stmt] obtain dc where dc:
    "scan_with s (collect_id_cb fits (st_hdr s) stmt) no_ids = Some dc" "\<not> ic_overrun dc" "\<not> ic_alloc_failed dc"
    "set (ic_ids dc) = {k. selects (st_hdr s) stmt (table_of s chain t) k}" by blast
  obtain failed ids l1 where l: "lock_collected_ids acquire l (ic_ids dc) LOCK_X = (failed, ids, l1)"
    by (cases "lock_collected_ids acquire l (ic_ids dc) LOCK_X")
  show ?thesis
  proof (cases failed)
    case (Some k)
    then have "exec_update_scan fits acquire s l stmt = Some (failed_with (Row_lock_timeout k), s, l1)"
      using dc l i by (simp add: exec_update_scan_def)
    then show ?thesis by blast
  next
    case None
    note L = lock_sweep_ids [OF ok dc(4) l [unfolded None]]
    from update_ids_correct [OF f ok L(1) i, of 0] obtain s' where D:
      "update_ids fits s stmt i ids 0 = Some (word_of_nat (card {k. sel k}), s')" "db_ok s' fl chain h t" "st_hdr s' = st_hdr s"
      "table_of s' chain t = changed (update_row (st_hdr s) stmt i) (\<lambda>k. k \<in> set ids \<and> sel k) (table_of s chain t)"
      unfolding L(3) sel_def by auto
    have "(\<lambda>k. k \<in> set ids \<and> sel k) = sel" using L(2) by (auto simp: sel_def)
    then show ?thesis using D dc l None i by (simp add: exec_update_scan_def)
  qed
qed

section \<open>The statements\<close>

lemma selects_id:
  assumes ok: "db_ok s fl chain h t" and p: "predicate_kind stmt = PREDICATE_ID_EQ"
  shows "selects (st_hdr s) stmt (table_of s chain t) k \<longleftrightarrow> k = pred_id stmt \<and> table_of s chain t k \<noteq> None"
proof (cases "table_of s chain t k")
  case (Some vs)
  then show ?thesis using table_row_values(3) [OF ok Some] p by (auto simp: selects_def match_predicate_def values_id_def intro: signed_word_eqI)
qed (simp add: selects_def)

theorem execute_delete_correct:
  fixes stmt :: statement
  assumes ok: "db_ok s fl chain h t" and f: "\<forall>n. fits n" and small: "hd_next_id (st_hdr s) < 2 ^ 30"
    and d: "stmt_type stmt = STMT_DELETE"
  defines "sel \<equiv> selects (st_hdr s) stmt (table_of s chain t)"
  shows "\<exists>r s' l' fl' h' t'. execute fits acquire s l stmt = Some (r, s', l') \<and> db_ok s' fl' chain h' t'
    \<and> same_counter (st_hdr s) (st_hdr s')
    \<and> (if res_status r = 0 then table_of s' chain t' = without sel (table_of s chain t)
       else s' = s \<and> (\<exists>k. res_message r = Row_lock_timeout k))"
proof (cases "predicate_kind stmt = PREDICATE_ID_EQ")
  case True
  then have plan: "planner_create_plan stmt = ACCESS_PATH_INDEX_DELETE" using d by (simp add: planner_create_plan.simps)
  from exec_index_delete_correct [OF ok, of stmt] obtain r s' fl' h' t' where E: "exec_index_delete s stmt = Some (done_with r, s')"
    "db_ok s' fl' chain h' t'" "table_of s' chain t' = (table_of s chain t)(pred_id stmt := None)" "same_counter (st_hdr s) (st_hdr s')" by blast
  have "without sel (table_of s chain t) = (table_of s chain t)(pred_id stmt := None)"
    using selects_id [OF ok True] by (auto simp: without_def sel_def fun_eq_iff)
  then show ?thesis using E d plan by (auto simp: execute_def done_with_def)
next
  case False
  then have plan: "planner_create_plan stmt = ACCESS_PATH_TABLE_SCAN" using d by (simp add: planner_create_plan.simps)
  have ex: "execute fits acquire s l stmt = exec_delete_scan fits acquire s l stmt" using d plan by (simp add: execute_def)
  from exec_delete_scan_correct [OF ok f small, where stmt = stmt and acquire = acquire and l = l, folded sel_def] show ?thesis
    unfolding ex using ok by (elim disjE exE conjE) (auto simp: failed_with_def done_with_def)
qed

theorem execute_update_correct:
  fixes stmt :: statement
  assumes ok: "db_ok s fl chain h t" and f: "\<forall>n. fits n" and small: "hd_next_id (st_hdr s) < 2 ^ 30"
    and u: "stmt_type stmt = STMT_UPDATE"
  defines "sel \<equiv> selects (st_hdr s) stmt (table_of s chain t)"
  shows "\<exists>r s' l'. execute fits acquire s l stmt = Some (r, s', l') \<and> db_ok s' fl chain h t \<and> st_hdr s' = st_hdr s
    \<and> (if res_status r = 0
       then \<exists>i. validate_update_target (st_hdr s) stmt = Inr i
         \<and> table_of s' chain t = changed (update_row (st_hdr s) stmt i) sel (table_of s chain t)
       else s' = s \<and> ((\<exists>k. res_message r = Row_lock_timeout k)
         \<or> validate_update_target (st_hdr s) stmt = Inl r))"
proof (cases "validate_update_target (st_hdr s) stmt")
  case (Inl err)
  then have "res_status err \<noteq> 0" by (auto simp: validate_update_target_def failed_with_def split: option.splits if_splits)
  moreover have "exec_index_update fits s stmt = Some (err, s)" "exec_update_scan fits acquire s l stmt = Some (err, s, l)"
    using Inl by (simp_all add: exec_index_update_def exec_update_scan_def)
  ultimately show ?thesis using ok u Inl by (auto simp: execute_def planner_create_plan.simps)
next
  case (Inr i)
  show ?thesis
  proof (cases "predicate_kind stmt = PREDICATE_ID_EQ")
    case True
    then have plan: "planner_create_plan stmt = ACCESS_PATH_INDEX_UPDATE" using u by (simp add: planner_create_plan.simps)
    from exec_index_update_correct [OF ok f Inr] obtain r s' where E: "exec_index_update fits s stmt = Some (done_with r, s')"
      "db_ok s' fl chain h t" "st_hdr s' = st_hdr s" "table_of s' chain t = (table_of s chain t)
         (pred_id stmt := map_option (update_row (st_hdr s) stmt i) (table_of s chain t (pred_id stmt)))" by blast
    have "changed (update_row (st_hdr s) stmt i) sel (table_of s chain t) = (table_of s chain t)
         (pred_id stmt := map_option (update_row (st_hdr s) stmt i) (table_of s chain t (pred_id stmt)))"
      using selects_id [OF ok True] by (auto simp: changed_def sel_def fun_eq_iff)
    then show ?thesis using E u plan Inr by (auto simp: execute_def done_with_def)
  next
    case False
    then have plan: "planner_create_plan stmt = ACCESS_PATH_TABLE_SCAN" using u by (simp add: planner_create_plan.simps)
    have ex: "execute fits acquire s l stmt = exec_update_scan fits acquire s l stmt" using u plan by (simp add: execute_def)
    from exec_update_scan_correct [OF ok f small Inr, where acquire = acquire and l = l, folded sel_def] show ?thesis
      unfolding ex using ok Inr by (elim disjE exE conjE) (auto simp: failed_with_def done_with_def)
  qed
qed

end
