(* ===== verification/Table_Run.thy ===== *)
theory Table_Run
  imports Table_Sweep Db_Execute Parser_Correct
begin

text \<open>
  The database against its specification. A table is the next id and a map from ids to rows;
  \<open>table_spec\<close> says what a statement that succeeds or fails does to it. Every statement on a
  table, from its text through parser, locks, planner and executor down to the pages, and so every
  sequence of statements, does to the stored table what the specification does to the map.
\<close>

section \<open>The specification\<close>

type_synonym abs_table = "u64 \<times> (u64 \<Rightarrow> row_value list option)"

definition table_spec :: "db_header \<Rightarrow> statement \<Rightarrow> bool \<Rightarrow> abs_table \<Rightarrow> abs_table" where
  "table_spec hdr stmt success = (\<lambda>(next_id, tab).
     case stmt_type stmt of
       STMT_INSERT \<Rightarrow> (next_id + 1, if success then tab(next_id \<mapsto> stored_row hdr next_id (insert_values stmt)) else tab)
     | STMT_DELETE \<Rightarrow> (next_id, if success then without (selects hdr stmt tab) tab else tab)
     | STMT_UPDATE \<Rightarrow> (next_id, case validate_update_target hdr stmt of
           Inr i \<Rightarrow> if success then changed (update_row hdr stmt i) (selects hdr stmt tab) tab else tab
         | Inl _ \<Rightarrow> tab)
     | _ \<Rightarrow> (next_id, tab))"

definition text_spec :: "db_header \<Rightarrow> string \<Rightarrow> bool \<Rightarrow> abs_table \<Rightarrow> abs_table" where
  "text_spec hdr sql success = (case parse sql of Inl _ \<Rightarrow> (\<lambda>tab. tab) | Inr stmt \<Rightarrow> table_spec hdr stmt success)"

text \<open>The table a database stands for, with its counter.\<close>

definition abs_of :: "store \<Rightarrow> page_id list \<Rightarrow> bt \<Rightarrow> abs_table" where
  "abs_of s chain t = (hd_next_id (st_hdr s), table_of s chain t)"

lemma schema_spec_cong:
  assumes "same_schema h h'"
  shows "table_spec h' = table_spec h" "text_spec h' = text_spec h"
proof -
  have c: "hd_columns h' = hd_columns h" "hd_column_count h' = hd_column_count h" using assms by (simp_all add: same_schema_def)
  have st: "stored_row h' = stored_row h"
    using c by (simp add: stored_row_def insert_row_values_def fun_eq_iff)
  have sel: "selects h' = selects h" by (simp add: selects_schema [OF assms] fun_eq_iff)
  have val: "validate_update_target h' stmt = validate_update_target h stmt" for stmt
    unfolding validate_update_target_def find_column_index_def c by (rule refl)
  have upd: "update_row h' = update_row h" using c by (simp add: update_row_def fun_eq_iff)
  show e: "table_spec h' = table_spec h" by (intro ext) (simp only: table_spec_def st sel val upd)
  show "text_spec h' = text_spec h" by (intro ext) (simp only: text_spec_def e)
qed

lemma same_schema_refl [simp]: "same_schema h h" by (simp add: same_schema_def)
lemma same_schema_trans: "same_schema h h' \<Longrightarrow> same_schema h' h'' \<Longrightarrow> same_schema h h''" by (simp add: same_schema_def)

text \<open>What a statement leaves behind: a well formed database with the table the specification gives.\<close>

definition reaches :: "store \<Rightarrow> page_id list \<Rightarrow> bt \<Rightarrow> nat \<Rightarrow> (abs_table \<Rightarrow> abs_table) \<Rightarrow> store \<Rightarrow> bool" where
  "reaches s chain t n f s' \<longleftrightarrow> (\<exists>fl' chain' h' t'. db_ok s' fl' chain' h' t' \<and> abs_of s' chain' t' = f (abs_of s chain t)
     \<and> same_schema (st_hdr s) (st_hdr s') \<and> room s' n \<and> hd_next_id (st_hdr s') \<le> hd_next_id (st_hdr s) + 1)"

lemma reachesI:
  "db_ok s' fl' chain' h' t' \<Longrightarrow> abs_of s' chain' t' = f (abs_of s chain t) \<Longrightarrow> same_schema (st_hdr s) (st_hdr s')
   \<Longrightarrow> room s' n \<Longrightarrow> hd_next_id (st_hdr s') \<le> hd_next_id (st_hdr s) + 1 \<Longrightarrow> reaches s chain t n f s'"
  unfolding reaches_def by blast

lemma reaches_same:
  "db_ok s fl chain h t \<Longrightarrow> room s n \<Longrightarrow> f (abs_of s chain t) = abs_of s chain t
   \<Longrightarrow> hd_next_id (st_hdr s) + 1 \<noteq> 0 \<Longrightarrow> reaches s chain t n f s"
  unfolding reaches_def using u64_less_Suc [of "hd_next_id (st_hdr s)"] by (metis order.strict_implies_order same_schema_refl)

section \<open>INSERT without its lock\<close>

lemma db_ok_bump:
  assumes ok: "db_ok s fl chain h t" and k: "hd_next_id (st_hdr s) + 1 \<noteq> 0"
  shows "db_ok (set_hdr s ((st_hdr s)\<lparr>hd_next_id := hd_next_id (st_hdr s) + 1\<rparr>)) fl chain h t"
    and "table_of (set_hdr s ((st_hdr s)\<lparr>hd_next_id := hd_next_id (st_hdr s) + 1\<rparr>)) chain t = table_of s chain t"
proof -
  let ?h = "(st_hdr s)\<lparr>hd_next_id := hd_next_id (st_hdr s) + 1\<rparr>"
  note D = db_okD [OF ok]
  have l: "same_links (st_hdr s) ?h" by (simp add: same_links_def)
  have sc: "same_schema (st_hdr s) ?h" by (simp add: same_schema_def)
  note K = set_hdr_keeps [OF l] and Q = same_schema_keeps [OF sc]
  have ts: "table_schema (set_hdr s ?h)" by (rule table_schema_keep [OF D(5)]) (simp_all add: same_schema_def)
  have rl: "row_len (set_hdr s ?h) = row_len s" by simp
  have lt: "k' < hd_next_id (st_hdr s) + 1" if "index_map t k' \<noteq> None" for k'
    using D(8) [OF that] u64_less_Suc [OF k] by (rule less_trans)
  show "db_ok (set_hdr s ?h) fl chain h t"
    unfolding db_ok_def K rl
  proof (intro conjI allI impI)
    show "store_ok s fl" "heap_ok s fl (row_len s) chain" "index_tree s fl h t" "set chain \<inter> set (pids t) = {}"
      "table_schema (set_hdr s ?h)" by (fact D(1) D(2) D(3) D(4) ts)+
    show "hd_row_count (st_hdr (set_hdr s ?h)) = word_of_nat (card (dom (index_map t)))" using D(9) by simp
  next
    fix ref row assume "heap_rows s (row_len s) chain ref = Some row"
    from D(6) [OF this] show "\<exists>k. row_id (st_hdr (set_hdr s ?h)) row = Some k \<and> index_map t k = Some ref"
      by (simp only: set_hdr_simps Q(4))
  next
    fix k ref assume "index_map t k = Some ref"
    from D(7) [OF this] show "\<exists>row. heap_rows s (row_len s) chain ref = Some row \<and> row_id (st_hdr (set_hdr s ?h)) row = Some k"
      by (simp only: set_hdr_simps Q(4))
  next
    fix k' assume "index_map t k' \<noteq> None"
    from lt [OF this] show "k' < hd_next_id (st_hdr (set_hdr s ?h))" by simp
  next
    fix ref row vs assume "heap_rows s (row_len s) chain ref = Some row \<and> row_deserialize (st_hdr (set_hdr s ?h)) row = Some vs"
    then show "canonical_row (st_hdr (set_hdr s ?h)) vs" using D(10) [of ref row vs] by (simp only: set_hdr_simps Q(2,5))
  qed
  show "table_of (set_hdr s ?h) chain t = table_of s chain t"
    unfolding table_of_def K rl unfolding set_hdr_simps Q by (rule refl)
qed

lemma exec_insert_reaches:
  assumes ok: "db_ok s fl chain h t" and f: "\<forall>n. fits n" and rm: "room s (n + 35)" and k: "hd_next_id (st_hdr s) + 1 \<noteq> 0"
    and ty: "stmt_type stmt = STMT_INSERT"
  shows "\<exists>r s' l'. exec_insert fits acquire s l stmt = Some (r, s', l')
    \<and> reaches s chain t n (table_spec (st_hdr s) stmt (res_status r = 0)) s'"
proof -
  let ?k = "hd_next_id (st_hdr s)"
  obtain rc l' where a: "acquire l ?k LOCK_X = (rc, l')" by (cases "acquire l ?k LOCK_X")
  show ?thesis
  proof (cases "rc = 0")
    case True
    from exec_insert_correct [OF ok f rm refl k, of acquire l l' stmt] a True obtain s' fl' chain' h' t' where
      e: "exec_insert fits acquire s l stmt = Some (done_with (Row_inserted ?k), s', l')" "db_ok s' fl' chain' h' t'"
        "table_of s' chain' t' = (table_of s chain t)(?k \<mapsto> stored_row (st_hdr s) ?k (insert_values stmt))" "room s' n"
        "st_hdr s' = (st_hdr s)\<lparr>hd_next_id := ?k + 1, hd_row_count := hd_row_count (st_hdr s) + 1,
         hd_free_page_head := hd_free_page_head (st_hdr s'), hd_next_page_id := hd_next_page_id (st_hdr s'),
         hd_root_index_page_id := hd_root_index_page_id (st_hdr s')\<rparr>" by blast
    have h: "hd_next_id (st_hdr s') = ?k + 1" "same_schema (st_hdr s) (st_hdr s')"
      using arg_cong [OF e(5), of hd_next_id] arg_cong [OF e(5), of hd_columns] arg_cong [OF e(5), of hd_column_count]
        arg_cong [OF e(5), of hd_row_size] by (simp_all add: same_schema_def)
    have "abs_of s' chain' t' = table_spec (st_hdr s) stmt True (abs_of s chain t)"
      using ty by (simp add: abs_of_def table_spec_def h(1) e(3))
    then have "reaches s chain t n (table_spec (st_hdr s) stmt True) s'"
      unfolding reaches_def using e(2,4) h by auto
    then show ?thesis using e(1) by (simp add: done_with_def)
  next
    case False
    let ?s = "set_hdr s ((st_hdr s)\<lparr>hd_next_id := ?k + 1\<rparr>)"
    note B = db_ok_bump [OF ok k]
    have "exec_insert fits acquire s l stmt = Some (failed_with (Insert_lock_timeout ?k), ?s, l')"
      using a False db_okD(5) [OF ok] by (auto simp: exec_insert_def table_schema_def Let_def)
    moreover have "abs_of ?s chain t = table_spec (st_hdr s) stmt False (abs_of s chain t)"
      using ty by (simp add: abs_of_def table_spec_def B(2))
    then have "reaches s chain t n (table_spec (st_hdr s) stmt False) ?s"
      unfolding reaches_def using B(1) rm by (auto simp: same_schema_def room_def)
    ultimately show ?thesis by (auto simp: failed_with_def)
  qed
qed

section \<open>One statement\<close>

lemma query_keeps_store:
  assumes "execute fits acquire s l stmt = Some (r, s', l')" "stmt_type stmt = STMT_SELECT \<or> stmt_type stmt = STMT_EXPLAIN"
  shows "s' = s"
  using assms by (auto simp: execute_def planner_create_plan.simps [of stmt] split: if_splits)

lemma table_spec_query:
  "stmt_type stmt = STMT_SELECT \<or> stmt_type stmt = STMT_EXPLAIN \<Longrightarrow> table_spec hdr stmt b tab = tab"
  by (cases tab) (auto simp: table_spec_def)

lemma table_spec_failed: "stmt_type stmt \<noteq> STMT_INSERT \<Longrightarrow> table_spec hdr stmt False tab = tab"
  by (cases tab) (auto simp: table_spec_def split: statement_type.splits sum.splits)

theorem execute_reaches:
  assumes ok: "db_ok s fl chain h t" and f: "\<forall>n. fits n" and rm: "room s (n + 35)" and small: "hd_next_id (st_hdr s) < 2 ^ 30"
    and ty: "\<not> is_ddl (stmt_type stmt)"
  shows "execute fits acquire s l stmt = Some (r, s', l') \<Longrightarrow> reaches s chain t n (table_spec (st_hdr s) stmt (res_status r = 0)) s'"
    and "stmt_type stmt \<in> {STMT_INSERT, STMT_DELETE, STMT_UPDATE} \<Longrightarrow> execute fits acquire s l stmt \<noteq> None"
proof -
  have "hd_next_id (st_hdr s) \<noteq> - 1" using small by auto
  then have k: "hd_next_id (st_hdr s) + 1 \<noteq> 0" by (simp add: eq_neg_iff_add_eq_0)
  have rn: "room s n" using rm by (simp add: room_def)
  have le: "hd_next_id (st_hdr s) \<le> hd_next_id (st_hdr s) + 1" using u64_less_Suc [OF k] by simp
  consider (ins) "stmt_type stmt = STMT_INSERT" | (del) "stmt_type stmt = STMT_DELETE" | (upd) "stmt_type stmt = STMT_UPDATE"
    | (query) "stmt_type stmt = STMT_SELECT \<or> stmt_type stmt = STMT_EXPLAIN"
    using ty by (cases "stmt_type stmt") (auto simp: is_ddl_def)
  then have "(execute fits acquire s l stmt = Some (r, s', l') \<longrightarrow> reaches s chain t n (table_spec (st_hdr s) stmt (res_status r = 0)) s')
    \<and> (stmt_type stmt \<in> {STMT_INSERT, STMT_DELETE, STMT_UPDATE} \<longrightarrow> execute fits acquire s l stmt \<noteq> None)"
  proof cases
    case ins
    then have "execute fits acquire s l stmt = exec_insert fits acquire s l stmt"
      by (simp add: execute_def planner_create_plan.simps)
    then show ?thesis using exec_insert_reaches [OF ok f rm k ins, of acquire l] by auto
  next
    case del
    from execute_delete_correct [OF ok f small del, of acquire l] obtain r0 s0 l0 fl' h' t' where
      e: "execute fits acquire s l stmt = Some (r0, s0, l0)" "db_ok s0 fl' chain h' t'" "same_counter (st_hdr s) (st_hdr s0)"
        "if res_status r0 = 0 then table_of s0 chain t' = without (selects (st_hdr s) stmt (table_of s chain t)) (table_of s chain t)
         else s0 = s \<and> (\<exists>k. res_message r0 = Row_lock_timeout k)" by blast
    have "reaches s chain t n (table_spec (st_hdr s) stmt (res_status r0 = 0)) s0"
    proof (cases "res_status r0 = 0")
      case True
      then have "abs_of s0 chain t' = table_spec (st_hdr s) stmt True (abs_of s chain t)"
        using del e(3,4) by (simp add: abs_of_def table_spec_def same_counter_def)
      then show ?thesis using True e(3) same_counter_room [OF e(3) rn] le
        by (intro reachesI [where t' = t', OF e(2)]) (simp_all add: same_counter_def)
    next
      case False
      then have "s0 = s" using e(4) by simp
      then show ?thesis using reaches_same [OF ok rn _ k] table_spec_failed [of stmt] del False by simp
    qed
    then show ?thesis using e(1) by auto
  next
    case upd
    from execute_update_correct [OF ok f small upd, of acquire l] obtain r0 s0 l0 where
      e: "execute fits acquire s l stmt = Some (r0, s0, l0)" "db_ok s0 fl chain h t" "st_hdr s0 = st_hdr s"
        "if res_status r0 = 0 then \<exists>i. validate_update_target (st_hdr s) stmt = Inr i
           \<and> table_of s0 chain t = changed (update_row (st_hdr s) stmt i) (selects (st_hdr s) stmt (table_of s chain t)) (table_of s chain t)
         else s0 = s \<and> ((\<exists>k. res_message r0 = Row_lock_timeout k) \<or> validate_update_target (st_hdr s) stmt = Inl r0)" by blast
    have "reaches s chain t n (table_spec (st_hdr s) stmt (res_status r0 = 0)) s0"
    proof (cases "res_status r0 = 0")
      case True
      then have "abs_of s0 chain t = table_spec (st_hdr s) stmt True (abs_of s chain t)"
        using upd e(3,4) by (auto simp: abs_of_def table_spec_def)
      moreover have "room s0 n" using rn e(3) by (simp add: room_def)
      ultimately show ?thesis using True e(3) le by (intro reachesI [where t' = t, OF e(2)]) simp_all
    next
      case False
      then have "s0 = s" using e(4) by simp
      then show ?thesis using reaches_same [OF ok rn _ k] table_spec_failed [of stmt] upd False by simp
    qed
    then show ?thesis using e(1) by auto
  next
    case query
    have q: "s' = s" if "execute fits acquire s l stmt = Some (r, s', l')" by (rule query_keeps_store [OF that query])
    have "reaches s chain t n (table_spec (st_hdr s) stmt b) s" for b
      by (rule reaches_same [OF ok rn _ k]) (rule table_spec_query [OF query])
    then show ?thesis using q query by auto
  qed
  then show "execute fits acquire s l stmt = Some (r, s', l') \<Longrightarrow> reaches s chain t n (table_spec (st_hdr s) stmt (res_status r = 0)) s'"
    "stmt_type stmt \<in> {STMT_INSERT, STMT_DELETE, STMT_UPDATE} \<Longrightarrow> execute fits acquire s l stmt \<noteq> None" by blast+
qed

lemma insert_takes_no_lock: "stmt_type stmt = STMT_INSERT \<Longrightarrow> statement_lock lc l (determine_lock stmt) = (0, l)"
  by (simp add: determine_lock_def statement_mode_def statement_lock_def no_request_def)

theorem db_execute_reaches:
  assumes ok: "db_ok s fl chain h t" and f: "\<forall>n. fits n" and rm: "room s (n + 35)" and small: "hd_next_id (st_hdr s) < 2 ^ 30"
    and ty: "\<forall>stmt. parse sql = Inr stmt \<longrightarrow> \<not> is_ddl (stmt_type stmt)"
    and ex: "db_execute fits lc s l sql = Some (r, s', l')"
  shows "reaches s chain t n (text_spec (st_hdr s) sql (res_status r = 0)) s'"
proof -
  have "hd_next_id (st_hdr s) \<noteq> - 1" using small by auto
  then have k: "hd_next_id (st_hdr s) + 1 \<noteq> 0" by (simp add: eq_neg_iff_add_eq_0)
  have rn: "room s n" using rm by (simp add: room_def)
  show ?thesis
  proof (cases "parse sql")
    case (Inl e)
    then have "s' = s" using ex by (cases e) (auto simp: db_execute_def)
    then show ?thesis using reaches_same [OF ok rn _ k] Inl by (simp add: text_spec_def)
  next
    case (Inr stmt)
    have ddl: "\<not> is_ddl (stmt_type stmt)" using ty Inr by blast
    obtain rc l1 where lk: "statement_lock lc l (determine_lock stmt) = (rc, l1)" by (cases "statement_lock lc l (determine_lock stmt)")
    show ?thesis
    proof (cases "rc = 0")
      case True
      then obtain l2 where "execute fits (lc_acquire lc) s l1 stmt = Some (r, s', l2)"
        using ex Inr lk by (auto simp: db_execute_def Let_def)
      from execute_reaches(1) [OF ok f rm small ddl this] show ?thesis using Inr by (simp add: text_spec_def)
    next
      case False
      then have "s' = s" "res_status r \<noteq> 0" "stmt_type stmt \<noteq> STMT_INSERT"
        using ex Inr lk insert_takes_no_lock [of stmt lc l] by (auto simp: db_execute_def Let_def failed_with_def)
      then show ?thesis using reaches_same [OF ok rn _ k] table_spec_failed [of stmt] Inr by (simp add: text_spec_def)
    qed
  qed
qed

text \<open>DELETE and UPDATE from their text: all or nothing, and nothing only for a lock or the column.\<close>

theorem db_execute_delete:
  assumes ok: "db_ok s fl chain h t" and f: "\<forall>n. fits n" and small: "hd_next_id (st_hdr s) < 2 ^ 30"
    and p: "parse sql = Inr stmt" and d: "stmt_type stmt = STMT_DELETE"
  shows "\<exists>r s' l' fl' h' t'. db_execute fits lc s l sql = Some (r, s', l') \<and> db_ok s' fl' chain h' t'
    \<and> same_counter (st_hdr s) (st_hdr s')
    \<and> (if res_status r = 0 then table_of s' chain t' = without (selects (st_hdr s) stmt (table_of s chain t)) (table_of s chain t)
       else s' = s \<and> (\<exists>k. res_message r = Row_lock_timeout k \<or> res_message r = Point_lock_timeout k))"
proof -
  obtain rc l1 where lk: "statement_lock lc l (determine_lock stmt) = (rc, l1)" by (cases "statement_lock lc l (determine_lock stmt)")
  show ?thesis
  proof (cases "rc = 0")
    case True
    from execute_delete_correct [OF ok f small d, of "lc_acquire lc" l1] show ?thesis
      using True lk p by (elim exE conjE) (simp add: db_execute_def Let_def split: if_splits, blast+)
  next
    case False
    then have "db_execute fits lc s l sql = Some (failed_with (Point_lock_timeout (point_id (determine_lock stmt))), s, l1)"
      using lk p parse_no_range_lock [OF p] by (simp add: db_execute_def Let_def lock_timeout_message_def)
    then show ?thesis using ok by (auto simp: failed_with_def)
  qed
qed

theorem db_execute_update:
  assumes ok: "db_ok s fl chain h t" and f: "\<forall>n. fits n" and small: "hd_next_id (st_hdr s) < 2 ^ 30"
    and p: "parse sql = Inr stmt" and u: "stmt_type stmt = STMT_UPDATE"
  shows "\<exists>r s' l'. db_execute fits lc s l sql = Some (r, s', l') \<and> db_ok s' fl chain h t \<and> st_hdr s' = st_hdr s
    \<and> (if res_status r = 0
       then \<exists>i. validate_update_target (st_hdr s) stmt = Inr i
         \<and> table_of s' chain t = changed (update_row (st_hdr s) stmt i) (selects (st_hdr s) stmt (table_of s chain t)) (table_of s chain t)
       else s' = s \<and> ((\<exists>k. res_message r = Row_lock_timeout k \<or> res_message r = Point_lock_timeout k)
         \<or> validate_update_target (st_hdr s) stmt = Inl r))"
proof -
  obtain rc l1 where lk: "statement_lock lc l (determine_lock stmt) = (rc, l1)" by (cases "statement_lock lc l (determine_lock stmt)")
  show ?thesis
  proof (cases "rc = 0")
    case True
    from execute_update_correct [OF ok f small u, of "lc_acquire lc" l1] show ?thesis
      using True lk p by (elim exE conjE) (simp add: db_execute_def Let_def split: if_splits, blast+)
  next
    case False
    then have "db_execute fits lc s l sql = Some (failed_with (Point_lock_timeout (point_id (determine_lock stmt))), s, l1)"
      using lk p parse_no_range_lock [OF p] by (simp add: db_execute_def Let_def lock_timeout_message_def)
    then show ?thesis using ok by (auto simp: failed_with_def)
  qed
qed

section \<open>Sequences of statements\<close>

fun run_statements ::
  "(nat \<Rightarrow> bool) \<Rightarrow> 'l lock_calls \<Rightarrow> store \<Rightarrow> 'l \<Rightarrow> string list \<Rightarrow> (exec_result list \<times> store \<times> 'l) option" where
  "run_statements fits lc s l [] = Some ([], s, l)"
| "run_statements fits lc s l (sql # sqls) =
     (case db_execute fits lc s l sql of
        None \<Rightarrow> None
      | Some (r, s, l) \<Rightarrow> map_option (\<lambda>(rs, s, l). (r # rs, s, l)) (run_statements fits lc s l sqls))"

fun run_spec :: "db_header \<Rightarrow> string list \<Rightarrow> exec_result list \<Rightarrow> abs_table \<Rightarrow> abs_table" where
  "run_spec hdr (sql # sqls) (r # rs) tab = run_spec hdr sqls rs (text_spec hdr sql (res_status r = 0) tab)"
| "run_spec hdr _ _ tab = tab"

lemma run_spec_schema: "same_schema h h' \<Longrightarrow> run_spec h' sqls rs tab = run_spec h sqls rs tab"
  by (induction h sqls rs tab rule: run_spec.induct) (simp_all add: schema_spec_cong)

definition not_ddl :: "string \<Rightarrow> bool" where
  "not_ddl sql \<longleftrightarrow> (case parse sql of Inl _ \<Rightarrow> True | Inr stmt \<Rightarrow> \<not> is_ddl (stmt_type stmt))"

theorem run_statements_refine:
  assumes "db_ok s fl chain h t" "\<forall>n. fits n" "room s (n + 35 * length sqls)"
    and "unat (hd_next_id (st_hdr s)) + length sqls < 2 ^ 30" "\<forall>sql \<in> set sqls. not_ddl sql"
    and "run_statements fits lc s l sqls = Some (rs, s', l')"
  shows "\<exists>fl' chain' h' t'. db_ok s' fl' chain' h' t' \<and> length rs = length sqls \<and> room s' n
    \<and> abs_of s' chain' t' = run_spec (st_hdr s) sqls rs (abs_of s chain t)"
  using assms(1,3-)
proof (induction sqls arbitrary: s fl chain h t l rs)
  case Nil
  then show ?case by auto
next
  case (Cons sql sqls)
  from Cons.prems(5) obtain r s1 l1 rs1 where e: "db_execute fits lc s l sql = Some (r, s1, l1)"
    "run_statements fits lc s1 l1 sqls = Some (rs1, s', l')" "rs = r # rs1" by (auto split: option.splits)
  have rm: "room s ((n + 35 * length sqls) + 35)" using Cons.prems(2) by (simp add: algebra_simps)
  have small: "hd_next_id (st_hdr s) < 2 ^ 30" using Cons.prems(3) by (simp add: word_less_nat_alt)
  have nd: "\<forall>stmt. parse sql = Inr stmt \<longrightarrow> \<not> is_ddl (stmt_type stmt)" using Cons.prems(4) by (auto simp: not_ddl_def)
  from db_execute_reaches [OF Cons.prems(1) assms(2) rm small nd e(1)] obtain fl1 chain1 h1 t1 where R:
    "db_ok s1 fl1 chain1 h1 t1" "abs_of s1 chain1 t1 = text_spec (st_hdr s) sql (res_status r = 0) (abs_of s chain t)"
    "same_schema (st_hdr s) (st_hdr s1)" "room s1 (n + 35 * length sqls)" "hd_next_id (st_hdr s1) \<le> hd_next_id (st_hdr s) + 1"
    unfolding reaches_def by blast
  have "unat (hd_next_id (st_hdr s) + 1) = unat (hd_next_id (st_hdr s)) + 1"
    using Cons.prems(3) by (simp add: unat_word_ariths)
  then have "unat (hd_next_id (st_hdr s1)) + length sqls < 2 ^ 30" using R(5) Cons.prems(3) by (simp add: word_le_nat_alt)
  from Cons.IH [OF R(1,4) this _ e(2)] Cons.prems(4) obtain fl' chain' h' t' where I: "db_ok s' fl' chain' h' t'"
    "length rs1 = length sqls" "room s' n" "abs_of s' chain' t' = run_spec (st_hdr s1) sqls rs1 (abs_of s1 chain1 t1)" by auto
  have "abs_of s' chain' t' = run_spec (st_hdr s) (sql # sqls) rs (abs_of s chain t)"
    using I(4) R(2) by (simp add: e(3) run_spec_schema [OF R(3)])
  then show ?case using I(1-3) e(3) by auto
qed

section \<open>Types\<close>

definition value_typed :: "column_meta \<Rightarrow> row_value \<Rightarrow> bool" where
  "value_typed c v \<longleftrightarrow> value_ok v \<and> canonical c v = v
     \<and> (cm_type c = COL_TYPE_VARCHAR \<longrightarrow> length (str_val v) < unat (cm_size c))"

definition row_typed :: "db_header \<Rightarrow> row_value list \<Rightarrow> bool" where
  "row_typed hdr vs \<longleftrightarrow> length vs = unat (hd_column_count hdr) \<and> (\<forall>i < length vs. value_typed (hd_columns hdr ! i) (vs ! i))"

lemma table_row_typed:
  assumes ok: "db_ok s fl chain h t" and v: "table_of s chain t k = Some vs"
  shows "row_typed (st_hdr s) vs"
proof -
  note V = table_row_values [OF ok v]
  have "value_typed (hd_columns (st_hdr s) ! i) (vs ! i)" if i: "i < length vs" for i
  proof -
    let ?c = "hd_columns (st_hdr s) ! i"
    have sz: "col_sized ?c" using schema_ok_sized [OF _ refl, of "st_hdr s" i] i V(2) db_okD(5) [OF ok] by (simp add: table_schema_def)
    have vo: "value_ok (vs ! i)" using V(4) i by simp
    have can: "canonical ?c (vs ! i) = vs ! i" by (rule canonical_row_nth [OF V(1) i])
    have "length (str_val (vs ! i)) < unat (cm_size ?c)" if ty: "cm_type ?c = COL_TYPE_VARCHAR"
    proof -
      have "str_val (vs ! i) = take (unat (cm_size ?c) - 1) (str_val (vs ! i))"
        using canonical_varchar [OF ty sz vo] can by simp
      then have "length (str_val (vs ! i)) \<le> unat (cm_size ?c) - 1" by (metis length_take min.cobounded2)
      moreover have "0 < unat (cm_size ?c)" using sz ty by (auto simp: col_sized_def word_less_nat_alt)
      ultimately show ?thesis by linarith
    qed
    then show ?thesis using vo can by (simp add: value_typed_def)
  qed
  then show ?thesis using V(2) by (simp add: row_typed_def)
qed

end
