(* ===== verification/Table_Drop.thy ===== *)
theory Table_Drop
  imports Table_Create
begin

text \<open>
  DROP TABLE: every page that is not free already goes to the free list, two of them come back as an
  empty heap page and an empty leaf, and the header forgets the table. The result is a database
  without a table, on which CREATE TABLE works again; the file has not grown.
\<close>

section \<open>Freeing every page\<close>

definition freed :: "store \<Rightarrow> page_id list \<Rightarrow> store \<Rightarrow> page_id list \<Rightarrow> bool" where
  "freed s fl s' fl' \<longleftrightarrow> store_ok s' fl' \<and> set fl \<subseteq> set fl' \<and> (\<forall>q. q \<notin> set fl' \<longrightarrow> st_pages s' q = st_pages s q)
     \<and> st_hdr s' = (st_hdr s)\<lparr>hd_free_page_head := hd_free_page_head (st_hdr s')\<rparr>
     \<and> st_page_size s' = st_page_size s"

lemma freed_refl: "store_ok s fl \<Longrightarrow> freed s fl s fl"
  by (simp add: freed_def)

lemma freed_trans: "freed s fl s1 fl1 \<Longrightarrow> freed s1 fl1 s2 fl2 \<Longrightarrow> freed s fl s2 fl2"
proof -
  assume a: "freed s fl s1 fl1" "freed s1 fl1 s2 fl2"
  have h: "(h :: db_header) = (h0 :: db_header)\<lparr>hd_free_page_head := x\<rparr> \<Longrightarrow> h\<lparr>hd_free_page_head := y\<rparr> = h0\<lparr>hd_free_page_head := y\<rparr>" for h h0 x y
    by simp
  have "st_hdr s2 = (st_hdr s)\<lparr>hd_free_page_head := hd_free_page_head (st_hdr s2)\<rparr>"
    using a h by (metis freed_def)
  moreover have "st_pages s2 q = st_pages s q" if "q \<notin> set fl2" for q using a that unfolding freed_def by (metis subsetD)
  ultimately show ?thesis using a by (auto simp: freed_def)
qed

lemma page_type_free_hdr: "page_type b = fph_page_type (get_free_hdr b)"
  by (simp add: page_type_def get_free_hdr_def)

lemma free_page_type: "store_ok s fl \<Longrightarrow> p \<in> set fl \<Longrightarrow> page_type (st_pages s p) = PAGE_TYPE_FREE"
  using free_chain_marked by (fastforce simp: store_ok_def page_type_free_hdr)

lemma free_one:
  assumes ok: "store_ok s fl" and p: "p \<noteq> 0" "p < hd_next_page_id (st_hdr s)"
  shows "\<exists>fl'. freed s fl (free_unless_free s p) fl' \<and> (page_type (st_pages s p) \<noteq> PAGE_TYPE_FREE \<longrightarrow> p \<in> set fl')"
proof (cases "page_type (st_pages s p) = PAGE_TYPE_FREE")
  case True
  then show ?thesis using freed_refl [OF ok] by (auto simp: free_unless_free_def)
next
  case False
  then have u: "in_use s fl p" using p free_page_type [OF ok] by (auto simp: in_use_def)
  have "st_hdr (st_free s p) = (st_hdr s)\<lparr>hd_free_page_head := hd_free_page_head (st_hdr (st_free s p))\<rparr>"
    by (simp add: st_free_def Let_def)
  then have "freed s fl (st_free s p) (p # fl)"
    using st_free_ok(1) [OF ok u] by (auto simp: freed_def)
  then show ?thesis using False by (auto simp: free_unless_free_def)
qed

lemma free_pages:
  assumes "store_ok s fl" "\<forall>i \<in> set ns. word_of_nat i \<noteq> (0 :: page_id) \<and> word_of_nat i < hd_next_page_id (st_hdr s)"
  shows "\<exists>fl'. freed s fl (foldl (\<lambda>s i. free_unless_free s (word_of_nat i)) s ns) fl'
    \<and> (\<forall>i \<in> set ns. page_type (st_pages s (word_of_nat i)) \<noteq> PAGE_TYPE_FREE \<longrightarrow> word_of_nat i \<in> set fl')"
  using assms
proof (induction ns arbitrary: s fl)
  case Nil
  then show ?case using freed_refl by auto
next
  case (Cons n ns)
  let ?p = "word_of_nat n :: page_id" and ?s = "free_unless_free s (word_of_nat n)"
  from free_one [OF Cons.prems(1), of ?p] Cons.prems(2) obtain fl1 where f1: "freed s fl ?s fl1"
    "page_type (st_pages s ?p) \<noteq> PAGE_TYPE_FREE \<longrightarrow> ?p \<in> set fl1" by auto
  have "hd_next_page_id (st_hdr ?s) = hd_next_page_id (st_hdr s)" by (simp add: free_unless_free_def)
  then have "\<forall>i \<in> set ns. word_of_nat i \<noteq> (0 :: page_id) \<and> word_of_nat i < hd_next_page_id (st_hdr ?s)"
    using Cons.prems(2) by simp
  with Cons.IH [of ?s fl1] f1(1) obtain fl' where f2: "freed ?s fl1 (foldl (\<lambda>s i. free_unless_free s (word_of_nat i)) ?s ns) fl'"
    "\<forall>i \<in> set ns. page_type (st_pages ?s (word_of_nat i)) \<noteq> PAGE_TYPE_FREE \<longrightarrow> word_of_nat i \<in> set fl'"
    unfolding freed_def by blast
  have sub: "set fl1 \<subseteq> set fl'" using f2(1) by (simp add: freed_def)
  have "\<forall>i \<in> set ns. page_type (st_pages s (word_of_nat i)) \<noteq> PAGE_TYPE_FREE \<longrightarrow> word_of_nat i \<in> set fl'"
  proof (intro ballI impI)
    fix i assume i: "i \<in> set ns" "page_type (st_pages s (word_of_nat i)) \<noteq> PAGE_TYPE_FREE"
    show "word_of_nat i \<in> set fl'"
    proof (cases "(word_of_nat i :: page_id) \<in> set fl1")
      case False
      then have "st_pages ?s (word_of_nat i) = st_pages s (word_of_nat i)" using f1(1) by (simp add: freed_def)
      then show ?thesis using i f2(2) by metis
    qed (use sub in blast)
  qed
  moreover have "page_type (st_pages s ?p) \<noteq> PAGE_TYPE_FREE \<longrightarrow> ?p \<in> set fl'" using f1(2) sub by blast
  ultimately show ?case using freed_trans [OF f1(1) f2(1)] by auto
qed

theorem free_all_pages_correct:
  assumes ok: "store_ok s fl"
  shows "\<exists>fl'. freed s fl (free_all_pages s) fl'
    \<and> (\<forall>p. in_use s fl p \<and> page_type (st_pages s p) \<noteq> PAGE_TYPE_FREE \<longrightarrow> p \<in> set fl')"
proof -
  let ?n = "unat (hd_next_page_id (st_hdr s))"
  have lt: "?n < 2 ^ 32" using unat_lt_u32 [of "hd_next_page_id (st_hdr s)"] by simp
  have w: "unat (word_of_nat i :: page_id) = i" if "i < ?n" for i
    using less_trans [OF that lt] by (simp add: unat_of_nat)
  have "\<forall>i \<in> set [1..<?n]. word_of_nat i \<noteq> (0 :: page_id) \<and> word_of_nat i < hd_next_page_id (st_hdr s)"
  proof
    fix i assume "i \<in> set [1..<?n]"
    then have "unat (word_of_nat i :: page_id) = i" "0 < i" "i < ?n" using w by auto
    then show "word_of_nat i \<noteq> (0 :: page_id) \<and> word_of_nat i < hd_next_page_id (st_hdr s)"
      by (simp add: word_less_nat_alt flip: unat_eq_0)
  qed
  from free_pages [OF ok this] obtain fl' where F: "freed s fl (free_all_pages s) fl'"
    "\<forall>i \<in> set [1..<?n]. page_type (st_pages s (word_of_nat i)) \<noteq> PAGE_TYPE_FREE \<longrightarrow> word_of_nat i \<in> set fl'"
    unfolding free_all_pages_def by blast
  have "p \<in> set fl'" if "in_use s fl p" "page_type (st_pages s p) \<noteq> PAGE_TYPE_FREE" for p
  proof -
    have "unat p \<noteq> 0" "unat p < ?n" using that(1) by (auto simp: in_use_def unat_eq_0 word_less_nat_alt)
    then have "unat p \<in> set [1..<?n]" by simp
    with F(2) have "page_type (st_pages s (word_of_nat (unat p))) \<noteq> PAGE_TYPE_FREE \<longrightarrow> (word_of_nat (unat p) :: page_id) \<in> set fl'" by blast
    then show ?thesis using that(2) by simp
  qed
  then show ?thesis using F(1) by blast
qed

section \<open>The two pages of an empty database\<close>

lemma take_free_page:
  assumes ok: "store_ok s (q # fl)"
  shows "\<exists>s'. st_alloc s = (q, s') \<and> store_ok s' fl \<and> st_pages s' = (st_pages s)(q := page_zero s)
    \<and> st_hdr s' = (st_hdr s)\<lparr>hd_free_page_head := hd_free_page_head (st_hdr s')\<rparr> \<and> st_page_size s' = st_page_size s
    \<and> in_use s' fl q"
proof -
  obtain p s' where a: "st_alloc s = (p, s')" by (cases "st_alloc s")
  from ok a show ?thesis
  proof (cases rule: st_alloc_cases)
    case (reuse rest)
    then show ?thesis using a ok by (auto simp: store_ok_def in_use_def)
  qed simp
qed

lemma empty_leaf_node:
  assumes "length b = ps" "20 \<le> ps"
  shows "node_at ps (mwrite b 0 (put_leaf_hdr empty_leaf_hdr)) (LeafN 0 [])"
  using node_at_write_leaf [of b ps "[]" empty_leaf_hdr] assms
  by (simp add: empty_leaf_hdr_def write_leaf_def put_array_def mwrite_def)

lemma empty_database:
  assumes ok: "store_ok s fl" and p: "in_use s fl p" "in_use s fl q" "p \<noteq> q"
    and heap: "st_pages s p = mwrite b 0 (put_heap_hdr fresh_heap_hdr)" "length b = unat (st_page_size s)"
    and leaf: "st_pages s q = mwrite c 0 (put_leaf_hdr empty_leaf_hdr)" "length c = unat (st_page_size s)"
    and hdr: "hd_first_heap_page_id (st_hdr s) = p" "hd_root_index_page_id (st_hdr s) = q" "st_last_heap s = p"
      "hd_column_count (st_hdr s) = 0" "hd_row_count (st_hdr s) = 0" "length (hd_columns (st_hdr s)) = MAX_COLUMNS"
  shows "no_table s fl [p] (Leaf q [])"
proof -
  note S = store_okD [OF ok]
  have len: "16 \<le> length b" "length b < 65536" using S(3,4) heap(2) by simp_all
  have fresh: "get_heap_hdr (st_pages s p) = fresh_heap_hdr" using len(1) by (simp add: heap(1) hdr_at_put_hdr)
  have fields: "hph_next_heap_page_id fresh_heap_hdr = 0" "hph_free_slot_head fresh_heap_hdr = SLOT_NONE" by (simp_all add: fresh_heap_hdr_def)
  note F = heap_page_ok_fresh [OF len]
  have n: "p \<noteq> 0" "q \<noteq> 0" using p by (simp_all add: in_use_def)
  have "heap_ok s fl rs [p] \<and> (\<forall>ref. heap_rows s rs [p] ref = None)" for rs
    using F [of rs, folded heap(1)] n p(1) hdr(1,3) heap(2) by (simp add: heap_ok_def heap_rows_def fresh fields)
  moreover have "index_tree s fl 0 (Leaf q [])"
    using empty_leaf_node [OF leaf(2)] S(3) n p(2) hdr(2)
    by (auto simp: index_tree_def root_id_def bt_ok_Leaf keys_between_def leaf(1))
  ultimately show ?thesis using ok p(3) hdr by (simp add: no_table_def index_map_def)
qed

section \<open>The statement\<close>

lemma page_type_heap: "page_type b = hph_page_type (get_heap_hdr b)"
  by (simp add: page_type_def get_heap_hdr_def)

lemma index_root_type:
  assumes "index_tree s fl h t"
  shows "page_type (st_pages s (root_id s)) \<in> {PAGE_TYPE_LEAF, PAGE_TYPE_INTERNAL}" "root_id s \<in> set (pids t)"
proof -
  have b: "bt_ok (unat (st_page_size s)) (st_pages s) h 0 (2 ^ 64) t" "pid_of t = root_id s" using assms by (simp_all add: index_tree_def)
  from b show "root_id s \<in> set (pids t)" by (cases t) auto
  from b show "page_type (st_pages s (root_id s)) \<in> {PAGE_TYPE_LEAF, PAGE_TYPE_INTERNAL}"
    by (cases t) (auto simp: bt_ok_Leaf bt_ok_Inner node_at_def)
qed

lemma two_members: "x \<in> set l \<Longrightarrow> y \<in> set l \<Longrightarrow> x \<noteq> y \<Longrightarrow> \<exists>a b r. l = a # b # r"
  by (cases l; cases "tl l") auto

theorem exec_drop_table_correct:
  assumes ok: "db_ok s fl chain h t" and arr: "length (hd_columns (st_hdr s)) = MAX_COLUMNS"
  shows "\<exists>s' fl' p q. exec_drop_table s stmt = (done_with (Table_dropped (table_name stmt)), s')
    \<and> no_table s' fl' [p] (Leaf q []) \<and> hd_next_id (st_hdr s') = 1
    \<and> hd_next_page_id (st_hdr s') = hd_next_page_id (st_hdr s) \<and> st_page_size s' = st_page_size s"
proof -
  note D = db_okD [OF ok] and H = heap_okD [OF db_okD(2) [OF ok]]
  from free_all_pages_correct [OF D(1)] obtain fl1 where F: "freed s fl (free_all_pages s) fl1"
    "\<And>p. in_use s fl p \<Longrightarrow> page_type (st_pages s p) \<noteq> PAGE_TYPE_FREE \<Longrightarrow> p \<in> set fl1" by blast
  let ?s1 = "free_all_pages s"
  have "st_last_heap s \<in> set fl1"
    using H(5,7) heap_page_okD(3) [OF H(6) [OF H(7)]] by (intro F(2)) (auto simp: page_type_heap)
  moreover have "root_id s \<in> set fl1"
    using index_root_type [OF D(3)] D(3) by (intro F(2)) (auto simp: index_tree_def)
  moreover have "st_last_heap s \<noteq> root_id s" using H(7) index_root_type(2) [OF D(3)] D(4) by auto
  ultimately obtain p q fl2 where fl1: "fl1 = p # q # fl2" using two_members by metis
  note S1 = F(1) [unfolded freed_def fl1]
  have pq: "p \<noteq> q" using S1 by (auto simp: store_ok_def)
  from take_free_page [of ?s1 p "q # fl2"] S1 obtain s2 where A: "st_alloc ?s1 = (p, s2)" "store_ok s2 (q # fl2)"
    "st_pages s2 = (st_pages ?s1)(p := page_zero ?s1)"
    "st_hdr s2 = (st_hdr ?s1)\<lparr>hd_free_page_head := hd_free_page_head (st_hdr s2)\<rparr>" "st_page_size s2 = st_page_size ?s1"
    "in_use s2 (q # fl2) p" by blast
  let ?hp = "mwrite (st_pages s2 p) 0 (put_heap_hdr fresh_heap_hdr)"
  let ?s3 = "st_put s2 p ?hp"
  note L2 = store_okD(1) [OF A(2)]
  have big: "20 \<le> unat (st_page_size s2)" using store_okD(3) [OF A(2)] by simp
  have "store_ok ?s3 (q # fl2)"
    by (rule store_ok_put [OF A(2)]) (use A(6) L2 big in \<open>auto simp: in_use_def length_mwrite heap_hdr.length_enc\<close>)
  from take_free_page [OF this] obtain s4 where B: "st_alloc ?s3 = (q, s4)" "store_ok s4 fl2"
    "st_pages s4 = (st_pages ?s3)(q := page_zero ?s3)"
    "st_hdr s4 = (st_hdr ?s3)\<lparr>hd_free_page_head := hd_free_page_head (st_hdr s4)\<rparr>" "st_page_size s4 = st_page_size ?s3"
    "in_use s4 fl2 q" by blast
  let ?lf = "mwrite (st_pages s4 q) 0 (put_leaf_hdr empty_leaf_hdr)"
  let ?s5 = "st_put s4 q ?lf"
  note L4 = store_okD(1) [OF B(2)]
  have ok5: "store_ok ?s5 fl2"
    by (rule store_ok_put [OF B(2)]) (use B(5,6) L4 big in \<open>auto simp: in_use_def length_mwrite leaf_hdr.length_enc\<close>)
  define hdr where "hdr = (st_hdr ?s5)\<lparr>hd_column_count := 0, hd_row_size := 0, hd_row_count := 0, hd_next_id := 1,
      hd_first_heap_page_id := p, hd_root_index_page_id := q, hd_columns := map (\<lambda>_. zero_column) (hd_columns (st_hdr ?s5))\<rparr>"
  let ?s' = "?s5\<lparr>st_hdr := hdr, st_last_heap := p, st_free_hint := False\<rparr>"
  have np: "hd_next_page_id (st_hdr s4) = hd_next_page_id (st_hdr s2)" "hd_next_page_id (st_hdr s2) = hd_next_page_id (st_hdr s)"
    "hd_columns (st_hdr s4) = hd_columns (st_hdr s)"
    using arg_cong [OF B(4), of hd_next_page_id] arg_cong [OF A(4), of hd_next_page_id] arg_cong [OF conjunct1 [OF conjunct2 [OF conjunct2 [OF conjunct2 [OF S1]]]], of hd_next_page_id]
      arg_cong [OF B(4), of hd_columns] arg_cong [OF A(4), of hd_columns] arg_cong [OF conjunct1 [OF conjunct2 [OF conjunct2 [OF conjunct2 [OF S1]]]], of hd_columns] by simp_all
  have ok': "store_ok ?s' fl2" using ok5 by (simp add: store_ok_def hdr_def)
  have use: "in_use ?s' fl2 p" "in_use ?s' fl2 q" using A(6) B(6) np(1) by (simp_all add: in_use_def hdr_def)
  have "no_table ?s' fl2 [p] (Leaf q [])"
  proof (rule empty_database [OF ok' use pq])
    show "st_pages ?s' p = mwrite (st_pages s2 p) 0 (put_heap_hdr fresh_heap_hdr)" using pq B(3) by simp
    show "st_pages ?s' q = mwrite (st_pages s4 q) 0 (put_leaf_hdr empty_leaf_hdr)" by simp
    show "length (st_pages s2 p) = unat (st_page_size ?s')" "length (st_pages s4 q) = unat (st_page_size ?s')"
      using L2 L4 B(5) by simp_all
    show "hd_column_count (st_hdr ?s') = 0" "hd_row_count (st_hdr ?s') = 0" "length (hd_columns (st_hdr ?s')) = MAX_COLUMNS"
      using arr np(3) by (simp_all add: hdr_def)
  qed (simp_all add: hdr_def)
  moreover have "exec_drop_table s stmt = (done_with (Table_dropped (table_name stmt)), ?s')"
  proof -
    have "hd_column_count (st_hdr s) \<noteq> 0" using D(5) by (auto simp: table_schema_def)
    then show ?thesis using A(1) B(1) by (simp add: exec_drop_table_def Let_def hdr_def)
  qed
  moreover have "hd_next_id (st_hdr ?s') = 1" "hd_next_page_id (st_hdr ?s') = hd_next_page_id (st_hdr s)" "st_page_size ?s' = st_page_size s"
    using np A(5) B(5) S1 by (simp_all add: hdr_def)
  ultimately show ?thesis by blast
qed

end
