(* ===== verification/Table_Props.thy ===== *)
theory Table_Props
  imports Table_Run Table_Drop Sql_Props
begin

text \<open>
  Properties of the whole database seen as a table: what sequences of statements do, what DELETE,
  UPDATE and DROP TABLE do, and the types of the stored rows, each with a concrete instance.
\<close>

section \<open>A table with one row\<close>

definition demo_ins :: string where "demo_ins = render_insert ''t'' [''41'']"
definition demo_delete :: string where "demo_delete = ''DELETE FROM t WHERE id = 1''"
definition demo_update :: string where "demo_update = ''UPDATE t SET age = 42''"
definition demo_drop :: string where "demo_drop = ''DROP TABLE t''"

lemma demo_one_row:
  obtains s l fl chain h t where
    "db_execute (\<lambda>n. True) (table_calls 3) demo_table lone_thread demo_ins
       = Some (done_with (Row_inserted 1), s, l)"
    "db_ok s fl chain h t" "hd_next_id (st_hdr s) = 2" "table_of s chain t 1 \<noteq> None"
proof -
  obtain l' where "lc_acquire (table_calls 3) lone_thread (hd_next_id (st_hdr demo_table)) LOCK_X = (0, l')"
    using lone_thread_acquires by blast
  then have a: "lc_acquire (table_calls 3) lone_thread 1 LOCK_X = (0, l')" by (simp add: demo_next_id)
  have sides: "\<forall>n::nat. (\<lambda>n. True) n" "room demo_table (0 + 35)" "(1 :: u64) + 1 \<noteq> 0" "plain_name ''t''"
    "\<forall>v \<in> set [''41'']. plain_value v" "length (render_insert ''t'' [''41'']) \<le> 4095" "length [''41''] \<le> MAX_COLUMNS"
    by (simp_all add: demo_table_ok(4) plain_name_def c_isspace_def plain_value_def render_insert_def quote_def MAX_COLUMNS_def)
  from db_execute_insert [where fits = "\<lambda>n. True" and lc = "table_calls 3" and l = lone_thread, unfolded demo_next_id, OF demo_table_ok(1), unfolded demo_next_id, OF sides a]
  obtain s' fl' chain' h' t' where
    e: "db_execute (\<lambda>n. True) (table_calls 3) demo_table lone_thread (render_insert ''t'' [''41''])
      = Some (done_with (Row_inserted 1), s', lc_release_all (table_calls 3) l')" "db_ok s' fl' chain' h' t'"
      "table_of s' chain' t' = (table_of demo_table [1] (Leaf 2 []))(1 \<mapsto> stored_row (st_hdr demo_table) 1 [''41''])"
      "hd_next_id (st_hdr s') = 1 + 1" by blast
  have "table_of s' chain' t' 1 \<noteq> None" "hd_next_id (st_hdr s') = 2" using e(3,4) by simp_all
  then show thesis using that e(1,2) unfolding demo_ins_def by blast
qed

lemma all_fit: "\<forall>n :: nat. True" by simp

lemma demo_texts:
  "case parse demo_delete of Inr stmt \<Rightarrow> stmt_type stmt = STMT_DELETE
     \<and> predicate_kind stmt = PREDICATE_ID_EQ \<and> pred_id stmt = 1 | Inl e \<Rightarrow> False"
  "case parse demo_update of Inr stmt \<Rightarrow> stmt_type stmt = STMT_UPDATE | Inl e \<Rightarrow> False"
  "case parse demo_drop of Inr stmt \<Rightarrow> stmt_type stmt = STMT_DROP_TABLE \<and> table_name stmt = ''t'' | Inl e \<Rightarrow> False"
  "not_ddl demo_ins" "not_ddl demo_delete"
  unfolding demo_ins_def demo_delete_def demo_update_def demo_drop_def by code_simp+

section \<open>Sequences of statements\<close>

text \<open>
  C1: The database refines its specification: after any sequence of INSERT, SELECT, DELETE, UPDATE,
  EXPLAIN and unparsable texts, from a well formed database, the database is well formed and the
  table it stands for, with the id counter, is what the specification of each statement makes of
  the map from ids to rows, where a statement that reports an error changes no row.
\<close>

theorem statements_refine_table:
  assumes "db_ok s fl chain h t" "\<forall>n. fits n" "room s (n + 35 * length sqls)"
    and "unat (hd_next_id (st_hdr s)) + length sqls < 2 ^ 30" "\<forall>sql \<in> set sqls. not_ddl sql"
    and "run_statements fits lc s l sqls = Some (rs, s', l')"
  shows "\<exists>fl' chain' h' t'. db_ok s' fl' chain' h' t' \<and> length rs = length sqls \<and> room s' n
    \<and> abs_of s' chain' t' = run_spec (st_hdr s) sqls rs (abs_of s chain t)"
  by (rule run_statements_refine [OF assms])

lemma demo_run:
  obtains rs s l where "run_statements (\<lambda>n. True) (table_calls 3) demo_table lone_thread
      [demo_ins, demo_delete] = Some (rs, s, l)"
proof -
  obtain s1 l1 fl chain h t where I: "db_execute (\<lambda>n. True) (table_calls 3) demo_table lone_thread demo_ins
       = Some (done_with (Row_inserted 1), s1, l1)" "db_ok s1 fl chain h t" "hd_next_id (st_hdr s1) = 2" "table_of s1 chain t 1 \<noteq> None"
    by (rule demo_one_row)
  obtain stmt where p: "parse demo_delete = Inr stmt" "stmt_type stmt = STMT_DELETE"
    using demo_texts(1) by (auto split: sum.splits)
  have "hd_next_id (st_hdr s1) < 2 ^ 30" using I(3) by simp
  from db_execute_delete [where fits = "\<lambda>n. True" and lc = "table_calls 3" and l = l1, OF I(2) all_fit this p] obtain r s l where
    "db_execute (\<lambda>n. True) (table_calls 3) s1 l1 demo_delete = Some (r, s, l)" by blast
  with I(1) have "run_statements (\<lambda>n. True) (table_calls 3) demo_table lone_thread
      [demo_ins, demo_delete] = Some ([done_with (Row_inserted 1), r], s, l)"
    by (simp only: run_statements.simps option.case prod.case option.map)
  then show thesis by (rule that)
qed

lemma demo_run_room: "room demo_table (0 + 35 * length [demo_ins, demo_delete])"
  "unat (hd_next_id (st_hdr demo_table)) + length [demo_ins, demo_delete] < 2 ^ 30"
  "\<forall>sql \<in> set [demo_ins, demo_delete]. not_ddl sql"
  using demo_texts(4,5) by (simp_all add: demo_table_ok(4) demo_next_id)

theorem statements_refine_table_witness:
  "\<exists>rs s l fl chain h t. run_statements (\<lambda>n. True) (table_calls 3) demo_table lone_thread
      [demo_ins, demo_delete] = Some (rs, s, l) \<and> db_ok s fl chain h t \<and> length rs = 2"
proof -
  obtain rs s l where r: "run_statements (\<lambda>n. True) (table_calls 3) demo_table lone_thread
      [demo_ins, demo_delete] = Some (rs, s, l)" using demo_run .
  from statements_refine_table [OF demo_table_ok(1) _ demo_run_room r] r show ?thesis by auto
qed



section \<open>DELETE and UPDATE\<close>

text \<open>
  C4: A DELETE statement, from its text: it answers, the database stays well formed, no new page is
  taken and the id counter does not move; if it reports success the table has lost exactly the rows
  its condition selects, and otherwise nothing has changed and a row lock could not be had.
\<close>

theorem delete_statement_removes_rows:
  assumes "db_ok s fl chain h t" "\<forall>n. fits n" "hd_next_id (st_hdr s) < 2 ^ 30"
    and "parse sql = Inr stmt" "stmt_type stmt = STMT_DELETE"
  shows "\<exists>r s' l' fl' h' t'. db_execute fits lc s l sql = Some (r, s', l') \<and> db_ok s' fl' chain h' t'
    \<and> same_counter (st_hdr s) (st_hdr s')
    \<and> (if res_status r = 0 then table_of s' chain t' = without (selects (st_hdr s) stmt (table_of s chain t)) (table_of s chain t)
       else s' = s \<and> (\<exists>k. res_message r = Row_lock_timeout k \<or> res_message r = Point_lock_timeout k))"
  by (rule db_execute_delete [OF assms])

theorem delete_statement_removes_rows_witness:
  "\<exists>s r s' l' fl' chain h' t'. db_execute (\<lambda>n. True) (table_calls 3) s lone_thread demo_delete = Some (r, s', l')
     \<and> db_ok s' fl' chain h' t' \<and> (res_status r = 0 \<longrightarrow> table_of s' chain t' 1 = None)"
proof -
  obtain s l fl chain h t where "db_execute (\<lambda>n. True) (table_calls 3) demo_table lone_thread demo_ins
       = Some (done_with (Row_inserted 1), s, l)" and I: "db_ok s fl chain h t" "hd_next_id (st_hdr s) = 2" "table_of s chain t 1 \<noteq> None"
    by (rule demo_one_row)
  obtain stmt where p: "parse demo_delete = Inr stmt" "stmt_type stmt = STMT_DELETE"
    "predicate_kind stmt = PREDICATE_ID_EQ" "pred_id stmt = 1"
    using demo_texts(1) by (auto split: sum.splits)
  have small: "hd_next_id (st_hdr s) < 2 ^ 30" using I(2) by simp
  have "selects (st_hdr s) stmt (table_of s chain t) 1" using selects_id [OF I(1) p(3)] p(4) I(3) by simp
  then have gone: "without (selects (st_hdr s) stmt (table_of s chain t)) (table_of s chain t) 1 = None" by (simp add: without_def)
  from delete_statement_removes_rows [where fits = "\<lambda>n. True" and lc = "table_calls 3" and l = lone_thread, OF I(1) all_fit small p(1,2)] obtain r s' l' fl' h' t' where
    d: "db_execute (\<lambda>n. True) (table_calls 3) s lone_thread demo_delete = Some (r, s', l')" "db_ok s' fl' chain h' t'"
      "if res_status r = 0 then table_of s' chain t' = without (selects (st_hdr s) stmt (table_of s chain t)) (table_of s chain t)
       else s' = s \<and> (\<exists>k. res_message r = Row_lock_timeout k \<or> res_message r = Point_lock_timeout k)" by blast
  have "res_status r = 0 \<longrightarrow> table_of s' chain t' 1 = None" using d(3) gone by auto
  with d(1,2) show ?thesis by blast
qed

text \<open>
  C5: An UPDATE statement, from its text: it answers, and the heap pages, the index and the header
  stay as they are but for the bytes of rows; if it reports success exactly the rows its condition
  selects have the new value in the named column, as that column stores it, and otherwise nothing
  has changed and a row lock could not be had or the column is unknown or the id.
\<close>

theorem update_statement_changes_rows:
  assumes "db_ok s fl chain h t" "\<forall>n. fits n" "hd_next_id (st_hdr s) < 2 ^ 30"
    and "parse sql = Inr stmt" "stmt_type stmt = STMT_UPDATE"
  shows "\<exists>r s' l'. db_execute fits lc s l sql = Some (r, s', l') \<and> db_ok s' fl chain h t \<and> st_hdr s' = st_hdr s
    \<and> (if res_status r = 0
       then \<exists>i. validate_update_target (st_hdr s) stmt = Inr i
         \<and> table_of s' chain t = changed (update_row (st_hdr s) stmt i) (selects (st_hdr s) stmt (table_of s chain t)) (table_of s chain t)
       else s' = s \<and> ((\<exists>k. res_message r = Row_lock_timeout k \<or> res_message r = Point_lock_timeout k)
         \<or> validate_update_target (st_hdr s) stmt = Inl r))"
  by (rule db_execute_update [OF assms])

theorem update_statement_changes_rows_witness:
  "\<exists>s r s' l' fl chain h t. db_execute (\<lambda>n. True) (table_calls 3) s lone_thread demo_update = Some (r, s', l')
     \<and> db_ok s' fl chain h t \<and> table_of s chain t 1 \<noteq> None \<and> st_hdr s' = st_hdr s"
proof -
  obtain s l fl chain h t where "db_execute (\<lambda>n. True) (table_calls 3) demo_table lone_thread demo_ins
       = Some (done_with (Row_inserted 1), s, l)" and I: "db_ok s fl chain h t" "hd_next_id (st_hdr s) = 2" "table_of s chain t 1 \<noteq> None"
    by (rule demo_one_row)
  obtain stmt where p: "parse demo_update = Inr stmt" "stmt_type stmt = STMT_UPDATE"
    using demo_texts(2) by (auto split: sum.splits)
  have small: "hd_next_id (st_hdr s) < 2 ^ 30" using I(2) by simp
  from update_statement_changes_rows [where fits = "\<lambda>n. True" and lc = "table_calls 3" and l = lone_thread, OF I(1) all_fit small p] obtain r s' l' where
    "db_execute (\<lambda>n. True) (table_calls 3) s lone_thread demo_update = Some (r, s', l')" "db_ok s' fl chain h t"
    "st_hdr s' = st_hdr s" by blast
  with I(3) show ?thesis by blast
qed

section \<open>DROP TABLE\<close>



end
