(* ===== verification/Spec2Isabelle.thy ===== *)
theory Spec2Isabelle
  imports Storage_Props Index_Props Lock_Props Sql_Props Server_Props Table_Props
begin

text \<open>
  MiniDB, a small SQL database in C: one table in one file of fixed-size pages, with a page cache, a
  heap of rows, a B+ tree index on the id, a hand-written SQL parser, a rule-based planner, an
  executor and a row lock manager for the threads of the server. This development models it from
  the bytes of the page structures to the text of a statement and of its answer.

  \<^bold>\<open>The program and the theories.\<close> A statement comes in as text at \<open>db_execute\<close> (\<open>src/db.c\<close>), is
  parsed (\<open>src/sql/parser.c\<close>), takes the lock of its row (\<open>src/server/lock_table.c\<close>), gets a plan
  (\<open>src/sql/planner.c\<close>) and is run (\<open>src/sql/executor.c\<close>) on the heap (\<open>src/storage/table.c\<close>,
  \<open>schema.c\<close>) and the index (\<open>src/storage/bptree.c\<close>), which read and write pages through the pager
  (\<open>src/storage/pager.c\<close>); then every lock of its thread is released.

    \<^item> \<open>Prelude\<close>: lemmas on words, lists and maps. \<open>Bytes\<close>, \<open>Page_Format\<close>: little-endian
      integers, reading and writing byte ranges, and each packed struct of
      \<open>include/storage/page_format.h\<close> as a record with its encoding and decoding.
    \<^item> \<open>Pager\<close>: \<open>pager_t\<close> with frames, hash chains and file; \<open>evict_frame\<close>, \<open>pager_get_page\<close>,
      allocation, release, the watermark flush, opening and closing. \<open>Frame_Index\<close> to
      \<open>Pager_Durable\<close>: its invariant, each operation, and the refinement of the abstract
      \<open>Page_Store\<close>, a map from page numbers to contents with the header and the free list.
      \<open>RW_Lock\<close>, \<open>Page_Latch\<close>: the latches of the frames, where each call is split where it gives up
      \<open>pager_mutex\<close> and the steps of all threads interleave.
    \<^item> \<open>Schema\<close>: column layout, \<open>row_serialize\<close>, \<open>row_deserialize\<close>. \<open>Heap_Page\<close>, \<open>Heap_Table\<close>: the
      slotted page and \<open>heap_insert\<close>, \<open>heap_fetch\<close>, \<open>heap_delete\<close>, \<open>heap_scan\<close> on the page store.
      \<open>Heap_Rows\<close>, \<open>Heap_Overwrite\<close>, \<open>Heap_Contract\<close>: the heap as a finite map from references to
      rows, a row changed in its slot, and the interface a client relies on.
    \<^item> \<open>BPlus_Node\<close>, \<open>BPlus_Tree\<close>: the nodes as pages and every operation of the tree. \<open>BPlus_Inv\<close>
      to \<open>BPlus_Contract\<close>: the pages as a tree \<open>bt\<close>, its invariant, search, range scan, insertion
      with every split, and the index as a map from ids to references. \<open>BPlus_Shrink\<close>, \<open>BPlus_Pairs\<close>,
      \<open>BPlus_Frame\<close>, \<open>BPlus_Delete\<close>, \<open>BPlus_Leaves\<close>: deletion with its borrows and merges, the chain
      of leaves and the shrinking of the root. \<open>Index_Edits\<close>: sequences of operations on the index.
    \<^item> \<open>Lock_Table\<close>: the lock table and a step relation over all threads' operations. \<open>Lock_Inv\<close>,
      \<open>Lock_Writers\<close>: its invariant and the count of waiting writers. \<open>Lock_Manager\<close>: the interface
      the executor uses, a locale; \<open>Lock_Calls\<close>: the lock table as its instance, where a call runs
      against any schedule of the other threads' events.
    \<^item> \<open>Sql_Parser\<close>, \<open>Parser_Correct\<close>, \<open>Planner\<close>: text to statement to plan.
    \<^item> \<open>Exec_Values\<close>, \<open>Exec_Sort\<close>, \<open>Executor\<close>: predicates, values, the output buffer, quicksort and
      the top-k heap, and one function per access path. \<open>Sort_Correct\<close>, \<open>Topk_Correct\<close>,
      \<open>Exec_Render\<close>, \<open>Order_By\<close>: sorting, selection, and what a scan puts out.
    \<^item> \<open>Db_Execute\<close>: \<open>determine_lock\<close> and \<open>db_execute\<close>. \<open>Engine_Lock\<close>: the lock that lets CREATE TABLE
      and DROP TABLE run alone. \<open>Table_Db\<close>, \<open>Table_Create\<close>, \<open>Table_Insert\<close>,
      \<open>Table_Select\<close>, \<open>Range_Db\<close>: the database as a table, a map from ids to rows, and what each
      statement does to it or shows of it. \<open>Table_Edit\<close>, \<open>Table_Sweep\<close>: DELETE and UPDATE, by id and
      by a scan whose ids are locked first. \<open>Table_Drop\<close>: DROP TABLE. \<open>Table_Run\<close>: sequences of
      statements from their text on, against the abstract table.
    \<^item> \<open>Messages\<close>: the bytes of every message. \<open>Http\<close>, \<open>Http_Correct\<close>: reading a request and writing
      an answer (\<open>src/server/http.c\<close>). \<open>Server\<close>, \<open>Server_Correct\<close>: one request, the statistics, the
      table of connections and a step relation over the server's threads (\<open>src/server/server.c\<close>).
      \<open>Repl\<close>, \<open>Terminal_Correct\<close>: the command line, the meta commands with \<open>bptree_print\<close>, and the loop
      of the terminal (\<open>src/main.c\<close>).
    \<^item> \<open>Storage_Props\<close>, \<open>Index_Props\<close>, \<open>Lock_Props\<close>, \<open>Sql_Props\<close>, \<open>Table_Props\<close>, \<open>Server_Props\<close>:
      the properties, each with a concrete instance.

  \<^bold>\<open>State.\<close> A page is a list of bytes; \<open>store\<close> is the pager's abstract state, on which heap, index and
  executor run, and \<open>Storage_Props\<close> shows that each pager operation refines it. \<open>db_ok s fl chain h t\<close>
  says that store \<open>s\<close> with free list \<open>fl\<close> holds a heap in the pages \<open>chain\<close> and an index \<open>t\<close> of
  height \<open>h\<close> that share no page and agree: an id is indexed exactly when a live row carries it, ids
  are below the counter and the header counts the rows. \<open>table_of\<close> is the table it stands for.

  \<^bold>\<open>Conventions.\<close> Machine integers keep their width. The result \<open>None\<close> is undefined behaviour of C or
  not returning; errors the program reports are values. Whether an allocation succeeds (\<open>fits\<close>,
  \<open>calloc\<close>) is an argument, and so is the lock manager. Loops that may not end are
  \<open>partial_function (option)\<close>, so a theorem that says \<open>Some\<close> says the loop ends. \<open>room s n\<close> bounds the
  page numbers: \<open>n\<close> more pages can be allocated before they wrap; 35 suffice for an INSERT, whose tree
  has at most 32 levels. Small bounds on ids and rows (below \<open>2 ^ 30\<close>) keep 32-bit counters and
  capacities from wrapping.

  \<^bold>\<open>Not modelled.\<close> The page operations of heap, index and executor do not interleave with those of other
  statements: each runs on the page store by itself, and latches, engine lock, row locks and the
  server's threads have step relations of their own. In \<open>Page_Latch\<close> allocation is not among the
  interleaved steps, and a client's write is one step with its dirty mark. The sockets' set-up, the
  messages of \<open>log_flushes\<close>, the clock of the terminal's debug line, and the programs under \<open>tools\<close>,
  which drive the program from outside.
\<close>

end
